(* ===== verification/Prelude.thy ===== *)
theory Prelude
  imports Main "HOL-Library.Word"
begin

text \<open>
  Shared vocabulary of the development: the machine integers of the Rust sources, results of
  fallible code, little-endian byte encodings, and the generic list facts that several
  components use.

  Offsets, lengths and identifiers of type \<^verbatim>\<open>u64\<close>/\<^verbatim>\<open>usize\<close> are modelled as \<^typ>\<open>nat\<close>, with the
  wrap-around of release builds written out (\<^verbatim>\<open>Cargo.toml\<close> leaves \<^verbatim>\<open>overflow-checks\<close> off in
  \<^verbatim>\<open>profile.release\<close>). Code that works on bits uses \<^typ>\<open>'a word\<close>.
\<close>

unbundle bit_operations_syntax

named_theorems u64_simps \<open>no-overflow evaluation of the u64 operations\<close>
named_theorems result_simps \<open>inversion of successful results\<close>

type_synonym u8 = "8 word"
type_synonym u16 = "16 word"
type_synonym u32 = "32 word"
type_synonym u64 = "64 word"
type_synonym bytes = "u8 list"

section \<open>Unsigned 64-bit arithmetic on natural numbers\<close>

definition u64_limit :: nat where
  "u64_limit = 2 ^ 64"

definition u32_limit :: nat where
  "u32_limit = 2 ^ 32"

definition add_u64 :: "nat \<Rightarrow> nat \<Rightarrow> nat" where
  "add_u64 a b = (a + b) mod u64_limit"

definition sub_u64 :: "nat \<Rightarrow> nat \<Rightarrow> nat" where
  "sub_u64 a b = (a + (u64_limit - b mod u64_limit)) mod u64_limit"

definition mul_u64 :: "nat \<Rightarrow> nat \<Rightarrow> nat" where
  "mul_u64 a b = (a * b) mod u64_limit"

definition checked_add_u64 :: "nat \<Rightarrow> nat \<Rightarrow> nat option" where
  "checked_add_u64 a b = (if a + b < u64_limit then Some (a + b) else None)"

definition checked_sub_u64 :: "nat \<Rightarrow> nat \<Rightarrow> nat option" where
  "checked_sub_u64 a b = (if b \<le> a then Some (a - b) else None)"

definition checked_mul_u64 :: "nat \<Rightarrow> nat \<Rightarrow> nat option" where
  "checked_mul_u64 a b = (if a * b < u64_limit then Some (a * b) else None)"

definition saturating_add_u64 :: "nat \<Rightarrow> nat \<Rightarrow> nat" where
  "saturating_add_u64 a b = min (a + b) (u64_limit - 1)"

definition div_ceil :: "nat \<Rightarrow> nat \<Rightarrow> nat" where
  "div_ceil a b = a div b + (if a mod b = 0 then 0 else 1)"

lemma u64_limit_pos [simp]: "0 < u64_limit"
  by (simp add: u64_limit_def)

lemma add_u64_exact [u64_simps]: "a + b < u64_limit \<Longrightarrow> add_u64 a b = a + b"
  by (simp add: add_u64_def)

lemma mul_u64_exact [u64_simps]: "a * b < u64_limit \<Longrightarrow> mul_u64 a b = a * b"
  by (simp add: mul_u64_def)

lemma sub_u64_exact [u64_simps]:
  assumes "b \<le> a" "a < u64_limit"
  shows "sub_u64 a b = a - b"
proof -
  have "b mod u64_limit = b" using assms by simp
  then have "sub_u64 a b = ((a - b) + u64_limit) mod u64_limit"
    using assms by (simp add: sub_u64_def)
  also have "\<dots> = a - b" using assms by (subst mod_add_self2) simp
  finally show ?thesis .
qed

lemma mul_u64_zero [simp]: "mul_u64 0 b = 0"
  by (simp add: mul_u64_def)

lemma sub_u64_zero [simp]: "a < u64_limit \<Longrightarrow> sub_u64 a 0 = a"
  by (simp add: sub_u64_exact)

lemma checked_add_u64_Some [simp]:
  "checked_add_u64 a b = Some c \<longleftrightarrow> c = a + b \<and> a + b < u64_limit"
  by (auto simp: checked_add_u64_def)

lemma checked_add_u64_None [simp]:
  "checked_add_u64 a b = None \<longleftrightarrow> u64_limit \<le> a + b"
  by (auto simp: checked_add_u64_def)

lemma checked_sub_u64_Some [simp]:
  "checked_sub_u64 a b = Some c \<longleftrightarrow> b \<le> a \<and> c = a - b"
  by (auto simp: checked_sub_u64_def)

lemma checked_mul_u64_Some [simp]:
  "checked_mul_u64 a b = Some c \<longleftrightarrow> c = a * b \<and> a * b < u64_limit"
  by (auto simp: checked_mul_u64_def)

lemma div_ceil_ge:
  assumes "0 < b"
  shows "a \<le> div_ceil a b * b"
proof (cases "a mod b = 0")
  case True
  then show ?thesis using div_mult_mod_eq [of a b] by (simp add: div_ceil_def)
next
  case False
  have "a div b * b + a mod b = a" by (rule div_mult_mod_eq)
  moreover have "a mod b < b" using assms by simp
  ultimately have "a \<le> a div b * b + b" by linarith
  then show ?thesis using False by (simp add: div_ceil_def)
qed

section \<open>Results of fallible code\<close>

definition rbind :: "'e + 'a \<Rightarrow> ('a \<Rightarrow> 'e + 'b) \<Rightarrow> 'e + 'b" where
  "rbind m f = (case m of Inl e \<Rightarrow> Inl e | Inr x \<Rightarrow> f x)"

definition ok_or :: "'e \<Rightarrow> 'a option \<Rightarrow> 'e + 'a" where
  "ok_or e m = (case m of None \<Rightarrow> Inl e | Some x \<Rightarrow> Inr x)"

lemma rbind_simps [simp]:
  "rbind (Inl e) f = Inl e"
  "rbind (Inr x) f = f x"
  by (simp_all add: rbind_def)

lemma ok_or_simps [simp]:
  "ok_or e None = Inl e"
  "ok_or e (Some x) = Inr x"
  by (simp_all add: ok_or_def)

lemma rbind_cong [fundef_cong]: "m = m' \<Longrightarrow> (\<And>x. m' = Inr x \<Longrightarrow> f x = f' x) \<Longrightarrow> rbind m f = rbind m' f'"
  by (cases m') (simp_all add: rbind_def)

lemma rbind_Inr_iff [result_simps]:
  "rbind m f = Inr y \<longleftrightarrow> (\<exists>x. m = Inr x \<and> f x = Inr y)"
  by (cases m) auto

lemma ok_or_Inr_iff [result_simps]: "ok_or e m = Inr x \<longleftrightarrow> m = Some x"
  by (cases m) auto

section \<open>Bits and bounds of words\<close>

lemma bit_less_bound:
  fixes w :: "'a::len word"
  assumes "unat w < 2 ^ k" and "bit w n"
  shows "n < k"
proof (rule ccontr)
  assume "\<not> n < k"
  then have "(2 :: nat) ^ k \<le> 2 ^ n" by simp
  then have "unat w < 2 ^ n" using assms(1) by linarith
  then have "\<not> bit (unat w) n" by (simp add: bit_iff_odd)
  moreover have "bit (unat w) n" using assms(2) by (simp add: bit_simps)
  ultimately show False by blast
qed

lemma bound_from_bits:
  fixes w :: "'a::len word"
  assumes "\<And>n. bit w n \<Longrightarrow> n < k"
  shows "unat w < 2 ^ k"
proof -
  have "take_bit k (unat w) = unat w"
    using assms by (intro bit_eqI) (auto simp: bit_simps)
  then show ?thesis by (metis take_bit_nat_less_exp)
qed

section \<open>Little-endian byte strings\<close>

text \<open>
  \<^verbatim>\<open>to_le_bytes\<close> and \<^verbatim>\<open>from_le_bytes\<close> of the Rust integer types, for a value given as a natural
  number and a width in bytes.
\<close>

fun to_le_bytes :: "nat \<Rightarrow> nat \<Rightarrow> bytes" where
  "to_le_bytes 0 v = []"
| "to_le_bytes (Suc w) v = of_nat (v mod 256) # to_le_bytes w (v div 256)"

fun from_le_bytes :: "bytes \<Rightarrow> nat" where
  "from_le_bytes [] = 0"
| "from_le_bytes (b # bs) = unat b + 256 * from_le_bytes bs"

lemma length_to_le_bytes [simp]: "length (to_le_bytes w v) = w"
  by (induction w arbitrary: v) auto

lemma unat_byte_mod: "unat (of_nat (v mod 256) :: u8) = v mod 256"
  by (simp add: unat_of_nat)

lemma from_to_le_bytes [simp]: "from_le_bytes (to_le_bytes w v) = v mod 256 ^ w"
proof (induction w arbitrary: v)
  case 0
  then show ?case by simp
next
  case (Suc w)
  have "v mod 256 + 256 * (v div 256 mod 256 ^ w) = v mod (256 * 256 ^ w)"
    by (simp add: mod_mult2_eq)
  with Suc show ?case by (simp add: unat_byte_mod)
qed

lemma from_le_bytes_less: "from_le_bytes bs < 256 ^ length bs"
proof (induction bs)
  case Nil
  then show ?case by simp
next
  case (Cons b bs)
  have "unat b < 256"
    using unsigned_less [of b] by simp
  with Cons show ?case by simp
qed

lemma to_from_le_bytes [simp]: "length bs = w \<Longrightarrow> to_le_bytes w (from_le_bytes bs) = bs"
proof (induction bs arbitrary: w)
  case Nil
  then show ?case by simp
next
  case (Cons b bs)
  then obtain v where w: "w = Suc v" "length bs = v" by auto
  have "unat b < 256"
    using unsigned_less [of b] by simp
  then have "(unat b + 256 * from_le_bytes bs) mod 256 = unat b"
    and "(unat b + 256 * from_le_bytes bs) div 256 = from_le_bytes bs"
    by simp_all
  with w Cons.IH [of v] show ?case by simp
qed

text \<open>\<^verbatim>\<open>&data[a..a + n]\<close>.\<close>

definition bytes_at :: "bytes \<Rightarrow> nat \<Rightarrow> nat \<Rightarrow> bytes" where
  "bytes_at data a n = take n (drop a data)"

lemma length_bytes_at [simp]: "a + n \<le> length data \<Longrightarrow> length (bytes_at data a n) = n"
  by (simp add: bytes_at_def)

lemma bytes_at_append [simp]: "length pre = a \<Longrightarrow> length mid = n \<Longrightarrow> bytes_at (pre @ mid @ post) a n = mid"
  by (simp add: bytes_at_def)

section \<open>Overwriting a range of a buffer\<close>

text \<open>\<^verbatim>\<open>dst[start..start + src.len()].copy_from_slice(src)\<close> on a buffer long enough for it.\<close>

definition overwrite :: "'a list \<Rightarrow> nat \<Rightarrow> 'a list \<Rightarrow> 'a list" where
  "overwrite dst start src = take start dst @ src @ drop (start + length src) dst"

lemma length_overwrite [simp]:
  "start + length src \<le> length dst \<Longrightarrow> length (overwrite dst start src) = length dst"
  by (simp add: overwrite_def)

lemma nth_overwrite:
  assumes "start + length src \<le> length dst" and "i < length dst"
  shows "overwrite dst start src ! i =
    (if start \<le> i \<and> i < start + length src then src ! (i - start) else dst ! i)"
  using assms by (auto simp: overwrite_def nth_append)

section \<open>Ranges\<close>

lemma upt_split:
  assumes "a \<le> b" and "b \<le> c"
  shows "[a..<c] = [a..<b] @ [b..<c]"
  using upt_add_eq_append [of a b "c - b"] assms by simp

section \<open>Wrapping sums\<close>

text \<open>\<^verbatim>\<open>Iterator::sum\<close> over \<^verbatim>\<open>u64\<close> values.\<close>

definition sum_u64 :: "nat list \<Rightarrow> nat" where
  "sum_u64 xs = fold (\<lambda>x acc. add_u64 acc x) xs 0"

lemma sum_u64_exact [u64_simps]:
  assumes "sum_list xs < u64_limit"
  shows "sum_u64 xs = sum_list xs"
proof -
  have "fold (\<lambda>x acc. add_u64 acc x) xs a = a + sum_list xs" if "a + sum_list xs < u64_limit" for a
    using that
  proof (induction xs arbitrary: a)
    case (Cons x xs)
    then show ?case by (simp add: u64_simps add.assoc)
  qed simp
  then show ?thesis using assms by (simp add: sum_u64_def)
qed

section \<open>Decimal rendering\<close>

text \<open>The \<^verbatim>\<open>Display\<close> output of an unsigned integer.\<close>

definition digit_char :: "nat \<Rightarrow> char" where
  "digit_char d = char_of (48 + d)"

fun decimal :: "nat \<Rightarrow> string" where
  "decimal n = (if n < 10 then [digit_char n] else decimal (n div 10) @ [digit_char (n mod 10)])"

declare decimal.simps [simp del]

lemma of_char_digit: "d < 10 \<Longrightarrow> of_char (digit_char d) = 48 + d"
  by (simp add: digit_char_def)

lemma digit_char_inject: "c < 10 \<Longrightarrow> d < 10 \<Longrightarrow> digit_char c = digit_char d \<longleftrightarrow> c = d"
  by (metis add_left_cancel of_char_digit)

lemma decimal_nonempty [simp]: "decimal n \<noteq> []"
  by (subst decimal.simps) simp

lemma set_decimal: "set (decimal n) \<subseteq> digit_char ` {..<10}"
proof (induction n rule: decimal.induct)
  case (1 n)
  then show ?case by (subst decimal.simps) (auto simp: image_iff)
qed

lemma slash_not_decimal [simp]: "CHR ''/'' \<notin> set (decimal n)"
proof
  assume "CHR ''/'' \<in> set (decimal n)"
  then obtain d where "d < 10" "digit_char d = CHR ''/''"
    using set_decimal [of n] by auto
  then show False using of_char_digit [of d] by simp
qed

lemma decimal_inject [simp]: "decimal m = decimal n \<longleftrightarrow> m = n"
proof
  show "decimal m = decimal n \<Longrightarrow> m = n"
  proof (induction m arbitrary: n rule: decimal.induct)
    case (1 m)
    have last: "last (decimal k) = digit_char (k mod 10)"
      and butlast: "butlast (decimal k) = (if k < 10 then [] else decimal (k div 10))" for k
      by (subst decimal.simps, simp)+
    have "m mod 10 = n mod 10"
      using last [of m] last [of n] 1(2) by (simp add: digit_char_inject)
    moreover have "m div 10 = n div 10"
    proof (cases "m < 10")
      case True
      then have "n < 10"
        using butlast [of m] butlast [of n] 1(2) decimal_nonempty [of "n div 10"]
        by (metis (full_types))
      with True show ?thesis by simp
    next
      case False
      then have "\<not> n < 10"
        using butlast [of m] butlast [of n] 1(2) decimal_nonempty [of "m div 10"]
        by (metis (full_types))
      then have "decimal (m div 10) = decimal (n div 10)"
        using False butlast [of m] butlast [of n] 1(2) by simp
      with 1(1) [OF False] show ?thesis by blast
    qed
    ultimately show "m = n" by (metis div_mult_mod_eq)
  qed
qed simp

end
