(* ===== verification/FileLock.thy ===== *)
theory FileLock
  imports Prelude
begin

text \<open>
  POSIX byte-range locks: \<^verbatim>\<open>src/src/meta/file_lock.rs\<close>, the record lists an owner holds and how a
  lock or unlock request rewrites them, conflict checks, and the lock queries. The lemmas show that
  a request changes the lock held at exactly the points of its range, that the record list stays
  sorted, disjoint and merged, and that the two conflict tests agree.
\<close>

datatype file_lock_type = RdLock | WrLock | UnLock

text \<open>The \<^verbatim>\<open>libc\<close> values \<^verbatim>\<open>F_RDLCK\<close>, \<^verbatim>\<open>F_WRLCK\<close> and \<^verbatim>\<open>F_UNLCK\<close>.\<close>

fun lock_type_as_u32 :: "file_lock_type \<Rightarrow> nat" where
  "lock_type_as_u32 RdLock = 0"
| "lock_type_as_u32 WrLock = 1"
| "lock_type_as_u32 UnLock = 2"

definition lock_type_from_u32 :: "nat \<Rightarrow> file_lock_type option" where
  "lock_type_from_u32 v =
     (if v = lock_type_as_u32 RdLock then Some RdLock
      else if v = lock_type_as_u32 WrLock then Some WrLock
      else if v = lock_type_as_u32 UnLock then Some UnLock
      else None)"

text \<open>The deserialisation visitor: integers, cast to 32 bits first, and the legacy variant names.\<close>

definition lock_type_visit_u64 :: "nat \<Rightarrow> file_lock_type option" where
  "lock_type_visit_u64 v = lock_type_from_u32 (v mod u32_limit)"

definition lock_type_visit_i64 :: "int \<Rightarrow> file_lock_type option" where
  "lock_type_visit_i64 v = (if v < 0 then None else lock_type_from_u32 (nat v mod u32_limit))"

definition lock_type_visit_str :: "string \<Rightarrow> file_lock_type option" where
  "lock_type_visit_str v =
     (if v = ''Read'' then Some RdLock
      else if v = ''Write'' then Some WrLock
      else if v = ''UnLock'' then Some UnLock
      else None)"

record file_lock_range =
  lr_start :: nat
  lr_end :: nat

definition lr_overlaps :: "file_lock_range \<Rightarrow> file_lock_range \<Rightarrow> bool" where
  "lr_overlaps self other \<longleftrightarrow> lr_end self > lr_start other \<and> lr_start self < lr_end other"

record plock_record =
  pl_type :: file_lock_type
  pl_pid :: nat
  pl_range :: file_lock_range

definition plock_new :: "file_lock_type \<Rightarrow> nat \<Rightarrow> nat \<Rightarrow> nat \<Rightarrow> plock_record" where
  "plock_new t p s e = \<lparr>pl_type = t, pl_pid = p, pl_range = \<lparr>lr_start = s, lr_end = e\<rparr>\<rparr>"

abbreviation pl_start :: "plock_record \<Rightarrow> nat" where
  "pl_start l \<equiv> lr_start (pl_range l)"

abbreviation pl_end :: "plock_record \<Rightarrow> nat" where
  "pl_end l \<equiv> lr_end (pl_range l)"

section \<open>Updating a record list\<close>

definition insertable :: "plock_record \<Rightarrow> bool" where
  "insertable nl \<longleftrightarrow> pl_type nl \<noteq> UnLock \<and> pl_start nl < pl_end nl"

text \<open>The loop over the old records; the flag is \<^verbatim>\<open>inserted\<close>.\<close>

fun update_loop :: "plock_record \<Rightarrow> plock_record list \<Rightarrow> bool \<Rightarrow> plock_record list" where
  "update_loop nl [] inserted = (if \<not> inserted \<and> insertable nl then [nl] else [])"
| "update_loop nl (l # ls) inserted =
     (if pl_end l \<le> pl_start nl then l # update_loop nl ls inserted
      else if pl_start l \<ge> pl_end nl then
        (if \<not> inserted \<and> insertable nl then nl # l # update_loop nl ls True
         else l # update_loop nl ls inserted)
      else
        (if pl_start l < pl_start nl
         then [plock_new (pl_type l) (pl_pid l) (pl_start l) (pl_start nl)] else [])
        @ (if \<not> inserted \<and> insertable nl then [nl] else [])
        @ (if pl_end l > pl_end nl
           then [plock_new (pl_type l) (pl_pid l) (pl_end nl) (pl_end l)] else [])
        @ update_loop nl ls (inserted \<or> insertable nl))"

text \<open>The final pass: a record that continues the last pushed one extends it.\<close>

definition continues :: "plock_record \<Rightarrow> plock_record \<Rightarrow> bool" where
  "continues prev r \<longleftrightarrow> pl_type prev = pl_type r \<and> pl_pid prev = pl_pid r \<and> pl_end prev = pl_start r"

fun merge_pass :: "plock_record list \<Rightarrow> plock_record list" where
  "merge_pass (prev # r # rs) =
     (if continues prev r
      then merge_pass (prev\<lparr>pl_range := (pl_range prev)\<lparr>lr_end := pl_end r\<rparr>\<rparr> # rs)
      else prev # merge_pass (r # rs))"
| "merge_pass rs = rs"

definition update_locks :: "plock_record list \<Rightarrow> plock_record \<Rightarrow> plock_record list" where
  "update_locks ls nl =
     merge_pass (filter (\<lambda>r. pl_type r \<noteq> UnLock \<and> pl_start r < pl_end r) (update_loop nl ls False))"

section \<open>Conflicts and queries\<close>

definition check_conflict :: "file_lock_type \<Rightarrow> file_lock_range \<Rightarrow> plock_record list \<Rightarrow> bool" where
  "check_conflict t rng ls \<longleftrightarrow>
     list_ex (\<lambda>l. (t = WrLock \<or> pl_type l = WrLock)
        \<and> lr_end rng > pl_start l \<and> lr_start rng < pl_end l) ls"

record file_lock_query =
  q_owner :: int
  q_lock_type :: file_lock_type
  q_range :: file_lock_range

record file_lock_info =
  i_lock_type :: file_lock_type
  i_range :: file_lock_range
  i_pid :: nat

fun get_plock_record ::
  "plock_record list \<Rightarrow> file_lock_query \<Rightarrow> nat \<Rightarrow> nat \<Rightarrow> file_lock_info option" where
  "get_plock_record [] query self_sid lock_sid = None"
| "get_plock_record (l # ls) query self_sid lock_sid =
     (if lr_overlaps (pl_range l) (q_range query)
         \<and> \<not> (pl_type l = RdLock \<and> q_lock_type query = RdLock)
      then Some \<lparr>i_lock_type = pl_type l, i_range = pl_range l,
                 i_pid = (if self_sid = lock_sid then pl_pid l else 0)\<rparr>
      else get_plock_record ls query self_sid lock_sid)"

section \<open>Well-formed record lists and the lock held at a point\<close>

fun locks_ok :: "plock_record list \<Rightarrow> bool" where
  "locks_ok [] = True"
| "locks_ok (l # ls) =
     (pl_type l \<noteq> UnLock \<and> pl_start l < pl_end l \<and> (\<forall>m\<in>set ls. pl_end l \<le> pl_start m) \<and> locks_ok ls)"

definition holds_at :: "plock_record \<Rightarrow> nat \<Rightarrow> bool" where
  "holds_at l x \<longleftrightarrow> pl_start l \<le> x \<and> x < pl_end l"

definition lock_at :: "plock_record list \<Rightarrow> nat \<Rightarrow> (file_lock_type \<times> nat) option" where
  "lock_at ls x = map_option (\<lambda>l. (pl_type l, pl_pid l)) (find (\<lambda>l. holds_at l x) ls)"

text \<open>No record continues its predecessor: the list is in merged form.\<close>

fun merged :: "plock_record list \<Rightarrow> bool" where
  "merged (l # r # rs) = (\<not> continues l r \<and> merged (r # rs))"
| "merged rs = True"

lemma plock_new_simps [simp]:
  "pl_type (plock_new t p s e) = t" "pl_pid (plock_new t p s e) = p"
  "pl_start (plock_new t p s e) = s" "pl_end (plock_new t p s e) = e"
  by (simp_all add: plock_new_def)

lemma update_loop_lower:
  assumes "\<forall>l\<in>set ls. b \<le> pl_start l" and "\<not> inserted \<and> insertable nl \<longrightarrow> b \<le> pl_start nl"
  shows "\<forall>m\<in>set (update_loop nl ls inserted). b \<le> pl_start m"
  using assms
proof (induction ls arbitrary: inserted)
  case (Cons l ls)
  have l: "b \<le> pl_start l" and ls: "\<forall>l\<in>set ls. b \<le> pl_start l" using Cons.prems(1) by simp_all
  have same: "\<forall>m\<in>set (update_loop nl ls inserted). b \<le> pl_start m"
    using Cons.IH [OF ls, of inserted] Cons.prems(2) by blast
  have after: "\<forall>m\<in>set (update_loop nl ls (inserted \<or> insertable nl)). b \<le> pl_start m"
    using Cons.IH [OF ls, of "inserted \<or> insertable nl"] by blast
  have nl: "\<forall>m\<in>set (if \<not> inserted \<and> insertable nl then [nl] else []). b \<le> pl_start m"
    using Cons.prems(2) by simp
  show ?case
  proof (cases "pl_end l \<le> pl_start nl \<or> pl_start l \<ge> pl_end nl")
    case True
    have "set (update_loop nl (l # ls) inserted) \<subseteq> {l} \<union> set (if \<not> inserted \<and> insertable nl then [nl] else [])
        \<union> set (update_loop nl ls inserted) \<union> set (update_loop nl ls (inserted \<or> insertable nl))"
      using True by (cases "pl_end l \<le> pl_start nl"; cases "\<not> inserted \<and> insertable nl") auto
    then show ?thesis using l same after nl by blast
  next
    case False
    then have "b \<le> pl_end nl" using l by simp
    moreover have "set (update_loop nl (l # ls) inserted) \<subseteq>
        {plock_new (pl_type l) (pl_pid l) (pl_start l) (pl_start nl),
         plock_new (pl_type l) (pl_pid l) (pl_end nl) (pl_end l)}
        \<union> set (if \<not> inserted \<and> insertable nl then [nl] else [])
        \<union> set (update_loop nl ls (inserted \<or> insertable nl))"
      using False by auto
    moreover have "b \<le> pl_start (plock_new (pl_type l) (pl_pid l) (pl_start l) (pl_start nl))"
      using l by simp
    moreover have "b \<le> pl_start (plock_new (pl_type l) (pl_pid l) (pl_end nl) (pl_end l))"
      using \<open>b \<le> pl_end nl\<close> by simp
    ultimately show ?thesis using nl after by blast
  qed
qed simp

lemma update_loop_after:
  assumes "\<forall>l\<in>set ls. pl_start nl \<le> pl_start l \<and> pl_start l < pl_end l"
  shows "\<forall>m\<in>set (update_loop nl ls True). pl_end nl \<le> pl_start m"
  using assms
proof (induction ls)
  case (Cons l ls)
  then have "\<not> pl_end l \<le> pl_start nl" "\<not> pl_start l < pl_start nl" by auto
  with Cons show ?case by auto
qed simp

lemma locks_ok_bounds: "locks_ok (l # ls) \<Longrightarrow> \<forall>m\<in>set ls. pl_end l \<le> pl_start m \<and> pl_start m < pl_end m"
  by (induction ls arbitrary: l) auto

lemma locks_ok_append:
  "locks_ok (xs @ ys) \<longleftrightarrow> locks_ok xs \<and> locks_ok ys \<and> (\<forall>x\<in>set xs. \<forall>y\<in>set ys. pl_end x \<le> pl_start y)"
  by (induction xs) auto

lemma locks_ok_pieces:
  assumes "locks_ok tail" and "pl_type l \<noteq> UnLock" and "\<forall>m\<in>set tail. pl_end l \<le> pl_start m"
    and "s \<le> e" and "s < pl_end l" and "pl_start l < e"
    and "pl_type nl \<noteq> UnLock \<and> pl_start nl = s \<and> pl_end nl = e \<and> s < e \<and> (\<forall>m\<in>set tail. e \<le> pl_start m)
      \<or> mid = []"
    and "mid = [] \<or> mid = [nl]"
  shows "locks_ok ((if pl_start l < s then [plock_new (pl_type l) (pl_pid l) (pl_start l) s] else [])
    @ mid @ (if e < pl_end l then [plock_new (pl_type l) (pl_pid l) e (pl_end l)] else []) @ tail)"
proof -
  have "\<forall>m\<in>set tail. s \<le> pl_start m" using assms(3,5) by fastforce
  then show ?thesis
    using assms by (cases "pl_start l < s"; cases "e < pl_end l"; cases "mid = []") auto
qed

lemma update_loop_ok:
  assumes "locks_ok ls" and "pl_start nl \<le> pl_end nl"
  shows "locks_ok (update_loop nl ls inserted)"
  using assms
proof (induction nl ls inserted rule: update_loop.induct)
  case (1 nl inserted)
  then show ?case by (simp add: insertable_def)
next
  case (2 nl l ls inserted)
  have l: "pl_type l \<noteq> UnLock" "pl_start l < pl_end l" "locks_ok ls" using 2(5) by simp_all
  have rest: "\<forall>m\<in>set ls. pl_end l \<le> pl_start m \<and> pl_start m < pl_end m"
    by (rule locks_ok_bounds [OF 2(5)])
  show ?case
  proof (cases "pl_end l \<le> pl_start nl")
    case True
    have "\<forall>m\<in>set (update_loop nl ls inserted). pl_end l \<le> pl_start m"
      using rest True by (intro update_loop_lower) auto
    then show ?thesis using 2(1) [OF True l(3) 2(6)] l True by simp
  next
    case outer: False
    show ?thesis
    proof (cases "pl_start l \<ge> pl_end nl")
      case True
      have low: "\<forall>m\<in>set (update_loop nl ls b). pl_end l \<le> pl_start m" if "\<not> b \<longrightarrow> \<not> insertable nl" for b
        using rest that by (intro update_loop_lower) auto
      show ?thesis
      proof (cases "\<not> inserted \<and> insertable nl")
        case ins: True
        have "\<forall>m\<in>set (update_loop nl ls True). pl_end nl \<le> pl_start m"
          using low [of True] True l(2) by fastforce
        then show ?thesis
          using 2(2) [OF outer True ins l(3) 2(6)] low [of True] ins True l outer
          by (simp add: insertable_def)
      next
        case no: False
        then show ?thesis
          using 2(3) [OF outer True no l(3) 2(6)] low [of inserted] True l outer by auto
      qed
    next
      case False
      let ?tail = "update_loop nl ls (inserted \<or> insertable nl)"
      have tail: "locks_ok ?tail" using 2(4) [OF outer False l(3) 2(6)] .
      have low: "\<forall>m\<in>set ?tail. pl_end l \<le> pl_start m"
        using rest by (intro update_loop_lower) auto
      have "\<forall>m\<in>set ls. pl_start nl \<le> pl_start m \<and> pl_start m < pl_end m"
        using rest outer by fastforce
      then have after: "insertable nl \<Longrightarrow> \<forall>m\<in>set ?tail. pl_end nl \<le> pl_start m"
        using update_loop_after [of ls nl] by simp
      have mid: "pl_type nl \<noteq> UnLock \<and> pl_start nl = pl_start nl \<and> pl_end nl = pl_end nl
          \<and> pl_start nl < pl_end nl \<and> (\<forall>m\<in>set ?tail. pl_end nl \<le> pl_start m)
          \<or> (if \<not> inserted \<and> insertable nl then [nl] else []) = []"
        using after by (simp add: insertable_def)
      have "update_loop nl (l # ls) inserted =
          (if pl_start l < pl_start nl
           then [plock_new (pl_type l) (pl_pid l) (pl_start l) (pl_start nl)] else [])
          @ (if \<not> inserted \<and> insertable nl then [nl] else [])
          @ (if pl_end nl < pl_end l
             then [plock_new (pl_type l) (pl_pid l) (pl_end nl) (pl_end l)] else [])
          @ ?tail"
        using outer False by (simp only: update_loop.simps if_False)
      then show ?thesis
        using locks_ok_pieces [OF tail l(1) low 2(6) _ _ mid] outer False by simp
    qed
  qed
qed

text \<open>Which lock holds at a point after the loop: the new one inside its range, the old ones outside.\<close>

definition held :: "nat \<Rightarrow> file_lock_type \<Rightarrow> nat \<Rightarrow> plock_record \<Rightarrow> bool" where
  "held x t p l \<longleftrightarrow> holds_at l x \<and> pl_type l = t \<and> pl_pid l = p"

lemma held_new:
  "held x t p (plock_new t' p' s e) \<longleftrightarrow> s \<le> x \<and> x < e \<and> t' = t \<and> p' = p"
  by (auto simp: held_def holds_at_def)

lemma list_ex_Cons: "list_ex P (y # ys) \<longleftrightarrow> P y \<or> list_ex P ys"
  by simp

lemma update_loop_points:
  assumes "pl_start nl \<le> pl_end nl"
  shows "list_ex (held x t p) (update_loop nl ls inserted) \<longleftrightarrow>
    \<not> inserted \<and> insertable nl \<and> held x t p nl
    \<or> \<not> holds_at nl x \<and> list_ex (held x t p) ls"
proof (induction ls arbitrary: inserted)
  case Nil
  show ?case by simp
next
  case (Cons l ls)
  show ?case
  proof (cases "pl_end l \<le> pl_start nl \<or> pl_start l \<ge> pl_end nl")
    case True
    then have "held x t p l \<Longrightarrow> \<not> holds_at nl x" by (auto simp: held_def holds_at_def)
    then show ?thesis
      using True Cons.IH [of True] Cons.IH [of inserted]
      by (cases "pl_end l \<le> pl_start nl"; cases "\<not> inserted \<and> insertable nl"; cases inserted)
         (simp_all add: held_def, blast+)
  next
    case False
    let ?left = "if pl_start l < pl_start nl
        then [plock_new (pl_type l) (pl_pid l) (pl_start l) (pl_start nl)] else []"
    let ?right = "if pl_end l > pl_end nl
        then [plock_new (pl_type l) (pl_pid l) (pl_end nl) (pl_end l)] else []"
    let ?mid = "if \<not> inserted \<and> insertable nl then [nl] else []"
    have loop: "update_loop nl (l # ls) inserted =
        ?left @ ?mid @ ?right @ update_loop nl ls (inserted \<or> insertable nl)"
      using False by simp
    have left: "list_ex (held x t p) ?left \<longleftrightarrow> pl_start l \<le> x \<and> x < pl_start nl \<and> pl_type l = t \<and> pl_pid l = p"
      by (simp add: held_new)
    have right: "list_ex (held x t p) ?right \<longleftrightarrow> pl_end nl \<le> x \<and> x < pl_end l \<and> pl_type l = t \<and> pl_pid l = p"
      by (simp add: held_new)
    have mid: "list_ex (held x t p) ?mid \<longleftrightarrow> \<not> inserted \<and> insertable nl \<and> held x t p nl"
      by simp
    have old: "held x t p l \<and> \<not> holds_at nl x \<longleftrightarrow>
        (pl_start l \<le> x \<and> x < pl_start nl \<or> pl_end nl \<le> x \<and> x < pl_end l) \<and> pl_type l = t \<and> pl_pid l = p"
      using False assms by (simp add: held_def holds_at_def) linarith
    show ?thesis
      unfolding loop list_ex_append left right mid Cons.IH list_ex_Cons using old by blast
  qed
qed

lemma merge_pass_lower:
  "locks_ok ls \<Longrightarrow> \<forall>l\<in>set ls. b \<le> pl_start l \<Longrightarrow> \<forall>m\<in>set (merge_pass ls). b \<le> pl_start m"
proof (induction ls rule: merge_pass.induct)
  case (1 l r rs)
  show ?case
  proof (cases "continues l r")
    case True
    let ?l = "l\<lparr>pl_range := (pl_range l)\<lparr>lr_end := pl_end r\<rparr>\<rparr>"
    have "locks_ok (?l # rs)" using 1(3) True by (auto simp: continues_def)
    moreover have "\<forall>m\<in>set (?l # rs). b \<le> pl_start m" using 1(4) by simp
    ultimately have "\<forall>m\<in>set (merge_pass (?l # rs)). b \<le> pl_start m" by (rule 1(1) [OF True])
    then show ?thesis using True by simp
  next
    case False
    have "locks_ok (r # rs)" "\<forall>m\<in>set (r # rs). b \<le> pl_start m" using 1(3,4) by simp_all
    then have "\<forall>m\<in>set (merge_pass (r # rs)). b \<le> pl_start m" by (rule 1(2) [OF False])
    then show ?thesis using False 1(4) by simp
  qed
qed auto

lemma merge_pass_ok: "locks_ok ls \<Longrightarrow> locks_ok (merge_pass ls)"
proof (induction ls rule: merge_pass.induct)
  case (1 l r rs)
  show ?case
  proof (cases "continues l r")
    case True
    let ?l = "l\<lparr>pl_range := (pl_range l)\<lparr>lr_end := pl_end r\<rparr>\<rparr>"
    have "locks_ok (?l # rs)" using 1(3) True by (auto simp: continues_def)
    then have "locks_ok (merge_pass (?l # rs))" by (rule 1(1) [OF True])
    then show ?thesis using True by simp
  next
    case False
    have rs: "locks_ok (r # rs)" "\<forall>m\<in>set (r # rs). pl_end l \<le> pl_start m" using 1(3) by simp_all
    have "locks_ok (merge_pass (r # rs))" by (rule 1(2) [OF False rs(1)])
    then show ?thesis using False 1(3) merge_pass_lower [OF rs] by simp
  qed
qed auto

lemma merge_pass_points:
  "locks_ok ls \<Longrightarrow> list_ex (held x t p) (merge_pass ls) \<longleftrightarrow> list_ex (held x t p) ls"
proof (induction ls rule: merge_pass.induct)
  case (1 l r rs)
  show ?case
  proof (cases "continues l r")
    case True
    let ?l = "l\<lparr>pl_range := (pl_range l)\<lparr>lr_end := pl_end r\<rparr>\<rparr>"
    have ok: "locks_ok (?l # rs)" using 1(3) True by (auto simp: continues_def)
    have "held x t p ?l \<longleftrightarrow> held x t p l \<or> held x t p r"
      using True 1(3) by (auto simp: held_def holds_at_def continues_def)
    moreover have "list_ex (held x t p) (merge_pass (?l # rs)) \<longleftrightarrow> list_ex (held x t p) (?l # rs)"
      by (rule 1(1) [OF True ok])
    ultimately show ?thesis using True by simp
  next
    case False
    have "locks_ok (r # rs)" using 1(3) by simp
    then have "list_ex (held x t p) (merge_pass (r # rs)) \<longleftrightarrow> list_ex (held x t p) (r # rs)"
      by (rule 1(2) [OF False])
    then show ?thesis using False by simp
  qed
qed auto

lemma merge_pass_hd: "ls \<noteq> [] \<Longrightarrow> merge_pass ls \<noteq> [] \<and> pl_start (hd (merge_pass ls)) = pl_start (hd ls)
    \<and> pl_type (hd (merge_pass ls)) = pl_type (hd ls) \<and> pl_pid (hd (merge_pass ls)) = pl_pid (hd ls)"
  by (induction ls rule: merge_pass.induct) auto

lemma merged_merge_pass: "merged (merge_pass ls)"
proof (induction ls rule: merge_pass.induct)
  case (1 l r rs)
  show ?case
  proof (cases "continues l r")
    case True
    then show ?thesis using 1(1) by simp
  next
    case False
    have "merge_pass (r # rs) \<noteq> []" "pl_start (hd (merge_pass (r # rs))) = pl_start r"
      "pl_type (hd (merge_pass (r # rs))) = pl_type r" "pl_pid (hd (merge_pass (r # rs))) = pl_pid r"
      using merge_pass_hd [of "r # rs"] by simp_all
    then obtain h ts where h: "merge_pass (r # rs) = h # ts" and "\<not> continues l h"
      using False by (cases "merge_pass (r # rs)") (auto simp: continues_def)
    then show ?thesis using 1(2) [OF False] False by simp
  qed
qed auto

lemma locks_ok_unique:
  "locks_ok ls \<Longrightarrow> l \<in> set ls \<Longrightarrow> m \<in> set ls \<Longrightarrow> holds_at l x \<Longrightarrow> holds_at m x \<Longrightarrow> l = m"
proof (induction ls)
  case (Cons a ls)
  have "\<not> (holds_at a x \<and> holds_at k x)" if "k \<in> set ls" for k
    using locks_ok_bounds [OF Cons.prems(1)] that by (fastforce simp: holds_at_def)
  with Cons show ?case by auto
qed simp

lemma lock_at_iff:
  assumes "locks_ok ls"
  shows "lock_at ls x = Some (t, p) \<longleftrightarrow> list_ex (held x t p) ls"
proof (cases "find (\<lambda>l. holds_at l x) ls")
  case None
  then have "\<not> list_ex (held x t p) ls" by (auto simp: find_None_iff list_ex_iff held_def)
  with None show ?thesis by (simp add: lock_at_def)
next
  case (Some l)
  then have l: "l \<in> set ls" "holds_at l x" by (auto simp: find_Some_iff)
  have "lock_at ls x = Some (t, p) \<longleftrightarrow> held x t p l" using Some l by (simp add: lock_at_def held_def)
  also have "\<dots> \<longleftrightarrow> list_ex (held x t p) ls"
  proof
    assume "list_ex (held x t p) ls"
    then obtain m where "m \<in> set ls" "held x t p m" by (auto simp: list_ex_iff)
    then show "held x t p l" using locks_ok_unique [OF assms l(1) _ l(2), of m] by (simp add: held_def)
  qed (use l in \<open>auto simp: list_ex_iff\<close>)
  finally show ?thesis .
qed

lemma locks_ok_filter_id:
  "locks_ok ls \<Longrightarrow> filter (\<lambda>r. pl_type r \<noteq> UnLock \<and> pl_start r < pl_end r) ls = ls"
  by (induction ls) auto

lemma update_locks_ok:
  assumes "locks_ok ls" and "pl_start nl \<le> pl_end nl"
  shows "locks_ok (update_locks ls nl) \<and> merged (update_locks ls nl)"
  using update_loop_ok [OF assms, of False]
  by (simp add: update_locks_def locks_ok_filter_id merge_pass_ok merged_merge_pass)

lemma update_locks_points:
  assumes "locks_ok ls" and "pl_start nl \<le> pl_end nl"
  shows "list_ex (held x t p) (update_locks ls nl) \<longleftrightarrow>
    pl_type nl \<noteq> UnLock \<and> held x t p nl \<or> \<not> holds_at nl x \<and> list_ex (held x t p) ls"
proof -
  have "held x t p nl \<Longrightarrow> pl_start nl < pl_end nl" by (auto simp: held_def holds_at_def)
  then have "insertable nl \<and> held x t p nl \<longleftrightarrow> pl_type nl \<noteq> UnLock \<and> held x t p nl"
    by (auto simp: insertable_def)
  moreover have "list_ex (held x t p) (update_locks ls nl) \<longleftrightarrow> list_ex (held x t p) (update_loop nl ls False)"
    using update_loop_ok [OF assms, of False]
    by (simp add: update_locks_def locks_ok_filter_id merge_pass_points)
  ultimately show ?thesis
    using update_loop_points [OF assms(2), of x t p ls False] by blast
qed

lemma option_pair_eqI: "(\<And>t p. a = Some (t, p) \<longleftrightarrow> b = Some (t, p)) \<Longrightarrow> a = b"
  by (cases a; cases b) auto

text \<open>The lock held at each point after an update.\<close>

lemma lock_at_update:
  assumes "locks_ok ls" and "pl_start nl \<le> pl_end nl"
  shows "lock_at (update_locks ls nl) x =
    (if holds_at nl x then (if pl_type nl = UnLock then None else Some (pl_type nl, pl_pid nl))
     else lock_at ls x)"
proof -
  have ok: "locks_ok (update_locks ls nl)" using update_locks_ok [OF assms] by simp
  have eq: "lock_at (update_locks ls nl) x = Some (t, p) \<longleftrightarrow>
      (if holds_at nl x then (if pl_type nl = UnLock then None else Some (pl_type nl, pl_pid nl))
       else lock_at ls x) = Some (t, p)" for t p
    using update_locks_points [OF assms, of x t p] lock_at_iff [OF ok, of x t p]
      lock_at_iff [OF assms(1), of x t p]
    by (auto simp: held_def)
  show ?thesis by (rule option_pair_eqI) (rule eq)
qed

section \<open>Correctness of lock updates\<close>

lemma check_conflict_overlaps:
  "check_conflict t rng ls \<longleftrightarrow>
     (\<exists>l\<in>set ls. lr_overlaps (pl_range l) rng \<and> (t = WrLock \<or> pl_type l = WrLock))"
  by (auto simp: check_conflict_def list_ex_iff lr_overlaps_def)

lemma get_plock_record_None:
  "get_plock_record ls q a b = None \<longleftrightarrow>
     \<not> (\<exists>l\<in>set ls. lr_overlaps (pl_range l) (q_range q) \<and> \<not> (pl_type l = RdLock \<and> q_lock_type q = RdLock))"
  by (induction ls) auto

lemma locks_ok_not_unlock: "locks_ok ls \<Longrightarrow> l \<in> set ls \<Longrightarrow> pl_type l \<noteq> UnLock"
  by (induction ls) auto

text \<open>
  C22. A lock or unlock request changes what its owner holds at exactly the bytes of its range, and
  leaves the record list sorted, disjoint, free of empty and unlock records, and fully merged.
\<close>

theorem update_locks_correct:
  assumes "locks_ok ls" and "pl_start nl \<le> pl_end nl"
  shows "locks_ok (update_locks ls nl) \<and> merged (update_locks ls nl)
    \<and> (\<forall>x. lock_at (update_locks ls nl) x =
          (if holds_at nl x then (if pl_type nl = UnLock then None else Some (pl_type nl, pl_pid nl))
           else lock_at ls x))"
  using update_locks_ok [OF assms] lock_at_update [OF assms] by blast

theorem update_locks_correct_witness:
  "locks_ok (update_locks [plock_new WrLock 1 0 100] (plock_new UnLock 1 40 60))
    \<and> lock_at (update_locks [plock_new WrLock 1 0 100] (plock_new UnLock 1 40 60)) 50 = None
    \<and> lock_at (update_locks [plock_new WrLock 1 0 100] (plock_new UnLock 1 40 60)) 10 = Some (WrLock, 1)"
  using update_locks_correct [of "[plock_new WrLock 1 0 100]" "plock_new UnLock 1 40 60"]
  by (simp add: holds_at_def lock_at_def)

text \<open>
  The conflict test of a lock request and the lock query agree: for a read or write request
  the query reports a holder exactly when the request would be refused by this list.
\<close>

theorem conflict_tests_agree:
  assumes "locks_ok ls" and "q_lock_type q \<noteq> UnLock"
  shows "check_conflict (q_lock_type q) (q_range q) ls \<longleftrightarrow> get_plock_record ls q self_sid lock_sid \<noteq> None"
proof -
  have "(t = WrLock \<or> pl_type l = WrLock) \<longleftrightarrow> \<not> (pl_type l = RdLock \<and> t = RdLock)"
    if "l \<in> set ls" "t \<noteq> UnLock" for l t
    using locks_ok_not_unlock [OF assms(1) that(1)] that(2)
    by (cases t; cases "pl_type l") simp_all
  then show ?thesis
    using assms(2) unfolding check_conflict_overlaps get_plock_record_None by blast
qed

theorem conflict_tests_agree_witness:
  "check_conflict RdLock \<lparr>lr_start = 5, lr_end = 7\<rparr> [plock_new WrLock 9 0 6]
   \<and> get_plock_record [plock_new WrLock 9 0 6]
       \<lparr>q_owner = 1, q_lock_type = RdLock, q_range = \<lparr>lr_start = 5, lr_end = 7\<rparr>\<rparr> 3 3 \<noteq> None"
  using conflict_tests_agree [of "[plock_new WrLock 9 0 6]"
      "\<lparr>q_owner = 1, q_lock_type = RdLock, q_range = \<lparr>lr_start = 5, lr_end = 7\<rparr>\<rparr>" 3 3]
  by (simp add: check_conflict_def)

end
