(* ===== verification/ChunkLayout.thy ===== *)
theory ChunkLayout
  imports Prelude
begin

text \<open>
  Chunk and block geometry: \<^verbatim>\<open>src/src/chunk/layout.rs\<close> (offset arithmetic of a \<^verbatim>\<open>ChunkLayout\<close>
  and the in-memory chunk index), \<^verbatim>\<open>src/src/chunk/span.rs\<close> (splitting a span into aligned
  sub-spans with the \<^verbatim>\<open>SpanIter\<close> iterator), the chunk identifiers of \<^verbatim>\<open>src/src/vfs/mod.rs\<close> and
  the narrowing casts of \<^verbatim>\<open>src/src/utils/num.rs\<close>. The lemmas show that the sub-spans tile the
  span they split: contiguous, non-empty, inside one block each, with the lengths adding up.
\<close>

section \<open>Narrowing casts\<close>

definition as_u32 :: "nat \<Rightarrow> nat" where
  "as_u32 v = v mod u32_limit"

definition as_i64 :: "nat \<Rightarrow> int" where
  "as_i64 v = (let m = v mod u64_limit in
     if m < u64_limit div 2 then int m else int m - int u64_limit)"

lemma as_u32_exact [simp]: "v < u32_limit \<Longrightarrow> as_u32 v = v"
  by (simp add: as_u32_def)

section \<open>Layout arithmetic\<close>

definition DEFAULT_CHUNK_SIZE :: nat where
  "DEFAULT_CHUNK_SIZE = 64 * 1024 * 1024"

definition DEFAULT_BLOCK_SIZE :: nat where
  "DEFAULT_BLOCK_SIZE = 4 * 1024 * 1024"

record chunk_layout =
  chunk_size :: nat
  block_size :: nat

definition default_layout :: chunk_layout where
  "default_layout = \<lparr>chunk_size = DEFAULT_CHUNK_SIZE, block_size = DEFAULT_BLOCK_SIZE\<rparr>"

definition blocks_per_chunk :: "chunk_layout \<Rightarrow> nat" where
  "blocks_per_chunk lay = as_u32 (div_ceil (chunk_size lay) (block_size lay))"

definition chunk_index_of :: "chunk_layout \<Rightarrow> nat \<Rightarrow> nat" where
  "chunk_index_of lay file_offset = file_offset div chunk_size lay"

definition within_chunk_offset :: "chunk_layout \<Rightarrow> nat \<Rightarrow> nat" where
  "within_chunk_offset lay file_offset = file_offset mod chunk_size lay"

definition block_index_of :: "chunk_layout \<Rightarrow> nat \<Rightarrow> nat" where
  "block_index_of lay offset_in_chunk = as_u32 (offset_in_chunk div block_size lay)"

definition within_block_offset :: "chunk_layout \<Rightarrow> nat \<Rightarrow> nat" where
  "within_block_offset lay offset_in_chunk = as_u32 (offset_in_chunk mod block_size lay)"

definition chunk_byte_range :: "chunk_layout \<Rightarrow> nat \<Rightarrow> nat \<times> nat" where
  "chunk_byte_range lay chunk_index =
     (let start = mul_u64 chunk_index (chunk_size lay);
          stop = add_u64 start (chunk_size lay)
      in (start, stop))"

text \<open>The layouts the code is configured with: both sizes positive, a chunk a whole number of blocks.\<close>

definition layout_ok :: "chunk_layout \<Rightarrow> bool" where
  "layout_ok lay \<longleftrightarrow> 0 < block_size lay \<and> block_size lay < u32_limit
     \<and> 0 < chunk_size lay \<and> chunk_size lay < u64_limit \<and> block_size lay dvd chunk_size lay"

lemma default_layout_ok: "layout_ok default_layout"
  by (simp add: layout_ok_def default_layout_def DEFAULT_CHUNK_SIZE_def DEFAULT_BLOCK_SIZE_def
      u32_limit_def u64_limit_def)

lemma chunk_offset_split:
  "chunk_index_of lay off * chunk_size lay + within_chunk_offset lay off = off"
  by (simp add: chunk_index_of_def within_chunk_offset_def)

lemma chunk_byte_range_contains:
  assumes "layout_ok lay" and "off < u64_limit"
    and "(chunk_index_of lay off + 1) * chunk_size lay < u64_limit"
  shows "case chunk_byte_range lay (chunk_index_of lay off) of (s, e) \<Rightarrow> s \<le> off \<and> off < e"
proof -
  let ?i = "chunk_index_of lay off" and ?c = "chunk_size lay"
  have c: "0 < ?c" using assms(1) by (simp add: layout_ok_def)
  have fit: "?i * ?c + ?c < u64_limit" using assms(3) by (simp add: algebra_simps)
  have "?i * ?c + within_chunk_offset lay off = off" by (rule chunk_offset_split)
  moreover have "within_chunk_offset lay off < ?c"
    using c by (simp add: within_chunk_offset_def)
  ultimately show ?thesis
    using fit by (simp add: chunk_byte_range_def u64_simps Let_def)
qed

section \<open>Chunk identifiers\<close>

definition CHUNK_ID_BASE :: nat where
  "CHUNK_ID_BASE = 1000000000"

datatype chunk_id_error = NegativeInode | ChunkIdOverflow

definition chunk_id_for :: "int \<Rightarrow> nat \<Rightarrow> chunk_id_error + nat" where
  "chunk_id_for ino chunk_index =
     (if ino < 0 then Inl NegativeInode
      else ok_or ChunkIdOverflow
        (Option.bind (checked_mul_u64 (nat ino) CHUNK_ID_BASE)
           (\<lambda>v. checked_add_u64 v chunk_index)))"

definition extract_ino_and_chunk_index :: "nat \<Rightarrow> int \<times> nat" where
  "extract_ino_and_chunk_index chunk_id =
     (as_i64 (chunk_id div CHUNK_ID_BASE), chunk_id mod CHUNK_ID_BASE)"

lemma chunk_id_for_Inr [result_simps]:
  "chunk_id_for ino idx = Inr c \<longleftrightarrow>
     0 \<le> ino \<and> c = nat ino * CHUNK_ID_BASE + idx \<and> nat ino * CHUNK_ID_BASE + idx < u64_limit"
  by (auto simp: chunk_id_for_def result_simps bind_eq_Some_conv)

lemma as_i64_small: "v < u64_limit div 2 \<Longrightarrow> as_i64 v = int v"
proof -
  assume "v < u64_limit div 2"
  then have "v < u64_limit" by simp
  then show ?thesis using \<open>v < u64_limit div 2\<close> by (simp add: as_i64_def)
qed

section \<open>The in-memory chunk index\<close>

record chunk_key =
  key_ino :: int
  key_index :: int

type_synonym in_memory_chunk_index = "chunk_key \<rightharpoonup> nat"

definition incr_slice_count :: "in_memory_chunk_index \<Rightarrow> chunk_key \<Rightarrow> in_memory_chunk_index" where
  "incr_slice_count m k = m(k \<mapsto> (case m k of None \<Rightarrow> 0 | Some n \<Rightarrow> n) + 1)"

definition get_slice_count :: "in_memory_chunk_index \<Rightarrow> chunk_key \<Rightarrow> nat" where
  "get_slice_count m k = (case m k of None \<Rightarrow> 0 | Some n \<Rightarrow> n)"

lemma get_incr_slice_count:
  "get_slice_count (incr_slice_count m k) j = get_slice_count m j + (if j = k then 1 else 0)"
  by (simp add: get_slice_count_def incr_slice_count_def)

section \<open>Spans\<close>

record span =
  sp_index :: nat
  sp_offset :: nat
  sp_len :: nat

record span_iter =
  cursor :: nat
  remaining :: nat
  target_align :: nat
  base_offset :: nat

definition span_new :: "nat \<Rightarrow> nat \<Rightarrow> nat \<Rightarrow> span" where
  "span_new i off n = \<lparr>sp_index = i, sp_offset = off, sp_len = n\<rparr>"

definition split_into :: "span \<Rightarrow> nat \<Rightarrow> nat \<Rightarrow> bool \<Rightarrow> span_iter" where
  "split_into self my_align align relative =
     (let start_abs = add_u64 (mul_u64 (sp_index self) my_align) (sp_offset self);
          base = (if relative then mul_u64 (sp_index self) my_align else 0)
      in \<lparr>cursor = start_abs, remaining = sp_len self, target_align = align, base_offset = base\<rparr>)"

text \<open>
  One call of \<^verbatim>\<open>SpanIter::next\<close>. \<open>None\<close> is the division by zero of an alignment of zero, which
  panics; otherwise the yielded span, if any, and the advanced iterator.
\<close>

definition span_next :: "span_iter \<Rightarrow> (span option \<times> span_iter) option" where
  "span_next it =
     (if remaining it = 0 then Some (None, it)
      else if target_align it = 0 then None
      else let effective_val = sub_u64 (cursor it) (base_offset it);
               idx = effective_val div target_align it;
               off = effective_val mod target_align it;
               capacity = target_align it - off;
               taken = min (remaining it) capacity
           in Some (Some (span_new idx off taken),
                it\<lparr>cursor := add_u64 (cursor it) taken, remaining := remaining it - taken\<rparr>))"

text \<open>Draining the iterator, as \<^verbatim>\<open>collect\<close> and the \<^verbatim>\<open>for\<close> loops over it do.\<close>

function span_collect :: "span_iter \<Rightarrow> span list option" where
  "span_collect it =
     (case span_next it of
        None \<Rightarrow> None
      | Some (None, _) \<Rightarrow> Some []
      | Some (Some s, it') \<Rightarrow> map_option (Cons s) (span_collect it'))"
  by pat_completeness auto
termination
proof (relation "measure remaining", goal_cases)
  case 1
  show ?case by simp
next
  case (2 it p o' it' s)
  then have "0 < remaining it" "0 < target_align it"
    and "remaining it' = remaining it - min (remaining it)
      (target_align it - sub_u64 (cursor it) (base_offset it) mod target_align it)"
    by (auto simp: span_next_def Let_def split: if_splits)
  moreover have "sub_u64 (cursor it) (base_offset it) mod target_align it < target_align it"
    using \<open>0 < target_align it\<close> by simp
  ultimately show ?case by auto
qed

declare span_collect.simps [simp del]

text \<open>
  The sub-spans of \<open>[from, from + n)\<close> at alignment \<open>a\<close>, the value the iterator computes once no
  intermediate addition wraps.
\<close>

function aligned_spans :: "nat \<Rightarrow> nat \<Rightarrow> nat \<Rightarrow> span list" where
  "aligned_spans a from n =
     (if n = 0 \<or> a = 0 then []
      else let t = min n (a - from mod a)
           in span_new (from div a) (from mod a) t # aligned_spans a (from + t) (n - t))"
  by pat_completeness auto
termination
proof (relation "measure (\<lambda>(a, from, n). n)", goal_cases)
  case 1
  show ?case by simp
next
  case (2 a "from" n t)
  then have "0 < a - from mod a" by simp
  with 2 show ?case by auto
qed

declare aligned_spans.simps [simp del]

lemma aligned_spans_0 [simp]: "aligned_spans a from 0 = []"
  by (simp add: aligned_spans.simps)

lemma aligned_spans_step:
  assumes "0 < n" "0 < a"
  shows "aligned_spans a from n =
    span_new (from div a) (from mod a) (min n (a - from mod a))
    # aligned_spans a (from + min n (a - from mod a)) (n - min n (a - from mod a))"
  using assms by (subst aligned_spans.simps) (simp add: Let_def)

lemma span_collect_done: "remaining it = 0 \<Longrightarrow> span_collect it = Some []"
  by (subst span_collect.simps) (simp add: span_next_def)

lemma span_collect_step:
  assumes "span_next it = Some (Some s, it')"
  shows "span_collect it = map_option (Cons s) (span_collect it')"
  using assms by (subst span_collect.simps) simp

lemma span_next_exact:
  assumes "0 < a" and "base \<le> cur" and "cur + n < u64_limit" and "0 < n"
    and t: "t = min n (a - (cur - base) mod a)"
  shows "span_next \<lparr>cursor = cur, remaining = n, target_align = a, base_offset = base\<rparr>
    = Some (Some (span_new ((cur - base) div a) ((cur - base) mod a) t),
        \<lparr>cursor = cur + t, remaining = n - t, target_align = a, base_offset = base\<rparr>)"
proof -
  have "sub_u64 cur base = cur - base" using assms by (simp add: u64_simps)
  moreover have "add_u64 cur t = cur + t" using assms by (simp add: u64_simps)
  ultimately show ?thesis using assms by (simp add: span_next_def Let_def)
qed

lemma span_collect_aligned:
  assumes "0 < a" and "base \<le> cur" and "cur + n < u64_limit"
  shows "span_collect \<lparr>cursor = cur, remaining = n, target_align = a, base_offset = base\<rparr>
    = Some (aligned_spans a (cur - base) n)"
  using assms
proof (induction n arbitrary: cur rule: less_induct)
  case (less n)
  show ?case
  proof (cases "n = 0")
    case True
    then show ?thesis by (simp add: span_collect_done)
  next
    case False
    define t where "t = min n (a - (cur - base) mod a)"
    have "0 < a - (cur - base) mod a" using less.prems(1) by simp
    then have t: "0 < t" "t \<le> n" using False by (auto simp: t_def)
    have "cur + t + (n - t) < u64_limit" "n - t < n" "base \<le> cur + t"
      using less.prems t by linarith+
    then have rest: "span_collect
        \<lparr>cursor = cur + t, remaining = n - t, target_align = a, base_offset = base\<rparr>
        = Some (aligned_spans a (cur + t - base) (n - t))"
      using less.IH less.prems(1) by blast
    have shift: "cur + t - base = (cur - base) + t" using less.prems by simp
    have unfold: "aligned_spans a (cur - base) n
        = span_new ((cur - base) div a) ((cur - base) mod a) t
          # aligned_spans a ((cur - base) + t) (n - t)"
      unfolding t_def using False less.prems(1) by (intro aligned_spans_step) simp_all
    have "span_next \<lparr>cursor = cur, remaining = n, target_align = a, base_offset = base\<rparr>
      = Some (Some (span_new ((cur - base) div a) ((cur - base) mod a) t),
          \<lparr>cursor = cur + t, remaining = n - t, target_align = a, base_offset = base\<rparr>)"
      using False less.prems by (intro span_next_exact t_def) simp_all
    from span_collect_step [OF this] show ?thesis
      unfolding rest shift unfold by simp
  qed
qed

subsection \<open>The sub-spans tile the range they split\<close>

definition span_start :: "nat \<Rightarrow> span \<Rightarrow> nat" where
  "span_start a s = sp_index s * a + sp_offset s"

definition span_end :: "nat \<Rightarrow> span \<Rightarrow> nat" where
  "span_end a s = span_start a s + sp_len s"

text \<open>A list of spans tiles \<open>[from, to)\<close>: each starts where the one before ended.\<close>

fun tiles :: "nat \<Rightarrow> nat \<Rightarrow> span list \<Rightarrow> nat \<Rightarrow> bool" where
  "tiles a from [] to = (from = to)"
| "tiles a from (s # ss) to = (span_start a s = from \<and> tiles a (from + sp_len s) ss to)"

lemma aligned_spans_tiles: "0 < a \<Longrightarrow> tiles a from (aligned_spans a from n) (from + n)"
proof (induction a "from" n rule: aligned_spans.induct)
  case (1 a "from" n)
  show ?case
  proof (cases "n = 0")
    case False
    with 1 show ?thesis
      by (simp add: aligned_spans_step span_start_def span_new_def Let_def)
  qed simp
qed

lemma aligned_spans_within_block:
  "0 < a \<Longrightarrow> s \<in> set (aligned_spans a from n) \<Longrightarrow> 0 < sp_len s \<and> sp_offset s + sp_len s \<le> a"
proof (induction a "from" n rule: aligned_spans.induct)
  case (1 a "from" n)
  show ?case
  proof (cases "n = 0")
    case True
    with 1 show ?thesis by simp
  next
    case False
    have "from mod a < a" using 1 by simp
    with False 1 show ?thesis
      by (auto simp: aligned_spans_step span_new_def Let_def)
  qed
qed

lemma aligned_spans_index_bound:
  "0 < a \<Longrightarrow> s \<in> set (aligned_spans a from n) \<Longrightarrow> from div a \<le> sp_index s \<and> sp_index s * a < from + n"
proof (induction a "from" n rule: aligned_spans.induct)
  case (1 a "from" n)
  show ?case
  proof (cases "n = 0")
    case True
    with 1 show ?thesis by simp
  next
    case False
    let ?t = "min n (a - from mod a)"
    have le: "from div a * a < from + n"
      using False div_times_less_eq_dividend [of "from" a] by linarith
    from 1(3) False 1(2) consider "s = span_new (from div a) (from mod a) ?t"
      | "s \<in> set (aligned_spans a (from + ?t) (n - ?t))"
      by (auto simp: aligned_spans_step)
    then show ?thesis
    proof cases
      case 1
      then show ?thesis using False le by (simp add: span_new_def)
    next
      case 2
      then have "(from + ?t) div a \<le> sp_index s \<and> sp_index s * a < from + ?t + (n - ?t)"
        using 1(1) [of ?t] False 1(2) by simp
      moreover have "from div a \<le> (from + ?t) div a" by (simp add: div_le_mono)
      ultimately show ?thesis by auto
    qed
  qed
qed

lemma aligned_spans_total: "0 < a \<Longrightarrow> sum_list (map sp_len (aligned_spans a from n)) = n"
proof (induction a "from" n rule: aligned_spans.induct)
  case (1 a "from" n)
  then show ?case
    by (cases "n = 0") (simp_all add: aligned_spans_step span_new_def Let_def)
qed

lemma tiles_sorted:
  assumes "tiles a from ss to" and "\<forall>s\<in>set ss. 0 < sp_len s"
  shows "sorted_wrt (\<lambda>s t. span_end a s \<le> span_start a t) ss \<and> (\<forall>s\<in>set ss. from \<le> span_start a s)"
  using assms
proof (induction ss arbitrary: "from")
  case Nil
  then show ?case by simp
next
  case (Cons s ss)
  then have "sorted_wrt (\<lambda>s t. span_end a s \<le> span_start a t) ss
      \<and> (\<forall>t\<in>set ss. from + sp_len s \<le> span_start a t)"
    by (intro Cons.IH) simp_all
  then have tail: "sorted_wrt (\<lambda>s t. span_end a s \<le> span_start a t) ss"
    and later: "\<forall>t\<in>set ss. from + sp_len s \<le> span_start a t" by blast+
  have start: "span_start a s = from" using Cons.prems by simp
  then have "\<forall>t\<in>set ss. span_end a s \<le> span_start a t"
    using later by (simp add: span_end_def)
  moreover have "\<forall>t\<in>set ss. from \<le> span_start a t"
    using later by fastforce
  ultimately show ?case using tail start by simp
qed

section \<open>Correctness of the geometry\<close>

text \<open>
  Splitting a span terminates without panicking, and the sub-spans tile the absolute range of
  the span in order: each is non-empty and inside one aligned unit, each starts where the previous
  one ended, and the lengths add up to the length of the span.
\<close>

theorem split_into_tiles:
  assumes "0 < align" and "sp_index sp * my_align + sp_offset sp + sp_len sp < u64_limit"
  shows "\<exists>ss. span_collect (split_into sp my_align align False) = Some ss
    \<and> tiles align (sp_index sp * my_align + sp_offset sp) ss
          (sp_index sp * my_align + sp_offset sp + sp_len sp)
    \<and> (\<forall>s\<in>set ss. 0 < sp_len s \<and> sp_offset s + sp_len s \<le> align)
    \<and> sum_list (map sp_len ss) = sp_len sp"
proof -
  let ?start = "sp_index sp * my_align + sp_offset sp"
  have "span_collect (split_into sp my_align align False) = Some (aligned_spans align ?start (sp_len sp))"
    using assms span_collect_aligned [of align 0 ?start "sp_len sp"]
    by (simp add: split_into_def u64_simps Let_def)
  then show ?thesis
    using assms(1) aligned_spans_tiles aligned_spans_within_block aligned_spans_total by blast
qed

theorem split_into_tiles_witness:
  "\<exists>ss. span_collect (split_into (span_new 1 6 9) 16 4 False) = Some ss
    \<and> tiles 4 22 ss 31 \<and> (\<forall>s\<in>set ss. 0 < sp_len s \<and> sp_offset s + sp_len s \<le> 4)
    \<and> sum_list (map sp_len ss) = 9"
  using split_into_tiles [of 4 "span_new 1 6 9" 16] by (simp add: span_new_def u64_limit_def)

text \<open>
  A chunk identifier determines its inode and chunk index: whenever \<^verbatim>\<open>chunk_id_for\<close> succeeds on
  an index below \<^verbatim>\<open>CHUNK_ID_BASE\<close>, \<^verbatim>\<open>extract_ino_and_chunk_index\<close> recovers both.
\<close>

theorem chunk_id_round_trip:
  assumes "chunk_id_for ino idx = Inr c" and "idx < CHUNK_ID_BASE"
  shows "extract_ino_and_chunk_index c = (ino, idx)"
proof -
  have c: "c = nat ino * CHUNK_ID_BASE + idx" and "0 \<le> ino" and lt: "c < u64_limit"
    using assms(1) by (auto simp: result_simps)
  have "c div CHUNK_ID_BASE = nat ino" "c mod CHUNK_ID_BASE = idx"
    using assms(2) c by simp_all
  moreover have "c div CHUNK_ID_BASE < u64_limit div 2"
    using lt by (simp add: CHUNK_ID_BASE_def u64_limit_def)
  ultimately show ?thesis
    using \<open>0 \<le> ino\<close> by (simp add: extract_ino_and_chunk_index_def as_i64_small)
qed

theorem chunk_id_round_trip_witness:
  "chunk_id_for 7 3 = Inr 7000000003 \<and> extract_ino_and_chunk_index 7000000003 = (7, 3)"
  using chunk_id_round_trip [of 7 3 7000000003]
  by (simp add: chunk_id_for_Inr CHUNK_ID_BASE_def u64_limit_def)

text \<open>
  The bound on the index is not checked by the code: an index of \<^verbatim>\<open>CHUNK_ID_BASE\<close> yields the
  identifier of chunk 0 of the next inode.
\<close>

theorem chunk_id_collision:
  "chunk_id_for 1 CHUNK_ID_BASE = Inr 2000000000 \<and> chunk_id_for 2 0 = Inr 2000000000"
  by (simp add: chunk_id_for_Inr CHUNK_ID_BASE_def u64_limit_def)

end
