(* ===== verification/MetaTypes.thy ===== *)
theory MetaTypes
  imports FileLock ChunkLayout
begin

text \<open>
  The error type shared by the metadata stores, \<^verbatim>\<open>MetaError\<close> of \<^verbatim>\<open>src/src/meta/store.rs\<close>. Variants
  that wrap an error of another crate keep only the fact that the crate failed; \<^verbatim>\<open>MetaError::Io\<close> is
  two variants, one for a refused chunk identifier and one for an error kind.
\<close>

datatype io_kind = IoNotADirectory | IoIsADirectory

datatype retry_reason = VersionConflict | CompactConflict | TransactionConflict | LockContention

datatype meta_error =
    NotFound int
  | EntryNotFound int string
  | ParentNotFound int
  | AlreadyExists int string
  | NotDirectory int
  | DirectoryNotEmpty int
  | InvalidPath string
  | InvalidFilename
  | FilenameTooLong
  | TooManySymlinks
  | NotSupported string
  | NotImplemented
  | Internal string
  | ContinueRetry retry_reason
  | MaxRetriesExceeded
  | DatabaseError
  | MetaIo chunk_id_error
  | MetaIoKind io_kind
  | Serialization
  | ConfigError
  | SessionNotFound nat
  | LockConflict int int file_lock_range
  | LockNotFound int nat file_lock_range
  | DeadlockDetected "nat list"
  | InvalidHandle nat
  | Anyhow

end
