(* ===== verification/PlockTable.thy ===== *)
theory PlockTable
  imports MetaTypes "HOL-Library.AList"
begin

text \<open>
  The lock table of the database metadata store: \<^verbatim>\<open>try_set_plock\<close>, \<^verbatim>\<open>get_plock\<close> and the retry rule of
  \<^verbatim>\<open>set_plock\<close> in \<^verbatim>\<open>src/src/meta/stores/database/mod.rs\<close>. A row is keyed by inode, session and owner
  and holds that owner's record list (kept structurally; the code stores it as JSON). The lemmas
  show that the table never lets two owners hold conflicting locks on a byte.
\<close>

type_synonym plock_key = "int \<times> nat \<times> int"
type_synonym plock_table = "(plock_key \<times> plock_record list) list"

definition try_set_plock ::
  "(int \<Rightarrow> bool) \<Rightarrow> nat option \<Rightarrow> plock_table \<Rightarrow> int \<Rightarrow> int \<Rightarrow> plock_record \<Rightarrow> file_lock_type
   \<Rightarrow> file_lock_range \<Rightarrow> meta_error + plock_table" where
  "try_set_plock file_exists store_sid tbl inode owner new_lock lock_type rng =
     (if \<not> file_exists inode then Inl (NotFound inode)
      else rbind (ok_or (Internal ''sid not set'') store_sid) (\<lambda>sid.
        let key = (inode, sid, owner)
        in if lock_type = UnLock then
             (case map_of tbl key of
                None \<Rightarrow> Inr tbl
              | Some records \<Rightarrow>
                  if records = [] then Inr tbl
                  else let new_records = update_locks records new_lock
                       in if new_records = [] then Inr (AList.delete key tbl)
                          else Inr (AList.update key new_records tbl))
           else
             if list_ex (\<lambda>(k, ls). fst k = inode \<and> k \<noteq> key \<and> check_conflict lock_type rng ls) tbl
             then Inl (LockConflict inode owner rng)
             else let ls = update_locks (case map_of tbl key of None \<Rightarrow> [] | Some r \<Rightarrow> r) new_lock
                  in if map_of tbl key \<noteq> Some ls then Inr (AList.update key ls tbl) else Inr tbl))"

text \<open>One round of the \<^verbatim>\<open>set_plock\<close> loop: \<open>None\<close> means that the call sleeps and tries again.\<close>

definition set_plock_round ::
  "(int \<Rightarrow> bool) \<Rightarrow> nat option \<Rightarrow> plock_table \<Rightarrow> int \<Rightarrow> int \<Rightarrow> bool \<Rightarrow> file_lock_type \<Rightarrow> file_lock_range \<Rightarrow> nat
   \<Rightarrow> (meta_error + plock_table) option" where
  "set_plock_round file_exists store_sid tbl inode owner blocking lock_type rng pid =
     (let new_lock = plock_new lock_type pid (lr_start rng) (lr_end rng)
      in case try_set_plock file_exists store_sid tbl inode owner new_lock lock_type rng of
           Inr tbl' \<Rightarrow> Some (Inr tbl')
         | Inl (LockConflict i p r) \<Rightarrow> if blocking then None else Some (Inl (LockConflict i p r))
         | Inl e \<Rightarrow> Some (Inl e))"

fun get_plock_rows ::
  "plock_table \<Rightarrow> int \<Rightarrow> nat \<Rightarrow> file_lock_query \<Rightarrow> file_lock_info option" where
  "get_plock_rows [] inode sid query = None"
| "get_plock_rows (((i, row_sid, row_owner), locks) # rows) inode sid query =
     (if i \<noteq> inode \<or> row_sid = sid \<and> row_owner = q_owner query then get_plock_rows rows inode sid query
      else case get_plock_record locks query sid row_sid of
             Some v \<Rightarrow> Some v
           | None \<Rightarrow> get_plock_rows rows inode sid query)"

definition get_plock ::
  "nat option \<Rightarrow> plock_table \<Rightarrow> int \<Rightarrow> file_lock_query \<Rightarrow> meta_error + file_lock_info" where
  "get_plock store_sid tbl inode query =
     rbind (ok_or (Internal ''sid not set'') store_sid) (\<lambda>sid.
       case get_plock_rows tbl inode sid query of
         Some v \<Rightarrow> Inr v
       | None \<Rightarrow> Inr \<lparr>i_lock_type = UnLock, i_range = \<lparr>lr_start = 0, lr_end = 0\<rparr>, i_pid = 0\<rparr>)"

text \<open>Session shutdown drops the rows of the session.\<close>

definition delete_session_plocks :: "nat \<Rightarrow> plock_table \<Rightarrow> plock_table" where
  "delete_session_plocks sid tbl = filter (\<lambda>((i, s, o'), ls). s \<noteq> sid) tbl"

section \<open>The table invariant\<close>

text \<open>Two record lists are compatible when a byte locked for writing in one is not locked in the other.\<close>

definition compatible :: "plock_record list \<Rightarrow> plock_record list \<Rightarrow> bool" where
  "compatible xs ys \<longleftrightarrow>
     (\<forall>x t p t' p'. lock_at xs x = Some (t, p) \<and> lock_at ys x = Some (t', p') \<longrightarrow> t = RdLock \<and> t' = RdLock)"

definition plocks_ok :: "plock_table \<Rightarrow> bool" where
  "plocks_ok tbl \<longleftrightarrow> distinct (map fst tbl)
     \<and> (\<forall>(k, ls)\<in>set tbl. locks_ok ls)
     \<and> (\<forall>(k, ls)\<in>set tbl. \<forall>(k', ls')\<in>set tbl. fst k = fst k' \<and> k \<noteq> k' \<longrightarrow> compatible ls ls')"

lemma compatible_sym: "compatible xs ys \<Longrightarrow> compatible ys xs"
  unfolding compatible_def by blast

lemma plocks_okD:
  assumes "plocks_ok tbl"
  shows "(k, ls) \<in> set tbl \<Longrightarrow> locks_ok ls"
    and "(k, ls) \<in> set tbl \<Longrightarrow> (k', ls') \<in> set tbl \<Longrightarrow> fst k = fst k' \<Longrightarrow> k \<noteq> k' \<Longrightarrow> compatible ls ls'"
    and "distinct (map fst tbl)"
  using assms unfolding plocks_ok_def by auto

lemma plocks_okI:
  assumes "distinct (map fst tbl)" and "\<And>k ls. (k, ls) \<in> set tbl \<Longrightarrow> locks_ok ls"
    and "\<And>k ls k' ls'. (k, ls) \<in> set tbl \<Longrightarrow> (k', ls') \<in> set tbl \<Longrightarrow> fst k = fst k' \<Longrightarrow> k \<noteq> k' \<Longrightarrow> compatible ls ls'"
  shows "plocks_ok tbl"
  using assms unfolding plocks_ok_def by blast

lemma plocks_ok_subset:
  assumes "plocks_ok tbl" and "set tbl' \<subseteq> set tbl" and "distinct (map fst tbl')"
  shows "plocks_ok tbl'"
  using plocks_okD [OF assms(1)] assms(2,3) by (intro plocks_okI) blast+

text \<open>Replacing the list of one key by one that is compatible with every other row of the inode.\<close>

lemma plocks_ok_update:
  assumes "plocks_ok tbl" and "locks_ok ls"
    and "\<And>k' ls'. (k', ls') \<in> set tbl \<Longrightarrow> fst k = fst k' \<Longrightarrow> k \<noteq> k' \<Longrightarrow> compatible ls ls'"
  shows "plocks_ok (AList.update k ls tbl)"
proof (rule plocks_okI)
  show dist: "distinct (map fst (AList.update k ls tbl))"
    using plocks_okD(3) [OF assms(1)] by (rule distinct_update)
  have mem: "k' = k \<and> ls' = ls \<or> k' \<noteq> k \<and> (k', ls') \<in> set tbl" if "(k', ls') \<in> set (AList.update k ls tbl)" for k' ls'
  proof -
    have "map_of (AList.update k ls tbl) k' = Some ls'" using that dist by simp
    then show ?thesis by (auto simp: update_conv' map_of_SomeD split: if_splits)
  qed
  show "locks_ok ls'" if "(k', ls') \<in> set (AList.update k ls tbl)" for k' ls'
    using mem [OF that] plocks_okD(1) [OF assms(1)] assms(2) by blast
  show "compatible l1 l2"
    if "(k1, l1) \<in> set (AList.update k ls tbl)" "(k2, l2) \<in> set (AList.update k ls tbl)" "fst k1 = fst k2" "k1 \<noteq> k2"
    for k1 l1 k2 l2
    using mem [OF that(1)] mem [OF that(2)] that(3,4) assms(3) plocks_okD(2) [OF assms(1)] compatible_sym
    by metis
qed

text \<open>A granted request conflicts with no byte of a list it passed the check against.\<close>

lemma check_conflict_points:
  assumes "locks_ok ls" and "\<not> check_conflict t rng ls" and "lr_start rng \<le> x" and "x < lr_end rng"
    and "lock_at ls x = Some (t', p')"
  shows "t \<noteq> WrLock \<and> t' \<noteq> WrLock"
proof -
  obtain l where "l \<in> set ls" "holds_at l x" "pl_type l = t'"
    using assms(5) lock_at_iff [OF assms(1)] by (auto simp: list_ex_iff held_def)
  moreover have "lr_end rng > pl_start l" "lr_start rng < pl_end l"
    using calculation(2) assms(3,4) by (auto simp: holds_at_def)
  ultimately show ?thesis using assms(2) by (auto simp: check_conflict_def list_ex_iff)
qed

lemma lock_at_not_unlock: "locks_ok ls \<Longrightarrow> lock_at ls x = Some (t, p) \<Longrightarrow> t \<noteq> UnLock"
  by (induction ls) (auto simp: lock_at_def split: if_splits)

lemma compatible_update:
  assumes "compatible ls ls'" and "locks_ok ls" and "locks_ok ls'" and "s \<le> e"
    and "t \<noteq> UnLock \<longrightarrow> \<not> check_conflict t \<lparr>lr_start = s, lr_end = e\<rparr> ls'"
  shows "compatible (update_locks ls (plock_new t p s e)) ls'"
  unfolding compatible_def
proof clarify
  fix x t1 p1 t2 p2
  let ?nl = "plock_new t p s e"
  assume at1: "lock_at (update_locks ls ?nl) x = Some (t1, p1)" and at2: "lock_at ls' x = Some (t2, p2)"
  show "t1 = RdLock \<and> t2 = RdLock"
  proof (cases "holds_at ?nl x")
    case True
    then have "t \<noteq> UnLock" "t1 = t"
      using at1 assms(4) by (auto simp: lock_at_update [OF assms(2)] split: if_splits)
    then have "t1 \<noteq> WrLock \<and> t2 \<noteq> WrLock"
      using check_conflict_points [OF assms(3) _ _ _ at2, of t "\<lparr>lr_start = s, lr_end = e\<rparr>"] assms(5) True
      by (simp add: holds_at_def)
    moreover have "t2 \<noteq> UnLock" by (rule lock_at_not_unlock [OF assms(3) at2])
    ultimately show ?thesis using \<open>t \<noteq> UnLock\<close> \<open>t1 = t\<close> by (metis file_lock_type.exhaust)
  next
    case False
    then have "lock_at ls x = Some (t1, p1)"
      using at1 assms(4) by (simp add: lock_at_update [OF assms(2)])
    then show ?thesis using assms(1) at2 unfolding compatible_def by blast
  qed
qed

section \<open>Mutual exclusion\<close>

lemma compatible_empty: "compatible [] ys"
  by (simp add: compatible_def lock_at_def)

text \<open>The list a request rewrites, and what the request may rely on about the other rows.\<close>

lemma try_set_plock_update:
  assumes "plocks_ok tbl" and "s \<le> e"
    and "t \<noteq> UnLock \<longrightarrow>
      \<not> list_ex (\<lambda>(k', ls'). fst k' = fst k \<and> k' \<noteq> k \<and> check_conflict t \<lparr>lr_start = s, lr_end = e\<rparr> ls') tbl"
  shows "plocks_ok (AList.update k
    (update_locks (case map_of tbl k of None \<Rightarrow> [] | Some r \<Rightarrow> r) (plock_new t p s e)) tbl)"
proof -
  let ?old = "case map_of tbl k of None \<Rightarrow> [] | Some r \<Rightarrow> r"
  have old: "locks_ok ?old"
  proof (cases "map_of tbl k")
    case (Some r)
    then have "(k, r) \<in> set tbl" by (rule map_of_SomeD)
    then show ?thesis using Some plocks_okD(1) [OF assms(1)] by simp
  qed simp
  show ?thesis
  proof (rule plocks_ok_update [OF assms(1)])
    show "locks_ok (update_locks ?old (plock_new t p s e))"
      using update_locks_ok [OF old, of "plock_new t p s e"] assms(2) by simp
    fix k' ls' assume row: "(k', ls') \<in> set tbl" "fst k = fst k'" "k \<noteq> k'"
    have "compatible ?old ls'"
    proof (cases "map_of tbl k")
      case None
      then show ?thesis by (simp add: compatible_empty)
    next
      case (Some r)
      then have "(k, r) \<in> set tbl" by (rule map_of_SomeD)
      then show ?thesis using Some plocks_okD(2) [OF assms(1) _ row] by simp
    qed
    moreover have "t \<noteq> UnLock \<longrightarrow> \<not> check_conflict t \<lparr>lr_start = s, lr_end = e\<rparr> ls'"
      using assms(3) row by (auto simp: list_ex_iff)
    ultimately show "compatible (update_locks ?old (plock_new t p s e)) ls'"
      using compatible_update old plocks_okD(1) [OF assms(1) row(1)] assms(2) by blast
  qed
qed

text \<open>
  C8. The lock table is a correct arbiter: a request keeps the invariant that no two owners of the
  same inode hold conflicting locks on a byte, whatever the table and the request are.
\<close>

theorem try_set_plock_exclusion:
  assumes "plocks_ok tbl" and "lr_start rng \<le> lr_end rng"
    and "try_set_plock file_exists store_sid tbl inode owner
           (plock_new lock_type pid (lr_start rng) (lr_end rng)) lock_type rng = Inr tbl'"
  shows "plocks_ok tbl'"
proof -
  let ?nl = "plock_new lock_type pid (lr_start rng) (lr_end rng)"
  obtain sid where sid: "store_sid = Some sid"
    using assms(3) by (cases store_sid) (auto simp: try_set_plock_def split: if_splits)
  let ?k = "(inode, sid, owner)"
  let ?upd = "AList.update ?k (update_locks (case map_of tbl ?k of None \<Rightarrow> [] | Some r \<Rightarrow> r) ?nl) tbl"
  have "tbl' = tbl \<or> tbl' = AList.delete ?k tbl
      \<or> tbl' = ?upd \<and> (lock_type \<noteq> UnLock \<longrightarrow>
          \<not> list_ex (\<lambda>(k, ls). fst k = inode \<and> k \<noteq> ?k \<and> check_conflict lock_type rng ls) tbl)"
    using assms(3)
    by (auto simp: try_set_plock_def sid Let_def split: if_splits option.splits)
  moreover have "plocks_ok (AList.delete ?k tbl)"
  proof (rule plocks_ok_subset [OF assms(1)])
    show "set (AList.delete ?k tbl) \<subseteq> set tbl" by (auto simp: AList.delete_eq)
    show "distinct (map fst (AList.delete ?k tbl))"
      using plocks_okD(3) [OF assms(1)] by (rule distinct_delete)
  qed
  moreover have "plocks_ok ?upd" if "lock_type \<noteq> UnLock \<longrightarrow>
      \<not> list_ex (\<lambda>(k, ls). fst k = inode \<and> k \<noteq> ?k \<and> check_conflict lock_type rng ls) tbl"
  proof -
    have eta: "\<lparr>lr_start = lr_start rng, lr_end = lr_end rng\<rparr> = rng" by simp
    show ?thesis
      using try_set_plock_update [OF assms(1,2), of lock_type ?k pid, unfolded eta] that by simp
  qed
  ultimately show ?thesis using assms(1) by blast
qed

theorem try_set_plock_exclusion_witness:
  "plocks_ok [((5, 1, 10), [plock_new RdLock 7 0 10])]
   \<and> try_set_plock (\<lambda>i. i = 5) (Some 2) [((5, 1, 10), [plock_new RdLock 7 0 10])] 5 20
       (plock_new RdLock 8 5 15) RdLock \<lparr>lr_start = 5, lr_end = 15\<rparr>
     = Inr [((5, 1, 10), [plock_new RdLock 7 0 10]), ((5, 2, 20), [plock_new RdLock 8 5 15])]
   \<and> plocks_ok [((5, 1, 10), [plock_new RdLock 7 0 10]), ((5, 2, 20), [plock_new RdLock 8 5 15])]"
proof -
  have ok: "plocks_ok [((5, 1, 10), [plock_new RdLock 7 0 10])]" by (simp add: plocks_ok_def)
  have step: "try_set_plock (\<lambda>i. i = 5) (Some 2) [((5, 1, 10), [plock_new RdLock 7 0 10])] 5 20
       (plock_new RdLock 8 5 15) RdLock \<lparr>lr_start = 5, lr_end = 15\<rparr>
     = Inr [((5, 1, 10), [plock_new RdLock 7 0 10]), ((5, 2, 20), [plock_new RdLock 8 5 15])]"
    by (simp add: try_set_plock_def check_conflict_def update_locks_def insertable_def)
  show ?thesis
    using try_set_plock_exclusion [OF ok, of "\<lparr>lr_start = 5, lr_end = 15\<rparr>" "\<lambda>i. i = 5" "Some 2" 5 20 RdLock 8]
      ok step by simp
qed

end
