(* ===== verification/Slices.thy ===== *)
theory Slices
  imports ChunkLayout "HOL-Library.Product_Lexorder" Complex_Main
begin

text \<open>
  Slice descriptors of \<^verbatim>\<open>src/src/chunk/slice.rs\<close>: the fragmentation measure, the removal of fully
  covered slices, the delayed-deletion record format, and the mapping of a slice range to block
  spans. The lemmas show that the sweep computes the size of the union of the slice ranges, that
  dropping covered slices never changes which slice owns a byte, and that the record format
  round-trips.
\<close>

record slice_desc =
  slice_id :: nat
  chunk_id :: nat
  sl_offset :: nat
  sl_length :: nat

definition sl_end :: "slice_desc \<Rightarrow> nat" where
  "sl_end s = add_u64 (sl_offset s) (sl_length s)"

section \<open>Fragmentation\<close>

text \<open>The loop over \<^verbatim>\<open>intervals[1..]\<close> that accumulates the merged coverage.\<close>

fun merge_sweep :: "nat \<Rightarrow> nat \<Rightarrow> nat \<Rightarrow> (nat \<times> nat) list \<Rightarrow> nat" where
  "merge_sweep cur_start cur_end merged_coverage [] =
     add_u64 merged_coverage (sub_u64 cur_end cur_start)"
| "merge_sweep cur_start cur_end merged_coverage ((s, e) # rest) =
     (if s \<le> cur_end then merge_sweep cur_start (max cur_end e) merged_coverage rest
      else merge_sweep s e (add_u64 merged_coverage (sub_u64 cur_end cur_start)) rest)"

definition merged_coverage :: "slice_desc list \<Rightarrow> nat" where
  "merged_coverage slices =
     (case sort (map (\<lambda>s. (sl_offset s, sl_end s)) (filter (\<lambda>s. 0 < sl_length s) slices)) of
        [] \<Rightarrow> 0
      | (s, e) # rest \<Rightarrow> merge_sweep s e 0 rest)"

text \<open>
  The result is a quotient of two \<^verbatim>\<open>u64\<close> values converted to \<^verbatim>\<open>f64\<close>; it is modelled as the exact
  real quotient.
\<close>

definition calculate_fragmentation :: "slice_desc list \<Rightarrow> real" where
  "calculate_fragmentation slices =
     (let total_size = sum_u64 (map sl_length slices)
      in if slices = [] \<or> total_size = 0 \<or> filter (\<lambda>s. 0 < sl_length s) slices = [] then 0
         else real (sub_u64 total_size (merged_coverage slices)) / real total_size)"

section \<open>Removal of fully covered slices\<close>

fun remove_covered_loop ::
  "slice_desc list \<Rightarrow> (nat \<times> nat) list \<Rightarrow> slice_desc list \<Rightarrow> slice_desc list" where
  "remove_covered_loop [] covered_ranges result = result"
| "remove_covered_loop (sl # rest) covered_ranges result =
     (let start = sl_offset sl; stop = sl_end sl;
          is_fully_covered = list_ex (\<lambda>(cs, ce). start \<ge> cs \<and> stop \<le> ce) covered_ranges
      in remove_covered_loop rest (covered_ranges @ [(start, stop)])
           (if is_fully_covered then result else result @ [sl]))"

definition remove_fully_covered :: "slice_desc list \<Rightarrow> slice_desc list" where
  "remove_fully_covered slices =
     (if slices = [] then [] else rev (remove_covered_loop (rev slices) [] []))"

definition find_replaced_ids :: "slice_desc list \<Rightarrow> slice_desc list \<Rightarrow> nat list" where
  "find_replaced_ids original merged =
     map slice_id (filter (\<lambda>s. slice_id s \<notin> set (map slice_id merged)) original)"

section \<open>Delayed-deletion records\<close>

definition encode_delayed_record :: "slice_desc \<Rightarrow> bytes" where
  "encode_delayed_record s =
     to_le_bytes 8 (slice_id s) @ to_le_bytes 8 (sl_offset s)
     @ to_le_bytes 4 (min (sl_length s) (u32_limit - 1))"

definition encode_delayed_data :: "slice_desc list \<Rightarrow> nat list \<Rightarrow> bytes" where
  "encode_delayed_data slices replaced_ids =
     concat (map encode_delayed_record (filter (\<lambda>s. slice_id s \<in> set replaced_ids) slices))"

definition decode_delayed_record :: "bytes \<Rightarrow> nat \<times> nat \<times> nat" where
  "decode_delayed_record chunk =
     (from_le_bytes (take 8 chunk), from_le_bytes (take 8 (drop 8 chunk)),
      from_le_bytes (take 4 (drop 16 chunk)))"

text \<open>\<^verbatim>\<open>as_chunks::<20>\<close> with its remainder check: the records, or \<open>None\<close> for a trailing fragment.\<close>

function decode_delayed_data :: "bytes \<Rightarrow> (nat \<times> nat \<times> nat) list option" where
  "decode_delayed_data data =
     (if data = [] then Some []
      else if length data < 20 then None
      else map_option (Cons (decode_delayed_record (take 20 data)))
             (decode_delayed_data (drop 20 data)))"
  by pat_completeness auto
termination
  by (relation "measure length") auto

declare decode_delayed_data.simps [simp del]

section \<open>Block spans and object keys of a slice\<close>

definition block_span_iter_range :: "nat \<Rightarrow> nat \<Rightarrow> chunk_layout \<Rightarrow> span list option" where
  "block_span_iter_range off n lay =
     span_collect (split_into (span_new 0 off n) (chunk_size lay) (block_size lay) True)"

definition block_span_iter_chunk :: "nat \<Rightarrow> nat \<Rightarrow> chunk_layout \<Rightarrow> span list option" where
  "block_span_iter_chunk off n lay = block_span_iter_range off n lay"

definition block_span_iter_slice :: "nat \<Rightarrow> nat \<Rightarrow> chunk_layout \<Rightarrow> span list option" where
  "block_span_iter_slice off n lay = block_span_iter_range off n lay"

definition key_for_slice :: "nat \<Rightarrow> string" where
  "key_for_slice cid = ''slices/'' @ decimal cid"

definition key_for_block_of_slice :: "nat \<Rightarrow> nat \<Rightarrow> string" where
  "key_for_block_of_slice sid idx = decimal sid @ ''/'' @ decimal idx"

lemma block_span_iter_range_aligned:
  assumes "0 < block_size lay" and "off + n < u64_limit"
  shows "block_span_iter_range off n lay = Some (aligned_spans (block_size lay) off n)"
proof -
  have "add_u64 0 off = off" using assms by (simp add: u64_simps)
  then show ?thesis
    using assms span_collect_aligned [of "block_size lay" 0 off n]
    by (simp add: block_span_iter_range_def split_into_def span_new_def Let_def)
qed

lemmas block_span_iter_defs = block_span_iter_slice_def block_span_iter_chunk_def

section \<open>The sweep computes the size of the union\<close>

definition interval_union :: "(nat \<times> nat) list \<Rightarrow> nat set" where
  "interval_union ivs = (\<Union>(s, e)\<in>set ivs. {s..<e})"

lemma interval_union_simps [simp]:
  "interval_union [] = {}"
  "interval_union ((s, e) # ivs) = {s..<e} \<union> interval_union ivs"
  by (auto simp: interval_union_def)

lemma finite_interval_union [simp]: "finite (interval_union ivs)"
  by (auto simp: interval_union_def)

lemma interval_union_above:
  "\<forall>(s, e)\<in>set ivs. b \<le> s \<Longrightarrow> x \<in> interval_union ivs \<Longrightarrow> b \<le> x"
  by (fastforce simp: interval_union_def)

lemma merge_sweep_card:
  assumes "sorted (map fst ivs)" and "\<forall>(s, e)\<in>set ivs. cs \<le> s" and "cs \<le> ce"
    and "\<forall>(s, e)\<in>set ivs. s \<le> e \<and> e < u64_limit" and "ce < u64_limit"
    and "acc + card ({cs..<ce} \<union> interval_union ivs) < u64_limit"
  shows "merge_sweep cs ce acc ivs = acc + card ({cs..<ce} \<union> interval_union ivs)"
  using assms
proof (induction ivs arbitrary: cs ce acc)
  case Nil
  then show ?case by (simp add: u64_simps)
next
  case (Cons iv ivs)
  obtain s e where iv: "iv = (s, e)" by (cases iv)
  show ?case
  proof (cases "s \<le> ce")
    case True
    have "{cs..<ce} \<union> ({s..<e} \<union> interval_union ivs) = {cs..<max ce e} \<union> interval_union ivs"
      using True Cons.prems(2) iv by auto
    then show ?thesis
      using Cons.IH [of cs "max ce e" acc] Cons.prems True by (auto simp: iv)
  next
    case False
    let ?rest = "{s..<e} \<union> interval_union ivs"
    have later: "\<forall>(s', e')\<in>set ivs. s \<le> s'" using Cons.prems(1) by (auto simp: iv)
    have "x \<in> ?rest \<Longrightarrow> ce < x" for x
      using interval_union_above [OF later, of x] False by auto
    then have "{cs..<ce} \<inter> ?rest = {}" by force
    then have card: "card ({cs..<ce} \<union> ?rest) = (ce - cs) + card ?rest"
      by (subst card_Un_disjoint) auto
    have room: "acc + (ce - cs) + card ?rest < u64_limit"
      using Cons.prems(6) card by (simp add: iv)
    have "merge_sweep s e (acc + (ce - cs)) ivs = acc + (ce - cs) + card ?rest"
      using Cons.IH [of s e "acc + (ce - cs)"] Cons.prems later room by (auto simp: iv)
    moreover have "add_u64 acc (sub_u64 ce cs) = acc + (ce - cs)"
      using room Cons.prems(3,5) by (simp add: u64_simps)
    ultimately show ?thesis using False card by (simp add: iv)
  qed
qed

definition slice_range :: "slice_desc \<Rightarrow> nat set" where
  "slice_range s = {sl_offset s..<sl_offset s + sl_length s}"

text \<open>No slice range wraps around \<^verbatim>\<open>u64\<close>; slices live inside a chunk, so this is the normal case.\<close>

definition slices_bounded :: "slice_desc list \<Rightarrow> bool" where
  "slices_bounded slices \<longleftrightarrow> (\<forall>s\<in>set slices. sl_offset s + sl_length s < u64_limit)"

lemma slices_bounded_simps [simp]:
  "slices_bounded []"
  "slices_bounded (s # ss) \<longleftrightarrow> sl_offset s + sl_length s < u64_limit \<and> slices_bounded ss"
  "slices_bounded (xs @ ys) \<longleftrightarrow> slices_bounded xs \<and> slices_bounded ys"
  "slices_bounded (rev xs) \<longleftrightarrow> slices_bounded xs"
  by (auto simp: slices_bounded_def)

lemma sl_end_exact [simp]:
  "sl_offset s + sl_length s < u64_limit \<Longrightarrow> sl_end s = sl_offset s + sl_length s"
  by (simp add: sl_end_def u64_simps)

lemma merged_coverage_card:
  assumes "slices_bounded slices"
  shows "merged_coverage slices = card (\<Union>s\<in>set slices. slice_range s)"
proof -
  let ?ivs = "map (\<lambda>s. (sl_offset s, sl_end s)) (filter (\<lambda>s. 0 < sl_length s) slices)"
  have bnd: "\<forall>s\<in>set slices. sl_end s = sl_offset s + sl_length s"
    using assms by (auto simp: slices_bounded_def)
  have union: "interval_union (sort ?ivs) = (\<Union>s\<in>set slices. slice_range s)"
    using bnd by (auto simp: interval_union_def slice_range_def)
  have ord: "\<forall>(s, e)\<in>set (sort ?ivs). s \<le> e \<and> e < u64_limit"
    using bnd assms by (auto simp: slices_bounded_def)
  have "interval_union (sort ?ivs) \<subseteq> {..<u64_limit - 1}"
    using ord by (fastforce simp: interval_union_def)
  then have "card (interval_union (sort ?ivs)) \<le> u64_limit - 1"
    using card_mono [of "{..<u64_limit - 1}"] by fastforce
  then have small: "card (interval_union (sort ?ivs)) < u64_limit"
    by (simp add: u64_limit_def)
  have srt: "sorted (map fst (sort ?ivs))"
    by (rule sorted_map [THEN iffD2], rule sorted_wrt_mono_rel [OF _ sorted_sort])
       (auto simp: less_eq_prod_def)
  show ?thesis
  proof (cases "sort ?ivs")
    case Nil
    then show ?thesis using union by (simp add: merged_coverage_def)
  next
    case (Cons iv rest)
    obtain s e where iv: "iv = (s, e)" by (cases iv)
    have "merge_sweep s e 0 rest = card ({s..<e} \<union> interval_union rest)"
      using merge_sweep_card [of rest s e 0] srt ord small
      by (auto simp: Cons iv split_beta)
    then show ?thesis using union by (simp add: merged_coverage_def Cons iv)
  qed
qed

lemma card_slice_range [simp]: "card (slice_range s) = sl_length s"
  by (simp add: slice_range_def)

lemma merged_coverage_le_total:
  assumes "slices_bounded slices"
  shows "merged_coverage slices \<le> sum_list (map sl_length slices)"
proof -
  have "card (\<Union>s\<in>set slices. slice_range s) \<le> (\<Sum>s\<in>set slices. sl_length s)"
    using card_UN_le [of "set slices" slice_range] by simp
  also have "\<dots> \<le> sum_list (map sl_length slices)"
    by (simp add: sum_list_map_eq_sum_count2 [of _ "set slices"])
       (intro sum_mono, simp add: count_list_0_iff Suc_leI leI)
  finally show ?thesis using merged_coverage_card [OF assms] by simp
qed

section \<open>Covered slices own no byte\<close>

text \<open>
  The reader's rule: the last descriptor in metadata order whose range contains a position
  supplies its byte.
\<close>

definition covers :: "slice_desc \<Rightarrow> nat \<Rightarrow> bool" where
  "covers s x \<longleftrightarrow> sl_offset s \<le> x \<and> x < sl_offset s + sl_length s"

definition owner :: "slice_desc list \<Rightarrow> nat \<Rightarrow> slice_desc option" where
  "owner slices x = find (\<lambda>s. covers s x) (rev slices)"

lemma owner_Nil [simp]: "owner [] x = None"
  by (simp add: owner_def)

lemma find_append: "find P (xs @ ys) = (case find P xs of None \<Rightarrow> find P ys | Some y \<Rightarrow> Some y)"
  by (induction xs) auto

lemma owner_snoc [simp]:
  "owner (slices @ [s]) x = (if covers s x then Some s else owner slices x)"
  by (simp add: owner_def)

lemma owner_append:
  "owner (xs @ ys) x = (case owner ys x of None \<Rightarrow> owner xs x | Some s \<Rightarrow> Some s)"
  by (simp add: owner_def find_append cong: option.case_cong)

lemma owner_Some_iff_covered: "owner slices x \<noteq> None \<longleftrightarrow> (\<exists>s\<in>set slices. covers s x)"
  by (auto simp: owner_def find_None_iff2 find_None_iff)

lemma owner_in_set: "owner slices x = Some s \<Longrightarrow> s \<in> set slices \<and> covers s x"
  unfolding owner_def find_Some_iff by (metis nth_mem set_rev)

lemma slice_range_covers: "x \<in> slice_range s \<longleftrightarrow> covers s x"
  by (simp add: slice_range_def covers_def)

text \<open>
  The loop visits the newest descriptor first. What it appends is a subsequence of what it visits,
  and a position that no visited newer range contains keeps its first (newest) owner.
\<close>

lemma remove_covered_loop_acc:
  "remove_covered_loop ss cov res = res @ remove_covered_loop ss cov []"
proof (induction ss arbitrary: cov res)
  case (Cons s ss)
  show ?case
    unfolding remove_covered_loop.simps Let_def
    by (subst (1 2) Cons.IH) simp
qed simp

lemma remove_covered_loop_find:
  assumes "slices_bounded ss" and "\<forall>(cs, ce)\<in>set cov. \<not> (cs \<le> x \<and> x < ce)"
  shows "find (\<lambda>s. covers s x) (remove_covered_loop ss cov []) = find (\<lambda>s. covers s x) ss"
  using assms
proof (induction ss arbitrary: cov)
  case (Cons s ss)
  let ?full = "list_ex (\<lambda>(cs, ce). sl_offset s \<ge> cs \<and> sl_end s \<le> ce) cov"
  have end_eq: "sl_end s = sl_offset s + sl_length s" using Cons.prems by simp
  have step: "remove_covered_loop (s # ss) cov [] =
      (if ?full then [] else [s]) @ remove_covered_loop ss (cov @ [(sl_offset s, sl_end s)]) []"
    unfolding remove_covered_loop.simps Let_def
    by (subst remove_covered_loop_acc) simp
  show ?case
  proof (cases "covers s x")
    case True
    then have "\<not> ?full"
      using Cons.prems(2) end_eq by (fastforce simp: covers_def list_ex_iff)
    then show ?thesis using True by (simp only: step) simp
  next
    case False
    then have "find (\<lambda>s. covers s x)
        (remove_covered_loop ss (cov @ [(sl_offset s, sl_end s)]) []) = find (\<lambda>s. covers s x) ss"
      using Cons.IH Cons.prems end_eq by (auto simp: covers_def)
    then show ?thesis using False by (simp only: step) simp
  qed
qed simp

lemma owner_remove_fully_covered:
  assumes "slices_bounded slices"
  shows "owner (remove_fully_covered slices) x = owner slices x"
  using remove_covered_loop_find [of "rev slices" "[]" x] assms
  by (auto simp: remove_fully_covered_def owner_def)

lemma set_remove_covered_loop: "set (remove_covered_loop ss cov res) \<subseteq> set res \<union> set ss"
proof (induction ss arbitrary: cov res)
  case (Cons s ss)
  have sub: "set (if b then res else res @ [s]) \<subseteq> set res \<union> {s}" for b by auto
  show ?case
    unfolding remove_covered_loop.simps Let_def
    by (rule subset_trans [OF Cons.IH]) (use sub in auto)
qed simp

lemma set_remove_fully_covered: "set (remove_fully_covered slices) \<subseteq> set slices"
  using set_remove_covered_loop [of "rev slices" "[]" "[]"]
  by (auto simp: remove_fully_covered_def)

lemma slices_bounded_subset: "set xs \<subseteq> set ys \<Longrightarrow> slices_bounded ys \<Longrightarrow> slices_bounded xs"
  by (auto simp: slices_bounded_def)

section \<open>Round trip of the delayed-deletion records\<close>

lemma length_encode_delayed_record [simp]: "length (encode_delayed_record s) = 20"
  by (simp add: encode_delayed_record_def)

lemma decode_encode_delayed_record:
  assumes "slice_id s < u64_limit" and "sl_offset s < u64_limit"
  shows "decode_delayed_record (encode_delayed_record s) =
           (slice_id s, sl_offset s, min (sl_length s) (u32_limit - 1))"
  using assms
  by (simp add: encode_delayed_record_def decode_delayed_record_def from_to_le_bytes
      u64_limit_def u32_limit_def)

lemma decode_delayed_step:
  "length r = 20 \<Longrightarrow>
   decode_delayed_data (r @ data) = map_option (Cons (decode_delayed_record r)) (decode_delayed_data data)"
  by (subst decode_delayed_data.simps) auto

lemma decode_encode_delayed:
  assumes "\<forall>s\<in>set ss. slice_id s < u64_limit \<and> sl_offset s < u64_limit"
  shows "decode_delayed_data (concat (map encode_delayed_record ss)) =
           Some (map (\<lambda>s. (slice_id s, sl_offset s, min (sl_length s) (u32_limit - 1))) ss)"
  using assms
proof (induction ss)
  case Nil
  then show ?case by (simp add: decode_delayed_data.simps)
next
  case (Cons s ss)
  then show ?case by (simp add: decode_delayed_step decode_encode_delayed_record)
qed

lemma decode_delayed_length:
  "decode_delayed_data data \<noteq> None \<longleftrightarrow> 20 dvd length data"
proof (induction data rule: decode_delayed_data.induct)
  case (1 data)
  show ?case
  proof (cases "length data < 20")
    case True
    then show ?thesis
      by (subst decode_delayed_data.simps) (auto dest: dvd_imp_le)
  next
    case False
    then have "20 dvd length data \<longleftrightarrow> 20 dvd length (drop 20 data)"
      using dvd_minus_self [of 20 "length data"] by auto
    with False 1 show ?thesis
      by (subst decode_delayed_data.simps) auto
  qed
qed

section \<open>Object keys\<close>

lemma append_slash_inject:
  assumes "c \<notin> set xs" and "c \<notin> set xs'" and "xs @ c # ys = xs' @ c # ys'"
  shows "xs = xs' \<and> ys = ys'"
  using assms
proof (induction xs arbitrary: xs')
  case Nil
  then show ?case by (cases xs') auto
next
  case (Cons x xs)
  then show ?case by (cases xs') auto
qed

lemma key_for_block_inject:
  "key_for_block_of_slice a i = key_for_block_of_slice b j \<longleftrightarrow> a = b \<and> i = j"
  using append_slash_inject [of "CHR ''/''" "decimal a" "decimal b" "decimal i" "decimal j"]
  by (auto simp: key_for_block_of_slice_def)

section \<open>Correctness of the slice operations\<close>

text \<open>
  C40. The fragmentation ratio is the share of the stored bytes that no longer count: total slice
  length minus the size of the union of the slice ranges, over the total; it lies in \<open>[0, 1)\<close>.
\<close>

theorem calculate_fragmentation_union:
  assumes "slices_bounded slices" and "sum_list (map sl_length slices) < u64_limit"
    and "0 < sum_list (map sl_length slices)"
  shows "calculate_fragmentation slices =
      (real (sum_list (map sl_length slices)) - real (card (\<Union>s\<in>set slices. slice_range s)))
      / real (sum_list (map sl_length slices))
    \<and> 0 \<le> calculate_fragmentation slices \<and> calculate_fragmentation slices < 1"
proof -
  let ?t = "sum_list (map sl_length slices)"
  have ex: "\<exists>s\<in>set slices. 0 < sl_length s"
    using assms(3) by (metis (no_types, lifting) bot_nat_0.not_eq_extremum in_set_conv_nth
        length_map nth_map sum_list_eq_0_iff)
  have card: "merged_coverage slices = card (\<Union>s\<in>set slices. slice_range s)"
    by (rule merged_coverage_card [OF assms(1)])
  have le: "merged_coverage slices \<le> ?t" by (rule merged_coverage_le_total [OF assms(1)])
  have "0 < card (\<Union>s\<in>set slices. slice_range s)"
    using ex by (auto simp: card_gt_0_iff slice_range_def)
  then have pos: "0 < merged_coverage slices" using card by simp
  have ne: "slices \<noteq> []" "filter (\<lambda>s. 0 < sl_length s) slices \<noteq> []"
    using ex by (auto simp: filter_empty_conv)
  have eq: "calculate_fragmentation slices = (real ?t - real (merged_coverage slices)) / real ?t"
    using assms ne le by (simp add: calculate_fragmentation_def u64_simps Let_def of_nat_diff)
  show ?thesis unfolding eq using assms(3) le pos card by simp
qed

theorem calculate_fragmentation_union_witness:
  "calculate_fragmentation
     [\<lparr>slice_id = 1, chunk_id = 1, sl_offset = 0, sl_length = 100\<rparr>,
      \<lparr>slice_id = 2, chunk_id = 1, sl_offset = 50, sl_length = 100\<rparr>] < 1"
  by (rule calculate_fragmentation_union [THEN conjunct2, THEN conjunct2])
     (simp_all add: u64_limit_def)

text \<open>
  C39. Dropping fully covered slices is invisible to readers: every byte position of the chunk is
  supplied by the same slice before and after, and only slices of the input survive.
\<close>

theorem remove_fully_covered_preserves_owner:
  assumes "slices_bounded slices"
  shows "owner (remove_fully_covered slices) = owner slices
    \<and> set (remove_fully_covered slices) \<subseteq> set slices"
  using owner_remove_fully_covered [OF assms] set_remove_fully_covered by blast

theorem remove_fully_covered_preserves_owner_witness:
  "owner (remove_fully_covered
     [\<lparr>slice_id = 1, chunk_id = 1, sl_offset = 10, sl_length = 5\<rparr>,
      \<lparr>slice_id = 2, chunk_id = 1, sl_offset = 0, sl_length = 100\<rparr>]) 12
   = Some \<lparr>slice_id = 2, chunk_id = 1, sl_offset = 0, sl_length = 100\<rparr>"
  using remove_fully_covered_preserves_owner
    [of "[\<lparr>slice_id = 1, chunk_id = 1, sl_offset = 10, sl_length = 5\<rparr>,
      \<lparr>slice_id = 2, chunk_id = 1, sl_offset = 0, sl_length = 100\<rparr>]"]
  by (simp add: u64_limit_def owner_def covers_def)

text \<open>
  The delayed-deletion record format round-trips: decoding the encoded records of the replaced
  slices yields their identifier, offset and length, the length saturated to 32 bits.
\<close>

theorem delayed_data_round_trip:
  assumes "\<forall>s\<in>set slices. slice_id s < u64_limit \<and> sl_offset s < u64_limit"
  shows "decode_delayed_data (encode_delayed_data slices replaced_ids) =
    Some (map (\<lambda>s. (slice_id s, sl_offset s, min (sl_length s) (u32_limit - 1)))
           (filter (\<lambda>s. slice_id s \<in> set replaced_ids) slices))"
  unfolding encode_delayed_data_def using assms by (intro decode_encode_delayed) auto

theorem delayed_data_round_trip_witness:
  "decode_delayed_data (encode_delayed_data
     [\<lparr>slice_id = 1, chunk_id = 1, sl_offset = 10, sl_length = 5\<rparr>,
      \<lparr>slice_id = 2, chunk_id = 1, sl_offset = 0, sl_length = 2 ^ 33\<rparr>] [2])
   = Some [(2, 0, u32_limit - 1)]"
  using delayed_data_round_trip
    [of "[\<lparr>slice_id = 1, chunk_id = 1, sl_offset = 10, sl_length = 5\<rparr>,
      \<lparr>slice_id = 2, chunk_id = 1, sl_offset = 0, sl_length = 2 ^ 33\<rparr>]" "[2]"]
  by (simp add: u64_limit_def u32_limit_def)

end
