(* ===== verification/Intervals.thy ===== *)
theory Intervals
  imports Prelude
begin

text \<open>
  The interval set of \<^verbatim>\<open>src/src/utils/intervals.rs\<close>, from which the chunk reader cuts the ranges
  that each slice supplies. The lemmas show that a cut splits the covered points exactly into the
  part inside the given range, which is reported, and the part outside, which remains, and that
  the intervals stay sorted and disjoint.
\<close>

type_synonym 'a intervals = "('a \<times> 'a) list"

definition intervals_new :: "'a::linorder \<Rightarrow> 'a \<Rightarrow> 'a intervals" where
  "intervals_new l r = [(l, r)]"

text \<open>The \<^verbatim>\<open>for\<close> loop of \<^verbatim>\<open>cut_each\<close>: the calls of \<^verbatim>\<open>on_cut\<close>, \<^verbatim>\<open>remaining\<close> and \<^verbatim>\<open>touched\<close>.\<close>

fun cut_loop :: "'a::linorder \<Rightarrow> 'a \<Rightarrow> 'a intervals \<Rightarrow> 'a intervals \<times> 'a intervals \<times> bool" where
  "cut_loop slice_l slice_r [] = ([], [], False)"
| "cut_loop slice_l slice_r ((l, r) # ivs) =
     (let (cuts, remaining, touched) = cut_loop slice_l slice_r ivs
      in if r \<le> slice_l \<or> l \<ge> slice_r then (cuts, (l, r) # remaining, touched)
         else let cut_l = max l slice_l; cut_r = min r slice_r
              in ((if cut_l < cut_r then [(cut_l, cut_r)] else []) @ cuts,
                  (if l < cut_l then [(l, cut_l)] else [])
                  @ (if cut_r < r then [(cut_r, r)] else []) @ remaining,
                  True))"

definition cut_each :: "'a::linorder intervals \<Rightarrow> 'a \<Rightarrow> 'a \<Rightarrow> 'a intervals \<times> 'a intervals \<times> bool" where
  "cut_each self slice_l slice_r =
     (if self = [] then ([], self, False)
      else let (cuts, remaining, touched) = cut_loop slice_l slice_r self
           in if \<not> touched then (cuts, self, False) else (cuts, remaining, True))"

definition cut :: "'a::linorder intervals \<Rightarrow> 'a \<Rightarrow> 'a \<Rightarrow> 'a intervals \<times> 'a intervals" where
  "cut self slice_l slice_r = (let (cuts, remaining, _) = cut_each self slice_l slice_r in (cuts, remaining))"

section \<open>Covered points\<close>

definition ivs_points :: "'a::linorder intervals \<Rightarrow> 'a set" where
  "ivs_points ivs = (\<Union>(l, r)\<in>set ivs. {l..<r})"

lemma ivs_points_simps [simp]:
  "ivs_points [] = {}"
  "ivs_points ((l, r) # ivs) = {l..<r} \<union> ivs_points ivs"
  "ivs_points (xs @ ys) = ivs_points xs \<union> ivs_points ys"
  by (auto simp: ivs_points_def)

lemma ivs_points_iff: "x \<in> ivs_points ivs \<longleftrightarrow> (\<exists>l r. (l, r) \<in> set ivs \<and> l \<le> x \<and> x < r)"
  unfolding ivs_points_def by force

lemma ivs_points_single: "ivs_points (if l < r then [(l, r)] else []) = {l..<r}"
  by simp

lemma cut_loop_cuts:
  "cut_loop sl sr ivs = (cuts, rest, t) \<Longrightarrow> ivs_points cuts = ivs_points ivs \<inter> {sl..<sr}"
proof (induction sl sr ivs arbitrary: cuts rest t rule: cut_loop.induct)
  case (2 sl sr l r ivs)
  obtain c q u where rec: "cut_loop sl sr ivs = (c, q, u)" by (cases "cut_loop sl sr ivs") auto
  have IH: "ivs_points c = ivs_points ivs \<inter> {sl..<sr}" by (rule "2.IH" [OF rec])
  show ?case
  proof (cases "r \<le> sl \<or> l \<ge> sr")
    case True
    then have "({l..<r} \<union> ivs_points ivs) \<inter> {sl..<sr} = ivs_points ivs \<inter> {sl..<sr}" by auto
    moreover have "cuts = c" using True 2(2) by (simp add: rec)
    ultimately show ?thesis by (simp only: IH ivs_points_simps)
  next
    case False
    then have "cuts = (if max l sl < min r sr then [(max l sl, min r sr)] else []) @ c"
      using 2(2) by (simp add: rec Let_def)
    then have "ivs_points cuts = {max l sl..<min r sr} \<union> ivs_points c"
      by (simp only: ivs_points_simps(3) ivs_points_single)
    then show ?thesis unfolding IH by (simp add: Int_Un_distrib2)
  qed
qed simp

lemma cut_loop_rest:
  assumes "sl \<le> sr"
  shows "cut_loop sl sr ivs = (cuts, rest, t) \<Longrightarrow> ivs_points rest = ivs_points ivs - {sl..<sr}"
  using assms
proof (induction sl sr ivs arbitrary: cuts rest t rule: cut_loop.induct)
  case (2 sl sr l r ivs)
  obtain c q u where rec: "cut_loop sl sr ivs = (c, q, u)" by (cases "cut_loop sl sr ivs") auto
  have IH: "ivs_points q = ivs_points ivs - {sl..<sr}" by (rule "2.IH" [OF rec 2(3)])
  show ?case
  proof (cases "r \<le> sl \<or> l \<ge> sr")
    case True
    then have "{l..<r} - {sl..<sr} = {l..<r}" by auto
    moreover have "rest = (l, r) # q" using True 2(2) by (simp add: rec)
    ultimately show ?thesis by (simp only: IH ivs_points_simps Un_Diff)
  next
    case False
    then have "rest = (if l < max l sl then [(l, max l sl)] else [])
        @ (if min r sr < r then [(min r sr, r)] else []) @ q"
      using 2(2) by (simp add: rec Let_def)
    then have "ivs_points rest = {l..<max l sl} \<union> {min r sr..<r} \<union> ivs_points q"
      by (simp only: ivs_points_simps(3) ivs_points_single Un_assoc)
    moreover have "{l..<max l sl} \<union> {min r sr..<r} = {l..<r} - {sl..<sr}"
      using False 2(3) by (auto simp: max_def min_def)
    ultimately show ?thesis unfolding IH by (simp add: Un_Diff)
  qed
qed simp

lemma cut_loop_untouched: "cut_loop sl sr ivs = (cuts, rest, False) \<Longrightarrow> cuts = [] \<and> rest = ivs"
proof (induction sl sr ivs arbitrary: cuts rest rule: cut_loop.induct)
  case (2 sl sr l r ivs)
  then show ?case by (auto simp: Let_def split: if_splits prod.splits)
qed simp

lemma cut_each_eq_loop: "cut_each ivs sl sr = cut_loop sl sr ivs"
  by (cases "cut_loop sl sr ivs")
     (auto simp: cut_each_def Let_def dest: cut_loop_untouched)

lemma cut_nonempty:
  "cut_loop sl sr ivs = (cuts, rest, t) \<Longrightarrow> (l, r) \<in> set cuts \<Longrightarrow> l < r"
proof (induction sl sr ivs arbitrary: cuts rest t rule: cut_loop.induct)
  case (2 sl sr l' r' ivs)
  obtain c q u where rec: "cut_loop sl sr ivs = (c, q, u)" by (cases "cut_loop sl sr ivs") auto
  from "2.IH" [OF rec] 2(2,3) show ?case by (auto simp: rec Let_def split: if_splits)
qed simp

section \<open>Sorted disjoint intervals\<close>

fun sorted_ivs :: "'a::linorder intervals \<Rightarrow> bool" where
  "sorted_ivs [] = True"
| "sorted_ivs ((l, r) # ivs) = (l < r \<and> (\<forall>(l', r')\<in>set ivs. r \<le> l') \<and> sorted_ivs ivs)"

lemma sorted_ivs_append:
  "sorted_ivs (xs @ ys) \<longleftrightarrow>
     sorted_ivs xs \<and> sorted_ivs ys \<and> (\<forall>(l, r)\<in>set xs. \<forall>(l', r')\<in>set ys. r \<le> l')"
  by (induction xs rule: sorted_ivs.induct) auto

lemma cut_loop_lower:
  assumes "cut_loop sl sr ivs = (cuts, rest, t)" and "\<forall>p\<in>set ivs. b \<le> fst p"
    and "sl \<le> sr" and "\<forall>p\<in>set ivs. fst p < snd p"
  shows "\<forall>p\<in>set cuts \<union> set rest. b \<le> fst p"
  using assms
proof (induction sl sr ivs arbitrary: cuts rest t rule: cut_loop.induct)
  case (2 sl sr l r ivs)
  obtain c q u where rec: "cut_loop sl sr ivs = (c, q, u)" by (cases "cut_loop sl sr ivs") auto
  have "\<forall>p\<in>set c \<union> set q. b \<le> fst p" using "2.IH" [OF rec] 2(3-5) by simp
  then have IH: "\<forall>p\<in>set c. b \<le> fst p" "\<forall>p\<in>set q. b \<le> fst p" by simp_all
  have "b \<le> l" "l < r" using 2(3,5) by simp_all
  show ?case
  proof (cases "r \<le> sl \<or> l \<ge> sr")
    case True
    then have "cuts = c" "rest = (l, r) # q" using 2(2) by (simp_all add: rec)
    then show ?thesis using IH \<open>b \<le> l\<close> by auto
  next
    case False
    then have "cuts = (if max l sl < min r sr then [(max l sl, min r sr)] else []) @ c"
      and "rest = (if l < max l sl then [(l, max l sl)] else [])
        @ (if min r sr < r then [(min r sr, r)] else []) @ q"
      using 2(2) by (simp_all add: rec Let_def)
    moreover have "b \<le> max l sl" using \<open>b \<le> l\<close> by (rule max.coboundedI1)
    moreover have "b \<le> min r sr" using \<open>b \<le> l\<close> \<open>l < r\<close> False by auto
    moreover have "p \<in> set (if x < y then [(x, y)] else []) \<Longrightarrow> fst p = x" for p and x y :: 'a
      by (simp split: if_splits)
    ultimately show ?thesis using IH \<open>b \<le> l\<close> by (metis Un_iff set_append)
  qed
qed simp

lemma sorted_ivs_nonempty: "sorted_ivs ivs \<Longrightarrow> \<forall>p\<in>set ivs. fst p < snd p"
  by (induction ivs rule: sorted_ivs.induct) auto

lemma cut_loop_sorted:
  assumes "cut_loop sl sr ivs = (cuts, rest, t)" and "sorted_ivs ivs" and "sl \<le> sr"
  shows "sorted_ivs cuts \<and> sorted_ivs rest"
  using assms
proof (induction sl sr ivs arbitrary: cuts rest t rule: cut_loop.induct)
  case (2 sl sr l r ivs)
  obtain c q u where rec: "cut_loop sl sr ivs = (c, q, u)" by (cases "cut_loop sl sr ivs") auto
  have IH: "sorted_ivs c" "sorted_ivs q" using "2.IH" [OF rec] 2(3,4) by simp_all
  have above: "\<forall>p\<in>set ivs. r \<le> fst p" using 2(3) by (simp add: split_beta)
  have "\<forall>p\<in>set c \<union> set q. r \<le> fst p"
    using cut_loop_lower [OF rec, of r] above 2(3,4) sorted_ivs_nonempty [of ivs]
    by (simp add: split_beta)
  then have cs: "\<forall>p\<in>set c. r \<le> fst p" and qs: "\<forall>p\<in>set q. r \<le> fst p" by simp_all
  have lr: "l < r" using 2(3) by simp
  show ?case
  proof (cases "r \<le> sl \<or> l \<ge> sr")
    case True
    then show ?thesis using 2(2) IH qs lr by (auto simp: rec split_beta)
  next
    case False
    have mid: "l \<le> max l sl" "min r sr \<le> r" "max l sl \<le> min r sr"
      using False lr 2(4) by auto
    have "max l sl \<le> r" using mid by (meson order_trans)
    then have qs': "\<forall>p\<in>set q. max l sl \<le> fst p" using qs order_trans by blast
    have cs': "\<forall>p\<in>set c. min r sr \<le> fst p" using cs mid(2) order_trans by blast
    have cuts: "cuts = (if max l sl < min r sr then [(max l sl, min r sr)] else []) @ c"
      and rest: "rest = (if l < max l sl then [(l, max l sl)] else [])
        @ (if min r sr < r then [(min r sr, r)] else []) @ q"
      using 2(2) False by (simp_all add: rec Let_def)
    show ?thesis unfolding cuts rest using IH qs qs' cs' mid by (simp add: sorted_ivs_append split_beta)
  qed
qed simp

lemma sorted_ivs_disjoint:
  "sorted_ivs ivs \<Longrightarrow> (l, r) \<in> set ivs \<Longrightarrow> (l', r') \<in> set ivs \<Longrightarrow> x \<in> {l..<r} \<Longrightarrow> x \<in> {l'..<r'}
   \<Longrightarrow> (l, r) = (l', r')"
proof (induction ivs rule: sorted_ivs.induct)
  case (2 a b ivs)
  have later: "\<forall>p\<in>set ivs. b \<le> fst p" using 2(2) by (simp add: split_beta)
  consider "(l, r) \<in> set ivs" "(l', r') \<in> set ivs" | "(l, r) = (a, b)" "(l', r') = (a, b)"
    | "(l, r) = (a, b)" "(l', r') \<in> set ivs" | "(l, r) \<in> set ivs" "(l', r') = (a, b)"
    using 2(3,4) by auto
  then show ?case
  proof cases
    case 1
    then show ?thesis using 2 by simp
  next
    case 2
    then show ?thesis by simp
  next
    case 3
    then have "b \<le> l'" using later by force
    then show ?thesis using 3 2(5,6) by auto
  next
    case 4
    then have "b \<le> l" using later by force
    then show ?thesis using 4 2(5,6) by auto
  qed
qed simp

lemma sorted_ivs_distinct: "sorted_ivs ivs \<Longrightarrow> distinct ivs"
proof (induction ivs rule: sorted_ivs.induct)
  case (2 a b ivs)
  then have "(a, b) \<notin> set ivs" by auto
  with 2 show ?case by simp
qed simp

lemma sorted_ivs_points_empty: "sorted_ivs ivs \<Longrightarrow> ivs_points ivs = {} \<longleftrightarrow> ivs = []"
  by (cases ivs) auto

section \<open>Correctness of a cut\<close>

text \<open>
  Cutting a range out of a sorted disjoint interval set reports exactly the covered points
  inside the range and keeps exactly the covered points outside it; both results are again sorted
  disjoint non-empty intervals.
\<close>

theorem cut_partitions:
  assumes "sorted_ivs ivs" and "sl \<le> sr"
  shows "case cut ivs sl sr of (cuts, rest) \<Rightarrow>
    ivs_points cuts = ivs_points ivs \<inter> {sl..<sr} \<and> ivs_points rest = ivs_points ivs - {sl..<sr}
    \<and> sorted_ivs cuts \<and> sorted_ivs rest"
proof -
  obtain c q u where rec: "cut_loop sl sr ivs = (c, q, u)" by (cases "cut_loop sl sr ivs") auto
  then have "cut ivs sl sr = (c, q)" by (simp add: cut_def cut_each_eq_loop)
  then show ?thesis
    using cut_loop_cuts [OF rec] cut_loop_rest [OF assms(2) rec] cut_loop_sorted [OF rec assms]
    by simp
qed

theorem cut_partitions_witness:
  "case cut [(0, 10), (20, 30 :: nat)] 5 25 of (cuts, rest) \<Rightarrow>
    ivs_points cuts = ivs_points [(0, 10), (20, 30)] \<inter> {5..<25}
    \<and> ivs_points rest = ivs_points [(0, 10), (20, 30)] - {5..<25}
    \<and> sorted_ivs cuts \<and> sorted_ivs rest"
  by (rule cut_partitions) simp_all

end
