(* ===== verification/BlockStore.thy ===== *)
theory BlockStore
  imports Prelude ChunkLayout
begin

text \<open>
  The block store interface of \<^verbatim>\<open>src/src/chunk/store.rs\<close> and its in-memory implementation. A block
  is keyed by a slice identifier and a block index; writes are copy-on-write, that is, they target
  a key that holds nothing yet. The locale \<open>block_store\<close> states what the readers and uploaders
  rely on; the in-memory store is shown to provide it.
\<close>

type_synonym block_key = "nat \<times> nat"

datatype io_error =
    IncompleteBlockRead (inc_slice_id: nat) (inc_block_index: nat) (inc_offset: nat)
      (inc_expected: nat) (inc_actual: nat)
  | NotPrepared
  | MetaFailure
  | Unsupported
  | Panic

definition require_complete_read :: "block_key \<Rightarrow> nat \<Rightarrow> nat \<Rightarrow> nat \<Rightarrow> io_error + unit" where
  "require_complete_read key off expected actual =
     (if actual = expected then Inr ()
      else Inl (IncompleteBlockRead (fst key) (snd key) off expected actual))"

section \<open>The in-memory store\<close>

type_synonym in_memory_block_store = "block_key \<rightharpoonup> bytes"

text \<open>\<^verbatim>\<open>Vec::resize(n, 0)\<close> of a vector shorter than \<open>n\<close>.\<close>

definition resize :: "bytes \<Rightarrow> nat \<Rightarrow> bytes" where
  "resize v n = v @ replicate (n - length v) 0"

definition mem_write_fresh_range ::
  "in_memory_block_store \<Rightarrow> block_key \<Rightarrow> nat \<Rightarrow> bytes \<Rightarrow> (io_error + nat) \<times> in_memory_block_store" where
  "mem_write_fresh_range m key off data =
     (let entry = (case m key of None \<Rightarrow> [] | Some v \<Rightarrow> v);
          start = off; stop = add_u64 start (length data);
          entry = (if length entry < stop then resize entry stop else entry)
      in if stop < start then (Inl Panic, m(key \<mapsto> entry))
         else (Inr (length data), m(key \<mapsto> overwrite entry start data)))"

text \<open>
  A read fills a buffer of the requested length; the buffer contents are the result. On an error
  the buffer is discarded by every caller.
\<close>

definition mem_read_range :: "in_memory_block_store \<Rightarrow> block_key \<Rightarrow> nat \<Rightarrow> nat \<Rightarrow> io_error + bytes" where
  "mem_read_range m key off n =
     (case m key of
        None \<Rightarrow> rbind (require_complete_read key off n 0) (\<lambda>_. Inr (replicate n 0))
      | Some src \<Rightarrow>
          let available = min (length src - off) n
          in rbind (require_complete_read key off n available)
               (\<lambda>_. Inr (take available (drop off src) @ replicate (n - available) 0)))"

text \<open>\<^verbatim>\<open>delete_range\<close> removes the keys \<open>start..start + block_count\<close>, the end computed in \<^verbatim>\<open>u32\<close>.\<close>

definition mem_delete_range :: "in_memory_block_store \<Rightarrow> block_key \<Rightarrow> nat \<Rightarrow> in_memory_block_store" where
  "mem_delete_range m key block_count =
     (case key of (sid, start) \<Rightarrow>
        let stop = as_u32 (start + as_u32 block_count)
        in fold (\<lambda>i m. m((sid, i) := None)) [start..<stop] m)"

text \<open>The in-memory store keeps the default \<^verbatim>\<open>delete_coalesced_group\<close>, which always fails.\<close>

definition mem_delete_coalesced_group :: "in_memory_block_store \<Rightarrow> u64 \<Rightarrow> io_error + in_memory_block_store" where
  "mem_delete_coalesced_group m grp = Inl Unsupported"

text \<open>The default \<^verbatim>\<open>write_fresh_vectored\<close>: concatenate and delegate.\<close>

definition write_fresh_vectored ::
  "('st \<Rightarrow> block_key \<Rightarrow> nat \<Rightarrow> bytes \<Rightarrow> (io_error + nat) \<times> 'st)
   \<Rightarrow> 'st \<Rightarrow> block_key \<Rightarrow> nat \<Rightarrow> bytes list \<Rightarrow> (io_error + nat) \<times> 'st" where
  "write_fresh_vectored write_fresh_range st key off chunks = write_fresh_range st key off (concat chunks)"

section \<open>The contract of a block store\<close>

text \<open>
  \<open>block st key\<close> is the content of a block, if it exists. A write to a fresh key creates the block
  with the data at its offset and zeros before it, and touches no other block; a read succeeds
  exactly when the block covers the range; a deletion removes only blocks of the named slice.
\<close>

locale block_store =
  fixes block :: "'st \<Rightarrow> block_key \<Rightarrow> bytes option"
    and write_range :: "'st \<Rightarrow> block_key \<Rightarrow> nat \<Rightarrow> bytes \<Rightarrow> (io_error + nat) \<times> 'st"
    and read_range :: "'st \<Rightarrow> block_key \<Rightarrow> nat \<Rightarrow> nat \<Rightarrow> io_error + bytes"
    and delete_range :: "'st \<Rightarrow> block_key \<Rightarrow> nat \<Rightarrow> 'st"
  assumes write_fresh:
    "block st key = None \<Longrightarrow> off + length data < u64_limit \<Longrightarrow>
       \<exists>st'. write_range st key off data = (Inr (length data), st')
         \<and> block st' = (block st)(key \<mapsto> replicate off 0 @ data)"
  and read_covered:
    "block st key = Some b \<Longrightarrow> off + n \<le> length b \<Longrightarrow> read_range st key off n = Inr (take n (drop off b))"
  and read_uncovered:
    "0 < n \<Longrightarrow> (case block st key of None \<Rightarrow> True | Some b \<Rightarrow> length b < off + n) \<Longrightarrow>
       \<exists>e. read_range st key off n = Inl e"
  and delete_only:
    "start + n < u32_limit \<Longrightarrow>
       block (delete_range st (sid, start) n) =
         (\<lambda>key. if fst key = sid \<and> start \<le> snd key \<and> snd key < start + n then None else block st key)"

lemma mem_write_fresh:
  assumes "m key = None" and "off + length data < u64_limit"
  shows "mem_write_fresh_range m key off data = (Inr (length data), m(key \<mapsto> replicate off 0 @ data))"
  using assms
  by (auto simp: mem_write_fresh_range_def u64_simps resize_def overwrite_def Let_def)

lemma mem_read_covered:
  assumes "m key = Some b" and "off + n \<le> length b"
  shows "mem_read_range m key off n = Inr (take n (drop off b))"
proof -
  have "min (length b - off) n = n" using assms(2) by simp
  then show ?thesis using assms by (simp add: mem_read_range_def require_complete_read_def)
qed

lemma mem_read_uncovered:
  assumes "0 < n" and "case m key of None \<Rightarrow> True | Some b \<Rightarrow> length b < off + n"
  shows "\<exists>a < n. mem_read_range m key off n = Inl (IncompleteBlockRead (fst key) (snd key) off n a)"
  using assms by (auto simp: mem_read_range_def require_complete_read_def Let_def split: option.splits)

lemma fold_delete:
  "fold (\<lambda>i m. m((sid, i) := None)) [start..<stop] m =
     (\<lambda>key. if fst key = sid \<and> start \<le> snd key \<and> snd key < stop then None else m key)"
proof (induction stop)
  case (Suc stop)
  show ?case
  proof (cases "start \<le> stop")
    case True
    then have step: "fold (\<lambda>i m. m((sid, i) := None)) [start..<Suc stop] m =
        (fold (\<lambda>i m. m((sid, i) := None)) [start..<stop] m)((sid, stop) := None)"
      by simp
    show ?thesis unfolding step Suc.IH using True by (auto simp: fun_eq_iff)
  qed (auto simp: fun_eq_iff)
qed auto

lemma mem_delete_only:
  assumes "start + n < u32_limit"
  shows "mem_delete_range m (sid, start) n =
    (\<lambda>key. if fst key = sid \<and> start \<le> snd key \<and> snd key < start + n then None else m key)"
  using assms by (simp add: mem_delete_range_def fold_delete Let_def)

lemma mem_delete_other: "fst key \<noteq> sid \<Longrightarrow> mem_delete_range m (sid, start) n key = m key"
  by (simp add: mem_delete_range_def fold_delete Let_def)

lemma mem_write_other:
  "fst key \<noteq> fst k \<Longrightarrow> snd (mem_write_fresh_range m k off data) key = m key"
  by (auto simp: mem_write_fresh_range_def Let_def)

interpretation mem: block_store "\<lambda>m. m" mem_write_fresh_range mem_read_range mem_delete_range
proof (unfold_locales, goal_cases)
  case (1 st key off data)
  then show ?case using mem_write_fresh by blast
next
  case (2 st key b off n)
  then show ?case by (rule mem_read_covered)
next
  case (3 n st key off)
  then show ?case using mem_read_uncovered by blast
next
  case (4 start n st sid)
  then show ?case by (rule mem_delete_only)
qed

end
