(* ===== verification/ChunkIO.thy ===== *)
theory ChunkIO
  imports Slices Intervals BlockStore
begin

text \<open>
  The data path of a chunk: \<^verbatim>\<open>src/src/chunk/reader.rs\<close> (which slice supplies which range, and
  filling a buffer from the block store) and \<^verbatim>\<open>src/src/chunk/writer.rs\<close> (cutting a vectored
  payload into blocks and uploading them). The block requests of one read write disjoint parts of
  the buffer; they are modelled in issue order, and the first error in that order is the result.

  The main lemmas: a read returns, byte for byte, what the newest slice covering each position
  stores there and zeros in the gaps; it fails when such a byte is missing from the store; and
  bytes uploaded for a fresh slice are the bytes later read from it.
\<close>

section \<open>Visible reads\<close>

type_synonym visible_read = "nat \<times> nat \<times> slice_desc"

fun visible_loop :: "slice_desc list \<Rightarrow> nat intervals \<Rightarrow> visible_read list \<Rightarrow> visible_read list" where
  "visible_loop [] ivs need_read = need_read"
| "visible_loop (s # ss) ivs need_read =
     (let (cuts, ivs', _) = cut_each ivs (sl_offset s) (sl_end s);
          need_read' = need_read @ map (\<lambda>(l, r). (l, r, s)) cuts
      in if ivs' = [] then need_read' else visible_loop ss ivs' need_read')"

definition visible_reads :: "slice_desc list \<Rightarrow> nat \<Rightarrow> nat \<Rightarrow> visible_read list" where
  "visible_reads slices off n =
     (let need_read = visible_loop (rev slices) (intervals_new off (add_u64 off n)) []
      in if 1 < length need_read then sort_key fst need_read else need_read)"

section \<open>Filling the buffer\<close>

text \<open>The block reads of one segment; \<open>seg\<close> is the part of the segment not yet handed out.\<close>

fun read_blocks ::
  "(block_key \<Rightarrow> nat \<Rightarrow> nat \<Rightarrow> io_error + bytes) \<Rightarrow> nat \<Rightarrow> span list \<Rightarrow> bytes \<Rightarrow> io_error + bytes" where
  "read_blocks rd sid [] seg = Inr seg"
| "read_blocks rd sid (b # bs) seg =
     (if length seg < sp_len b then Inl Panic
      else rbind (rd (sid, as_u32 (sp_index b)) (sp_offset b) (sp_len b))
        (\<lambda>out. rbind (read_blocks rd sid bs (drop (sp_len b) seg)) (\<lambda>rest. Inr (out @ rest))))"

text \<open>
  The loop over the visible reads. \<open>fill\<close> is what happens to a part of the buffer that no slice
  covers: \<^verbatim>\<open>read_at_from_slices\<close> leaves its freshly zeroed buffer alone, and
  \<^verbatim>\<open>read_at_into_from_slices\<close> fills the caller's buffer with zeros.
\<close>

fun fetch_loop ::
  "(bytes \<Rightarrow> bytes) \<Rightarrow> (block_key \<Rightarrow> nat \<Rightarrow> nat \<Rightarrow> io_error + bytes) \<Rightarrow> chunk_layout \<Rightarrow> nat
   \<Rightarrow> visible_read list \<Rightarrow> nat \<Rightarrow> bytes \<Rightarrow> io_error + bytes" where
  "fetch_loop fill rd lay off [] cur tail = Inr (fill tail)"
| "fetch_loop fill rd lay off ((l, r, s) # reads) cur tail =
     (let start = sub_u64 l off; n = sub_u64 r l; gap = sub_u64 start cur
      in if length tail < gap \<or> length tail - gap < n then Inl Panic
         else case block_span_iter_slice (sub_u64 l (sl_offset s)) (sub_u64 r l) lay of
             None \<Rightarrow> Inl Panic
           | Some blocks \<Rightarrow>
               rbind (read_blocks rd (slice_id s) blocks (take n (drop gap tail)))
                 (\<lambda>seg. rbind (fetch_loop fill rd lay off reads (add_u64 start n) (drop (gap + n) tail))
                    (\<lambda>rest. Inr (fill (take gap tail) @ seg @ rest))))"

definition read_at_from_slices ::
  "(block_key \<Rightarrow> nat \<Rightarrow> nat \<Rightarrow> io_error + bytes) \<Rightarrow> chunk_layout \<Rightarrow> slice_desc list \<Rightarrow> nat \<Rightarrow> nat
   \<Rightarrow> io_error + bytes" where
  "read_at_from_slices rd lay slices off n =
     (if n = 0 then Inr []
      else fetch_loop (\<lambda>gap. gap) rd lay off (visible_reads slices off n) 0 (replicate n 0))"

definition read_at_into_from_slices ::
  "(block_key \<Rightarrow> nat \<Rightarrow> nat \<Rightarrow> io_error + bytes) \<Rightarrow> chunk_layout \<Rightarrow> slice_desc list \<Rightarrow> nat \<Rightarrow> bytes
   \<Rightarrow> io_error + bytes" where
  "read_at_into_from_slices rd lay slices off buf =
     (if length buf = 0 then Inr buf
      else fetch_loop (\<lambda>gap. replicate (length gap) 0) rd lay off
             (visible_reads slices off (length buf)) 0 buf)"

record data_fetcher =
  df_layout :: chunk_layout
  df_id :: nat
  df_slices :: "slice_desc list"
  df_prepared :: bool

definition data_fetcher_new :: "chunk_layout \<Rightarrow> nat \<Rightarrow> data_fetcher" where
  "data_fetcher_new lay cid = \<lparr>df_layout = lay, df_id = cid, df_slices = [], df_prepared = False\<rparr>"

definition prepare_slices ::
  "(nat \<Rightarrow> io_error + slice_desc list) \<Rightarrow> data_fetcher \<Rightarrow> io_error + data_fetcher" where
  "prepare_slices get_slices df =
     rbind (get_slices (df_id df)) (\<lambda>slices. Inr (df\<lparr>df_slices := slices, df_prepared := True\<rparr>))"

definition data_fetcher_read_at ::
  "(block_key \<Rightarrow> nat \<Rightarrow> nat \<Rightarrow> io_error + bytes) \<Rightarrow> data_fetcher \<Rightarrow> nat \<Rightarrow> nat \<Rightarrow> io_error + bytes" where
  "data_fetcher_read_at rd df off n =
     (if n = 0 then Inr []
      else if \<not> df_prepared df then Inl NotPrepared
      else read_at_from_slices rd (df_layout df) (df_slices df) off n)"

definition data_fetcher_read_at_into ::
  "(block_key \<Rightarrow> nat \<Rightarrow> nat \<Rightarrow> io_error + bytes) \<Rightarrow> data_fetcher \<Rightarrow> nat \<Rightarrow> bytes \<Rightarrow> io_error + bytes" where
  "data_fetcher_read_at_into rd df off buf =
     (if \<not> df_prepared df then Inl NotPrepared
      else read_at_into_from_slices rd (df_layout df) (df_slices df) off buf)"

section \<open>Uploading\<close>

text \<open>
  \<^verbatim>\<open>ChunkCursor::take\<close>: the next \<open>need\<close> bytes of the payload as sub-slices of its segments, and
  the advanced cursor. \<open>None\<close> is an out-of-range access, which panics.
\<close>

function cursor_take :: "bytes list \<Rightarrow> nat \<Rightarrow> nat \<Rightarrow> nat \<Rightarrow> (bytes list \<times> nat \<times> nat) option" where
  "cursor_take chunks idx off need =
     (if need = 0 then Some ([], idx, off)
      else if length chunks \<le> idx \<or> length (chunks ! idx) < off then None
      else let chunk = chunks ! idx; avail = length chunk - off; taken = min need avail;
               piece = take taken (drop off chunk); off' = off + taken;
               next = (if off' = length chunk then (idx + 1, 0) else (idx, off'))
           in map_option (\<lambda>(out, cur). (piece # out, cur))
                (cursor_take chunks (fst next) (snd next) (need - taken)))"
  by pat_completeness auto
termination
  by (relation "measure (\<lambda>(chunks, idx, off, need). need + (length chunks - idx))")
     (auto simp: Let_def split: if_splits)

declare cursor_take.simps [simp del]

text \<open>The first loop of the upload: one pending block write per span.\<close>

fun plan_uploads ::
  "nat \<Rightarrow> bytes list \<Rightarrow> nat \<times> nat \<Rightarrow> span list \<Rightarrow> (block_key \<times> nat \<times> bytes list) list option" where
  "plan_uploads sid chunks cur [] = Some []"
| "plan_uploads sid chunks cur (sp # spans) =
     (case cursor_take chunks (fst cur) (snd cur) (sp_len sp) of
        None \<Rightarrow> None
      | Some (block_chunks, cur') \<Rightarrow>
          map_option (Cons ((sid, as_u32 (sp_index sp)), sp_offset sp, block_chunks))
            (plan_uploads sid chunks cur' spans))"

text \<open>\<^verbatim>\<open>join_all\<close> runs every write; afterwards the first error in order is returned.\<close>

fun run_uploads ::
  "('st \<Rightarrow> block_key \<Rightarrow> nat \<Rightarrow> bytes \<Rightarrow> (io_error + nat) \<times> 'st) \<Rightarrow> 'st
   \<Rightarrow> (block_key \<times> nat \<times> bytes list) list \<Rightarrow> (io_error + unit) \<times> 'st" where
  "run_uploads wr st [] = (Inr (), st)"
| "run_uploads wr st ((key, off, chunks) # writes) =
     (let (res, st1) = write_fresh_vectored wr st key off chunks;
          (res', st2) = run_uploads wr st1 writes
      in (case res of Inl e \<Rightarrow> Inl e | Inr _ \<Rightarrow> res', st2))"

definition write_at_vectored ::
  "('st \<Rightarrow> block_key \<Rightarrow> nat \<Rightarrow> bytes \<Rightarrow> (io_error + nat) \<times> 'st) \<Rightarrow> 'st \<Rightarrow> chunk_layout \<Rightarrow> nat \<Rightarrow> nat
   \<Rightarrow> bytes list \<Rightarrow> (io_error + unit) \<times> 'st" where
  "write_at_vectored wr st lay sid off chunks =
     (let total_len = sum_u64 (map length chunks)
      in case Option.bind (block_span_iter_slice off total_len lay) (plan_uploads sid chunks (0, 0)) of
           None \<Rightarrow> (Inl Panic, st)
         | Some writes \<Rightarrow> run_uploads wr st writes)"

section \<open>What a chunk contains\<close>

text \<open>
  The byte at position \<open>pos\<close> of a slice, read off its blocks, and the byte at position \<open>x\<close> of a
  chunk: the newest slice covering \<open>x\<close> supplies it, and a position no slice covers reads as zero.
  \<open>None\<close> means that the store lacks the byte.
\<close>

definition slice_byte :: "(block_key \<Rightarrow> bytes option) \<Rightarrow> nat \<Rightarrow> nat \<Rightarrow> nat \<Rightarrow> u8 option" where
  "slice_byte blk bs sid pos =
     (case blk (sid, pos div bs) of
        None \<Rightarrow> None
      | Some b \<Rightarrow> if pos mod bs < length b then Some (b ! (pos mod bs)) else None)"

definition chunk_byte ::
  "(block_key \<Rightarrow> bytes option) \<Rightarrow> nat \<Rightarrow> slice_desc list \<Rightarrow> nat \<Rightarrow> u8 option" where
  "chunk_byte blk bs slices x =
     (case owner slices x of
        None \<Rightarrow> Some 0
      | Some s \<Rightarrow> slice_byte blk bs (slice_id s) (x - sl_offset s))"

definition chunk_content ::
  "(block_key \<Rightarrow> bytes option) \<Rightarrow> nat \<Rightarrow> slice_desc list \<Rightarrow> nat \<Rightarrow> nat \<Rightarrow> bytes option" where
  "chunk_content blk bs slices off n = those (map (chunk_byte blk bs slices) [off..<off + n])"

text \<open>Slices inside a chunk: no wrap-around, and block indices that fit \<^verbatim>\<open>u32\<close>.\<close>

definition slices_fit :: "slice_desc list \<Rightarrow> bool" where
  "slices_fit slices \<longleftrightarrow>
     (\<forall>s\<in>set slices. sl_offset s + sl_length s < u64_limit \<and> sl_length s \<le> u32_limit)"

text \<open>A result agrees with an optional value: the value if there is one, an error otherwise.\<close>

definition agrees :: "'a option \<Rightarrow> 'e + 'a \<Rightarrow> bool" where
  "agrees v r = (case v of None \<Rightarrow> isl r | Some x \<Rightarrow> r = Inr x)"

lemma agrees_simps [simp]:
  "agrees None r \<longleftrightarrow> isl r"
  "agrees (Some x) r \<longleftrightarrow> r = Inr x"
  by (simp_all add: agrees_def)

lemma those_append:
  "those (xs @ ys) = Option.bind (those xs) (\<lambda>a. map_option (\<lambda>b. a @ b) (those ys))"
proof (induction xs)
  case Nil
  show ?case by (cases "those ys") auto
next
  case (Cons x xs)
  then show ?case by (cases x; cases "those xs"; cases "those ys") auto
qed

lemma bind_append_zero:
  "map_option (\<lambda>b. z @ b) (Option.bind v (\<lambda>a. map_option (\<lambda>b. a @ b) w)) =
   Option.bind v (\<lambda>a. map_option (\<lambda>b. z @ a @ b) w)"
  by (cases v; cases w) simp_all

lemma those_map_Some: "those (map Some xs) = Some xs"
  by (induction xs) auto

lemma those_eq_None: "those xs = None \<longleftrightarrow> None \<in> set xs"
  by (induction xs) (auto split: option.splits)

lemma those_zero: "(\<forall>x\<in>set xs. f x = Some z) \<Longrightarrow> those (map f xs) = Some (replicate (length xs) z)"
  by (induction xs) auto

lemma agrees_rbind:
  assumes "agrees v r" and "agrees w q"
  shows "agrees (Option.bind v (\<lambda>a. map_option (\<lambda>b. g a b) w)) (rbind r (\<lambda>a. rbind q (\<lambda>b. Inr (g a b))))"
  using assms by (cases v; cases w; cases r; cases q) auto

section \<open>The visible reads are the owners\<close>

definition read_owner :: "visible_read list \<Rightarrow> nat \<Rightarrow> slice_desc option" where
  "read_owner reads x = map_option (\<lambda>(l, r, s). s) (find (\<lambda>(l, r, s). l \<le> x \<and> x < r) reads)"

text \<open>Reads in order inside \<open>[from, to)\<close>, each inside the range of its slice.\<close>

fun reads_ok :: "nat \<Rightarrow> visible_read list \<Rightarrow> nat \<Rightarrow> bool" where
  "reads_ok from [] to = (from \<le> to)"
| "reads_ok from ((l, r, s) # reads) to =
     (from \<le> l \<and> l < r \<and> sl_offset s \<le> l \<and> r \<le> sl_offset s + sl_length s \<and> reads_ok r reads to)"

text \<open>What the loop over the slices keeps: the reads are distinct, non-empty and disjoint.\<close>

definition reads_disjoint :: "visible_read list \<Rightarrow> bool" where
  "reads_disjoint reads \<longleftrightarrow> distinct reads \<and> (\<forall>(l, r, s)\<in>set reads. l < r)
     \<and> (\<forall>(l, r, s)\<in>set reads. \<forall>(l', r', s')\<in>set reads. (l, r, s) \<noteq> (l', r', s') \<longrightarrow> r \<le> l' \<or> r' \<le> l)"

definition read_points :: "visible_read list \<Rightarrow> nat set" where
  "read_points reads = (\<Union>(l, r, s)\<in>set reads. {l..<r})"

lemma read_points_iff: "x \<in> read_points reads \<longleftrightarrow> (\<exists>l r s. (l, r, s) \<in> set reads \<and> l \<le> x \<and> x < r)"
  unfolding read_points_def by force

lemma reads_disjoint_empty [simp]: "reads_disjoint []"
  by (simp add: reads_disjoint_def)

lemma disjoint_ranges:
  assumes "{l..<r} \<inter> {l'..<r'} = {}" and "l < r" and "l' < (r'::nat)"
  shows "r \<le> l' \<or> r' \<le> l"
proof (rule ccontr)
  assume "\<not> (r \<le> l' \<or> r' \<le> l)"
  then have "max l l' \<in> {l..<r} \<inter> {l'..<r'}" using assms by auto
  with assms(1) show False by blast
qed

lemma reads_disjoint_extend:
  assumes "reads_disjoint need" and "sorted_ivs cuts" and "read_points need \<inter> ivs_points cuts = {}"
  shows "reads_disjoint (need @ map (\<lambda>(l, r). (l, r, s)) cuts)"
proof -
  let ?new = "map (\<lambda>(l, r). (l, r, s)) cuts"
  have inj: "inj_on (\<lambda>(l, r). (l, r, s)) (set cuts)" by (auto simp: inj_on_def)
  have dnew: "distinct ?new" using sorted_ivs_distinct [OF assms(2)] inj by (simp add: distinct_map)
  have ne: "\<forall>(l, r, t)\<in>set need. l < r" using assms(1) by (simp add: reads_disjoint_def)
  have nc: "\<forall>(l, r)\<in>set cuts. l < r"
    using sorted_ivs_nonempty [OF assms(2)] by (simp add: split_beta)
  have cross: "r \<le> l' \<or> r' \<le> l" if "(l, r, t) \<in> set need" "(l', r') \<in> set cuts" for l r t l' r'
  proof (rule disjoint_ranges)
    show "{l..<r} \<inter> {l'..<r'} = {}"
      using assms(3) that unfolding read_points_def ivs_points_def by fast
  qed (use ne nc that in auto)
  have within: "r \<le> l' \<or> r' \<le> l"
    if "(l, r) \<in> set cuts" "(l', r') \<in> set cuts" "(l, r) \<noteq> (l', r')" for l r l' r'
  proof (rule disjoint_ranges)
    show "{l..<r} \<inter> {l'..<r'} = {}"
      using sorted_ivs_disjoint [OF assms(2) that(1,2)] that(3) by blast
  qed (use nc that in auto)
  have sep: "set need \<inter> set ?new = {}"
    using cross ne by fastforce
  have old: "r \<le> l' \<or> r' \<le> l"
    if "(l, r, t) \<in> set need" "(l', r', t') \<in> set need" "(l, r, t) \<noteq> (l', r', t')" for l r t l' r' t'
    using assms(1) that unfolding reads_disjoint_def by fast
  have "distinct (need @ ?new)" using assms(1) dnew sep by (simp add: reads_disjoint_def)
  moreover have "\<forall>(l, r, t)\<in>set (need @ ?new). l < r" using ne nc by auto
  moreover have "r \<le> l' \<or> r' \<le> l"
    if mem: "(l, r, t) \<in> set (need @ ?new)" "(l', r', t') \<in> set (need @ ?new)"
      and neq: "(l, r, t) \<noteq> (l', r', t')"
    for l r t l' r' t'
  proof -
    consider "(l, r, t) \<in> set need" "(l', r', t') \<in> set need"
      | "(l, r, t) \<in> set need" "(l', r') \<in> set cuts"
      | "(l, r) \<in> set cuts" "(l', r', t') \<in> set need"
      | "(l, r) \<in> set cuts" "(l', r') \<in> set cuts" "t = s" "t' = s"
      using mem by auto
    then show ?thesis
      using old [of l r t l' r' t'] cross [of l r t l' r'] cross [of l' r' t' l r]
        within [of l r l' r'] neq by cases auto
  qed
  ultimately show ?thesis unfolding reads_disjoint_def by blast
qed

lemma read_points_append [simp]: "read_points (xs @ ys) = read_points xs \<union> read_points ys"
  by (auto simp: read_points_def)

lemma read_points_map [simp]: "read_points (map (\<lambda>(l, r). (l, r, s)) cuts) = ivs_points cuts"
  by (auto simp: read_points_def ivs_points_def)

text \<open>
  One pass of the loop. The reads found so far cover exactly what has been cut from the intervals,
  and what remains is given to the older slices.
\<close>

lemma visible_loop_inv:
  assumes "slices_bounded ss" and "sorted_ivs ivs" and "reads_disjoint need"
    and "read_points need \<inter> ivs_points ivs = {}"
    and "\<forall>(l, r, s)\<in>set need. sl_offset s \<le> l \<and> r \<le> sl_offset s + sl_length s"
  shows "reads_disjoint (visible_loop ss ivs need)
    \<and> (\<forall>(l, r, s)\<in>set (visible_loop ss ivs need). sl_offset s \<le> l \<and> r \<le> sl_offset s + sl_length s)
    \<and> read_points (visible_loop ss ivs need) \<subseteq> read_points need \<union> ivs_points ivs
    \<and> (\<forall>x s. (\<exists>l r. (l, r, s) \<in> set (visible_loop ss ivs need) \<and> l \<le> x \<and> x < r) \<longleftrightarrow>
          (\<exists>l r. (l, r, s) \<in> set need \<and> l \<le> x \<and> x < r)
          \<or> x \<in> ivs_points ivs \<and> find (\<lambda>s. covers s x) ss = Some s)"
  using assms
proof (induction ss arbitrary: ivs need)
  case Nil
  then show ?case by simp
next
  case (Cons s ss)
  have e: "sl_end s = sl_offset s + sl_length s" using Cons.prems(1) by simp
  obtain cuts ivs' t where cut: "cut_loop (sl_offset s) (sl_end s) ivs = (cuts, ivs', t)"
    by (cases "cut_loop (sl_offset s) (sl_end s) ivs") auto
  have le: "sl_offset s \<le> sl_end s" using e by simp
  have cp: "ivs_points cuts = ivs_points ivs \<inter> {sl_offset s..<sl_end s}" by (rule cut_loop_cuts [OF cut])
  have rp: "ivs_points ivs' = ivs_points ivs - {sl_offset s..<sl_end s}" by (rule cut_loop_rest [OF le cut])
  have srt: "sorted_ivs cuts" "sorted_ivs ivs'" using cut_loop_sorted [OF cut Cons.prems(2) le] by auto
  let ?need = "need @ map (\<lambda>(l, r). (l, r, s)) cuts"
  have disj: "reads_disjoint ?need"
    using Cons.prems(3,4) cp by (intro reads_disjoint_extend [OF _ srt(1)]) auto
  have fresh: "read_points ?need \<inter> ivs_points ivs' = {}" using Cons.prems(4) cp rp by auto
  have inr: "sl_offset s \<le> l \<and> r \<le> sl_end s" if "(l, r) \<in> set cuts" for l r
  proof -
    have "l < r" using cut_nonempty [OF cut that] .
    then have "l \<in> ivs_points cuts" "r - 1 \<in> ivs_points cuts"
      using that unfolding ivs_points_iff by force+
    then show ?thesis using cp \<open>l < r\<close> by auto
  qed
  have inside: "\<forall>(l, r, s)\<in>set ?need. sl_offset s \<le> l \<and> r \<le> sl_offset s + sl_length s"
    using Cons.prems(5) inr e by auto
  have new: "(\<exists>l r. (l, r, u) \<in> set ?need \<and> l \<le> x \<and> x < r) \<longleftrightarrow>
      (\<exists>l r. (l, r, u) \<in> set need \<and> l \<le> x \<and> x < r) \<or> x \<in> ivs_points ivs \<and> covers s x \<and> u = s" for x u
  proof -
    have "(\<exists>l r. (l, r) \<in> set cuts \<and> l \<le> x \<and> x < r) \<longleftrightarrow> x \<in> ivs_points cuts"
      by (simp add: ivs_points_iff)
    also have "\<dots> \<longleftrightarrow> x \<in> ivs_points ivs \<and> covers s x"
      unfolding cp e by (auto simp: covers_def)
    finally have cuts: "(\<exists>l r. (l, r) \<in> set cuts \<and> l \<le> x \<and> x < r) \<longleftrightarrow> x \<in> ivs_points ivs \<and> covers s x" .
    have "(l, r, u) \<in> set ?need \<longleftrightarrow> (l, r, u) \<in> set need \<or> (l, r) \<in> set cuts \<and> u = s" for l r
      by auto
    with cuts show ?thesis by blast
  qed
  have points: "read_points ?need \<union> ivs_points ivs' \<subseteq> read_points need \<union> ivs_points ivs"
    using cp rp by auto
  have rest: "x \<in> ivs_points ivs' \<longleftrightarrow> x \<in> ivs_points ivs \<and> \<not> covers s x" for x
    unfolding rp e by (auto simp: covers_def)
  show ?case
  proof (cases "ivs' = []")
    case True
    then have eq: "visible_loop (s # ss) ivs need = ?need" by (simp add: cut_each_eq_loop cut)
    have "x \<in> ivs_points ivs \<Longrightarrow> covers s x" for x using rest [of x] True by simp
    then show ?thesis unfolding eq using disj inside points new by auto
  next
    case False
    then have eq: "visible_loop (s # ss) ivs need = visible_loop ss ivs' ?need"
      by (simp add: cut_each_eq_loop cut)
    have "slices_bounded ss" using Cons.prems(1) by simp
    note IH = Cons.IH [OF this srt(2) disj fresh inside]
    have "(\<exists>l r. (l, r, u) \<in> set (visible_loop ss ivs' ?need) \<and> l \<le> x \<and> x < r) \<longleftrightarrow>
        (\<exists>l r. (l, r, u) \<in> set need \<and> l \<le> x \<and> x < r)
        \<or> x \<in> ivs_points ivs \<and> find (\<lambda>s. covers s x) (s # ss) = Some u" for x u
      using IH new [of u x] rest [of x] by auto
    then show ?thesis unfolding eq using IH points by blast
  qed
qed

lemma sorted_reads_ok:
  assumes "sorted (map fst reads)" and "reads_disjoint reads"
    and "\<forall>(l, r, s)\<in>set reads. sl_offset s \<le> l \<and> r \<le> sl_offset s + sl_length s"
    and "\<forall>(l, r, s)\<in>set reads. from \<le> l \<and> r \<le> to" and "from \<le> to"
  shows "reads_ok from reads to"
  using assms
proof (induction reads arbitrary: "from")
  case Nil
  then show ?case by simp
next
  case (Cons rd reads)
  obtain l r s where rd: "rd = (l, r, s)" by (cases rd)
  have "r \<le> l'" if "(l', r', s') \<in> set reads" for l' r' s'
  proof -
    have "(l, r, s) \<noteq> (l', r', s')" using Cons.prems(2) that by (auto simp: reads_disjoint_def rd)
    then have "r \<le> l' \<or> r' \<le> l" and "l' < r'"
      using Cons.prems(2) that unfolding reads_disjoint_def rd by fastforce+
    moreover have "l \<le> l'" using Cons.prems(1) that by (force simp: rd)
    ultimately show ?thesis by simp
  qed
  then have "\<forall>(l', r', s')\<in>set reads. r \<le> l' \<and> r' \<le> to" using Cons.prems(4) by auto
  moreover have "reads_disjoint reads" using Cons.prems(2) unfolding reads_disjoint_def by auto
  moreover have "l < r" "r \<le> to" using Cons.prems(2,4) by (auto simp: reads_disjoint_def rd)
  ultimately show ?case using Cons.IH [of r] Cons.prems by (simp add: rd)
qed

lemma reads_ok_le: "reads_ok a reads b \<Longrightarrow> a \<le> b"
  by (induction a reads b rule: reads_ok.induct) auto

lemma reads_ok_lower: "reads_ok a reads b \<Longrightarrow> (l, r, s) \<in> set reads \<Longrightarrow> a \<le> l \<and> l < r \<and> r \<le> b"
proof (induction a reads b rule: reads_ok.induct)
  case (2 a l' r' s' reads b)
  have "r' \<le> b" using 2(2) reads_ok_le [of r' reads b] by simp
  then show ?case using 2 by fastforce
qed simp

lemma read_owner_iff:
  assumes "reads_ok a reads b"
  shows "read_owner reads x = Some s \<longleftrightarrow> (\<exists>l r. (l, r, s) \<in> set reads \<and> l \<le> x \<and> x < r)"
  using assms
proof (induction a reads b rule: reads_ok.induct)
  case (1 a b)
  then show ?case by (simp add: read_owner_def)
next
  case (2 a l r t reads b)
  have ok: "reads_ok r reads b" using 2(2) by simp
  show ?case
  proof (cases "l \<le> x \<and> x < r")
    case True
    then have "\<not> (\<exists>l' r' s'. (l', r', s') \<in> set reads \<and> l' \<le> x \<and> x < r')"
      using reads_ok_lower [OF ok] by fastforce
    then show ?thesis using True by (auto simp: read_owner_def)
  next
    case False
    then have "read_owner ((l, r, t) # reads) x = read_owner reads x" by (auto simp: read_owner_def)
    then show ?thesis using 2(1) [OF ok] False by auto
  qed
qed

lemma visible_reads_ok:
  assumes "slices_bounded slices" and "off + n < u64_limit" and "0 < n"
  shows "reads_ok off (visible_reads slices off n) (off + n)
    \<and> (\<forall>x. off \<le> x \<and> x < off + n \<longrightarrow> read_owner (visible_reads slices off n) x = owner slices x)"
proof -
  let ?ivs = "intervals_new off (add_u64 off n)" and ?need = "visible_loop (rev slices) (intervals_new off (add_u64 off n)) []"
  let ?vr = "visible_reads slices off n"
  have ivs: "?ivs = [(off, off + n)]" using assms(2) by (simp add: intervals_new_def u64_simps)
  have srt: "sorted_ivs ?ivs" and pts: "ivs_points ?ivs = {off..<off + n}" using assms(3) ivs by simp_all
  have "reads_disjoint ?need
    \<and> (\<forall>(l, r, s)\<in>set ?need. sl_offset s \<le> l \<and> r \<le> sl_offset s + sl_length s)
    \<and> read_points ?need \<subseteq> read_points [] \<union> ivs_points ?ivs
    \<and> (\<forall>x s. (\<exists>l r. (l, r, s) \<in> set ?need \<and> l \<le> x \<and> x < r) \<longleftrightarrow>
          (\<exists>l r. (l, r, s) \<in> set [] \<and> l \<le> x \<and> x < r)
          \<or> x \<in> ivs_points ?ivs \<and> find (\<lambda>s. covers s x) (rev slices) = Some s)"
    by (rule visible_loop_inv) (use assms(1) srt in \<open>auto simp: read_points_def\<close>)
  then have disj: "reads_disjoint ?need"
    and inside: "\<forall>(l, r, s)\<in>set ?need. sl_offset s \<le> l \<and> r \<le> sl_offset s + sl_length s"
    and points: "read_points ?need \<subseteq> {off..<off + n}"
    and own: "\<And>x s. (\<exists>l r. (l, r, s) \<in> set ?need \<and> l \<le> x \<and> x < r) \<longleftrightarrow>
          x \<in> {off..<off + n} \<and> owner slices x = Some s"
    unfolding pts owner_def by (simp_all add: read_points_def)
  have set_eq: "set ?vr = set ?need" by (simp add: visible_reads_def Let_def)
  have "reads_disjoint ?vr" using disj by (simp add: visible_reads_def reads_disjoint_def Let_def)
  moreover have "sorted (map fst ?vr)"
  proof (cases "1 < length ?need")
    case True
    then show ?thesis by (simp add: visible_reads_def Let_def sorted_sort_key)
  next
    case False
    then have "?need = [] \<or> (\<exists>p. ?need = [p])" by (cases ?need) auto
    then show ?thesis by (auto simp: visible_reads_def Let_def)
  qed
  moreover have "\<forall>(l, r, s)\<in>set ?vr. off \<le> l \<and> r \<le> off + n"
  proof (clarify, unfold set_eq)
    fix l r s assume mem: "(l, r, s) \<in> set ?need"
    then have "l < r" using disj by (auto simp: reads_disjoint_def)
    then have "l \<in> read_points ?need" "r - 1 \<in> read_points ?need"
      using mem unfolding read_points_iff by force+
    then show "off \<le> l \<and> r \<le> off + n" using points \<open>l < r\<close> by (auto simp: subset_iff)
  qed
  ultimately have ok: "reads_ok off ?vr (off + n)"
    using inside set_eq by (intro sorted_reads_ok) auto
  moreover have "read_owner ?vr x = owner slices x" if "off \<le> x" "x < off + n" for x
  proof -
    have "read_owner ?vr x = Some s \<longleftrightarrow> owner slices x = Some s" for s
      using read_owner_iff [OF ok, of x s] own [of s x] that set_eq by simp
    then show ?thesis by (metis option.exhaust)
  qed
  ultimately show ?thesis by blast
qed

section \<open>Reads and uploads over any block store\<close>

context block_store
begin

lemma read_one_block:
  assumes "off + n \<le> bs" and "0 < n"
  shows "agrees (those (map (slice_byte (block st) bs sid) [i * bs + off..<i * bs + off + n]))
    (read_range st (sid, i) off n)"
proof -
  have pos: "(i * bs + off + j) div bs = i" "(i * bs + off + j) mod bs = off + j" if "j < n" for j
    using assms that by (simp_all add: div_mult_self3 add.assoc)
  have range: "[i * bs + off..<i * bs + off + n] = map (\<lambda>j. i * bs + off + j) [0..<n]"
    by (simp add: map_add_upt add.commute)
  show ?thesis
  proof (cases "\<exists>b. block st (sid, i) = Some b \<and> off + n \<le> length b")
    case True
    then obtain b where b: "block st (sid, i) = Some b" "off + n \<le> length b" by blast
    have "slice_byte (block st) bs sid (i * bs + off + j) = Some (b ! (off + j))" if "j < n" for j
      using b that pos [OF that] by (simp add: slice_byte_def)
    then have "map (slice_byte (block st) bs sid) [i * bs + off..<i * bs + off + n]
        = map Some (map (\<lambda>j. b ! (off + j)) [0..<n])"
      unfolding range by simp
    moreover have "map (\<lambda>j. b ! (off + j)) [0..<n] = take n (drop off b)"
      using b by (intro nth_equalityI) auto
    ultimately show ?thesis using read_covered [OF b] by (simp add: those_map_Some)
  next
    case False
    have "slice_byte (block st) bs sid (i * bs + off + (n - 1)) = None"
      using False pos [of "n - 1"] assms(2)
      by (auto simp: slice_byte_def split: option.splits)
    moreover have "i * bs + off + (n - 1) \<in> set [i * bs + off..<i * bs + off + n]"
      using assms(2) by simp
    ultimately have "None \<in> set (map (slice_byte (block st) bs sid) [i * bs + off..<i * bs + off + n])"
      by (metis image_eqI list.set_map)
    then have "those (map (slice_byte (block st) bs sid) [i * bs + off..<i * bs + off + n]) = None"
      by (simp only: those_eq_None)
    moreover have "case block st (sid, i) of None \<Rightarrow> True | Some b \<Rightarrow> length b < off + n"
      using False by (auto split: option.splits)
    ultimately show ?thesis using read_uncovered [OF assms(2)] by fastforce
  qed
qed

lemma read_blocks_agrees:
  assumes "0 < bs" and "p + n \<le> u32_limit" and "length seg = n"
  shows "agrees (those (map (slice_byte (block st) bs sid) [p..<p + n]))
    (read_blocks (read_range st) sid (aligned_spans bs p n) seg)"
  using assms
proof (induction bs p n arbitrary: seg rule: aligned_spans.induct)
  case (1 a "from" n)
  show ?case
  proof (cases "n = 0")
    case True
    then show ?thesis using 1 by simp
  next
    case False
    define t where "t = min n (a - from mod a)"
    have "from mod a < a" using 1(2) by simp
    then have t: "0 < t" "t \<le> n" "from mod a + t \<le> a"
      unfolding t_def using False by linarith+
    have "from div a \<le> from" by simp
    then have "from div a < u32_limit" using False 1(3) by linarith
    then have idx: "as_u32 (from div a) = from div a" by simp
    have from_eq: "from div a * a + from mod a = from" by simp
    have split: "[from..<from + n] = [from..<from + t] @ [from + t..<from + t + (n - t)]"
      using upt_split [of "from" "from + t" "from + n"] t by simp
    have first: "agrees (those (map (slice_byte (block st) a sid) [from..<from + t]))
        (read_range st (sid, from div a) (from mod a) t)"
      using read_one_block [OF t(3,1), of st sid "from div a"] from_eq by simp
    have rest: "agrees (those (map (slice_byte (block st) a sid) [from + t..<from + t + (n - t)]))
        (read_blocks (read_range st) sid (aligned_spans a (from + t) (n - t)) (drop t seg))"
      using 1(1) [of t "drop t seg"] False 1(2-4) t by (simp add: t_def)
    have "aligned_spans a from n
        = span_new (from div a) (from mod a) t # aligned_spans a (from + t) (n - t)"
      unfolding t_def using False 1(2) by (intro aligned_spans_step) simp_all
    then have "read_blocks (read_range st) sid (aligned_spans a from n) seg =
        rbind (read_range st (sid, from div a) (from mod a) t)
          (\<lambda>out. rbind (read_blocks (read_range st) sid (aligned_spans a (from + t) (n - t)) (drop t seg))
             (\<lambda>rest. Inr (out @ rest)))"
      using t(2) 1(4) idx by (simp add: span_new_def)
    then show ?thesis
      unfolding split map_append those_append by (simp only: agrees_rbind [OF first rest])
  qed
qed

end

section \<open>The fetch loop\<close>

definition read_source ::
  "(block_key \<Rightarrow> bytes option) \<Rightarrow> nat \<Rightarrow> visible_read list \<Rightarrow> nat \<Rightarrow> u8 option" where
  "read_source blk bs reads x =
     (case read_owner reads x of
        None \<Rightarrow> Some 0
      | Some s \<Rightarrow> slice_byte blk bs (slice_id s) (x - sl_offset s))"

lemma read_owner_Cons:
  "read_owner ((l, r, s) # reads) x = (if l \<le> x \<and> x < r then Some s else read_owner reads x)"
  by (simp add: read_owner_def)

lemma read_owner_before: "reads_ok a reads b \<Longrightarrow> x < a \<Longrightarrow> read_owner reads x = None"
  using read_owner_iff [of a reads b x] reads_ok_lower [of a reads b]
  by (metis leD not_None_eq order.strict_trans1)

lemma map_upt_shift: "a \<le> b \<Longrightarrow> map (\<lambda>x. f (x - o')) [a + o'..<b + o'] = map f [a..<b]"
  by (intro nth_equalityI) auto

context block_store
begin

lemma fetch_loop_agrees:
  assumes "reads_ok c reads e" and "0 < block_size lay" and "e < u64_limit" and "off \<le> c"
    and "\<forall>(l, r, s)\<in>set reads. sl_length s \<le> u32_limit"
    and "length tail = e - c" and "\<And>gap. set gap \<subseteq> set tail \<Longrightarrow> fill gap = replicate (length gap) 0"
  shows "agrees (those (map (read_source (block st) (block_size lay) reads) [c..<e]))
    (fetch_loop fill (read_range st) lay off reads (c - off) tail)"
  using assms
proof (induction reads arbitrary: c tail)
  case Nil
  have "those (map (read_source (block st) (block_size lay) []) [c..<e]) = Some (replicate (e - c) 0)"
    by (subst those_zero [where z = 0]) (simp_all add: read_source_def read_owner_def)
  then show ?case using Nil(6) Nil(7) [of tail] by simp
next
  case (Cons rd reads)
  let ?bs = "block_size lay"
  obtain l r s where rd: "rd = (l, r, s)" by (cases rd)
  have ok: "c \<le> l" "l < r" "sl_offset s \<le> l" "r \<le> sl_offset s + sl_length s" "reads_ok r reads e"
    using Cons.prems(1) by (simp_all add: rd)
  have re: "r \<le> e" by (rule reads_ok_le [OF ok(5)])
  have len: "sl_length s \<le> u32_limit" using Cons.prems(5) by (simp add: rd)
  have arith: "sub_u64 l off = l - off" "sub_u64 r l = r - l" "sub_u64 (l - off) (c - off) = l - c"
    "sub_u64 l (sl_offset s) = l - sl_offset s" "add_u64 (l - off) (r - l) = r - off"
    using ok re Cons.prems(3,4) by (simp_all add: u64_simps)
  have blocks: "block_span_iter_slice (l - sl_offset s) (r - l) lay
      = Some (aligned_spans ?bs (l - sl_offset s) (r - l))"
    unfolding block_span_iter_slice_def using ok re Cons.prems(2,3)
    by (intro block_span_iter_range_aligned) auto
  let ?seg = "take (r - l) (drop (l - c) tail)" and ?tail = "drop (l - c + (r - l)) tail"
  have seg: "agrees (those (map (slice_byte (block st) ?bs (slice_id s))
        [l - sl_offset s..<(l - sl_offset s) + (r - l)]))
      (read_blocks (read_range st) (slice_id s) (aligned_spans ?bs (l - sl_offset s) (r - l)) ?seg)"
    using ok len re Cons.prems(2,6) by (intro read_blocks_agrees) auto
  have sub: "set ?tail \<subseteq> set tail" by (rule set_drop_subset)
  have rest: "agrees (those (map (read_source (block st) ?bs reads) [r..<e]))
      (fetch_loop fill (read_range st) lay off reads (r - off) ?tail)"
  proof (rule Cons.IH [OF ok(5) Cons.prems(2,3)])
    show "fill gap = replicate (length gap) 0" if "set gap \<subseteq> set ?tail" for gap
      using Cons.prems(7) that sub by blast
  qed (use ok re Cons.prems in \<open>auto simp: rd\<close>)
  have loop: "fetch_loop fill (read_range st) lay off (rd # reads) (c - off) tail =
      rbind (read_blocks (read_range st) (slice_id s) (aligned_spans ?bs (l - sl_offset s) (r - l)) ?seg)
        (\<lambda>seg. rbind (fetch_loop fill (read_range st) lay off reads (r - off) ?tail)
           (\<lambda>rest. Inr (replicate (l - c) 0 @ seg @ rest)))"
  proof -
    have "fill (take (l - c) tail) = replicate (l - c) 0"
      using Cons.prems(6,7) ok re by (simp add: set_take_subset)
    moreover have "\<not> (length tail < l - c \<or> length tail - (l - c) < r - l)"
      using Cons.prems(6) ok re by auto
    ultimately show ?thesis by (simp add: rd arith blocks Let_def)
  qed
  have split: "[c..<e] = [c..<l] @ [l..<r] @ [r..<e]"
    using upt_split [of c l e] upt_split [of l r e] ok re by simp
  have before: "those (map (read_source (block st) ?bs (rd # reads)) [c..<l]) = Some (replicate (l - c) 0)"
    using read_owner_before [OF ok(5)] ok(2)
    by (subst those_zero [where z = 0]) (simp_all add: read_source_def rd read_owner_Cons)
  have inside: "map (read_source (block st) ?bs (rd # reads)) [l..<r]
      = map (slice_byte (block st) ?bs (slice_id s)) [l - sl_offset s..<(l - sl_offset s) + (r - l)]"
  proof -
    have "map (read_source (block st) ?bs (rd # reads)) [l..<r]
        = map (\<lambda>x. slice_byte (block st) ?bs (slice_id s) (x - sl_offset s)) [l..<r]"
      by (rule map_cong) (simp_all add: read_source_def rd read_owner_Cons)
    also have "\<dots> = map (slice_byte (block st) ?bs (slice_id s))
        [l - sl_offset s..<(l - sl_offset s) + (r - l)]"
      using map_upt_shift [of "l - sl_offset s" "r - sl_offset s"
          "slice_byte (block st) ?bs (slice_id s)" "sl_offset s"] ok
      by simp
    finally show ?thesis .
  qed
  have after: "map (read_source (block st) ?bs (rd # reads)) [r..<e]
      = map (read_source (block st) ?bs reads) [r..<e]"
    by (rule map_cong) (simp_all add: read_source_def rd read_owner_Cons)
  have whole: "those (map (read_source (block st) ?bs (rd # reads)) [c..<e]) =
      Option.bind (those (map (slice_byte (block st) ?bs (slice_id s))
          [l - sl_offset s..<(l - sl_offset s) + (r - l)]))
        (\<lambda>a. map_option (\<lambda>b. replicate (l - c) 0 @ a @ b)
           (those (map (read_source (block st) ?bs reads) [r..<e])))"
    unfolding split map_append those_append [of "map _ [c..<l]"] before inside after
    by (simp only: those_append bind_append_zero Option.bind.simps)
  show ?case unfolding whole loop by (rule agrees_rbind [OF seg rest])
qed

end

lemma slices_fit_bounded: "slices_fit slices \<Longrightarrow> slices_bounded slices"
  by (auto simp: slices_fit_def slices_bounded_def)

context block_store
begin

lemma fetch_visible_agrees:
  assumes "slices_fit slices" and "0 < block_size lay" and "off + n < u64_limit" and "0 < n"
    and "length tail = n" and "\<And>gap. set gap \<subseteq> set tail \<Longrightarrow> fill gap = replicate (length gap) 0"
  shows "agrees (chunk_content (block st) (block_size lay) slices off n)
    (fetch_loop fill (read_range st) lay off (visible_reads slices off n) 0 tail)"
proof -
  let ?vr = "visible_reads slices off n"
  have ok: "reads_ok off ?vr (off + n)"
    and own: "\<forall>x. off \<le> x \<and> x < off + n \<longrightarrow> read_owner ?vr x = owner slices x"
    using visible_reads_ok [OF slices_fit_bounded [OF assms(1)] assms(3,4)] by blast+
  have fit: "\<forall>(l, r, s)\<in>set ?vr. sl_length s \<le> u32_limit"
  proof clarify
    fix l r s assume mem: "(l, r, s) \<in> set ?vr"
    then have lr: "off \<le> l" "l < r" "r \<le> off + n" using reads_ok_lower [OF ok] by blast+
    then have "read_owner ?vr l = Some s" using read_owner_iff [OF ok, of l s] mem by blast
    then have "owner slices l = Some s" using own lr by simp
    then have "s \<in> set slices" by (simp add: owner_in_set)
    then show "sl_length s \<le> u32_limit" using assms(1) by (simp add: slices_fit_def)
  qed
  have eq: "map (read_source (block st) (block_size lay) ?vr) [off..<off + n]
      = map (chunk_byte (block st) (block_size lay) slices) [off..<off + n]"
    using own by (intro map_cong) (simp_all add: read_source_def chunk_byte_def)
  show ?thesis
    unfolding chunk_content_def eq [symmetric]
    using fetch_loop_agrees [OF ok assms(2,3) order_refl fit, of tail fill st] assms(5,6) by simp
qed

lemma read_at_agrees:
  assumes "slices_fit slices" and "0 < block_size lay" and "off + n < u64_limit"
  shows "agrees (chunk_content (block st) (block_size lay) slices off n)
    (read_at_from_slices (read_range st) lay slices off n)"
proof (cases "n = 0")
  case True
  then show ?thesis by (simp add: read_at_from_slices_def chunk_content_def)
next
  case False
  have "gap = replicate (length gap) 0" if "set gap \<subseteq> set (replicate n (0::u8))" for gap
    using that replicate_eqI [of gap "length gap" 0] by (metis in_mono in_set_replicate)
  then show ?thesis
    using fetch_visible_agrees [OF assms, of "replicate n 0" "\<lambda>gap. gap"] False
    by (simp add: read_at_from_slices_def)
qed

lemma read_at_into_agrees:
  assumes "slices_fit slices" and "0 < block_size lay" and "off + length buf < u64_limit"
  shows "agrees (chunk_content (block st) (block_size lay) slices off (length buf))
    (read_at_into_from_slices (read_range st) lay slices off buf)"
proof (cases "buf = []")
  case True
  then show ?thesis by (simp add: read_at_into_from_slices_def chunk_content_def)
next
  case False
  then show ?thesis
    using fetch_visible_agrees [OF assms, of buf "\<lambda>gap. replicate (length gap) 0"]
    by (simp add: read_at_into_from_slices_def)
qed

end

section \<open>Cutting the payload\<close>

text \<open>The bytes a cursor has still to hand out.\<close>

definition cursor_rest :: "bytes list \<Rightarrow> nat \<times> nat \<Rightarrow> bytes" where
  "cursor_rest chunks cur = drop (snd cur) (concat (drop (fst cur) chunks))"

definition cursor_ok :: "bytes list \<Rightarrow> nat \<times> nat \<Rightarrow> bool" where
  "cursor_ok chunks cur \<longleftrightarrow> (if fst cur < length chunks then snd cur \<le> length (chunks ! fst cur) else snd cur = 0)"

lemma cursor_rest_step:
  assumes "idx < length chunks" and "off \<le> length (chunks ! idx)"
  shows "cursor_rest chunks (idx, off) = drop off (chunks ! idx) @ concat (drop (Suc idx) chunks)"
  using assms by (simp add: cursor_rest_def Cons_nth_drop_Suc [symmetric])

lemma cursor_take_step:
  assumes "0 < need" and "idx < length chunks" and "off \<le> length (chunks ! idx)"
    and t: "t = min need (length (chunks ! idx) - off)"
    and nxt: "nxt = (if off + t = length (chunks ! idx) then (idx + 1, 0) else (idx, off + t))"
  shows "cursor_take chunks idx off need =
    map_option (\<lambda>(out, cur). (take t (drop off (chunks ! idx)) # out, cur))
      (cursor_take chunks (fst nxt) (snd nxt) (need - t))"
proof -
  have "\<not> need = 0" "\<not> (length chunks \<le> idx \<or> length (chunks ! idx) < off)" using assms by auto
  then show ?thesis
    by (subst cursor_take.simps) (simp only: if_False Let_def t [symmetric] nxt [symmetric])
qed

lemma cursor_take_correct:
  assumes "cursor_ok chunks (idx, off)" and "need \<le> length (cursor_rest chunks (idx, off))"
  shows "\<exists>out cur. cursor_take chunks idx off need = Some (out, cur) \<and> cursor_ok chunks cur
    \<and> concat out = take need (cursor_rest chunks (idx, off))
    \<and> cursor_rest chunks cur = drop need (cursor_rest chunks (idx, off))"
  using assms
proof (induction chunks idx off need rule: cursor_take.induct)
  case (1 chunks idx off need)
  show ?case
  proof (cases "need = 0")
    case True
    then show ?thesis using 1(2) by (simp add: cursor_take.simps)
  next
    case False
    have idx: "idx < length chunks"
      using 1(2,3) False by (auto simp: cursor_ok_def cursor_rest_def split: if_splits)
    then have off: "off \<le> length (chunks ! idx)" using 1(2) by (simp add: cursor_ok_def)
    define t where "t = min need (length (chunks ! idx) - off)"
    define nxt where "nxt = (if off + t = length (chunks ! idx) then (idx + 1, 0) else (idx, off + t))"
    let ?piece = "take t (drop off (chunks ! idx))"
    have piece: "length ?piece = t" by (simp add: t_def)
    have rest: "cursor_rest chunks (idx, off) = ?piece @ cursor_rest chunks nxt"
    proof (cases "off + t = length (chunks ! idx)")
      case True
      then show ?thesis
        using cursor_rest_step [OF idx off] by (simp add: nxt_def cursor_rest_def)
    next
      case False
      then have "off + t \<le> length (chunks ! idx)" using off by (simp add: t_def)
      then have "cursor_rest chunks nxt = drop (off + t) (chunks ! idx) @ concat (drop (Suc idx) chunks)"
        using cursor_rest_step [OF idx] False by (simp add: nxt_def)
      moreover have "drop off (chunks ! idx) = ?piece @ drop (off + t) (chunks ! idx)"
        by (metis append_take_drop_id drop_drop add.commute)
      ultimately show ?thesis using cursor_rest_step [OF idx off] by simp
    qed
    have ok: "cursor_ok chunks nxt"
      using idx off by (auto simp: nxt_def cursor_ok_def t_def)
    have "\<exists>out cur. cursor_take chunks (fst nxt) (snd nxt) (need - t) = Some (out, cur) \<and> cursor_ok chunks cur
        \<and> concat out = take (need - t) (cursor_rest chunks (fst nxt, snd nxt))
        \<and> cursor_rest chunks cur = drop (need - t) (cursor_rest chunks (fst nxt, snd nxt))"
    proof (rule 1(1) [OF False _ refl refl t_def refl refl])
      show "need - t \<le> length (cursor_rest chunks (fst nxt, snd nxt))"
        using 1(3) rest piece by simp
    qed (use idx off ok in \<open>auto simp: nxt_def\<close>)
    then obtain out cur where rec: "cursor_take chunks (fst nxt) (snd nxt) (need - t) = Some (out, cur)"
      "cursor_ok chunks cur" "concat out = take (need - t) (cursor_rest chunks nxt)"
      "cursor_rest chunks cur = drop (need - t) (cursor_rest chunks nxt)"
      by auto
    have tn: "t \<le> need" by (simp add: t_def)
    have "cursor_take chunks idx off need = Some (?piece # out, cur)"
      using cursor_take_step [OF _ idx off t_def nxt_def] False rec(1) by simp
    moreover have "concat (?piece # out) = take need (cursor_rest chunks (idx, off))"
      unfolding rest using piece tn rec(3) by simp
    moreover have "cursor_rest chunks cur = drop need (cursor_rest chunks (idx, off))"
      unfolding rest using piece tn rec(4) by simp
    ultimately show ?thesis using rec(2) by blast
  qed
qed

context block_store
begin

lemma slice_byte_written:
  assumes "block st' (sid, i) = Some (replicate o' 0 @ data)" and "o' + length data \<le> bs" and "j < length data"
  shows "slice_byte (block st') bs sid (i * bs + o' + j) = Some (data ! j)"
proof -
  have "(i * bs + o' + j) div bs = i" "(i * bs + o' + j) mod bs = o' + j"
    using assms(2,3) by (simp_all add: div_mult_self3 add.assoc)
  then show ?thesis using assms by (simp add: slice_byte_def nth_append)
qed

lemma upload_spans:
  assumes "0 < bs" and "p + n \<le> u32_limit" and "cursor_ok chunks cur"
    and "n \<le> length (cursor_rest chunks cur)" and "\<forall>i\<ge>p div bs. block st (sid, i) = None"
  shows "\<exists>ws st'. plan_uploads sid chunks cur (aligned_spans bs p n) = Some ws
    \<and> run_uploads write_range st ws = (Inr (), st')
    \<and> (\<forall>j<n. slice_byte (block st') bs sid (p + j) = Some (cursor_rest chunks cur ! j))
    \<and> (\<forall>key. fst key \<noteq> sid \<or> snd key < p div bs \<longrightarrow> block st' key = block st key)"
  using assms
proof (induction bs p n arbitrary: cur st rule: aligned_spans.induct)
  case (1 a "from" n)
  show ?case
  proof (cases "n = 0")
    case True
    then show ?thesis by simp
  next
    case False
    define t where "t = min n (a - from mod a)"
    define i where "i = from div a"
    let ?rest = "cursor_rest chunks cur"
    have "from mod a < a" using 1(2) by simp
    then have t: "0 < t" "t \<le> n" "from mod a + t \<le> a"
      unfolding t_def using False by linarith+
    have from_eq: "i * a + from mod a = from" by (simp add: i_def)
    have "i \<le> from" by (simp add: i_def)
    then have idx: "as_u32 i = i" using False 1(3) by simp
    obtain out cur' where take: "cursor_take chunks (fst cur) (snd cur) t = Some (out, cur')"
      "cursor_ok chunks cur'" "concat out = take t ?rest" "cursor_rest chunks cur' = drop t ?rest"
      using cursor_take_correct [of chunks "fst cur" "snd cur" t] 1(4,5) t(2) by auto
    let ?data = "take t ?rest"
    have data: "length ?data = t" using 1(5) t(2) by simp
    have "from mod a \<le> from" by (rule mod_less_eq_dividend)
    then have "from mod a + t \<le> u32_limit" using 1(3) t(2) by linarith
    then have small: "from mod a + t < u64_limit" by (simp add: u32_limit_def u64_limit_def)
    obtain st1 where st1: "write_range st (sid, i) (from mod a) ?data = (Inr t, st1)"
      "block st1 = (block st)((sid, i) \<mapsto> replicate (from mod a) 0 @ ?data)"
      using write_fresh [of st "(sid, i)" "from mod a" ?data] 1(6) data small by (auto simp: i_def)
    have next_idx: "n = t \<or> (from + t) div a = i + 1"
    proof (cases "n = t")
      case False
      then have "t = a - from mod a" by (auto simp: t_def)
      then have "from + t = (i + 1) * a"
        using from_eq \<open>from mod a < a\<close> by (simp add: algebra_simps)
      then show ?thesis using 1(2) by simp
    qed simp
    have fresh: "n = t \<or> (\<forall>k\<ge>(from + t) div a. block st1 (sid, k) = None)"
      using next_idx 1(6) st1(2) by (auto simp: i_def)
    obtain ws st2 where rec:
      "plan_uploads sid chunks cur' (aligned_spans a (from + t) (n - t)) = Some ws"
      "run_uploads write_range st1 ws = (Inr (), st2)"
      "\<forall>j<n - t. slice_byte (block st2) a sid (from + t + j) = Some (cursor_rest chunks cur' ! j)"
      "\<forall>key. fst key \<noteq> sid \<or> snd key < (from + t) div a \<longrightarrow> block st2 key = block st1 key"
      "n = t \<Longrightarrow> st2 = st1"
    proof (cases "n = t")
      case True
      then show ?thesis using that [of "[]" st1] by simp
    next
      case neq: False
      have "\<exists>ws st'. plan_uploads sid chunks cur' (aligned_spans a (from + t) (n - t)) = Some ws
        \<and> run_uploads write_range st1 ws = (Inr (), st')
        \<and> (\<forall>j<n - t. slice_byte (block st') a sid (from + t + j) = Some (cursor_rest chunks cur' ! j))
        \<and> (\<forall>key. fst key \<noteq> sid \<or> snd key < (from + t) div a \<longrightarrow> block st' key = block st1 key)"
        using fresh neq False 1(2,3,5) t(2) take(2,4)
        by (intro 1(1) [OF _ t_def]) auto
      then show ?thesis using that neq by blast
    qed
    have i_kept: "block st2 (sid, i) = Some (replicate (from mod a) 0 @ ?data)"
      using rec(4,5) next_idx st1(2) by (cases "n = t") auto
    have "slice_byte (block st2) a sid (from + j) = Some (?rest ! j)" if "j < n" for j
    proof (cases "j < t")
      case True
      then show ?thesis
        using slice_byte_written [OF i_kept, of a j] data t(3) from_eq by simp
    next
      case False
      then show ?thesis
        using rec(3) [rule_format, of "j - t"] that take(4) 1(5) by (simp add: add.assoc)
    qed
    moreover have "block st2 key = block st key" if "fst key \<noteq> sid \<or> snd key < i" for key
    proof -
      have "block st1 key = block st key" using that st1(2) by (cases key) auto
      moreover have "block st2 key = block st1 key"
        using that rec(4) [rule_format, of key] rec(5) next_idx by (cases "n = t") auto
      ultimately show ?thesis by simp
    qed
    moreover have "aligned_spans a from n
        = span_new i (from mod a) t # aligned_spans a (from + t) (n - t)"
      unfolding t_def i_def using False 1(2) by (intro aligned_spans_step) simp_all
    ultimately show ?thesis
      using take(1,3) rec(1,2) st1(1) idx
      by (simp add: span_new_def write_fresh_vectored_def i_def)
  qed
qed

lemma write_at_vectored_correct:
  assumes "0 < block_size lay" and "off + length (concat chunks) \<le> u32_limit"
    and "\<forall>i. block st (sid, i) = None"
  shows "\<exists>st'. write_at_vectored write_range st lay sid off chunks = (Inr (), st')
    \<and> (\<forall>j<length (concat chunks). slice_byte (block st') (block_size lay) sid (off + j) = Some (concat chunks ! j))
    \<and> (\<forall>key. fst key \<noteq> sid \<longrightarrow> block st' key = block st key)"
proof -
  let ?n = "length (concat chunks)"
  have lim: "off + ?n < u64_limit" using assms(2) by (simp add: u32_limit_def u64_limit_def)
  have total: "sum_u64 (map length chunks) = ?n"
    using lim by (simp add: length_concat u64_simps)
  have spans: "block_span_iter_slice off ?n lay = Some (aligned_spans (block_size lay) off ?n)"
    unfolding block_span_iter_slice_def using assms(1) lim by (rule block_span_iter_range_aligned)
  have "cursor_rest chunks (0, 0) = concat chunks" by (simp add: cursor_rest_def)
  moreover have "cursor_ok chunks (0, 0)" by (simp add: cursor_ok_def)
  ultimately obtain ws st' where "plan_uploads sid chunks (0, 0) (aligned_spans (block_size lay) off ?n) = Some ws"
    "run_uploads write_range st ws = (Inr (), st')"
    "\<forall>j<?n. slice_byte (block st') (block_size lay) sid (off + j) = Some (concat chunks ! j)"
    "\<forall>key. fst key \<noteq> sid \<or> snd key < off div block_size lay \<longrightarrow> block st' key = block st key"
    using upload_spans [OF assms(1,2), of chunks "(0, 0)" st sid] assms(3) by auto
  then show ?thesis by (simp add: write_at_vectored_def total spans)
qed

end

lemma chunk_byte_append_slice:
  assumes "\<forall>j<n. slice_byte blk' bs sid j = Some (data ! j)" and "\<forall>key. fst key \<noteq> sid \<longrightarrow> blk' key = blk key"
    and "\<forall>s\<in>set slices. slice_id s \<noteq> sid"
  shows "chunk_byte blk' bs (slices @ [\<lparr>slice_id = sid, chunk_id = cid, sl_offset = off, sl_length = n\<rparr>]) x =
    (if off \<le> x \<and> x < off + n then Some (data ! (x - off)) else chunk_byte blk bs slices x)"
proof (cases "off \<le> x \<and> x < off + n")
  case True
  then have "x - off < n" by auto
  then show ?thesis using True assms(1) by (simp add: chunk_byte_def covers_def)
next
  case False
  have "slice_byte blk' bs (slice_id s) y = slice_byte blk bs (slice_id s) y" if "owner slices x = Some s" for s y
    using owner_in_set [OF that] assms(2,3) by (simp add: slice_byte_def)
  moreover have "\<not> covers \<lparr>slice_id = sid, chunk_id = cid, sl_offset = off, sl_length = n\<rparr> x"
    using False by (simp add: covers_def)
  ultimately show ?thesis using False by (auto simp: chunk_byte_def split: option.splits)
qed

context block_store
begin

lemma write_then_read:
  assumes "slices_fit slices" and "0 < block_size lay" and "\<forall>i. block st (sid, i) = None"
    and "\<forall>s\<in>set slices. slice_id s \<noteq> sid" and "off + length (concat chunks) < u64_limit"
    and "length (concat chunks) \<le> u32_limit"
  shows "\<exists>st'. write_at_vectored write_range st lay sid 0 chunks = (Inr (), st')
    \<and> (\<forall>x. chunk_byte (block st') (block_size lay)
          (slices @ [\<lparr>slice_id = sid, chunk_id = cid, sl_offset = off, sl_length = length (concat chunks)\<rparr>]) x =
        (if off \<le> x \<and> x < off + length (concat chunks) then Some (concat chunks ! (x - off))
         else chunk_byte (block st) (block_size lay) slices x))
    \<and> read_at_from_slices (read_range st') lay
        (slices @ [\<lparr>slice_id = sid, chunk_id = cid, sl_offset = off, sl_length = length (concat chunks)\<rparr>])
        off (length (concat chunks)) = Inr (concat chunks)"
proof -
  let ?data = "concat chunks" and ?bs = "block_size lay"
  let ?slices = "slices @ [\<lparr>slice_id = sid, chunk_id = cid, sl_offset = off, sl_length = length ?data\<rparr>]"
  obtain st' where st': "write_at_vectored write_range st lay sid 0 chunks = (Inr (), st')"
    "\<forall>j<length ?data. slice_byte (block st') ?bs sid j = Some (?data ! j)"
    "\<forall>key. fst key \<noteq> sid \<longrightarrow> block st' key = block st key"
    using write_at_vectored_correct [OF assms(2), of 0 chunks st sid] assms(3,6) by auto
  have bytes: "chunk_byte (block st') ?bs ?slices x =
      (if off \<le> x \<and> x < off + length ?data then Some (?data ! (x - off)) else chunk_byte (block st) ?bs slices x)" for x
    by (rule chunk_byte_append_slice [OF st'(2,3) assms(4)])
  have "map (chunk_byte (block st') ?bs ?slices) [off..<off + length ?data] = map Some ?data"
    by (intro nth_equalityI) (simp_all add: bytes)
  then have "chunk_content (block st') ?bs ?slices off (length ?data) = Some ?data"
    unfolding chunk_content_def by (simp only: those_map_Some)
  moreover have "slices_fit ?slices" using assms(1,5,6) by (simp add: slices_fit_def)
  ultimately have "read_at_from_slices (read_range st') lay ?slices off (length ?data) = Inr ?data"
    using read_at_agrees [of ?slices lay off "length ?data" st'] assms(2,5) by simp
  with st'(1) bytes show ?thesis by blast
qed

end

section \<open>Correctness of the data path\<close>

lemma agrees_iff: "agrees v r \<Longrightarrow> r = Inr x \<longleftrightarrow> v = Some x"
  by (auto simp: agrees_def split: option.splits)

text \<open>
  C14. A chunk read returns data exactly when every byte of the range is available, and then each
  byte is the one stored by the newest slice covering its position, or zero where no slice does.
\<close>

theorem read_at_from_slices_correct:
  assumes "slices_fit slices" and "0 < block_size lay" and "off + n < u64_limit"
  shows "read_at_from_slices (mem_read_range m) lay slices off n = Inr data \<longleftrightarrow>
    chunk_content m (block_size lay) slices off n = Some data"
  by (rule agrees_iff [OF mem.read_at_agrees [OF assms]])

theorem read_at_from_slices_correct_witness:
  "read_at_from_slices (mem_read_range [(7, 0) \<mapsto> [1, 2, 3, 4], (7, 1) \<mapsto> [5]])
     \<lparr>chunk_size = 16, block_size = 4\<rparr>
     [\<lparr>slice_id = 7, chunk_id = 1, sl_offset = 1, sl_length = 5\<rparr>] 0 7 = Inr [0, 1, 2, 3, 4, 5, 0]"
  by (subst read_at_from_slices_correct)
     (simp_all add: slices_fit_def u64_limit_def u32_limit_def chunk_content_def chunk_byte_def
        slice_byte_def owner_def covers_def upt_rec)

text \<open>
  Reading into a caller's buffer, whatever it held before, gives the same result as allocating
  a zeroed buffer.
\<close>

theorem read_at_into_same:
  assumes "slices_fit slices" and "0 < block_size lay" and "off + length buf < u64_limit"
  shows "read_at_into_from_slices (mem_read_range m) lay slices off buf = Inr data \<longleftrightarrow>
    read_at_from_slices (mem_read_range m) lay slices off (length buf) = Inr data"
  using agrees_iff [OF mem.read_at_agrees [OF assms]] agrees_iff [OF mem.read_at_into_agrees [OF assms]]
  by blast

theorem read_at_into_same_witness:
  "\<forall>data. read_at_into_from_slices (mem_read_range [(7, 0) \<mapsto> [1, 2]]) \<lparr>chunk_size = 16, block_size = 4\<rparr>
     [\<lparr>slice_id = 7, chunk_id = 1, sl_offset = 1, sl_length = 2\<rparr>] 0 [9, 9, 9, 9] = Inr data \<longleftrightarrow>
   read_at_from_slices (mem_read_range [(7, 0) \<mapsto> [1, 2]]) \<lparr>chunk_size = 16, block_size = 4\<rparr>
     [\<lparr>slice_id = 7, chunk_id = 1, sl_offset = 1, sl_length = 2\<rparr>] 0 (length [9, 9, 9, 9 :: u8]) = Inr data"
  by (intro allI read_at_into_same) (simp_all add: slices_fit_def u64_limit_def u32_limit_def)

text \<open>
  C21. Uploading a payload under a fresh slice identifier and appending its descriptor makes exactly
  the payload visible in its range and leaves every other byte of the chunk as it was; reading the
  range returns the payload.
\<close>

theorem upload_then_read:
  assumes "slices_fit slices" and "0 < block_size lay" and "\<forall>i. m (sid, i) = None"
    and "\<forall>s\<in>set slices. slice_id s \<noteq> sid" and "off + length (concat chunks) < u64_limit"
    and "length (concat chunks) \<le> u32_limit"
  shows "\<exists>m'. write_at_vectored mem_write_fresh_range m lay sid 0 chunks = (Inr (), m')
    \<and> (\<forall>x. chunk_byte m' (block_size lay)
          (slices @ [\<lparr>slice_id = sid, chunk_id = cid, sl_offset = off, sl_length = length (concat chunks)\<rparr>]) x =
        (if off \<le> x \<and> x < off + length (concat chunks) then Some (concat chunks ! (x - off))
         else chunk_byte m (block_size lay) slices x))
    \<and> read_at_from_slices (mem_read_range m') lay
        (slices @ [\<lparr>slice_id = sid, chunk_id = cid, sl_offset = off, sl_length = length (concat chunks)\<rparr>])
        off (length (concat chunks)) = Inr (concat chunks)"
  by (rule mem.write_then_read [OF assms])

theorem upload_then_read_witness:
  "\<exists>m'. write_at_vectored mem_write_fresh_range Map.empty \<lparr>chunk_size = 16, block_size = 4\<rparr> 3 0 [[1, 2], [3, 4, 5]]
       = (Inr (), m')
    \<and> read_at_from_slices (mem_read_range m') \<lparr>chunk_size = 16, block_size = 4\<rparr>
        [\<lparr>slice_id = 3, chunk_id = 1, sl_offset = 6, sl_length = 5\<rparr>] 6 5 = Inr [1, 2, 3, 4, 5]"
proof -
  have len: "length (concat [[1, 2], [3, 4, 5 :: u8]]) = 5" by simp
  show ?thesis
    using upload_then_read [of "[]" "\<lparr>chunk_size = 16, block_size = 4\<rparr>" Map.empty 3 6
        "[[1, 2], [3, 4, 5]]" 1, unfolded len]
    by (auto simp: slices_fit_def u64_limit_def u32_limit_def)
qed

end
