(* ===== verification/Coalesce.thy ===== *)
theory Coalesce
  imports MetaTypes
begin

text \<open>
  Shared objects that hold several small slices (\<^verbatim>\<open>src/src/chunk/store/coalesce.rs\<close>): slice
  identifiers that name a group and a slot, and the self-describing object format.
\<close>

section \<open>Identifiers\<close>

definition ID_FLAG :: u64 where
  "ID_FLAG = push_bit 52 1"

definition MAX_MEMBERS :: nat where
  "MAX_MEMBERS = 32"

definition encode_id :: "u64 \<Rightarrow> nat \<Rightarrow> u64 option" where
  "encode_id grp slot =
     (if 1 \<le> grp \<and> grp < push_bit 47 1 \<and> slot < MAX_MEMBERS
      then Some (ID_FLAG OR push_bit 5 grp OR of_nat slot) else None)"

definition decode_id :: "u64 \<Rightarrow> (u64 \<times> u64) option" where
  "decode_id i =
     (if ID_FLAG \<le> i \<and> i < ID_FLAG * 2
      then Some (drop_bit 5 (i AND NOT ID_FLAG), i AND 31) else None)"

definition object_key :: "u64 \<Rightarrow> string" where
  "object_key grp = ''chunks-coalesced-v1/'' @ decimal (unat grp) @ ''/0''"

definition ledger_key :: "u64 \<Rightarrow> string" where
  "ledger_key grp = ''write_coalesce/'' @ decimal (unat grp)"

lemma bit_ID_FLAG [simp]: "bit ID_FLAG n \<longleftrightarrow> n = 52"
  unfolding ID_FLAG_def bit_push_bit_iff by (auto simp: bit_1_iff)

text \<open>
  A coalesced identifier determines its group and slot.
\<close>

theorem coalesce_id_round_trip:
  assumes "encode_id grp slot = Some i"
  shows "decode_id i = Some (grp, of_nat slot)"
proof -
  have g: "grp < push_bit 47 1" and s: "slot < 32"
    and i: "i = ID_FLAG OR push_bit 5 grp OR of_nat slot"
    using assms by (auto simp: encode_id_def MAX_MEMBERS_def split: if_splits)
  have gb: "bit grp n \<Longrightarrow> n < 47" for n 
    using bit_less_bound [of grp 47 n] g by (simp add: push_bit_eq_mult word_less_nat_alt)
  have sb: "bit (of_nat slot :: u64) n \<Longrightarrow> n < 5" for n 
    using bit_less_bound [of "of_nat slot :: u64" 5 n] s by (simp add: unat_of_nat)
  have bit_i: "bit i n \<longleftrightarrow> n = 52 \<or> 5 \<le> n \<and> bit grp (n - 5) \<or> bit (of_nat slot :: u64) n" if "n < 64" for n
    using that by (auto simp: i bit_simps)
  have grp_eq: "drop_bit 5 (i AND NOT ID_FLAG) = grp"
  proof (rule bit_word_eqI)
    fix n assume "n < LENGTH(64)"
    then show "bit (drop_bit 5 (i AND NOT ID_FLAG)) n = bit grp n"
      using gb [of n] sb [of "n + 5"] bit_i [of "n + 5"]
      by (cases "n + 5 < 64") (auto simp: bit_drop_bit_eq bit_simps add.commute dest: bit_imp_le_length)
  qed
  have slt: "i AND 31 = of_nat slot"
  proof (rule bit_word_eqI)
    fix n assume n: "n < LENGTH(64)"
    have mask: "(31 :: u64) = mask 5" by (simp add: mask_eq_exp_minus_1)
    have "bit (i AND 31) n \<longleftrightarrow> bit i n \<and> n < 5" unfolding mask using n by (simp add: bit_simps)
    then show "bit (i AND 31) n = bit (of_nat slot :: u64) n"
      using bit_i [of n] sb [of n] n by auto
  qed
  have "n < 53" if "bit i n" for n
    using bit_i [of n] gb [of "n - 5"] sb [of n] bit_imp_le_length [OF that] that by auto
  then have "unat i < 2 ^ 53" by (rule bound_from_bits)
  then have hi: "i < ID_FLAG * 2" by (simp add: ID_FLAG_def push_bit_eq_mult word_less_nat_alt)
  have "i AND ID_FLAG = ID_FLAG"
    by (rule bit_word_eqI) (use bit_i in \<open>auto simp: bit_simps\<close>)
  then have lo: "ID_FLAG \<le> i" by (metis word_and_le1 and.commute)
  show ?thesis using hi lo grp_eq slt by (simp add: decode_id_def)
qed

theorem coalesce_id_round_trip_witness:
  "\<exists>i. encode_id 3 7 = Some i \<and> decode_id i = Some (3, 7)"
  using coalesce_id_round_trip [of 3 7]
  by (simp add: encode_id_def MAX_MEMBERS_def push_bit_eq_mult)

section \<open>The shared object\<close>

datatype coalesce_error =
    InvalidGroupSize | ObjectTooBig | InvalidLength | InvalidMagic | GroupMismatch | InvalidIndexBounds
  | IndexDigestMismatch | InvalidMember | ExtentOverflow | MemberExceedsObject | TrailingBytes

definition HEADER :: nat where "HEADER = 64"
definition ENTRY :: nat where "ENTRY = 48"
definition MAX_OBJECT :: nat where "MAX_OBJECT = 4 * 1024 * 1024"
definition MAX_MEMBER_BYTES :: nat where "MAX_MEMBER_BYTES = 65536"
definition PERSISTED_HEADER_LEN :: nat where "PERSISTED_HEADER_LEN = 4"

text \<open>\<^verbatim>\<open>b"BFSCOA01"\<close>.\<close>

definition MAGIC :: bytes where
  "MAGIC = [66, 70, 83, 67, 79, 65, 48, 49]"

record member =
  m_raw :: nat
  m_frame :: bytes

record index_entry =
  ie_offset :: nat
  ie_stored :: nat
  ie_raw :: nat
  ie_digest :: bytes

text \<open>The index entries, one per member; \<open>sha\<close> stands for \<^verbatim>\<open>Sha256::digest\<close>.\<close>

fun encode_entries :: "(bytes \<Rightarrow> bytes) \<Rightarrow> nat \<Rightarrow> member list \<Rightarrow> bytes" where
  "encode_entries sha off [] = []"
| "encode_entries sha off (m # ms) =
     to_le_bytes 4 off @ to_le_bytes 4 (length (m_frame m)) @ to_le_bytes 4 (m_raw m) @ replicate 4 0
     @ sha (m_frame m) @ encode_entries sha (off + length (m_frame m)) ms"

definition frames_len :: "member list \<Rightarrow> nat" where
  "frames_len ms = sum_list (map (\<lambda>m. length (m_frame m)) ms)"

definition encode_object :: "(bytes \<Rightarrow> bytes) \<Rightarrow> nat \<Rightarrow> member list \<Rightarrow> coalesce_error + bytes" where
  "encode_object sha grp members =
     (if members = [] \<or> MAX_MEMBERS < length members then Inl InvalidGroupSize
      else let index_len = HEADER + ENTRY * length members;
               total = index_len + frames_len members
           in if MAX_OBJECT < total then Inl ObjectTooBig
              else let head = MAGIC @ to_le_bytes 8 grp @ to_le_bytes 4 (length members)
                         @ to_le_bytes 4 index_len @ to_le_bytes 8 total;
                       entries = encode_entries sha index_len members
                   in Inr (head @ sha (head @ entries) @ entries @ concat (map m_frame members)))"

text \<open>The loop over the slots: the entries and the final cursor.\<close>

fun parse_slots :: "bytes \<Rightarrow> nat \<Rightarrow> nat \<Rightarrow> nat \<Rightarrow> coalesce_error + (index_entry list \<times> nat)" where
  "parse_slots data slot 0 cur = Inr ([], cur)"
| "parse_slots data slot (Suc k) cur =
     (let start = HEADER + slot * ENTRY;
          off = from_le_bytes (bytes_at data start 4);
          stored = from_le_bytes (bytes_at data (start + 4) 4);
          raw = from_le_bytes (bytes_at data (start + 8) 4)
      in if \<not> (off = cur \<and> PERSISTED_HEADER_LEN \<le> stored \<and> stored \<le> MAX_MEMBER_BYTES + 1024
               \<and> raw > 0 \<and> raw \<le> MAX_MEMBER_BYTES \<and> bytes_at data (start + 12) 4 = [0, 0, 0, 0])
         then Inl InvalidMember
         else rbind (ok_or ExtentOverflow (checked_add_u64 cur stored)) (\<lambda>cur'.
           if \<not> cur' \<le> length data then Inl MemberExceedsObject
           else rbind (parse_slots data (slot + 1) k cur') (\<lambda>(entries, fin).
             Inr (\<lparr>ie_offset = off, ie_stored = stored, ie_raw = raw,
                    ie_digest = bytes_at data (start + 16) 32\<rparr> # entries, fin))))"

definition parse_index :: "(bytes \<Rightarrow> bytes) \<Rightarrow> nat \<Rightarrow> bytes \<Rightarrow> coalesce_error + index_entry list" where
  "parse_index sha grp data =
     (if \<not> (HEADER \<le> length data \<and> length data \<le> MAX_OBJECT) then Inl InvalidLength
      else if bytes_at data 0 8 \<noteq> MAGIC then Inl InvalidMagic
      else if from_le_bytes (bytes_at data 8 8) \<noteq> grp then Inl GroupMismatch
      else let count = from_le_bytes (bytes_at data 16 4);
               index_len = from_le_bytes (bytes_at data 20 4);
               total = from_le_bytes (bytes_at data 24 8)
           in if \<not> (count > 0 \<and> count \<le> MAX_MEMBERS \<and> index_len = HEADER + count * ENTRY
                   \<and> index_len \<le> length data \<and> total = length data)
              then Inl InvalidIndexBounds
              else if sha (bytes_at data 0 32 @ bytes_at data HEADER (index_len - HEADER))
                      \<noteq> bytes_at data 32 32
              then Inl IndexDigestMismatch
              else rbind (parse_slots data 0 count index_len) (\<lambda>(entries, fin).
                if fin \<noteq> length data then Inl TrailingBytes else Inr entries))"

text \<open>The entries the index of a group describes.\<close>

fun index_of :: "(bytes \<Rightarrow> bytes) \<Rightarrow> nat \<Rightarrow> member list \<Rightarrow> index_entry list" where
  "index_of sha off [] = []"
| "index_of sha off (m # ms) =
     \<lparr>ie_offset = off, ie_stored = length (m_frame m), ie_raw = m_raw m, ie_digest = sha (m_frame m)\<rparr>
     # index_of sha (off + length (m_frame m)) ms"

definition member_ok :: "member \<Rightarrow> bool" where
  "member_ok m \<longleftrightarrow> PERSISTED_HEADER_LEN \<le> length (m_frame m) \<and> length (m_frame m) \<le> MAX_MEMBER_BYTES + 1024
     \<and> 0 < m_raw m \<and> m_raw m \<le> MAX_MEMBER_BYTES"

lemmas coalesce_consts = HEADER_def ENTRY_def MAX_OBJECT_def MAX_MEMBER_BYTES_def PERSISTED_HEADER_LEN_def
  MAX_MEMBERS_def

lemma frames_len_simps [simp]:
  "frames_len [] = 0" "frames_len (m # ms) = length (m_frame m) + frames_len ms"
  by (simp_all add: frames_len_def)

lemma length_encode_entries:
  "(\<And>b. length (sha b) = 32) \<Longrightarrow> length (encode_entries sha off ms) = ENTRY * length ms"
  by (induction ms arbitrary: off) (auto simp: ENTRY_def)

lemma bytes_at_drop:
  "drop a data = xs @ ys \<Longrightarrow> bytes_at data (a + k) n = take n (drop k (xs @ ys))"
  unfolding bytes_at_def by (metis add.commute drop_drop)

lemma replicate_4_zero: "replicate 4 (0 :: u8) = [0, 0, 0, 0]"
  by (simp add: eval_nat_numeral)

lemma parse_slots_encoded:
  assumes "\<And>b. length (sha b) = 32" and "\<forall>m\<in>set ms. member_ok m"
    and "drop (HEADER + slot * ENTRY) data = encode_entries sha cur ms @ rest"
    and "cur + frames_len ms \<le> length data" and "length data \<le> MAX_OBJECT"
  shows "parse_slots data slot (length ms) cur =
    Inr (index_of sha cur ms, cur + frames_len ms)"
  using assms(2-4)
proof (induction ms arbitrary: slot cur)
  case Nil
  then show ?case by simp
next
  case (Cons m ms)
  let ?len = "length (m_frame m)" and ?start = "HEADER + slot * ENTRY"
  let ?e = "to_le_bytes 4 cur @ to_le_bytes 4 ?len @ to_le_bytes 4 (m_raw m) @ replicate 4 0 @ sha (m_frame m)"
  let ?tail = "encode_entries sha (cur + ?len) ms @ rest"
  have d: "drop ?start data = ?e @ ?tail" using Cons.prems(2) by simp
  have ok: "member_ok m" using Cons.prems(1) by simp
  have bnd: "cur + ?len \<le> length data" using Cons.prems(3) by simp
  have small: "cur < 256 ^ 4" "?len < 256 ^ 4" "m_raw m < 256 ^ 4"
    using ok bnd assms(5) by (simp_all add: member_ok_def coalesce_consts)
  note at = bytes_at_drop [OF d]
  have e1: "from_le_bytes (bytes_at data ?start 4) = cur"
    using at [of 0 4] small(1) by simp
  have e2: "from_le_bytes (bytes_at data (?start + 4) 4) = ?len"
    using at [of 4 4] small(2) by simp
  have e3: "from_le_bytes (bytes_at data (?start + 8) 4) = m_raw m"
    using at [of 8 4] small(3) by simp
  have e4: "bytes_at data (?start + 12) 4 = [0, 0, 0, 0]"
    using at [of 12 4] replicate_4_zero by simp
  have e5: "bytes_at data (?start + 16) 32 = sha (m_frame m)"
    using at [of 16 32] assms(1) by simp
  have "drop (HEADER + (slot + 1) * ENTRY) data = drop ENTRY (drop ?start data)"
    by (simp add: ENTRY_def add.commute add.left_commute)
  also have "\<dots> = ?tail" unfolding d using assms(1) by (simp add: ENTRY_def)
  finally have next_entry: "drop (HEADER + (slot + 1) * ENTRY) data = ?tail" .
  have rec: "parse_slots data (slot + 1) (length ms) (cur + ?len) =
      Inr (index_of sha (cur + ?len) ms, cur + ?len + frames_len ms)"
    using Cons.IH [OF _ next_entry] Cons.prems(1,3) by simp
  have chk: "checked_add_u64 cur ?len = Some (cur + ?len)"
    using bnd assms(5) by (simp add: coalesce_consts u64_limit_def)
  have good: "\<not> \<not> (cur = cur \<and> PERSISTED_HEADER_LEN \<le> ?len \<and> ?len \<le> MAX_MEMBER_BYTES + 1024
      \<and> m_raw m > 0 \<and> m_raw m \<le> MAX_MEMBER_BYTES \<and> [0, 0, 0, 0 :: u8] = [0, 0, 0, 0])"
    using ok by (simp add: member_ok_def)
  have fits: "\<not> \<not> cur + ?len \<le> length data" using bnd by simp
  show ?case
    unfolding list.size parse_slots.simps Let_def e1 e2 e3 e4 e5 add_0_right add_Suc_right
    unfolding if_not_P [OF good] chk ok_or_simps rbind_simps if_not_P [OF fits] rec
    by simp
qed

lemma index_of_frame:
  assumes "slot < length ms"
  shows "ie_offset (index_of sha off ms ! slot) = off + frames_len (take slot ms)
    \<and> ie_stored (index_of sha off ms ! slot) = length (m_frame (ms ! slot))
    \<and> ie_raw (index_of sha off ms ! slot) = m_raw (ms ! slot)"
  using assms
proof (induction ms arbitrary: slot off)
  case (Cons m ms)
  then show ?case by (cases slot) auto
qed simp

lemma concat_frame_at:
  assumes "slot < length ms"
  shows "take (length (m_frame (ms ! slot)))
      (drop (frames_len (take slot ms)) (concat (map m_frame ms))) = m_frame (ms ! slot)"
  using assms
proof (induction ms arbitrary: slot)
  case (Cons m ms)
  then show ?case by (cases slot) auto
qed simp

text \<open>
  C29. A shared object parses back to its index: for well-formed members the parser accepts what the
  encoder wrote, the index lists every member in slot order, and the bytes an entry points to are
  the member's frame. The digest is any function with 32-byte results.
\<close>

theorem coalesced_object_round_trip:
  assumes "\<And>b. length (sha b) = 32" and "\<forall>m\<in>set ms. member_ok m" and "grp < u64_limit"
    and "encode_object sha grp ms = Inr data"
  shows "parse_index sha grp data = Inr (index_of sha (HEADER + ENTRY * length ms) ms)
    \<and> (\<forall>slot<length ms. let e = index_of sha (HEADER + ENTRY * length ms) ms ! slot
         in bytes_at data (ie_offset e) (ie_stored e) = m_frame (ms ! slot) \<and> ie_raw e = m_raw (ms ! slot))"
proof -
  let ?n = "length ms" and ?il = "HEADER + ENTRY * length ms"
  let ?total = "?il + frames_len ms"
  let ?head = "MAGIC @ to_le_bytes 8 grp @ to_le_bytes 4 ?n @ to_le_bytes 4 ?il @ to_le_bytes 8 ?total"
  let ?E = "encode_entries sha ?il ms" and ?F = "concat (map m_frame ms)"
  have n: "0 < ?n" "?n \<le> 32" and total: "?total \<le> MAX_OBJECT"
    and data: "data = ?head @ sha (?head @ ?E) @ ?E @ ?F"
    using assms(4) by (auto simp: encode_object_def MAX_MEMBERS_def Let_def split: if_splits)
  have head: "length ?head = 32" by (simp add: MAGIC_def)
  have E: "length ?E = ENTRY * ?n" by (rule length_encode_entries) (rule assms(1))
  have F: "length ?F = frames_len ms" by (simp add: frames_len_def length_concat comp_def)
  have len: "length data = ?total" unfolding data using head E F assms(1) by (simp add: HEADER_def)
  have small: "?n < 256 ^ 4" "?il < 256 ^ 4" "?total < 256 ^ 8"
    using n total by (simp_all add: coalesce_consts)
  have d0: "drop 0 data = ?head @ sha (?head @ ?E) @ ?E @ ?F" by (simp add: data)
  have hd: "bytes_at data k j = take j (drop k (?head @ sha (?head @ ?E) @ ?E @ ?F))" for k j
    using bytes_at_drop [OF d0, of k j] by simp
  have h1: "bytes_at data 0 8 = MAGIC" unfolding hd by (simp add: MAGIC_def)
  have h2: "from_le_bytes (bytes_at data 8 8) = grp"
    unfolding hd using assms(3) by (simp add: MAGIC_def u64_limit_def)
  have h3: "from_le_bytes (bytes_at data 16 4) = ?n" unfolding hd using small(1) by (simp add: MAGIC_def)
  have h4: "from_le_bytes (bytes_at data 20 4) = ?il" unfolding hd using small(2) by (simp add: MAGIC_def)
  have h5: "from_le_bytes (bytes_at data 24 8) = ?total" unfolding hd using small(3) by (simp add: MAGIC_def)
  have h6: "bytes_at data 0 32 = ?head" unfolding hd using head by simp
  have h7: "bytes_at data 32 32 = sha (?head @ ?E)" unfolding hd using head assms(1) by simp
  have dE: "drop HEADER data = ?E @ ?F" unfolding data HEADER_def using head assms(1) by simp
  have h8: "bytes_at data HEADER (?il - HEADER) = ?E" unfolding bytes_at_def dE using E by simp
  have slots: "parse_slots data 0 ?n ?il = Inr (index_of sha ?il ms, ?total)"
    using dE len total assms(2) by (intro parse_slots_encoded assms(1)) simp_all
  have "parse_index sha grp data = Inr (index_of sha ?il ms)"
    unfolding parse_index_def h1 h2 h3 h4 h5 h6 h7 h8 slots Let_def
    using n len total by (simp add: MAX_MEMBERS_def HEADER_def mult.commute)
  moreover have "bytes_at data (ie_offset (index_of sha ?il ms ! slot)) (ie_stored (index_of sha ?il ms ! slot))
      = m_frame (ms ! slot)" if "slot < ?n" for slot
  proof -
    have dF: "drop ?il data = ?F"
      using dE E by (metis append_eq_conv_conj drop_drop add.commute)
    then have "drop (?il + k) data = drop k ?F" for k by (metis drop_drop add.commute)
    then show ?thesis
      using index_of_frame [OF that] concat_frame_at [OF that] by (simp add: bytes_at_def)
  qed
  moreover have "ie_raw (index_of sha ?il ms ! slot) = m_raw (ms ! slot)" if "slot < ?n" for slot
    using index_of_frame [OF that] by simp
  ultimately show ?thesis by (simp add: Let_def)
qed

theorem coalesced_object_round_trip_witness:
  "\<exists>data. encode_object (\<lambda>b. replicate 32 7) 5 [\<lparr>m_raw = 9, m_frame = [1, 2, 3, 4]\<rparr>] = Inr data
    \<and> parse_index (\<lambda>b. replicate 32 7) 5 data =
        Inr [\<lparr>ie_offset = 112, ie_stored = 4, ie_raw = 9, ie_digest = replicate 32 7\<rparr>]"
proof -
  let ?sha = "\<lambda>b :: bytes. replicate 32 (7 :: u8)"
  let ?ms = "[\<lparr>m_raw = 9, m_frame = [1, 2, 3, 4 :: u8]\<rparr>]"
  have "\<exists>data. encode_object ?sha 5 ?ms = Inr data"
    by (simp add: encode_object_def coalesce_consts Let_def)
  then obtain data where data: "encode_object ?sha 5 ?ms = Inr data" ..
  have "parse_index ?sha 5 data = Inr (index_of ?sha (HEADER + ENTRY * length ?ms) ?ms)"
    using coalesced_object_round_trip [of ?sha ?ms 5 data] data
    by (simp add: member_ok_def coalesce_consts u64_limit_def)
  with data show ?thesis by (simp add: coalesce_consts)
qed

end
