(* ===== verification/SliceStore.thy ===== *)
theory SliceStore
  imports ChunkIO Coalesce
begin

text \<open>
  The slice tables of the database metadata store (\<^verbatim>\<open>src/src/meta/stores/database/mod.rs\<close> and the
  entities it uses) and the truncation plan shared by the stores (\<^verbatim>\<open>src/src/meta/stores/mod.rs\<close>).
  A table is the list of its rows in primary-key order; the auto-increment keys come from a
  counter. A transaction is one state change. Values the code casts to \<^verbatim>\<open>i64\<close> columns and back are
  kept as they are. Queries without an order are answered in key order.
\<close>

section \<open>Tables\<close>

record slice_row =
  row_id :: nat
  row_desc :: slice_desc

datatype delayed_status = Retained | Pending | MetaDeleted

record delayed_row =
  dl_id :: nat
  dl_slice_id :: nat
  dl_chunk_id :: nat
  dl_offset :: nat
  dl_size :: nat
  dl_created_at :: int
  dl_status :: delayed_status

datatype uncommitted_status = UnPending | UnOrphan

record uncommitted_row =
  un_id :: nat
  un_slice_id :: nat
  un_chunk_id :: nat
  un_size :: nat
  un_created_at :: int
  un_operation :: string
  un_status :: uncommitted_status

record slice_db =
  slice_rows :: "slice_row list"
  next_row :: nat
  delayed_rows :: "delayed_row list"
  next_delayed :: nat
  uncommitted_rows :: "uncommitted_row list"
  next_uncommitted :: nat
  counters :: "string \<Rightarrow> u64 option"

section \<open>Slices of a chunk\<close>

definition get_slices :: "slice_db \<Rightarrow> nat \<Rightarrow> slice_desc list" where
  "get_slices db cid =
     map row_desc (sort_key row_id (filter (\<lambda>r. chunk_id (row_desc r) = cid) (slice_rows db)))"

definition insert_slice :: "slice_db \<Rightarrow> nat \<Rightarrow> slice_desc \<Rightarrow> slice_db" where
  "insert_slice db cid s =
     db\<lparr>slice_rows := slice_rows db @ [\<lparr>row_id = next_row db, row_desc = s\<lparr>chunk_id := cid\<rparr>\<rparr>],
        next_row := next_row db + 1\<rparr>"

definition append_slice :: "slice_db \<Rightarrow> nat \<Rightarrow> slice_desc \<Rightarrow> slice_db" where
  "append_slice db cid s = insert_slice db cid s"

text \<open>The scan over chunk identifiers: a page after the cursor, wrapping around once.\<close>

definition chunk_page :: "slice_db \<Rightarrow> int option \<Rightarrow> nat \<Rightarrow> nat list" where
  "chunk_page db after limit =
     take limit (sort_key as_i64 (remdups (filter (\<lambda>c. case after of None \<Rightarrow> True | Some a \<Rightarrow> a < as_i64 c)
       (map (chunk_id \<circ> row_desc) (slice_rows db)))))"

definition list_chunk_ids :: "slice_db \<Rightarrow> int option \<Rightarrow> nat \<Rightarrow> nat list \<times> int option" where
  "list_chunk_ids db cur limit =
     (if limit = 0 then ([], cur)
      else let rows = chunk_page db cur limit
           in if rows \<noteq> [] then (rows, Some (as_i64 (last rows)))
              else if cur = None then ([], None)
              else let rows = chunk_page db None limit
                   in if rows \<noteq> [] then (rows, Some (as_i64 (last rows))) else ([], None))"

section \<open>Reclamation records\<close>

definition delayed_match :: "slice_desc \<Rightarrow> delayed_row \<Rightarrow> bool" where
  "delayed_match s d \<longleftrightarrow>
     dl_chunk_id d = chunk_id s \<and> dl_slice_id d = slice_id s \<and> dl_status d = Retained"

definition stage_slice_reclamation :: "int \<Rightarrow> slice_db \<Rightarrow> slice_desc \<Rightarrow> bool \<Rightarrow> slice_db" where
  "stage_slice_reclamation now db s retained =
     (let previous = find (delayed_match s) (delayed_rows db);
          size = (case previous of None \<Rightarrow> sl_length s | Some row \<Rightarrow> max (sl_length s) (dl_size row));
          did = (case previous of None \<Rightarrow> next_delayed db | Some row \<Rightarrow> dl_id row);
          row = \<lparr>dl_id = did, dl_slice_id = slice_id s, dl_chunk_id = chunk_id s, dl_offset = sl_offset s,
                 dl_size = size, dl_created_at = now, dl_status = (if retained then Retained else Pending)\<rparr>
      in case previous of
           None \<Rightarrow> db\<lparr>delayed_rows := delayed_rows db @ [row], next_delayed := next_delayed db + 1\<rparr>
         | Some _ \<Rightarrow> db\<lparr>delayed_rows := map (\<lambda>d. if dl_id d = did then row else d) (delayed_rows db)\<rparr>)"

section \<open>Truncation\<close>

record truncate_plan_rec =
  cutoff_chunk :: nat
  cutoff_offset :: nat
  drop_start :: nat
  old_chunk_count :: nat

datatype trim_action_kind = TrimKeep | TrimDrop | TrimTo nat

definition truncate_plan :: "nat \<Rightarrow> nat \<Rightarrow> nat \<Rightarrow> truncate_plan_rec option" where
  "truncate_plan new_size old_size csize =
     (if new_size \<ge> old_size \<or> csize = 0 then None
      else let cchunk = new_size div csize; coff = new_size mod csize;
               count = add_u64 (old_size div csize) (if old_size mod csize = 0 then 0 else 1)
           in Some \<lparr>cutoff_chunk = cchunk, cutoff_offset = coff,
                    drop_start = (if coff = 0 then cchunk else add_u64 cchunk 1), old_chunk_count = count\<rparr>)"

definition trim_action :: "nat \<Rightarrow> nat \<Rightarrow> nat \<Rightarrow> trim_action_kind" where
  "trim_action off n cutoff =
     (if off \<ge> cutoff then TrimDrop
      else if saturating_add_u64 off n > cutoff then TrimTo (cutoff - off) else TrimKeep)"

definition trim_slices_in_place :: "slice_desc list \<Rightarrow> nat \<Rightarrow> slice_desc list" where
  "trim_slices_in_place slices cutoff =
     map (\<lambda>s. if sl_end s > cutoff then s\<lparr>sl_length := cutoff - sl_offset s\<rparr> else s)
       (filter (\<lambda>s. sl_offset s < cutoff) slices)"

definition apply_truncate_plan ::
  "nat \<Rightarrow> nat \<Rightarrow> nat \<Rightarrow> (nat \<Rightarrow> nat \<Rightarrow> 'st \<Rightarrow> 'e + 'st) \<Rightarrow> (nat \<Rightarrow> nat \<Rightarrow> 'st \<Rightarrow> 'e + 'st) \<Rightarrow> 'st \<Rightarrow> 'e + 'st" where
  "apply_truncate_plan new_size old_size csize rewrite delete st =
     (case truncate_plan new_size old_size csize of
        None \<Rightarrow> Inr st
      | Some plan \<Rightarrow>
          rbind (if cutoff_offset plan > 0 then rewrite (cutoff_chunk plan) (cutoff_offset plan) st else Inr st)
            (\<lambda>st. if drop_start plan < old_chunk_count plan
                   then delete (drop_start plan) (old_chunk_count plan) st else Inr st))"

definition delete_slice_row :: "nat \<Rightarrow> slice_db \<Rightarrow> slice_db" where
  "delete_slice_row rid db = db\<lparr>slice_rows := filter (\<lambda>r. row_id r \<noteq> rid) (slice_rows db)\<rparr>"

definition set_slice_length :: "nat \<Rightarrow> nat \<Rightarrow> slice_db \<Rightarrow> slice_db" where
  "set_slice_length rid n db =
     db\<lparr>slice_rows := map (\<lambda>r. if row_id r = rid then r\<lparr>row_desc := (row_desc r)\<lparr>sl_length := n\<rparr>\<rparr> else r)
          (slice_rows db)\<rparr>"

definition rewrite_row :: "int \<Rightarrow> nat \<Rightarrow> slice_row \<Rightarrow> slice_db \<Rightarrow> slice_db" where
  "rewrite_row now cutoff row db =
     (case trim_action (sl_offset (row_desc row)) (sl_length (row_desc row)) cutoff of
        TrimKeep \<Rightarrow> db
      | TrimDrop \<Rightarrow> delete_slice_row (row_id row) (stage_slice_reclamation now db (row_desc row) False)
      | TrimTo n \<Rightarrow> set_slice_length (row_id row) n (stage_slice_reclamation now db (row_desc row) True))"

definition drop_row :: "int \<Rightarrow> slice_row \<Rightarrow> slice_db \<Rightarrow> slice_db" where
  "drop_row now row db = delete_slice_row (row_id row) (stage_slice_reclamation now db (row_desc row) False)"

text \<open>A chunk identifier as an \<^verbatim>\<open>i64\<close> column value.\<close>

definition chunk_id_column :: "int \<Rightarrow> nat \<Rightarrow> meta_error + nat" where
  "chunk_id_column ino idx =
     (case chunk_id_for ino idx of
        Inl e \<Rightarrow> Inl (MetaIo e)
      | Inr c \<Rightarrow> if c < u64_limit div 2 then Inr c else Inl (Internal ''chunk_id overflow''))"

definition prune_rewrite :: "int \<Rightarrow> int \<Rightarrow> nat \<Rightarrow> nat \<Rightarrow> slice_db \<Rightarrow> meta_error + slice_db" where
  "prune_rewrite now ino cchunk coff db =
     rbind (chunk_id_column ino cchunk) (\<lambda>cid.
       Inr (fold (rewrite_row now coff)
              (sort_key row_id (filter (\<lambda>r. chunk_id (row_desc r) = cid) (slice_rows db))) db))"

definition prune_delete :: "int \<Rightarrow> int \<Rightarrow> nat \<Rightarrow> nat \<Rightarrow> slice_db \<Rightarrow> meta_error + slice_db" where
  "prune_delete now ino start stop db =
     rbind (chunk_id_column ino start) (\<lambda>start_id.
     rbind (chunk_id_column ino stop) (\<lambda>stop_id.
       Inr (fold (drop_row now)
              (filter (\<lambda>r. start_id \<le> chunk_id (row_desc r) \<and> chunk_id (row_desc r) < stop_id) (slice_rows db)) db)))"

definition prune_slices_for_truncate ::
  "int \<Rightarrow> slice_db \<Rightarrow> int \<Rightarrow> nat \<Rightarrow> nat \<Rightarrow> nat \<Rightarrow> meta_error + slice_db" where
  "prune_slices_for_truncate now db ino new_size old_size csize =
     apply_truncate_plan new_size old_size csize (prune_rewrite now ino) (prune_delete now ino) db"

section \<open>Publishing a compaction\<close>

definition delete_chunk_slices :: "slice_db \<Rightarrow> nat \<Rightarrow> nat list \<Rightarrow> slice_db" where
  "delete_chunk_slices db cid ids =
     db\<lparr>slice_rows := filter (\<lambda>r. \<not> (chunk_id (row_desc r) = cid \<and> slice_id (row_desc r) \<in> set ids)) (slice_rows db)\<rparr>"

text \<open>The part both publications share: delete the replaced rows, insert the new ones, stage the rest.\<close>

definition swap_slices ::
  "int \<Rightarrow> slice_db \<Rightarrow> nat \<Rightarrow> slice_desc list \<Rightarrow> (nat \<times> nat \<times> nat) list \<Rightarrow> slice_db" where
  "swap_slices now db cid new_slices delayed =
     (let ids = map fst delayed;
          db = (if ids \<noteq> [] then delete_chunk_slices db cid ids else db);
          db = fold (\<lambda>s db. insert_slice db cid s) new_slices db
      in fold (\<lambda>(sid, off, size) db. stage_slice_reclamation now db
                 \<lparr>slice_id = sid, chunk_id = cid, sl_offset = off, sl_length = size\<rparr> False) delayed db)"

definition invalid_delayed :: meta_error where
  "invalid_delayed = Internal ''Invalid delayed data length''"

definition replace_slices_for_compact ::
  "int \<Rightarrow> slice_db \<Rightarrow> nat \<Rightarrow> slice_desc list \<Rightarrow> bytes \<Rightarrow> meta_error + slice_db" where
  "replace_slices_for_compact now db cid new_slices delayed_data =
     (if delayed_data \<noteq> [] \<and> length delayed_data mod 20 \<noteq> 0 then Inl invalid_delayed
      else rbind (ok_or invalid_delayed (decode_delayed_data delayed_data)) (\<lambda>delayed.
        Inr (swap_slices now db cid new_slices delayed)))"

definition slice_unchanged :: "(nat \<Rightarrow> (nat \<times> nat) option) \<Rightarrow> slice_desc \<Rightarrow> bool" where
  "slice_unchanged current expected = (current (slice_id expected) = Some (sl_offset expected, sl_length expected))"

text \<open>Consuming the pending reservation of each new slice; \<open>None\<close> when one is not there exactly once.\<close>

definition reserved_by :: "nat \<Rightarrow> slice_desc \<Rightarrow> uncommitted_row \<Rightarrow> bool" where
  "reserved_by cid s u \<longleftrightarrow> un_slice_id u = slice_id s \<and> un_chunk_id u = cid \<and> un_status u = UnPending"

fun consume_reservations :: "nat \<Rightarrow> slice_desc list \<Rightarrow> uncommitted_row list \<Rightarrow> uncommitted_row list option" where
  "consume_reservations cid [] rows = Some rows"
| "consume_reservations cid (s # ss) rows =
     (if length (filter (reserved_by cid s) rows) \<noteq> 1 then None
      else consume_reservations cid ss (filter (\<lambda>u. \<not> reserved_by cid s u) rows))"

definition replace_slices_for_compact_with_version ::
  "int \<Rightarrow> slice_db \<Rightarrow> nat \<Rightarrow> slice_desc list \<Rightarrow> bytes \<Rightarrow> slice_desc list \<Rightarrow> meta_error + slice_db" where
  "replace_slices_for_compact_with_version now db cid new_slices delayed_data expected =
     (if delayed_data \<noteq> [] \<and> length delayed_data mod 20 \<noteq> 0 then Inl invalid_delayed
      else rbind (ok_or invalid_delayed (decode_delayed_data delayed_data)) (\<lambda>delayed.
        let current = map row_desc (filter (\<lambda>r. chunk_id (row_desc r) = cid) (slice_rows db));
            current_map = map_of (rev (map (\<lambda>s. (slice_id s, (sl_offset s, sl_length s))) current))
        in if length current \<noteq> length expected then Inl (ContinueRetry CompactConflict)
           else if \<not> list_all (slice_unchanged current_map) expected then Inl (ContinueRetry CompactConflict)
           else case consume_reservations cid new_slices (uncommitted_rows db) of
                  None \<Rightarrow> Inl (ContinueRetry CompactConflict)
                | Some rows \<Rightarrow> Inr (swap_slices now (db\<lparr>uncommitted_rows := rows\<rparr>) cid new_slices delayed)))"

section \<open>Uncommitted slices and delayed deletion\<close>

definition record_uncommitted_slice ::
  "int \<Rightarrow> slice_db \<Rightarrow> nat \<Rightarrow> nat \<Rightarrow> nat \<Rightarrow> string \<Rightarrow> nat \<times> slice_db" where
  "record_uncommitted_slice now db sid cid sz operation =
     (next_uncommitted db,
      db\<lparr>uncommitted_rows := uncommitted_rows db @
            [\<lparr>un_id = next_uncommitted db, un_slice_id = sid, un_chunk_id = cid, un_size = sz,
              un_created_at = now, un_operation = operation, un_status = UnPending\<rparr>],
         next_uncommitted := next_uncommitted db + 1\<rparr>)"

definition confirm_slice_committed :: "slice_db \<Rightarrow> nat \<Rightarrow> slice_db" where
  "confirm_slice_committed db sid =
     db\<lparr>uncommitted_rows := filter (\<lambda>u. un_slice_id u \<noteq> sid) (uncommitted_rows db)\<rparr>"

text \<open>One stale pending record: an orphan when no slice row names it, a leftover otherwise.\<close>

definition sweep_pending ::
  "uncommitted_row \<Rightarrow> slice_db \<times> (nat \<times> nat) list \<Rightarrow> slice_db \<times> (nat \<times> nat) list" where
  "sweep_pending p acc =
     (let (db, cleaned) = acc
      in if \<not> list_ex (\<lambda>r. slice_id (row_desc r) = un_slice_id p) (slice_rows db)
         then (db\<lparr>uncommitted_rows := map (\<lambda>u. if un_id u = un_id p then u\<lparr>un_status := UnOrphan\<rparr> else u)
                     (uncommitted_rows db)\<rparr>,
               cleaned @ [(un_slice_id p, un_size p)])
         else (db\<lparr>uncommitted_rows := filter (\<lambda>u. un_id u \<noteq> un_id p) (uncommitted_rows db)\<rparr>, cleaned))"

definition cleanup_orphan_uncommitted_slices ::
  "int \<Rightarrow> slice_db \<Rightarrow> int \<Rightarrow> nat \<Rightarrow> (nat \<times> nat) list \<times> slice_db" where
  "cleanup_orphan_uncommitted_slices now db max_age batch =
     (let cutoff = now - max_age;
          pending = take batch (filter (\<lambda>u. un_status u = UnPending \<and> un_created_at u < cutoff) (uncommitted_rows db));
          orphans = take batch (filter (\<lambda>u. un_status u = UnOrphan) (uncommitted_rows db));
          (db', cleaned) = fold sweep_pending pending (db, [])
      in (cleaned @ map (\<lambda>u. (un_slice_id u, un_size u)) orphans, db'))"

definition delete_uncommitted_slices :: "slice_db \<Rightarrow> nat list \<Rightarrow> slice_db" where
  "delete_uncommitted_slices db ids =
     (if ids = [] then db
      else db\<lparr>uncommitted_rows := filter (\<lambda>u. un_slice_id u \<notin> set ids) (uncommitted_rows db)\<rparr>)"

text \<open>One delayed record of the batch; a pending one loses its slice rows and becomes \<^verbatim>\<open>meta_deleted\<close>.\<close>

definition process_delayed ::
  "delayed_row \<Rightarrow> slice_db \<times> (nat \<times> nat \<times> nat \<times> nat) list \<Rightarrow> slice_db \<times> (nat \<times> nat \<times> nat \<times> nat) list" where
  "process_delayed d acc =
     (let (db, ready) = acc; item = (dl_slice_id d, dl_offset d, dl_size d, dl_id d)
      in case dl_status d of
           MetaDeleted \<Rightarrow> (db, ready @ [item])
         | Retained \<Rightarrow> (db, ready)
         | Pending \<Rightarrow>
             (db\<lparr>slice_rows := filter (\<lambda>r. slice_id (row_desc r) \<noteq> dl_slice_id d) (slice_rows db),
                 delayed_rows := map (\<lambda>e. if dl_id e = dl_id d then d\<lparr>dl_status := MetaDeleted\<rparr> else e) (delayed_rows db)\<rparr>,
              ready @ [item]))"

definition process_delayed_slices ::
  "int \<Rightarrow> slice_db \<Rightarrow> nat \<Rightarrow> int \<Rightarrow> (nat \<times> nat \<times> nat \<times> nat) list \<times> slice_db" where
  "process_delayed_slices now db batch max_age =
     (let cutoff = now - max_age;
          batch_rows = take batch (filter (\<lambda>d. dl_created_at d \<le> cutoff \<and> dl_status d \<in> {Pending, MetaDeleted}) (delayed_rows db));
          (db', ready) = fold process_delayed batch_rows (db, [])
      in (ready, db'))"

definition confirm_delayed_deleted :: "slice_db \<Rightarrow> nat list \<Rightarrow> slice_db" where
  "confirm_delayed_deleted db ids =
     (if ids = [] then db
      else db\<lparr>delayed_rows := filter (\<lambda>d. dl_id d \<notin> set ids) (delayed_rows db)\<rparr>)"

section \<open>Counters\<close>

definition SLICE_ID_KEY :: string where "SLICE_ID_KEY = ''brewfs:next_slice_id''"
definition INODE_ID_KEY :: string where "INODE_ID_KEY = ''brewfs:next_inode_id''"

definition i64_max :: u64 where "i64_max = push_bit 63 1 - 1"

text \<open>
  The SQLite path of \<^verbatim>\<open>alloc_counter_id\<close>: one conditional update that returns the incremented value,
  of which the caller gets the predecessor.
\<close>

definition alloc_counter_id :: "slice_db \<Rightarrow> string \<Rightarrow> meta_error + (u64 \<times> slice_db)" where
  "alloc_counter_id db key =
     (case counters db key of
        None \<Rightarrow> Inl (Internal ''counter missing or overflowed'')
      | Some v \<Rightarrow>
          if \<not> v <s i64_max then Inl (Internal ''counter missing or overflowed'')
          else Inr (v, db\<lparr>counters := (counters db)(key \<mapsto> v + 1)\<rparr>))"

definition next_id :: "slice_db \<Rightarrow> string \<Rightarrow> meta_error + (u64 \<times> slice_db)" where
  "next_id db key =
     (if key = SLICE_ID_KEY \<or> key = INODE_ID_KEY then
        rbind (alloc_counter_id db key) (\<lambda>(v, db').
          if key = SLICE_ID_KEY \<and> decode_id v \<noteq> None
          then Inl (Internal ''ordinary slice allocator reached reserved shared-object IDs'')
          else Inr (v, db'))
      else Inl (NotSupported (''next_id not supported for key '' @ key)))"

section \<open>The ledger of shared objects\<close>

text \<open>
  The ledger row of a group holds the member count in its upper half and one retirement bit per
  slot in its lower half; a second row holds the publication bits.
\<close>

definition published_key :: "u64 \<Rightarrow> string" where
  "published_key grp = ledger_key grp @ ''/published''"

definition member_valid :: "u64 \<Rightarrow> nat \<times> (nat \<times> nat \<times> nat) \<Rightarrow> bool" where
  "member_valid grp sm = (case sm of (slot, (sid, cid, n)) \<Rightarrow>
     map_option unat (encode_id grp slot) = Some sid \<and> n \<noteq> 0 \<and> n \<le> 65536)"

definition register_coalesced_group ::
  "int \<Rightarrow> slice_db \<Rightarrow> u64 \<Rightarrow> (nat \<times> nat \<times> nat) list \<Rightarrow> meta_error + slice_db" where
  "register_coalesced_group now db grp members =
     (if members = [] \<or> 32 < length members then Inl (Internal ''invalid coalesced group'')
      else if \<not> list_all (member_valid grp) (enumerate 0 members) then Inl (Internal ''invalid coalesced member'')
      else if counters db (ledger_key grp) \<noteq> None \<or> counters db (published_key grp) \<noteq> None then Inl DatabaseError
      else Inr (fold (\<lambda>(sid, cid, n) db. snd (record_uncommitted_slice now db sid cid n ''coalesce'')) members
             (db\<lparr>counters := (counters db)(ledger_key grp \<mapsto> push_bit 32 (of_nat (length members)),
                                         published_key grp \<mapsto> 0)\<rparr>)))"

definition retire_coalesced_member :: "slice_db \<Rightarrow> u64 \<Rightarrow> nat \<Rightarrow> meta_error + (bool option \<times> slice_db)" where
  "retire_coalesced_member db grp slot =
     (case counters db (ledger_key grp) of
        None \<Rightarrow> Inr (None, db)
      | Some bits \<Rightarrow>
          let count = drop_bit 32 bits
          in if count \<le> of_nat slot \<or> 32 < count then Inl (Internal ''invalid coalesced retirement slot'')
             else let updated = bits OR push_bit slot 1;
                      all_dead = (updated AND 4294967295 = push_bit (unat count) 1 - 1)
                  in Inr (Some all_dead, db\<lparr>counters := (counters db)(ledger_key grp \<mapsto> updated)\<rparr>))"

definition forget_coalesced_group :: "slice_db \<Rightarrow> u64 \<Rightarrow> meta_error + slice_db" where
  "forget_coalesced_group db grp =
     (let live = (case counters db (ledger_key grp) of
                    None \<Rightarrow> False
                  | Some bits \<Rightarrow>
                      let count = drop_bit 32 bits
                      in count = 0 \<or> 32 < count \<or> bits AND 4294967295 \<noteq> push_bit (unat count) 1 - 1)
      in if live then Inl (Internal ''cannot forget live coalesced group'')
         else Inr (db\<lparr>counters := (counters db)(ledger_key grp := None, published_key grp := None)\<rparr>))"

definition consume_coalesced_reservation :: "slice_db \<Rightarrow> slice_desc \<Rightarrow> meta_error + (bool \<times> slice_db)" where
  "consume_coalesced_reservation db s =
     rbind (ok_or (Internal ''invalid coalesced ID'') (decode_id (of_nat (slice_id s)))) (\<lambda>(grp, slot).
     rbind (ok_or (Internal ''coalesced ledger missing'') (counters db (ledger_key grp))) (\<lambda>bits.
       if drop_bit 32 bits \<le> slot \<or> bits AND push_bit (unat slot) 1 \<noteq> 0
       then Inl (Internal ''coalesced member retired'')
       else rbind (ok_or (Internal ''coalesced publication ledger missing'') (counters db (published_key grp))) (\<lambda>published.
         if published AND push_bit (unat slot) 1 \<noteq> 0 then Inr (False, db)
         else let mine = (\<lambda>u. un_slice_id u = slice_id s \<and> un_chunk_id u = chunk_id s
                              \<and> un_size u = sl_length s \<and> un_status u = UnPending)
              in if length (filter mine (uncommitted_rows db)) \<noteq> 1 then Inl (Internal ''coalesced reservation lost'')
                 else Inr (True, db\<lparr>uncommitted_rows := filter (\<lambda>u. \<not> mine u) (uncommitted_rows db),
                          counters := (counters db)(published_key grp \<mapsto> published OR push_bit (unat slot) 1)\<rparr>))))"

section \<open>Row order\<close>

definition rows_ok :: "slice_db \<Rightarrow> bool" where
  "rows_ok db \<longleftrightarrow> sorted_wrt (<) (map row_id (slice_rows db)) \<and> (\<forall>r\<in>set (slice_rows db). row_id r < next_row db)"

lemma sort_key_sorted: "sorted (map f xs) \<Longrightarrow> sort_key f xs = xs"
  by (induction xs) (auto simp: insort_is_Cons)

lemma sorted_wrt_less_imp: "sorted_wrt (<) (xs :: nat list) \<Longrightarrow> sorted xs"
  by (simp add: strict_sorted_iff)

lemma rows_sort:
  assumes "sorted_wrt (<) (map row_id rows)"
  shows "sort_key row_id (filter P rows) = filter P rows"
proof (rule sort_key_sorted)
  have "sorted (map row_id rows)" using assms by (rule sorted_wrt_less_imp)
  then show "sorted (map row_id (filter P rows))" by (induction rows) auto
qed

lemma get_slices_rows:
  assumes "rows_ok db"
  shows "get_slices db cid = filter (\<lambda>s. chunk_id s = cid) (map row_desc (slice_rows db))"
  using assms by (simp add: get_slices_def rows_sort rows_ok_def filter_map comp_def)

lemma rows_ok_distinct: "rows_ok db \<Longrightarrow> distinct (map row_id (slice_rows db))"
  unfolding rows_ok_def using strict_sorted_iff by blast

lemma row_id_inj:
  assumes "distinct (map row_id rows)" and "x \<in> set rows" and "y \<in> set rows" and "row_id x = row_id y"
  shows "x = y"
  using assms by (metis distinct_map inj_onD)

lemma rows_ok_insert: "rows_ok db \<Longrightarrow> rows_ok (insert_slice db cid s)"
  by (auto simp: rows_ok_def insert_slice_def sorted_wrt_append less_Suc_eq)

lemma insert_slice_rows [simp]:
  "slice_rows (insert_slice db cid s) = slice_rows db @ [\<lparr>row_id = next_row db, row_desc = s\<lparr>chunk_id := cid\<rparr>\<rparr>]"
  "delayed_rows (insert_slice db cid s) = delayed_rows db"
  "uncommitted_rows (insert_slice db cid s) = uncommitted_rows db"
  "next_delayed (insert_slice db cid s) = next_delayed db"
  "next_uncommitted (insert_slice db cid s) = next_uncommitted db"
  by (simp_all add: insert_slice_def)

section \<open>Staging a reclamation\<close>

text \<open>Slices whose blocks garbage collection may delete, and slices that are mapped.\<close>

definition dead_ids :: "slice_db \<Rightarrow> nat set" where
  "dead_ids db = {dl_slice_id d |d. d \<in> set (delayed_rows db) \<and> dl_status d \<noteq> Retained}"

definition live_ids :: "slice_db \<Rightarrow> nat set" where
  "live_ids db = (slice_id \<circ> row_desc) ` set (slice_rows db)"

definition delayed_keys_ok :: "slice_db \<Rightarrow> bool" where
  "delayed_keys_ok db \<longleftrightarrow> distinct (map dl_id (delayed_rows db)) \<and> (\<forall>d\<in>set (delayed_rows db). dl_id d < next_delayed db)"

lemma stage_frame [simp]:
  "slice_rows (stage_slice_reclamation now db s b) = slice_rows db"
  "next_row (stage_slice_reclamation now db s b) = next_row db"
  "uncommitted_rows (stage_slice_reclamation now db s b) = uncommitted_rows db"
  "next_uncommitted (stage_slice_reclamation now db s b) = next_uncommitted db"
  "counters (stage_slice_reclamation now db s b) = counters db"
  by (simp_all add: stage_slice_reclamation_def Let_def split: option.splits)

lemma stage_delayed_keys:
  assumes "delayed_keys_ok db"
  shows "delayed_keys_ok (stage_slice_reclamation now db s b)"
proof (cases "find (delayed_match s) (delayed_rows db)")
  case None
  then show ?thesis
    using assms by (auto simp: stage_slice_reclamation_def delayed_keys_ok_def Let_def less_Suc_eq)
next
  case (Some d)
  have keys: "map dl_id (map (\<lambda>e. if dl_id e = k then r else e) rows) = map dl_id rows" if "dl_id r = k"
    for r k and rows :: "delayed_row list"
    using that by (induction rows) auto
  have "\<forall>e\<in>set (delayed_rows (stage_slice_reclamation now db s b)).
      dl_id e \<in> set (map dl_id (delayed_rows (stage_slice_reclamation now db s b)))" by simp
  moreover have "map dl_id (delayed_rows (stage_slice_reclamation now db s b)) = map dl_id (delayed_rows db)"
    using Some by (simp add: stage_slice_reclamation_def Let_def keys del: map_map)
  moreover have "next_delayed (stage_slice_reclamation now db s b) = next_delayed db"
    using Some by (simp add: stage_slice_reclamation_def Let_def)
  ultimately show ?thesis
    using assms unfolding delayed_keys_ok_def by (metis (no_types, lifting) imageE list.set_map)
qed

lemma stage_dead_ids:
  "dead_ids (stage_slice_reclamation now db s b) \<subseteq> dead_ids db \<union> (if b then {} else {slice_id s})"
proof (cases "find (delayed_match s) (delayed_rows db)")
  case None
  then show ?thesis by (auto simp: stage_slice_reclamation_def dead_ids_def Let_def)
next
  case (Some d)
  then show ?thesis
    by (auto simp: stage_slice_reclamation_def dead_ids_def Let_def split: if_splits)
qed

lemma stage_slice_dead:
  assumes "delayed_keys_ok db"
  shows "dead_ids db \<subseteq> dead_ids (stage_slice_reclamation now db s b)"
proof (cases "find (delayed_match s) (delayed_rows db)")
  case None
  then show ?thesis by (auto simp: stage_slice_reclamation_def dead_ids_def Let_def)
next
  case (Some d)
  then have d: "d \<in> set (delayed_rows db)" "dl_status d = Retained"
    by (auto simp: find_Some_iff delayed_match_def)
  have "dl_id e \<noteq> dl_id d" if "e \<in> set (delayed_rows db)" "dl_status e \<noteq> Retained" for e
    using assms d that unfolding delayed_keys_ok_def by (metis distinct_map inj_onD)
  then show ?thesis
    using Some by (fastforce simp: stage_slice_reclamation_def dead_ids_def Let_def)
qed

section \<open>Rewriting rows one at a time\<close>

text \<open>
  Truncation visits rows and replaces each by at most one shortened row of the same key and slice,
  staging a reclamation on the way. The contract of such a step, and what a loop of them does.
\<close>

locale row_rewrite =
  fixes f :: "slice_row \<Rightarrow> slice_db \<Rightarrow> slice_db" and g :: "slice_row \<Rightarrow> slice_row list"
  assumes f_rows: "x \<in> set (slice_rows db) \<Longrightarrow> distinct (map row_id (slice_rows db)) \<Longrightarrow>
      slice_rows (f x db) = concat (map (\<lambda>r. if r = x then g r else [r]) (slice_rows db))"
    and g_same: "y \<in> set (g x) \<Longrightarrow> row_id y = row_id x \<and> slice_id (row_desc y) = slice_id (row_desc x)
      \<and> chunk_id (row_desc y) = chunk_id (row_desc x)"
    and g_one: "length (g x) \<le> 1"
    and f_frame: "next_row (f x db) = next_row db" "uncommitted_rows (f x db) = uncommitted_rows db"
      "next_uncommitted (f x db) = next_uncommitted db" "counters (f x db) = counters db"
    and f_keys: "delayed_keys_ok db \<Longrightarrow> delayed_keys_ok (f x db)"
    and f_dead: "dead_ids (f x db) \<subseteq> dead_ids db \<union> (if g x = [] then {slice_id (row_desc x)} else {})"
begin

lemma g_cases: "g x = [] \<or> (\<exists>y. g x = [y] \<and> row_id y = row_id x \<and> slice_id (row_desc y) = slice_id (row_desc x)
    \<and> chunk_id (row_desc y) = chunk_id (row_desc x))"
  using g_one [of x] g_same [of _ x] by (cases "g x") auto

lemma rewritten_ids:
  "map row_id (concat (map (\<lambda>r. if P r then g r else [r]) rows)) =
   map row_id (filter (\<lambda>r. \<not> P r \<or> g r \<noteq> []) rows)"
proof (induction rows)
  case (Cons r rows)
  then show ?case using g_cases [of r] by auto
qed simp

lemma rewritten_slice_ids:
  "map (slice_id \<circ> row_desc) (concat (map (\<lambda>r. if P r then g r else [r]) rows)) =
   map (slice_id \<circ> row_desc) (filter (\<lambda>r. \<not> P r \<or> g r \<noteq> []) rows)"
proof (induction rows)
  case (Cons r rows)
  then show ?case using g_cases [of r] by auto
qed simp

lemma sorted_wrt_filter_map: "sorted_wrt (<) (map h rows) \<Longrightarrow> sorted_wrt (<) (map h (filter P rows))"
  for h :: "slice_row \<Rightarrow> nat"
  by (induction rows) auto

lemma distinct_filter_map: "distinct (map h rows) \<Longrightarrow> distinct (map h (filter P rows))"
  by (induction rows) auto

lemma fold_rows:
  assumes "distinct (map row_id (slice_rows db))" and "set xs \<subseteq> set (slice_rows db)" and "distinct xs"
  shows "slice_rows (fold f xs db) = concat (map (\<lambda>r. if r \<in> set xs then g r else [r]) (slice_rows db))"
  using assms
proof (induction xs arbitrary: db)
  case Nil
  then show ?case by (induction "slice_rows db") auto
next
  case (Cons x xs)
  let ?rows = "concat (map (\<lambda>r. if r = x then g r else [r]) (slice_rows db))"
  have rows: "slice_rows (f x db) = ?rows" using f_rows Cons.prems by simp
  have dist: "distinct (map row_id ?rows)"
    unfolding rewritten_ids using Cons.prems(1) by (rule distinct_filter_map)
  have sub: "set xs \<subseteq> set ?rows" using Cons.prems(2,3) by auto
  have other: "y \<notin> set xs" if "y \<in> set (g x)" for y
  proof
    assume "y \<in> set xs"
    then have "y \<in> set (slice_rows db)" "y \<noteq> x" using Cons.prems by auto
    moreover have "row_id y = row_id x" using g_same [OF that] by simp
    ultimately show False using row_id_inj [OF Cons.prems(1), of y x] Cons.prems(2) by simp
  qed
  have "concat (map (\<lambda>r. if r \<in> set xs then g r else [r]) (g x)) = g x"
    using g_cases [of x] other by auto
  then have "concat (map (\<lambda>r. if r \<in> set xs then g r else [r])
        (concat (map (\<lambda>r. if r = x then g r else [r]) rows)))
      = concat (map (\<lambda>r. if r \<in> set (x # xs) then g r else [r]) rows)" for rows
    using Cons.prems(3) by (induction rows) auto
  then show ?case
    using Cons.IH [of "f x db"] dist sub Cons.prems(3) by (simp add: rows)
qed

lemma fold_frame:
  "next_row (fold f xs db) = next_row db" "uncommitted_rows (fold f xs db) = uncommitted_rows db"
  "next_uncommitted (fold f xs db) = next_uncommitted db" "counters (fold f xs db) = counters db"
  by (induction xs arbitrary: db) (simp_all add: f_frame)

lemma fold_keys: "delayed_keys_ok db \<Longrightarrow> delayed_keys_ok (fold f xs db)"
  by (induction xs arbitrary: db) (simp_all add: f_keys)

lemma fold_dead:
  "dead_ids (fold f xs db) \<subseteq> dead_ids db \<union> {slice_id (row_desc x) |x. x \<in> set xs \<and> g x = []}"
proof (induction xs arbitrary: db)
  case (Cons x xs)
  have "dead_ids (fold f (x # xs) db) \<subseteq> dead_ids (f x db) \<union> {slice_id (row_desc y) |y. y \<in> set xs \<and> g y = []}"
    using Cons.IH [of "f x db"] by simp
  also have "\<dots> \<subseteq> dead_ids db \<union> {slice_id (row_desc y) |y. y \<in> set (x # xs) \<and> g y = []}"
    using f_dead [of x db] by (auto split: if_splits)
  finally show ?case .
qed auto

end

definition trim_row :: "nat \<Rightarrow> slice_row \<Rightarrow> slice_row list" where
  "trim_row cutoff r =
     (case trim_action (sl_offset (row_desc r)) (sl_length (row_desc r)) cutoff of
        TrimKeep \<Rightarrow> [r]
      | TrimDrop \<Rightarrow> []
      | TrimTo n \<Rightarrow> [r\<lparr>row_desc := (row_desc r)\<lparr>sl_length := n\<rparr>\<rparr>])"

lemma map_row_update:
  assumes "distinct (map row_id rows)" and "x \<in> set rows"
  shows "map (\<lambda>r. if row_id r = row_id x then h r else r) rows = concat (map (\<lambda>r. if r = x then [h r] else [r]) rows)"
proof -
  have "row_id r = row_id x \<longleftrightarrow> r = x" if "r \<in> set rows" for r
    using row_id_inj [OF assms(1) that assms(2)] by auto
  then have "map (\<lambda>r. if row_id r = row_id x then h r else r) rows = map (\<lambda>r. if r = x then h r else r) rows"
    by (intro map_cong) auto
  also have "\<dots> = concat (map (\<lambda>r. if r = x then [h r] else [r]) rows)"
    by (induction rows) auto
  finally show ?thesis .
qed

lemma filter_row_delete:
  assumes "distinct (map row_id rows)" and "x \<in> set rows"
  shows "filter (\<lambda>r. row_id r \<noteq> row_id x) rows = concat (map (\<lambda>r. if r = x then [] else [r]) rows)"
proof -
  have "row_id r = row_id x \<longleftrightarrow> r = x" if "r \<in> set rows" for r
    using row_id_inj [OF assms(1) that assms(2)] by auto
  then have "filter (\<lambda>r. row_id r \<noteq> row_id x) rows = filter (\<lambda>r. r \<noteq> x) rows"
    by (intro filter_cong) auto
  also have "\<dots> = concat (map (\<lambda>r. if r = x then [] else [r]) rows)"
    by (induction rows) auto
  finally show ?thesis .
qed

lemma slice_row_frame [simp]:
  "next_row (delete_slice_row i db) = next_row db" "next_row (set_slice_length i n db) = next_row db"
  "delayed_rows (delete_slice_row i db) = delayed_rows db" "delayed_rows (set_slice_length i n db) = delayed_rows db"
  "next_delayed (delete_slice_row i db) = next_delayed db" "next_delayed (set_slice_length i n db) = next_delayed db"
  "uncommitted_rows (delete_slice_row i db) = uncommitted_rows db"
  "uncommitted_rows (set_slice_length i n db) = uncommitted_rows db"
  "next_uncommitted (delete_slice_row i db) = next_uncommitted db"
  "next_uncommitted (set_slice_length i n db) = next_uncommitted db"
  "counters (delete_slice_row i db) = counters db" "counters (set_slice_length i n db) = counters db"
  "dead_ids (delete_slice_row i db) = dead_ids db" "dead_ids (set_slice_length i n db) = dead_ids db"
  "delayed_keys_ok (delete_slice_row i db) = delayed_keys_ok db"
  "delayed_keys_ok (set_slice_length i n db) = delayed_keys_ok db"
  by (simp_all add: delete_slice_row_def set_slice_length_def dead_ids_def delayed_keys_ok_def)

interpretation trim: row_rewrite "rewrite_row now cutoff" "trim_row cutoff" for now cutoff
proof (unfold_locales, goal_cases)
  case (1 x db)
  show ?case
  proof (cases "trim_action (sl_offset (row_desc x)) (sl_length (row_desc x)) cutoff")
    case TrimKeep
    then have "concat (map (\<lambda>r. if r = x then trim_row cutoff r else [r]) rows) = rows" for rows
      by (induction rows) (auto simp: trim_row_def)
    then show ?thesis using TrimKeep by (simp add: rewrite_row_def)
  next
    case TrimDrop
    then have "concat (map (\<lambda>r. if r = x then trim_row cutoff r else [r]) rows)
        = concat (map (\<lambda>r. if r = x then [] else [r]) rows)" for rows
      by (induction rows) (auto simp: trim_row_def)
    then show ?thesis
      using TrimDrop filter_row_delete [OF 1(2,1)] by (simp add: rewrite_row_def delete_slice_row_def)
  next
    case (TrimTo n)
    then have "concat (map (\<lambda>r. if r = x then trim_row cutoff r else [r]) rows)
        = concat (map (\<lambda>r. if r = x then [r\<lparr>row_desc := (row_desc r)\<lparr>sl_length := n\<rparr>\<rparr>] else [r]) rows)" for rows
      by (induction rows) (auto simp: trim_row_def)
    then show ?thesis
      using TrimTo map_row_update [OF 1(2,1)] by (simp add: rewrite_row_def set_slice_length_def)
  qed
next
  case (2 y x)
  then show ?case by (auto simp: trim_row_def split: trim_action_kind.splits)
next
  case (3 x)
  then show ?case by (simp add: trim_row_def split: trim_action_kind.splits)
next
  case (8 db x)
  then show ?case by (simp add: rewrite_row_def stage_delayed_keys split: trim_action_kind.splits)
next
  case (9 x db)
  have "dead_ids (stage_slice_reclamation now db (row_desc x) True) \<subseteq> dead_ids db"
    and "dead_ids (stage_slice_reclamation now db (row_desc x) False) \<subseteq> dead_ids db \<union> {slice_id (row_desc x)}"
    using stage_dead_ids [of now db "row_desc x" True] stage_dead_ids [of now db "row_desc x" False] by auto
  then show ?case by (auto simp: rewrite_row_def trim_row_def split: trim_action_kind.splits)
qed (simp_all add: rewrite_row_def split: trim_action_kind.splits)

interpretation dropping: row_rewrite "drop_row now" "\<lambda>r. []" for now
proof (unfold_locales, goal_cases)
  case (1 x db)
  then show ?case using filter_row_delete [of "slice_rows db" x] by (simp add: drop_row_def delete_slice_row_def)
next
  case (8 db x)
  then show ?case by (simp add: drop_row_def stage_delayed_keys)
next
  case (9 x db)
  then show ?case using stage_dead_ids [of now db "row_desc x" False] by (simp add: drop_row_def)
qed (simp_all add: drop_row_def)

section \<open>Truncation of the slice tables\<close>

lemma distinct_rows: "distinct (map row_id rows) \<Longrightarrow> distinct (filter P rows)"
  by (simp add: distinct_map)

lemma prune_rewrite_rows:
  assumes "rows_ok db" and "chunk_id_column ino cchunk = Inr cid"
  shows "\<exists>db'. prune_rewrite now ino cchunk coff db = Inr db'
    \<and> slice_rows db' = concat (map (\<lambda>r. if chunk_id (row_desc r) = cid then trim_row coff r else [r]) (slice_rows db))
    \<and> next_row db' = next_row db"
proof -
  let ?xs = "filter (\<lambda>r. chunk_id (row_desc r) = cid) (slice_rows db)"
  have dist: "distinct (map row_id (slice_rows db))" by (rule rows_ok_distinct [OF assms(1)])
  have "sort_key row_id ?xs = ?xs" using assms(1) by (simp add: rows_sort rows_ok_def)
  then have "prune_rewrite now ino cchunk coff db = Inr (fold (rewrite_row now coff) ?xs db)"
    by (simp add: prune_rewrite_def assms(2))
  moreover have "slice_rows (fold (rewrite_row now coff) ?xs db) =
      concat (map (\<lambda>r. if chunk_id (row_desc r) = cid then trim_row coff r else [r]) (slice_rows db))"
  proof -
    have "slice_rows (fold (rewrite_row now coff) ?xs db) =
        concat (map (\<lambda>r. if r \<in> set ?xs then trim_row coff r else [r]) (slice_rows db))"
      using dist distinct_rows by (intro trim.fold_rows) auto
    also have "\<dots> = concat (map (\<lambda>r. if chunk_id (row_desc r) = cid then trim_row coff r else [r]) (slice_rows db))"
      by (intro arg_cong [where f = concat] map_cong) auto
    finally show ?thesis .
  qed
  ultimately show ?thesis by (simp add: trim.fold_frame)
qed

lemma concat_if_filter: "concat (map (\<lambda>r. if P r then [] else [r]) rows) = filter (\<lambda>r. \<not> P r) rows"
  by (induction rows) auto

lemma prune_delete_rows:
  assumes "rows_ok db" and "chunk_id_column ino a = Inr ida" and "chunk_id_column ino b = Inr idb"
  shows "\<exists>db'. prune_delete now ino a b db = Inr db'
    \<and> slice_rows db' = filter (\<lambda>r. \<not> (ida \<le> chunk_id (row_desc r) \<and> chunk_id (row_desc r) < idb)) (slice_rows db)
    \<and> next_row db' = next_row db"
proof -
  let ?P = "\<lambda>r. ida \<le> chunk_id (row_desc r) \<and> chunk_id (row_desc r) < idb"
  have dist: "distinct (map row_id (slice_rows db))" by (rule rows_ok_distinct [OF assms(1)])
  have "slice_rows (fold (drop_row now) (filter ?P (slice_rows db)) db) =
      concat (map (\<lambda>r. if r \<in> set (filter ?P (slice_rows db)) then [] else [r]) (slice_rows db))"
    using dist distinct_rows by (intro dropping.fold_rows) auto
  also have "\<dots> = concat (map (\<lambda>r. if ?P r then [] else [r]) (slice_rows db))"
    by (intro arg_cong [where f = concat] map_cong) auto
  also have "\<dots> = filter (\<lambda>r. \<not> ?P r) (slice_rows db)" by (rule concat_if_filter)
  finally show ?thesis by (simp add: prune_delete_def assms(2,3) dropping.fold_frame)
qed

lemma trim_slices_Cons:
  "trim_slices_in_place (s # ss) c = trim_slices_in_place [s] c @ trim_slices_in_place ss c"
  by (simp add: trim_slices_in_place_def)

lemma trim_row_desc:
  "sl_offset (row_desc r) + sl_length (row_desc r) < u64_limit \<Longrightarrow>
   map row_desc (trim_row c r) = trim_slices_in_place [row_desc r] c"
  by (auto simp: trim_row_def trim_action_def trim_slices_in_place_def saturating_add_u64_def)

lemma rewritten_rows_desc:
  assumes "slices_bounded (map row_desc rows)"
  shows "map row_desc (concat (map (trim_row c) rows)) = trim_slices_in_place (map row_desc rows) c"
  using assms
proof (induction rows)
  case Nil
  show ?case by (simp add: trim_slices_in_place_def)
next
  case (Cons r rows)
  then show ?case
    using trim_slices_Cons [of "row_desc r" "map row_desc rows" c] trim_row_desc [of r c] by simp
qed

lemma filter_rewritten:
  assumes "\<And>r. \<forall>y\<in>set (g r). chunk_id (row_desc y) = chunk_id (row_desc r)"
  shows "filter (\<lambda>r. chunk_id (row_desc r) = c) (concat (map (\<lambda>r. if chunk_id (row_desc r) = cid then g r else [r]) rows))
    = (if c = cid then concat (map g (filter (\<lambda>r. chunk_id (row_desc r) = cid) rows))
       else filter (\<lambda>r. chunk_id (row_desc r) = c) rows)"
proof (induction rows)
  case (Cons r rows)
  have "chunk_id (row_desc r) = c \<Longrightarrow> filter (\<lambda>y. chunk_id (row_desc y) = c) (g r) = g r"
    and "chunk_id (row_desc r) \<noteq> c \<Longrightarrow> filter (\<lambda>y. chunk_id (row_desc y) = c) (g r) = []"
    using assms [of r] by (auto simp: filter_id_conv filter_empty_conv)
  with Cons show ?case by auto
qed simp

lemma trim_row_chunk: "\<forall>y\<in>set (trim_row c r). chunk_id (row_desc y) = chunk_id (row_desc r)"
  using trim.g_same by blast

lemma trim_row_shorter:
  "y \<in> set (trim_row c r) \<Longrightarrow>
   sl_offset (row_desc y) + sl_length (row_desc y) \<le> sl_offset (row_desc r) + sl_length (row_desc r)"
  by (auto simp: trim_row_def trim_action_def saturating_add_u64_def split: if_splits)

lemma rows_ok_filter:
  assumes "rows_ok db" and "map row_id (slice_rows db') = map row_id (filter P (slice_rows db))"
    and "next_row db' = next_row db"
  shows "rows_ok db'"
proof -
  have "sorted_wrt (<) (map row_id (slice_rows db'))"
    unfolding assms(2) using assms(1) trim.sorted_wrt_filter_map by (simp add: rows_ok_def)
  moreover have "\<forall>i\<in>set (map row_id (slice_rows db')). i < next_row db'"
    unfolding assms(2,3) using assms(1) by (simp add: rows_ok_def)
  ultimately show ?thesis by (simp add: rows_ok_def)
qed

lemma prune_rewrite_slices:
  assumes "rows_ok db" and "chunk_id_column ino cchunk = Inr cid" and "slices_bounded (map row_desc (slice_rows db))"
  shows "\<exists>db'. prune_rewrite now ino cchunk coff db = Inr db' \<and> rows_ok db'
    \<and> slices_bounded (map row_desc (slice_rows db'))
    \<and> (\<forall>c. get_slices db' c = (if c = cid then trim_slices_in_place (get_slices db c) coff else get_slices db c))"
proof -
  let ?g = "\<lambda>r. if chunk_id (row_desc r) = cid then trim_row coff r else [r]"
  obtain db' where db': "prune_rewrite now ino cchunk coff db = Inr db'"
    "slice_rows db' = concat (map ?g (slice_rows db))" "next_row db' = next_row db"
    using prune_rewrite_rows [OF assms(1,2)] by blast
  have "map row_id (slice_rows db') = map row_id (filter (\<lambda>r. \<not> chunk_id (row_desc r) = cid \<or> trim_row coff r \<noteq> []) (slice_rows db))"
    unfolding db'(2) by (rule trim.rewritten_ids)
  then have ok: "rows_ok db'"
    by (rule rows_ok_filter [OF assms(1) _ db'(3)])
  have bnd: "slices_bounded (map row_desc (slice_rows db'))"
    unfolding slices_bounded_def
  proof
    fix s assume "s \<in> set (map row_desc (slice_rows db'))"
    then obtain r y where "r \<in> set (slice_rows db)" "y \<in> set (?g r)" "s = row_desc y"
      by (auto simp: db'(2))
    then have "sl_offset s + sl_length s \<le> sl_offset (row_desc r) + sl_length (row_desc r)"
      using trim_row_shorter by (auto split: if_splits)
    moreover have "sl_offset (row_desc r) + sl_length (row_desc r) < u64_limit"
      using assms(3) \<open>r \<in> set (slice_rows db)\<close> by (simp add: slices_bounded_def)
    ultimately show "sl_offset s + sl_length s < u64_limit" by simp
  qed
  have "get_slices db' c = (if c = cid then trim_slices_in_place (get_slices db c) coff else get_slices db c)" for c
  proof -
    have "get_slices db' c = map row_desc (filter (\<lambda>r. chunk_id (row_desc r) = c) (concat (map ?g (slice_rows db))))"
      using get_slices_rows [OF ok] by (simp add: db'(2) filter_map comp_def)
    also have "\<dots> = (if c = cid then map row_desc (concat (map (trim_row coff) (filter (\<lambda>r. chunk_id (row_desc r) = cid) (slice_rows db))))
        else map row_desc (filter (\<lambda>r. chunk_id (row_desc r) = c) (slice_rows db)))"
      using filter_rewritten [of "trim_row coff" c cid "slice_rows db"] trim_row_chunk by simp
    also have "\<dots> = (if c = cid then trim_slices_in_place (get_slices db c) coff else get_slices db c)"
    proof -
      have "slices_bounded (map row_desc (filter (\<lambda>r. chunk_id (row_desc r) = cid) (slice_rows db)))"
        using assms(3) by (simp add: slices_bounded_def)
      then show ?thesis
        using get_slices_rows [OF assms(1)] rewritten_rows_desc by (simp add: filter_map comp_def)
    qed
    finally show ?thesis .
  qed
  with db'(1) ok bnd show ?thesis by blast
qed

lemma prune_delete_slices:
  assumes "rows_ok db" and "chunk_id_column ino a = Inr ida" and "chunk_id_column ino b = Inr idb"
  shows "\<exists>db'. prune_delete now ino a b db = Inr db' \<and> rows_ok db'
    \<and> (\<forall>c. get_slices db' c = (if ida \<le> c \<and> c < idb then [] else get_slices db c))"
proof -
  let ?P = "\<lambda>r. ida \<le> chunk_id (row_desc r) \<and> chunk_id (row_desc r) < idb"
  obtain db' where db': "prune_delete now ino a b db = Inr db'"
    "slice_rows db' = filter (\<lambda>r. \<not> ?P r) (slice_rows db)" "next_row db' = next_row db"
    using prune_delete_rows [OF assms] by blast
  have ok: "rows_ok db'"
    using rows_ok_filter [OF assms(1) _ db'(3)] db'(2) by simp
  have "get_slices db' c = (if ida \<le> c \<and> c < idb then [] else get_slices db c)" for c
  proof -
    have split: "filter (\<lambda>r. chunk_id (row_desc r) = c) (filter (\<lambda>r. \<not> ?P r) rows)
        = (if ida \<le> c \<and> c < idb then [] else filter (\<lambda>r. chunk_id (row_desc r) = c) rows)" for rows
      by (induction rows) auto
    have "get_slices db' c = map row_desc (filter (\<lambda>r. chunk_id (row_desc r) = c) (filter (\<lambda>r. \<not> ?P r) (slice_rows db)))"
      unfolding get_slices_rows [OF ok] db'(2) filter_map comp_def ..
    also have "\<dots> = (if ida \<le> c \<and> c < idb then [] else get_slices db c)"
      unfolding split get_slices_rows [OF assms(1)] filter_map comp_def by simp
    finally show ?thesis .
  qed
  with db'(1) ok show ?thesis by blast
qed

section \<open>Content after a truncation\<close>

lemma trim_slices_owner:
  assumes "slices_bounded slices"
  shows "chunk_byte blk bs (trim_slices_in_place slices c) x = (if x < c then chunk_byte blk bs slices x else Some 0)"
  using assms
proof (induction slices rule: rev_induct)
  case Nil
  then show ?case by (simp add: trim_slices_in_place_def chunk_byte_def)
next
  case (snoc s slices)
  have IH: "chunk_byte blk bs (trim_slices_in_place slices c) x = (if x < c then chunk_byte blk bs slices x else Some 0)"
    using snoc by simp
  have bnd: "sl_end s = sl_offset s + sl_length s" using snoc.prems by simp
  let ?t = "if sl_end s > c then s\<lparr>sl_length := c - sl_offset s\<rparr> else s"
  have app: "trim_slices_in_place (slices @ [s]) c =
      trim_slices_in_place slices c @ (if sl_offset s < c then [?t] else [])"
    by (simp add: trim_slices_in_place_def)
  have byte: "chunk_byte blk bs (ss @ [u]) x =
      (if covers u x then slice_byte blk bs (slice_id u) (x - sl_offset u) else chunk_byte blk bs ss x)" for ss u
    by (simp add: chunk_byte_def)
  show ?case
  proof (cases "sl_offset s < c")
    case True
    have "covers ?t x \<longleftrightarrow> covers s x \<and> x < c" using True bnd by (auto simp: covers_def)
    moreover have "slice_id ?t = slice_id s" "sl_offset ?t = sl_offset s" by simp_all
    ultimately show ?thesis unfolding app using True by (simp add: byte IH)
  next
    case False
    then have "covers s x \<Longrightarrow> \<not> x < c" by (auto simp: covers_def)
    then show ?thesis unfolding app using False by (auto simp: byte IH)
  qed
qed

lemma chunk_id_column_eq:
  "chunk_id_column ino idx = Inr cid \<longleftrightarrow>
     0 \<le> ino \<and> cid = nat ino * CHUNK_ID_BASE + idx \<and> nat ino * CHUNK_ID_BASE + idx < u64_limit div 2"
proof -
  let ?c = "nat ino * CHUNK_ID_BASE + idx"
  have col: "chunk_id_column ino idx = Inr cid \<longleftrightarrow> chunk_id_for ino idx = Inr cid \<and> cid < u64_limit div 2"
    by (auto simp: chunk_id_column_def split: sum.splits)
  have "?c < u64_limit div 2 \<Longrightarrow> ?c < u64_limit"
    by (simp add: u64_limit_def)
  then show ?thesis
    unfolding col chunk_id_for_Inr by auto
qed

text \<open>The plan in exact arithmetic: the chunk that is cut, and the range of chunks that is dropped.\<close>

lemma truncate_plan_exact:
  assumes "new_size < old_size" and "0 < csize" and "old_size < u64_limit"
  shows "truncate_plan new_size old_size csize = Some
    \<lparr>cutoff_chunk = new_size div csize, cutoff_offset = new_size mod csize,
     drop_start = (if new_size mod csize = 0 then new_size div csize else new_size div csize + 1),
     old_chunk_count = div_ceil old_size csize\<rparr>"
proof -
  have "old_size div csize \<le> old_size" by simp
  moreover have "old_size mod csize \<noteq> 0 \<Longrightarrow> old_size div csize + 1 \<le> old_size"
  proof -
    assume "old_size mod csize \<noteq> 0"
    have "old_size div csize \<le> old_size div csize * csize" using assms(2) by simp
    moreover have "old_size div csize * csize + old_size mod csize = old_size" by (rule div_mult_mod_eq)
    ultimately show ?thesis using \<open>old_size mod csize \<noteq> 0\<close> by linarith
  qed
  ultimately have "div_ceil old_size csize \<le> old_size"
    unfolding div_ceil_def by simp
  with assms(3) have "div_ceil old_size csize < u64_limit" by linarith
  moreover have "new_size div csize + 1 < u64_limit"
    using assms(1,3) div_le_dividend [of new_size csize] by linarith
  ultimately have "add_u64 (new_size div csize) 1 = new_size div csize + 1"
    and "add_u64 (old_size div csize) (if old_size mod csize = 0 then 0 else 1) = div_ceil old_size csize"
    by (simp_all add: add_u64_def div_ceil_def)
  then show ?thesis
    using assms by (simp add: truncate_plan_def Let_def)
qed

text \<open>What truncation leaves of the slices of each chunk: the chunk of the cut is trimmed, the later ones are emptied.\<close>

lemma prune_slices_for_truncate_rows:
  assumes "rows_ok db" and "slices_bounded (map row_desc (slice_rows db))"
    and "new_size < old_size" and "0 < csize" and "old_size < u64_limit" and "0 \<le> ino"
    and "nat ino * CHUNK_ID_BASE + div_ceil old_size csize < u64_limit div 2" and ccn: "new_size div csize < div_ceil old_size csize"
  obtains db2 db1 where "prune_slices_for_truncate now db ino new_size old_size csize = Inr db2"
    and "\<And>c. get_slices db1 c = (if 0 < new_size mod csize \<and> c = nat ino * CHUNK_ID_BASE + new_size div csize
           then trim_slices_in_place (get_slices db c) (new_size mod csize) else get_slices db c)"
    and "\<And>c. get_slices db2 c = (if nat ino * CHUNK_ID_BASE + (if new_size mod csize = 0 then new_size div csize else new_size div csize + 1) \<le> c
           \<and> c < nat ino * CHUNK_ID_BASE + div_ceil old_size csize then [] else get_slices db1 c)"
proof -
  let ?base = "nat ino * CHUNK_ID_BASE" and ?n = "div_ceil old_size csize"
  let ?cc = "new_size div csize" and ?co = "new_size mod csize"
  let ?ds = "if ?co = 0 then ?cc else ?cc + 1"
  have col: "chunk_id_column ino idx = Inr (?base + idx)" if "idx \<le> ?n" for idx
    using that assms(6,7) by (simp add: chunk_id_column_eq)
  obtain db1 where db1: "(if ?co > 0 then prune_rewrite now ino ?cc ?co db else Inr db) = Inr db1" "rows_ok db1"
    and cut: "\<And>c. get_slices db1 c =
      (if ?co > 0 \<and> c = ?base + ?cc then trim_slices_in_place (get_slices db c) ?co else get_slices db c)"
    using prune_rewrite_slices [OF assms(1) col [of ?cc] assms(2), of now ?co] ccn assms(1) by (cases "?co > 0") auto
  obtain db2 where db2: "(if ?ds < ?n then prune_delete now ino ?ds ?n db1 else Inr db1) = Inr db2"
    and drop: "\<And>c. get_slices db2 c = (if ?base + ?ds \<le> c \<and> c < ?base + ?n then [] else get_slices db1 c)"
  proof (cases "?ds < ?n")
    case True
    then show ?thesis
      using prune_delete_slices [OF db1(2) col [of ?ds] col [of ?n], of now] that by auto
  next
    case False
    then have "\<not> (?base + ?ds \<le> c \<and> c < ?base + ?n)" for c by linarith
    then have "get_slices db1 c = (if ?base + ?ds \<le> c \<and> c < ?base + ?n then [] else get_slices db1 c)" for c
      by (rule if_not_P [symmetric])
    moreover have "(if ?ds < ?n then prune_delete now ino ?ds ?n db1 else Inr db1) = Inr db1"
      using False by (rule if_not_P)
    ultimately show ?thesis by (rule that [rotated])
  qed
  have "prune_slices_for_truncate now db ino new_size old_size csize = Inr db2"
    unfolding prune_slices_for_truncate_def apply_truncate_plan_def truncate_plan_exact [OF assms(3-5)] option.case truncate_plan_rec.select_convs
      db1(1) using db2 by simp
  then show thesis using cut drop by (rule that)
qed

text \<open>Where a position of a chunk lies relative to the cut.\<close>

lemma chunk_position_cut:
  fixes csize :: nat
  assumes "x < csize"
  shows "idx < new_size div csize \<Longrightarrow> idx * csize + x < new_size"
    and "idx = new_size div csize \<Longrightarrow> idx * csize + x < new_size \<longleftrightarrow> x < new_size mod csize"
    and "new_size div csize < idx \<Longrightarrow> \<not> idx * csize + x < new_size"
proof -
  have split: "new_size div csize * csize + new_size mod csize = new_size" by (rule div_mult_mod_eq)
  show "idx * csize + x < new_size" if "idx < new_size div csize"
  proof -
    have "(idx + 1) * csize \<le> new_size div csize * csize" using that by (intro mult_le_mono1) simp
    then show ?thesis using split assms unfolding add_mult_distrib by linarith
  qed
  show "idx * csize + x < new_size \<longleftrightarrow> x < new_size mod csize" if "idx = new_size div csize" using split that by (metis add_less_cancel_left)
  show "\<not> idx * csize + x < new_size" if "new_size div csize < idx"
  proof -
    have "(new_size div csize + 1) * csize \<le> idx * csize" using that by (intro mult_le_mono1) simp
    moreover have "new_size mod csize < csize" using assms by simp
    ultimately show ?thesis using split unfolding add_mult_distrib by linarith
  qed
qed

text \<open>
  Truncation of a file's slice tables, for a file whose chunk identifiers fit their column: every byte below the
  new size keeps its value, every byte from the new size up to the old last chunk reads as zero, and no other chunk
  changes.
\<close>

lemma prune_slices_for_truncate_content:
  assumes "rows_ok db" and "slices_bounded (map row_desc (slice_rows db))"
    and "new_size < old_size" and "0 < csize" and "old_size < u64_limit" and "0 \<le> ino"
    and "nat ino * CHUNK_ID_BASE + div_ceil old_size csize < u64_limit div 2"
  shows "\<exists>db'. prune_slices_for_truncate now db ino new_size old_size csize = Inr db'
    \<and> (\<forall>blk bs idx x. idx < div_ceil old_size csize \<and> x < csize \<longrightarrow>
         chunk_byte blk bs (get_slices db' (nat ino * CHUNK_ID_BASE + idx)) x =
         (if idx * csize + x < new_size
          then chunk_byte blk bs (get_slices db (nat ino * CHUNK_ID_BASE + idx)) x else Some 0))
    \<and> (\<forall>cid. cid < nat ino * CHUNK_ID_BASE \<or> nat ino * CHUNK_ID_BASE + div_ceil old_size csize \<le> cid \<longrightarrow>
         get_slices db' cid = get_slices db cid)"
proof -
  let ?base = "nat ino * CHUNK_ID_BASE" and ?n = "div_ceil old_size csize"
  let ?cc = "new_size div csize" and ?co = "new_size mod csize"
  have "?cc * csize < ?n * csize" using div_mult_mod_eq [of new_size csize] div_ceil_ge [OF assms(4), of old_size] assms(3) by linarith
  then have ccn: "?cc < ?n" by simp
  obtain db2 db1 where
    res: "prune_slices_for_truncate now db ino new_size old_size csize = Inr db2"
    and cut: "\<And>c. get_slices db1 c = (if 0 < ?co \<and> c = ?base + ?cc then trim_slices_in_place (get_slices db c) ?co else get_slices db c)"
    and drop: "\<And>c. get_slices db2 c = (if ?base + (if ?co = 0 then ?cc else ?cc + 1) \<le> c \<and> c < ?base + ?n then [] else get_slices db1 c)"
    by (rule prune_slices_for_truncate_rows [OF assms ccn, of now]) blast
  have bounded: "slices_bounded (get_slices db c)" for c
    using assms(2) by (auto simp: get_slices_rows [OF assms(1)] slices_bounded_def)
  have "chunk_byte blk bs (get_slices db2 (?base + idx)) x =
      (if idx * csize + x < new_size then chunk_byte blk bs (get_slices db (?base + idx)) x else Some 0)"
    if "idx < ?n" "x < csize" for blk bs idx x
  proof -
    note P = chunk_position_cut [OF that(2), where idx = idx and new_size = new_size]
    have byte: "chunk_byte blk bs [] x = Some 0" by (simp add: chunk_byte_def)
    consider "idx < ?cc" | "idx = ?cc" | "?cc < idx" by linarith
    then show ?thesis
    proof cases
      case 1
      then show ?thesis using P(1) cut drop by simp
    next
      case 2
      then show ?thesis
        using P(2) cut drop trim_slices_owner [OF bounded] that(1) byte by (cases "?co = 0") simp_all
    next
      case 3
      then show ?thesis using P(3) drop that(1) byte by simp
    qed
  qed
  moreover have "get_slices db2 cid = get_slices db cid" if "cid < ?base \<or> ?base + ?n \<le> cid" for cid
    using that cut drop ccn by auto
  ultimately show ?thesis using res by blast
qed

definition two_slice_db :: slice_db where
  "two_slice_db = \<lparr>slice_rows =
       [\<lparr>row_id = 1, row_desc = \<lparr>slice_id = 7, chunk_id = 3000000000, sl_offset = 0, sl_length = 10\<rparr>\<rparr>,
        \<lparr>row_id = 2, row_desc = \<lparr>slice_id = 8, chunk_id = 3000000001, sl_offset = 0, sl_length = 4\<rparr>\<rparr>],
     next_row = 3, delayed_rows = [], next_delayed = 1, uncommitted_rows = [], next_uncommitted = 1,
     counters = Map.empty\<rparr>"

end
