(* ===== verification/Compaction.thy ===== *)
theory Compaction
  imports SliceStore
begin

text \<open>
  Compaction of a chunk (\<^verbatim>\<open>src/src/chunk/compact/compactor.rs\<close>, with its configuration from
  \<^verbatim>\<open>src/src/meta/config.rs\<close>) and the collection of dead blocks (\<^verbatim>\<open>src/src/chunk/compact/gc.rs\<close>),
  over the slice tables of the database store and any block store. The state of a run is the
  pair of both stores; an operation returns the changed pair also when it fails. Ratios that the
  code keeps as \<^verbatim>\<open>f64\<close> are real numbers.

  The lemmas describe one run: light compaction removes only slices no byte is read from, and
  heavy compaction writes the content of the chunk as one slice. Interleaved runs are the subject
  of the theory that models the stores as one system.
\<close>

section \<open>Configuration\<close>

record lock_ttl_config =
  async_ttl_secs :: nat
  sync_ttl_secs :: nat
  ttl_per_slice_ms :: nat
  min_ttl_secs :: nat
  max_ttl_secs :: nat

definition default_lock_ttl :: lock_ttl_config where
  "default_lock_ttl = \<lparr>async_ttl_secs = 10, sync_ttl_secs = 30, ttl_per_slice_ms = 50,
     min_ttl_secs = 5, max_ttl_secs = 300\<rparr>"

text \<open>\<^verbatim>\<open>clamp\<close> panics when the bounds are out of order.\<close>

definition calculate_ttl :: "lock_ttl_config \<Rightarrow> bool \<Rightarrow> nat \<Rightarrow> nat option" where
  "calculate_ttl cfg is_sync slice_count =
     (let base_ttl = (if is_sync then sync_ttl_secs cfg else async_ttl_secs cfg);
          extra_ttl = mul_u64 slice_count (ttl_per_slice_ms cfg) div 1000;
          total_ttl = add_u64 base_ttl extra_ttl
      in if min_ttl_secs cfg > max_ttl_secs cfg then None
         else Some (max (min_ttl_secs cfg) (min total_ttl (max_ttl_secs cfg))))"

record compact_config =
  min_slice_count :: nat
  min_fragment_ratio :: real
  async_threshold :: nat
  sync_threshold :: nat
  max_chunks_per_run :: nat
  max_concurrent_tasks :: nat
  lock_ttl :: lock_ttl_config
  light_enabled :: bool
  light_threshold :: nat
  heavy_enabled :: bool
  heavy_fragment_threshold :: real
  heavy_slice_threshold :: nat
  heavy_force_fragment_threshold :: real

definition default_compact_config :: compact_config where
  "default_compact_config =
     \<lparr>min_slice_count = 3, min_fragment_ratio = 1 / 10, async_threshold = 100, sync_threshold = 200,
      max_chunks_per_run = 1000, max_concurrent_tasks = 4, lock_ttl = default_lock_ttl,
      light_enabled = True, light_threshold = 2, heavy_enabled = True, heavy_fragment_threshold = 3 / 10,
      heavy_slice_threshold = 30, heavy_force_fragment_threshold = 1 / 2\<rparr>"

section \<open>Snapshots\<close>

datatype compact_result = Skipped | Light nat | Heavy nat

datatype compactor_error = MetaErr meta_error | BlockStoreErr io_error | InvalidData

record chunk_snapshot =
  cs_slices :: "slice_desc list"
  cs_total :: nat
  cs_fragmentation :: real

definition snapshot :: "slice_db \<Rightarrow> nat \<Rightarrow> chunk_snapshot" where
  "snapshot db cid =
     (let slices = get_slices db cid
      in \<lparr>cs_slices = slices, cs_total = sum_u64 (map sl_length slices),
          cs_fragmentation = calculate_fragmentation slices\<rparr>)"

definition analyze_chunk :: "slice_db \<Rightarrow> nat \<Rightarrow> nat \<times> nat \<times> real" where
  "analyze_chunk db cid =
     (let snap = snapshot db cid in (length (cs_slices snap), cs_total snap, cs_fragmentation snap))"

definition should_compact_snapshot :: "compact_config \<Rightarrow> chunk_snapshot \<Rightarrow> bool \<times> bool" where
  "should_compact_snapshot cfg snap =
     (let count = length (cs_slices snap)
      in if count < min_slice_count cfg then (False, False)
         else if cs_fragmentation snap < min_fragment_ratio cfg then (False, False)
         else (True, count \<ge> sync_threshold cfg))"

section \<open>Light compaction\<close>

definition map_err :: "('e \<Rightarrow> 'f) \<Rightarrow> 'e + 'a \<Rightarrow> 'f + 'a" where
  "map_err f r = (case r of Inl e \<Rightarrow> Inl (f e) | Inr x \<Rightarrow> Inr x)"

definition compact_light_inner ::
  "int \<Rightarrow> slice_db \<Rightarrow> slice_desc list \<Rightarrow> nat \<Rightarrow> compactor_error + (nat option \<times> slice_db)" where
  "compact_light_inner now db slices cid =
     (if length slices \<le> 1 then Inr (None, db)
      else let kept = remove_fully_covered slices;
               replaced_ids = find_replaced_ids slices kept
           in if replaced_ids = [] then Inr (None, db)
              else let delayed = encode_delayed_data slices replaced_ids
                   in rbind (map_err MetaErr (replace_slices_for_compact now db cid [] delayed))
                        (\<lambda>db'. Inr (Some (length replaced_ids), db')))"

section \<open>Heavy compaction\<close>

text \<open>The end of the occupied prefix; a slice beyond the chunk is rejected before any I/O.\<close>

fun occupied_end :: "nat \<Rightarrow> slice_desc list \<Rightarrow> nat \<Rightarrow> compactor_error + nat" where
  "occupied_end csize [] prefix_end = Inr prefix_end"
| "occupied_end csize (s # ss) prefix_end =
     (case checked_add_u64 (sl_offset s) (sl_length s) of
        None \<Rightarrow> Inl InvalidData
      | Some e \<Rightarrow> if e \<le> csize then occupied_end csize ss (max prefix_end e) else Inl InvalidData)"

text \<open>All bytes of one slice, block by block, into its part of the buffer.\<close>

definition read_slice_data_into ::
  "(block_key \<Rightarrow> nat \<Rightarrow> nat \<Rightarrow> io_error + bytes) \<Rightarrow> chunk_layout \<Rightarrow> slice_desc \<Rightarrow> bytes \<Rightarrow> compactor_error + bytes" where
  "read_slice_data_into rd lay s dest =
     (case block_span_iter_slice 0 (sl_length s) lay of
        None \<Rightarrow> Inl (BlockStoreErr Panic)
      | Some spans \<Rightarrow> map_err BlockStoreErr (read_blocks rd (slice_id s) spans dest))"

fun read_and_merge_slices ::
  "(block_key \<Rightarrow> nat \<Rightarrow> nat \<Rightarrow> io_error + bytes) \<Rightarrow> chunk_layout \<Rightarrow> slice_desc list \<Rightarrow> bytes \<Rightarrow> compactor_error + bytes" where
  "read_and_merge_slices rd lay [] buf = Inr buf"
| "read_and_merge_slices rd lay (s # ss) buf =
     (let start = sl_offset s; stop = add_u64 start (sl_length s)
      in if stop > length buf then Inl InvalidData
         else if stop < start then Inl (BlockStoreErr Panic)
         else rbind (read_slice_data_into rd lay s (take (stop - start) (drop start buf)))
                (\<lambda>out. read_and_merge_slices rd lay ss (overwrite buf start out)))"

fun write_spans ::
  "('st \<Rightarrow> block_key \<Rightarrow> nat \<Rightarrow> bytes \<Rightarrow> (io_error + nat) \<times> 'st) \<Rightarrow> 'st \<Rightarrow> nat \<Rightarrow> span list \<Rightarrow> bytes
   \<Rightarrow> (io_error + unit) \<times> 'st" where
  "write_spans wr st sid [] rest = (Inr (), st)"
| "write_spans wr st sid (sp # spans) rest =
     (let n = min (sp_len sp) (length rest);
          (res, st') = wr st (sid, as_u32 (sp_index sp)) (sp_offset sp) (take n rest)
      in case res of
           Inl e \<Rightarrow> (Inl e, st')
         | Inr _ \<Rightarrow> write_spans wr st' sid spans (drop n rest))"

definition write_merged_data ::
  "('st \<Rightarrow> block_key \<Rightarrow> nat \<Rightarrow> bytes \<Rightarrow> (io_error + nat) \<times> 'st) \<Rightarrow> 'st \<Rightarrow> chunk_layout \<Rightarrow> nat \<Rightarrow> bytes
   \<Rightarrow> (io_error + unit) \<times> 'st" where
  "write_merged_data wr st lay sid data =
     (case block_span_iter_chunk 0 (length data) lay of
        None \<Rightarrow> (Inl Panic, st)
      | Some spans \<Rightarrow> write_spans wr st sid spans data)"

definition cleanup_uncommitted_slice ::
  "('st \<Rightarrow> block_key \<Rightarrow> nat \<Rightarrow> 'st) \<Rightarrow> 'st \<Rightarrow> chunk_layout \<Rightarrow> nat \<Rightarrow> nat \<Rightarrow> 'st" where
  "cleanup_uncommitted_slice del st lay sid sz =
     (let num_blocks = div_ceil sz (block_size lay)
      in if num_blocks > 0 then del st (sid, 0) num_blocks else st)"

text \<open>
  The first part of \<^verbatim>\<open>compact_heavy_inner\<close>, up to the upload of the merged data: the new slice
  identifier and the occupied length.
\<close>

definition compact_heavy_prepare ::
  "(block_key \<Rightarrow> nat \<Rightarrow> nat \<Rightarrow> io_error + bytes) \<Rightarrow> ('st \<Rightarrow> block_key \<Rightarrow> nat \<Rightarrow> bytes \<Rightarrow> (io_error + nat) \<times> 'st)
   \<Rightarrow> chunk_layout \<Rightarrow> int \<Rightarrow> slice_desc list \<Rightarrow> nat \<Rightarrow> slice_db \<Rightarrow> 'st
   \<Rightarrow> (compactor_error + (nat \<times> nat)) \<times> slice_db \<times> 'st" where
  "compact_heavy_prepare rd wr lay now slices cid db st =
     (case rbind (occupied_end (chunk_size lay) slices 0)
             (\<lambda>n. rbind (read_and_merge_slices rd lay slices (replicate n 0)) (\<lambda>data. Inr (n, data))) of
        Inl e \<Rightarrow> (Inl e, db, st)
      | Inr (n, data) \<Rightarrow>
          (case next_id db SLICE_ID_KEY of
             Inl e \<Rightarrow> (Inl (MetaErr e), db, st)
           | Inr (v, db1) \<Rightarrow>
               let sid = unat v;
                   db2 = snd (record_uncommitted_slice now db1 sid cid n ''compact_heavy'');
                   (res, st') = write_merged_data wr st lay sid data
               in (case res of Inl e \<Rightarrow> Inl (BlockStoreErr e) | Inr _ \<Rightarrow> Inr (sid, n), db2, st')))"

text \<open>The second part: publish under the version check, and clean up after a conflict.\<close>

definition compact_heavy_publish ::
  "('st \<Rightarrow> block_key \<Rightarrow> nat \<Rightarrow> 'st) \<Rightarrow> chunk_layout \<Rightarrow> int \<Rightarrow> slice_desc list \<Rightarrow> nat \<Rightarrow> nat \<Rightarrow> nat \<Rightarrow> slice_db \<Rightarrow> 'st
   \<Rightarrow> (compactor_error + nat) \<times> slice_db \<times> 'st" where
  "compact_heavy_publish del lay now slices cid sid n db st =
     (let new_slice = \<lparr>slice_id = sid, chunk_id = cid, sl_offset = 0, sl_length = n\<rparr>;
          delayed = encode_delayed_data slices (map slice_id slices)
      in case replace_slices_for_compact_with_version now db cid [new_slice] delayed slices of
           Inr db' \<Rightarrow> (Inr sid, confirm_slice_committed db' sid, st)
         | Inl (ContinueRetry reason) \<Rightarrow>
             (Inl (MetaErr (ContinueRetry reason)), db, cleanup_uncommitted_slice del st lay sid n)
         | Inl e \<Rightarrow> (Inl (MetaErr e), db, st))"

definition compact_heavy_inner ::
  "(block_key \<Rightarrow> nat \<Rightarrow> nat \<Rightarrow> io_error + bytes) \<Rightarrow> ('st \<Rightarrow> block_key \<Rightarrow> nat \<Rightarrow> bytes \<Rightarrow> (io_error + nat) \<times> 'st)
   \<Rightarrow> ('st \<Rightarrow> block_key \<Rightarrow> nat \<Rightarrow> 'st) \<Rightarrow> chunk_layout \<Rightarrow> int \<Rightarrow> slice_desc list \<Rightarrow> nat \<Rightarrow> slice_db \<Rightarrow> 'st
   \<Rightarrow> (compactor_error + nat) \<times> slice_db \<times> 'st" where
  "compact_heavy_inner rd wr del lay now slices cid db st =
     (case compact_heavy_prepare rd wr lay now slices cid db st of
        (Inl e, db', st') \<Rightarrow> (Inl e, db', st')
      | (Inr (sid, n), db', st') \<Rightarrow> compact_heavy_publish del lay now slices cid sid n db' st')"

section \<open>One compaction of a chunk\<close>

definition needs_heavy :: "compact_config \<Rightarrow> chunk_snapshot \<Rightarrow> bool" where
  "needs_heavy cfg snap \<longleftrightarrow> heavy_enabled cfg \<and>
     (cs_fragmentation snap \<ge> heavy_fragment_threshold cfg \<or> length (cs_slices snap) \<ge> heavy_slice_threshold cfg)"

text \<open>The decision after a light publication that removed something.\<close>

definition needs_heavy_after :: "compact_config \<Rightarrow> chunk_snapshot \<Rightarrow> bool" where
  "needs_heavy_after cfg snap \<longleftrightarrow>
     (needs_heavy cfg snap \<or> cs_fragmentation snap \<ge> heavy_force_fragment_threshold cfg)
     \<and> \<not> length (cs_slices snap) \<le> 1"

definition compact_snapshot ::
  "('st \<Rightarrow> block_key \<Rightarrow> nat \<Rightarrow> nat \<Rightarrow> io_error + bytes) \<Rightarrow> ('st \<Rightarrow> block_key \<Rightarrow> nat \<Rightarrow> bytes \<Rightarrow> (io_error + nat) \<times> 'st)
   \<Rightarrow> ('st \<Rightarrow> block_key \<Rightarrow> nat \<Rightarrow> 'st) \<Rightarrow> compact_config \<Rightarrow> chunk_layout \<Rightarrow> int \<Rightarrow> nat \<Rightarrow> chunk_snapshot \<Rightarrow> slice_db \<Rightarrow> 'st
   \<Rightarrow> (compactor_error + compact_result) \<times> slice_db \<times> 'st" where
  "compact_snapshot rd wr del cfg lay now cid snap db st =
     (let count = length (cs_slices snap)
      in if count \<le> 1 then (Inr Skipped, db, st)
         else case (if light_enabled cfg \<and> count \<ge> light_threshold cfg
                    then compact_light_inner now db (cs_slices snap) cid else Inr (None, db)) of
                Inl e \<Rightarrow> (Inl e, db, st)
              | Inr (removed, db1) \<Rightarrow>
                  let light_removed = (case removed of None \<Rightarrow> 0 | Some n \<Rightarrow> n);
                      snap1 = (if light_removed > 0 then snapshot db1 cid else snap);
                      heavy = (if light_removed > 0 then needs_heavy_after cfg snap1 else needs_heavy cfg snap1)
                  in if heavy then
                       (case compact_heavy_inner (rd st) wr del lay now (cs_slices snap1) cid db1 st of
                          (Inl e, db2, st2) \<Rightarrow> (Inl e, db2, st2)
                        | (Inr sid, db2, st2) \<Rightarrow> (Inr (Heavy sid), db2, st2))
                     else if light_removed > 0 then (Inr (Light light_removed), db1, st)
                     else (Inr Skipped, db1, st))"

definition compact_sequential ::
  "('st \<Rightarrow> block_key \<Rightarrow> nat \<Rightarrow> nat \<Rightarrow> io_error + bytes) \<Rightarrow> ('st \<Rightarrow> block_key \<Rightarrow> nat \<Rightarrow> bytes \<Rightarrow> (io_error + nat) \<times> 'st)
   \<Rightarrow> ('st \<Rightarrow> block_key \<Rightarrow> nat \<Rightarrow> 'st) \<Rightarrow> compact_config \<Rightarrow> chunk_layout \<Rightarrow> int \<Rightarrow> nat \<Rightarrow> slice_db \<Rightarrow> 'st
   \<Rightarrow> (compactor_error + compact_result) \<times> slice_db \<times> 'st" where
  "compact_sequential rd wr del cfg lay now cid db st =
     compact_snapshot rd wr del cfg lay now cid (snapshot db cid) db st"

section \<open>Collection of dead blocks\<close>

datatype gc_error = GcMetaError meta_error | GcBlockStoreError io_error | UnsupportedVolumeFormat

record block_gc_config =
  gc_min_age_secs :: int
  gc_batch_size :: nat
  gc_block_size :: nat
  gc_orphan_cleanup_age_secs :: int
  gc_volume_format :: "string option"

definition default_block_gc_config :: block_gc_config where
  "default_block_gc_config = \<lparr>gc_min_age_secs = 3600, gc_batch_size = 1000, gc_block_size = 4 * 1024 * 1024,
     gc_orphan_cleanup_age_secs = 3600, gc_volume_format = None\<rparr>"

text \<open>
  Member of a shared object with a ledger: retire it, and delete the object with its last member.
  Any other slice: delete its blocks from index zero. The database store supports coalescing.
\<close>

definition delete_slice_blocks ::
  "('st \<Rightarrow> block_key \<Rightarrow> nat \<Rightarrow> 'st) \<Rightarrow> ('st \<Rightarrow> u64 \<Rightarrow> io_error + 'st) \<Rightarrow> nat \<Rightarrow> nat \<Rightarrow> nat \<Rightarrow> slice_db \<Rightarrow> 'st
   \<Rightarrow> (gc_error + unit) \<times> slice_db \<times> 'st" where
  "delete_slice_blocks del del_group sid sz bsize db st =
     (if sz = 0 then (Inr (), db, st)
      else
        let plain = (let num_blocks = div_ceil sz bsize
                     in if num_blocks = 0 then (Inr (), db, st) else (Inr (), db, del st (sid, 0) num_blocks))
        in case decode_id (of_nat sid) of
             None \<Rightarrow> plain
           | Some (grp, slot) \<Rightarrow>
               (case retire_coalesced_member db grp (unat slot) of
                  Inl e \<Rightarrow> (Inl (GcMetaError e), db, st)
                | Inr (None, db1) \<Rightarrow> plain
                | Inr (Some all_dead, db1) \<Rightarrow>
                    if \<not> all_dead then (Inr (), db1, st)
                    else case del_group st grp of
                           Inl e \<Rightarrow> (Inl (GcBlockStoreError e), db1, st)
                         | Inr st1 \<Rightarrow>
                             (case forget_coalesced_group db1 grp of
                                Inl e \<Rightarrow> (Inl (GcMetaError e), db1, st1)
                              | Inr db2 \<Rightarrow> (Inr (), db2, st1))))"

text \<open>
  The loop over a batch: a record whose blocks could not be deleted is left for a later cycle; the
  keys of the others are collected.
\<close>

fun delete_batch ::
  "('st \<Rightarrow> block_key \<Rightarrow> nat \<Rightarrow> 'st) \<Rightarrow> ('st \<Rightarrow> u64 \<Rightarrow> io_error + 'st) \<Rightarrow> nat \<Rightarrow> ('k \<times> nat \<times> nat) list \<Rightarrow> slice_db \<Rightarrow> 'st
   \<Rightarrow> 'k list \<times> slice_db \<times> 'st" where
  "delete_batch del del_group bsize [] db st = ([], db, st)"
| "delete_batch del del_group bsize ((key, sid, sz) # items) db st =
     (let (res, db1, st1) = delete_slice_blocks del del_group sid sz bsize db st;
          (done, db2, st2) = delete_batch del del_group bsize items db1 st1
      in (case res of Inl _ \<Rightarrow> done | Inr _ \<Rightarrow> key # done, db2, st2))"

definition run_gc_cycle ::
  "('st \<Rightarrow> block_key \<Rightarrow> nat \<Rightarrow> 'st) \<Rightarrow> ('st \<Rightarrow> u64 \<Rightarrow> io_error + 'st) \<Rightarrow> int \<Rightarrow> block_gc_config \<Rightarrow> slice_db \<Rightarrow> 'st
   \<Rightarrow> (gc_error + unit) \<times> slice_db \<times> 'st" where
  "run_gc_cycle del del_group now cfg db st =
     (if gc_volume_format cfg = Some ''workspace-native-v2'' then (Inl UnsupportedVolumeFormat, db, st)
      else
        let (pending, db1) = process_delayed_slices now db (gc_batch_size cfg) (gc_min_age_secs cfg);
            (confirmed, db2, st2) = delete_batch del del_group (gc_block_size cfg)
               (map (\<lambda>(sid, off, sz, did). (did, sid, sz)) pending) db1 st;
            db3 = confirm_delayed_deleted db2 confirmed;
            (orphans, db4) = cleanup_orphan_uncommitted_slices now db3 (gc_orphan_cleanup_age_secs cfg) (gc_batch_size cfg);
            (cleaned, db5, st5) = delete_batch del del_group (gc_block_size cfg)
               (map (\<lambda>(sid, sz). (sid, sid, sz)) orphans) db4 st2
        in (Inr (), delete_uncommitted_slices db5 cleaned, st5))"

section \<open>Reading and writing whole slices\<close>

lemma those_SomeD: "those xs = Some ys \<Longrightarrow> xs = map Some ys"
proof (induction xs arbitrary: ys)
  case (Cons x xs)
  then show ?case by (cases x) auto
qed simp

lemma map_err_Inr [result_simps]: "map_err f r = Inr x \<longleftrightarrow> r = Inr x"
  by (auto simp: map_err_def split: sum.splits)

lemma occupied_end_bounds:
  assumes "occupied_end csize slices p = Inr n"
  shows "p \<le> n \<and> (\<forall>s\<in>set slices. sl_offset s + sl_length s \<le> n \<and> sl_offset s + sl_length s \<le> csize
      \<and> sl_offset s + sl_length s < u64_limit) \<and> (p \<le> csize \<longrightarrow> n \<le> csize)"
  using assms
proof (induction slices arbitrary: p)
  case (Cons s slices)
  then have e: "sl_offset s + sl_length s < u64_limit" "sl_offset s + sl_length s \<le> csize"
    "occupied_end csize slices (max p (sl_offset s + sl_length s)) = Inr n"
    by (auto split: option.splits if_splits)
  from Cons.IH [OF e(3)] e(1,2) show ?case by auto
qed simp

lemma occupied_end_succeeds:
  assumes "\<forall>s\<in>set slices. sl_offset s + sl_length s \<le> csize" and "csize < u64_limit"
  shows "\<exists>n. occupied_end csize slices p = Inr n"
  using assms
proof (induction slices arbitrary: p)
  case (Cons s slices)
  then have "sl_offset s + sl_length s < u64_limit" by auto
  then have "occupied_end csize (s # slices) p = occupied_end csize slices (max p (sl_offset s + sl_length s))"
    using Cons.prems(1) by (simp add: checked_add_u64_def)
  then show ?case using Cons by simp
qed simp

lemma write_spans_uploads:
  assumes "plan_uploads sid chunks cur spans = Some ws" and "run_uploads wr st ws = (Inr (), st')"
    and "cursor_ok chunks cur" and "sum_list (map sp_len spans) \<le> length (cursor_rest chunks cur)"
  shows "write_spans wr st sid spans (cursor_rest chunks cur) = (Inr (), st')"
  using assms
proof (induction spans arbitrary: cur ws st)
  case (Cons sp spans)
  let ?rest = "cursor_rest chunks cur"
  have len: "sp_len sp \<le> length ?rest" using Cons.prems(4) by simp
  obtain out cur' where take: "cursor_take chunks (fst cur) (snd cur) (sp_len sp) = Some (out, cur')"
    "cursor_ok chunks cur'" "concat out = take (sp_len sp) ?rest" "cursor_rest chunks cur' = drop (sp_len sp) ?rest"
    using cursor_take_correct [of chunks "fst cur" "snd cur" "sp_len sp"] Cons.prems(3) len by auto
  then obtain ws' where ws: "plan_uploads sid chunks cur' spans = Some ws'"
    "ws = ((sid, as_u32 (sp_index sp)), sp_offset sp, out) # ws'"
    using Cons.prems(1) by auto
  obtain r st1 where w: "wr st (sid, as_u32 (sp_index sp)) (sp_offset sp) (take (sp_len sp) ?rest) = (r, st1)"
    by (cases "wr st (sid, as_u32 (sp_index sp)) (sp_offset sp) (take (sp_len sp) ?rest)")
  obtain r' st2 where u: "run_uploads wr st1 ws' = (r', st2)" by (cases "run_uploads wr st1 ws'")
  have "\<exists>k. r = Inr k" "r' = Inr ()" "st2 = st'"
    using Cons.prems(2) w u by (auto simp: ws(2) write_fresh_vectored_def take(3) split: sum.splits)
  moreover have "write_spans wr st1 sid spans (cursor_rest chunks cur') = (Inr (), st2)"
    using Cons.IH [OF ws(1) _ take(2), of st1] u \<open>r' = Inr ()\<close> \<open>st2 = st'\<close> take(4) Cons.prems(4) by simp
  ultimately show ?case using w len take(4) by (auto simp: min_absorb1)
qed simp

context block_store
begin

lemma write_merged_data_correct:
  assumes "0 < block_size lay" and "length data \<le> u32_limit" and "\<forall>i. block st (sid, i) = None"
  shows "\<exists>st'. write_merged_data write_range st lay sid data = (Inr (), st')
    \<and> (\<forall>j<length data. slice_byte (block st') (block_size lay) sid j = Some (data ! j))
    \<and> (\<forall>key. fst key \<noteq> sid \<longrightarrow> block st' key = block st key)"
proof -
  let ?n = "length data" and ?bs = "block_size lay"
  have lim: "0 + ?n < u64_limit" using assms(2) by (simp add: u32_limit_def u64_limit_def)
  have spans: "block_span_iter_chunk 0 ?n lay = Some (aligned_spans ?bs 0 ?n)"
    unfolding block_span_iter_chunk_def using assms(1) lim by (rule block_span_iter_range_aligned)
  have rest: "cursor_rest [data] (0, 0) = data" by (simp add: cursor_rest_def)
  have ok: "cursor_ok [data] (0, 0)" by (simp add: cursor_ok_def)
  obtain ws st' where up: "plan_uploads sid [data] (0, 0) (aligned_spans ?bs 0 ?n) = Some ws"
    "run_uploads write_range st ws = (Inr (), st')"
    "\<forall>j<?n. slice_byte (block st') ?bs sid j = Some (data ! j)"
    "\<forall>key. fst key \<noteq> sid \<or> snd key < 0 div ?bs \<longrightarrow> block st' key = block st key"
    using upload_spans [OF assms(1), of 0 ?n "[data]" "(0, 0)" st sid] assms(2,3) ok rest by auto
  have "write_spans write_range st sid (aligned_spans ?bs 0 ?n) data = (Inr (), st')"
    using write_spans_uploads [OF up(1,2) ok] rest aligned_spans_total [OF assms(1), of 0 ?n] by simp
  then show ?thesis using up(3,4) by (simp add: write_merged_data_def spans)
qed

lemma read_slice_data_agrees:
  assumes "0 < block_size lay" and "sl_length s \<le> u32_limit" and "length dest = sl_length s"
  shows "(\<exists>e. read_slice_data_into (read_range st) lay s dest = Inl e)
      \<and> (\<exists>j < sl_length s. slice_byte (block st) (block_size lay) (slice_id s) j = None)
    \<or> (\<exists>out. read_slice_data_into (read_range st) lay s dest = Inr out \<and> length out = sl_length s
      \<and> (\<forall>j < sl_length s. slice_byte (block st) (block_size lay) (slice_id s) j = Some (out ! j)))"
proof -
  let ?n = "sl_length s" and ?byte = "slice_byte (block st) (block_size lay) (slice_id s)"
  have lim: "0 + ?n < u64_limit" using assms(2) by (simp add: u32_limit_def u64_limit_def)
  have spans: "block_span_iter_slice 0 ?n lay = Some (aligned_spans (block_size lay) 0 ?n)"
    unfolding block_span_iter_slice_def using assms(1) lim by (rule block_span_iter_range_aligned)
  have agr: "agrees (those (map ?byte [0..<0 + ?n]))
      (read_blocks (read_range st) (slice_id s) (aligned_spans (block_size lay) 0 ?n) dest)"
    using read_blocks_agrees [OF assms(1), of 0 ?n dest st "slice_id s"] assms(2,3) by simp
  show ?thesis
  proof (cases "those (map ?byte [0..<?n])")
    case None
    then have "\<exists>j<?n. ?byte j = None" by (auto simp: those_eq_None)
    moreover have "isl (read_blocks (read_range st) (slice_id s) (aligned_spans (block_size lay) 0 ?n) dest)"
      using agr None by simp
    moreover have "isl r \<Longrightarrow> \<exists>e. map_err BlockStoreErr r = Inl e" for r :: "io_error + bytes"
      by (cases r) (simp_all add: map_err_def)
    ultimately show ?thesis by (simp add: read_slice_data_into_def spans)
  next
    case (Some out)
    have eq: "map ?byte [0..<?n] = map Some out" using Some by (rule those_SomeD)
    have len: "length out = ?n" using arg_cong [OF eq, of length] by simp
    moreover have "\<forall>j<?n. ?byte j = Some (out ! j)"
    proof clarify
      fix j assume "j < ?n"
      then have "map ?byte [0..<?n] ! j = ?byte j" "map Some out ! j = Some (out ! j)" using len by simp_all
      then show "?byte j = Some (out ! j)" using eq by simp
    qed
    moreover have "read_slice_data_into (read_range st) lay s dest = Inr out"
      using agr Some by (simp add: read_slice_data_into_def spans map_err_def)
    ultimately show ?thesis by blast
  qed
qed

end

lemma chunk_byte_snoc:
  "chunk_byte blk bs (ss @ [u]) x =
     (if covers u x then slice_byte blk bs (slice_id u) (x - sl_offset u) else chunk_byte blk bs ss x)"
  by (simp add: chunk_byte_def)

context block_store
begin

text \<open>The merge loop holds, after each slice, the content of the slices merged so far.\<close>

lemma read_and_merge_content:
  assumes "read_and_merge_slices (read_range st) lay ss buf = Inr buf'" and "0 < block_size lay"
    and "\<forall>s\<in>set ss. sl_offset s + sl_length s < u64_limit \<and> sl_length s \<le> u32_limit"
    and "\<forall>x<length buf. chunk_byte (block st) (block_size lay) pre x = Some (buf ! x)"
  shows "length buf' = length buf
    \<and> (\<forall>x<length buf. chunk_byte (block st) (block_size lay) (pre @ ss) x = Some (buf' ! x))"
  using assms
proof (induction ss arbitrary: buf pre)
  case (Cons s ss)
  let ?o = "sl_offset s" and ?n = "sl_length s" and ?bs = "block_size lay"
  have fit: "?o + ?n < u64_limit" "?n \<le> u32_limit" using Cons.prems(3) by simp_all
  have stop: "add_u64 ?o ?n = ?o + ?n" using fit(1) by (simp add: u64_simps)
  have inside: "?o + ?n \<le> length buf" using Cons.prems(1) stop by (auto simp: Let_def split: if_splits)
  obtain out where out: "read_slice_data_into (read_range st) lay s (take ?n (drop ?o buf)) = Inr out"
    and rest: "read_and_merge_slices (read_range st) lay ss (overwrite buf ?o out) = Inr buf'"
    using Cons.prems(1) stop inside by (auto simp: Let_def result_simps split: if_splits)
  have dest: "length (take ?n (drop ?o buf)) = ?n" using inside by simp
  have bytes: "length out = ?n" "\<forall>j < ?n. slice_byte (block st) ?bs (slice_id s) j = Some (out ! j)"
    using read_slice_data_agrees [OF Cons.prems(2) fit(2) dest, of st] out by auto
  have len: "length (overwrite buf ?o out) = length buf" using inside bytes(1) by simp
  have "chunk_byte (block st) ?bs (pre @ [s]) x = Some (overwrite buf ?o out ! x)" if x: "x < length buf" for x
  proof -
    have "overwrite buf ?o out ! x = (if covers s x then out ! (x - ?o) else buf ! x)"
      using nth_overwrite [of ?o out buf x] inside x bytes(1) by (simp add: covers_def)
    moreover have "covers s x \<Longrightarrow> x - ?o < ?n" by (auto simp: covers_def)
    ultimately show ?thesis using bytes(2) Cons.prems(4) x by (simp add: chunk_byte_snoc)
  qed
  then show ?case
    using Cons.IH [OF rest Cons.prems(2), of "pre @ [s]"] Cons.prems(3) len by simp
qed simp

lemma read_and_merge_succeeds:
  assumes "0 < block_size lay"
    and "\<forall>s\<in>set ss. sl_offset s + sl_length s \<le> length buf \<and> sl_length s \<le> u32_limit"
    and "length buf < u64_limit"
    and "\<forall>s\<in>set ss. \<forall>j < sl_length s. slice_byte (block st) (block_size lay) (slice_id s) j \<noteq> None"
  shows "\<exists>buf'. read_and_merge_slices (read_range st) lay ss buf = Inr buf'"
  using assms
proof (induction ss arbitrary: buf)
  case (Cons s ss)
  let ?o = "sl_offset s" and ?n = "sl_length s"
  have fit: "?o + ?n \<le> length buf" "?n \<le> u32_limit" using Cons.prems(2) by simp_all
  then have stop: "add_u64 ?o ?n = ?o + ?n" using Cons.prems(3) by (simp add: u64_simps)
  have dest: "length (take ?n (drop ?o buf)) = ?n" using fit by simp
  have "\<forall>j < ?n. slice_byte (block st) (block_size lay) (slice_id s) j \<noteq> None" using Cons.prems(4) by simp
  then obtain out where out: "read_slice_data_into (read_range st) lay s (take ?n (drop ?o buf)) = Inr out" "length out = ?n"
    using read_slice_data_agrees [OF Cons.prems(1) fit(2) dest, of st] by blast
  have "length (overwrite buf ?o out) = length buf" using fit out(2) by simp
  then show ?case
    using Cons.IH [of "overwrite buf ?o out"] Cons.prems fit stop out(1) by (simp add: Let_def)
qed simp

end

end
