(* ===== verification/SliceEffects.thy ===== *)
theory SliceEffects
  imports Compaction "HOL-Library.Sublist"
begin

text \<open>
  What each operation on the slice tables does to the sets of slice identifiers the rest of the
  system depends on: the mapped ones, the ones with a deletion record, the reserved ones. An
  operation that only drops or shortens slices is one that \<open>shrinks\<close> the tables.
\<close>

section \<open>Views of the tables\<close>

definition sids :: "slice_db \<Rightarrow> nat list" where
  "sids db = map (slice_id \<circ> row_desc) (slice_rows db)"

definition resv_ids :: "slice_db \<Rightarrow> nat set" where
  "resv_ids db = un_slice_id ` set (uncommitted_rows db)"

definition pending_ids :: "slice_db \<Rightarrow> nat set" where
  "pending_ids db = un_slice_id ` {u \<in> set (uncommitted_rows db). un_status u = UnPending}"

definition row_key :: "slice_row \<Rightarrow> nat \<times> nat \<times> nat" where
  "row_key r = (slice_id (row_desc r), chunk_id (row_desc r), sl_offset (row_desc r))"

lemma live_ids_sids: "live_ids db = set (sids db)"
  by (simp add: live_ids_def sids_def)

lemma pending_idsI: "u \<in> set (uncommitted_rows db) \<Longrightarrow> un_status u = UnPending \<Longrightarrow> un_slice_id u \<in> pending_ids db"
  by (simp add: pending_ids_def)

lemma pending_idsE:
  assumes "i \<in> pending_ids db"
  obtains u where "u \<in> set (uncommitted_rows db)" "un_status u = UnPending" "un_slice_id u = i"
  using assms by (auto simp: pending_ids_def)

lemma pending_resv: "pending_ids db \<subseteq> resv_ids db"
  by (auto simp: pending_ids_def resv_ids_def)

lemma get_slices_ids: "rows_ok db \<Longrightarrow> slice_id ` set (get_slices db c) \<subseteq> live_ids db"
  by (auto simp: get_slices_rows live_ids_def)

lemma owner_live:
  assumes "rows_ok db" and "owner (get_slices db c) x = Some s"
  shows "slice_id s \<in> live_ids db"
  using get_slices_ids [OF assms(1)] owner_in_set [OF assms(2)] by blast

lemma map_get_slices:
  assumes "rows_ok db"
  shows "map slice_id (get_slices db c) = map fst (filter (\<lambda>(_, cid, _). cid = c) (map row_key (slice_rows db)))"
  by (simp add: get_slices_rows [OF assms] filter_map comp_def row_key_def)

section \<open>Shrinking the tables\<close>

definition shrinks :: "slice_db \<Rightarrow> slice_db \<Rightarrow> bool" where
  "shrinks db db' \<longleftrightarrow>
     rows_ok db' \<and> delayed_keys_ok db'
     \<and> subseq (map row_key (slice_rows db')) (map row_key (slice_rows db))
     \<and> (\<forall>r'\<in>set (slice_rows db'). \<exists>r\<in>set (slice_rows db).
          row_key r = row_key r' \<and> sl_length (row_desc r') \<le> sl_length (row_desc r))
     \<and> (\<forall>c x s'. owner (get_slices db' c) x = Some s' \<longrightarrow>
          (\<exists>s. owner (get_slices db c) x = Some s \<and> slice_id s = slice_id s' \<and> sl_offset s = sl_offset s'))
     \<and> uncommitted_rows db' = uncommitted_rows db \<and> counters db' = counters db"

lemma shrinks_refl: "rows_ok db \<Longrightarrow> delayed_keys_ok db \<Longrightarrow> shrinks db db"
  by (auto simp: shrinks_def)

lemma shrinksD:
  assumes "shrinks db db'"
  shows "rows_ok db'" and "delayed_keys_ok db'"
    and "subseq (map row_key (slice_rows db')) (map row_key (slice_rows db))"
    and "r' \<in> set (slice_rows db') \<Longrightarrow>
      \<exists>r\<in>set (slice_rows db). row_key r = row_key r' \<and> sl_length (row_desc r') \<le> sl_length (row_desc r)"
    and "owner (get_slices db' c) x = Some s' \<Longrightarrow>
      \<exists>s. owner (get_slices db c) x = Some s \<and> slice_id s = slice_id s' \<and> sl_offset s = sl_offset s'"
    and "uncommitted_rows db' = uncommitted_rows db" and "counters db' = counters db"
  using assms unfolding shrinks_def by blast+

lemma shrinks_trans:
  assumes "shrinks a b" and "shrinks b c"
  shows "shrinks a c"
  unfolding shrinks_def
proof (intro conjI ballI allI impI)
  show "subseq (map row_key (slice_rows c)) (map row_key (slice_rows a))"
    using shrinksD(3) [OF assms(2)] shrinksD(3) [OF assms(1)] by (rule subseq_order.order_trans)
next
  fix r assume "r \<in> set (slice_rows c)"
  from shrinksD(4) [OF assms(2) this] obtain r1 where r1: "r1 \<in> set (slice_rows b)" "row_key r1 = row_key r"
    "sl_length (row_desc r) \<le> sl_length (row_desc r1)" by blast
  from shrinksD(4) [OF assms(1) r1(1)] r1(2,3)
  show "\<exists>q\<in>set (slice_rows a). row_key q = row_key r \<and> sl_length (row_desc r) \<le> sl_length (row_desc q)"
    using order_trans by metis
next
  fix k x s assume "owner (get_slices c k) x = Some s"
  from shrinksD(5) [OF assms(2) this] obtain s1 where s1: "owner (get_slices b k) x = Some s1"
    "slice_id s1 = slice_id s" "sl_offset s1 = sl_offset s" by blast
  from shrinksD(5) [OF assms(1) s1(1)] s1(2,3)
  show "\<exists>t. owner (get_slices a k) x = Some t \<and> slice_id t = slice_id s \<and> sl_offset t = sl_offset s"
    by simp
qed (simp_all add: shrinksD [OF assms(1)] shrinksD [OF assms(2)])

lemma sids_keys: "sids db = map fst (map row_key (slice_rows db))"
  by (simp add: sids_def row_key_def comp_def)

lemma shrinks_sids: "shrinks db db' \<Longrightarrow> subseq (sids db') (sids db)"
  unfolding sids_keys by (rule subseq_map) (rule shrinksD(3))

lemma subseq_subset: "subseq xs ys \<Longrightarrow> set xs \<subseteq> set ys"
  by (induction rule: list_emb.induct) auto

lemma shrinks_live: "shrinks db db' \<Longrightarrow> live_ids db' \<subseteq> live_ids db"
  unfolding live_ids_sids by (rule subseq_subset) (rule shrinks_sids)

lemma sid_inj:
  assumes "distinct (sids db)" and "r \<in> set (slice_rows db)" and "x \<in> set (slice_rows db)"
    and "slice_id (row_desc r) = slice_id (row_desc x)"
  shows "r = x"
  using assms inj_onD [of "slice_id \<circ> row_desc" "set (slice_rows db)" r x] by (simp add: sids_def distinct_map)

lemma subseq_distinct: "subseq xs ys \<Longrightarrow> distinct ys \<Longrightarrow> distinct xs"
proof (induction rule: list_emb.induct)
  case (list_emb_Cons2 x y xs ys)
  then show ?case using subseq_subset [of xs ys] by auto
qed simp_all

lemma shrinks_chunk_ids:
  assumes "shrinks db db'" and "rows_ok db"
  shows "subseq (map slice_id (get_slices db' c)) (map slice_id (get_slices db c))"
  unfolding map_get_slices [OF assms(2)] map_get_slices [OF shrinksD(1) [OF assms(1)]]
  by (intro subseq_map subseq_filter shrinksD(3) [OF assms(1)])

section \<open>Truncation shrinks the tables\<close>

lemma trim_row_key: "y \<in> set (trim_row c r) \<Longrightarrow> row_key y = row_key r"
  by (auto simp: trim_row_def row_key_def split: trim_action_kind.splits)

lemma trim_row_le: "y \<in> set (trim_row c r) \<Longrightarrow> sl_length (row_desc y) \<le> sl_length (row_desc r)"
  by (auto simp: trim_row_def trim_action_def saturating_add_u64_def split: if_splits)

lemma subseq_rewrite:
  assumes "\<And>r y. y \<in> set (g r) \<Longrightarrow> row_key y = row_key r" and "\<And>r. length (g r) \<le> 1"
  shows "subseq (map row_key (concat (map g rows))) (map row_key rows)"
proof (induction rows)
  case (Cons r rows)
  show ?case
  proof (cases "g r")
    case (Cons y ys)
    then have "ys = []" "row_key y = row_key r" using assms(1) [of y r] assms(2) [of r] by auto
    then show ?thesis using Cons.IH Cons by simp
  qed (use Cons.IH in auto)
qed simp

lemma trim_slices_below:
  assumes "s \<in> set (trim_slices_in_place slices c) \<and> covers s x" and "slices_bounded slices"
  shows "x < c"
  using assms by (auto simp: trim_slices_in_place_def covers_def slices_bounded_def split: if_splits)

lemma trim_owner:
  assumes "slices_bounded slices" and "owner (trim_slices_in_place slices c) x = Some s'"
  shows "\<exists>s. owner slices x = Some s \<and> slice_id s = slice_id s' \<and> sl_offset s = sl_offset s'"
  using assms
proof (induction slices rule: rev_induct)
  case Nil
  then show ?case by (simp add: trim_slices_in_place_def)
next
  case (snoc u slices)
  have bnd: "sl_end u = sl_offset u + sl_length u" "slices_bounded slices" using snoc.prems by simp_all
  let ?t = "if sl_end u > c then u\<lparr>sl_length := c - sl_offset u\<rparr> else u"
  have app: "trim_slices_in_place (slices @ [u]) c =
      trim_slices_in_place slices c @ (if sl_offset u < c then [?t] else [])"
    by (simp add: trim_slices_in_place_def)
  have below: "x < c"
    using owner_in_set [OF snoc.prems(2)] snoc.prems(1) by (rule trim_slices_below)
  show ?case
  proof (cases "covers u x")
    case True
    then have "sl_offset u < c" "covers ?t x" using below bnd(1) by (auto simp: covers_def)
    then have "s' = ?t" using snoc.prems(2) by (simp add: app)
    then show ?thesis using True by simp
  next
    case False
    then have "\<not> covers ?t x" using bnd(1) by (auto simp: covers_def)
    then have "owner (trim_slices_in_place slices c) x = Some s'" using snoc.prems(2) by (simp add: app split: if_splits)
    then show ?thesis using snoc.IH [OF bnd(2)] False by simp
  qed
qed

lemma concat_trim_le:
  assumes "y \<in> set (concat (map (\<lambda>r. if P r then trim_row c r else [r]) rows))"
  shows "\<exists>r\<in>set rows. row_key r = row_key y \<and> sl_length (row_desc y) \<le> sl_length (row_desc r)"
proof -
  from assms obtain r where r: "r \<in> set rows" "y \<in> set (if P r then trim_row c r else [r])" by auto
  have "row_key r = row_key y \<and> sl_length (row_desc y) \<le> sl_length (row_desc r)"
    using r(2) trim_row_key [of y c r] trim_row_le [of y c r] by (cases "P r") auto
  with r(1) show ?thesis by blast
qed

lemma prune_rewrite_shrinks:
  assumes "rows_ok db" and "delayed_keys_ok db" and "slices_bounded (map row_desc (slice_rows db))"
    and "prune_rewrite now ino cchunk coff db = Inr db'"
  shows "shrinks db db'" and "dead_ids db' \<subseteq> dead_ids db \<union> live_ids db"
    and "distinct (sids db) \<Longrightarrow> dead_ids db' \<inter> live_ids db' \<subseteq> dead_ids db"
proof -
  obtain cid where cid: "chunk_id_column ino cchunk = Inr cid"
    using assms(4) by (auto simp: prune_rewrite_def result_simps)
  let ?xs = "filter (\<lambda>r. chunk_id (row_desc r) = cid) (slice_rows db)"
  let ?g = "\<lambda>r. if chunk_id (row_desc r) = cid then trim_row coff r else [r]"
  have "sort_key row_id ?xs = ?xs" using assms(1) by (simp add: rows_sort rows_ok_def)
  then have db': "db' = fold (rewrite_row now coff) ?xs db"
    using assms(4) cid by (simp add: prune_rewrite_def)
  have rows: "slice_rows db' = concat (map ?g (slice_rows db))"
    and sl: "rows_ok db'"
      "\<And>c. get_slices db' c = (if c = cid then trim_slices_in_place (get_slices db c) coff else get_slices db c)"
    using prune_rewrite_rows [OF assms(1) cid, of now coff] prune_rewrite_slices [OF assms(1) cid assms(3), of now coff] assms(4)
    by auto
  have key: "row_key y = row_key r" if "y \<in> set (?g r)" for r y
    using that trim_row_key [of y coff r] by (cases "chunk_id (row_desc r) = cid") auto
  have one: "length (?g r) \<le> 1" for r using trim.g_one [of coff r] by simp
  have bnd: "slices_bounded (get_slices db c)" for c
    using assms(3) by (auto simp: get_slices_rows [OF assms(1)] slices_bounded_def)
  have frame: "uncommitted_rows db' = uncommitted_rows db" "counters db' = counters db"
    unfolding db' by (simp_all add: trim.fold_frame)
  show "shrinks db db'"
    unfolding shrinks_def
  proof (intro conjI allI impI ballI)
    show "delayed_keys_ok db'" unfolding db' using assms(2) by (rule trim.fold_keys)
    show "subseq (map row_key (slice_rows db')) (map row_key (slice_rows db))"
      unfolding rows by (rule subseq_rewrite) (use key one in blast)+
    show "\<exists>r\<in>set (slice_rows db). row_key r = row_key r' \<and> sl_length (row_desc r') \<le> sl_length (row_desc r)"
      if "r' \<in> set (slice_rows db')" for r'
      using that unfolding rows by (rule concat_trim_le)
    show "\<exists>s. owner (get_slices db c) x = Some s \<and> slice_id s = slice_id s' \<and> sl_offset s = sl_offset s'"
      if "owner (get_slices db' c) x = Some s'" for c x s'
      using that trim_owner [OF bnd] unfolding sl(2) by (cases "c = cid") auto
  qed (use sl(1) frame in simp_all)
  have dead: "dead_ids db' \<subseteq> dead_ids db \<union> {slice_id (row_desc x) |x. x \<in> set ?xs \<and> trim_row coff x = []}"
    unfolding db' by (rule trim.fold_dead)
  then show "dead_ids db' \<subseteq> dead_ids db \<union> live_ids db"
    by (fastforce simp: live_ids_def)
  show "dead_ids db' \<inter> live_ids db' \<subseteq> dead_ids db" if dist: "distinct (sids db)"
  proof
    fix i assume i: "i \<in> dead_ids db' \<inter> live_ids db'"
    show "i \<in> dead_ids db"
    proof (rule ccontr)
      assume "i \<notin> dead_ids db"
      then obtain x where x: "x \<in> set ?xs" "trim_row coff x = []" "i = slice_id (row_desc x)" using i dead by blast
      obtain y where y: "y \<in> set (slice_rows db')" "slice_id (row_desc y) = i" using i by (auto simp: live_ids_def)
      then obtain r where r: "r \<in> set (slice_rows db)" "y \<in> set (?g r)" unfolding rows by auto
      then have "slice_id (row_desc r) = slice_id (row_desc x)" using key [OF r(2)] y(2) x(3) by (simp add: row_key_def)
      then have "r = x" using sid_inj [OF dist r(1), of x] x(1) by simp
      then show False using x(1,2) r(2) by simp
    qed
  qed
qed

lemma owner_filter_none:
  assumes "\<And>c. get_slices db' c = (if P c then [] else get_slices db c)"
    and "owner (get_slices db' c) x = Some s'"
  shows "\<exists>s. owner (get_slices db c) x = Some s \<and> slice_id s = slice_id s' \<and> sl_offset s = sl_offset s'"
  using assms(2) unfolding assms(1) by (cases "P c") auto

lemma prune_delete_shrinks:
  assumes "rows_ok db" and "delayed_keys_ok db" and "prune_delete now ino a b db = Inr db'"
  shows "shrinks db db'" and "dead_ids db' \<subseteq> dead_ids db \<union> live_ids db"
    and "distinct (sids db) \<Longrightarrow> dead_ids db' \<inter> live_ids db' \<subseteq> dead_ids db"
proof -
  obtain ida idb where ids: "chunk_id_column ino a = Inr ida" "chunk_id_column ino b = Inr idb"
    using assms(3) by (auto simp: prune_delete_def result_simps)
  let ?P = "\<lambda>r. ida \<le> chunk_id (row_desc r) \<and> chunk_id (row_desc r) < idb"
  have db': "db' = fold (drop_row now) (filter ?P (slice_rows db)) db"
    using assms(3) ids by (simp add: prune_delete_def)
  have rows: "slice_rows db' = filter (\<lambda>r. \<not> ?P r) (slice_rows db)"
    and sl: "rows_ok db'" "\<And>c. get_slices db' c = (if ida \<le> c \<and> c < idb then [] else get_slices db c)"
    using prune_delete_rows [OF assms(1) ids, of now] prune_delete_slices [OF assms(1) ids, of now] assms(3) by auto
  have frame: "uncommitted_rows db' = uncommitted_rows db" "counters db' = counters db"
    unfolding db' by (simp_all add: dropping.fold_frame)
  show "shrinks db db'"
    unfolding shrinks_def
  proof (intro conjI allI impI ballI)
    show "delayed_keys_ok db'" unfolding db' using assms(2) by (rule dropping.fold_keys)
    show "subseq (map row_key (slice_rows db')) (map row_key (slice_rows db))"
      unfolding rows by (intro subseq_map subseq_filter_left)
    show "\<exists>r\<in>set (slice_rows db). row_key r = row_key r' \<and> sl_length (row_desc r') \<le> sl_length (row_desc r)"
      if "r' \<in> set (slice_rows db')" for r'
      using that unfolding rows by auto
    show "\<exists>s. owner (get_slices db c) x = Some s \<and> slice_id s = slice_id s' \<and> sl_offset s = sl_offset s'"
      if "owner (get_slices db' c) x = Some s'" for c x s'
      using sl(2) that by (rule owner_filter_none)
  qed (use sl(1) frame in simp_all)
  have dead: "dead_ids db' \<subseteq> dead_ids db \<union> {slice_id (row_desc x) |x. x \<in> set (filter ?P (slice_rows db))}"
    unfolding db' using dropping.fold_dead [of now "filter ?P (slice_rows db)" db] by simp
  then show "dead_ids db' \<subseteq> dead_ids db \<union> live_ids db"
    by (fastforce simp: live_ids_def)
  show "dead_ids db' \<inter> live_ids db' \<subseteq> dead_ids db" if dist: "distinct (sids db)"
  proof
    fix i assume i: "i \<in> dead_ids db' \<inter> live_ids db'"
    show "i \<in> dead_ids db"
    proof (rule ccontr)
      assume "i \<notin> dead_ids db"
      then obtain x where x: "x \<in> set (filter ?P (slice_rows db))" "i = slice_id (row_desc x)" using i dead by blast
      obtain y where y: "y \<in> set (slice_rows db')" "slice_id (row_desc y) = i" using i by (auto simp: live_ids_def)
      then have "y \<in> set (slice_rows db)" "\<not> ?P y" unfolding rows by auto
      then show False using sid_inj [OF dist, of y x] x y(2) by auto
    qed
  qed
qed

lemma shrinks_distinct: "shrinks db db' \<Longrightarrow> distinct (sids db) \<Longrightarrow> distinct (sids db')"
  using shrinks_sids subseq_distinct by blast

lemma slices_bounded_shrinks:
  assumes "shrinks db db'" and "slices_bounded (map row_desc (slice_rows db))"
  shows "slices_bounded (map row_desc (slice_rows db'))"
  unfolding slices_bounded_def
proof
  fix s assume "s \<in> set (map row_desc (slice_rows db'))"
  then obtain r' where r': "r' \<in> set (slice_rows db')" "s = row_desc r'" by auto
  from shrinksD(4) [OF assms(1) r'(1)] obtain r where r: "r \<in> set (slice_rows db)" "row_key r = row_key r'"
    "sl_length (row_desc r') \<le> sl_length (row_desc r)" by blast
  have "sl_offset (row_desc r) + sl_length (row_desc r) < u64_limit"
    using assms(2) r(1) by (simp add: slices_bounded_def)
  then show "sl_offset s + sl_length s < u64_limit" using r r'(2) by (simp add: row_key_def)
qed

lemma prune_truncate_shrinks:
  assumes "rows_ok db" and "delayed_keys_ok db" and "slices_bounded (map row_desc (slice_rows db))"
    and "prune_slices_for_truncate now db ino new_size old_size csize = Inr db'"
  shows "shrinks db db'" and "dead_ids db' \<subseteq> dead_ids db \<union> live_ids db"
    and "distinct (sids db) \<Longrightarrow> dead_ids db' \<inter> live_ids db' \<subseteq> dead_ids db"
proof -
  have "shrinks db db' \<and> dead_ids db' \<subseteq> dead_ids db \<union> live_ids db
    \<and> (distinct (sids db) \<longrightarrow> dead_ids db' \<inter> live_ids db' \<subseteq> dead_ids db)"
  proof (cases "truncate_plan new_size old_size csize")
    case None
    then have "db' = db" using assms(4) by (simp add: prune_slices_for_truncate_def apply_truncate_plan_def)
    then show ?thesis using shrinks_refl [OF assms(1,2)] by auto
  next
    case (Some plan)
    then obtain db1 where db1: "(if cutoff_offset plan > 0 then prune_rewrite now ino (cutoff_chunk plan) (cutoff_offset plan) db
          else Inr db) = Inr db1"
      and db2: "(if drop_start plan < old_chunk_count plan
          then prune_delete now ino (drop_start plan) (old_chunk_count plan) db1 else Inr db1) = Inr db'"
      using assms(4) by (auto simp: prune_slices_for_truncate_def apply_truncate_plan_def rbind_Inr_iff)
    have 1: "shrinks db db1 \<and> dead_ids db1 \<subseteq> dead_ids db \<union> live_ids db
      \<and> (distinct (sids db) \<longrightarrow> dead_ids db1 \<inter> live_ids db1 \<subseteq> dead_ids db)"
      using db1 prune_rewrite_shrinks [OF assms(1-3)] shrinks_refl [OF assms(1,2)] by (auto split: if_splits)
    then have sh: "shrinks db db1" by blast
    have 2: "shrinks db1 db' \<and> dead_ids db' \<subseteq> dead_ids db1 \<union> live_ids db1
      \<and> (distinct (sids db1) \<longrightarrow> dead_ids db' \<inter> live_ids db' \<subseteq> dead_ids db1)"
      using db2 prune_delete_shrinks [OF shrinksD(1,2) [OF sh]] shrinks_refl [OF shrinksD(1,2) [OF sh]]
      by (auto split: if_splits)
    have "live_ids db1 \<subseteq> live_ids db" "live_ids db' \<subseteq> live_ids db1"
      using 1 2 shrinks_live by blast+
    then show ?thesis using 1 2 shrinks_trans [OF sh] shrinks_distinct [OF sh] by blast
  qed
  then show "shrinks db db'" and "dead_ids db' \<subseteq> dead_ids db \<union> live_ids db"
    and "distinct (sids db) \<Longrightarrow> dead_ids db' \<inter> live_ids db' \<subseteq> dead_ids db" by blast+
qed

section \<open>Publications\<close>

abbreviation stage_all :: "int \<Rightarrow> nat \<Rightarrow> (nat \<times> nat \<times> nat) list \<Rightarrow> slice_db \<Rightarrow> slice_db" where
  "stage_all now cid \<equiv> fold (\<lambda>(sid, off, size) db. stage_slice_reclamation now db
     \<lparr>slice_id = sid, chunk_id = cid, sl_offset = off, sl_length = size\<rparr> False)"

lemma stage_all_frame [simp]:
  "slice_rows (stage_all now cid ds db) = slice_rows db" "next_row (stage_all now cid ds db) = next_row db"
  "uncommitted_rows (stage_all now cid ds db) = uncommitted_rows db" "counters (stage_all now cid ds db) = counters db"
  by (induction ds arbitrary: db) (simp_all add: case_prod_beta)

lemma stage_all_keys: "delayed_keys_ok db \<Longrightarrow> delayed_keys_ok (stage_all now cid ds db)"
  by (induction ds arbitrary: db) (simp_all add: case_prod_beta stage_delayed_keys)

lemma stage_all_dead: "dead_ids (stage_all now cid ds db) \<subseteq> dead_ids db \<union> fst ` set ds"
proof (induction ds arbitrary: db)
  case (Cons d ds)
  obtain sid off n where d: "d = (sid, off, n)" by (cases d)
  let ?db1 = "stage_slice_reclamation now db \<lparr>slice_id = sid, chunk_id = cid, sl_offset = off, sl_length = n\<rparr> False"
  have "dead_ids ?db1 \<subseteq> dead_ids db \<union> {sid}"
    using stage_dead_ids [of now db "\<lparr>slice_id = sid, chunk_id = cid, sl_offset = off, sl_length = n\<rparr>" False] by simp
  moreover have "dead_ids (stage_all now cid ds ?db1) \<subseteq> dead_ids ?db1 \<union> fst ` set ds" by (rule Cons.IH)
  ultimately show ?case by (auto simp: d)
qed simp

abbreviation replaced_row :: "nat \<Rightarrow> nat set \<Rightarrow> slice_row \<Rightarrow> bool" where
  "replaced_row cid ids r \<equiv> chunk_id (row_desc r) = cid \<and> slice_id (row_desc r) \<in> ids"

text \<open>A publication without new slices, and one with a single new slice.\<close>

lemma swap_none:
  assumes "rows_ok db" and "delayed_keys_ok db"
    and db'_def: "db' = swap_slices now db cid [] ds"
  shows "rows_ok db'" and "delayed_keys_ok db'"
    and "slice_rows db' = filter (\<lambda>r. \<not> replaced_row cid (fst ` set ds) r) (slice_rows db)"
    and "uncommitted_rows db' = uncommitted_rows db" and "counters db' = counters db"
    and "dead_ids db' \<subseteq> dead_ids db \<union> fst ` set ds"
proof -
  let ?db1 = "if map fst ds \<noteq> [] then delete_chunk_slices db cid (map fst ds) else db"
  have db': "db' = stage_all now cid ds ?db1" by (simp add: db'_def swap_slices_def Let_def)
  have rows: "slice_rows ?db1 = filter (\<lambda>r. \<not> replaced_row cid (fst ` set ds) r) (slice_rows db)"
    by (simp add: delete_chunk_slices_def)
  have one: "next_row ?db1 = next_row db" "uncommitted_rows ?db1 = uncommitted_rows db" "counters ?db1 = counters db"
    "delayed_keys_ok ?db1 = delayed_keys_ok db" "dead_ids ?db1 = dead_ids db"
    by (simp_all add: delete_chunk_slices_def delayed_keys_ok_def dead_ids_def)
  show rows': "slice_rows db' = filter (\<lambda>r. \<not> replaced_row cid (fst ` set ds) r) (slice_rows db)"
    unfolding db' by (simp only: stage_all_frame rows)
  show "rows_ok db'"
    by (rule rows_ok_filter [OF assms(1)]) (simp_all only: rows', simp only: db' stage_all_frame one)
  show "delayed_keys_ok db'" unfolding db' using assms(2) one(4) by (simp only: stage_all_keys)
  show "uncommitted_rows db' = uncommitted_rows db" and "counters db' = counters db"
    unfolding db' by (simp_all only: stage_all_frame one)
  show "dead_ids db' \<subseteq> dead_ids db \<union> fst ` set ds"
    unfolding db' using stage_all_dead [of now cid ds ?db1] by (simp only: one)
qed

lemma swap_one:
  assumes "rows_ok db" and "delayed_keys_ok db"
    and db'_def: "db' = swap_slices now db cid [s] ds"
  shows "rows_ok db'" and "delayed_keys_ok db'"
    and "\<exists>k. slice_rows db' = filter (\<lambda>r. \<not> replaced_row cid (fst ` set ds) r) (slice_rows db)
       @ [\<lparr>row_id = k, row_desc = s\<lparr>chunk_id := cid\<rparr>\<rparr>]"
    and "uncommitted_rows db' = uncommitted_rows db" and "counters db' = counters db"
    and "dead_ids db' \<subseteq> dead_ids db \<union> fst ` set ds"
proof -
  let ?db1 = "if map fst ds \<noteq> [] then delete_chunk_slices db cid (map fst ds) else db"
  let ?db2 = "insert_slice ?db1 cid s"
  have db': "db' = stage_all now cid ds ?db2" by (simp add: db'_def swap_slices_def Let_def)
  have rows: "slice_rows ?db1 = filter (\<lambda>r. \<not> replaced_row cid (fst ` set ds) r) (slice_rows db)"
    by (simp add: delete_chunk_slices_def)
  have one: "next_row ?db1 = next_row db" "uncommitted_rows ?db2 = uncommitted_rows db" "counters ?db2 = counters db"
    "delayed_keys_ok ?db2 = delayed_keys_ok db" "dead_ids ?db2 = dead_ids db"
    by (simp_all add: delete_chunk_slices_def delayed_keys_ok_def dead_ids_def insert_slice_def)
  have ok1: "rows_ok ?db1"
    by (rule rows_ok_filter [OF assms(1)]) (simp_all only: rows one)
  have ok2: "rows_ok ?db2" using ok1 by (rule rows_ok_insert)
  show "rows_ok db'" using ok2 unfolding db' rows_ok_def stage_all_frame .
  show "\<exists>k. slice_rows db' = filter (\<lambda>r. \<not> replaced_row cid (fst ` set ds) r) (slice_rows db)
       @ [\<lparr>row_id = k, row_desc = s\<lparr>chunk_id := cid\<rparr>\<rparr>]"
    unfolding db' stage_all_frame insert_slice_rows(1) rows by blast
  show "delayed_keys_ok db'" unfolding db' using assms(2) one(4) by (simp only: stage_all_keys)
  show "uncommitted_rows db' = uncommitted_rows db" and "counters db' = counters db"
    unfolding db' by (simp_all only: stage_all_frame one)
  show "dead_ids db' \<subseteq> dead_ids db \<union> fst ` set ds"
    unfolding db' using stage_all_dead [of now cid ds ?db2] by (simp only: one)
qed

lemma decode_replaced:
  assumes "\<forall>s\<in>set slices. slice_id s < u64_limit \<and> sl_offset s < u64_limit"
  shows "\<exists>ds. decode_delayed_data (encode_delayed_data slices ids) = Some ds
    \<and> map fst ds = map slice_id (filter (\<lambda>s. slice_id s \<in> set ids) slices)"
proof -
  let ?sel = "filter (\<lambda>s. slice_id s \<in> set ids) slices"
  have "decode_delayed_data (encode_delayed_data slices ids) =
      Some (map (\<lambda>s. (slice_id s, sl_offset s, min (sl_length s) (u32_limit - 1))) ?sel)"
    unfolding encode_delayed_data_def using assms by (intro decode_encode_delayed) auto
  then show ?thesis by (simp add: comp_def)
qed

abbreviation replaced_of :: "slice_desc list \<Rightarrow> nat list" where
  "replaced_of slices \<equiv> find_replaced_ids slices (remove_fully_covered slices)"

lemma compact_light_cases:
  assumes "compact_light_inner now db slices cid = Inr (res, db')"
    and "\<forall>s\<in>set slices. slice_id s < u64_limit \<and> sl_offset s < u64_limit"
  shows "db' = db \<or> (\<exists>ds. fst ` set ds = set (replaced_of slices) \<and> db' = swap_slices now db cid [] ds)"
proof (cases "length slices \<le> 1 \<or> replaced_of slices = []")
  case True
  then have "compact_light_inner now db slices cid = Inr (None, db)"
    by (cases "length slices \<le> 1") (simp_all add: compact_light_inner_def Let_def)
  then show ?thesis using assms(1) by simp
next
  case False
  obtain ds where ds: "decode_delayed_data (encode_delayed_data slices (replaced_of slices)) = Some ds"
    "map fst ds = map slice_id (filter (\<lambda>s. slice_id s \<in> set (replaced_of slices)) slices)"
    using decode_replaced [OF assms(2)] by blast
  have "set (replaced_of slices) \<subseteq> slice_id ` set slices" by (auto simp: find_replaced_ids_def)
  then have "fst ` set ds = set (replaced_of slices)"
    using arg_cong [OF ds(2), of set] by auto
  moreover have "db' = swap_slices now db cid [] ds"
    using assms(1) False ds(1)
    by (auto simp: compact_light_inner_def Let_def result_simps replace_slices_for_compact_def split: if_splits)
  ultimately show ?thesis by blast
qed

lemma owner_filter:
  assumes "\<And>s. owner xs x = Some s \<Longrightarrow> P s"
  shows "owner (filter P xs) x = owner xs x"
  using assms
proof (induction xs rule: rev_induct)
  case (snoc u xs)
  show ?case
  proof (cases "covers u x")
    case True
    then show ?thesis using snoc.prems [of u] by simp
  next
    case False
    then show ?thesis using snoc by simp
  qed
qed simp

lemma get_slices_filtered:
  assumes "rows_ok db" and "rows_ok db'" and "slice_rows db' = filter (\<lambda>r. \<not> replaced_row cid ids r) (slice_rows db)"
  shows "get_slices db' c = filter (\<lambda>s. \<not> (c = cid \<and> slice_id s \<in> ids)) (get_slices db c)"
proof -
  have "filter (\<lambda>s. chunk_id s = c) (map row_desc (filter (\<lambda>r. \<not> replaced_row cid ids r) rows)) =
      filter (\<lambda>s. \<not> (c = cid \<and> slice_id s \<in> ids)) (filter (\<lambda>s. chunk_id s = c) (map row_desc rows))" for rows
    by (induction rows) auto
  then show ?thesis unfolding get_slices_rows [OF assms(1)] get_slices_rows [OF assms(2)] assms(3) .
qed

lemma light_shrinks:
  assumes "rows_ok db" and "delayed_keys_ok db" and "fst ` set ds = ids" and "db' = swap_slices now db cid [] ds"
    and "\<And>x s. owner (get_slices db cid) x = Some s \<Longrightarrow> slice_id s \<notin> ids"
  shows "shrinks db db'" and "owner (get_slices db' c) x = owner (get_slices db c) x"
proof -
  note swap = swap_none [OF assms(1,2,4)]
  have sl: "get_slices db' c = filter (\<lambda>s. \<not> (c = cid \<and> slice_id s \<in> ids)) (get_slices db c)" for c
    using get_slices_filtered [OF assms(1) swap(1)] swap(3) assms(3) by simp
  show own: "owner (get_slices db' c) x = owner (get_slices db c) x" for c x
    unfolding sl by (rule owner_filter) (use assms(5) in auto)
  show "shrinks db db'"
    unfolding shrinks_def
  proof (intro conjI allI impI ballI)
    show "subseq (map row_key (slice_rows db')) (map row_key (slice_rows db))"
      unfolding swap(3) by (intro subseq_map subseq_filter_left)
    show "\<exists>r\<in>set (slice_rows db). row_key r = row_key r' \<and> sl_length (row_desc r') \<le> sl_length (row_desc r)"
      if "r' \<in> set (slice_rows db')" for r'
      using that unfolding swap(3) by auto
    show "\<exists>s. owner (get_slices db c) x = Some s \<and> slice_id s = slice_id s' \<and> sl_offset s = sl_offset s'"
      if "owner (get_slices db' c) x = Some s'" for c x s'
      using that by (simp add: own)
  qed (rule swap)+
qed

section \<open>The version check\<close>

lemma map_of_rev_distinct:
  "distinct (map f xs) \<Longrightarrow> x \<in> set xs \<Longrightarrow> map_of (rev (map (\<lambda>s. (f s, g s)) xs)) (f x) = Some (g x)"
  by (rule map_of_is_SomeI) (auto simp: rev_map [symmetric] comp_def)

text \<open>
  A list of slices that passes the check against a snapshot of which it is a part is the snapshot:
  no slice was added, dropped, moved or shortened.
\<close>

lemma unchanged_slices:
  assumes "length cur = length snap" and "distinct (map slice_id cur)"
    and "list_all (slice_unchanged (map_of (rev (map (\<lambda>s. (slice_id s, (sl_offset s, sl_length s))) cur)))) snap"
    and "distinct (map slice_id snap)" and "\<forall>s\<in>set cur. chunk_id s = cid" and "\<forall>s\<in>set snap. chunk_id s = cid"
    and "subseq (filter (\<lambda>i. i \<in> slice_id ` set snap) (map slice_id cur)) (map slice_id snap)"
  shows "cur = snap"
proof -
  let ?m = "map_of (rev (map (\<lambda>s. (slice_id s, (sl_offset s, sl_length s))) cur))"
  have hit: "\<exists>t\<in>set cur. slice_id t = slice_id s \<and> sl_offset t = sl_offset s \<and> sl_length t = sl_length s" if "s \<in> set snap" for s
  proof -
    have "?m (slice_id s) = Some (sl_offset s, sl_length s)"
      using assms(3) that by (simp add: list_all_iff slice_unchanged_def)
    then have "(slice_id s, (sl_offset s, sl_length s)) \<in> set (rev (map (\<lambda>s. (slice_id s, (sl_offset s, sl_length s))) cur))"
      by (rule map_of_SomeD)
    then show ?thesis by auto
  qed
  have sub: "set (map slice_id snap) \<subseteq> set (map slice_id cur)"
  proof
    fix i assume "i \<in> set (map slice_id snap)"
    then obtain s where s: "s \<in> set snap" "i = slice_id s" by auto
    then obtain t where "t \<in> set cur" "slice_id t = i" using hit [OF s(1)] by blast
    then show "i \<in> set (map slice_id cur)" by auto
  qed
  moreover have "card (set (map slice_id snap)) = card (set (map slice_id cur))"
    using assms(1,2,4) by (simp only: distinct_card length_map)
  ultimately have "set (map slice_id snap) = set (map slice_id cur)" by (intro card_subset_eq) simp_all
  then have "filter (\<lambda>i. i \<in> slice_id ` set snap) (map slice_id cur) = map slice_id cur"
    by (intro filter_True) auto
  then have ids: "map slice_id cur = map slice_id snap"
    using assms(7,1) subseq_same_length by fastforce
  show ?thesis
  proof (rule nth_equalityI [OF assms(1)])
    fix i assume i: "i < length cur"
    have s: "snap ! i \<in> set snap" "cur ! i \<in> set cur" using i assms(1) by simp_all
    have same: "slice_id (cur ! i) = slice_id (snap ! i)"
      using arg_cong [OF ids, of "\<lambda>l. l ! i"] i assms(1) by simp
    obtain t where t: "t \<in> set cur" "slice_id t = slice_id (snap ! i)" "sl_offset t = sl_offset (snap ! i)"
      "sl_length t = sl_length (snap ! i)" using hit [OF s(1)] by blast
    have "t = cur ! i" using assms(2) t(1,2) s(2) same by (metis distinct_map inj_onD)
    then show "cur ! i = snap ! i" using t assms(5,6) s same by (intro slice_desc.equality) simp_all
  qed
qed

lemma version_check_cases:
  assumes "replace_slices_for_compact_with_version now db cid [s] (encode_delayed_data snap (map slice_id snap)) snap = Inr db'"
    and "\<forall>s\<in>set snap. slice_id s < u64_limit \<and> sl_offset s < u64_limit" and "rows_ok db"
  obtains ds where "fst ` set ds = slice_id ` set snap"
    and "db' = swap_slices now (db\<lparr>uncommitted_rows := filter (\<lambda>u. \<not> reserved_by cid s u) (uncommitted_rows db)\<rparr>) cid [s] ds"
    and "slice_id s \<in> pending_ids db" and "length (get_slices db cid) = length snap"
    and "list_all (slice_unchanged (map_of (rev (map (\<lambda>s. (slice_id s, (sl_offset s, sl_length s))) (get_slices db cid))))) snap"
proof -
  obtain ds where ds: "decode_delayed_data (encode_delayed_data snap (map slice_id snap)) = Some ds"
    "map fst ds = map slice_id (filter (\<lambda>s. slice_id s \<in> set (map slice_id snap)) snap)"
    using decode_replaced [OF assms(2)] by blast
  have "filter (\<lambda>s. slice_id s \<in> set (map slice_id snap)) snap = snap" by (intro filter_True) auto
  then have ids: "fst ` set ds = slice_id ` set snap" using arg_cong [OF ds(2), of set] by auto
  have cur: "map row_desc (filter (\<lambda>r. chunk_id (row_desc r) = cid) (slice_rows db)) = get_slices db cid"
    by (simp add: get_slices_rows [OF assms(3)] filter_map comp_def)
  have one: "length (filter (reserved_by cid s) (uncommitted_rows db)) = 1"
    and len: "length (get_slices db cid) = length snap"
    and same: "list_all (slice_unchanged (map_of (rev (map (\<lambda>s. (slice_id s, (sl_offset s, sl_length s))) (get_slices db cid))))) snap"
    and db': "db' = swap_slices now (db\<lparr>uncommitted_rows := filter (\<lambda>u. \<not> reserved_by cid s u) (uncommitted_rows db)\<rparr>) cid [s] ds"
    using assms(1) ds(1) unfolding replace_slices_for_compact_with_version_def cur
    by (auto simp: Let_def result_simps split: if_splits option.splits)
  from one have "filter (reserved_by cid s) (uncommitted_rows db) \<noteq> []" by auto
  then obtain u where "u \<in> set (uncommitted_rows db)" "reserved_by cid s u"
    by (meson filter_empty_conv)
  then have "slice_id s \<in> pending_ids db" using pending_idsI [of u db] by (simp add: reserved_by_def)
  with ids db' len same that show ?thesis by blast
qed

section \<open>Reservations\<close>

lemma record_uncommitted_effect:
  "slice_rows (snd (record_uncommitted_slice now db sid cid n opn)) = slice_rows db"
  "next_row (snd (record_uncommitted_slice now db sid cid n opn)) = next_row db"
  "delayed_rows (snd (record_uncommitted_slice now db sid cid n opn)) = delayed_rows db"
  "next_delayed (snd (record_uncommitted_slice now db sid cid n opn)) = next_delayed db"
  "counters (snd (record_uncommitted_slice now db sid cid n opn)) = counters db"
  "map un_slice_id (uncommitted_rows (snd (record_uncommitted_slice now db sid cid n opn))) =
     map un_slice_id (uncommitted_rows db) @ [sid]"
  by (simp_all add: record_uncommitted_slice_def)

lemma record_uncommitted_pending:
  "pending_ids (snd (record_uncommitted_slice now db sid cid n opn)) = insert sid (pending_ids db)"
proof -
  have eq: "{u \<in> set (xs @ [y]). P u} = (if P y then insert y {u \<in> set xs. P u} else {u \<in> set xs. P u})"
    for xs y and P :: "uncommitted_row \<Rightarrow> bool" by auto
  show ?thesis by (simp add: record_uncommitted_slice_def pending_ids_def eq del: set_append)
qed

text \<open>One record of the sweep: rows keep their key and slice, and never become pending again.\<close>

definition sweeps :: "uncommitted_row list \<Rightarrow> uncommitted_row list \<Rightarrow> bool" where
  "sweeps rows rows' \<longleftrightarrow>
     subseq (map (\<lambda>u. (un_id u, un_slice_id u)) rows') (map (\<lambda>u. (un_id u, un_slice_id u)) rows)
     \<and> (\<forall>u'\<in>set rows'. un_status u' = UnPending \<longrightarrow> u' \<in> set rows)"

lemma sweeps_refl: "sweeps rows rows"
  by (simp add: sweeps_def)

lemma sweeps_trans: "sweeps a b \<Longrightarrow> sweeps b c \<Longrightarrow> sweeps a c"
  unfolding sweeps_def using subseq_order.order_trans by blast

lemma sweeps_mark:
  "sweeps rows (map (\<lambda>u. if un_id u = i then u\<lparr>un_status := UnOrphan\<rparr> else u) rows)"
proof -
  have "map (\<lambda>u. (un_id u, un_slice_id u)) (map (\<lambda>u. if un_id u = i then u\<lparr>un_status := UnOrphan\<rparr> else u) rows)
      = map (\<lambda>u. (un_id u, un_slice_id u)) rows"
    by (induction rows) auto
  then show ?thesis unfolding sweeps_def by (auto simp del: map_map split: if_splits)
qed

lemma sweeps_filter: "sweeps rows (filter P rows)"
  by (auto simp: sweeps_def intro: subseq_map subseq_filter_left)

lemma sweeps_ids:
  assumes "sweeps rows rows'"
  shows "subseq (map un_slice_id rows') (map un_slice_id rows)"
proof -
  have "subseq (map snd (map (\<lambda>u. (un_id u, un_slice_id u)) rows')) (map snd (map (\<lambda>u. (un_id u, un_slice_id u)) rows))"
    by (rule subseq_map) (use assms in \<open>simp add: sweeps_def\<close>)
  then show ?thesis by (simp add: comp_def)
qed

lemma sweep_pending_frame:
  "slice_rows (fst (sweep_pending p acc)) = slice_rows (fst acc)"
  "next_row (fst (sweep_pending p acc)) = next_row (fst acc)"
  "delayed_rows (fst (sweep_pending p acc)) = delayed_rows (fst acc)"
  "next_delayed (fst (sweep_pending p acc)) = next_delayed (fst acc)"
  "counters (fst (sweep_pending p acc)) = counters (fst acc)"
  by (simp_all add: sweep_pending_def Let_def case_prod_beta)

lemma sweep_pending_sweeps: "sweeps (uncommitted_rows (fst acc)) (uncommitted_rows (fst (sweep_pending p acc)))"
  by (simp add: sweep_pending_def Let_def case_prod_beta sweeps_mark sweeps_filter)

lemma sweep_pending_marks:
  "u \<in> set (uncommitted_rows (fst (sweep_pending p acc))) \<Longrightarrow> un_id u = un_id p \<Longrightarrow> un_status u = UnOrphan"
  by (auto simp: sweep_pending_def Let_def case_prod_beta split: if_splits)

lemma sweep_pending_cleaned: "fst ` set (snd (sweep_pending p acc)) \<subseteq> insert (un_slice_id p) (fst ` set (snd acc))"
  by (auto simp: sweep_pending_def Let_def case_prod_beta split: if_splits)

lemma pending_mono: "sweeps (uncommitted_rows a) (uncommitted_rows b) \<Longrightarrow> pending_ids b \<subseteq> pending_ids a"
  by (auto simp: sweeps_def pending_ids_def)

lemma sweep_fold_frame:
  "slice_rows (fst (fold sweep_pending ps acc)) = slice_rows (fst acc)"
  "next_row (fst (fold sweep_pending ps acc)) = next_row (fst acc)"
  "delayed_rows (fst (fold sweep_pending ps acc)) = delayed_rows (fst acc)"
  "next_delayed (fst (fold sweep_pending ps acc)) = next_delayed (fst acc)"
  "counters (fst (fold sweep_pending ps acc)) = counters (fst acc)"
  by (induction ps arbitrary: acc) (simp_all add: sweep_pending_frame)

lemma sweep_fold_sweeps: "sweeps (uncommitted_rows (fst acc)) (uncommitted_rows (fst (fold sweep_pending ps acc)))"
proof (induction ps arbitrary: acc)
  case (Cons p ps)
  show ?case using sweeps_trans [OF sweep_pending_sweeps [of acc p] Cons.IH] by simp
qed (simp add: sweeps_refl)

lemma disjoint_insert: "X \<subseteq> insert i A \<Longrightarrow> i \<notin> P' \<Longrightarrow> P' \<subseteq> P \<Longrightarrow> A \<inter> P = {} \<Longrightarrow> X \<inter> P' = {}"
  by blast

lemma sweep_fold_cleaned:
  assumes "set ps \<subseteq> set rows0" and "distinct (map un_slice_id rows0)"
    and "sweeps rows0 (uncommitted_rows (fst acc))"
    and "fst ` set (snd acc) \<inter> pending_ids (fst acc) = {}" and "fst ` set (snd acc) \<subseteq> un_slice_id ` set rows0"
  shows "fst ` set (snd (fold sweep_pending ps acc)) \<inter> pending_ids (fst (fold sweep_pending ps acc)) = {}
    \<and> fst ` set (snd (fold sweep_pending ps acc)) \<subseteq> un_slice_id ` set rows0"
  using assms
proof (induction ps arbitrary: acc)
  case Nil
  then show ?case by simp
next
  case (Cons p ps)
  let ?acc = "sweep_pending p acc"
  have sw: "sweeps rows0 (uncommitted_rows (fst ?acc))"
    using Cons.prems(3) sweep_pending_sweeps by (rule sweeps_trans)
  have p: "p \<in> set rows0" using Cons.prems(1) by simp
  have "un_slice_id p \<notin> pending_ids (fst ?acc)"
  proof
    assume "un_slice_id p \<in> pending_ids (fst ?acc)"
    then obtain u where u: "u \<in> set (uncommitted_rows (fst ?acc))" "un_status u = UnPending" "un_slice_id u = un_slice_id p"
      by (rule pending_idsE)
    have "u \<in> set rows0" using u(1,2) sw unfolding sweeps_def by blast
    then have "u = p" using Cons.prems(2) p u(3) by (simp add: distinct_map inj_on_def)
    then show False using sweep_pending_marks [OF u(1)] u(2) by simp
  qed
  moreover have "pending_ids (fst ?acc) \<subseteq> pending_ids (fst acc)"
    using sweep_pending_sweeps by (rule pending_mono)
  ultimately have clean: "fst ` set (snd ?acc) \<inter> pending_ids (fst ?acc) = {}"
    using disjoint_insert [OF sweep_pending_cleaned _ _ Cons.prems(4)] by blast
  have "un_slice_id p \<in> un_slice_id ` set rows0" using p by (rule imageI)
  then have known: "fst ` set (snd ?acc) \<subseteq> un_slice_id ` set rows0"
    using subset_trans [OF sweep_pending_cleaned [of p acc]] Cons.prems(5) by (simp only: insert_subset simp_thms)
  have "set ps \<subseteq> set rows0" using Cons.prems(1) by simp
  from Cons.IH [OF this Cons.prems(2) sw clean known] show ?case by simp
qed

lemma orphans_effect:
  assumes "cleanup_orphan_uncommitted_slices now db age batch = (orphans, db')"
    and "distinct (map un_slice_id (uncommitted_rows db))"
  shows "slice_rows db' = slice_rows db" and "next_row db' = next_row db" and "delayed_rows db' = delayed_rows db"
    and "next_delayed db' = next_delayed db" and "counters db' = counters db"
    and "subseq (map un_slice_id (uncommitted_rows db')) (map un_slice_id (uncommitted_rows db))"
    and "pending_ids db' \<subseteq> pending_ids db"
    and "fst ` set orphans \<subseteq> resv_ids db" and "fst ` set orphans \<inter> pending_ids db' = {}"
proof -
  let ?ps = "take batch (filter (\<lambda>u. un_status u = UnPending \<and> un_created_at u < now - age) (uncommitted_rows db))"
  let ?os = "take batch (filter (\<lambda>u. un_status u = UnOrphan) (uncommitted_rows db))"
  let ?res = "fold sweep_pending ?ps (db, [])"
  have res: "db' = fst ?res" "orphans = snd ?res @ map (\<lambda>u. (un_slice_id u, un_size u)) ?os"
    using assms(1) by (auto simp: cleanup_orphan_uncommitted_slices_def Let_def case_prod_beta)
  show "slice_rows db' = slice_rows db" and "next_row db' = next_row db" and "delayed_rows db' = delayed_rows db"
    and "next_delayed db' = next_delayed db" and "counters db' = counters db"
    unfolding res(1) sweep_fold_frame by simp_all
  have sw: "sweeps (uncommitted_rows db) (uncommitted_rows db')"
    unfolding res(1) using sweep_fold_sweeps [of "(db, [])" ?ps] by simp
  then show "subseq (map un_slice_id (uncommitted_rows db')) (map un_slice_id (uncommitted_rows db))"
    and pend: "pending_ids db' \<subseteq> pending_ids db" by (rule sweeps_ids, rule pending_mono)
  have sub: "set ?ps \<subseteq> set (uncommitted_rows db)" "set ?os \<subseteq> {u \<in> set (uncommitted_rows db). un_status u = UnOrphan}"
    by (auto dest: in_set_takeD)
  have cl: "fst ` set (snd ?res) \<inter> pending_ids (fst ?res) = {} \<and> fst ` set (snd ?res) \<subseteq> un_slice_id ` set (uncommitted_rows db)"
    by (rule sweep_fold_cleaned [OF sub(1) assms(2)]) (simp_all add: sweeps_refl)
  have ids: "fst ` set orphans = fst ` set (snd ?res) \<union> un_slice_id ` set ?os"
    unfolding res(2) by (simp add: image_Un image_image)
  show "fst ` set orphans \<subseteq> resv_ids db"
    unfolding ids using cl sub(2) by (auto simp: resv_ids_def)
  have "un_slice_id ` set ?os \<inter> pending_ids db = {}"
  proof -
    have "un_slice_id o' \<notin> pending_ids db" if "o' \<in> set ?os" for o'
    proof
      assume "un_slice_id o' \<in> pending_ids db"
      then obtain u where u: "u \<in> set (uncommitted_rows db)" "un_status u = UnPending" "un_slice_id u = un_slice_id o'"
        by (rule pending_idsE)
      have o': "o' \<in> set (uncommitted_rows db)" "un_status o' = UnOrphan" using sub(2) that by blast+
      have "u = o'" using assms(2) u(1,3) o'(1) by (simp add: distinct_map inj_on_def)
      then show False using u(2) o'(2) by simp
    qed
    then show ?thesis by blast
  qed
  then show "fst ` set orphans \<inter> pending_ids db' = {}"
    unfolding ids using cl pend res(1) by blast
qed

lemma uncommitted_filter_effect:
  assumes "db' = db\<lparr>uncommitted_rows := filter P (uncommitted_rows db)\<rparr>"
  shows "subseq (map un_slice_id (uncommitted_rows db')) (map un_slice_id (uncommitted_rows db))"
    and "pending_ids db' \<subseteq> pending_ids db"
  using assms by (auto simp: pending_ids_def intro: subseq_map subseq_filter_left)

section \<open>Delayed deletion\<close>

lemma process_delayed_effect:
  assumes "dl_status d \<noteq> Retained" and "dl_slice_id d \<notin> live_ids (fst acc)"
  shows "slice_rows (fst (process_delayed d acc)) = slice_rows (fst acc)"
    and "next_row (fst (process_delayed d acc)) = next_row (fst acc)"
    and "uncommitted_rows (fst (process_delayed d acc)) = uncommitted_rows (fst acc)"
    and "counters (fst (process_delayed d acc)) = counters (fst acc)"
    and "delayed_keys_ok (fst acc) \<Longrightarrow> delayed_keys_ok (fst (process_delayed d acc))"
    and "dead_ids (fst (process_delayed d acc)) \<subseteq> insert (dl_slice_id d) (dead_ids (fst acc))"
    and "fst ` set (snd (process_delayed d acc)) \<subseteq> insert (dl_slice_id d) (fst ` set (snd acc))"
proof -
  obtain db ready where acc: "acc = (db, ready)" by (cases acc)
  have none: "filter (\<lambda>r. slice_id (row_desc r) \<noteq> dl_slice_id d) (slice_rows db) = slice_rows db"
  proof (rule filter_True, rule ballI, rule notI)
    fix r assume r: "r \<in> set (slice_rows db)" and eq: "slice_id (row_desc r) = dl_slice_id d"
    have "(slice_id \<circ> row_desc) r \<in> live_ids db" unfolding live_ids_def using r by (rule imageI)
    then show False using assms(2) by (simp add: acc eq)
  qed
  have keys: "map dl_id (map (\<lambda>e. if dl_id e = k then r else e) rows) = map dl_id rows" if "dl_id r = k"
    for r k and rows :: "delayed_row list"
    using that by (induction rows) auto
  show "slice_rows (fst (process_delayed d acc)) = slice_rows (fst acc)"
    and "next_row (fst (process_delayed d acc)) = next_row (fst acc)"
    and "uncommitted_rows (fst (process_delayed d acc)) = uncommitted_rows (fst acc)"
    and "counters (fst (process_delayed d acc)) = counters (fst acc)"
    and "fst ` set (snd (process_delayed d acc)) \<subseteq> insert (dl_slice_id d) (fst ` set (snd acc))"
    by (auto simp: acc process_delayed_def Let_def none split: delayed_status.splits)
  show "dead_ids (fst (process_delayed d acc)) \<subseteq> insert (dl_slice_id d) (dead_ids (fst acc))"
    by (auto simp: acc process_delayed_def Let_def dead_ids_def split: delayed_status.splits if_splits)
  show "delayed_keys_ok (fst (process_delayed d acc))" if "delayed_keys_ok (fst acc)"
  proof (cases "dl_status d = Pending")
    case True
    have "map dl_id (delayed_rows (fst (process_delayed d acc))) = map dl_id (delayed_rows db)"
      using True keys [of "d\<lparr>dl_status := MetaDeleted\<rparr>" "dl_id d"] by (simp add: acc process_delayed_def Let_def del: map_map)
    moreover have "next_delayed (fst (process_delayed d acc)) = next_delayed db"
      using True by (simp add: acc process_delayed_def Let_def)
    moreover have alt: "delayed_keys_ok x \<longleftrightarrow> distinct (map dl_id (delayed_rows x)) \<and> (\<forall>i\<in>set (map dl_id (delayed_rows x)). i < next_delayed x)" for x
      by (simp add: delayed_keys_ok_def)
    ultimately show ?thesis using that unfolding alt acc fst_conv by metis
  next
    case False
    then have "fst (process_delayed d acc) = db"
      using assms(1) by (cases "dl_status d") (simp_all add: acc process_delayed_def Let_def)
    then show ?thesis using that by (simp add: acc)
  qed
qed

lemma process_delayed_fold:
  assumes "\<forall>d\<in>set ds. dl_status d \<noteq> Retained \<and> dl_slice_id d \<in> D" and "D \<inter> live_ids (fst acc) = {}"
    and "delayed_keys_ok (fst acc)" and "fst ` set (snd acc) \<subseteq> D"
  shows "slice_rows (fst (fold process_delayed ds acc)) = slice_rows (fst acc)
    \<and> next_row (fst (fold process_delayed ds acc)) = next_row (fst acc)
    \<and> uncommitted_rows (fst (fold process_delayed ds acc)) = uncommitted_rows (fst acc)
    \<and> counters (fst (fold process_delayed ds acc)) = counters (fst acc)
    \<and> delayed_keys_ok (fst (fold process_delayed ds acc))
    \<and> dead_ids (fst (fold process_delayed ds acc)) \<subseteq> D \<union> dead_ids (fst acc)
    \<and> fst ` set (snd (fold process_delayed ds acc)) \<subseteq> D"
  using assms
proof (induction ds arbitrary: acc)
  case (Cons d ds)
  let ?acc = "process_delayed d acc"
  have d: "dl_status d \<noteq> Retained" "dl_slice_id d \<in> D" "dl_slice_id d \<notin> live_ids (fst acc)"
    using Cons.prems(1,2) by auto
  note eff = process_delayed_effect [OF d(1,3)]
  have live: "live_ids (fst ?acc) = live_ids (fst acc)" by (simp add: live_ids_def eff(1))
  have ready: "fst ` set (snd ?acc) \<subseteq> D"
    using eff(7) Cons.prems(4) d(2) by (meson insert_subset subset_trans)
  have dead: "dead_ids (fst ?acc) \<subseteq> D \<union> dead_ids (fst acc)" using eff(6) d(2) by blast
  have rest: "\<forall>d\<in>set ds. dl_status d \<noteq> Retained \<and> dl_slice_id d \<in> D" using Cons.prems(1) by simp
  have disj: "D \<inter> live_ids (fst ?acc) = {}" using Cons.prems(2) by (simp only: live)
  note IH = Cons.IH [OF rest disj eff(5) [OF Cons.prems(3)] ready]
  have step: "fold process_delayed (d # ds) acc = fold process_delayed ds ?acc" by simp
  from IH have dead': "dead_ids (fst (fold process_delayed ds ?acc)) \<subseteq> D \<union> dead_ids (fst ?acc)" by (elim conjE)
  show ?case
    unfolding step
  proof (intro conjI)
    show "dead_ids (fst (fold process_delayed ds ?acc)) \<subseteq> D \<union> dead_ids (fst acc)"
      using dead' dead by blast
  qed (use IH in \<open>simp_all only: eff(1-4)\<close>)
next
  case Nil
  then show ?case by simp
qed

lemma process_delayed_slices_effect:
  assumes "process_delayed_slices now db batch age = (ready, db')" and "dead_ids db \<inter> live_ids db = {}"
    and "delayed_keys_ok db"
  shows "slice_rows db' = slice_rows db" and "next_row db' = next_row db"
    and "uncommitted_rows db' = uncommitted_rows db" and "counters db' = counters db"
    and "delayed_keys_ok db'" and "dead_ids db' \<subseteq> dead_ids db" and "fst ` set ready \<subseteq> dead_ids db"
proof -
  let ?ds = "take batch (filter (\<lambda>d. dl_created_at d \<le> now - age \<and> dl_status d \<in> {Pending, MetaDeleted}) (delayed_rows db))"
  have res: "db' = fst (fold process_delayed ?ds (db, []))" "ready = snd (fold process_delayed ?ds (db, []))"
    using assms(1) by (auto simp: process_delayed_slices_def Let_def case_prod_beta)
  have "\<forall>d\<in>set ?ds. dl_status d \<noteq> Retained \<and> dl_slice_id d \<in> dead_ids db"
    by (auto dest!: in_set_takeD simp: dead_ids_def)
  note eff = process_delayed_fold [OF this, of "(db, [])", folded res, unfolded fst_conv snd_conv]
  from eff assms(2,3)
  show "slice_rows db' = slice_rows db" and "next_row db' = next_row db"
    and "uncommitted_rows db' = uncommitted_rows db" and "counters db' = counters db"
    and "delayed_keys_ok db'" and "dead_ids db' \<subseteq> dead_ids db" and "fst ` set ready \<subseteq> dead_ids db"
    by simp_all
qed

lemma confirm_delayed_effect:
  "slice_rows (confirm_delayed_deleted db ids) = slice_rows db"
  "next_row (confirm_delayed_deleted db ids) = next_row db"
  "uncommitted_rows (confirm_delayed_deleted db ids) = uncommitted_rows db"
  "counters (confirm_delayed_deleted db ids) = counters db"
  "delayed_keys_ok db \<Longrightarrow> delayed_keys_ok (confirm_delayed_deleted db ids)"
  "dead_ids (confirm_delayed_deleted db ids) \<subseteq> dead_ids db"
  by (auto simp: confirm_delayed_deleted_def delayed_keys_ok_def dead_ids_def distinct_map_filter)

section \<open>Identifiers and blocks\<close>

lemma next_id_effect:
  assumes "next_id db SLICE_ID_KEY = Inr (v, db')" and "counters db SLICE_ID_KEY = Some c" and "unat c < 2 ^ 63"
  shows "v = c" and "db' = db\<lparr>counters := (counters db)(SLICE_ID_KEY \<mapsto> c + 1)\<rparr>"
    and "unat (c + 1) = unat c + 1" and "unat (c + 1) < 2 ^ 63"
proof -
  from assms(1,2) have "v = c \<and> db' = db\<lparr>counters := (counters db)(SLICE_ID_KEY \<mapsto> c + 1)\<rparr>"
    by (auto simp: next_id_def alloc_counter_id_def result_simps split: if_splits)
  then show "v = c" and "db' = db\<lparr>counters := (counters db)(SLICE_ID_KEY \<mapsto> c + 1)\<rparr>" by auto
  have less: "c <s i64_max"
    using assms(1,2) by (auto simp: next_id_def alloc_counter_id_def result_simps split: if_splits)
  have "unat i64_max = 2 ^ 63 - 1" by (simp add: i64_max_def)
  moreover have "c \<noteq> i64_max" using less by (auto simp: word_sless_alt)
  then have "unat c \<noteq> unat i64_max" by (simp only: word_unat_eq_iff not_False_eq_True)
  ultimately have "unat c + 1 < 2 ^ 63" using assms(3) by simp
  moreover from this show "unat (c + 1) = unat c + 1" by (simp add: unat_word_ariths)
  ultimately show "unat (c + 1) < 2 ^ 63" by simp
qed

lemma ledger_keys_differ [simp]: "ledger_key grp \<noteq> SLICE_ID_KEY" "published_key grp \<noteq> SLICE_ID_KEY"
    "SLICE_ID_KEY \<noteq> ledger_key grp" "SLICE_ID_KEY \<noteq> published_key grp"
  by (simp_all add: ledger_key_def published_key_def SLICE_ID_KEY_def)

lemma delete_slice_blocks_effect:
  assumes "delete_slice_blocks mem_delete_range mem_delete_coalesced_group sid sz bsize db m = (res, db', m')"
  shows "slice_rows db' = slice_rows db" and "next_row db' = next_row db" and "uncommitted_rows db' = uncommitted_rows db"
    and "delayed_rows db' = delayed_rows db" and "next_delayed db' = next_delayed db"
    and "counters db' SLICE_ID_KEY = counters db SLICE_ID_KEY" and "fst key \<noteq> sid \<Longrightarrow> m' key = m key"
    and "m' key = m key \<or> m' key = None"
proof -
  have counter: "counters d SLICE_ID_KEY = counters db SLICE_ID_KEY \<and> slice_rows d = slice_rows db \<and> next_row d = next_row db
      \<and> uncommitted_rows d = uncommitted_rows db \<and> delayed_rows d = delayed_rows db \<and> next_delayed d = next_delayed db"
    if "retire_coalesced_member db grp slot = Inr (r, d)" for grp slot r d
    using that by (auto simp: retire_coalesced_member_def Let_def split: option.splits if_splits)
  have plain: "delete_slice_blocks mem_delete_range mem_delete_coalesced_group sid sz bsize db m = (res, db', m') \<Longrightarrow>
      (db' = db \<or> (\<exists>grp slot r. retire_coalesced_member db grp slot = Inr (r, db')))
      \<and> (m' = m \<or> m' = mem_delete_range m (sid, 0) (div_ceil sz bsize))"
    unfolding delete_slice_blocks_def mem_delete_coalesced_group_def Let_def
    by (auto split: if_splits option.splits sum.splits prod.splits)
  from plain [OF assms] counter
  show "slice_rows db' = slice_rows db" and "next_row db' = next_row db" and "uncommitted_rows db' = uncommitted_rows db"
    and "delayed_rows db' = delayed_rows db" and "next_delayed db' = next_delayed db"
    and "counters db' SLICE_ID_KEY = counters db SLICE_ID_KEY"
    by blast+
  have m': "m' = m \<or> m' = mem_delete_range m (sid, 0) (div_ceil sz bsize)"
    using conjunct2 [OF plain [OF assms]] .
  show "m' key = m key" if "fst key \<noteq> sid"
    using m' by (rule disjE) (simp_all add: mem_delete_other [OF that])
  show "m' key = m key \<or> m' key = None"
    using m' by (rule disjE) (simp_all add: mem_delete_range_def fold_delete Let_def)
qed

lemma write_spans_other: "fst key \<noteq> sid \<Longrightarrow> snd (write_spans mem_write_fresh_range m sid spans rest) key = m key"
proof (induction spans arbitrary: m rest)
  case (Cons sp spans)
  let ?w = "mem_write_fresh_range m (sid, as_u32 (sp_index sp)) (sp_offset sp) (take (min (sp_len sp) (length rest)) rest)"
  have "snd ?w key = m key" using Cons.prems by (intro mem_write_other) simp
  then show ?case using Cons by (auto simp: Let_def case_prod_beta split: sum.splits)
qed simp

lemma write_merged_other: "fst key \<noteq> sid \<Longrightarrow> snd (write_merged_data mem_write_fresh_range m lay sid data) key = m key"
  by (simp add: write_merged_data_def write_spans_other split: option.splits)

lemma run_uploads_other:
  "\<forall>(k, _)\<in>set ws. fst k = sid \<Longrightarrow> fst key \<noteq> sid \<Longrightarrow> snd (run_uploads mem_write_fresh_range m ws) key = m key"
proof (induction ws arbitrary: m)
  case (Cons w ws)
  obtain k off chunks where w: "w = (k, off, chunks)" by (cases w)
  have "snd (mem_write_fresh_range m k off (concat chunks)) key = m key"
    using Cons.prems by (intro mem_write_other) (simp add: w)
  then show ?case using Cons by (auto simp: w Let_def case_prod_beta write_fresh_vectored_def)
qed simp

lemma plan_uploads_keys: "plan_uploads sid chunks cur spans = Some ws \<Longrightarrow> \<forall>(k, _)\<in>set ws. fst k = sid"
proof (induction spans arbitrary: cur ws)
  case (Cons sp spans)
  then obtain out cur' ws' where "plan_uploads sid chunks cur' spans = Some ws'"
    "ws = ((sid, as_u32 (sp_index sp)), sp_offset sp, out) # ws'"
    by (auto split: option.splits)
  then show ?case using Cons.IH [of cur' ws'] by simp
qed simp

lemma write_at_vectored_other:
  "fst key \<noteq> sid \<Longrightarrow> snd (write_at_vectored mem_write_fresh_range m lay sid off chunks) key = m key"
proof (cases "Option.bind (block_span_iter_slice off (sum_u64 (map length chunks)) lay) (plan_uploads sid chunks (0, 0))")
  case (Some ws)
  then obtain spans where "plan_uploads sid chunks (0, 0) spans = Some ws" by (auto simp: bind_eq_Some_conv)
  then have keys: "\<forall>(k, _)\<in>set ws. fst k = sid" by (rule plan_uploads_keys)
  assume "fst key \<noteq> sid"
  then show ?thesis using run_uploads_other [OF keys] Some by (simp add: write_at_vectored_def Let_def)
qed (simp add: write_at_vectored_def Let_def)

end
