(* ===== verification/SliceSystem.thy ===== *)
theory SliceSystem
  imports SliceEffects
begin

text \<open>
  The slice tables and the block store as one concurrent system. Writers allocate an identifier,
  upload the payload and append the slice; truncations cut files; compaction takes a snapshot of a
  chunk, and at later moments publishes a light result, or merges and publishes a heavy one; garbage
  collection takes batches of dead slices and deletes their blocks. Each step is one transaction of
  the store or one pass over the block store, performed by the operations of the component
  theories; the steps of different tasks interleave freely and no compaction lock is assumed, since
  the locks of the code expire.

  The invariant \<open>sys_inv\<close> holds in every reachable state. It gives the two main facts: a step of
  compaction or garbage collection changes no byte of any chunk, and no read ever meets a missing
  block.
\<close>

section \<open>The system\<close>

record sys =
  sdb :: slice_db
  sblocks :: in_memory_block_store
  sfresh :: "nat list"
  suploaded :: "(nat \<times> nat) list"
  ssnaps :: "(nat \<times> slice_desc list) list"
  sheavy :: "(nat \<times> slice_desc list \<times> nat \<times> nat) list"
  sdoomed :: "(nat \<times> nat) list"

text \<open>
  Steps of writers. \<open>sfresh\<close> holds identifiers a writer has allocated and not used, \<open>suploaded\<close>
  identifiers with the length of their uploaded payload.
\<close>

inductive client_step :: "chunk_layout \<Rightarrow> sys \<Rightarrow> sys \<Rightarrow> bool" for lay where
  alloc: "next_id (sdb s) SLICE_ID_KEY = Inr (v, db') \<Longrightarrow>
    client_step lay s (s\<lparr>sdb := db', sfresh := unat v # sfresh s\<rparr>)"
| upload: "sid \<in> set (sfresh s) \<Longrightarrow> length (concat chunks) \<le> chunk_size lay \<Longrightarrow>
    write_at_vectored mem_write_fresh_range (sblocks s) lay sid 0 chunks = (Inr (), m') \<Longrightarrow>
    client_step lay s (s\<lparr>sblocks := m', sfresh := remove1 sid (sfresh s),
      suploaded := (sid, length (concat chunks)) # suploaded s\<rparr>)"
| append: "(sid, n) \<in> set (suploaded s) \<Longrightarrow> off + n \<le> chunk_size lay \<Longrightarrow>
    client_step lay s (s\<lparr>sdb := append_slice (sdb s) cid \<lparr>slice_id = sid, chunk_id = cid, sl_offset = off, sl_length = n\<rparr>,
      suploaded := remove1 (sid, n) (suploaded s)\<rparr>)"
| truncate: "prune_slices_for_truncate now (sdb s) ino new_size old_size (chunk_size lay) = Inr db' \<Longrightarrow>
    client_step lay s (s\<lparr>sdb := db'\<rparr>)"

text \<open>
  Steps of compaction and garbage collection. \<open>ssnaps\<close> holds the snapshots compaction tasks work
  from, \<open>sheavy\<close> uploaded but unpublished heavy results (chunk, snapshot, new identifier and
  length), \<open>sdoomed\<close> the slices handed to block deletion.
\<close>

inductive background_step :: "chunk_layout \<Rightarrow> sys \<Rightarrow> sys \<Rightarrow> bool" for lay where
  take_snapshot: "background_step lay s (s\<lparr>ssnaps := (cid, cs_slices (snapshot (sdb s) cid)) # ssnaps s\<rparr>)"
| light: "(cid, ss) \<in> set (ssnaps s) \<Longrightarrow> compact_light_inner now (sdb s) ss cid = Inr (res, db') \<Longrightarrow>
    background_step lay s (s\<lparr>sdb := db'\<rparr>)"
| prepare: "(cid, ss) \<in> set (ssnaps s) \<Longrightarrow>
    compact_heavy_prepare (mem_read_range (sblocks s)) mem_write_fresh_range lay now ss cid (sdb s) (sblocks s) = (res, db', m') \<Longrightarrow>
    background_step lay s (s\<lparr>sdb := db', sblocks := m',
      sheavy := (case res of Inl _ \<Rightarrow> sheavy s | Inr (sid, n) \<Rightarrow> (cid, ss, sid, n) # sheavy s)\<rparr>)"
| publish: "(cid, ss, sid, n) \<in> set (sheavy s) \<Longrightarrow>
    compact_heavy_publish mem_delete_range lay now ss cid sid n (sdb s) (sblocks s) = (res, db', m') \<Longrightarrow>
    background_step lay s (s\<lparr>sdb := db', sblocks := m', sheavy := remove1 (cid, ss, sid, n) (sheavy s)\<rparr>)"
| gc_take: "process_delayed_slices now (sdb s) batch age = (ready, db') \<Longrightarrow>
    background_step lay s (s\<lparr>sdb := db', sdoomed := map (\<lambda>(sid, off, sz, did). (sid, sz)) ready @ sdoomed s\<rparr>)"
| gc_orphans: "cleanup_orphan_uncommitted_slices now (sdb s) age batch = (orphans, db') \<Longrightarrow>
    background_step lay s (s\<lparr>sdb := db', sdoomed := orphans @ sdoomed s\<rparr>)"
| gc_delete: "(sid, sz) \<in> set (sdoomed s) \<Longrightarrow>
    delete_slice_blocks mem_delete_range mem_delete_coalesced_group sid sz bsize (sdb s) (sblocks s) = (res, db', m') \<Longrightarrow>
    background_step lay s (s\<lparr>sdb := db', sblocks := m'\<rparr>)"
| gc_confirm: "background_step lay s (s\<lparr>sdb := confirm_delayed_deleted (sdb s) ids\<rparr>)"
| gc_forget: "background_step lay s (s\<lparr>sdb := delete_uncommitted_slices (sdb s) ids\<rparr>)"

text \<open>An empty store whose slice counter has some nonnegative value.\<close>

definition init_sys :: "u64 \<Rightarrow> sys" where
  "init_sys c = \<lparr>sdb = \<lparr>slice_rows = [], next_row = 1, delayed_rows = [], next_delayed = 1, uncommitted_rows = [],
       next_uncommitted = 1, counters = [SLICE_ID_KEY \<mapsto> c]\<rparr>,
     sblocks = Map.empty, sfresh = [], suploaded = [], ssnaps = [], sheavy = [], sdoomed = []\<rparr>"

inductive reachable :: "chunk_layout \<Rightarrow> sys \<Rightarrow> bool" for lay where
  start: "unat c < 2 ^ 63 \<Longrightarrow> reachable lay (init_sys c)"
| client: "reachable lay s \<Longrightarrow> client_step lay s s' \<Longrightarrow> reachable lay s'"
| background: "reachable lay s \<Longrightarrow> background_step lay s s' \<Longrightarrow> reachable lay s'"

section \<open>The invariant\<close>

definition pool :: "sys \<Rightarrow> nat set" where
  "pool s = set (sfresh s) \<union> fst ` set (suploaded s)"

definition gone :: "sys \<Rightarrow> nat set" where
  "gone s = dead_ids (sdb s) \<union> fst ` set (sdoomed s)"

definition snap_ids :: "sys \<Rightarrow> nat set" where
  "snap_ids s = (\<Union>(cid, ss)\<in>set (ssnaps s). slice_id ` set ss)"

definition tables_ok :: "chunk_layout \<Rightarrow> slice_db \<Rightarrow> bool" where
  "tables_ok lay db \<longleftrightarrow> rows_ok db \<and> delayed_keys_ok db \<and> distinct (sids db)
     \<and> (\<forall>r\<in>set (slice_rows db). sl_offset (row_desc r) + sl_length (row_desc r) \<le> chunk_size lay)
     \<and> distinct (map un_slice_id (uncommitted_rows db))"

text \<open>
  The classes of identifiers are apart: mapped \<open>L\<close>, doomed \<open>G\<close>, reserved \<open>R\<close> with its pending part
  \<open>Q\<close>, held by a writer \<open>P\<close>, named by a snapshot \<open>S\<close>.
\<close>

definition classes :: "nat set \<Rightarrow> nat set \<Rightarrow> nat set \<Rightarrow> nat set \<Rightarrow> nat set \<Rightarrow> nat set \<Rightarrow> bool" where
  "classes L G R Q P S \<longleftrightarrow> (\<forall>i. (i \<in> L \<longrightarrow> i \<notin> G \<and> i \<notin> R \<and> i \<notin> P) \<and> (i \<in> P \<longrightarrow> i \<notin> G \<and> i \<notin> R \<and> i \<notin> S)
     \<and> (i \<in> Q \<longrightarrow> i \<notin> G \<and> i \<in> R) \<and> (i \<in> R \<longrightarrow> i \<notin> S))"

definition ids_ok :: "sys \<Rightarrow> bool" where
  "ids_ok s \<longleftrightarrow> classes (live_ids (sdb s)) (gone s) (resv_ids (sdb s)) (pending_ids (sdb s)) (pool s) (snap_ids s)
     \<and> distinct (sfresh s @ map fst (suploaded s))"

lemma classesD:
  assumes "classes L G R Q P S"
  shows "i \<in> L \<Longrightarrow> i \<notin> G" "i \<in> L \<Longrightarrow> i \<notin> R" "i \<in> L \<Longrightarrow> i \<notin> P" "i \<in> P \<Longrightarrow> i \<notin> G" "i \<in> P \<Longrightarrow> i \<notin> R"
    "i \<in> P \<Longrightarrow> i \<notin> S" "i \<in> Q \<Longrightarrow> i \<notin> G" "i \<in> R \<Longrightarrow> i \<notin> S" "i \<in> Q \<Longrightarrow> i \<in> R"
  using assms unfolding classes_def by blast+

lemma classesI:
  assumes "\<And>i. i \<in> L \<Longrightarrow> i \<notin> G \<and> i \<notin> R \<and> i \<notin> P" and "\<And>i. i \<in> P \<Longrightarrow> i \<notin> G \<and> i \<notin> R \<and> i \<notin> S"
    and "\<And>i. i \<in> Q \<Longrightarrow> i \<notin> G \<and> i \<in> R" and "\<And>i. i \<in> R \<Longrightarrow> i \<notin> S"
  shows "classes L G R Q P S"
  using assms by (simp add: classes_def)

lemma classes_shrink:
  assumes "classes L G R Q P S" and "L' \<subseteq> L" and "A \<subseteq> G \<union> L \<union> S" and "A \<inter> L' = {}" and "D \<subseteq> G"
  shows "classes L' (A \<union> D) R Q P S"
  unfolding classes_def
proof (rule allI)
  fix i
  have "i \<in> L' \<Longrightarrow> i \<in> L" "i \<in> A \<Longrightarrow> i \<in> G \<or> i \<in> L \<or> i \<in> S" "i \<in> A \<Longrightarrow> i \<notin> L'" "i \<in> D \<Longrightarrow> i \<in> G"
    using assms(2-5) by blast+
  then show "(i \<in> L' \<longrightarrow> i \<notin> A \<union> D \<and> i \<notin> R \<and> i \<notin> P) \<and> (i \<in> P \<longrightarrow> i \<notin> A \<union> D \<and> i \<notin> R \<and> i \<notin> S)
     \<and> (i \<in> Q \<longrightarrow> i \<notin> A \<union> D \<and> i \<in> R) \<and> (i \<in> R \<longrightarrow> i \<notin> S)"
    using spec [OF assms(1) [unfolded classes_def], of i] by simp blast
qed

lemma bounded_shrink:
  assumes "L \<union> G \<union> R \<union> P \<union> S \<subseteq> B" and "L' \<subseteq> L" and "A \<subseteq> G \<union> L \<union> S" and "D \<subseteq> G"
  shows "L' \<union> (A \<union> D) \<union> R \<union> P \<union> S \<subseteq> B"
  using assms by blast

lemma bounded_books:
  assumes "L \<union> G \<union> R \<union> P \<union> S \<subseteq> B" and "G' \<subseteq> G \<union> R" and "R' \<subseteq> R"
  shows "L \<union> G' \<union> R' \<union> P \<union> S \<subseteq> B"
  using assms by blast

lemma classes_books:
  assumes "classes L G R Q P S" and "R' \<subseteq> R" and "Q' \<subseteq> Q" and "Q' \<subseteq> R'" and "G' \<subseteq> G \<union> R" and "G' \<inter> Q' = {}"
  shows "classes L G' R' Q' P S"
  unfolding classes_def
proof (rule allI)
  fix i
  have "i \<in> R' \<Longrightarrow> i \<in> R" "i \<in> Q' \<Longrightarrow> i \<in> Q" "i \<in> Q' \<Longrightarrow> i \<in> R'" "i \<in> G' \<Longrightarrow> i \<in> G \<or> i \<in> R" "i \<in> G' \<Longrightarrow> i \<notin> Q'"
    using assms(2-6) by blast+
  then show "(i \<in> L \<longrightarrow> i \<notin> G' \<and> i \<notin> R' \<and> i \<notin> P) \<and> (i \<in> P \<longrightarrow> i \<notin> G' \<and> i \<notin> R' \<and> i \<notin> S)
     \<and> (i \<in> Q' \<longrightarrow> i \<notin> G' \<and> i \<in> R') \<and> (i \<in> R' \<longrightarrow> i \<notin> S)"
    using spec [OF assms(1) [unfolded classes_def], of i] by blast
qed

text \<open>Every identifier in use is below the counter; fresh ones and those above have no blocks.\<close>

definition below :: "sys \<Rightarrow> u64 \<Rightarrow> bool" where
  "below s c \<longleftrightarrow> counters (sdb s) SLICE_ID_KEY = Some c \<and> unat c < 2 ^ 63
     \<and> live_ids (sdb s) \<union> gone s \<union> resv_ids (sdb s) \<union> pool s \<union> snap_ids s \<subseteq> {..<unat c}
     \<and> (\<forall>(cid, ss, sid, n)\<in>set (sheavy s). sid < unat c)
     \<and> (\<forall>sid k. sid \<in> set (sfresh s) \<or> unat c \<le> sid \<longrightarrow> sblocks s (sid, k) = None)"

lemma belowI:
  assumes "counters (sdb s) SLICE_ID_KEY = Some c" and "unat c < 2 ^ 63"
    and "live_ids (sdb s) \<union> gone s \<union> resv_ids (sdb s) \<union> pool s \<union> snap_ids s \<subseteq> {..<unat c}"
    and "\<And>cid ss sid n. (cid, ss, sid, n) \<in> set (sheavy s) \<Longrightarrow> sid < unat c"
    and "\<And>sid k. sid \<in> set (sfresh s) \<or> unat c \<le> sid \<Longrightarrow> sblocks s (sid, k) = None"
  shows "below s c"
  unfolding below_def using assms by (intro conjI) auto

lemma belowD:
  assumes "below s c"
  shows "counters (sdb s) SLICE_ID_KEY = Some c" and "unat c < 2 ^ 63"
    and "live_ids (sdb s) \<union> gone s \<union> resv_ids (sdb s) \<union> pool s \<union> snap_ids s \<subseteq> {..<unat c}"
    and "(cid, ss, sid, n) \<in> set (sheavy s) \<Longrightarrow> sid < unat c"
    and "sid \<in> set (sfresh s) \<or> unat c \<le> sid \<Longrightarrow> sblocks s (sid, k) = None"
  using assms unfolding below_def by auto

definition stored :: "chunk_layout \<Rightarrow> in_memory_block_store \<Rightarrow> nat \<Rightarrow> nat \<Rightarrow> bool" where
  "stored lay m sid n \<longleftrightarrow> (\<forall>j<n. slice_byte m (block_size lay) sid j \<noteq> None)"

definition blocks_ok :: "chunk_layout \<Rightarrow> sys \<Rightarrow> bool" where
  "blocks_ok lay s \<longleftrightarrow> (\<forall>(sid, n)\<in>set (suploaded s). stored lay (sblocks s) sid n)
     \<and> (\<forall>r\<in>set (slice_rows (sdb s)). stored lay (sblocks s) (slice_id (row_desc r)) (sl_length (row_desc r)))"

text \<open>
  What a snapshot taken earlier still says about the chunk: the slices of the snapshot that are
  still mapped belong to the chunk and are in the same order, and no byte is read from a slice that
  a light compaction of the snapshot would drop.
\<close>

definition snap_ok :: "chunk_layout \<Rightarrow> slice_db \<Rightarrow> nat \<Rightarrow> slice_desc list \<Rightarrow> bool" where
  "snap_ok lay db cid ss \<longleftrightarrow>
     (\<forall>r\<in>set (slice_rows db). slice_id (row_desc r) \<in> slice_id ` set ss \<longrightarrow> chunk_id (row_desc r) = cid)
     \<and> (\<forall>x s. owner (get_slices db cid) x = Some s \<longrightarrow> slice_id s \<notin> set (replaced_of ss))
     \<and> subseq (filter (\<lambda>i. i \<in> slice_id ` set ss) (map slice_id (get_slices db cid))) (map slice_id ss)
     \<and> distinct (map slice_id ss)
     \<and> (\<forall>t\<in>set ss. chunk_id t = cid \<and> sl_offset t + sl_length t \<le> chunk_size lay)"

text \<open>
  A heavy result whose reservation is still pending holds, at each position, the byte of the slice
  that owned the position in the snapshot, as long as that slice is mapped.
\<close>

definition merged_byte :: "chunk_layout \<Rightarrow> slice_db \<Rightarrow> in_memory_block_store \<Rightarrow> slice_desc list \<Rightarrow> nat \<Rightarrow> nat \<Rightarrow> bool" where
  "merged_byte lay db m ss sid x \<longleftrightarrow> slice_byte m (block_size lay) sid x \<noteq> None \<and>
     (case owner ss x of
        None \<Rightarrow> slice_byte m (block_size lay) sid x = Some 0
      | Some t \<Rightarrow> slice_id t \<in> live_ids db \<longrightarrow>
          slice_byte m (block_size lay) sid x = slice_byte m (block_size lay) (slice_id t) (x - sl_offset t))"

definition merged_ok :: "chunk_layout \<Rightarrow> sys \<Rightarrow> nat \<times> slice_desc list \<times> nat \<times> nat \<Rightarrow> bool" where
  "merged_ok lay s h \<longleftrightarrow> (case h of (cid, ss, sid, n) \<Rightarrow>
     (cid, ss) \<in> set (ssnaps s) \<and> sid \<notin> live_ids (sdb s) \<union> pool s
     \<and> (sid \<in> pending_ids (sdb s) \<longrightarrow> n \<le> chunk_size lay \<and> (\<forall>t\<in>set ss. sl_offset t + sl_length t \<le> n)
          \<and> (\<forall>x<n. merged_byte lay (sdb s) (sblocks s) ss sid x)))"

definition heavy_sid :: "nat \<times> slice_desc list \<times> nat \<times> nat \<Rightarrow> nat" where
  "heavy_sid h = (case h of (cid, ss, sid, n) \<Rightarrow> sid)"

definition sys_inv :: "chunk_layout \<Rightarrow> sys \<Rightarrow> bool" where
  "sys_inv lay s \<longleftrightarrow> tables_ok lay (sdb s) \<and> ids_ok s \<and> (\<exists>c. below s c) \<and> blocks_ok lay s
     \<and> (\<forall>(cid, ss)\<in>set (ssnaps s). snap_ok lay (sdb s) cid ss)
     \<and> (\<forall>h\<in>set (sheavy s). merged_ok lay s h) \<and> distinct (map heavy_sid (sheavy s))"

lemma sys_invI:
  assumes "tables_ok lay (sdb s)" and "ids_ok s" and "below s c" and "blocks_ok lay s"
    and "\<And>cid ss. (cid, ss) \<in> set (ssnaps s) \<Longrightarrow> snap_ok lay (sdb s) cid ss"
    and "\<And>h. h \<in> set (sheavy s) \<Longrightarrow> merged_ok lay s h" and "distinct (map heavy_sid (sheavy s))"
  shows "sys_inv lay s"
  using assms by (auto simp: sys_inv_def)

lemma sys_invD:
  assumes "sys_inv lay s"
  shows "tables_ok lay (sdb s)" and "ids_ok s" and "\<exists>c. below s c" and "blocks_ok lay s"
    and "(cid, ss) \<in> set (ssnaps s) \<Longrightarrow> snap_ok lay (sdb s) cid ss"
    and "h \<in> set (sheavy s) \<Longrightarrow> merged_ok lay s h" and "distinct (map heavy_sid (sheavy s))"
  using assms by (auto simp: sys_inv_def)

lemma tables_okD:
  assumes "tables_ok lay db"
  shows "rows_ok db" and "delayed_keys_ok db" and "distinct (sids db)"
    and "r \<in> set (slice_rows db) \<Longrightarrow> sl_offset (row_desc r) + sl_length (row_desc r) \<le> chunk_size lay"
    and "distinct (map un_slice_id (uncommitted_rows db))"
  using assms by (auto simp: tables_ok_def)

lemma merged_okI:
  assumes "(cid, ss) \<in> set (ssnaps s)" and "sid \<notin> live_ids (sdb s) \<union> pool s"
    and "sid \<in> pending_ids (sdb s) \<Longrightarrow> n \<le> chunk_size lay"
    and "\<And>t. sid \<in> pending_ids (sdb s) \<Longrightarrow> t \<in> set ss \<Longrightarrow> sl_offset t + sl_length t \<le> n"
    and "\<And>x. sid \<in> pending_ids (sdb s) \<Longrightarrow> x < n \<Longrightarrow> merged_byte lay (sdb s) (sblocks s) ss sid x"
  shows "merged_ok lay s (cid, ss, sid, n)"
  using assms by (simp add: merged_ok_def)

lemma merged_okD:
  assumes "merged_ok lay s (cid, ss, sid, n)"
  shows "(cid, ss) \<in> set (ssnaps s)" and "sid \<notin> live_ids (sdb s) \<union> pool s"
    and "sid \<in> pending_ids (sdb s) \<Longrightarrow> n \<le> chunk_size lay"
    and "sid \<in> pending_ids (sdb s) \<Longrightarrow> t \<in> set ss \<Longrightarrow> sl_offset t + sl_length t \<le> n"
    and "sid \<in> pending_ids (sdb s) \<Longrightarrow> x < n \<Longrightarrow> merged_byte lay (sdb s) (sblocks s) ss sid x"
  using assms by (simp_all add: merged_ok_def)

lemma merged_ok_step:
  assumes "merged_ok lay s (cid, ss, sid, n)" and "set (ssnaps s) \<subseteq> set (ssnaps s')"
    and "sid \<notin> live_ids (sdb s') \<union> pool s'" and "sid \<in> pending_ids (sdb s') \<Longrightarrow> sid \<in> pending_ids (sdb s)"
    and "\<And>x. sid \<in> pending_ids (sdb s') \<Longrightarrow> merged_byte lay (sdb s) (sblocks s) ss sid x \<Longrightarrow>
      merged_byte lay (sdb s') (sblocks s') ss sid x"
  shows "merged_ok lay s' (cid, ss, sid, n)"
proof (rule merged_okI)
  show "(cid, ss) \<in> set (ssnaps s')" using merged_okD(1) [OF assms(1)] assms(2) by blast
next
  assume p: "sid \<in> pending_ids (sdb s')"
  show "n \<le> chunk_size lay" by (rule merged_okD(3) [OF assms(1) assms(4) [OF p]])
next
  fix t assume p: "sid \<in> pending_ids (sdb s')" and t: "t \<in> set ss"
  show "sl_offset t + sl_length t \<le> n" by (rule merged_okD(4) [OF assms(1) assms(4) [OF p] t])
next
  fix x assume p: "sid \<in> pending_ids (sdb s')" and x: "x < n"
  show "merged_byte lay (sdb s') (sblocks s') ss sid x"
    by (rule assms(5) [OF p merged_okD(5) [OF assms(1) assms(4) [OF p] x]])
qed (rule assms(3))

lemma init_inv: "unat c < 2 ^ 63 \<Longrightarrow> sys_inv lay (init_sys c)"
  by (rule sys_invI [of lay _ c])
    (simp_all add: init_sys_def tables_ok_def rows_ok_def delayed_keys_ok_def sids_def ids_ok_def below_def
      classes_def live_ids_def gone_def dead_ids_def resv_ids_def pending_ids_def pool_def snap_ids_def blocks_ok_def)

section \<open>Frames\<close>

definition content :: "chunk_layout \<Rightarrow> sys \<Rightarrow> nat \<Rightarrow> nat \<Rightarrow> u8 option" where
  "content lay s cid x = chunk_byte (sblocks s) (block_size lay) (get_slices (sdb s) cid) x"

definition keeps :: "chunk_layout \<Rightarrow> sys \<Rightarrow> sys \<Rightarrow> bool" where
  "keeps lay s s' \<longleftrightarrow> sys_inv lay s' \<and> (\<forall>cid x. content lay s' cid x = content lay s cid x)"

lemma keepsI:
  assumes "sys_inv lay s'" and "\<And>cid x. content lay s' cid x = content lay s cid x"
  shows "keeps lay s s'"
  using assms by (simp add: keeps_def)

lemma slice_byte_cong: "\<forall>k. m' (sid, k) = m (sid, k) \<Longrightarrow> slice_byte m' bs sid j = slice_byte m bs sid j"
  by (simp add: slice_byte_def)

lemma stored_cong: "\<forall>k. m' (sid, k) = m (sid, k) \<Longrightarrow> stored lay m' sid n = stored lay m sid n"
proof -
  assume "\<forall>k. m' (sid, k) = m (sid, k)"
  then have "slice_byte m' (block_size lay) sid j = slice_byte m (block_size lay) sid j" for j by (rule slice_byte_cong)
  then show ?thesis by (simp add: stored_def)
qed

lemma chunk_byte_cong:
  assumes "\<And>s. owner ss x = Some s \<Longrightarrow> \<forall>k. m' (slice_id s, k) = m (slice_id s, k)"
  shows "chunk_byte m' bs ss x = chunk_byte m bs ss x"
  using assms slice_byte_cong by (auto simp: chunk_byte_def split: option.splits)

lemma merged_byte_cong:
  assumes "merged_byte lay db m ss sid x" and "live_ids db' \<subseteq> live_ids db" and "\<forall>k. m' (sid, k) = m (sid, k)"
    and "\<And>i k. i \<in> live_ids db' \<Longrightarrow> m' (i, k) = m (i, k)"
  shows "merged_byte lay db' m' ss sid x"
proof -
  have "slice_byte m' (block_size lay) sid x = slice_byte m (block_size lay) sid x"
    using assms(3) by (rule slice_byte_cong)
  moreover have "slice_byte m' (block_size lay) i j = slice_byte m (block_size lay) i j" if "i \<in> live_ids db'" for i j
    using assms(4) [OF that] by (intro slice_byte_cong) simp
  ultimately show ?thesis using assms(1,2) by (auto simp: merged_byte_def split: option.splits)
qed

lemma merged_byte_live:
  assumes "\<And>u. owner ss x = Some u \<Longrightarrow> slice_id u \<in> live_ids db' \<Longrightarrow> slice_id u \<in> live_ids db"
    and "merged_byte lay db m ss sid x" and "m' = m"
  shows "merged_byte lay db' m' ss sid x"
  using assms by (cases "owner ss x") (simp_all add: merged_byte_def)

lemma snap_ok_shrinks:
  assumes "snap_ok lay db cid ss" and "shrinks db db'" and "rows_ok db"
  shows "snap_ok lay db' cid ss"
  unfolding snap_ok_def
proof (intro conjI ballI allI impI)
  fix r' assume r': "r' \<in> set (slice_rows db')" "slice_id (row_desc r') \<in> slice_id ` set ss"
  from shrinksD(4) [OF assms(2) r'(1)] obtain r where "r \<in> set (slice_rows db)" "row_key r = row_key r'" by blast
  then show "chunk_id (row_desc r') = cid" using assms(1) r'(2) by (auto simp: snap_ok_def row_key_def)
next
  fix x s' assume "owner (get_slices db' cid) x = Some s'"
  from shrinksD(5) [OF assms(2) this] obtain s where "owner (get_slices db cid) x = Some s" "slice_id s = slice_id s'" by blast
  then show "slice_id s' \<notin> set (replaced_of ss)" using assms(1) unfolding snap_ok_def by metis
next
  have "subseq (filter (\<lambda>i. i \<in> slice_id ` set ss) (map slice_id (get_slices db' cid)))
      (filter (\<lambda>i. i \<in> slice_id ` set ss) (map slice_id (get_slices db cid)))"
    by (rule subseq_filter) (rule shrinks_chunk_ids [OF assms(2,3)])
  moreover have "subseq (filter (\<lambda>i. i \<in> slice_id ` set ss) (map slice_id (get_slices db cid))) (map slice_id ss)"
    using assms(1) by (simp only: snap_ok_def)
  ultimately show "subseq (filter (\<lambda>i. i \<in> slice_id ` set ss) (map slice_id (get_slices db' cid))) (map slice_id ss)"
    by (rule subseq_order.order_trans)
qed (use assms(1) in \<open>simp_all add: snap_ok_def\<close>)

lemma tables_ok_shrinks:
  assumes "tables_ok lay db" and "shrinks db db'"
  shows "tables_ok lay db'"
  unfolding tables_ok_def
proof (intro conjI ballI)
  fix r' assume "r' \<in> set (slice_rows db')"
  from shrinksD(4) [OF assms(2) this] obtain r where r: "r \<in> set (slice_rows db)" "row_key r = row_key r'"
    "sl_length (row_desc r') \<le> sl_length (row_desc r)" by blast
  then show "sl_offset (row_desc r') + sl_length (row_desc r') \<le> chunk_size lay"
    using tables_okD(4) [OF assms(1) r(1)] by (simp add: row_key_def)
qed (use shrinksD [OF assms(2)] shrinks_distinct [OF assms(2)] tables_okD [OF assms(1)] in simp_all)

section \<open>Steps that drop or shorten slices\<close>

lemma ids_ok_shrinks:
  assumes "ids_ok s" and "shrinks (sdb s) db'" and "dead_ids db' \<subseteq> gone s \<union> live_ids (sdb s) \<union> snap_ids s"
    and "dead_ids db' \<inter> live_ids db' = {}"
  shows "ids_ok (s\<lparr>sdb := db'\<rparr>)"
proof -
  have un: "resv_ids db' = resv_ids (sdb s)" "pending_ids db' = pending_ids (sdb s)"
    by (simp_all add: resv_ids_def pending_ids_def shrinksD(6) [OF assms(2)])
  have live: "live_ids db' \<subseteq> live_ids (sdb s)" using assms(2) by (rule shrinks_live)
  have simps: "gone (s\<lparr>sdb := db'\<rparr>) = dead_ids db' \<union> fst ` set (sdoomed s)" "pool (s\<lparr>sdb := db'\<rparr>) = pool s"
    "snap_ids (s\<lparr>sdb := db'\<rparr>) = snap_ids s" and doomed: "fst ` set (sdoomed s) \<subseteq> gone s"
    by (simp_all add: gone_def pool_def snap_ids_def)
  have cl: "classes (live_ids (sdb s)) (gone s) (resv_ids (sdb s)) (pending_ids (sdb s)) (pool s) (snap_ids s)"
    using assms(1) by (simp add: ids_ok_def)
  have "classes (live_ids db') (dead_ids db' \<union> fst ` set (sdoomed s)) (resv_ids (sdb s)) (pending_ids (sdb s)) (pool s) (snap_ids s)"
    using cl live assms(3,4) doomed by (rule classes_shrink)
  then show ?thesis using assms(1) by (simp add: ids_ok_def simps un)
qed

lemma below_shrinks:
  assumes "below s c" and "shrinks (sdb s) db'" and "dead_ids db' \<subseteq> gone s \<union> live_ids (sdb s) \<union> snap_ids s"
  shows "below (s\<lparr>sdb := db'\<rparr>) c"
proof -
  have un: "resv_ids db' = resv_ids (sdb s)" by (simp add: resv_ids_def shrinksD(6) [OF assms(2)])
  have live: "live_ids db' \<subseteq> live_ids (sdb s)" using assms(2) by (rule shrinks_live)
  have simps: "gone (s\<lparr>sdb := db'\<rparr>) = dead_ids db' \<union> fst ` set (sdoomed s)" "pool (s\<lparr>sdb := db'\<rparr>) = pool s"
    "snap_ids (s\<lparr>sdb := db'\<rparr>) = snap_ids s" "fst ` set (sdoomed s) \<subseteq> gone s"
    by (simp_all add: gone_def pool_def snap_ids_def)
  have sub: "live_ids (sdb s) \<union> gone s \<union> resv_ids (sdb s) \<union> pool s \<union> snap_ids s \<subseteq> {..<unat c}"
    using assms(1) by (simp add: below_def)
  have "live_ids db' \<union> (dead_ids db' \<union> fst ` set (sdoomed s)) \<union> resv_ids (sdb s) \<union> pool s \<union> snap_ids s \<subseteq> {..<unat c}"
    using sub live assms(3) simps(4) by (rule bounded_shrink)
  then show ?thesis
    using assms(1) unfolding below_def simps by (simp add: un shrinksD(7) [OF assms(2)])
qed

lemma shrink_step_inv:
  assumes "sys_inv lay s" and "shrinks (sdb s) db'" and "dead_ids db' \<subseteq> gone s \<union> live_ids (sdb s) \<union> snap_ids s"
    and "dead_ids db' \<inter> live_ids db' = {}"
  shows "sys_inv lay (s\<lparr>sdb := db'\<rparr>)"
proof -
  note inv = sys_invD [OF assms(1)]
  obtain c where c: "below s c" using inv(3) by blast
  have live: "live_ids db' \<subseteq> live_ids (sdb s)" using assms(2) by (rule shrinks_live)
  have pend: "pending_ids db' = pending_ids (sdb s)" by (simp add: pending_ids_def shrinksD(6) [OF assms(2)])
  show ?thesis
  proof (rule sys_invI)
    show "tables_ok lay (sdb (s\<lparr>sdb := db'\<rparr>))" using tables_ok_shrinks [OF inv(1) assms(2)] by simp
    show "ids_ok (s\<lparr>sdb := db'\<rparr>)" using inv(2) assms(2-4) by (rule ids_ok_shrinks)
    show "below (s\<lparr>sdb := db'\<rparr>) c" using c assms(2,3) by (rule below_shrinks)
    show "blocks_ok lay (s\<lparr>sdb := db'\<rparr>)"
      unfolding blocks_ok_def
    proof (intro conjI ballI)
      fix r' assume "r' \<in> set (slice_rows (sdb (s\<lparr>sdb := db'\<rparr>)))"
      then have "r' \<in> set (slice_rows db')" by simp
      from shrinksD(4) [OF assms(2) this] obtain r where r: "r \<in> set (slice_rows (sdb s))" "row_key r = row_key r'"
        "sl_length (row_desc r') \<le> sl_length (row_desc r)" by blast
      then have "stored lay (sblocks s) (slice_id (row_desc r)) (sl_length (row_desc r))"
        using inv(4) by (simp add: blocks_ok_def)
      then show "stored lay (sblocks (s\<lparr>sdb := db'\<rparr>)) (slice_id (row_desc r')) (sl_length (row_desc r'))"
        using r(2,3) by (simp add: stored_def row_key_def)
    qed (use inv(4) in \<open>simp_all add: blocks_ok_def\<close>)
    show "snap_ok lay (sdb (s\<lparr>sdb := db'\<rparr>)) cid ss" if "(cid, ss) \<in> set (ssnaps (s\<lparr>sdb := db'\<rparr>))" for cid ss
      using snap_ok_shrinks [OF inv(5) assms(2) tables_okD(1) [OF inv(1)]] that by simp
    show "merged_ok lay (s\<lparr>sdb := db'\<rparr>) h" if "h \<in> set (sheavy (s\<lparr>sdb := db'\<rparr>))" for h
    proof -
      obtain cid ss sid n where h: "h = (cid, ss, sid, n)" by (cases h)
      have mo: "merged_ok lay s (cid, ss, sid, n)" using inv(6) that h by simp
      show ?thesis
        unfolding h
      proof (rule merged_okI)
        show "merged_byte lay (sdb (s\<lparr>sdb := db'\<rparr>)) (sblocks (s\<lparr>sdb := db'\<rparr>)) ss sid x"
          if "sid \<in> pending_ids (sdb (s\<lparr>sdb := db'\<rparr>))" "x < n" for x
          using merged_byte_cong [OF merged_okD(5) [OF mo] live] that pend by simp
      qed (use merged_okD [OF mo] live pend in \<open>auto simp: pool_def\<close>)
    qed
    show "distinct (map heavy_sid (sheavy (s\<lparr>sdb := db'\<rparr>)))" using inv(7) by simp
  qed
qed

section \<open>Steps that leave the mapping alone\<close>

lemma get_slices_rows_cong: "slice_rows db' = slice_rows db \<Longrightarrow> get_slices db' cid = get_slices db cid"
  by (simp add: get_slices_def)

lemma snap_ok_rows_cong: "slice_rows db' = slice_rows db \<Longrightarrow> snap_ok lay db' cid ss = snap_ok lay db cid ss"
  by (simp add: snap_ok_def get_slices_def)

lemma live_ids_rows_cong: "slice_rows db' = slice_rows db \<Longrightarrow> live_ids db' = live_ids db"
  by (simp add: live_ids_def)

text \<open>
  Deletion records, reservations and blocks change, the slices do not: the step may take blocks
  only from slices that are neither mapped nor held by a writer nor awaiting publication.
\<close>

lemma books_step_inv:
  assumes inv: "sys_inv lay s"
    and same: "sfresh s' = sfresh s" "suploaded s' = suploaded s" "ssnaps s' = ssnaps s"
    and heavy: "set (sheavy s') \<subseteq> set (sheavy s)" "distinct (map heavy_sid (sheavy s'))"
    and rows: "slice_rows (sdb s') = slice_rows (sdb s)" "next_row (sdb s') = next_row (sdb s)"
    and keys: "delayed_keys_ok (sdb s')" and counter: "counters (sdb s') SLICE_ID_KEY = counters (sdb s) SLICE_ID_KEY"
    and un: "subseq (map un_slice_id (uncommitted_rows (sdb s'))) (map un_slice_id (uncommitted_rows (sdb s)))"
      "pending_ids (sdb s') \<subseteq> pending_ids (sdb s)"
    and gone: "gone s' \<subseteq> gone s \<union> resv_ids (sdb s)" "gone s' \<inter> pending_ids (sdb s') = {}"
    and blocks: "\<And>k. sblocks s' k = sblocks s k \<or> sblocks s' k = None"
      "\<And>i k. i \<in> live_ids (sdb s) \<union> pool s \<Longrightarrow> sblocks s' (i, k) = sblocks s (i, k)"
      "\<And>h k. h \<in> set (sheavy s') \<Longrightarrow> heavy_sid h \<in> pending_ids (sdb s') \<Longrightarrow> sblocks s' (heavy_sid h, k) = sblocks s (heavy_sid h, k)"
  shows "keeps lay s s'"
proof (rule keepsI)
  note I = sys_invD [OF inv]
  obtain c where c: "below s c" using I(3) by blast
  have live: "live_ids (sdb s') = live_ids (sdb s)" using rows(1) by (rule live_ids_rows_cong)
  have resv: "resv_ids (sdb s') \<subseteq> resv_ids (sdb s)"
    using subseq_subset [OF un(1)] by (simp add: resv_ids_def)
  have simps: "pool s' = pool s" "snap_ids s' = snap_ids s" by (simp_all add: pool_def snap_ids_def same)
  have live_blocks: "\<forall>k. sblocks s' (i, k) = sblocks s (i, k)" if "i \<in> live_ids (sdb s)" for i
    using blocks(2) that by blast
  have rok: "rows_ok (sdb s)" using I(1) by (rule tables_okD)
  show "sys_inv lay s'"
  proof (rule sys_invI)
    show "tables_ok lay (sdb s')"
      using tables_okD [OF I(1)] keys subseq_distinct [OF un(1)] by (simp add: tables_ok_def rows_ok_def sids_def rows)
    have "classes (live_ids (sdb s)) (gone s') (resv_ids (sdb s')) (pending_ids (sdb s')) (pool s) (snap_ids s)"
      by (rule classes_books [OF _ resv un(2) pending_resv gone]) (use I(2) in \<open>simp add: ids_ok_def\<close>)
    then show "ids_ok s'" using I(2) by (simp add: ids_ok_def same simps live)
    show "below s' c"
    proof (rule belowI)
      show "live_ids (sdb s') \<union> gone s' \<union> resv_ids (sdb s') \<union> pool s' \<union> snap_ids s' \<subseteq> {..<unat c}"
        unfolding live simps using belowD(3) [OF c] gone(1) resv by (rule bounded_books)
      show "sid < unat c" if "(cid, ss, sid, n) \<in> set (sheavy s')" for cid ss sid n
        using belowD(4) [OF c] heavy(1) that by blast
      show "sblocks s' (sid, k) = None" if "sid \<in> set (sfresh s') \<or> unat c \<le> sid" for sid k
        using belowD(5) [OF c, of sid k] that same(1) blocks(1) [of "(sid, k)"] by simp
    qed (use counter belowD(1,2) [OF c] in simp_all)
    show "blocks_ok lay s'"
      unfolding blocks_ok_def
    proof (intro conjI ballI)
      fix u assume u: "u \<in> set (suploaded s')"
      obtain sid n where [simp]: "u = (sid, n)" by (cases u)
      have "sid \<in> fst ` set (suploaded s)" using u same by force
      then have "\<forall>k. sblocks s' (sid, k) = sblocks s (sid, k)" using blocks(2) by (simp add: pool_def)
      from stored_cong [OF this] show "case u of (sid, n) \<Rightarrow> stored lay (sblocks s') sid n"
        using I(4) u by (auto simp: blocks_ok_def same)
    next
      fix r assume r: "r \<in> set (slice_rows (sdb s'))"
      have "(slice_id \<circ> row_desc) r \<in> live_ids (sdb s)" unfolding live_ids_def using r rows(1) by (simp only: imageI)
      then have "\<forall>k. sblocks s' (slice_id (row_desc r), k) = sblocks s (slice_id (row_desc r), k)"
        using live_blocks by simp
      from stored_cong [OF this] show "stored lay (sblocks s') (slice_id (row_desc r)) (sl_length (row_desc r))"
        using I(4) r rows(1) by (simp add: blocks_ok_def)
    qed
    show "snap_ok lay (sdb s') cid ss" if "(cid, ss) \<in> set (ssnaps s')" for cid ss
      using I(5) that snap_ok_rows_cong [OF rows(1)] same by simp
    show "merged_ok lay s' h" if h: "h \<in> set (sheavy s')" for h
    proof -
      obtain cid ss sid n where h_eq: "h = (cid, ss, sid, n)" by (cases h)
      have mo: "merged_ok lay s (cid, ss, sid, n)" using I(6) heavy(1) h h_eq by blast
      have kept: "sid \<in> pending_ids (sdb s') \<Longrightarrow> \<forall>k. sblocks s' (sid, k) = sblocks s (sid, k)"
        using blocks(3) [OF h] by (simp add: h_eq heavy_sid_def)
      show ?thesis
        unfolding h_eq
      proof (rule merged_okI)
        show "merged_byte lay (sdb s') (sblocks s') ss sid x" if p: "sid \<in> pending_ids (sdb s')" "x < n" for x
        proof -
          have "merged_byte lay (sdb s) (sblocks s) ss sid x" using merged_okD(5) [OF mo] p un(2) by blast
          then show ?thesis by (rule merged_byte_cong) (simp_all add: live kept [OF p(1)] live_blocks)
        qed
        show "n \<le> chunk_size lay" if "sid \<in> pending_ids (sdb s')" using merged_okD(3) [OF mo] that un(2) by blast
        show "sl_offset t + sl_length t \<le> n" if "sid \<in> pending_ids (sdb s')" "t \<in> set ss" for t
          using merged_okD(4) [OF mo _ that(2)] that(1) un(2) by blast
      qed (use merged_okD(1,2) [OF mo] in \<open>simp_all add: same simps live\<close>)
    qed
  qed (use heavy in simp)
  show "content lay s' cid x = content lay s cid x" for cid x
    unfolding content_def get_slices_rows_cong [OF rows(1)]
    by (rule chunk_byte_cong) (use owner_live [OF rok] live_blocks in blast)
qed

text \<open>Extending the doomed list with members of two known classes.\<close>

lemma heavy_remove1_distinct:
  assumes "distinct (map heavy_sid hs)" and "h \<in> set hs"
  shows "set (remove1 h hs) \<subseteq> set hs" and "distinct (map heavy_sid (remove1 h hs))"
    and "k \<in> set (remove1 h hs) \<Longrightarrow> heavy_sid k \<noteq> heavy_sid h"
proof -
  have d: "distinct hs" using assms(1) by (simp add: distinct_map)
  then have set: "set (remove1 h hs) = set hs - {h}" by simp
  then show "set (remove1 h hs) \<subseteq> set hs" by blast
  have inj: "inj_on heavy_sid (set hs)" using assms(1) by (simp add: distinct_map)
  then have "inj_on heavy_sid (set (remove1 h hs))" by (rule inj_on_subset) (simp add: set)
  then show "distinct (map heavy_sid (remove1 h hs))" using d by (simp add: distinct_map)
  show "heavy_sid k \<noteq> heavy_sid h" if "k \<in> set (remove1 h hs)"
    using inj_onD [OF inj, of k h] that set assms(2) by auto
qed

section \<open>Garbage collection\<close>

lemma disjoint_mono: "A \<subseteq> B \<Longrightarrow> B \<inter> C = {} \<Longrightarrow> A \<inter> C = {}"
  by blast

lemma gone_live: "ids_ok s \<Longrightarrow> dead_ids (sdb s) \<inter> live_ids (sdb s) = {}"
proof -
  assume "ids_ok s"
  then have "classes (live_ids (sdb s)) (gone s) (resv_ids (sdb s)) (pending_ids (sdb s)) (pool s) (snap_ids s)"
    by (simp add: ids_ok_def)
  note classesD(1) [OF this]
  then show ?thesis unfolding gone_def by blast
qed

lemma gone_pending: "ids_ok s \<Longrightarrow> gone s \<inter> pending_ids (sdb s) = {}"
proof -
  assume "ids_ok s"
  then have "classes (live_ids (sdb s)) (gone s) (resv_ids (sdb s)) (pending_ids (sdb s)) (pool s) (snap_ids s)"
    by (simp add: ids_ok_def)
  note classesD(7) [OF this]
  then show ?thesis by blast
qed

lemma gone_upd [simp]:
  "gone (s\<lparr>sdb := db', sdoomed := d\<rparr>) = dead_ids db' \<union> fst ` set d"
  "gone (s\<lparr>sdb := db'\<rparr>) = dead_ids db' \<union> fst ` set (sdoomed s)"
  "gone (s\<lparr>sdb := db', sblocks := m\<rparr>) = dead_ids db' \<union> fst ` set (sdoomed s)"
  by (simp_all add: gone_def)

text \<open>The special case in which the block store is not touched.\<close>

lemma books_only:
  assumes "sys_inv lay s"
    and "slice_rows db' = slice_rows (sdb s)" and "next_row db' = next_row (sdb s)"
    and "delayed_keys_ok db'" and "counters db' SLICE_ID_KEY = counters (sdb s) SLICE_ID_KEY"
    and "subseq (map un_slice_id (uncommitted_rows db')) (map un_slice_id (uncommitted_rows (sdb s)))"
    and "pending_ids db' \<subseteq> pending_ids (sdb s)"
    and "dead_ids db' \<union> fst ` set d \<subseteq> gone s \<union> resv_ids (sdb s)"
    and "(dead_ids db' \<union> fst ` set d) \<inter> pending_ids db' = {}"
  shows "keeps lay s (s\<lparr>sdb := db', sdoomed := d\<rparr>)"
proof -
  show ?thesis
  proof (rule books_step_inv [OF assms(1)])
    show "gone (s\<lparr>sdb := db', sdoomed := d\<rparr>) \<subseteq> gone s \<union> resv_ids (sdb s)"
      unfolding gone_upd by (rule assms(8))
    show "gone (s\<lparr>sdb := db', sdoomed := d\<rparr>) \<inter> pending_ids (sdb (s\<lparr>sdb := db', sdoomed := d\<rparr>)) = {}"
      unfolding gone_upd using assms(9) by simp
  qed (simp_all add: assms(2-7) sys_invD(7) [OF assms(1)])
qed

lemma gc_take_keeps:
  assumes "sys_inv lay s" and "process_delayed_slices now (sdb s) batch age = (ready, db')"
  shows "keeps lay s (s\<lparr>sdb := db', sdoomed := map (\<lambda>(sid, off, sz, did). (sid, sz)) ready @ sdoomed s\<rparr>)"
proof -
  note I = sys_invD [OF assms(1)]
  note eff = process_delayed_slices_effect [OF assms(2) gone_live [OF I(2)] tables_okD(2) [OF I(1)]]
  let ?d = "map (\<lambda>(sid, off, sz, did). (sid, sz)) ready @ sdoomed s"
  have pend: "pending_ids db' = pending_ids (sdb s)" by (simp add: pending_ids_def eff)
  have "fst ` set (map (\<lambda>(sid, off, sz, did). (sid, sz)) ready) = fst ` set ready"
    by (simp add: image_image case_prod_beta)
  then have "fst ` set ?d = fst ` set ready \<union> fst ` set (sdoomed s)" by (simp add: image_Un)
  moreover have "dead_ids (sdb s) \<subseteq> gone s" "fst ` set (sdoomed s) \<subseteq> gone s" by (simp_all add: gone_def)
  ultimately have gone: "dead_ids db' \<union> fst ` set ?d \<subseteq> gone s" using eff(6,7) by (simp only: Un_subset_iff) (meson subset_trans)
  show ?thesis
  proof (rule books_only [OF assms(1)])
    show "dead_ids db' \<union> fst ` set ?d \<subseteq> gone s \<union> resv_ids (sdb s)" using gone by (rule le_supI1)
    show "(dead_ids db' \<union> fst ` set ?d) \<inter> pending_ids db' = {}"
      unfolding pend using gone gone_pending [OF I(2)] by (rule disjoint_mono)
  qed (simp_all add: eff pend)
qed

lemma gc_orphans_keeps:
  assumes "sys_inv lay s" and "cleanup_orphan_uncommitted_slices now (sdb s) age batch = (orphans, db')"
  shows "keeps lay s (s\<lparr>sdb := db', sdoomed := orphans @ sdoomed s\<rparr>)"
proof -
  note I = sys_invD [OF assms(1)]
  note eff = orphans_effect [OF assms(2) tables_okD(5) [OF I(1)]]
  have dead: "dead_ids db' = dead_ids (sdb s)" by (simp add: dead_ids_def eff(3))
  have ids: "dead_ids db' \<union> fst ` set (orphans @ sdoomed s) = gone s \<union> fst ` set orphans"
    by (auto simp: dead gone_def image_Un)
  have "gone s \<inter> pending_ids db' = {}" using gone_pending [OF I(2)] eff(7) by blast
  show ?thesis
  proof (rule books_only [OF assms(1)])
    show "dead_ids db' \<union> fst ` set (orphans @ sdoomed s) \<subseteq> gone s \<union> resv_ids (sdb s)"
      unfolding ids using eff(8) by (rule Un_mono [OF subset_refl])
    show "(dead_ids db' \<union> fst ` set (orphans @ sdoomed s)) \<inter> pending_ids db' = {}"
      unfolding ids Int_Un_distrib2 using eff(9) \<open>gone s \<inter> pending_ids db' = {}\<close> by simp
    show "delayed_keys_ok db'" using tables_okD(2) [OF I(1)] by (simp add: delayed_keys_ok_def eff(3,4))
  qed (simp_all add: eff)
qed

lemma gc_confirm_keeps:
  assumes "sys_inv lay s"
  shows "keeps lay s (s\<lparr>sdb := confirm_delayed_deleted (sdb s) ids\<rparr>)"
proof -
  note I = sys_invD [OF assms]
  note eff = confirm_delayed_effect [of "sdb s" ids]
  have pend: "pending_ids (confirm_delayed_deleted (sdb s) ids) = pending_ids (sdb s)" by (simp add: pending_ids_def eff)
  have gone: "dead_ids (confirm_delayed_deleted (sdb s) ids) \<union> fst ` set (sdoomed s) \<subseteq> gone s"
    using eff(6) by (auto simp: gone_def)
  have "keeps lay s (s\<lparr>sdb := confirm_delayed_deleted (sdb s) ids, sdoomed := sdoomed s\<rparr>)"
  proof (rule books_only [OF assms])
    show "dead_ids (confirm_delayed_deleted (sdb s) ids) \<union> fst ` set (sdoomed s) \<subseteq> gone s \<union> resv_ids (sdb s)"
      using gone by (rule le_supI1)
    show "(dead_ids (confirm_delayed_deleted (sdb s) ids) \<union> fst ` set (sdoomed s)) \<inter> pending_ids (confirm_delayed_deleted (sdb s) ids) = {}"
      unfolding pend using gone gone_pending [OF I(2)] by (rule disjoint_mono)
  qed (simp_all add: eff pend tables_okD(2) [OF I(1)])
  then show ?thesis by simp
qed

lemma gc_forget_keeps:
  assumes "sys_inv lay s"
  shows "keeps lay s (s\<lparr>sdb := delete_uncommitted_slices (sdb s) ids\<rparr>)"
proof -
  note I = sys_invD [OF assms]
  let ?db = "delete_uncommitted_slices (sdb s) ids"
  obtain P where db: "?db = (sdb s)\<lparr>uncommitted_rows := filter P (uncommitted_rows (sdb s))\<rparr>"
  proof (cases "ids = []")
    case True
    then have "?db = (sdb s)\<lparr>uncommitted_rows := filter (\<lambda>_. True) (uncommitted_rows (sdb s))\<rparr>"
      by (simp add: delete_uncommitted_slices_def)
    then show ?thesis by (rule that)
  qed (auto simp: delete_uncommitted_slices_def intro: that)
  note eff = uncommitted_filter_effect [OF db]
  have dead: "dead_ids ?db = dead_ids (sdb s)" by (simp add: db dead_ids_def)
  have gone: "dead_ids ?db \<union> fst ` set (sdoomed s) = gone s" by (simp add: dead gone_def)
  have "keeps lay s (s\<lparr>sdb := ?db, sdoomed := sdoomed s\<rparr>)"
  proof (rule books_only [OF assms])
    show "(dead_ids ?db \<union> fst ` set (sdoomed s)) \<inter> pending_ids ?db = {}"
      unfolding gone using gone_pending [OF I(2)] eff(2) by blast
    show "delayed_keys_ok ?db" using tables_okD(2) [OF I(1)] by (simp add: db delayed_keys_ok_def)
    show "dead_ids ?db \<union> fst ` set (sdoomed s) \<subseteq> gone s \<union> resv_ids (sdb s)" unfolding gone by simp
  qed (use eff in \<open>simp_all add: db\<close>)
  then show ?thesis by simp
qed

lemma gc_delete_keeps:
  assumes "sys_inv lay s" and "(sid, sz) \<in> set (sdoomed s)"
    and "delete_slice_blocks mem_delete_range mem_delete_coalesced_group sid sz bsize (sdb s) (sblocks s) = (res, db', m')"
  shows "keeps lay s (s\<lparr>sdb := db', sblocks := m'\<rparr>)"
proof -
  note I = sys_invD [OF assms(1)]
  note eff = delete_slice_blocks_effect [OF assms(3)]
  have cl: "classes (live_ids (sdb s)) (gone s) (resv_ids (sdb s)) (pending_ids (sdb s)) (pool s) (snap_ids s)"
    using I(2) by (simp add: ids_ok_def)
  have doomed: "sid \<in> gone s" using assms(2) by (force simp: gone_def)
  have pend: "pending_ids db' = pending_ids (sdb s)" by (simp add: pending_ids_def eff)
  have dead: "dead_ids db' = dead_ids (sdb s)" by (simp add: dead_ids_def eff)
  have gone: "gone (s\<lparr>sdb := db', sblocks := m'\<rparr>) = gone s" by (simp add: gone_def dead)
  have other: "m' (i, k) = sblocks s (i, k)" if "i \<noteq> sid" for i k using eff(7) that by simp
  show ?thesis
  proof (rule books_step_inv [OF assms(1)])
    show "sblocks (s\<lparr>sdb := db', sblocks := m'\<rparr>) k = sblocks s k \<or> sblocks (s\<lparr>sdb := db', sblocks := m'\<rparr>) k = None" for k
      using eff(8) by simp
    show "sblocks (s\<lparr>sdb := db', sblocks := m'\<rparr>) (i, k) = sblocks s (i, k)" if "i \<in> live_ids (sdb s) \<union> pool s" for i k
    proof -
      have "i \<notin> gone s" using classesD(1) [OF cl, of i] classesD(4) [OF cl, of i] that by blast
      then have "i \<noteq> sid" using doomed by blast
      then show ?thesis by (simp add: other)
    qed
    show "sblocks (s\<lparr>sdb := db', sblocks := m'\<rparr>) (heavy_sid h, k) = sblocks s (heavy_sid h, k)"
      if "heavy_sid h \<in> pending_ids (sdb (s\<lparr>sdb := db', sblocks := m'\<rparr>))" for h k
    proof -
      have "heavy_sid h \<notin> gone s" using classesD(7) [OF cl, of "heavy_sid h"] that pend by simp
      then have "heavy_sid h \<noteq> sid" using doomed by blast
      then show ?thesis by (simp add: other)
    qed
    show "gone (s\<lparr>sdb := db', sblocks := m'\<rparr>) \<subseteq> gone s \<union> resv_ids (sdb s)" unfolding gone by simp
    show "gone (s\<lparr>sdb := db', sblocks := m'\<rparr>) \<inter> pending_ids (sdb (s\<lparr>sdb := db', sblocks := m'\<rparr>)) = {}"
      unfolding gone using gone_pending [OF I(2)] pend by simp
    show "delayed_keys_ok (sdb (s\<lparr>sdb := db', sblocks := m'\<rparr>))"
      using tables_okD(2) [OF I(1)] by (simp add: delayed_keys_ok_def eff)
  qed (simp_all add: eff(1-6) pend I(7))
qed

section \<open>Light compaction, truncation and snapshots\<close>

lemma tables_bounded:
  assumes "tables_ok lay db" and "chunk_size lay \<le> u32_limit"
  shows "slices_bounded (map row_desc (slice_rows db))"
proof -
  have "sl_offset (row_desc r) + sl_length (row_desc r) < u64_limit" if "r \<in> set (slice_rows db)" for r
    using tables_okD(4) [OF assms(1) that] assms(2) by (simp add: u32_limit_def u64_limit_def)
  then show ?thesis by (auto simp: slices_bounded_def)
qed

lemma truncate_inv:
  assumes "sys_inv lay s" and "chunk_size lay \<le> u32_limit"
    and "prune_slices_for_truncate now (sdb s) ino new_size old_size csize = Inr db'"
  shows "sys_inv lay (s\<lparr>sdb := db'\<rparr>)" and "shrinks (sdb s) db'"
proof -
  note I = sys_invD [OF assms(1)]
  note eff = prune_truncate_shrinks [OF tables_okD(1,2) [OF I(1)] tables_bounded [OF I(1) assms(2)] assms(3)]
  show "shrinks (sdb s) db'" by (rule eff(1))
  have "dead_ids db' \<inter> live_ids db' \<subseteq> dead_ids (sdb s) \<inter> live_ids (sdb s)"
    using eff(3) [OF tables_okD(3) [OF I(1)]] shrinks_live [OF eff(1)] by blast
  then have "dead_ids db' \<inter> live_ids db' = {}" using gone_live [OF I(2)] by simp
  moreover have "dead_ids db' \<subseteq> gone s \<union> live_ids (sdb s) \<union> snap_ids s" using eff(2) by (auto simp: gone_def)
  ultimately show "sys_inv lay (s\<lparr>sdb := db'\<rparr>)" by (intro shrink_step_inv [OF assms(1) eff(1)])
qed

lemma replaced_iff: "i \<in> set (find_replaced_ids orig kept) \<longleftrightarrow> i \<in> slice_id ` set orig \<and> i \<notin> slice_id ` set kept"
  by (auto simp: find_replaced_ids_def)

lemma replaced_of_ids: "set (replaced_of ss) \<subseteq> slice_id ` set ss"
  by (auto simp: find_replaced_ids_def)

lemma snap_fits:
  assumes "sys_inv lay s" and "chunk_size lay \<le> u32_limit" and "(cid, ss) \<in> set (ssnaps s)"
  shows "\<forall>t\<in>set ss. slice_id t < u64_limit \<and> sl_offset t < u64_limit"
proof
  fix t assume t: "t \<in> set ss"
  obtain c where c: "below s c" using sys_invD(3) [OF assms(1)] by blast
  have "slice_id t \<in> snap_ids s" unfolding snap_ids_def using assms(3) t by force
  then have "slice_id t < unat c" using belowD(3) [OF c] by blast
  then have "slice_id t < u64_limit" using belowD(2) [OF c] by (simp add: u64_limit_def)
  moreover have "sl_offset t + sl_length t \<le> chunk_size lay"
    using sys_invD(5) [OF assms(1,3)] t by (simp add: snap_ok_def)
  then have "sl_offset t < u64_limit" using assms(2) by (simp add: u32_limit_def u64_limit_def)
  ultimately show "slice_id t < u64_limit \<and> sl_offset t < u64_limit" by simp
qed

lemma light_keeps:
  assumes "sys_inv lay s" and "chunk_size lay \<le> u32_limit" and "(cid, ss) \<in> set (ssnaps s)"
    and "compact_light_inner now (sdb s) ss cid = Inr (res, db')"
  shows "keeps lay s (s\<lparr>sdb := db'\<rparr>)"
proof -
  note I = sys_invD [OF assms(1)]
  have snap: "snap_ok lay (sdb s) cid ss" using I(5) [OF assms(3)] .
  consider "db' = sdb s" | ds where "fst ` set ds = set (replaced_of ss)" "db' = swap_slices now (sdb s) cid [] ds"
    using compact_light_cases [OF assms(4) snap_fits [OF assms(1-3)]] by blast
  then show ?thesis
  proof cases
    case 1
    then show ?thesis using assms(1) by (simp add: keeps_def)
  next
    case 2
    have own: "slice_id t \<notin> set (replaced_of ss)" if "owner (get_slices (sdb s) cid) x = Some t" for x t
      using snap that unfolding snap_ok_def by blast
    have sh1: "shrinks (sdb s) db'"
      by (rule light_shrinks(1) [OF tables_okD(1,2) [OF I(1)] 2]) (rule own)
    have sh2: "owner (get_slices db' c) x = owner (get_slices (sdb s) c) x" for c x
      by (rule light_shrinks(2) [OF tables_okD(1,2) [OF I(1)] 2]) (rule own)
    note swap = swap_none [OF tables_okD(1,2) [OF I(1)] 2(2)]
    have "set (replaced_of ss) \<subseteq> snap_ids s"
      using replaced_of_ids [of ss] assms(3) unfolding snap_ids_def by force
    then have dead: "dead_ids db' \<subseteq> gone s \<union> live_ids (sdb s) \<union> snap_ids s"
      using swap(6) unfolding 2(1) gone_def by blast
    have "i \<notin> live_ids db'" if "i \<in> dead_ids db'" for i
    proof
      assume "i \<in> live_ids db'"
      then obtain r where r: "r \<in> set (slice_rows db')" "slice_id (row_desc r) = i" by (auto simp: live_ids_def)
      then have row: "r \<in> set (slice_rows (sdb s))" "\<not> (chunk_id (row_desc r) = cid \<and> i \<in> set (replaced_of ss))"
        unfolding swap(3) 2(1) by auto
      have "i \<in> live_ids (sdb s)" using shrinks_live [OF sh1] \<open>i \<in> live_ids db'\<close> by blast
      then have "i \<in> set (replaced_of ss)" using swap(6) that gone_live [OF I(2)] unfolding 2(1) by blast
      then have "chunk_id (row_desc r) = cid"
        using snap row(1) r(2) replaced_of_ids [of ss] unfolding snap_ok_def by blast
      then show False using row(2) \<open>i \<in> set (replaced_of ss)\<close> by simp
    qed
    then have "dead_ids db' \<inter> live_ids db' = {}" by blast
    then have "sys_inv lay (s\<lparr>sdb := db'\<rparr>)" by (intro shrink_step_inv [OF assms(1) sh1 dead])
    moreover have "content lay (s\<lparr>sdb := db'\<rparr>) c x = content lay s c x" for c x
      by (simp add: content_def chunk_byte_def sh2)
    ultimately show ?thesis by (rule keepsI)
  qed
qed

lemma snap_ok_now:
  assumes "tables_ok lay db" and "chunk_size lay \<le> u32_limit"
  shows "snap_ok lay db cid (get_slices db cid)"
  unfolding snap_ok_def
proof (intro conjI ballI allI impI)
  have rok: "rows_ok db" and dist: "distinct (sids db)" using tables_okD [OF assms(1)] by blast+
  have in_rows: "\<exists>r\<in>set (slice_rows db). t = row_desc r \<and> chunk_id t = cid" if "t \<in> set (get_slices db cid)" for t
    using that by (auto simp: get_slices_rows [OF rok])
  have "subseq (map slice_id (get_slices db cid)) (sids db)"
    unfolding map_get_slices [OF rok] sids_keys by (intro subseq_map subseq_filter_left)
  then show distinct: "distinct (map slice_id (get_slices db cid))" using dist by (rule subseq_distinct)
  show "chunk_id (row_desc r) = cid" if r: "r \<in> set (slice_rows db)" "slice_id (row_desc r) \<in> slice_id ` set (get_slices db cid)" for r
  proof -
    obtain t where t: "t \<in> set (get_slices db cid)" "slice_id (row_desc r) = slice_id t" using r(2) by blast
    then obtain q where q: "q \<in> set (slice_rows db)" "t = row_desc q" "chunk_id t = cid" using in_rows by blast
    then show ?thesis using sid_inj [OF dist r(1) q(1)] t(2) by simp
  qed
  have bnd: "slices_bounded (get_slices db cid)"
    using tables_bounded [OF assms] by (auto simp: get_slices_rows [OF rok] slices_bounded_def)
  show "slice_id t \<notin> set (replaced_of (get_slices db cid))" if "owner (get_slices db cid) x = Some t" for x t
  proof -
    have "owner (remove_fully_covered (get_slices db cid)) x = Some t"
      using owner_remove_fully_covered [OF bnd] that by simp
    then have "t \<in> set (remove_fully_covered (get_slices db cid))" using owner_in_set by blast
    then have "slice_id t \<in> set (map slice_id (remove_fully_covered (get_slices db cid)))" by simp
    then show ?thesis by (simp add: replaced_iff)
  qed
  show "subseq (filter (\<lambda>i. i \<in> slice_id ` set (get_slices db cid)) (map slice_id (get_slices db cid))) (map slice_id (get_slices db cid))"
    by (rule subseq_filter_left)
  show "chunk_id t = cid" "sl_offset t + sl_length t \<le> chunk_size lay" if "t \<in> set (get_slices db cid)" for t
    using in_rows [OF that] tables_okD(4) [OF assms(1)] by blast+
qed

lemma classes_snapshot:
  assumes "classes L G R Q P S" and "A \<subseteq> L"
  shows "classes L G R Q P (A \<union> S)"
  unfolding classes_def
proof (rule allI)
  fix i
  have "i \<in> A \<Longrightarrow> i \<in> L" using assms(2) by blast
  then show "(i \<in> L \<longrightarrow> i \<notin> G \<and> i \<notin> R \<and> i \<notin> P) \<and> (i \<in> P \<longrightarrow> i \<notin> G \<and> i \<notin> R \<and> i \<notin> A \<union> S)
     \<and> (i \<in> Q \<longrightarrow> i \<notin> G \<and> i \<in> R) \<and> (i \<in> R \<longrightarrow> i \<notin> A \<union> S)"
    using spec [OF assms(1) [unfolded classes_def], of i] by blast
qed

lemma snapshot_keeps:
  assumes "sys_inv lay s" and "chunk_size lay \<le> u32_limit"
  shows "keeps lay s (s\<lparr>ssnaps := (cid, cs_slices (snapshot (sdb s) cid)) # ssnaps s\<rparr>)"
proof -
  note I = sys_invD [OF assms(1)]
  obtain c where c: "below s c" using I(3) by blast
  let ?ss = "get_slices (sdb s) cid"
  let ?s = "s\<lparr>ssnaps := (cid, ?ss) # ssnaps s\<rparr>"
  have same: "pool ?s = pool s" "gone ?s = gone s" by (simp_all add: pool_def gone_def)
  have ids: "snap_ids ?s = slice_id ` set ?ss \<union> snap_ids s" by (simp add: snap_ids_def)
  have sub: "slice_id ` set ?ss \<subseteq> live_ids (sdb s)" by (rule get_slices_ids [OF tables_okD(1) [OF I(1)]])
  have "sys_inv lay ?s"
  proof (rule sys_invI)
    show "ids_ok ?s"
      using I(2) classes_snapshot [OF _ sub] by (simp add: ids_ok_def same ids)
    show "below ?s c"
    proof (rule belowI)
      show "live_ids (sdb ?s) \<union> gone ?s \<union> resv_ids (sdb ?s) \<union> pool ?s \<union> snap_ids ?s \<subseteq> {..<unat c}"
        unfolding same ids using belowD(3) [OF c] subset_trans [OF sub] by simp
    qed (use belowD [OF c] in simp_all)
    show "blocks_ok lay ?s" using I(4) by (simp add: blocks_ok_def)
    show "snap_ok lay (sdb ?s) i ss" if "(i, ss) \<in> set (ssnaps ?s)" for i ss
      using that I(5) snap_ok_now [OF I(1) assms(2)] by auto
    show "merged_ok lay ?s h" if "h \<in> set (sheavy ?s)" for h
      using I(6) [of h] that by (cases h) (simp add: merged_ok_def same)
  qed (use I(1,7) in simp_all)
  moreover have "content lay ?s i x = content lay s i x" for i x by (simp add: content_def)
  ultimately have "keeps lay s ?s" by (rule keepsI)
  then show ?thesis by (simp add: snapshot_def Let_def)
qed

section \<open>Writers\<close>

lemma classes_alloc:
  assumes "classes L G R Q P S" and "L \<union> G \<union> R \<union> P \<union> S \<subseteq> {..<n}"
  shows "classes L G R Q (insert n P) S" and "classes L G (insert n R) (insert n Q) P S"
proof -
  have n: "n \<notin> L" "n \<notin> G" "n \<notin> R" "n \<notin> P" "n \<notin> S" using assms(2) by auto
  show "classes L G R Q (insert n P) S"
    by (rule classesI) (use n classesD [OF assms(1)] in auto)
  show "classes L G (insert n R) (insert n Q) P S"
    by (rule classesI) (use n classesD [OF assms(1)] in auto)
qed

lemma counter_only:
  assumes "db' = db\<lparr>counters := f\<rparr>"
  shows "slice_rows db' = slice_rows db" "next_row db' = next_row db" "live_ids db' = live_ids db" "dead_ids db' = dead_ids db"
    "resv_ids db' = resv_ids db" "pending_ids db' = pending_ids db" "tables_ok lay db' = tables_ok lay db"
    "uncommitted_rows db' = uncommitted_rows db"
  by (simp_all add: assms live_ids_def dead_ids_def resv_ids_def pending_ids_def tables_ok_def rows_ok_def
      delayed_keys_ok_def sids_def)

lemma alloc_keeps:
  assumes "sys_inv lay s" and "next_id (sdb s) SLICE_ID_KEY = Inr (v, db')"
  shows "keeps lay s (s\<lparr>sdb := db', sfresh := unat v # sfresh s\<rparr>)"
proof -
  note I = sys_invD [OF assms(1)]
  obtain c where c: "below s c" using I(3) by blast
  note nid = next_id_effect [OF assms(2) belowD(1,2) [OF c]]
  note frame = counter_only [OF nid(2)]
  let ?s = "s\<lparr>sdb := db', sfresh := unat v # sfresh s\<rparr>"
  have same: "pool ?s = insert (unat c) (pool s)" "gone ?s = gone s" "snap_ids ?s = snap_ids s"
    by (simp_all add: pool_def gone_def snap_ids_def frame nid(1))
  have new: "unat c \<notin> pool s" using belowD(3) [OF c] by auto
  have "sys_inv lay ?s"
  proof (rule sys_invI)
    show "tables_ok lay (sdb ?s)" using I(1) by (simp add: frame)
    have d: "unat c \<notin> set (sfresh s @ map fst (suploaded s))" using new by (simp add: pool_def)
    have "classes (live_ids (sdb s)) (gone s) (resv_ids (sdb s)) (pending_ids (sdb s)) (pool s) (snap_ids s)"
      using I(2) by (simp add: ids_ok_def)
    then have "classes (live_ids (sdb ?s)) (gone ?s) (resv_ids (sdb ?s)) (pending_ids (sdb ?s)) (pool ?s) (snap_ids ?s)"
      using classes_alloc(1) [OF _ belowD(3) [OF c]] unfolding same by (simp add: frame)
    then show "ids_ok ?s"
      unfolding ids_ok_def using I(2) d by (auto simp: ids_ok_def nid(1))
    show "below ?s (c + 1)"
    proof (rule belowI)
      show "live_ids (sdb ?s) \<union> gone ?s \<union> resv_ids (sdb ?s) \<union> pool ?s \<union> snap_ids ?s \<subseteq> {..<unat (c + 1)}"
        unfolding same nid(3) using belowD(3) [OF c] by (auto simp: frame less_Suc_eq)
      show "sid < unat (c + 1)" if "(cid, ss, sid, n) \<in> set (sheavy ?s)" for cid ss sid n
        unfolding nid(3) using belowD(4) [OF c, of cid ss sid n] that by simp
      show "sblocks ?s (sid, k) = None" if "sid \<in> set (sfresh ?s) \<or> unat (c + 1) \<le> sid" for sid k
        using that belowD(5) [OF c, of sid k] unfolding nid(3) by (auto simp: nid(1))
    qed (use nid in simp_all)
    show "blocks_ok lay ?s" using I(4) by (simp add: blocks_ok_def frame)
    show "snap_ok lay (sdb ?s) cid ss" if "(cid, ss) \<in> set (ssnaps ?s)" for cid ss
      using I(5) that snap_ok_rows_cong [OF frame(1)] by simp
    show "merged_ok lay ?s h" if "h \<in> set (sheavy ?s)" for h
    proof -
      obtain cid ss sid n where h: "h = (cid, ss, sid, n)" by (cases h)
      have ne: "sid \<noteq> unat c" using belowD(4) [OF c, of cid ss sid n] that h by auto
      have mo: "merged_ok lay s (cid, ss, sid, n)" using I(6) that h by simp
      show ?thesis
        unfolding h
      proof (rule merged_ok_step [OF mo])
        show "sid \<notin> live_ids (sdb ?s) \<union> pool ?s" using merged_okD(2) [OF mo] ne unfolding same by (simp add: frame)
        show "merged_byte lay (sdb ?s) (sblocks ?s) ss sid x" if "merged_byte lay (sdb s) (sblocks s) ss sid x" for x
          using that by (rule merged_byte_cong) (simp_all add: frame)
      qed (simp_all add: frame)
    qed
  qed (use I(7) in simp)
  moreover have "content lay ?s i x = content lay s i x" for i x
    by (simp add: content_def get_slices_rows_cong [OF frame(1)])
  ultimately show ?thesis by (rule keepsI)
qed

lemma upload_keeps:
  assumes "sys_inv lay s" and "0 < block_size lay" and "chunk_size lay \<le> u32_limit"
    and "sid \<in> set (sfresh s)" and "length (concat chunks) \<le> chunk_size lay"
    and "write_at_vectored mem_write_fresh_range (sblocks s) lay sid 0 chunks = (Inr (), m')"
  shows "keeps lay s (s\<lparr>sblocks := m', sfresh := remove1 sid (sfresh s),
      suploaded := (sid, length (concat chunks)) # suploaded s\<rparr>)"
proof -
  note I = sys_invD [OF assms(1)]
  obtain c where c: "below s c" using I(3) by blast
  let ?n = "length (concat chunks)"
  let ?s = "s\<lparr>sblocks := m', sfresh := remove1 sid (sfresh s), suploaded := (sid, ?n) # suploaded s\<rparr>"
  have none: "\<forall>i. sblocks s (sid, i) = None" using belowD(5) [OF c] assms(4) by blast
  have lim: "0 + ?n \<le> u32_limit" using assms(3,5) by simp
  have up: "\<forall>j<?n. slice_byte m' (block_size lay) sid j = Some (concat chunks ! j)"
    "\<forall>key. fst key \<noteq> sid \<longrightarrow> m' key = sblocks s key"
    using mem.write_at_vectored_correct [OF assms(2) lim none] assms(6) by auto
  have st: "stored lay m' sid ?n" using up(1) by (simp add: stored_def)
  have dist: "distinct (sfresh s @ map fst (suploaded s))" using I(2) by (simp add: ids_ok_def)
  have cl: "classes (live_ids (sdb s)) (gone s) (resv_ids (sdb s)) (pending_ids (sdb s)) (pool s) (snap_ids s)"
    using I(2) by (simp add: ids_ok_def)
  have inpool: "sid \<in> pool s" using assms(4) by (simp add: pool_def)
  have same: "pool ?s = pool s" "gone ?s = gone s" "snap_ids ?s = snap_ids s"
    using dist assms(4) by (auto simp: pool_def gone_def snap_ids_def)
  have other: "\<forall>k. m' (i, k) = sblocks s (i, k)" if "i \<noteq> sid" for i using up(2) that by simp
  have live: "\<forall>k. m' (i, k) = sblocks s (i, k)" if "i \<in> live_ids (sdb s)" for i
    using other [of i] classesD(3) [OF cl that] inpool by blast
  have "sys_inv lay ?s"
  proof (rule sys_invI)
    show "ids_ok ?s" using cl dist assms(4) by (auto simp: ids_ok_def same)
    show "below ?s c"
    proof (rule belowI)
      show "sblocks ?s (i, k) = None" if "i \<in> set (sfresh ?s) \<or> unat c \<le> i" for i k
      proof -
        have "sid < unat c" using belowD(3) [OF c] inpool by blast
        then have "i \<noteq> sid" using that dist by auto
        moreover have "i \<in> set (sfresh s) \<or> unat c \<le> i" using that set_remove1_subset [of sid "sfresh s"] by auto
        ultimately show ?thesis using other [of i] belowD(5) [OF c, of i k] by simp
      qed
    qed (use belowD [OF c] in \<open>simp_all add: same\<close>)
    show "blocks_ok lay ?s"
      unfolding blocks_ok_def
    proof (intro conjI ballI)
      fix u assume "u \<in> set (suploaded ?s)"
      then have "u = (sid, ?n) \<or> u \<in> set (suploaded s)" by simp
      then consider "u = (sid, ?n)" | i n where "u = (i, n)" "(i, n) \<in> set (suploaded s)"
        using surj_pair [of u] by blast
      then show "case u of (i, n) \<Rightarrow> stored lay (sblocks ?s) i n"
      proof cases
        case 2
        then have "i \<in> fst ` set (suploaded s)" by force
        then have "i \<noteq> sid" using dist assms(4) by auto
        then show ?thesis using I(4) 2 stored_cong [OF other [of i]] by (auto simp: blocks_ok_def)
      qed (simp add: st)
    next
      fix r assume "r \<in> set (slice_rows (sdb ?s))"
      then have r: "r \<in> set (slice_rows (sdb s))" by simp
      have "(slice_id \<circ> row_desc) r \<in> live_ids (sdb s)" unfolding live_ids_def using r by (rule imageI)
      then show "stored lay (sblocks ?s) (slice_id (row_desc r)) (sl_length (row_desc r))"
        using I(4) r stored_cong [OF live [of "slice_id (row_desc r)"]] by (simp add: blocks_ok_def)
    qed
    show "snap_ok lay (sdb ?s) cid ss" if "(cid, ss) \<in> set (ssnaps ?s)" for cid ss using I(5) that by simp
    show "merged_ok lay ?s h" if h: "h \<in> set (sheavy ?s)" for h
    proof -
      obtain cid ss i n where h_eq: "h = (cid, ss, i, n)" by (cases h)
      have mo: "merged_ok lay s (cid, ss, i, n)" using I(6) h h_eq by simp
      show ?thesis
        unfolding h_eq
      proof (rule merged_ok_step [OF mo])
        have ne: "i \<noteq> sid" using merged_okD(2) [OF mo] inpool by auto
        show "merged_byte lay (sdb ?s) (sblocks ?s) ss i x" if "merged_byte lay (sdb s) (sblocks s) ss i x" for x
          using that by (rule merged_byte_cong) (simp_all add: other [OF ne] live)
        show "i \<notin> live_ids (sdb ?s) \<union> pool ?s" using merged_okD(2) [OF mo] unfolding same by simp
      qed simp_all
    qed
  qed (use I(1,7) in simp_all)
  moreover have "content lay ?s i x = content lay s i x" for i x
  proof -
    have "chunk_byte m' (block_size lay) (get_slices (sdb s) i) x = chunk_byte (sblocks s) (block_size lay) (get_slices (sdb s) i) x"
      by (rule chunk_byte_cong) (rule live, rule owner_live [OF tables_okD(1) [OF I(1)]])
    then show ?thesis by (simp add: content_def)
  qed
  ultimately show ?thesis by (rule keepsI)
qed

text \<open>A row is added under an identifier that no snapshot names.\<close>

lemma get_slices_snoc:
  assumes "rows_ok db" and "rows_ok db'" and "slice_rows db' = slice_rows db @ [r]"
  shows "get_slices db' c = get_slices db c @ (if chunk_id (row_desc r) = c then [row_desc r] else [])"
  using assms(3) by (simp add: get_slices_rows [OF assms(1)] get_slices_rows [OF assms(2)])

lemma snap_ok_snoc:
  assumes snap: "snap_ok lay db cid ss" and rok: "rows_ok db" "rows_ok db'"
    and rows: "slice_rows db' = slice_rows db @ [r]" and new: "slice_id (row_desc r) \<notin> slice_id ` set ss"
  shows "snap_ok lay db' cid ss"
  unfolding snap_ok_def
proof (intro conjI ballI allI impI)
  note gs = get_slices_snoc [OF rok rows]
  show "chunk_id (row_desc q) = cid" if "q \<in> set (slice_rows db')" "slice_id (row_desc q) \<in> slice_id ` set ss" for q
  proof -
    have "q \<noteq> r" using that(2) new by blast
    then have "q \<in> set (slice_rows db)" using that(1) rows by simp
    then show ?thesis using snap that(2) by (simp add: snap_ok_def)
  qed
  show "slice_id t \<notin> set (replaced_of ss)" if t: "owner (get_slices db' cid) x = Some t" for x t
  proof (cases "t = row_desc r")
    case True then show ?thesis using new replaced_of_ids by blast
  next
    case False
    then have "owner (get_slices db cid) x = Some t" using t gs by (simp split: if_splits)
    then show ?thesis using snap by (simp add: snap_ok_def)
  qed
  show "subseq (filter (\<lambda>i. i \<in> slice_id ` set ss) (map slice_id (get_slices db' cid))) (map slice_id ss)"
    using snap new unfolding gs snap_ok_def by simp
qed (use snap in \<open>simp_all add: snap_ok_def\<close>)

lemma classes_append:
  assumes "classes L G R Q P S" and "i \<in> P" and "P' \<subseteq> P" and "i \<notin> P'"
  shows "classes (insert i L) G R Q P' S"
  by (rule classesI) (use assms(2-4) classesD [OF assms(1)] in blast)+

lemma uploaded_remove1:
  assumes "distinct (fs @ map fst us)" and "(sid, n) \<in> set us"
  shows "distinct (fs @ map fst (remove1 (sid, n) us))"
    and "set fs \<union> fst ` set (remove1 (sid, n) us) = (set fs \<union> fst ` set us) - {sid}"
proof -
  have d: "distinct (map fst us)" using assms(1) by simp
  then have du: "distinct us" by (simp add: distinct_map)
  have "fst ` set (remove1 (sid, n) us) = fst ` set us - {sid}"
  proof (intro equalityI subsetI)
    fix i assume "i \<in> fst ` set (remove1 (sid, n) us)"
    then obtain p where p: "p \<in> set us" "p \<noteq> (sid, n)" "fst p = i" using du by auto
    then obtain m where m: "(i, m) \<in> set us" "(i, m) \<noteq> (sid, n)" using surj_pair [of p] by force
    then have "i \<noteq> sid" using eq_key_imp_eq_value [OF d m(1)] assms(2) by blast
    then show "i \<in> fst ` set us - {sid}" using m(1) by force
  next
    fix i assume "i \<in> fst ` set us - {sid}"
    then show "i \<in> fst ` set (remove1 (sid, n) us)" using du by force
  qed
  moreover have "sid \<notin> set fs" using assms by force
  ultimately show "set fs \<union> fst ` set (remove1 (sid, n) us) = (set fs \<union> fst ` set us) - {sid}" by blast
  show "distinct (fs @ map fst (remove1 (sid, n) us))"
    using assms(1) set_remove1_subset [of "(sid, n)" us] du by (auto simp: distinct_map inj_on_def)
qed

lemma append_inv:
  assumes "sys_inv lay s" and "(sid, n) \<in> set (suploaded s)" and "off + n \<le> chunk_size lay"
  shows "sys_inv lay (s\<lparr>sdb := append_slice (sdb s) cid \<lparr>slice_id = sid, chunk_id = cid, sl_offset = off, sl_length = n\<rparr>,
      suploaded := remove1 (sid, n) (suploaded s)\<rparr>)"
proof -
  note I = sys_invD [OF assms(1)] and T = tables_okD [OF sys_invD(1) [OF assms(1)]]
  obtain c where c: "below s c" using I(3) by blast
  let ?d = "\<lparr>slice_id = sid, chunk_id = cid, sl_offset = off, sl_length = n\<rparr>"
  let ?r = "\<lparr>row_id = next_row (sdb s), row_desc = ?d\<rparr>"
  let ?db = "append_slice (sdb s) cid ?d"
  let ?s = "s\<lparr>sdb := ?db, suploaded := remove1 (sid, n) (suploaded s)\<rparr>"
  have rows: "slice_rows ?db = slice_rows (sdb s) @ [?r]" by (simp add: append_slice_def)
  have frame: "delayed_rows ?db = delayed_rows (sdb s)" "uncommitted_rows ?db = uncommitted_rows (sdb s)"
    "next_delayed ?db = next_delayed (sdb s)" "counters ?db = counters (sdb s)"
    by (simp_all add: append_slice_def insert_slice_def)
  have ids: "resv_ids ?db = resv_ids (sdb s)" "pending_ids ?db = pending_ids (sdb s)" "dead_ids ?db = dead_ids (sdb s)"
    by (simp_all add: resv_ids_def pending_ids_def dead_ids_def frame)
  have live: "live_ids ?db = insert sid (live_ids (sdb s))" by (auto simp: live_ids_def rows)
  have rok: "rows_ok ?db" using rows_ok_insert [OF T(1)] by (simp add: append_slice_def)
  have cl: "classes (live_ids (sdb s)) (gone s) (resv_ids (sdb s)) (pending_ids (sdb s)) (pool s) (snap_ids s)"
    and dist: "distinct (sfresh s @ map fst (suploaded s))" using I(2) by (simp_all add: ids_ok_def)
  note rem = uploaded_remove1 [OF dist assms(2)]
  have "sid \<in> fst ` set (suploaded s)" using assms(2) by force
  then have inpool: "sid \<in> pool s" by (simp add: pool_def)
  have same: "pool ?s = pool s - {sid}" "gone ?s = gone s" "snap_ids ?s = snap_ids s"
    using rem(2) by (simp_all add: pool_def gone_def snap_ids_def ids)
  have nolive: "sid \<notin> live_ids (sdb s)" and nosnap: "sid \<notin> snap_ids s"
    using classesD(3,6) [OF cl] inpool by blast+
  have snapsid: "sid \<notin> slice_id ` set ss" if "(i, ss) \<in> set (ssnaps s)" for i ss
    using nosnap that unfolding snap_ids_def by blast
  show ?thesis
  proof (rule sys_invI)
    have sids: "sids ?db = sids (sdb s) @ [sid]" by (simp add: sids_def rows)
    have "sid \<notin> set (sids (sdb s))" using nolive by (simp add: sids_def live_ids_def)
    then show "tables_ok lay (sdb ?s)"
      using T rok assms(3) by (simp add: tables_ok_def sids rows frame delayed_keys_ok_def)
    have "classes (insert sid (live_ids (sdb s))) (gone s) (resv_ids (sdb s)) (pending_ids (sdb s)) (pool s - {sid}) (snap_ids s)"
      using cl inpool by (rule classes_append) simp_all
    then show "ids_ok ?s" using rem(1) unfolding ids_ok_def same by (simp add: ids live)
    show "below ?s c"
    proof (rule belowI)
      show "live_ids (sdb ?s) \<union> gone ?s \<union> resv_ids (sdb ?s) \<union> pool ?s \<union> snap_ids ?s \<subseteq> {..<unat c}"
        unfolding same using belowD(3) [OF c] inpool by (auto simp: ids live)
      show "i < unat c" if "(j, ss, i, m) \<in> set (sheavy ?s)" for j ss i m using belowD(4) [OF c] that by simp
    qed (use belowD(1,2,5) [OF c] in \<open>simp_all add: frame\<close>)
    show "blocks_ok lay ?s"
      unfolding blocks_ok_def
    proof (intro conjI ballI)
      fix u assume "u \<in> set (suploaded ?s)"
      then have "u \<in> set (suploaded s)" using set_remove1_subset [of "(sid, n)" "suploaded s"] by auto
      then show "case u of (i, m) \<Rightarrow> stored lay (sblocks ?s) i m" using I(4) by (auto simp: blocks_ok_def)
    next
      fix r assume "r \<in> set (slice_rows (sdb ?s))"
      then have "r \<in> set (slice_rows (sdb s)) \<or> r = ?r" by (auto simp: rows)
      then show "stored lay (sblocks ?s) (slice_id (row_desc r)) (sl_length (row_desc r))"
        using I(4) assms(2) by (auto simp: blocks_ok_def)
    qed
    show "snap_ok lay (sdb ?s) i ss" if "(i, ss) \<in> set (ssnaps ?s)" for i ss
      using snap_ok_snoc [OF I(5) T(1) rok rows] snapsid that by simp
    show "merged_ok lay ?s h" if h: "h \<in> set (sheavy ?s)" for h
    proof -
      obtain j ss i m where h_eq: "h = (j, ss, i, m)" by (cases h)
      have mo: "merged_ok lay s (j, ss, i, m)" using I(6) h h_eq by simp
      have ne: "i \<noteq> sid" using merged_okD(2) [OF mo] inpool by auto
      have own: "owner ss x = Some t \<Longrightarrow> slice_id t \<noteq> sid" for x t
        using snapsid [OF merged_okD(1) [OF mo]] owner_in_set by blast
      show ?thesis
        unfolding h_eq
      proof (rule merged_ok_step [OF mo])
        show "merged_byte lay (sdb ?s) (sblocks ?s) ss i x" if "merged_byte lay (sdb s) (sblocks s) ss i x" for x
        proof (rule merged_byte_live [OF _ that])
          show "slice_id u \<in> live_ids (sdb s)" if "owner ss x = Some u" "slice_id u \<in> live_ids (sdb ?s)" for u
            using that(2) own [OF that(1)] live by simp
        qed simp
        show "i \<notin> live_ids (sdb ?s) \<union> pool ?s" using merged_okD(2) [OF mo] ne unfolding same by (simp add: live)
      qed (simp_all add: ids)
    qed
  qed (use I(7) in simp_all)
qed

section \<open>Preparing a heavy compaction\<close>

lemma prepare_cases:
  assumes "compact_heavy_prepare rd wr lay now ss cid db m = (res, db', m')"
  obtains e where "res = Inl e" "db' = db" "m' = m"
  | n data v db1 r where "occupied_end (chunk_size lay) ss 0 = Inr n"
    "read_and_merge_slices rd lay ss (replicate n 0) = Inr data" "next_id db SLICE_ID_KEY = Inr (v, db1)"
    "db' = snd (record_uncommitted_slice now db1 (unat v) cid n ''compact_heavy'')"
    "write_merged_data wr m lay (unat v) data = (r, m')"
    "res = (case r of Inl e \<Rightarrow> Inl (BlockStoreErr e) | Inr _ \<Rightarrow> Inr (unat v, n))"
  using assms unfolding compact_heavy_prepare_def
  by (auto simp: Let_def result_simps split: sum.splits prod.splits)

lemma reserve_step:
  assumes inv: "sys_inv lay s" and c: "below s c"
    and frame: "slice_rows db' = slice_rows (sdb s)" "next_row db' = next_row (sdb s)" "delayed_rows db' = delayed_rows (sdb s)"
      "next_delayed db' = next_delayed (sdb s)" "counters db' SLICE_ID_KEY = Some (c + 1)"
      "map un_slice_id (uncommitted_rows db') = map un_slice_id (uncommitted_rows (sdb s)) @ [unat c]"
      "pending_ids db' = insert (unat c) (pending_ids (sdb s))"
    and up: "unat (c + 1) = unat c + 1" "unat (c + 1) < 2 ^ 63"
    and blocks: "\<And>key. fst key \<noteq> unat c \<Longrightarrow> m' key = sblocks s key"
    and snap: "(cid, ss) \<in> set (ssnaps s)" and n: "n \<le> chunk_size lay" "\<forall>t\<in>set ss. sl_offset t + sl_length t \<le> n"
    and bytes: "\<And>x. x < n \<Longrightarrow> merged_byte lay (sdb s) m' ss (unat c) x"
  shows "keeps lay s (s\<lparr>sdb := db', sblocks := m', sheavy := (cid, ss, unat c, n) # sheavy s\<rparr>)"
proof -
  note I = sys_invD [OF inv] and T = tables_okD [OF sys_invD(1) [OF inv]]
  let ?s = "s\<lparr>sdb := db', sblocks := m', sheavy := (cid, ss, unat c, n) # sheavy s\<rparr>"
  have live: "live_ids db' = live_ids (sdb s)" using frame(1) by (rule live_ids_rows_cong)
  have resv: "resv_ids db' = insert (unat c) (resv_ids (sdb s))"
    using arg_cong [OF frame(6), of set] by (simp add: resv_ids_def)
  have same: "pool ?s = pool s" "gone ?s = gone s" "snap_ids ?s = snap_ids s"
    by (simp_all add: pool_def gone_def snap_ids_def dead_ids_def frame)
  have new: "unat c \<notin> live_ids (sdb s)" "unat c \<notin> resv_ids (sdb s)" "unat c \<notin> pool s" using belowD(3) [OF c] by auto
  have other: "\<forall>k. m' (i, k) = sblocks s (i, k)" if "i \<noteq> unat c" for i using blocks that by simp
  have live_blocks: "\<forall>k. m' (i, k) = sblocks s (i, k)" if "i \<in> live_ids (sdb s)" for i
    using other [of i] new(1) that by blast
  have byte_db: "merged_byte lay db' m2 ss2 i x = merged_byte lay (sdb s) m2 ss2 i x" for m2 ss2 i x
    unfolding merged_byte_def live ..
  have "sys_inv lay ?s"
  proof (rule sys_invI)
    show "tables_ok lay (sdb ?s)"
      using T new(2) frame(6) by (simp add: tables_ok_def rows_ok_def delayed_keys_ok_def sids_def frame resv_ids_def)
    have "classes (live_ids (sdb s)) (gone s) (resv_ids (sdb s)) (pending_ids (sdb s)) (pool s) (snap_ids s)"
      using I(2) by (simp add: ids_ok_def)
    from classes_alloc(2) [OF this belowD(3) [OF c]] show "ids_ok ?s"
      using I(2) unfolding ids_ok_def same by (simp add: live resv frame(7))
    show "below ?s (c + 1)"
    proof (rule belowI)
      show "live_ids (sdb ?s) \<union> gone ?s \<union> resv_ids (sdb ?s) \<union> pool ?s \<union> snap_ids ?s \<subseteq> {..<unat (c + 1)}"
        unfolding same up(1) using belowD(3) [OF c] by (auto simp: live resv less_Suc_eq)
      show "i < unat (c + 1)" if "(j, t, i, k) \<in> set (sheavy ?s)" for j t i k
        unfolding up(1) using belowD(4) [OF c, of j t i k] that by auto
      show "sblocks ?s (i, k) = None" if "i \<in> set (sfresh ?s) \<or> unat (c + 1) \<le> i" for i k
      proof -
        have "i \<noteq> unat c" using that new(3) up(1) by (auto simp: pool_def)
        then show ?thesis using other [of i] belowD(5) [OF c, of i k] that up(1) by auto
      qed
    qed (use frame(5) up in simp_all)
    show "blocks_ok lay ?s"
      unfolding blocks_ok_def
    proof (intro conjI ballI)
      fix u assume "u \<in> set (suploaded ?s)"
      then have "u \<in> set (suploaded s)" by simp
      then obtain i k where u: "u = (i, k)" "(i, k) \<in> set (suploaded s)" using surj_pair [of u] by blast
      then have "i \<in> fst ` set (suploaded s)" by force
      then have "i \<noteq> unat c" using new(3) unfolding pool_def by blast
      then show "case u of (i, k) \<Rightarrow> stored lay (sblocks ?s) i k"
        using u I(4) stored_cong [OF other [of i]] by (auto simp: blocks_ok_def)
    next
      fix r assume "r \<in> set (slice_rows (sdb ?s))"
      then have r: "r \<in> set (slice_rows (sdb s))" by (simp add: frame)
      have "(slice_id \<circ> row_desc) r \<in> live_ids (sdb s)" unfolding live_ids_def using r by (rule imageI)
      then show "stored lay (sblocks ?s) (slice_id (row_desc r)) (sl_length (row_desc r))"
        using I(4) r stored_cong [OF live_blocks [of "slice_id (row_desc r)"]] by (simp add: blocks_ok_def)
    qed
    show "snap_ok lay (sdb ?s) i t" if "(i, t) \<in> set (ssnaps ?s)" for i t
      using I(5) that snap_ok_rows_cong [OF frame(1)] by simp
    have "unat c \<notin> heavy_sid ` set (sheavy s)" using belowD(4) [OF c] by (fastforce simp: heavy_sid_def)
    then show "distinct (map heavy_sid (sheavy ?s))" using I(7) by (simp add: heavy_sid_def)
    show "merged_ok lay ?s h" if h: "h \<in> set (sheavy ?s)" for h
    proof (cases "h \<in> set (sheavy s)")
      case True
      obtain j t i k where h_eq: "h = (j, t, i, k)" by (cases h)
      have mo: "merged_ok lay s (j, t, i, k)" using I(6) True h_eq by simp
      have ne: "i \<noteq> unat c" using belowD(4) [OF c, of j t i k] True h_eq by simp
      show ?thesis
        unfolding h_eq
      proof (rule merged_ok_step [OF mo])
        show "merged_byte lay (sdb ?s) (sblocks ?s) t i x" if "merged_byte lay (sdb s) (sblocks s) t i x" for x
          using that by (rule merged_byte_cong) (simp_all add: live live_blocks other [OF ne])
        show "i \<notin> live_ids (sdb ?s) \<union> pool ?s" using merged_okD(2) [OF mo] unfolding same by (simp add: live)
      qed (use ne frame(7) in simp_all)
    next
      case False
      then have "h = (cid, ss, unat c, n)" using h by simp
      then show ?thesis using snap new n bytes by (simp add: merged_ok_def same live byte_db)
    qed
  qed
  moreover have "content lay ?s i x = content lay s i x" for i x
    unfolding content_def
    by (simp add: get_slices_rows_cong [OF frame(1)]) (rule chunk_byte_cong, rule live_blocks, rule owner_live [OF T(1)])
  ultimately show ?thesis by (rule keepsI)
qed

lemma prepare_keeps:
  assumes "sys_inv lay s" and "0 < block_size lay" and "chunk_size lay \<le> u32_limit" and "(cid, ss) \<in> set (ssnaps s)"
    and "compact_heavy_prepare (mem_read_range (sblocks s)) mem_write_fresh_range lay now ss cid (sdb s) (sblocks s) = (res, db', m')"
  shows "keeps lay s (s\<lparr>sdb := db', sblocks := m',
      sheavy := (case res of Inl _ \<Rightarrow> sheavy s | Inr (sid, n) \<Rightarrow> (cid, ss, sid, n) # sheavy s)\<rparr>)"
proof -
  obtain c where c: "below s c" using sys_invD(3) [OF assms(1)] by blast
  from assms(5) show ?thesis
  proof (cases rule: prepare_cases)
    case (1 e)
    then show ?thesis using assms(1) by (simp add: keeps_def)
  next
    case (2 n data v db1 r)
    note nid = next_id_effect [OF 2(3) belowD(1,2) [OF c]] and occ = occupied_end_bounds [OF 2(1)]
    have fits: "\<forall>t\<in>set ss. sl_offset t + sl_length t < u64_limit \<and> sl_length t \<le> u32_limit"
      using occ assms(3) by fastforce
    have merged: "length data = n" "\<forall>x<n. chunk_byte (sblocks s) (block_size lay) ss x = Some (data ! x)"
      using mem.read_and_merge_content [OF 2(2) assms(2) fits, of "[]"] by (auto simp: chunk_byte_def)
    have none: "\<forall>i. sblocks s (unat v, i) = None" using belowD(5) [OF c] nid(1) by simp
    have "length data \<le> u32_limit" using merged(1) occ assms(3) by simp
    from mem.write_merged_data_correct [OF assms(2) this none]
    have w: "r = Inr ()" "\<forall>j<n. slice_byte m' (block_size lay) (unat v) j = Some (data ! j)"
      "\<forall>key. fst key \<noteq> unat v \<longrightarrow> m' key = sblocks s key"
      using 2(5) merged(1) by auto
    have byte: "merged_byte lay (sdb s) m' ss (unat c) x" if "x < n" for x
    proof -
      have own: "slice_byte m' (block_size lay) (unat c) x = chunk_byte (sblocks s) (block_size lay) ss x"
        using w(2) merged(2) that nid(1) by simp
      have "slice_byte m' (block_size lay) (slice_id t) j = slice_byte (sblocks s) (block_size lay) (slice_id t) j"
        if t: "owner ss x = Some t" for t j
      proof -
        have "slice_id t \<in> snap_ids s" using owner_in_set [OF t] assms(4) unfolding snap_ids_def by blast
        then have "slice_id t \<noteq> unat v" using belowD(3) [OF c] nid(1) by auto
        then show ?thesis using w(3) by (intro slice_byte_cong) simp
      qed
      moreover have "slice_byte m' (block_size lay) (unat c) x \<noteq> None" using w(2) that nid(1) by simp
      ultimately show ?thesis
        using own by (simp add: merged_byte_def chunk_byte_def split: option.splits)
    qed
    have "keeps lay s (s\<lparr>sdb := db', sblocks := m', sheavy := (cid, ss, unat c, n) # sheavy s\<rparr>)"
      using assms(1) c
    proof (rule reserve_step)
      show "pending_ids db' = insert (unat c) (pending_ids (sdb s))"
        unfolding 2(4) record_uncommitted_pending nid(1) by (simp add: nid(2) pending_ids_def)
      show "m' key = sblocks s key" if "fst key \<noteq> unat c" for key
        using w(3) [rule_format, of key] that nid(1) by simp
      show "n \<le> chunk_size lay" "\<forall>t\<in>set ss. sl_offset t + sl_length t \<le> n" using occ by simp_all
    qed (use byte assms(4) nid in \<open>simp_all add: 2(4) record_uncommitted_effect\<close>)
    then show ?thesis using 2(6) w(1) nid(1) by simp
  qed
qed

section \<open>Publishing a heavy compaction\<close>

lemma publish_cases:
  assumes "compact_heavy_publish mem_delete_range lay now ss cid sid n db m = (res, db', m')"
  obtains db1 where "res = Inr sid" "m' = m" "db' = confirm_slice_committed db1 sid"
    "replace_slices_for_compact_with_version now db cid [\<lparr>slice_id = sid, chunk_id = cid, sl_offset = 0, sl_length = n\<rparr>]
       (encode_delayed_data ss (map slice_id ss)) ss = Inr db1"
  | "db' = db" "\<And>key. m' key = m key \<or> m' key = None" "\<And>key. fst key \<noteq> sid \<Longrightarrow> m' key = m key"
proof -
  have del: "mem_delete_range m (sid, start) k key = m key \<or> mem_delete_range m (sid, start) k key = None" for key start k
    by (simp add: mem_delete_range_def fold_delete Let_def)
  show thesis
  proof (cases "replace_slices_for_compact_with_version now db cid [\<lparr>slice_id = sid, chunk_id = cid, sl_offset = 0, sl_length = n\<rparr>]
       (encode_delayed_data ss (map slice_id ss)) ss")
    case (Inl e)
    have "db' = db \<and> (m' = m \<or> m' = cleanup_uncommitted_slice mem_delete_range m lay sid n)"
      using assms Inl unfolding compact_heavy_publish_def by (simp add: Let_def split: meta_error.splits)
    moreover have "\<exists>k. cleanup_uncommitted_slice mem_delete_range m lay sid n \<in> {m, mem_delete_range m (sid, 0) k}"
      by (simp add: cleanup_uncommitted_slice_def Let_def exI [of _ "div_ceil n (block_size lay)"])
    ultimately have "db' = db" and "m' = m \<or> (\<exists>k. m' = mem_delete_range m (sid, 0) k)" by auto
    then show thesis using del mem_delete_other by (intro that(2)) metis+
  next
    case (Inr db1)
    then show thesis using assms that(1) [of db1] by (simp add: compact_heavy_publish_def Let_def)
  qed
qed

lemma publish_failed_keeps:
  assumes "sys_inv lay s" and "(cid, ss, sid, n) \<in> set (sheavy s)"
    and "\<And>key. m' key = sblocks s key \<or> m' key = None" and "\<And>key. fst key \<noteq> sid \<Longrightarrow> m' key = sblocks s key"
  shows "keeps lay s (s\<lparr>sdb := sdb s, sblocks := m', sheavy := remove1 (cid, ss, sid, n) (sheavy s)\<rparr>)"
proof -
  note I = sys_invD [OF assms(1)]
  note rem = heavy_remove1_distinct [OF I(7) assms(2)]
  let ?s = "s\<lparr>sdb := sdb s, sblocks := m', sheavy := remove1 (cid, ss, sid, n) (sheavy s)\<rparr>"
  have gone: "gone ?s = gone s" by (simp add: gone_def)
  have sid: "sid \<notin> live_ids (sdb s) \<union> pool s" using merged_okD(2) [OF I(6) [OF assms(2)]] .
  show ?thesis
  proof (rule books_step_inv [OF assms(1)])
    show "sblocks ?s (i, k) = sblocks s (i, k)" if "i \<in> live_ids (sdb s) \<union> pool s" for i k
    proof -
      have "i \<noteq> sid" using sid that by blast
      then show ?thesis using assms(4) by simp
    qed
    show "sblocks ?s (heavy_sid h, k) = sblocks s (heavy_sid h, k)" if "h \<in> set (sheavy ?s)" for h k
    proof -
      have "heavy_sid h \<noteq> sid" using rem(3) [of h] that by (simp add: heavy_sid_def)
      then show ?thesis using assms(4) by simp
    qed
    show "gone ?s \<inter> pending_ids (sdb ?s) = {}" unfolding gone using gone_pending [OF I(2)] by simp
    show "gone ?s \<subseteq> gone s \<union> resv_ids (sdb s)" unfolding gone by simp
    show "delayed_keys_ok (sdb ?s)" using tables_okD(2) [OF I(1)] by simp
    show "set (sheavy ?s) \<subseteq> set (sheavy s)" "distinct (map heavy_sid (sheavy ?s))" using rem(1,2) by simp_all
    show "sblocks ?s k = sblocks s k \<or> sblocks ?s k = None" for k using assms(3) by simp
  qed simp_all
qed

text \<open>What a successful publication does to the tables.\<close>

lemma publish_effect:
  assumes "replace_slices_for_compact_with_version now db cid [d] (encode_delayed_data ss (map slice_id ss)) ss = Inr db1"
    and tabs: "tables_ok lay db" and snap: "snap_ok lay db cid ss"
    and lim: "\<forall>t\<in>set ss. slice_id t < u64_limit \<and> sl_offset t < u64_limit"
    and d: "slice_id d = sid" "chunk_id d = cid" and db': "db' = confirm_slice_committed db1 sid"
  shows "get_slices db cid = ss" and "sid \<in> pending_ids db" and "rows_ok db'" and "delayed_keys_ok db'"
    and "\<exists>k. slice_rows db' = filter (\<lambda>r. chunk_id (row_desc r) \<noteq> cid) (slice_rows db) @ [\<lparr>row_id = k, row_desc = d\<rparr>]"
    and "\<exists>P. uncommitted_rows db' = filter P (uncommitted_rows db) \<and> (\<forall>u. P u \<longrightarrow> un_slice_id u \<noteq> sid)"
    and "counters db' = counters db" and "dead_ids db' \<subseteq> dead_ids db \<union> slice_id ` set ss"
proof -
  note T = tables_okD [OF tabs]
  obtain ds where ds: "fst ` set ds = slice_id ` set ss"
    and db1: "db1 = swap_slices now (db\<lparr>uncommitted_rows := filter (\<lambda>u. \<not> reserved_by cid d u) (uncommitted_rows db)\<rparr>) cid [d] ds"
    and pend: "slice_id d \<in> pending_ids db" and len: "length (get_slices db cid) = length ss"
    and same: "list_all (slice_unchanged (map_of (rev (map (\<lambda>s. (slice_id s, (sl_offset s, sl_length s))) (get_slices db cid))))) ss"
    using assms(1) lim T(1) by (rule version_check_cases)
  show "sid \<in> pending_ids db" using pend d(1) by simp
  have "subseq (map slice_id (get_slices db cid)) (sids db)"
    unfolding map_get_slices [OF T(1)] sids_keys by (intro subseq_map subseq_filter_left)
  then have dist: "distinct (map slice_id (get_slices db cid))" using T(3) by (rule subseq_distinct)
  show eq: "get_slices db cid = ss"
    using len dist same
    by (rule unchanged_slices) (use snap in \<open>auto simp: snap_ok_def get_slices_rows [OF T(1)]\<close>)
  let ?db0 = "db\<lparr>uncommitted_rows := filter (\<lambda>u. \<not> reserved_by cid d u) (uncommitted_rows db)\<rparr>"
  have ok0: "rows_ok ?db0" "delayed_keys_ok ?db0" using T(1,2) by (simp_all add: rows_ok_def delayed_keys_ok_def)
  note sw = swap_one [OF ok0 db1]
  show "rows_ok db'" "delayed_keys_ok db'" "counters db' = counters db"
    using sw(1,2,5) by (simp_all add: db' confirm_slice_committed_def rows_ok_def delayed_keys_ok_def)
  have "\<not> replaced_row cid (fst ` set ds) r \<longleftrightarrow> chunk_id (row_desc r) \<noteq> cid" if "r \<in> set (slice_rows db)" for r
  proof -
    have "row_desc r \<in> set ss" if "chunk_id (row_desc r) = cid"
      using that \<open>r \<in> set (slice_rows db)\<close> by (simp flip: eq add: get_slices_rows [OF T(1)])
    then show ?thesis unfolding ds by blast
  qed
  then have "filter (\<lambda>r. \<not> replaced_row cid (fst ` set ds) r) (slice_rows db) = filter (\<lambda>r. chunk_id (row_desc r) \<noteq> cid) (slice_rows db)"
    by (rule filter_cong [OF refl])
  moreover have "d\<lparr>chunk_id := cid\<rparr> = d" using d(2) by (cases d) simp
  ultimately show "\<exists>k. slice_rows db' = filter (\<lambda>r. chunk_id (row_desc r) \<noteq> cid) (slice_rows db) @ [\<lparr>row_id = k, row_desc = d\<rparr>]"
    using sw(3) by (simp add: db' confirm_slice_committed_def)
  show "\<exists>P. uncommitted_rows db' = filter P (uncommitted_rows db) \<and> (\<forall>u. P u \<longrightarrow> un_slice_id u \<noteq> sid)"
    by (rule exI [of _ "\<lambda>u. un_slice_id u \<noteq> sid \<and> \<not> reserved_by cid d u"])
      (simp add: db' confirm_slice_committed_def sw(4) conj_commute)
  show "dead_ids db' \<subseteq> dead_ids db \<union> slice_id ` set ss"
    using sw(6) unfolding ds by (simp add: db' confirm_slice_committed_def dead_ids_def)
qed

lemma classes_publish:
  assumes "classes L G R Q P S" and "i \<in> Q" and "L' \<subseteq> L" and "A \<subseteq> S" and "A \<inter> L' = {}" and "G' \<subseteq> G \<union> A"
    and "R' \<subseteq> R" and "i \<notin> R'" and "Q' \<subseteq> Q" and "Q' \<subseteq> R'"
  shows "classes (insert i L') G' R' Q' P S"
proof -
  note D = classesD [OF assms(1)]
  have i: "i \<notin> G" "i \<in> R" "i \<notin> S" "i \<notin> P" using assms(2) D by blast+
  show ?thesis
  proof (rule classesI)
    show "j \<notin> G' \<and> j \<notin> R' \<and> j \<notin> P" if "j \<in> insert i L'" for j
      using that i assms(3-8) D(1-3) [of j] by blast
    show "j \<notin> G' \<and> j \<notin> R' \<and> j \<notin> S" if "j \<in> P" for j
      using that assms(4,6,7) D(4-6) [of j] by blast
    show "j \<notin> G' \<and> j \<in> R'" if "j \<in> Q'" for j
      using that assms(4,6,9,10) D(7-9) [of j] by blast
    show "j \<notin> S" if "j \<in> R'" for j using that assms(7) D(8) [of j] by blast
  qed
qed

lemma bounded_publish:
  assumes "L \<union> G \<union> R \<union> P \<union> S \<subseteq> B" and "i \<in> B" and "L' \<subseteq> L" and "A \<subseteq> S" and "G' \<subseteq> G \<union> A" and "R' \<subseteq> R"
  shows "insert i L' \<union> G' \<union> R' \<union> P \<union> S \<subseteq> B"
  using assms by blast

lemma merged_content:
  assumes "slice_id d = sid" and "sl_offset d = 0" and "sl_length d = n"
    and bytes: "\<And>x. x < n \<Longrightarrow> merged_byte lay db m ss sid x"
    and ends: "\<And>t. t \<in> set ss \<Longrightarrow> sl_offset t + sl_length t \<le> n" and "slice_id ` set ss \<subseteq> live_ids db"
  shows "chunk_byte m (block_size lay) [d] x = chunk_byte m (block_size lay) ss x"
proof (cases "x < n")
  case True
  have "chunk_byte m (block_size lay) [d] x = slice_byte m (block_size lay) sid x"
    using True assms(1-3) by (simp add: chunk_byte_def owner_def covers_def)
  also have "\<dots> = chunk_byte m (block_size lay) ss x"
  proof (cases "owner ss x")
    case None
    then show ?thesis using bytes [OF True] by (simp add: merged_byte_def chunk_byte_def)
  next
    case (Some t)
    then have "slice_id t \<in> live_ids db" using owner_in_set [OF Some] assms(6) by blast
    then show ?thesis using Some bytes [OF True] by (simp add: merged_byte_def chunk_byte_def)
  qed
  finally show ?thesis .
next
  case False
  have "owner ss x = None"
  proof (rule ccontr)
    assume "owner ss x \<noteq> None"
    then obtain t where t: "owner ss x = Some t" by blast
    then have "t \<in> set ss" "covers t x" using owner_in_set by blast+
    then show False using ends [of t] False by (simp add: covers_def)
  qed
  then show ?thesis using False assms(2,3) by (simp add: chunk_byte_def owner_def covers_def)
qed

lemma publish_ok_keeps:
  assumes inv: "sys_inv lay s" and lim: "chunk_size lay \<le> u32_limit" and h: "(cid, ss, sid, n) \<in> set (sheavy s)"
    and d_def: "d = \<lparr>slice_id = sid, chunk_id = cid, sl_offset = 0, sl_length = n\<rparr>"
    and rep: "replace_slices_for_compact_with_version now (sdb s) cid [d] (encode_delayed_data ss (map slice_id ss)) ss = Inr db1"
    and db': "db' = confirm_slice_committed db1 sid"
  shows "keeps lay s (s\<lparr>sdb := db', sblocks := sblocks s, sheavy := remove1 (cid, ss, sid, n) (sheavy s)\<rparr>)"
proof -
  note I = sys_invD [OF inv] and T = tables_okD [OF sys_invD(1) [OF inv]]
  obtain c where c: "below s c" using I(3) by blast
  note mo = I(6) [OF h] and rem = heavy_remove1_distinct [OF I(7) h]
  have d: "slice_id d = sid" "chunk_id d = cid" "sl_offset d = 0" "sl_length d = n" by (simp_all add: d_def)
  note snap = merged_okD(1) [OF mo]
  note E = publish_effect [OF rep I(1) I(5) [OF snap] snap_fits [OF inv lim snap] d(1,2) db']
  let ?s = "s\<lparr>sdb := db', sblocks := sblocks s, sheavy := remove1 (cid, ss, sid, n) (sheavy s)\<rparr>"
  let ?rs = "filter (\<lambda>r. chunk_id (row_desc r) \<noteq> cid) (slice_rows (sdb s))"
  let ?mid = "(sdb s)\<lparr>slice_rows := ?rs\<rparr>"
  obtain k where rows: "slice_rows db' = ?rs @ [\<lparr>row_id = k, row_desc = d\<rparr>]" using E(5) by blast
  obtain P where un: "uncommitted_rows db' = filter P (uncommitted_rows (sdb s))" "\<forall>u. P u \<longrightarrow> un_slice_id u \<noteq> sid"
    using E(6) by blast
  have mid: "rows_ok ?mid" by (rule rows_ok_filter [OF T(1)]) simp_all
  have gs_mid: "get_slices ?mid i = (if i = cid then [] else get_slices (sdb s) i)" for i
    unfolding get_slices_rows [OF mid] get_slices_rows [OF T(1)] 
    by (auto simp: filter_map comp_def filter_empty_conv intro!: arg_cong [of _ _ "map row_desc"] filter_cong)
  have shr: "shrinks (sdb s) ?mid"
    unfolding shrinks_def
  proof (intro conjI allI impI ballI)
    show "delayed_keys_ok ?mid" using T(2) by (simp add: delayed_keys_ok_def)
    show "subseq (map row_key (slice_rows ?mid)) (map row_key (slice_rows (sdb s)))" by (simp add: subseq_map)
    show "\<exists>t. owner (get_slices (sdb s) i) x = Some t \<and> slice_id t = slice_id t' \<and> sl_offset t = sl_offset t'"
      if "owner (get_slices ?mid i) x = Some t'" for i x t'
      using gs_mid that by (rule owner_filter_none)
  qed (use mid in auto)
  have gs: "get_slices db' i = (if i = cid then [d] else get_slices (sdb s) i)" for i
  proof -
    have "slice_rows db' = slice_rows ?mid @ [\<lparr>row_id = k, row_desc = d\<rparr>]" using rows by simp
    from get_slices_snoc [OF mid E(3) this, of i] show ?thesis by (simp add: gs_mid d)
  qed
  have live: "live_ids db' = insert sid (live_ids ?mid)" by (simp add: live_ids_def rows d)
  have lsub: "live_ids ?mid \<subseteq> live_ids (sdb s)" using shr by (rule shrinks_live)
  have sidx: "sid \<notin> live_ids (sdb s) \<union> pool s" using merged_okD(2) [OF mo] .
  have cl: "classes (live_ids (sdb s)) (gone s) (resv_ids (sdb s)) (pending_ids (sdb s)) (pool s) (snap_ids s)"
    using I(2) by (simp add: ids_ok_def)
  have sid_snap: "sid \<notin> snap_ids s" using classesD(8,9) [OF cl] E(2) by blast
  have ssub: "slice_id ` set ss \<subseteq> snap_ids s" using snap unfolding snap_ids_def by blast
  have apart: "slice_id ` set ss \<inter> live_ids ?mid = {}"
  proof -
    have False if a: "t \<in> set ss" "r \<in> set ?rs" "slice_id t = slice_id (row_desc r)" for t r
    proof -
      have "\<exists>q\<in>set (slice_rows (sdb s)). t = row_desc q \<and> chunk_id t = cid"
        using a(1) by (auto simp flip: E(1) simp: get_slices_rows [OF T(1)])
      then obtain q where q: "q \<in> set (slice_rows (sdb s))" "t = row_desc q" "chunk_id t = cid" by blast
      have "q = r" using sid_inj [OF T(3) q(1), of r] a(2,3) q(2) by simp
      then show False using a(2) q(2,3) by simp
    qed
    then show ?thesis by (fastforce simp: live_ids_def)
  qed
  have same: "pool ?s = pool s" "snap_ids ?s = snap_ids s" by (simp_all add: pool_def snap_ids_def)
  have gone: "gone ?s \<subseteq> gone s \<union> slice_id ` set ss" using E(8) by (auto simp: gone_def)
  have resv: "resv_ids db' \<subseteq> resv_ids (sdb s)" "sid \<notin> resv_ids db'" "pending_ids db' \<subseteq> pending_ids (sdb s)"
    using un by (auto simp: resv_ids_def pending_ids_def)
  have byte: "merged_byte lay (sdb s) (sblocks s) ss sid x" if "x < n" for x
    using merged_okD(5) [OF mo E(2) that] .
  have "sys_inv lay ?s"
  proof (rule sys_invI)
    have "subseq (sids ?mid) (sids (sdb s))" using shr by (rule shrinks_sids)
    then have "distinct (sids ?mid)" using T(3) by (rule subseq_distinct)
    moreover have "sid \<notin> live_ids ?mid" using lsub sidx by blast
    ultimately have "distinct (sids db')" by (simp add: sids_def rows d live_ids_def)
    moreover have "distinct (map un_slice_id (uncommitted_rows db'))" unfolding un(1) using T(5) by (rule distinct_map_filter)
    ultimately show "tables_ok lay (sdb ?s)"
      using E(3,4) T(4) merged_okD(3) [OF mo E(2)] by (auto simp: tables_ok_def rows d)
    have "classes (insert sid (live_ids ?mid)) (gone ?s) (resv_ids db') (pending_ids db') (pool s) (snap_ids s)"
      using cl E(2) lsub ssub apart gone resv by (rule classes_publish) (rule pending_resv)
    then show "ids_ok ?s" using I(2) unfolding ids_ok_def same by (simp add: live)
    show "below ?s c"
    proof (rule belowI)
      have "sid \<in> {..<unat c}" using belowD(4) [OF c h] by simp
      from bounded_publish [OF belowD(3) [OF c] this lsub ssub gone resv(1)]
      show "live_ids (sdb ?s) \<union> gone ?s \<union> resv_ids (sdb ?s) \<union> pool ?s \<union> snap_ids ?s \<subseteq> {..<unat c}"
        unfolding same by (simp add: live)
      show "i < unat c" if "(j, t, i, m) \<in> set (sheavy ?s)" for j t i m
        using belowD(4) [OF c] rem(1) that by auto
    qed (use belowD(1,2,5) [OF c] E(7) in simp_all)
    show "blocks_ok lay ?s"
      unfolding blocks_ok_def
    proof (intro conjI ballI)
      fix r assume "r \<in> set (slice_rows (sdb ?s))"
      then have "r \<in> set (slice_rows (sdb s)) \<or> slice_id (row_desc r) = sid \<and> sl_length (row_desc r) = n" by (auto simp: rows d)
      moreover have "stored lay (sblocks s) sid n" using byte by (simp add: stored_def merged_byte_def)
      ultimately show "stored lay (sblocks ?s) (slice_id (row_desc r)) (sl_length (row_desc r))"
        using I(4) by (auto simp: blocks_ok_def)
    qed (use I(4) in \<open>simp add: blocks_ok_def\<close>)
    show "snap_ok lay (sdb ?s) i t" if t: "(i, t) \<in> set (ssnaps ?s)" for i t
    proof -
      have "snap_ok lay ?mid i t" using I(5) t by (intro snap_ok_shrinks [OF _ shr T(1)]) simp
      moreover have "sid \<notin> slice_id ` set t" using sid_snap t unfolding snap_ids_def by auto
      ultimately show ?thesis
        using snap_ok_snoc [OF _ mid E(3), of lay i t "\<lparr>row_id = k, row_desc = d\<rparr>"] rows d(1) by simp
    qed
    show "merged_ok lay ?s g" if g: "g \<in> set (sheavy ?s)" for g
    proof -
      obtain j t i m where g_eq: "g = (j, t, i, m)" by (cases g)
      have "g \<in> set (sheavy s)" using g rem(1) by auto
      then have mg: "merged_ok lay s (j, t, i, m)" using I(6) g_eq by simp
      have "g \<in> set (remove1 (cid, ss, sid, n) (sheavy s))" using g by simp
      from rem(3) [OF this] have ne: "i \<noteq> sid" by (simp add: g_eq heavy_sid_def)
      have own: "slice_id u \<noteq> sid" if "owner t x = Some u" for x u
        using owner_in_set [OF that] merged_okD(1) [OF mg] sid_snap unfolding snap_ids_def by blast
      show ?thesis
        unfolding g_eq
      proof (rule merged_ok_step [OF mg])
        show "merged_byte lay (sdb ?s) (sblocks ?s) t i x" if "merged_byte lay (sdb s) (sblocks s) t i x" for x
        proof (rule merged_byte_live [OF _ that])
          show "slice_id u \<in> live_ids (sdb s)" if "owner t x = Some u" "slice_id u \<in> live_ids (sdb ?s)" for u
            using that(2) own [OF that(1)] lsub live by auto
        qed simp
        show "i \<notin> live_ids (sdb ?s) \<union> pool ?s" using merged_okD(2) [OF mg] ne lsub live unfolding same by auto
      qed (use resv(3) in auto)
    qed
  qed (use rem(2) in simp)
  moreover have "content lay ?s i x = content lay s i x" for i x
  proof (cases "i = cid")
    case True
    have "chunk_byte (sblocks s) (block_size lay) [d] x = chunk_byte (sblocks s) (block_size lay) ss x"
      using d(1,3,4) byte merged_okD(4) [OF mo E(2)] get_slices_ids [OF T(1), of cid, unfolded E(1)]
      by (rule merged_content)
    then show ?thesis using True by (simp add: content_def gs E(1))
  qed (simp add: content_def gs)
  ultimately show ?thesis by (rule keepsI)
qed

end
