(* ===== verification/SliceTraces.thy ===== *)
theory SliceTraces
  imports SliceSystem
begin

text \<open>
  Runs of the slice system. Every reachable state satisfies the invariant of \<open>SliceSystem\<close>, whatever
  the interleaving of writers, truncations, compactions and garbage collection. From it follow what
  a user of the store relies on: reads always succeed, background work never changes what they
  return, and written data is read back.
\<close>

section \<open>Reading through the data fetcher\<close>

definition sys_read :: "chunk_layout \<Rightarrow> sys \<Rightarrow> nat \<Rightarrow> nat \<Rightarrow> nat \<Rightarrow> io_error + bytes" where
  "sys_read lay s cid off n =
     rbind (prepare_slices (\<lambda>c. Inr (get_slices (sdb s) c)) (data_fetcher_new lay cid))
       (\<lambda>df. data_fetcher_read_at (mem_read_range (sblocks s)) df off n)"

lemma sys_read_slices:
  "sys_read lay s cid off n = read_at_from_slices (mem_read_range (sblocks s)) lay (get_slices (sdb s) cid) off n"
  by (simp add: sys_read_def prepare_slices_def data_fetcher_new_def data_fetcher_read_at_def read_at_from_slices_def)

lemma inv_slices_fit:
  assumes "sys_inv lay s" and "chunk_size lay \<le> u32_limit"
  shows "slices_fit (get_slices (sdb s) cid)"
  unfolding slices_fit_def
proof
  note T = tables_okD [OF sys_invD(1) [OF assms(1)]]
  fix t assume "t \<in> set (get_slices (sdb s) cid)"
  then obtain r where "r \<in> set (slice_rows (sdb s))" "t = row_desc r" by (auto simp: get_slices_rows [OF T(1)])
  then show "sl_offset t + sl_length t < u64_limit \<and> sl_length t \<le> u32_limit"
    using T(4) [of r] assms(2) by (simp add: u32_limit_def u64_limit_def)
qed

lemma sys_read_agrees:
  assumes "sys_inv lay s" and "0 < block_size lay" and "chunk_size lay \<le> u32_limit" and "off + n < u64_limit"
  shows "agrees (those (map (content lay s cid) [off..<off + n])) (sys_read lay s cid off n)"
proof -
  have eq: "those (map (content lay s cid) [off..<off + n]) =
      chunk_content (sblocks s) (block_size lay) (get_slices (sdb s) cid) off n"
    unfolding chunk_content_def content_def ..
  show ?thesis
    unfolding eq sys_read_slices using inv_slices_fit [OF assms(1,3)] assms(2,4) by (rule mem.read_at_agrees)
qed

lemma inv_content:
  assumes "sys_inv lay s"
  shows "content lay s cid x \<noteq> None"
proof (cases "owner (get_slices (sdb s) cid) x")
  case None
  then show ?thesis by (simp add: content_def chunk_byte_def)
next
  case (Some t)
  note T = tables_okD [OF sys_invD(1) [OF assms]]
  have t: "t \<in> set (get_slices (sdb s) cid)" "covers t x" using owner_in_set [OF Some] by blast+
  then obtain r where "r \<in> set (slice_rows (sdb s))" "t = row_desc r" by (auto simp: get_slices_rows [OF T(1)])
  then have "stored lay (sblocks s) (slice_id t) (sl_length t)" using sys_invD(4) [OF assms] by (simp add: blocks_ok_def)
  moreover have "x - sl_offset t < sl_length t" using t(2) by (auto simp: covers_def)
  ultimately show ?thesis using Some by (simp add: content_def chunk_byte_def stored_def)
qed

lemma sys_read_content:
  assumes "sys_inv lay s" and "0 < block_size lay" and "chunk_size lay \<le> u32_limit" and "off + n < u64_limit"
  shows "sys_read lay s cid off n = Inr (map (\<lambda>x. the (content lay s cid x)) [off..<off + n])"
proof -
  have "map (content lay s cid) [off..<off + n] = map Some (map (\<lambda>x. the (content lay s cid x)) [off..<off + n])"
    using inv_content [OF assms(1)] by simp
  then have "those (map (content lay s cid) [off..<off + n]) = Some (map (\<lambda>x. the (content lay s cid x)) [off..<off + n])"
    by (simp only: those_map_Some)
  then show ?thesis using sys_read_agrees [OF assms, of cid] by simp
qed

section \<open>Every step keeps the invariant\<close>

lemma publish_keeps:
  assumes "sys_inv lay s" and "chunk_size lay \<le> u32_limit" and "(cid, ss, sid, n) \<in> set (sheavy s)"
    and "compact_heavy_publish mem_delete_range lay now ss cid sid n (sdb s) (sblocks s) = (res, db', m')"
  shows "keeps lay s (s\<lparr>sdb := db', sblocks := m', sheavy := remove1 (cid, ss, sid, n) (sheavy s)\<rparr>)"
  using assms(4)
proof (cases rule: publish_cases)
  case (1 db1)
  show ?thesis unfolding 1(2) using assms(1-3) refl 1(4,3) by (rule publish_ok_keeps)
next
  case 2
  show ?thesis unfolding 2(1) using assms(1,3) 2(2,3) by (rule publish_failed_keeps)
qed

lemma background_keeps:
  assumes "background_step lay s s'" and "sys_inv lay s" and "0 < block_size lay" and "chunk_size lay \<le> u32_limit"
  shows "keeps lay s s'"
  using assms(1)
proof (cases rule: background_step.cases)
  case (take_snapshot cid)
  then show ?thesis using snapshot_keeps [OF assms(2,4)] by simp
next
  case (light cid ss now res db')
  show ?thesis unfolding light(1) using assms(2,4) light(2,3) by (rule light_keeps)
next
  case (prepare cid ss now res db' m')
  show ?thesis unfolding prepare(1) using assms(2-4) prepare(2,3) by (rule prepare_keeps)
next
  case (publish cid ss sid n now res db' m')
  show ?thesis unfolding publish(1) using assms(2,4) publish(2,3) by (rule publish_keeps)
next
  case (gc_take now batch age ready db')
  show ?thesis unfolding gc_take(1) using assms(2) gc_take(2) by (rule gc_take_keeps)
next
  case (gc_orphans now age batch orphans db')
  show ?thesis unfolding gc_orphans(1) using assms(2) gc_orphans(2) by (rule gc_orphans_keeps)
next
  case (gc_delete sid sz bsize res db' m')
  show ?thesis unfolding gc_delete(1) using assms(2) gc_delete(2,3) by (rule gc_delete_keeps)
next
  case (gc_confirm ids)
  show ?thesis unfolding gc_confirm using assms(2) by (rule gc_confirm_keeps)
next
  case (gc_forget ids)
  show ?thesis unfolding gc_forget using assms(2) by (rule gc_forget_keeps)
qed

lemma keeps_inv: "keeps lay s s' \<Longrightarrow> sys_inv lay s'"
  by (simp add: keeps_def)

lemma keeps_content: "keeps lay s s' \<Longrightarrow> content lay s' cid = content lay s cid"
  by (simp add: keeps_def fun_eq_iff)

lemma client_inv:
  assumes "client_step lay s s'" and "sys_inv lay s" and "0 < block_size lay" and "chunk_size lay \<le> u32_limit"
  shows "sys_inv lay s'"
  using assms(1)
proof (cases rule: client_step.cases)
  case (alloc v db')
  show ?thesis unfolding alloc(1) using alloc_keeps [OF assms(2) alloc(2)] by (rule keeps_inv)
next
  case (upload sid chunks m')
  show ?thesis unfolding upload(1) using upload_keeps [OF assms(2-4) upload(2-4)] by (rule keeps_inv)
next
  case (append sid n off cid)
  show ?thesis unfolding append(1) using assms(2) append(2,3) by (rule append_inv)
next
  case (truncate now ino new_size old_size db')
  show ?thesis unfolding truncate(1) using assms(2,4) truncate(2) by (rule truncate_inv(1))
qed

lemma reachable_inv:
  assumes "reachable lay s" and "0 < block_size lay" and "chunk_size lay \<le> u32_limit"
  shows "sys_inv lay s"
  using assms(1)
proof induction
  case (start c)
  then show ?case by (rule init_inv)
next
  case (client s s')
  then show ?case using client_inv assms(2,3) by blast
next
  case (background s s')
  then show ?case using background_keeps assms(2,3) keeps_inv by blast
qed

lemma background_run_keeps:
  assumes "(background_step lay)\<^sup>*\<^sup>* s s'" and "sys_inv lay s" and "0 < block_size lay" and "chunk_size lay \<le> u32_limit"
  shows "keeps lay s s'"
  using assms(1)
proof induction
  case base
  show ?case using assms(2) by (simp add: keeps_def)
next
  case (step t u)
  from step.IH background_keeps [OF step.hyps(2) keeps_inv [OF step.IH] assms(3,4)]
  show ?case by (simp add: keeps_def)
qed

section \<open>Uploaded data waits for its append\<close>

lemma background_pool:
  assumes "background_step lay s s'" and "sys_inv lay s"
  shows "suploaded s' = suploaded s \<and> sfresh s' = sfresh s \<and> (\<forall>i\<in>pool s. \<forall>k. sblocks s' (i, k) = sblocks s (i, k))"
proof -
  note I = sys_invD [OF assms(2)]
  obtain c where c: "below s c" using I(3) by blast
  have cl: "classes (live_ids (sdb s)) (gone s) (resv_ids (sdb s)) (pending_ids (sdb s)) (pool s) (snap_ids s)"
    using I(2) by (simp add: ids_ok_def)
  have other: "\<forall>i\<in>pool s. \<forall>k. m' (i, k) = sblocks s (i, k)"
    if "sid \<notin> pool s" "\<And>key. fst key \<noteq> sid \<Longrightarrow> m' key = sblocks s key" for sid m'
  proof (intro ballI allI)
    fix i k assume "i \<in> pool s"
    then have "i \<noteq> sid" using that(1) by blast
    then show "m' (i, k) = sblocks s (i, k)" using that(2) by simp
  qed
  from assms(1) show ?thesis
  proof (cases rule: background_step.cases)
    case (prepare cid ss now res db' m')
    from prepare(3) have "\<forall>i\<in>pool s. \<forall>k. m' (i, k) = sblocks s (i, k)"
    proof (cases rule: prepare_cases)
      case (2 n data v db1 r)
      have "unat v \<notin> pool s" using belowD(3) [OF c] next_id_effect(1) [OF 2(3) belowD(1,2) [OF c]] by auto
      then show ?thesis
        by (rule other) (use 2(5) write_merged_other [of _ "unat v" "sblocks s" lay data] in \<open>metis snd_conv\<close>)
    qed simp
    then show ?thesis using prepare(1) by simp
  next
    case (publish cid ss sid n now res db' m')
    have sid: "sid \<notin> pool s" using merged_okD(2) [OF I(6) [OF publish(2)]] by blast
    from publish(3) have "\<forall>i\<in>pool s. \<forall>k. m' (i, k) = sblocks s (i, k)"
    proof (cases rule: publish_cases)
      case 2
      show ?thesis using sid 2(3) by (rule other)
    qed simp
    then show ?thesis using publish(1) by simp
  next
    case (gc_delete sid sz bsize res db' m')
    have "sid \<in> gone s" using gc_delete(2) by (force simp: gone_def)
    then have "sid \<notin> pool s" using classesD(4) [OF cl] by blast
    then have "\<forall>i\<in>pool s. \<forall>k. m' (i, k) = sblocks s (i, k)"
      by (rule other) (use delete_slice_blocks_effect(7) [OF gc_delete(3)] in blast)
    then show ?thesis using gc_delete(1) by simp
  qed simp_all
qed

lemma background_run_pool:
  assumes "(background_step lay)\<^sup>*\<^sup>* s s'" and "sys_inv lay s" and "0 < block_size lay" and "chunk_size lay \<le> u32_limit"
  shows "suploaded s' = suploaded s \<and> sfresh s' = sfresh s \<and> (\<forall>i\<in>pool s. \<forall>k. sblocks s' (i, k) = sblocks s (i, k))"
  using assms(1)
proof induction
  case (step t u)
  have inv: "sys_inv lay t" using background_run_keeps [OF step.hyps(1) assms(2-4)] by (rule keeps_inv)
  have "pool t = pool s" using step.IH by (simp add: pool_def)
  then show ?case using background_pool [OF step.hyps(2) inv] step.IH by simp
qed simp

lemma append_content:
  assumes "rows_ok (sdb s)" and "s' = s\<lparr>sdb := append_slice (sdb s) cid d, suploaded := us\<rparr>" and "chunk_id d = cid"
  shows "content lay s' i x = (if i = cid \<and> covers d x then slice_byte (sblocks s) (block_size lay) (slice_id d) (x - sl_offset d)
     else content lay s i x)"
proof -
  have rok: "rows_ok (append_slice (sdb s) cid d)" using rows_ok_insert [OF assms(1)] by (simp add: append_slice_def)
  have "d\<lparr>chunk_id := cid\<rparr> = d" using assms(3) by (cases d) simp
  then have "slice_rows (append_slice (sdb s) cid d) = slice_rows (sdb s) @ [\<lparr>row_id = next_row (sdb s), row_desc = d\<rparr>]"
    by (simp add: append_slice_def)
  from get_slices_snoc [OF assms(1) rok this, of i]
  show ?thesis using assms(2,3) by (simp add: content_def chunk_byte_def)
qed

lemma write_content:
  assumes lay: "0 < block_size lay" "chunk_size lay \<le> u32_limit" and inv: "sys_inv lay s"
    and sid: "sid \<in> set (sfresh s)" and n: "n = length (concat chunks)"
    and up: "write_at_vectored mem_write_fresh_range (sblocks s) lay sid 0 chunks = (Inr (), m')"
    and s1: "s1 = s\<lparr>sblocks := m', sfresh := remove1 sid (sfresh s), suploaded := (sid, n) # suploaded s\<rparr>"
    and run1: "(background_step lay)\<^sup>*\<^sup>* s1 s2" and fit: "off + n \<le> chunk_size lay"
    and s3: "s3 = s2\<lparr>sdb := append_slice (sdb s2) cid \<lparr>slice_id = sid, chunk_id = cid, sl_offset = off, sl_length = n\<rparr>,
      suploaded := remove1 (sid, n) (suploaded s2)\<rparr>"
    and run2: "(background_step lay)\<^sup>*\<^sup>* s3 s4"
  shows "sys_inv lay s4" and "content lay s4 i x =
     (if i = cid \<and> off \<le> x \<and> x < off + n then Some (concat chunks ! (x - off)) else content lay s i x)"
proof -
  have len: "length (concat chunks) \<le> chunk_size lay" using fit n by simp
  obtain c where c: "below s c" using sys_invD(3) [OF inv] by blast
  have none: "\<forall>i. sblocks s (sid, i) = None" using belowD(5) [OF c] sid by blast
  have "0 + length (concat chunks) \<le> u32_limit" using len lay(2) by simp
  from mem.write_at_vectored_correct [OF lay(1) this none]
  have bytes: "\<forall>j<n. slice_byte m' (block_size lay) sid j = Some (concat chunks ! j)" using up n by auto
  have k1: "keeps lay s s1" unfolding s1 n using inv lay sid len up by (rule upload_keeps)
  note inv1 = keeps_inv [OF k1]
  note k2 = background_run_keeps [OF run1 inv1 lay]
  note inv2 = keeps_inv [OF k2] and pool2 = background_run_pool [OF run1 inv1 lay]
  have "sid \<in> pool s1" by (simp add: s1 pool_def)
  then have "\<forall>k. sblocks s2 (sid, k) = m' (sid, k)" using pool2 by (simp add: s1)
  then have byte2: "slice_byte (sblocks s2) (block_size lay) sid j = slice_byte m' (block_size lay) sid j" for j
    by (rule slice_byte_cong)
  have "(sid, n) \<in> set (suploaded s2)" using pool2 by (simp add: s1)
  from append_inv [OF inv2 this fit] have inv3: "sys_inv lay s3" unfolding s3 .
  note k4 = background_run_keeps [OF run2 inv3 lay]
  show "sys_inv lay s4" using k4 by (rule keeps_inv)
  have rok: "rows_ok (sdb s2)" using tables_okD(1) [OF sys_invD(1) [OF inv2]] .
  have before: "content lay s2 i x = content lay s i x"
    unfolding keeps_content [OF k2] keeps_content [OF k1] ..
  have "content lay s4 i x = content lay s3 i x" unfolding keeps_content [OF k4] ..
  also have "\<dots> = (if i = cid \<and> off \<le> x \<and> x < off + n then Some (concat chunks ! (x - off)) else content lay s i x)"
  proof (cases "i = cid \<and> off \<le> x \<and> x < off + n")
    case True
    then have "x - off < n" by auto
    then show ?thesis using True append_content [OF rok s3, of lay i x] bytes byte2 by (simp add: covers_def)
  next
    case False
    then show ?thesis using append_content [OF rok s3, of lay i x] before by (auto simp: covers_def)
  qed
  finally show "content lay s4 i x =
     (if i = cid \<and> off \<le> x \<and> x < off + n then Some (concat chunks ! (x - off)) else content lay s i x)" .
qed

section \<open>A concrete run\<close>

definition demo_layout :: chunk_layout where
  "demo_layout = \<lparr>chunk_size = 16, block_size = 4\<rparr>"

lemma demo_layout_ok: "0 < block_size demo_layout" "chunk_size demo_layout \<le> u32_limit" "chunk_size demo_layout = 16"
  by (simp_all add: demo_layout_def u32_limit_def)

definition demo_fresh :: sys where
  "demo_fresh = (init_sys 1)\<lparr>sdb := (sdb (init_sys 1))\<lparr>counters := [SLICE_ID_KEY \<mapsto> 2]\<rparr>, sfresh := [1]\<rparr>"

lemma demo_fresh_reachable: "reachable demo_layout demo_fresh"
proof -
  have "reachable demo_layout (init_sys 1)" by (rule reachable.start) simp
  moreover have "next_id (sdb (init_sys 1)) SLICE_ID_KEY = Inr (1, (sdb (init_sys 1))\<lparr>counters := [SLICE_ID_KEY \<mapsto> 2]\<rparr>)"
  proof -
    have "decode_id 1 = None" by code_simp
    moreover have "(1::u64) <s i64_max" by (simp add: word_sless_alt i64_max_def)
    ultimately show ?thesis by (simp add: next_id_def alloc_counter_id_def init_sys_def result_simps)
  qed
  from client_step.alloc [OF this, of demo_layout] have "client_step demo_layout (init_sys 1) demo_fresh"
    by (simp add: demo_fresh_def init_sys_def)
  ultimately show ?thesis by (rule reachable.client)
qed

lemma demo_upload: "\<exists>m'. write_at_vectored mem_write_fresh_range (sblocks demo_fresh) demo_layout 1 0 [[5], [6, 7]] = (Inr (), m')"
  using mem.write_at_vectored_correct [of demo_layout 0 "[[5], [6, 7]]" "sblocks demo_fresh" 1]
  by (auto simp: demo_layout_def u32_limit_def demo_fresh_def init_sys_def)

section \<open>What users of the store rely on\<close>

text \<open>
  C1. Background work is invisible: in a state reached by any interleaving of writers,
  truncations, compactions and garbage collection, any further sequence of compaction and garbage
  collection steps leaves the result of every chunk read the same.
\<close>

theorem background_invisible:
  assumes "0 < block_size lay" and "chunk_size lay \<le> u32_limit" and "reachable lay s"
    and "(background_step lay)\<^sup>*\<^sup>* s s'" and "off + n < u64_limit"
  shows "sys_read lay s' cid off n = sys_read lay s cid off n"
proof -
  note inv = reachable_inv [OF assms(3,1,2)]
  note k = background_run_keeps [OF assms(4) inv assms(1,2)]
  show ?thesis
    by (simp only: sys_read_content [OF inv assms(1,2,5)] sys_read_content [OF keeps_inv [OF k] assms(1,2,5)]
        keeps_content [OF k])
qed

theorem background_invisible_witness:
  "\<exists>s s'. reachable demo_layout s \<and> (background_step demo_layout)\<^sup>*\<^sup>* s s' \<and> s' \<noteq> s
     \<and> sys_read demo_layout s' 3 0 8 = sys_read demo_layout s 3 0 8"
proof -
  let ?s' = "demo_fresh\<lparr>ssnaps := (3, cs_slices (snapshot (sdb demo_fresh) 3)) # ssnaps demo_fresh\<rparr>"
  have run: "(background_step demo_layout)\<^sup>*\<^sup>* demo_fresh ?s'"
    using background_step.take_snapshot [of demo_layout demo_fresh 3] by blast
  have "ssnaps ?s' \<noteq> ssnaps demo_fresh" by simp
  then have "?s' \<noteq> demo_fresh" by metis
  moreover have "sys_read demo_layout ?s' 3 0 8 = sys_read demo_layout demo_fresh 3 0 8"
    by (rule background_invisible [OF demo_layout_ok(1,2) demo_fresh_reachable run]) (simp add: u64_limit_def)
  ultimately show ?thesis using demo_fresh_reachable run by blast
qed

text \<open>
  C7. In every reachable state every chunk read succeeds and returns the requested number of bytes:
  no compaction or garbage collection ever removes a block that the slice table still refers to.
\<close>

theorem reachable_read_succeeds:
  assumes "0 < block_size lay" and "chunk_size lay \<le> u32_limit" and "reachable lay s" and "off + n < u64_limit"
  shows "\<exists>data. sys_read lay s cid off n = Inr data \<and> length data = n"
  using sys_read_content [OF reachable_inv [OF assms(3,1,2)] assms(1,2,4)] by auto

theorem reachable_read_succeeds_witness: "\<exists>data. sys_read demo_layout demo_fresh 3 2 5 = Inr data \<and> length data = 5"
  by (rule reachable_read_succeeds [OF demo_layout_ok(1,2) demo_fresh_reachable]) (simp add: u64_limit_def)

text \<open>
  C6. Written data is read back: a writer uploads a payload under a fresh identifier and later
  appends the slice, with any background steps in between and after; a read of the written range
  returns the payload, and a read of any other chunk or of a disjoint range is unchanged.
\<close>

theorem appended_write_readable:
  assumes lay: "0 < block_size lay" "chunk_size lay \<le> u32_limit" and s: "reachable lay s"
    and sid: "sid \<in> set (sfresh s)" and n: "n = length (concat chunks)"
    and up: "write_at_vectored mem_write_fresh_range (sblocks s) lay sid 0 chunks = (Inr (), m')"
    and s1: "s1 = s\<lparr>sblocks := m', sfresh := remove1 sid (sfresh s), suploaded := (sid, n) # suploaded s\<rparr>"
    and run1: "(background_step lay)\<^sup>*\<^sup>* s1 s2" and fit: "off + n \<le> chunk_size lay"
    and s3: "s3 = s2\<lparr>sdb := append_slice (sdb s2) cid \<lparr>slice_id = sid, chunk_id = cid, sl_offset = off, sl_length = n\<rparr>,
      suploaded := remove1 (sid, n) (suploaded s2)\<rparr>"
    and run2: "(background_step lay)\<^sup>*\<^sup>* s3 s4"
  shows "sys_read lay s4 cid off n = Inr (concat chunks) \<and>
    (\<forall>i p k. p + k < u64_limit \<and> (i \<noteq> cid \<or> p + k \<le> off \<or> off + n \<le> p) \<longrightarrow> sys_read lay s4 i p k = sys_read lay s i p k)"
proof (intro conjI allI impI)
  note inv = reachable_inv [OF s lay]
  note W = write_content [OF lay inv sid n up s1 run1 fit s3 run2]
  have lim: "off + n < u64_limit" using fit lay(2) by (simp add: u32_limit_def u64_limit_def)
  have "map (\<lambda>x. the (content lay s4 cid x)) [off..<off + n] = concat chunks"
    by (rule nth_equalityI) (simp_all add: W(2) n)
  then show "sys_read lay s4 cid off n = Inr (concat chunks)"
    by (simp only: sys_read_content [OF W(1) lay lim])
  fix i p k assume a: "p + k < u64_limit \<and> (i \<noteq> cid \<or> p + k \<le> off \<or> off + n \<le> p)"
  then have lim2: "p + k < u64_limit" by simp
  have "map (\<lambda>x. the (content lay s4 i x)) [p..<p + k] = map (\<lambda>x. the (content lay s i x)) [p..<p + k]"
    by (rule map_cong) (use a in \<open>auto simp: W(2)\<close>)
  then show "sys_read lay s4 i p k = sys_read lay s i p k"
    by (simp only: sys_read_content [OF W(1) lay lim2] sys_read_content [OF inv lay lim2])
qed

theorem appended_write_readable_witness:
  "\<exists>s. sys_read demo_layout s 3 2 3 = Inr [5, 6, 7] \<and> sys_read demo_layout s 4 0 3 = sys_read demo_layout demo_fresh 4 0 3"
proof -
  obtain m' where up: "write_at_vectored mem_write_fresh_range (sblocks demo_fresh) demo_layout 1 0 [[5], [6, 7]] = (Inr (), m')"
    using demo_upload by blast
  have "1 \<in> set (sfresh demo_fresh)" by (simp add: demo_fresh_def)
  from appended_write_readable [OF demo_layout_ok(1,2) demo_fresh_reachable this _ up refl rtranclp.rtrancl_refl _ refl rtranclp.rtrancl_refl,
      of 3 2 3]
  show ?thesis by (auto simp: demo_layout_ok(3) u64_limit_def)
qed

end
