(* ===== verification/Permission.thy ===== *)
theory Permission
  imports Prelude
begin

text \<open>
  File types and permission records: \<^verbatim>\<open>FileType\<close> and \<^verbatim>\<open>EntryType\<close> (\<^verbatim>\<open>src/src/meta/store.rs\<close>,
  \<^verbatim>\<open>src/src/meta/entities/content_meta.rs\<close>) and \<^verbatim>\<open>Permission\<close> with its access check
  (\<^verbatim>\<open>src/src/meta/permission.rs\<close>). Modes are words; the octal masks of the source are written in
  decimal.
\<close>

section \<open>File types\<close>

datatype file_type = FtFile | FtDir | FtSymlink | FtFifo | FtSocket | FtCharDevice | FtBlockDevice

definition S_IFMT :: u32 where
  "S_IFMT = 61440"

definition ft_from_mode :: "u32 \<Rightarrow> file_type" where
  "ft_from_mode mode =
     (let t = mode AND S_IFMT
      in if t = 16384 then FtDir else if t = 40960 then FtSymlink else if t = 4096 then FtFifo
         else if t = 49152 then FtSocket else if t = 8192 then FtCharDevice
         else if t = 24576 then FtBlockDevice else FtFile)"

fun mode_type_bits :: "file_type \<Rightarrow> u32" where
  "mode_type_bits FtFile = 32768"
| "mode_type_bits FtDir = 16384"
| "mode_type_bits FtSymlink = 40960"
| "mode_type_bits FtFifo = 4096"
| "mode_type_bits FtSocket = 49152"
| "mode_type_bits FtCharDevice = 8192"
| "mode_type_bits FtBlockDevice = 24576"

fun is_special_node :: "file_type \<Rightarrow> bool" where
  "is_special_node FtFifo = True"
| "is_special_node FtSocket = True"
| "is_special_node FtCharDevice = True"
| "is_special_node FtBlockDevice = True"
| "is_special_node _ = False"

datatype entry_type = EtFile | EtDirectory | EtSymlink | EtFifo | EtSocket | EtCharDevice | EtBlockDevice

fun file_type_of_entry :: "entry_type \<Rightarrow> file_type" where
  "file_type_of_entry EtFile = FtFile"
| "file_type_of_entry EtDirectory = FtDir"
| "file_type_of_entry EtSymlink = FtSymlink"
| "file_type_of_entry EtFifo = FtFifo"
| "file_type_of_entry EtSocket = FtSocket"
| "file_type_of_entry EtCharDevice = FtCharDevice"
| "file_type_of_entry EtBlockDevice = FtBlockDevice"

fun file_type_to_entry_type :: "file_type \<Rightarrow> entry_type" where
  "file_type_to_entry_type FtFile = EtFile"
| "file_type_to_entry_type FtDir = EtDirectory"
| "file_type_to_entry_type FtSymlink = EtSymlink"
| "file_type_to_entry_type FtFifo = EtFifo"
| "file_type_to_entry_type FtSocket = EtSocket"
| "file_type_to_entry_type FtCharDevice = EtCharDevice"
| "file_type_to_entry_type FtBlockDevice = EtBlockDevice"

section \<open>Access control lists\<close>

definition ACL_READ :: u8 where "ACL_READ = 1"
definition ACL_WRITE :: u8 where "ACL_WRITE = 2"
definition ACL_EXEC :: u8 where "ACL_EXEC = 4"

definition flags_contains :: "u8 \<Rightarrow> u8 \<Rightarrow> bool" where
  "flags_contains fs f \<longleftrightarrow> fs AND f = f"

datatype acl_subject = AclUser u32 | AclGroup u32 | AclOther

record acl_entry =
  ae_subject :: acl_subject
  ae_flags :: u8

type_synonym acl = "acl_entry list"

fun acl_check_permission :: "acl \<Rightarrow> u32 \<Rightarrow> u32 list \<Rightarrow> u8 \<Rightarrow> bool" where
  "acl_check_permission [] uid gids flag = False"
| "acl_check_permission (e # es) uid gids flag =
     ((case ae_subject e of
         AclUser u \<Rightarrow> u = uid \<and> flags_contains (ae_flags e) flag
       | AclGroup g \<Rightarrow> g \<in> set gids \<and> flags_contains (ae_flags e) flag
       | AclOther \<Rightarrow> flags_contains (ae_flags e) flag)
      \<or> acl_check_permission es uid gids flag)"

section \<open>Permissions\<close>

record permission =
  pm_mode :: u32
  pm_uid :: u32
  pm_gid :: u32
  pm_acl :: "acl option"

definition permission_new :: "u32 \<Rightarrow> u32 \<Rightarrow> u32 \<Rightarrow> permission" where
  "permission_new mode uid gid = \<lparr>pm_mode = mode, pm_uid = uid, pm_gid = gid, pm_acl = None\<rparr>"

definition permission_bits :: "permission \<Rightarrow> u32" where
  "permission_bits p = pm_mode p AND 511"

definition file_type_bits :: "permission \<Rightarrow> u32" where
  "file_type_bits p = pm_mode p AND S_IFMT"

definition is_directory :: "permission \<Rightarrow> bool" where
  "is_directory p \<longleftrightarrow> file_type_bits p AND 16384 = 16384"

definition is_regular_file :: "permission \<Rightarrow> bool" where
  "is_regular_file p \<longleftrightarrow> file_type_bits p AND 32768 = 32768"

definition default_directory :: "u32 \<Rightarrow> u32 \<Rightarrow> permission" where
  "default_directory uid gid = permission_new 16877 uid gid"

definition default_file :: "u32 \<Rightarrow> u32 \<Rightarrow> permission" where
  "default_file uid gid = permission_new 33188 uid gid"

definition check_access :: "permission \<Rightarrow> u32 \<Rightarrow> u32 list \<Rightarrow> u8 \<Rightarrow> u32 \<Rightarrow> u32 \<Rightarrow> u32 \<Rightarrow> bool" where
  "check_access p uid gids flag ugo_mask group_mask other_mask =
     (if uid = 0 then True
      else if (case pm_acl p of None \<Rightarrow> False | Some acl \<Rightarrow> acl_check_permission acl uid gids flag) then True
      else if uid = pm_uid p then permission_bits p AND ugo_mask \<noteq> 0
      else if pm_gid p \<in> set gids then permission_bits p AND group_mask \<noteq> 0
      else permission_bits p AND other_mask \<noteq> 0)"

definition can_read :: "permission \<Rightarrow> u32 \<Rightarrow> u32 list \<Rightarrow> bool" where
  "can_read p uid gids = check_access p uid gids ACL_READ 256 32 4"

definition can_write :: "permission \<Rightarrow> u32 \<Rightarrow> u32 list \<Rightarrow> bool" where
  "can_write p uid gids = check_access p uid gids ACL_WRITE 128 16 2"

definition can_execute :: "permission \<Rightarrow> u32 \<Rightarrow> u32 list \<Rightarrow> bool" where
  "can_execute p uid gids = check_access p uid gids ACL_EXEC 64 8 1"

definition chmod :: "permission \<Rightarrow> u32 \<Rightarrow> permission" where
  "chmod p new_mode = p\<lparr>pm_mode := file_type_bits p OR (new_mode AND 4095)\<rparr>"

definition chown :: "permission \<Rightarrow> u32 \<Rightarrow> u32 \<Rightarrow> permission" where
  "chown p new_uid new_gid = p\<lparr>pm_uid := new_uid, pm_gid := new_gid\<rparr>"

section \<open>Types and modes\<close>

lemma entry_type_round_trip [simp]:
  "file_type_of_entry (file_type_to_entry_type k) = k"
  "file_type_to_entry_type (file_type_of_entry e) = e"
  by (cases k; simp) (cases e; simp)

lemma file_type_of_entry_dir [simp]: "file_type_of_entry e = FtDir \<longleftrightarrow> e = EtDirectory"
  by (cases e) simp_all

lemma file_type_to_entry_dir [simp]: "file_type_to_entry_type k = EtDirectory \<longleftrightarrow> k = FtDir"
  by (cases k) simp_all

lemma type_and_bits [simp]:
  "(t OR (m AND 4095)) AND S_IFMT = t AND S_IFMT" "(t AND S_IFMT) AND S_IFMT = t AND S_IFMT" for t m :: u32
proof -
  have zero: "(4095::u32) AND 61440 = 0" by simp
  have "(t OR (m AND 4095)) AND 61440 = (t AND 61440) OR (m AND (4095 AND 61440))"
    by (simp only: bit.conj_disj_distrib2 and.assoc)
  then show "(t OR (m AND 4095)) AND S_IFMT = t AND S_IFMT" by (simp only: S_IFMT_def zero and_zero_eq or.right_neutral)
  show "(t AND S_IFMT) AND S_IFMT = t AND S_IFMT" by (simp add: and.assoc)
qed

lemma mode_type_bits_type [simp]: "mode_type_bits k AND S_IFMT = mode_type_bits k"
  by (cases k) (simp_all add: S_IFMT_def)

lemma chmod_type [simp]: "file_type_bits (chmod p m) = file_type_bits p" "is_directory (chmod p m) = is_directory p"
  by (simp_all add: chmod_def file_type_bits_def is_directory_def)

lemma chown_type [simp]: "file_type_bits (chown p u g) = file_type_bits p" "is_directory (chown p u g) = is_directory p"
  by (simp_all add: chown_def file_type_bits_def is_directory_def)

lemma default_directory_is_directory [simp]: "is_directory (default_directory u g)"
  by (simp add: default_directory_def is_directory_def permission_new_def file_type_bits_def S_IFMT_def)

text \<open>
  A node created with type bits and permission bits is seen with exactly that type, whatever
  the permission bits, and keeps it under any later change of mode.
\<close>

theorem created_mode_has_type:
  "ft_from_mode (mode_type_bits k OR (m AND 4095)) = k
   \<and> ft_from_mode (pm_mode (chmod (permission_new (mode_type_bits k OR (m AND 4095)) u g) m')) = k
   \<and> pm_mode (chmod (permission_new (mode_type_bits k OR (m AND 4095)) u g) m') AND 4095 = m' AND 4095"
proof -
  have low: "(mode_type_bits k OR (m' AND 4095)) AND 4095 = m' AND 4095"
    by (cases k) (simp_all add: bit.conj_disj_distrib2 and.assoc)
  have t: "ft_from_mode (mode_type_bits k OR (x AND 4095)) = k" for x
    unfolding ft_from_mode_def Let_def type_and_bits mode_type_bits_type by (cases k) simp_all
  show ?thesis
    using t low by (simp add: chmod_def permission_new_def file_type_bits_def)
qed

lemma class_bit:
  "(w AND 511) AND 256 \<noteq> 0 \<longleftrightarrow> bit w 8" "(w AND 511) AND 128 \<noteq> 0 \<longleftrightarrow> bit w 7" "(w AND 511) AND 64 \<noteq> 0 \<longleftrightarrow> bit w 6"
  "(w AND 511) AND 32 \<noteq> 0 \<longleftrightarrow> bit w 5" "(w AND 511) AND 16 \<noteq> 0 \<longleftrightarrow> bit w 4" "(w AND 511) AND 8 \<noteq> 0 \<longleftrightarrow> bit w 3"
  "(w AND 511) AND 4 \<noteq> 0 \<longleftrightarrow> bit w 2" "(w AND 511) AND 2 \<noteq> 0 \<longleftrightarrow> bit w 1" "(w AND 511) AND 1 \<noteq> 0 \<longleftrightarrow> bit w 0" for w :: u32
proof -
  have eq: "(w AND 511) AND 2 ^ k \<noteq> 0 \<longleftrightarrow> bit w k" if "bit (511::u32) k" for k
    using that by (simp add: and_exp_eq_0_iff_not_bit bit_and_iff)
  show "(w AND 511) AND 256 \<noteq> 0 \<longleftrightarrow> bit w 8" "(w AND 511) AND 128 \<noteq> 0 \<longleftrightarrow> bit w 7" "(w AND 511) AND 64 \<noteq> 0 \<longleftrightarrow> bit w 6"
    "(w AND 511) AND 32 \<noteq> 0 \<longleftrightarrow> bit w 5" "(w AND 511) AND 16 \<noteq> 0 \<longleftrightarrow> bit w 4" "(w AND 511) AND 8 \<noteq> 0 \<longleftrightarrow> bit w 3"
    "(w AND 511) AND 4 \<noteq> 0 \<longleftrightarrow> bit w 2" "(w AND 511) AND 2 \<noteq> 0 \<longleftrightarrow> bit w 1" "(w AND 511) AND 1 \<noteq> 0 \<longleftrightarrow> bit w 0"
    using eq [of 8] eq [of 7] eq [of 6] eq [of 5] eq [of 4] eq [of 3] eq [of 2] eq [of 1] eq [of 0] by simp_all
qed

text \<open>The permission class that applies to a caller: 6 for the owner, 3 for the group, 0 for others.\<close>

definition access_class :: "permission \<Rightarrow> u32 \<Rightarrow> u32 list \<Rightarrow> nat" where
  "access_class p uid gids = (if uid = pm_uid p then 6 else if pm_gid p \<in> set gids then 3 else 0)"

text \<open>
  Without an access control list a non-root caller is checked against exactly one permission
  class: the owner's when the caller owns the inode, else the group's when a group of the caller
  matches, else the class of others; and within it against the read, write or execute bit.
\<close>

theorem check_access_class:
  assumes "uid \<noteq> 0" and "pm_acl p = None"
  shows "can_read p uid gids = bit (pm_mode p) (access_class p uid gids + 2)
    \<and> can_write p uid gids = bit (pm_mode p) (access_class p uid gids + 1)
    \<and> can_execute p uid gids = bit (pm_mode p) (access_class p uid gids)"
  using assms
  by (simp add: can_read_def can_write_def can_execute_def check_access_def permission_bits_def access_class_def class_bit,
      simp add: numeral_2_eq_2)

theorem check_access_class_witness:
  "can_read (default_file 7 8) 9 [8] \<and> \<not> can_write (default_file 7 8) 9 [8]"
  using check_access_class [of 9 "default_file 7 8" "[8]"]
  by (simp add: default_file_def permission_new_def access_class_def bit_numeral_rec)

text \<open>
  The directory test of a permission record accepts sockets and block devices as well as
  directories, since their type bits contain the directory bit.
\<close>

theorem is_directory_accepts:
  "is_directory (permission_new (mode_type_bits k OR (m AND 4095)) u g) \<longleftrightarrow> k \<in> {FtDir, FtSocket, FtBlockDevice}"
  unfolding is_directory_def permission_new_def file_type_bits_def permission.select_convs type_and_bits mode_type_bits_type
  by (cases k) simp_all

end
