(* ===== verification/MetaNamespace.thy ===== *)
theory MetaNamespace
  imports SliceStore Permission "HOL-Library.AList" "HOL-Library.List_Lexorder" "HOL-Library.Char_ord"
begin

text \<open>
  The namespace tables of the database store and the operations on them
  (\<^verbatim>\<open>src/src/meta/stores/database/mod.rs\<close>, entities in \<^verbatim>\<open>src/src/meta/entities\<close>). Directories are
  rows of \<^verbatim>\<open>access_meta\<close>, every other inode is a row of \<^verbatim>\<open>file_meta\<close>, directory entries are rows of
  \<^verbatim>\<open>content_meta\<close>, and \<^verbatim>\<open>link_parent_meta\<close> lists the entries of a file with several links.

  A table is the list of its rows; an insertion under an existing primary key is a database error.
  A transaction either commits its last state or leaves the tables as they were; identifiers are
  allocated before the transaction and stay consumed when it fails. The clock and the JSON encoder of
  trash metadata are arguments.
\<close>

section \<open>Tables\<close>

record access_row =
  ac_inode :: int
  ac_perm :: permission
  ac_atime :: int
  ac_mtime :: int
  ac_ctime :: int
  ac_nlink :: int

record content_row =
  ct_parent :: int
  ct_name :: string
  ct_inode :: int
  ct_type :: entry_type

record file_row =
  fi_inode :: int
  fi_size :: int
  fi_rdev :: int
  fi_atime :: int
  fi_mtime :: int
  fi_ctime :: int
  fi_perm :: permission
  fi_nlink :: int
  fi_parent :: int
  fi_deleted :: bool
  fi_symlink :: "string option"

type_synonym link_row = "int \<times> int \<times> string"
type_synonym xattr_row = "(int \<times> string) \<times> bytes"

record meta_db =
  access_rows :: "access_row list"
  content_rows :: "content_row list"
  file_rows :: "file_row list"
  link_rows :: "link_row list"
  xattr_rows :: "xattr_row list"
  store_db :: slice_db

definition ROOT_INO :: int where
  "ROOT_INO = 1"

definition ct_key :: "content_row \<Rightarrow> int \<times> string" where
  "ct_key r = (ct_parent r, ct_name r)"

definition find_access :: "meta_db \<Rightarrow> int \<Rightarrow> access_row option" where
  "find_access db ino = find (\<lambda>r. ac_inode r = ino) (access_rows db)"

definition find_file :: "meta_db \<Rightarrow> int \<Rightarrow> file_row option" where
  "find_file db ino = find (\<lambda>r. fi_inode r = ino) (file_rows db)"

definition find_entry :: "meta_db \<Rightarrow> int \<Rightarrow> string \<Rightarrow> content_row option" where
  "find_entry db parent name = find (\<lambda>r. ct_parent r = parent \<and> ct_name r = name) (content_rows db)"

definition entries_of :: "meta_db \<Rightarrow> int \<Rightarrow> content_row list" where
  "entries_of db ino = filter (\<lambda>r. ct_inode r = ino) (content_rows db)"

definition children_of :: "meta_db \<Rightarrow> int \<Rightarrow> content_row list" where
  "children_of db ino = filter (\<lambda>r. ct_parent r = ino) (content_rows db)"

definition insert_access :: "access_row \<Rightarrow> meta_db \<Rightarrow> meta_error + meta_db" where
  "insert_access r db =
     (if find_access db (ac_inode r) \<noteq> None then Inl DatabaseError
      else Inr (db\<lparr>access_rows := access_rows db @ [r]\<rparr>))"

definition insert_file :: "file_row \<Rightarrow> meta_db \<Rightarrow> meta_error + meta_db" where
  "insert_file r db =
     (if find_file db (fi_inode r) \<noteq> None then Inl DatabaseError
      else Inr (db\<lparr>file_rows := file_rows db @ [r]\<rparr>))"

definition insert_content :: "content_row \<Rightarrow> meta_db \<Rightarrow> meta_error + meta_db" where
  "insert_content r db =
     (if find_entry db (ct_parent r) (ct_name r) \<noteq> None then Inl DatabaseError
      else Inr (db\<lparr>content_rows := content_rows db @ [r]\<rparr>))"

definition insert_link :: "link_row \<Rightarrow> meta_db \<Rightarrow> meta_error + meta_db" where
  "insert_link r db =
     (if r \<in> set (link_rows db) then Inl DatabaseError else Inr (db\<lparr>link_rows := link_rows db @ [r]\<rparr>))"

definition delete_content :: "int \<Rightarrow> string \<Rightarrow> meta_db \<Rightarrow> meta_db" where
  "delete_content parent name db =
     db\<lparr>content_rows := filter (\<lambda>r. \<not> (ct_parent r = parent \<and> ct_name r = name)) (content_rows db)\<rparr>"

definition delete_link :: "link_row \<Rightarrow> meta_db \<Rightarrow> meta_db" where
  "delete_link r db = db\<lparr>link_rows := filter (\<lambda>x. x \<noteq> r) (link_rows db)\<rparr>"

definition delete_links :: "int \<Rightarrow> meta_db \<Rightarrow> meta_db" where
  "delete_links ino db = db\<lparr>link_rows := filter (\<lambda>x. fst x \<noteq> ino) (link_rows db)\<rparr>"

definition delete_access :: "int \<Rightarrow> meta_db \<Rightarrow> meta_db" where
  "delete_access ino db = db\<lparr>access_rows := filter (\<lambda>r. ac_inode r \<noteq> ino) (access_rows db)\<rparr>"

definition delete_xattrs :: "int \<Rightarrow> meta_db \<Rightarrow> meta_db" where
  "delete_xattrs ino db = db\<lparr>xattr_rows := filter (\<lambda>x. fst (fst x) \<noteq> ino) (xattr_rows db)\<rparr>"

definition put_xattr :: "int \<Rightarrow> string \<Rightarrow> bytes \<Rightarrow> meta_db \<Rightarrow> meta_db" where
  "put_xattr ino name v db = db\<lparr>xattr_rows := AList.update (ino, name) v (xattr_rows db)\<rparr>"

definition update_file :: "file_row \<Rightarrow> meta_db \<Rightarrow> meta_db" where
  "update_file f db = db\<lparr>file_rows := map (\<lambda>r. if fi_inode r = fi_inode f then f else r) (file_rows db)\<rparr>"

definition update_access :: "access_row \<Rightarrow> meta_db \<Rightarrow> meta_db" where
  "update_access a db = db\<lparr>access_rows := map (\<lambda>r. if ac_inode r = ac_inode a then a else r) (access_rows db)\<rparr>"

text \<open>The result of a transaction: on an error the state before it.\<close>

definition run_txn :: "meta_db \<Rightarrow> meta_error + ('a \<times> meta_db) \<Rightarrow> (meta_error + 'a) \<times> meta_db" where
  "run_txn db r = (case r of Inl e \<Rightarrow> (Inl e, db) | Inr (x, db') \<Rightarrow> (Inr x, db'))"

definition touch_parent :: "meta_error \<Rightarrow> int \<Rightarrow> int \<Rightarrow> meta_db \<Rightarrow> meta_error + meta_db" where
  "touch_parent e now parent db =
     (case find_access db parent of
        None \<Rightarrow> Inl e
      | Some a \<Rightarrow> Inr (update_access (a\<lparr>ac_mtime := now\<rparr>) db))"

section \<open>Attributes and lookups\<close>

record file_attr =
  at_ino :: int
  at_size :: nat
  at_blocks :: nat
  at_kind :: file_type
  at_mode :: u32
  at_rdev :: nat
  at_uid :: u32
  at_gid :: u32
  at_atime :: int
  at_mtime :: int
  at_ctime :: int
  at_nlink :: nat

text \<open>The cast of an \<^verbatim>\<open>i64\<close> to \<^verbatim>\<open>u64\<close> and of an \<^verbatim>\<open>i32\<close> to \<^verbatim>\<open>u32\<close>.\<close>

definition as_u64 :: "int \<Rightarrow> nat" where
  "as_u64 x = nat (x mod 2 ^ 64)"

definition i32_as_u32 :: "int \<Rightarrow> nat" where
  "i32_as_u32 x = nat (x mod 2 ^ 32)"

definition file_meta_to_attr :: "file_row \<Rightarrow> file_attr" where
  "file_meta_to_attr f =
     (let kind = (if fi_symlink f \<noteq> None then FtSymlink else ft_from_mode (pm_mode (fi_perm f)));
          sz = (case fi_symlink f of Some t \<Rightarrow> length t | None \<Rightarrow> as_u64 (fi_size f))
      in \<lparr>at_ino = fi_inode f, at_size = sz, at_blocks = div_ceil sz 512, at_kind = kind,
          at_mode = pm_mode (fi_perm f), at_rdev = nat (max (fi_rdev f) 0), at_uid = pm_uid (fi_perm f),
          at_gid = pm_gid (fi_perm f), at_atime = fi_atime f, at_mtime = fi_mtime f, at_ctime = fi_ctime f,
          at_nlink = i32_as_u32 (fi_nlink f)\<rparr>)"

definition access_meta_to_attr :: "access_row \<Rightarrow> file_attr" where
  "access_meta_to_attr a =
     \<lparr>at_ino = ac_inode a, at_size = 4096, at_blocks = div_ceil 4096 512, at_kind = FtDir,
      at_mode = pm_mode (ac_perm a), at_rdev = 0, at_uid = pm_uid (ac_perm a), at_gid = pm_gid (ac_perm a),
      at_atime = ac_atime a, at_mtime = ac_mtime a, at_ctime = ac_ctime a, at_nlink = i32_as_u32 (ac_nlink a)\<rparr>"

definition stat :: "meta_db \<Rightarrow> int \<Rightarrow> file_attr option" where
  "stat db ino =
     (case find_file db ino of
        Some f \<Rightarrow> Some (file_meta_to_attr f)
      | None \<Rightarrow> map_option access_meta_to_attr (find_access db ino))"

text \<open>The batch form fills a hash map from the file rows, then from the directory rows.\<close>

definition batch_stat :: "meta_db \<Rightarrow> int list \<Rightarrow> file_attr option list" where
  "batch_stat db inodes =
     (let files = filter (\<lambda>f. fi_inode f \<in> set inodes) (file_rows db);
          dirs = filter (\<lambda>a. ac_inode a \<in> set inodes) (access_rows db);
          m0 = fold (\<lambda>f m. m(fi_inode f \<mapsto> file_meta_to_attr f)) files Map.empty;
          m1 = fold (\<lambda>a m. m(ac_inode a \<mapsto> access_meta_to_attr a)) dirs m0
      in map m1 inodes)"

definition lookup :: "meta_db \<Rightarrow> int \<Rightarrow> string \<Rightarrow> int option" where
  "lookup db parent name = map_option ct_inode (find_entry db parent name)"

fun split_slash :: "string \<Rightarrow> string list" where
  "split_slash [] = [[]]"
| "split_slash (c # cs) =
     (if c = CHR ''/'' then [] # split_slash cs
      else (case split_slash cs of [] \<Rightarrow> [[c]] | p # ps \<Rightarrow> (c # p) # ps))"

definition trim_slashes :: "string \<Rightarrow> string" where
  "trim_slashes s = rev (dropWhile (\<lambda>c. c = CHR ''/'') (rev (dropWhile (\<lambda>c. c = CHR ''/'') s)))"

fun lookup_parts :: "meta_db \<Rightarrow> int \<Rightarrow> string list \<Rightarrow> (int \<times> file_type) option" where
  "lookup_parts db cur [] = Some (cur, FtDir)"
| "lookup_parts db cur (part # parts) =
     (case find_entry db cur part of
        None \<Rightarrow> None
      | Some e \<Rightarrow>
          if file_type_of_entry (ct_type e) = FtDir then lookup_parts db (ct_inode e) parts
          else if parts = [] then Some (ct_inode e, file_type_of_entry (ct_type e)) else None)"

definition lookup_path :: "meta_db \<Rightarrow> string \<Rightarrow> (int \<times> file_type) option" where
  "lookup_path db path =
     (if path = ''/'' then Some (1, FtDir)
      else lookup_parts db 1 (filter (\<lambda>p. p \<noteq> []) (split_slash (trim_slashes path))))"

record dir_entry =
  de_name :: string
  de_ino :: int
  de_kind :: file_type

definition dir_entry_of :: "content_row \<Rightarrow> dir_entry" where
  "dir_entry_of r = \<lparr>de_name = ct_name r, de_ino = ct_inode r, de_kind = file_type_of_entry (ct_type r)\<rparr>"

definition readdir :: "meta_db \<Rightarrow> int \<Rightarrow> meta_error + dir_entry list" where
  "readdir db ino =
     rbind (ok_or (NotFound ino) (find_access db ino)) (\<lambda>a.
       if \<not> is_directory (ac_perm a) then Inl (NotDirectory ino)
       else Inr (map dir_entry_of (sort_key ct_name (children_of db ino))))"

definition readdir_page :: "meta_db \<Rightarrow> int \<Rightarrow> string \<Rightarrow> nat \<Rightarrow> meta_error + dir_entry list" where
  "readdir_page db ino start limit =
     (if limit = 0 then Inr []
      else case find_access db ino of
             None \<Rightarrow> Inl (if find_file db ino \<noteq> None then NotDirectory ino else NotFound ino)
           | Some a \<Rightarrow>
               if \<not> is_directory (ac_perm a) then Inl (NotDirectory ino)
               else Inr (map dir_entry_of
                      (take limit (sort_key ct_name (filter (\<lambda>r. start \<le> ct_name r) (children_of db ino))))))"

section \<open>Creating entries\<close>

text \<open>The counter of inode numbers; an allocated number stays consumed.\<close>

definition alloc_inode :: "meta_db \<Rightarrow> meta_error + (int \<times> meta_db)" where
  "alloc_inode db =
     rbind (alloc_counter_id (store_db db) INODE_ID_KEY) (\<lambda>(v, sdb). Inr (sint v, db\<lparr>store_db := sdb\<rparr>))"

definition inherited_gid :: "access_row \<Rightarrow> u32 \<Rightarrow> u32" where
  "inherited_gid a gid = (if pm_mode (ac_perm a) AND 1024 \<noteq> 0 then pm_gid (ac_perm a) else gid)"

definition new_file_row :: "int \<Rightarrow> int \<Rightarrow> permission \<Rightarrow> int \<Rightarrow> file_row" where
  "new_file_row ino parent perm now =
     \<lparr>fi_inode = ino, fi_size = 0, fi_rdev = 0, fi_atime = now, fi_mtime = now, fi_ctime = now, fi_perm = perm,
      fi_nlink = 1, fi_parent = parent, fi_deleted = False, fi_symlink = None\<rparr>"

definition create_directory :: "int \<Rightarrow> int \<Rightarrow> string \<Rightarrow> meta_db \<Rightarrow> (meta_error + int) \<times> meta_db" where
  "create_directory now parent name db0 =
     (case alloc_inode db0 of
        Inl e \<Rightarrow> (Inl e, db0)
      | Inr (ino, db) \<Rightarrow> run_txn db
          (rbind (ok_or (ParentNotFound parent) (find_access db parent)) (\<lambda>pa.
           if find_entry db parent name \<noteq> None then Inl (AlreadyExists parent name)
           else
             rbind (insert_access \<lparr>ac_inode = ino, ac_perm = default_directory 0 (inherited_gid pa 0), ac_atime = now,
                      ac_mtime = now, ac_ctime = now, ac_nlink = 2\<rparr> db) (\<lambda>db.
             rbind (insert_content \<lparr>ct_parent = parent, ct_name = name, ct_inode = ino, ct_type = EtDirectory\<rparr> db) (\<lambda>db.
             rbind (touch_parent (Internal ''unwrap on None'') now parent db) (\<lambda>db. Inr (ino, db)))))))"

definition mkdir :: "int \<Rightarrow> int \<Rightarrow> string \<Rightarrow> meta_db \<Rightarrow> (meta_error + int) \<times> meta_db" where
  "mkdir now parent name db = create_directory now parent name db"

definition create_file_internal :: "int \<Rightarrow> int \<Rightarrow> string \<Rightarrow> meta_db \<Rightarrow> (meta_error + int) \<times> meta_db" where
  "create_file_internal now parent name db0 =
     (case alloc_inode db0 of
        Inl e \<Rightarrow> (Inl e, db0)
      | Inr (ino, db) \<Rightarrow> run_txn db
          (rbind (ok_or (ParentNotFound parent) (find_access db parent)) (\<lambda>pa.
           if find_entry db parent name \<noteq> None then Inl (AlreadyExists parent name)
           else
             rbind (insert_file (new_file_row ino parent (permission_new 33188 0 (inherited_gid pa 0)) now) db) (\<lambda>db.
             rbind (insert_content \<lparr>ct_parent = parent, ct_name = name, ct_inode = ino, ct_type = EtFile\<rparr> db) (\<lambda>db.
             rbind (touch_parent (Internal ''unwrap on None'') now parent db) (\<lambda>db. Inr (ino, db)))))))"

text \<open>The cast of the device number to \<^verbatim>\<open>i32\<close>.\<close>

definition u32_as_i32 :: "u32 \<Rightarrow> int" where
  "u32_as_i32 x = sint x"

definition create_node ::
  "int \<Rightarrow> int \<Rightarrow> string \<Rightarrow> file_type \<Rightarrow> u32 \<Rightarrow> u32 \<Rightarrow> u32 \<Rightarrow> u32 \<Rightarrow> meta_db \<Rightarrow> (meta_error + int) \<times> meta_db" where
  "create_node now parent name kind mode uid gid rdev db0 =
     (if kind = FtDir \<or> kind = FtSymlink then (Inl (NotSupported ''create_node does not create this type''), db0)
      else case alloc_inode db0 of
        Inl e \<Rightarrow> (Inl e, db0)
      | Inr (ino, db) \<Rightarrow> run_txn db
          (rbind (ok_or (ParentNotFound parent) (find_access db parent)) (\<lambda>pa.
           if find_entry db parent name \<noteq> None then Inl (AlreadyExists parent name)
           else
             let perm = permission_new (mode_type_bits kind OR (mode AND 4095)) uid (inherited_gid pa gid)
             in rbind (insert_file ((new_file_row ino parent perm now)\<lparr>fi_rdev := u32_as_i32 rdev\<rparr>) db) (\<lambda>db.
                rbind (insert_content \<lparr>ct_parent = parent, ct_name = name, ct_inode = ino,
                         ct_type = file_type_to_entry_type kind\<rparr> db) (\<lambda>db.
                Inr (ino, update_access (pa\<lparr>ac_mtime := now\<rparr>) db))))))"

definition symlink_txn ::
  "int \<Rightarrow> int \<Rightarrow> string \<Rightarrow> string \<Rightarrow> meta_db \<Rightarrow> (meta_error + int) \<times> meta_db" where
  "symlink_txn now parent name target db0 =
     (case alloc_inode db0 of
        Inl e \<Rightarrow> (Inl e, db0)
      | Inr (ino, db) \<Rightarrow> run_txn db
          (rbind (ok_or (ParentNotFound parent) (find_access db parent)) (\<lambda>pa.
           if \<not> is_directory (ac_perm pa) then Inl (NotDirectory parent)
           else if find_entry db parent name \<noteq> None then Inl (AlreadyExists parent name)
           else
             let perm = permission_new 41471 (pm_uid (ac_perm pa)) (pm_gid (ac_perm pa))
             in rbind (insert_file ((new_file_row ino parent perm now)\<lparr>fi_size := int (length target),
                         fi_symlink := Some target\<rparr>) db) (\<lambda>db.
                rbind (insert_content \<lparr>ct_parent = parent, ct_name = name, ct_inode = ino, ct_type = EtSymlink\<rparr> db) (\<lambda>db.
                Inr (ino, update_access (pa\<lparr>ac_mtime := now\<rparr>) db))))))"

definition symlink ::
  "int \<Rightarrow> int \<Rightarrow> string \<Rightarrow> string \<Rightarrow> meta_db \<Rightarrow> (meta_error + (int \<times> file_attr)) \<times> meta_db" where
  "symlink now parent name target db =
     (let (res, db') = symlink_txn now parent name target db
      in (rbind res (\<lambda>i. rbind (ok_or (NotFound i) (stat db' i)) (\<lambda>a. Inr (i, a))), db'))"

definition read_symlink :: "meta_db \<Rightarrow> int \<Rightarrow> meta_error + string" where
  "read_symlink db ino =
     rbind (ok_or (NotFound ino) (find_file db ino)) (\<lambda>f.
       ok_or (NotSupported ''not a symbolic link'') (fi_symlink f))"

section \<open>Ancestry\<close>

definition lock_namespace_for_rename :: "meta_db \<Rightarrow> meta_error + unit" where
  "lock_namespace_for_rename db = (if find_access db ROOT_INO = None then Inl (ParentNotFound ROOT_INO) else Inr ())"

text \<open>
  The walk from a directory towards the root in \<^verbatim>\<open>record_trash_in_transaction\<close>, collecting names; it
  stops at a directory it has seen.
\<close>

lemma entries_of_inode: "entries_of db ino = [e] \<Longrightarrow> ino \<in> ct_inode ` set (content_rows db)"
  by (auto simp: entries_of_def filter_eq_Cons_iff)

lemma visited_decreases:
  assumes "entries_of db ino = [e]" and "ino \<notin> vis"
  shows "card (ct_inode ` set (content_rows db) - insert ino vis) < card (ct_inode ` set (content_rows db) - vis)"
  using entries_of_inode [OF assms(1)] assms(2) by (intro psubset_card_mono) auto

function trash_parts :: "meta_db \<Rightarrow> int set \<Rightarrow> int \<Rightarrow> string list \<Rightarrow> meta_error + string list" where
  "trash_parts db vis parent parts =
     (if parent = ROOT_INO then Inr parts
      else if parent \<in> vis then Inl (InvalidPath ''cyclic trash ancestry'')
      else case entries_of db parent of
             [e] \<Rightarrow> if ct_type e \<noteq> EtDirectory then Inl (InvalidPath ''invalid trash ancestry'')
                    else trash_parts db (insert parent vis) (ct_parent e) (ct_name e # parts)
           | _ \<Rightarrow> Inl (InvalidPath ''invalid trash ancestry''))"
  by pat_completeness auto
termination
  by (relation "measure (\<lambda>(db, vis, parent, parts). card (ct_inode ` set (content_rows db) - vis))")
    (auto simp: visited_decreases)

function validate_directory_move :: "meta_db \<Rightarrow> int set \<Rightarrow> int \<Rightarrow> int \<Rightarrow> meta_error + unit" where
  "validate_directory_move db vis parent ancestor =
     (if parent = ancestor then Inl (InvalidPath ''cannot move directory below itself'')
      else if parent = ROOT_INO then Inr ()
      else if parent \<in> vis then Inl (InvalidPath ''directory ancestry contains a cycle'')
      else case entries_of db parent of
             [e] \<Rightarrow> if file_type_of_entry (ct_type e) \<noteq> FtDir \<or> ct_parent e = parent
                    then Inl (InvalidPath ''invalid directory ancestry'')
                    else validate_directory_move db (insert parent vis) (ct_parent e) ancestor
           | _ \<Rightarrow> Inl (InvalidPath ''invalid directory ancestry''))"
  by pat_completeness auto
termination
  by (relation "measure (\<lambda>(db, vis, parent, ancestor). card (ct_inode ` set (content_rows db) - vis))")
    (auto simp: visited_decreases)

declare trash_parts.simps [simp del] validate_directory_move.simps [simp del]

definition validate_entry_move :: "meta_db \<Rightarrow> content_row \<Rightarrow> int \<Rightarrow> meta_error + unit" where
  "validate_entry_move db e new_parent =
     (if file_type_of_entry (ct_type e) = FtDir then validate_directory_move db {} new_parent (ct_inode e) else Inr ())"

definition CONTROL_TRASH_XATTR_NAME :: string where
  "CONTROL_TRASH_XATTR_NAME = ''system.brewfs.trash''"

definition join_slash :: "string list \<Rightarrow> string" where
  "join_slash parts = concat (map (\<lambda>p. CHR ''/'' # p) parts)"

definition record_trash ::
  "(string \<Rightarrow> int \<Rightarrow> bytes option) \<Rightarrow> int \<Rightarrow> int \<Rightarrow> int \<Rightarrow> string \<Rightarrow> meta_db \<Rightarrow> meta_error + meta_db" where
  "record_trash enc now ino parent name db =
     rbind (trash_parts db {} parent [name]) (\<lambda>parts.
     rbind (ok_or (Internal ''encode trash metadata'') (enc (join_slash parts) now)) (\<lambda>value.
     Inr (put_xattr ino CONTROL_TRASH_XATTR_NAME value db)))"

section \<open>Removing entries and links\<close>

text \<open>
  One link of a file goes away: the entry \<open>(parent, name)\<close>. Shared by \<^verbatim>\<open>unlink\<close> and by the
  replacement branch of \<^verbatim>\<open>rename_with_mode\<close>, which find the remaining entry of a file with two links
  in slightly different ways.
\<close>

definition release_link ::
  "(string \<Rightarrow> int \<Rightarrow> bytes option) \<Rightarrow> int \<Rightarrow> file_row \<Rightarrow> int \<Rightarrow> string \<Rightarrow> content_row option \<Rightarrow> meta_db
   \<Rightarrow> meta_error + meta_db" where
  "release_link enc now f parent name rest_entry db =
     (let ino = fi_inode f
      in if fi_nlink f > 1 then
           (let db = delete_link (ino, parent, name) db;
                f = f\<lparr>fi_nlink := fi_nlink f - 1, fi_deleted := False\<rparr>
            in if fi_nlink f + 1 = 2 then
                 (case rest_entry of
                    None \<Rightarrow> Inl (Internal ''No remaining ContentMeta found'')
                  | Some e \<Rightarrow> Inr (update_file (f\<lparr>fi_parent := ct_parent e, fi_mtime := now, fi_ctime := now\<rparr>) (delete_links ino db)))
               else Inr (update_file (f\<lparr>fi_mtime := now, fi_ctime := now\<rparr>) db))
         else
           rbind (record_trash enc now ino parent name db) (\<lambda>db.
             Inr (update_file (f\<lparr>fi_deleted := True, fi_nlink := 0, fi_parent := 0, fi_mtime := now, fi_ctime := now\<rparr>) db)))"

definition unlink :: "(string \<Rightarrow> int \<Rightarrow> bytes option) \<Rightarrow> int \<Rightarrow> int \<Rightarrow> string \<Rightarrow> meta_db \<Rightarrow> (meta_error + unit) \<times> meta_db" where
  "unlink enc now parent name db = run_txn db
     (rbind (lock_namespace_for_rename db) (\<lambda>_.
      rbind (ok_or (Internal ''File not found in parent'') (find_entry db parent name)) (\<lambda>e.
      if ct_type e = EtDirectory then Inl (NotDirectory (ct_inode e))
      else
        rbind (ok_or (NotFound (ct_inode e)) (find_file db (ct_inode e))) (\<lambda>f.
        let db1 = delete_content parent name db
        in rbind (release_link enc now f parent name (find (\<lambda>r. ct_inode r = ct_inode e) (content_rows db1)) db1) (\<lambda>db2.
           rbind (touch_parent (ParentNotFound parent) now parent db2) (\<lambda>db3. Inr ((), db3)))))))"

definition rmdir :: "int \<Rightarrow> int \<Rightarrow> string \<Rightarrow> meta_db \<Rightarrow> (meta_error + unit) \<times> meta_db" where
  "rmdir now parent name db = run_txn db
     (rbind (ok_or (NotFound parent)
        (find (\<lambda>r. ct_parent r = parent \<and> ct_name r = name \<and> ct_type r = EtDirectory) (content_rows db))) (\<lambda>e.
      if children_of db (ct_inode e) \<noteq> [] then Inl (DirectoryNotEmpty (ct_inode e))
      else
        rbind (touch_parent (ParentNotFound parent) now parent
                 (delete_content parent name (delete_xattrs (ct_inode e) (delete_access (ct_inode e) db)))) (\<lambda>db'.
        Inr ((), db'))))"

definition i32_max :: int where
  "i32_max = 2 ^ 31 - 1"

definition link_txn :: "int \<Rightarrow> int \<Rightarrow> int \<Rightarrow> string \<Rightarrow> meta_db \<Rightarrow> (meta_error + unit) \<times> meta_db" where
  "link_txn now ino parent name db0 = run_txn db0
     (rbind (lock_namespace_for_rename db0) (\<lambda>_.
      if ino = 1 then Inl (NotSupported ''cannot create hard links to the root inode'')
      else
        rbind (ok_or (NotFound ino) (find_file db0 ino)) (\<lambda>f.
        if fi_symlink f \<noteq> None then Inl (NotSupported ''cannot create hard links to symbolic links'')
        else if fi_deleted f \<or> fi_nlink f \<le> 0 then Inl (NotSupported ''cannot create hard link to deleted file'')
        else
          rbind (ok_or (ParentNotFound parent) (find_access db0 parent)) (\<lambda>pa.
          if \<not> is_directory (ac_perm pa) then Inl (NotDirectory parent)
          else if find_entry db0 parent name \<noteq> None then Inl (AlreadyExists parent name)
          else
            rbind (if fi_nlink f = 1
                   then map_sum id Some (ok_or (Internal ''ContentMeta entry not found'') (find (\<lambda>r. ct_inode r = ino) (content_rows db0)))
                   else Inr None) (\<lambda>original.
            rbind (insert_content \<lparr>ct_parent = parent, ct_name = name, ct_inode = ino,
                     ct_type = (if fi_symlink f \<noteq> None then EtSymlink else EtFile)\<rparr> db0) (\<lambda>db.
            let f1 = f\<lparr>fi_nlink := min (fi_nlink f + 1) i32_max, fi_mtime := now, fi_ctime := now, fi_deleted := False\<rparr>
            in rbind
                 (case original of
                    Some orig \<Rightarrow>
                      rbind (insert_link (ino, fi_parent f, ct_name orig) db) (\<lambda>db.
                      rbind (insert_link (ino, parent, name) db) (\<lambda>db. Inr (f1\<lparr>fi_parent := 0\<rparr>, db)))
                  | None \<Rightarrow>
                      if fi_nlink f > 1 then rbind (insert_link (ino, parent, name) db) (\<lambda>db. Inr (f1, db))
                      else Inr (f1, db)) (\<lambda>(f2, db).
               Inr ((), update_access (pa\<lparr>ac_mtime := now\<rparr>) (update_file f2 db)))))))))"

definition link :: "int \<Rightarrow> int \<Rightarrow> int \<Rightarrow> string \<Rightarrow> meta_db \<Rightarrow> (meta_error + file_attr) \<times> meta_db" where
  "link now ino parent name db =
     (let (res, db') = link_txn now ino parent name db
      in (rbind res (\<lambda>_. ok_or (NotFound ino) (stat db' ino)), db'))"

section \<open>Renaming\<close>

record rename_outcome =
  ro_ino :: int
  ro_replaced_ino :: "int option"
  ro_source_is_dir :: bool
  ro_replaced_is_dir :: bool
  ro_renamed :: bool

text \<open>The entry at the destination, another inode than the source, is taken away.\<close>

definition replace_existing ::
  "(string \<Rightarrow> int \<Rightarrow> bytes option) \<Rightarrow> int \<Rightarrow> content_row \<Rightarrow> content_row \<Rightarrow> meta_db \<Rightarrow> meta_error + meta_db" where
  "replace_existing enc now src existing db =
     (let p = ct_parent existing; n = ct_name existing
      in rbind
           (if file_type_of_entry (ct_type src) = FtDir then
              (if file_type_of_entry (ct_type existing) = FtDir then
                 (if children_of db (ct_inode existing) \<noteq> [] then Inl (DirectoryNotEmpty (ct_inode existing))
                  else Inr (delete_xattrs (ct_inode existing) (delete_access (ct_inode existing) db)))
               else Inl (MetaIoKind IoNotADirectory))
            else if file_type_of_entry (ct_type existing) = FtDir then Inl (MetaIoKind IoIsADirectory)
            else
              rbind (ok_or (NotFound (ct_inode existing)) (find_file db (ct_inode existing))) (\<lambda>f.
              release_link enc now f p n
                (find (\<lambda>r. ct_inode r = ct_inode existing \<and> (ct_parent r \<noteq> p \<or> ct_name r \<noteq> n)) (content_rows db)) db))
           (\<lambda>db. Inr (delete_content p n db)))"

text \<open>The entry moves, and the bookkeeping of links follows.\<close>

definition move_entry ::
  "int \<Rightarrow> content_row \<Rightarrow> int \<Rightarrow> file_row option \<Rightarrow> int \<Rightarrow> string \<Rightarrow> meta_db \<Rightarrow> meta_error + meta_db" where
  "move_entry now src nlink file new_parent new_name db =
     rbind (insert_content \<lparr>ct_parent = new_parent, ct_name = new_name, ct_inode = ct_inode src, ct_type = ct_type src\<rparr>
              (delete_content (ct_parent src) (ct_name src) db)) (\<lambda>db.
     if nlink > 1 then
       insert_link (ct_inode src, new_parent, new_name) (delete_link (ct_inode src, ct_parent src, ct_name src) db)
     else case file of
            Some f \<Rightarrow> if nlink = 1 then Inr (update_file (f\<lparr>fi_parent := new_parent, fi_mtime := now\<rparr>) db) else Inr db
          | None \<Rightarrow> Inr db)"

definition touch_parents :: "meta_error \<Rightarrow> int \<Rightarrow> int \<Rightarrow> int \<Rightarrow> meta_db \<Rightarrow> meta_error + meta_db" where
  "touch_parents e now old_parent new_parent db =
     rbind (touch_parent (ParentNotFound old_parent) now old_parent db) (\<lambda>db.
     if old_parent \<noteq> new_parent then touch_parent e now new_parent db else Inr db)"

text \<open>What a rename does once its guards have passed; an entry of the same inode at the destination ends it.\<close>

definition rename_apply ::
  "(string \<Rightarrow> int \<Rightarrow> bytes option) \<Rightarrow> int \<Rightarrow> content_row \<Rightarrow> int \<Rightarrow> file_row option \<Rightarrow> int \<Rightarrow> int \<Rightarrow> string
   \<Rightarrow> content_row option \<Rightarrow> meta_db \<Rightarrow> meta_error + (rename_outcome \<times> meta_db)" where
  "rename_apply enc now src nlink file old_parent new_parent new_name existing db =
     (let source_is_dir = (file_type_of_entry (ct_type src) = FtDir)
      in case existing of
           Some ex \<Rightarrow>
             if ct_inode ex = ct_inode src
             then Inr (\<lparr>ro_ino = ct_inode src, ro_replaced_ino = None, ro_source_is_dir = source_is_dir,
                        ro_replaced_is_dir = False, ro_renamed = False\<rparr>, db)
             else
               rbind (replace_existing enc now src ex db) (\<lambda>db1.
               rbind (move_entry now src nlink file new_parent new_name db1) (\<lambda>db2.
               rbind (touch_parents (NotFound new_parent) now old_parent new_parent db2) (\<lambda>db3.
               Inr (\<lparr>ro_ino = ct_inode src, ro_replaced_ino = Some (ct_inode ex), ro_source_is_dir = source_is_dir,
                     ro_replaced_is_dir = (file_type_of_entry (ct_type ex) = FtDir), ro_renamed = True\<rparr>, db3))))
         | None \<Rightarrow>
             rbind (move_entry now src nlink file new_parent new_name db) (\<lambda>db2.
             rbind (touch_parents (NotFound new_parent) now old_parent new_parent db2) (\<lambda>db3.
             Inr (\<lparr>ro_ino = ct_inode src, ro_replaced_ino = None, ro_source_is_dir = source_is_dir,
                   ro_replaced_is_dir = False, ro_renamed = True\<rparr>, db3))))"

definition rename_with_mode ::
  "(string \<Rightarrow> int \<Rightarrow> bytes option) \<Rightarrow> int \<Rightarrow> int \<Rightarrow> string \<Rightarrow> int \<Rightarrow> string \<Rightarrow> bool \<Rightarrow> meta_db
   \<Rightarrow> (meta_error + rename_outcome) \<times> meta_db" where
  "rename_with_mode enc now old_parent old_name new_parent new_name noreplace db = run_txn db
     (rbind (lock_namespace_for_rename db) (\<lambda>_.
      rbind (ok_or (ParentNotFound new_parent) (find_access db new_parent)) (\<lambda>npa.
      if \<not> is_directory (ac_perm npa) then Inl (NotDirectory new_parent)
      else
        rbind (ok_or (Internal ''Entry not found in parent for rename'') (find_entry db old_parent old_name)) (\<lambda>src.
        rbind (validate_entry_move db src new_parent) (\<lambda>_.
        rbind (case find_file db (ct_inode src) of
                 Some f \<Rightarrow> Inr (fi_nlink f)
               | None \<Rightarrow> ok_or (NotFound (ct_inode src)) (map_option ac_nlink (find_access db (ct_inode src)))) (\<lambda>nlink.
        if noreplace \<and> find_entry db new_parent new_name \<noteq> None then Inl (AlreadyExists new_parent new_name)
        else rename_apply enc now src nlink (find_file db (ct_inode src)) old_parent new_parent new_name
               (find_entry db new_parent new_name) db))))))"

text \<open>One side of an exchange: a file's link bookkeeping moves with its entry.\<close>

definition exchange_file ::
  "int \<Rightarrow> file_row option \<Rightarrow> int \<Rightarrow> string \<Rightarrow> int \<Rightarrow> string \<Rightarrow> meta_db \<Rightarrow> meta_error + meta_db" where
  "exchange_file now file p n p' n' db =
     (case file of
        None \<Rightarrow> Inr db
      | Some f \<Rightarrow>
          if fi_nlink f > 1 then insert_link (fi_inode f, p', n') (delete_link (fi_inode f, p, n) db)
          else Inr (update_file (f\<lparr>fi_parent := p', fi_mtime := now\<rparr>) db))"

text \<open>The file row of an entry that is not a directory.\<close>

definition side_file :: "meta_db \<Rightarrow> content_row \<Rightarrow> meta_error + file_row option" where
  "side_file db e =
     (if file_type_of_entry (ct_type e) = FtDir then Inr None
      else map_sum id Some (ok_or (NotFound (ct_inode e)) (find_file db (ct_inode e))))"

definition rename_exchange ::
  "int \<Rightarrow> int \<Rightarrow> string \<Rightarrow> int \<Rightarrow> string \<Rightarrow> meta_db \<Rightarrow> (meta_error + unit) \<times> meta_db" where
  "rename_exchange now old_parent old_name new_parent new_name db =
     (if old_parent = new_parent \<and> old_name = new_name then (Inr (), db)
      else run_txn db
        (rbind (lock_namespace_for_rename db) (\<lambda>_.
         rbind (ok_or (EntryNotFound old_parent old_name) (find_entry db old_parent old_name)) (\<lambda>a.
         rbind (ok_or (EntryNotFound new_parent new_name) (find_entry db new_parent new_name)) (\<lambda>b.
         if ct_inode a = ct_inode b then Inr ((), db)
         else
           rbind (validate_entry_move db a new_parent) (\<lambda>_.
           rbind (validate_entry_move db b old_parent) (\<lambda>_.
           rbind (side_file db a) (\<lambda>fa.
           rbind (side_file db b) (\<lambda>fb.
           rbind (insert_content \<lparr>ct_parent = old_parent, ct_name = old_name, ct_inode = ct_inode b, ct_type = ct_type b\<rparr>
                    (delete_content new_parent new_name (delete_content old_parent old_name db))) (\<lambda>db.
           rbind (insert_content \<lparr>ct_parent = new_parent, ct_name = new_name, ct_inode = ct_inode a, ct_type = ct_type a\<rparr> db) (\<lambda>db.
           rbind (exchange_file now fa old_parent old_name new_parent new_name db) (\<lambda>db.
           rbind (exchange_file now fb new_parent new_name old_parent old_name db) (\<lambda>db.
           rbind (touch_parents (ParentNotFound new_parent) now old_parent new_parent db) (\<lambda>db.
           Inr ((), db)))))))))))))))"

section \<open>Names, paths and the trash\<close>

definition entries_sorted :: "meta_db \<Rightarrow> int \<Rightarrow> content_row list" where
  "entries_sorted db ino = sort_key ct_parent (sort_key ct_name (entries_of db ino))"

definition get_names :: "meta_db \<Rightarrow> int \<Rightarrow> (int option \<times> string) list" where
  "get_names db ino =
     (if ino = 1 then [(None, ''/'')]
      else if find_access db ino \<noteq> None then
        (case find (\<lambda>r. ct_inode r = ino) (content_rows db) of
           None \<Rightarrow> [] | Some e \<Rightarrow> [(Some (ct_parent e), ct_name e)])
      else map (\<lambda>e. (Some (ct_parent e), ct_name e)) (entries_sorted db ino))"

text \<open>
  The inner loop of \<^verbatim>\<open>build_paths_from_names\<close>, which has no guard against a cycle: \<open>None\<close> is a loop
  that does not end, \<open>Some None\<close> a chain that breaks off before the root.
\<close>

partial_function (option) climb ::
  "int \<Rightarrow> (int \<Rightarrow> (int \<times> string) option) \<Rightarrow> int \<Rightarrow> string list \<Rightarrow> string list option option" where
  "climb root_ino resolve cur parts =
     (if cur = root_ino then Some (Some parts)
      else case resolve cur of
             None \<Rightarrow> Some None
           | Some (p, n) \<Rightarrow> climb root_ino resolve p (n # parts))"

fun climb_names ::
  "int \<Rightarrow> (int \<Rightarrow> (int \<times> string) option) \<Rightarrow> (int option \<times> string) list \<Rightarrow> string list option" where
  "climb_names root_ino resolve [] = Some []"
| "climb_names root_ino resolve ((None, name) # names) = climb_names root_ino resolve names"
| "climb_names root_ino resolve ((Some parent, name) # names) =
     (case climb root_ino resolve parent [name] of
        None \<Rightarrow> None
      | Some None \<Rightarrow> climb_names root_ino resolve names
      | Some (Some parts) \<Rightarrow> map_option (\<lambda>ps. join_slash parts # ps) (climb_names root_ino resolve names))"

definition build_paths_from_names ::
  "int \<Rightarrow> (int option \<times> string) list \<Rightarrow> (int \<Rightarrow> (int \<times> string) option) \<Rightarrow> string list option" where
  "build_paths_from_names root_ino names resolve = map_option (\<lambda>ps. remdups_adj (sort ps)) (climb_names root_ino resolve names)"

definition resolve_parent :: "meta_db \<Rightarrow> int \<Rightarrow> (int \<times> string) option" where
  "resolve_parent db ino =
     (case entries_sorted db ino of [] \<Rightarrow> None | e # _ \<Rightarrow> Some (ct_parent e, ct_name e))"

definition get_paths :: "meta_db \<Rightarrow> int \<Rightarrow> string list option" where
  "get_paths db ino =
     (if ino = 1 then Some [''/''] else build_paths_from_names 1 (get_names db ino) (resolve_parent db))"

definition get_deleted_files :: "meta_db \<Rightarrow> int list" where
  "get_deleted_files db = map fi_inode (filter fi_deleted (file_rows db))"

definition remove_file_metadata :: "int \<Rightarrow> meta_db \<Rightarrow> (meta_error + unit) \<times> meta_db" where
  "remove_file_metadata ino db = run_txn db
     (rbind (ok_or (NotFound ino) (find_file db ino)) (\<lambda>f.
      if \<not> fi_deleted f then Inl (Internal ''File is not marked as deleted'')
      else Inr ((), delete_xattrs ino (db\<lparr>file_rows := filter (\<lambda>r. fi_inode r \<noteq> ino) (file_rows db)\<rparr>))))"

definition restore_deleted_file :: "int \<Rightarrow> int \<Rightarrow> int \<Rightarrow> string \<Rightarrow> meta_db \<Rightarrow> (meta_error + unit) \<times> meta_db" where
  "restore_deleted_file now ino parent name db0 = run_txn db0
     (rbind (lock_namespace_for_rename db0) (\<lambda>_.
      rbind (ok_or (ParentNotFound parent) (find_access db0 parent)) (\<lambda>_.
      if find_entry db0 parent name \<noteq> None then Inl (AlreadyExists parent name)
      else
        rbind (ok_or (NotFound ino) (find_file db0 ino)) (\<lambda>f.
        if \<not> fi_deleted f \<or> fi_nlink f \<noteq> 0 then Inl (NotSupported ''file is not marked as deleted'')
        else
          rbind (insert_content \<lparr>ct_parent = parent, ct_name = name, ct_inode = ino,
                   ct_type = (if fi_symlink f \<noteq> None then EtSymlink else EtFile)\<rparr> db0) (\<lambda>db.
          let db = update_file (f\<lparr>fi_deleted := False, fi_nlink := 1, fi_parent := parent, fi_mtime := now\<rparr>) db;
              db = db\<lparr>xattr_rows := AList.delete (ino, CONTROL_TRASH_XATTR_NAME) (xattr_rows db)\<rparr>
          in rbind (touch_parent (ParentNotFound parent) now parent db) (\<lambda>db. Inr ((), db)))))))"

section \<open>Opening a store\<close>

text \<open>The first row in descending order of an integer column.\<close>

definition greatest :: "('a :: linorder) list \<Rightarrow> 'a option" where
  "greatest xs = (if xs = [] then None else Some (Max (set xs)))"

definition init_next_inode :: "meta_db \<Rightarrow> nat" where
  "init_next_inode db =
     (let max_access = (case greatest (map ac_inode (access_rows db)) of Some i \<Rightarrow> as_u64 i | None \<Rightarrow> 0);
          max_file = (case greatest (map fi_inode (file_rows db)) of Some i \<Rightarrow> as_u64 i | None \<Rightarrow> 0)
      in add_u64 (max (max max_access max_file) 1) 1)"

definition init_next_slice :: "slice_db \<Rightarrow> nat" where
  "init_next_slice sdb =
     (let ids = map (\<lambda>r. slice_id (row_desc r)) (slice_rows sdb);
          max_slice = (case greatest ids of Some i \<Rightarrow> i | None \<Rightarrow> 0)
      in case decode_id (of_nat max_slice) of
           Some (grp, _) \<Rightarrow>
             if counters sdb (ledger_key grp) \<noteq> None
             then add_u64 (max (case greatest (filter (\<lambda>i. i < unat ID_FLAG) ids) of Some i \<Rightarrow> i | None \<Rightarrow> 0) (unat grp)) 1
             else add_u64 max_slice 1
         | None \<Rightarrow> add_u64 max_slice 1)"

definition set_counter_floor :: "string \<Rightarrow> int \<Rightarrow> slice_db \<Rightarrow> slice_db" where
  "set_counter_floor key lo sdb =
     (case counters sdb key of
        Some v \<Rightarrow> if lo \<le> sint v then sdb else sdb\<lparr>counters := (counters sdb)(key \<mapsto> word_of_int lo)\<rparr>
      | None \<Rightarrow> sdb\<lparr>counters := (counters sdb)(key \<mapsto> word_of_int lo)\<rparr>)"

definition i64_try_from :: "string \<Rightarrow> nat \<Rightarrow> meta_error + int" where
  "i64_try_from what n = (if n < 2 ^ 63 then Inr (int n) else Inl (Internal what))"

definition init_counters :: "meta_db \<Rightarrow> meta_error + meta_db" where
  "init_counters db =
     rbind (i64_try_from ''inode counter overflow'' (init_next_inode db)) (\<lambda>next_inode.
     rbind (i64_try_from ''slice counter overflow'' (init_next_slice (store_db db))) (\<lambda>next_slice.
     Inr (db\<lparr>store_db := set_counter_floor SLICE_ID_KEY next_slice (set_counter_floor INODE_ID_KEY next_inode (store_db db))\<rparr>)))"

definition init_root_directory :: "int \<Rightarrow> meta_db \<Rightarrow> meta_error + meta_db" where
  "init_root_directory now db =
     (if find_access db 1 \<noteq> None then Inr db
      else insert_access \<lparr>ac_inode = 1, ac_perm = permission_new 16877 0 0, ac_atime = now, ac_mtime = now,
             ac_ctime = now, ac_nlink = 2\<rparr> db)"

text \<open>The part of \<^verbatim>\<open>from_config_inner\<close> after the connection and the schema.\<close>

definition from_config_inner :: "int \<Rightarrow> meta_db \<Rightarrow> meta_error + meta_db" where
  "from_config_inner now db = rbind (init_counters db) (init_root_directory now)"

definition fresh_db :: meta_db where
  "fresh_db = \<lparr>access_rows = [], content_rows = [], file_rows = [], link_rows = [], xattr_rows = [],
     store_db = \<lparr>slice_rows = [], next_row = 1, delayed_rows = [], next_delayed = 1, uncommitted_rows = [],
       next_uncommitted = 1, counters = Map.empty\<rparr>\<rparr>"

end
