(* ===== verification/NamespaceInv.thy ===== *)
theory NamespaceInv
  imports MetaNamespace
begin

text \<open>
  The namespace as a tree. The tables are viewed as a set of directories, a finite map of entries, a
  map of file rows and a set of link rows. The invariant \<open>ns_inv\<close> says that the directories form a
  tree below the root, that every file counts its entries, and that the link rows of a file with
  several links are exactly its entries. Every operation of \<open>MetaNamespace\<close> keeps it.
\<close>

section \<open>Views of the tables\<close>

named_theorems ns_view \<open>what a table operation does to the views\<close>

definition dirs :: "meta_db \<Rightarrow> int set" where
  "dirs db = ac_inode ` set (access_rows db)"

definition emap :: "meta_db \<Rightarrow> int \<times> string \<Rightarrow> (int \<times> entry_type) option" where
  "emap db = map_of (map (\<lambda>r. (ct_key r, (ct_inode r, ct_type r))) (content_rows db))"

definition fmap :: "meta_db \<Rightarrow> int \<Rightarrow> file_row option" where
  "fmap db = map_of (map (\<lambda>f. (fi_inode f, f)) (file_rows db))"

definition links :: "meta_db \<Rightarrow> link_row set" where
  "links db = set (link_rows db)"

text \<open>The entries of an inode.\<close>

definition ekeys :: "(int \<times> string \<Rightarrow> (int \<times> entry_type) option) \<Rightarrow> int \<Rightarrow> (int \<times> string) set" where
  "ekeys E i = {k. \<exists>t. E k = Some (i, t)}"

definition tables_wf :: "meta_db \<Rightarrow> bool" where
  "tables_wf db \<longleftrightarrow> distinct (map ct_key (content_rows db)) \<and> distinct (map ac_inode (access_rows db))
     \<and> distinct (map fi_inode (file_rows db)) \<and> (\<forall>a\<in>set (access_rows db). is_directory (ac_perm a))"

lemma tables_wfD:
  assumes "tables_wf db"
  shows "distinct (map ct_key (content_rows db))" and "distinct (map ac_inode (access_rows db))"
    and "distinct (map fi_inode (file_rows db))" and "a \<in> set (access_rows db) \<Longrightarrow> is_directory (ac_perm a)"
  using assms by (auto simp: tables_wf_def)

lemma map_of_find: "map_of (map (\<lambda>x. (f x, g x)) xs) k = map_option g (find (\<lambda>x. f x = k) xs)"
  by (induction xs) auto

lemma find_entry_emap: "map_option (\<lambda>e. (ct_inode e, ct_type e)) (find_entry db p n) = emap db (p, n)"
  by (simp add: emap_def map_of_find find_entry_def ct_key_def)

lemma find_entry_None [ns_view]: "find_entry db p n = None \<longleftrightarrow> emap db (p, n) = None"
  by (simp add: find_entry_emap [symmetric])

lemma find_SomeD: "find P xs = Some x \<Longrightarrow> x \<in> set xs \<and> P x"
  by (auto simp: find_Some_iff)

lemma find_entry_Some:
  assumes "find_entry db p n = Some e"
  shows "emap db (p, n) = Some (ct_inode e, ct_type e)" and "ct_parent e = p" and "ct_name e = n" and "ct_key e = (p, n)"
    and "e \<in> set (content_rows db)"
proof -
  show "emap db (p, n) = Some (ct_inode e, ct_type e)" using find_entry_emap [of db p n] assms by simp
  have e: "e \<in> set (content_rows db) \<and> ct_parent e = p \<and> ct_name e = n"
    using find_SomeD [OF assms [unfolded find_entry_def]] by simp
  then show "ct_parent e = p" "ct_name e = n" "ct_key e = (p, n)" "e \<in> set (content_rows db)" by (auto simp: ct_key_def)
qed

lemma find_access_None [ns_view]: "find_access db i = None \<longleftrightarrow> i \<notin> dirs db"
  by (auto simp: find_access_def dirs_def find_None_iff)

lemma find_access_Some:
  assumes "find_access db i = Some a"
  shows "i \<in> dirs db" and "ac_inode a = i" and "a \<in> set (access_rows db)"
  using find_SomeD [OF assms [unfolded find_access_def]] by (auto simp: dirs_def)

lemma find_file_fmap: "find_file db i = fmap db i"
  by (simp add: fmap_def map_of_find find_file_def option.map_ident)

lemma fmap_inode: "fmap db i = Some f \<Longrightarrow> fi_inode f = i"
  unfolding find_file_fmap [symmetric] find_file_def by (auto dest: find_SomeD)

lemma emap_rows:
  assumes "distinct (map ct_key (content_rows db))"
  shows "emap db k = Some (i, t) \<longleftrightarrow> (\<exists>r\<in>set (content_rows db). ct_key r = k \<and> ct_inode r = i \<and> ct_type r = t)"
proof -
  have "distinct (map fst (map (\<lambda>r. (ct_key r, (ct_inode r, ct_type r))) (content_rows db)))"
    using assms by (simp add: comp_def)
  from map_of_eq_Some_iff [OF this] show ?thesis by (auto simp: emap_def)
qed

lemma finite_emap: "finite (dom (emap db))"
  by (simp add: emap_def finite_dom_map_of)

lemma finite_ekeys: "finite (dom E) \<Longrightarrow> finite (ekeys E i)"
  by (rule finite_subset [of _ "dom E"]) (auto simp: ekeys_def)

lemma ekeys_rows:
  assumes "distinct (map ct_key (content_rows db))"
  shows "k \<in> ekeys (emap db) i \<longleftrightarrow> (\<exists>r\<in>set (content_rows db). ct_key r = k \<and> ct_inode r = i)"
  unfolding ekeys_def using emap_rows [OF assms] by blast

lemma entries_keys:
  assumes "distinct (map ct_key (content_rows db))"
  shows "set (map ct_key (entries_of db i)) = ekeys (emap db) i" and "distinct (map ct_key (entries_of db i))"
proof -
  show "set (map ct_key (entries_of db i)) = ekeys (emap db) i"
    by (rule set_eqI) (simp add: ekeys_rows [OF assms] entries_of_def image_iff, blast)
  show "distinct (map ct_key (entries_of db i))" using assms by (simp add: entries_of_def distinct_map_filter)
qed

lemma length_entries:
  assumes "distinct (map ct_key (content_rows db))"
  shows "length (entries_of db i) = card (ekeys (emap db) i)"
  using distinct_card [OF entries_keys(2) [OF assms, of i]] entries_keys(1) [OF assms, of i] by simp

lemma entries_single:
  assumes "distinct (map ct_key (content_rows db))" and "ekeys (emap db) i = {k}"
  obtains e where "entries_of db i = [e]" and "ct_key e = k" and "emap db k = Some (i, ct_type e)"
proof -
  have "length (entries_of db i) = 1" using length_entries [OF assms(1), of i] assms(2) by simp
  then obtain e where e: "entries_of db i = [e]" by (auto simp: length_Suc_conv)
  then have "ct_key e = k" using entries_keys(1) [OF assms(1), of i] assms(2) by simp
  moreover have "e \<in> set (content_rows db)" "ct_inode e = i"
    using e by (auto simp: entries_of_def filter_eq_Cons_iff)
  ultimately have "emap db k = Some (i, ct_type e)" using emap_rows [OF assms(1)] by blast
  then show thesis using that e \<open>ct_key e = k\<close> by blast
qed

lemma children_empty:
  assumes "distinct (map ct_key (content_rows db))" and "children_of db d = []"
  shows "emap db (d, n) = None"
proof (rule ccontr)
  assume "emap db (d, n) \<noteq> None"
  then obtain i t where "emap db (d, n) = Some (i, t)" by auto
  then obtain r where "r \<in> set (content_rows db)" "ct_key r = (d, n)" using emap_rows [OF assms(1)] by blast
  then show False using assms(2) by (auto simp: children_of_def filter_empty_conv ct_key_def)
qed

section \<open>Table operations on the views\<close>

lemma fields_ns_view [ns_view, simp]:
  "dirs (db\<lparr>content_rows := c\<rparr>) = dirs db" "dirs (db\<lparr>file_rows := fs\<rparr>) = dirs db" "dirs (db\<lparr>link_rows := l\<rparr>) = dirs db"
  "dirs (db\<lparr>xattr_rows := x\<rparr>) = dirs db" "dirs (db\<lparr>store_db := s\<rparr>) = dirs db"
  "emap (db\<lparr>access_rows := a\<rparr>) = emap db" "emap (db\<lparr>file_rows := fs\<rparr>) = emap db" "emap (db\<lparr>link_rows := l\<rparr>) = emap db"
  "emap (db\<lparr>xattr_rows := x\<rparr>) = emap db" "emap (db\<lparr>store_db := s\<rparr>) = emap db"
  "fmap (db\<lparr>access_rows := a\<rparr>) = fmap db" "fmap (db\<lparr>content_rows := c\<rparr>) = fmap db" "fmap (db\<lparr>link_rows := l\<rparr>) = fmap db"
  "fmap (db\<lparr>xattr_rows := x\<rparr>) = fmap db" "fmap (db\<lparr>store_db := s\<rparr>) = fmap db"
  "links (db\<lparr>access_rows := a\<rparr>) = links db" "links (db\<lparr>content_rows := c\<rparr>) = links db" "links (db\<lparr>file_rows := fs\<rparr>) = links db"
  "links (db\<lparr>xattr_rows := x\<rparr>) = links db" "links (db\<lparr>store_db := s\<rparr>) = links db"
  by (simp_all add: dirs_def emap_def fmap_def links_def)

lemma map_of_filter_key:
  assumes "distinct (map fst xs)"
  shows "map_of (filter (\<lambda>x. fst x \<noteq> k) xs) = (map_of xs)(k := None)"
  by (rule ext) (use assms in \<open>induction xs; auto simp: map_of_eq_None_iff\<close>)

lemma map_of_snoc: "k \<notin> fst ` set xs \<Longrightarrow> map_of (xs @ [(k, v)]) = (map_of xs)(k \<mapsto> v)"
  by (induction xs) (auto simp: fun_eq_iff)

lemma delete_content_view:
  assumes "tables_wf db" and "db' = delete_content p n db"
  shows "emap db' = (emap db)((p, n) := None)" and "dirs db' = dirs db" and "fmap db' = fmap db" and "links db' = links db"
    and "tables_wf db'" and "store_db db' = store_db db" and "access_rows db' = access_rows db"
proof -
  let ?pair = "\<lambda>r. (ct_key r, (ct_inode r, ct_type r))"
  have rows: "content_rows db' = filter (\<lambda>r. ct_key r \<noteq> (p, n)) (content_rows db)"
    by (simp add: assms(2) delete_content_def ct_key_def)
  have "map ?pair (content_rows db') = filter (\<lambda>x. fst x \<noteq> (p, n)) (map ?pair (content_rows db))"
    by (simp add: rows filter_map comp_def)
  moreover have "distinct (map fst (map ?pair (content_rows db)))"
    using tables_wfD(1) [OF assms(1)] by (simp add: comp_def)
  ultimately show "emap db' = (emap db)((p, n) := None)" by (simp only: emap_def map_of_filter_key)
  show "tables_wf db'"
    using assms(1) by (simp add: tables_wf_def rows distinct_map_filter) (simp add: assms(2) delete_content_def)
qed (simp_all add: assms(2) delete_content_def dirs_def fmap_def links_def)

lemma insert_content_view:
  assumes "tables_wf db" and "insert_content r db = Inr db'"
  shows "emap db' = (emap db)(ct_key r \<mapsto> (ct_inode r, ct_type r))" and "emap db (ct_key r) = None"
    and "dirs db' = dirs db" and "fmap db' = fmap db" and "links db' = links db" and "tables_wf db'"
    and "store_db db' = store_db db" and "access_rows db' = access_rows db"
proof -
  have none: "find_entry db (ct_parent r) (ct_name r) = None" and db': "db' = db\<lparr>content_rows := content_rows db @ [r]\<rparr>"
    using assms(2) by (auto simp: insert_content_def split: if_splits)
  then show free: "emap db (ct_key r) = None" by (simp add: ns_view ct_key_def)
  have notin: "ct_key r \<notin> ct_key ` set (content_rows db)"
    using none by (auto simp: find_entry_def find_None_iff ct_key_def)
  then have "ct_key r \<notin> fst ` set (map (\<lambda>r. (ct_key r, (ct_inode r, ct_type r))) (content_rows db))" by auto
  from map_of_snoc [OF this] show "emap db' = (emap db)(ct_key r \<mapsto> (ct_inode r, ct_type r))"
    by (simp add: emap_def db')
  show "tables_wf db'" using assms(1) notin by (simp add: tables_wf_def db')
qed (use assms(2) in \<open>auto simp: insert_content_def split: if_splits\<close>)

lemma insert_content_free: "emap db (ct_key r) = None \<Longrightarrow> insert_content r db = Inr (db\<lparr>content_rows := content_rows db @ [r]\<rparr>)"
  by (simp add: insert_content_def ns_view ct_key_def)

lemma insert_access_view:
  assumes "tables_wf db" and "insert_access a db = Inr db'" and "is_directory (ac_perm a)"
  shows "dirs db' = insert (ac_inode a) (dirs db)" and "emap db' = emap db" and "fmap db' = fmap db" and "links db' = links db"
    and "tables_wf db'" and "store_db db' = store_db db"
proof -
  have new: "ac_inode a \<notin> dirs db" and db': "db' = db\<lparr>access_rows := access_rows db @ [a]\<rparr>"
    using assms(2) by (auto simp: insert_access_def ns_view split: if_splits)
  show "tables_wf db'" using assms(1,3) new by (auto simp: tables_wf_def db' dirs_def)
  show "dirs db' = insert (ac_inode a) (dirs db)" by (simp add: db' dirs_def)
qed (use assms(2) in \<open>auto simp: insert_access_def split: if_splits\<close>)

lemma insert_file_view:
  assumes "tables_wf db" and "insert_file f db = Inr db'"
  shows "fmap db' = (fmap db)(fi_inode f \<mapsto> f)" and "dirs db' = dirs db" and "emap db' = emap db" and "links db' = links db"
    and "tables_wf db'" and "store_db db' = store_db db" and "access_rows db' = access_rows db"
proof -
  have none: "find_file db (fi_inode f) = None" and db': "db' = db\<lparr>file_rows := file_rows db @ [f]\<rparr>"
    using assms(2) by (auto simp: insert_file_def split: if_splits)
  have notin: "fi_inode f \<notin> fi_inode ` set (file_rows db)" using none by (auto simp: find_file_def find_None_iff)
  then have "fi_inode f \<notin> fst ` set (map (\<lambda>f. (fi_inode f, f)) (file_rows db))" by auto
  from map_of_snoc [OF this] show "fmap db' = (fmap db)(fi_inode f \<mapsto> f)" by (simp add: fmap_def db')
  show "tables_wf db'" using assms(1) notin by (simp add: tables_wf_def db')
qed (use assms(2) in \<open>auto simp: insert_file_def split: if_splits\<close>)

lemma map_of_map_update:
  assumes "k f = i" and "i \<in> k ` set xs"
  shows "map_of (map (\<lambda>x. (k x, x)) (map (\<lambda>x. if k x = i then f else x) xs)) = (map_of (map (\<lambda>x. (k x, x)) xs))(i \<mapsto> f)"
proof
  fix j
  have "map_of (map (\<lambda>x. (k x, x)) (map (\<lambda>x. if k x = i then f else x) xs)) j =
      (if j = i \<and> i \<in> k ` set xs then Some f else map_of (map (\<lambda>x. (k x, x)) xs) j)" for xs
    using assms(1) by (induction xs) auto
  then show "map_of (map (\<lambda>x. (k x, x)) (map (\<lambda>x. if k x = i then f else x) xs)) j
      = ((map_of (map (\<lambda>x. (k x, x)) xs))(i \<mapsto> f)) j"
    using assms(2) by simp
qed

lemma update_file_view:
  assumes "tables_wf db" and "fmap db (fi_inode f) \<noteq> None" and "db' = update_file f db"
  shows "fmap db' = (fmap db)(fi_inode f \<mapsto> f)" and "dirs db' = dirs db" and "emap db' = emap db" and "links db' = links db"
    and "tables_wf db'" and "store_db db' = store_db db" and "access_rows db' = access_rows db"
proof -
  obtain g where "fmap db (fi_inode f) = Some g" using assms(2) by blast
  then have g: "g \<in> set (file_rows db)" "fi_inode g = fi_inode f"
    unfolding find_file_fmap [symmetric] find_file_def by (auto dest: find_SomeD)
  have "fi_inode f \<in> fi_inode ` set (file_rows db)" unfolding g(2) [symmetric] using g(1) by (rule imageI)
  from map_of_map_update [where k = fi_inode, OF refl this]
  show "fmap db' = (fmap db)(fi_inode f \<mapsto> f)" by (simp add: fmap_def assms(3) update_file_def)
  have "map fi_inode (file_rows db') = map fi_inode (file_rows db)" by (simp add: assms(3) update_file_def)
  moreover have "content_rows db' = content_rows db" "access_rows db' = access_rows db" by (simp_all add: assms(3) update_file_def)
  ultimately show "tables_wf db'" using assms(1) by (simp add: tables_wf_def)
qed (simp_all add: assms(3) update_file_def)

lemma update_access_view:
  assumes "tables_wf db" and "is_directory (ac_perm a)" and "db' = update_access a db"
  shows "dirs db' = dirs db" and "emap db' = emap db" and "fmap db' = fmap db" and "links db' = links db"
    and "tables_wf db'" and "store_db db' = store_db db"
proof -
  have ids: "map ac_inode (access_rows db') = map ac_inode (access_rows db)" by (simp add: assms(3) update_access_def)
  from arg_cong [OF this, of set] show "dirs db' = dirs db" by (simp add: dirs_def)
  have "content_rows db' = content_rows db" "file_rows db' = file_rows db" by (simp_all add: assms(3) update_access_def)
  moreover have "\<forall>x\<in>set (access_rows db'). is_directory (ac_perm x)"
    using assms(1,2) by (auto simp: assms(3) update_access_def tables_wf_def)
  ultimately show "tables_wf db'" using assms(1) ids by (simp add: tables_wf_def)
qed (simp_all add: assms(3) update_access_def)

lemma touch_parent_view:
  assumes "tables_wf db" and "touch_parent e now p db = Inr db'"
  shows "dirs db' = dirs db" and "emap db' = emap db" and "fmap db' = fmap db" and "links db' = links db"
    and "tables_wf db'" and "store_db db' = store_db db"
proof -
  obtain a where a: "find_access db p = Some a" "db' = update_access (a\<lparr>ac_mtime := now\<rparr>) db"
    using assms(2) by (auto simp: touch_parent_def split: option.splits)
  have "is_directory (ac_perm a)" using tables_wfD(4) [OF assms(1) find_access_Some(3) [OF a(1)]] .
  then have d: "is_directory (ac_perm (a\<lparr>ac_mtime := now\<rparr>))" by simp
  show "dirs db' = dirs db" "emap db' = emap db" "fmap db' = fmap db" "links db' = links db"
    "tables_wf db'" "store_db db' = store_db db"
    using update_access_view [OF assms(1) d a(2)] by blast+
qed

lemma touch_parent_ok: "p \<in> dirs db \<Longrightarrow> \<exists>db'. touch_parent e now p db = Inr db'"
  using find_access_None [of db p] by (auto simp: touch_parent_def split: option.splits)

lemma link_ops_view [ns_view]:
  "dirs (delete_link r db) = dirs db" "emap (delete_link r db) = emap db" "fmap (delete_link r db) = fmap db"
  "links (delete_link r db) = links db - {r}" "tables_wf (delete_link r db) = tables_wf db" "store_db (delete_link r db) = store_db db"
  "dirs (delete_links i db) = dirs db" "emap (delete_links i db) = emap db" "fmap (delete_links i db) = fmap db"
  "links (delete_links i db) = {x \<in> links db. fst x \<noteq> i}" "tables_wf (delete_links i db) = tables_wf db" "store_db (delete_links i db) = store_db db"
  "dirs (delete_xattrs i db) = dirs db" "emap (delete_xattrs i db) = emap db" "fmap (delete_xattrs i db) = fmap db"
  "links (delete_xattrs i db) = links db" "tables_wf (delete_xattrs i db) = tables_wf db" "store_db (delete_xattrs i db) = store_db db"
  "dirs (put_xattr i n v db) = dirs db" "emap (put_xattr i n v db) = emap db" "fmap (put_xattr i n v db) = fmap db"
  "links (put_xattr i n v db) = links db" "tables_wf (put_xattr i n v db) = tables_wf db" "store_db (put_xattr i n v db) = store_db db"
  by (auto simp: delete_link_def delete_links_def delete_xattrs_def put_xattr_def links_def tables_wf_def)

lemma insert_link_view:
  assumes "insert_link r db = Inr db'"
  shows "links db' = insert r (links db)" and "dirs db' = dirs db" and "emap db' = emap db" and "fmap db' = fmap db"
    and "tables_wf db' = tables_wf db" and "store_db db' = store_db db" and "access_rows db' = access_rows db"
  using assms by (auto simp: insert_link_def links_def tables_wf_def split: if_splits)

lemma delete_access_view:
  assumes "tables_wf db"
  shows "dirs (delete_access i db) = dirs db - {i}" and "tables_wf (delete_access i db)"
    and "emap (delete_access i db) = emap db" "fmap (delete_access i db) = fmap db" "links (delete_access i db) = links db"
    "store_db (delete_access i db) = store_db db"
  using assms by (auto simp: delete_access_def dirs_def tables_wf_def distinct_map_filter)

section \<open>The tree invariant\<close>

type_synonym entries = "int \<times> string \<Rightarrow> (int \<times> entry_type) option"

inductive rooted :: "entries \<Rightarrow> int \<Rightarrow> bool" for E where
  rooted_root: "rooted E ROOT_INO"
| rooted_step: "E (p, n) = Some (i, EtDirectory) \<Longrightarrow> rooted E p \<Longrightarrow> rooted E i"

text \<open>\<open>under E a i\<close>: directory \<open>i\<close> is \<open>a\<close> or lies below it.\<close>

inductive under :: "entries \<Rightarrow> int \<Rightarrow> int \<Rightarrow> bool" for E a where
  under_refl: "under E a a"
| under_step: "E (p, n) = Some (i, EtDirectory) \<Longrightarrow> under E a p \<Longrightarrow> under E a i"

text \<open>A file row counts its entries; its parent field and link rows describe them.\<close>

definition file_ok :: "entries \<Rightarrow> link_row set \<Rightarrow> file_row \<Rightarrow> bool" where
  "file_ok E L f \<longleftrightarrow> (let K = ekeys E (fi_inode f) in
     fi_nlink f = int (card K) \<and> (fi_deleted f \<longleftrightarrow> K = {})
     \<and> (\<forall>k. K = {k} \<longrightarrow> fi_parent f = fst k) \<and> (card K \<noteq> 1 \<longrightarrow> fi_parent f = 0)
     \<and> {k. (fi_inode f, k) \<in> L} = (if card K > 1 then K else {}))"

definition entry_ok :: "int set \<Rightarrow> (int \<Rightarrow> file_row option) \<Rightarrow> int \<times> string \<Rightarrow> int \<times> entry_type \<Rightarrow> bool" where
  "entry_ok D F k v \<longleftrightarrow> fst v \<noteq> ROOT_INO \<and> fst k \<in> D \<and> (if snd v = EtDirectory then fst v \<in> D else fst v \<in> dom F)"

definition ns_ok :: "int set \<Rightarrow> entries \<Rightarrow> (int \<Rightarrow> file_row option) \<Rightarrow> link_row set \<Rightarrow> bool" where
  "ns_ok D E F L \<longleftrightarrow> ROOT_INO \<in> D \<and> D \<inter> dom F = {} \<and> finite (dom E)
     \<and> (\<forall>k v. E k = Some v \<longrightarrow> entry_ok D F k v)
     \<and> (\<forall>d\<in>D. d \<noteq> ROOT_INO \<longrightarrow> (\<exists>k. ekeys E d = {k}))
     \<and> (\<forall>i f. F i = Some f \<longrightarrow> fi_inode f = i \<and> file_ok E L f)
     \<and> (\<forall>d\<in>D. rooted E d)"

lemma ns_okD:
  assumes "ns_ok D E F L"
  shows "ROOT_INO \<in> D" and "D \<inter> dom F = {}" and "finite (dom E)" and "E k = Some v \<Longrightarrow> entry_ok D F k v"
    and "d \<in> D \<Longrightarrow> d \<noteq> ROOT_INO \<Longrightarrow> \<exists>k. ekeys E d = {k}" and "F i = Some f \<Longrightarrow> fi_inode f = i"
    and "F i = Some f \<Longrightarrow> file_ok E L f" and "d \<in> D \<Longrightarrow> rooted E d"
  using assms unfolding ns_ok_def by blast+

lemma ns_okI:
  assumes "ROOT_INO \<in> D" and "D \<inter> dom F = {}" and "finite (dom E)" and "\<And>k v. E k = Some v \<Longrightarrow> entry_ok D F k v"
    and "\<And>d. d \<in> D \<Longrightarrow> d \<noteq> ROOT_INO \<Longrightarrow> \<exists>k. ekeys E d = {k}"
    and "\<And>i f. F i = Some f \<Longrightarrow> fi_inode f = i \<and> file_ok E L f" and "\<And>d. d \<in> D \<Longrightarrow> rooted E d"
  shows "ns_ok D E F L"
  unfolding ns_ok_def using assms by blast

lemma file_okD:
  assumes "file_ok E L f" and "K = ekeys E (fi_inode f)"
  shows "fi_nlink f = int (card K)" and "fi_deleted f \<longleftrightarrow> K = {}" and "K = {k} \<Longrightarrow> fi_parent f = fst k"
    and "card K \<noteq> 1 \<Longrightarrow> fi_parent f = 0" and "(fi_inode f, k) \<in> L \<longleftrightarrow> card K > 1 \<and> k \<in> K"
proof -
  have links: "{k. (fi_inode f, k) \<in> L} = (if card K > 1 then K else {})"
    using assms by (simp only: file_ok_def Let_def)
  have "(fi_inode f, k) \<in> L \<longleftrightarrow> k \<in> {k. (fi_inode f, k) \<in> L}" by blast
  then show "(fi_inode f, k) \<in> L \<longleftrightarrow> card K > 1 \<and> k \<in> K" unfolding links by simp
  have "\<forall>k. K = {k} \<longrightarrow> fi_parent f = fst k" using assms(1) unfolding file_ok_def Let_def assms(2) by blast
  then show "K = {k} \<Longrightarrow> fi_parent f = fst k" by blast
qed (use assms in \<open>simp_all add: file_ok_def Let_def\<close>)

lemma file_okI:
  assumes "K = ekeys E (fi_inode f)" and "fi_nlink f = int (card K)" and "fi_deleted f \<longleftrightarrow> K = {}"
    and "\<And>k. K = {k} \<Longrightarrow> fi_parent f = fst k" and "card K \<noteq> 1 \<Longrightarrow> fi_parent f = 0"
    and "\<And>k. (fi_inode f, k) \<in> L \<longleftrightarrow> card K > 1 \<and> k \<in> K"
  shows "file_ok E L f"
  unfolding file_ok_def Let_def assms(1) [symmetric] using assms(2-6) by simp

lemma file_ok_cong:
  assumes "ekeys E' (fi_inode f) = ekeys E (fi_inode f)" and "\<And>k. (fi_inode f, k) \<in> L' \<longleftrightarrow> (fi_inode f, k) \<in> L"
  shows "file_ok E' L' f = file_ok E L f"
  unfolding file_ok_def Let_def assms(1) assms(2) ..

subsection \<open>Entries of an inode after an update\<close>

lemma ekeys_delete: "ekeys (E(k := None)) i = ekeys E i - {k}"
  by (auto simp: ekeys_def)

lemma ekeys_insert: "E k = None \<Longrightarrow> ekeys (E(k \<mapsto> (j, t))) i = (if i = j then insert k (ekeys E i) else ekeys E i)"
  by (auto simp: ekeys_def)

lemma ekeysI: "E k = Some (i, t) \<Longrightarrow> k \<in> ekeys E i"
  by (auto simp: ekeys_def)

lemma ekeys_other: "E k = Some (j, t) \<Longrightarrow> i \<noteq> j \<Longrightarrow> ekeys E i - {k} = ekeys E i"
  by (auto simp: ekeys_def)

subsection \<open>Ancestry\<close>

lemma under_mono: "under E a i \<Longrightarrow> (\<And>k v. E k = Some v \<Longrightarrow> E' k = Some v) \<Longrightarrow> under E' a i"
proof (induction rule: under.induct)
  case (under_step p n i)
  show ?case using under_step.prems [OF under_step.hyps(1)] under_step.IH [OF under_step.prems] by (rule under.under_step)
qed (rule under.under_refl)

lemma single_parent:
  assumes "ekeys E i = {k}" and "E (p, n) = Some (i, t)"
  shows "k = (p, n)"
  using ekeysI [of E "(p, n)" i t] assms by simp

text \<open>
  A directory changes its place: the rows of all other directories stay, and the new parents are
  reached from the root without passing a moved directory.
\<close>

lemma rooted_avoiding:
  assumes "rooted E q" and "\<And>m. m \<in> M \<Longrightarrow> \<not> under E m q"
    and "\<And>p n i. E (p, n) = Some (i, EtDirectory) \<Longrightarrow> i \<notin> M \<Longrightarrow> \<exists>n'. E' (p, n') = Some (i, EtDirectory)"
  shows "rooted E' q"
  using assms(1,2)
proof (induction rule: rooted.induct)
  case rooted_root
  show ?case by (rule rooted.rooted_root)
next
  case (rooted_step p n i)
  have "\<not> under E m p" if "m \<in> M" for m using rooted_step.prems [OF that] under_step [of E p n i m] rooted_step.hyps(1) by blast
  then have "rooted E' p" by (rule rooted_step.IH)
  moreover have "i \<notin> M" using rooted_step.prems under_refl [of E i] by blast
  then obtain n' where "E' (p, n') = Some (i, EtDirectory)" using assms(3) [OF rooted_step.hyps(1)] by blast
  ultimately show ?case using rooted.rooted_step by blast
qed

lemma rooted_moved:
  assumes "rooted E d"
    and rows: "\<And>p n i. E (p, n) = Some (i, EtDirectory) \<Longrightarrow> i \<notin> M \<Longrightarrow> \<exists>n'. E' (p, n') = Some (i, EtDirectory)"
    and moved: "\<And>m. m \<in> M \<Longrightarrow> \<exists>q n. E' (q, n) = Some (m, EtDirectory) \<and> rooted E q \<and> (\<forall>m'\<in>M. \<not> under E m' q)"
  shows "rooted E' d"
  using assms(1)
proof (induction rule: rooted.induct)
  case rooted_root
  show ?case by (rule rooted.rooted_root)
next
  case (rooted_step p n i)
  show ?case
  proof (cases "i \<in> M")
    case True
    then obtain q n' where q: "E' (q, n') = Some (i, EtDirectory)" "rooted E q" "\<forall>m'\<in>M. \<not> under E m' q" using moved by blast
    have "rooted E' q" using q(2) by (rule rooted_avoiding [where M = M]) (use q(3) rows in blast)+
    then show ?thesis using q(1) rooted.rooted_step by blast
  next
    case False
    then obtain n' where "E' (p, n') = Some (i, EtDirectory)" using rows [OF rooted_step.hyps(1)] by blast
    then show ?thesis using rooted_step.IH rooted.rooted_step by blast
  qed
qed

text \<open>Directories have one parent and the root none, so no directory lies below itself.\<close>

lemma not_under_own_parent:
  assumes "rooted E p" and "E (p, n) = Some (i, EtDirectory)"
    and "\<And>k v. E k = Some v \<Longrightarrow> fst v \<noteq> ROOT_INO" and "\<And>d. rooted E d \<Longrightarrow> d \<noteq> ROOT_INO \<Longrightarrow> \<exists>k. ekeys E d = {k}"
  shows "\<not> under E i p"
  using assms(1,2)
proof (induction arbitrary: n i rule: rooted.induct)
  case rooted_root
  show ?case
  proof
    assume "under E i ROOT_INO"
    then show False
    proof (cases rule: under.cases)
      case under_refl
      then show False using assms(3) [OF rooted_root.prems] by simp
    next
      case (under_step p m)
      then show False using assms(3) [OF under_step(1)] by simp
    qed
  qed
next
  case (rooted_step q m p)
  show ?case
  proof
    assume "under E i p"
    then show False
    proof (cases rule: under.cases)
      case under_refl
      have "rooted E p" using rooted_step.hyps rooted.rooted_step by blast
      moreover have "p \<noteq> ROOT_INO" using assms(3) [OF rooted_step.hyps(1)] by simp
      ultimately obtain k where k: "ekeys E p = {k}" using assms(4) by blast
      have "k = (q, m)" using k rooted_step.hyps(1) by (rule single_parent)
      moreover have "k = (p, n)" using k rooted_step.prems under_refl by (auto intro: single_parent)
      ultimately have "q = p" by simp
      then show False using rooted_step.IH [OF rooted_step.hyps(1)] under.under_refl [of E p] by simp
    next
      case (under_step q' m')
      have "rooted E p" using rooted_step.hyps rooted.rooted_step by blast
      moreover have "p \<noteq> ROOT_INO" using assms(3) [OF rooted_step.hyps(1)] by simp
      ultimately obtain k where k: "ekeys E p = {k}" using assms(4) by blast
      have "k = (q, m)" using k rooted_step.hyps(1) by (rule single_parent)
      moreover have "k = (q', m')" using k under_step(1) by (rule single_parent)
      ultimately have "under E i q" using under_step(2) by simp
      then have "under E p q" using rooted_step.prems by (induction rule: under.induct) (auto intro: under.intros)
      then show False using rooted_step.IH [OF rooted_step.hyps(1)] by blast
    qed
  qed
qed

section \<open>Abstract steps\<close>

lemma ekeys_absent:
  assumes "ns_ok D E F L" and "i \<notin> D" and "i \<notin> dom F"
  shows "ekeys E i = {}"
proof (rule ccontr)
  assume "ekeys E i \<noteq> {}"
  then obtain k t where "E k = Some (i, t)" by (auto simp: ekeys_def)
  from ns_okD(4) [OF assms(1) this] show False using assms(2,3) by (simp add: entry_ok_def split: if_splits)
qed

lemma ekeys_dir:
  assumes "ns_ok D E F L" and "E k = Some (i, EtDirectory)"
  shows "ekeys E i = {k}" and "i \<in> D" and "i \<noteq> ROOT_INO" and "fst k \<in> D"
proof -
  show i: "i \<in> D" "i \<noteq> ROOT_INO" "fst k \<in> D" using ns_okD(4) [OF assms] by (simp_all add: entry_ok_def)
  obtain k' where "ekeys E i = {k'}" using ns_okD(5) [OF assms(1) i(1,2)] by blast
  then show "ekeys E i = {k}" using ekeysI [of E k i, OF assms(2)] by simp
qed

lemma ekeys_file:
  assumes "ns_ok D E F L" and "E k = Some (i, t)" and "t \<noteq> EtDirectory"
  shows "i \<in> dom F" and "i \<notin> D" and "fst k \<in> D" and "i \<noteq> ROOT_INO"
  using ns_okD(4) [OF assms(1,2)] assms(3) ns_okD(1,2) [OF assms(1)] by (auto simp: entry_ok_def)

lemma ns_acyclic:
  assumes ok: "ns_ok D E F L" and row: "E (p, n) = Some (i, EtDirectory)"
  shows "\<not> under E i p"
proof (rule not_under_own_parent)
  note O = ns_okD [OF ok]
  show "E (p, n) = Some (i, EtDirectory)" by (rule row)
  show "rooted E p" using O(8) O(4) [OF row] by (simp add: entry_ok_def)
  show "fst v \<noteq> ROOT_INO" if "E k = Some v" for k v using O(4) [OF that] by (simp add: entry_ok_def)
  show "\<exists>k. ekeys E d = {k}" if "rooted E d" "d \<noteq> ROOT_INO" for d
    using that(1)
  proof (cases rule: rooted.cases)
    case (rooted_step p n)
    from ekeys_dir(1) [OF ok this(1)] show ?thesis by blast
  qed (use that(2) in simp)
qed

lemma ns_add_dir:
  assumes ok: "ns_ok D E F L" and p: "p \<in> D" and free: "E (p, n) = None" and new: "i \<notin> D" "i \<notin> dom F"
  shows "ns_ok (insert i D) (E((p, n) \<mapsto> (i, EtDirectory))) F L"
proof (rule ns_okI)
  let ?E = "E((p, n) \<mapsto> (i, EtDirectory))"
  note none = ekeys_absent [OF ok new] and O = ns_okD [OF ok]
  have root: "i \<noteq> ROOT_INO" using O(1) new(1) by blast
  show "ROOT_INO \<in> insert i D" "insert i D \<inter> dom F = {}" "finite (dom ?E)" using O(1-3) new by auto
  show "entry_ok (insert i D) F k v" if "?E k = Some v" for k v
    using that O(4) [of k v] p root by (auto simp: entry_ok_def split: if_splits)
  show "\<exists>k. ekeys ?E d = {k}" if "d \<in> insert i D" "d \<noteq> ROOT_INO" for d
    using that O(5) [of d] none unfolding ekeys_insert [of E "(p, n)", OF free] by auto
  show "fi_inode f = j \<and> file_ok ?E L f" if "F j = Some f" for j f
  proof -
    have j: "fi_inode f = j" "j \<noteq> i" using O(6) [OF that] new(2) that by auto
    then have "file_ok ?E L f = file_ok E L f" by (intro file_ok_cong) (simp_all add: ekeys_insert [of E "(p, n)", OF free])
    then show ?thesis using j O(7) [OF that] by simp
  qed
  have keep: "rooted ?E d" if "d \<in> D" for d
  proof (rule rooted_moved [where M = "{}", OF O(8) [OF that]])
    fix p' n' j assume "E (p', n') = Some (j, EtDirectory)"
    then have "?E (p', n') = Some (j, EtDirectory)" using free by auto
    then show "\<exists>n'. ?E (p', n') = Some (j, EtDirectory)" by blast
  qed simp
  show "rooted ?E d" if "d \<in> insert i D" for d
    using that keep keep [OF p] rooted_step [of ?E p n i] by auto
qed

lemma ns_remove_dir:
  assumes ok: "ns_ok D E F L" and row: "E k = Some (i, EtDirectory)" and empty: "\<And>n. E (i, n) = None"
  shows "ns_ok (D - {i}) (E(k := None)) F L"
proof (rule ns_okI)
  let ?E = "E(k := None)"
  note O = ns_okD [OF ok] and dir = ekeys_dir [OF ok row]
  show "ROOT_INO \<in> D - {i}" "(D - {i}) \<inter> dom F = {}" "finite (dom ?E)" using O(1-3) dir(3) by auto
  show "entry_ok (D - {i}) F k' v" if "?E k' = Some v" for k' v
  proof -
    have E: "E k' = Some v" "k' \<noteq> k" using that by (auto split: if_splits)
    have "fst k' \<noteq> i" using empty [of "snd k'"] E(1) by (cases k') auto
    moreover have "snd v = EtDirectory \<Longrightarrow> fst v \<noteq> i"
      using dir(1) ekeysI [of E k' i "snd v"] E by (cases v) auto
    ultimately show ?thesis using O(4) [OF E(1)] by (auto simp: entry_ok_def)
  qed
  show "\<exists>k. ekeys ?E d = {k}" if "d \<in> D - {i}" "d \<noteq> ROOT_INO" for d
    unfolding ekeys_delete using O(5) [of d] that ekeys_other [of E k i, OF row, of d] by auto
  show "fi_inode f = j \<and> file_ok ?E L f" if "F j = Some f" for j f
  proof -
    have j: "fi_inode f = j" "j \<noteq> i" using O(6) [OF that] O(2) dir(2) that by auto
    then have "file_ok ?E L f = file_ok E L f" by (intro file_ok_cong) (simp_all add: ekeys_delete ekeys_other [of E k i, OF row])
    then show ?thesis using j O(7) [OF that] by simp
  qed
  show "rooted ?E d" if "d \<in> D - {i}" for d
  proof -
    have "rooted E d" "d \<noteq> i" using O(8) that by auto
    then show ?thesis
    proof (induction rule: rooted.induct)
      case rooted_root
      show ?case by (rule rooted.rooted_root)
    next
      case (rooted_step p n d)
      have "p \<noteq> i" using empty rooted_step.hyps(1) by auto
      then have "rooted ?E p" by (rule rooted_step.IH)
      moreover have "(p, n) \<noteq> k" using rooted_step.hyps(1) rooted_step.prems row by auto
      then have "?E (p, n) = Some (d, EtDirectory)" using rooted_step.hyps(1) by simp
      ultimately show ?case using rooted.rooted_step by blast
    qed
  qed
qed

text \<open>Entries and bookkeeping of one file change, everything else stays.\<close>

lemma ns_change_file:
  assumes ok: "ns_ok D E F L" and i: "i \<notin> D"
    and out: "\<And>k v. E' k = Some v \<Longrightarrow> fst v \<noteq> i \<Longrightarrow> E k = Some v" and kept: "\<And>k v. E k = Some v \<Longrightarrow> fst v \<noteq> i \<Longrightarrow> E' k = Some v"
    and own: "\<And>k t. E' k = Some (i, t) \<Longrightarrow> t \<noteq> EtDirectory \<and> fst k \<in> D" and fin: "finite (dom E')"
    and f': "fi_inode f' = i" "file_ok E' L' f'" and links: "\<And>j k. j \<noteq> i \<Longrightarrow> (j, k) \<in> L' \<longleftrightarrow> (j, k) \<in> L"
  shows "ns_ok D E' (F(i \<mapsto> f')) L'"
proof (rule ns_okI)
  note O = ns_okD [OF ok]
  have same: "ekeys E' j = ekeys E j" if "j \<noteq> i" for j
  proof (rule set_eqI)
    fix k
    have "E' k = Some (j, t) \<longleftrightarrow> E k = Some (j, t)" for t using out [of k "(j, t)"] kept [of k "(j, t)"] that by auto
    then show "k \<in> ekeys E' j \<longleftrightarrow> k \<in> ekeys E j" by (simp add: ekeys_def)
  qed
  show "ROOT_INO \<in> D" "D \<inter> dom (F(i \<mapsto> f')) = {}" "finite (dom E')" using O(1,2) i fin by auto
  show "entry_ok D (F(i \<mapsto> f')) k v" if E': "E' k = Some v" for k v
  proof (cases "fst v = i")
    case True
    then show ?thesis using own [of k "snd v"] E' O(1) i by (cases v) (auto simp: entry_ok_def)
  next
    case False
    show ?thesis using O(4) [OF out [OF E' False]] by (auto simp: entry_ok_def)
  qed
  show "\<exists>k. ekeys E' d = {k}" if "d \<in> D" "d \<noteq> ROOT_INO" for d
  proof -
    have "d \<noteq> i" using i that(1) by blast
    then show ?thesis unfolding same [OF \<open>d \<noteq> i\<close>] using O(5) [OF that] by blast
  qed
  show "fi_inode f = j \<and> file_ok E' L' f" if F: "(F(i \<mapsto> f')) j = Some f" for j f
  proof (cases "j = i")
    case True
    then show ?thesis using F f' by simp
  next
    case False
    then have "F j = Some f" using F by simp
    moreover from this have "fi_inode f = j" by (rule O(6))
    moreover from this have "file_ok E' L' f = file_ok E L f" using False by (intro file_ok_cong) (simp_all add: same links)
    ultimately show ?thesis using O(7) by simp
  qed
  show "rooted E' d" if "d \<in> D" for d
  proof (rule rooted_moved [where M = "{}", OF O(8) [OF that]])
    fix p n j assume row: "E (p, n) = Some (j, EtDirectory)"
    then have "j \<noteq> i" using ekeys_dir(2) [OF ok row] i by blast
    then show "\<exists>n'. E' (p, n') = Some (j, EtDirectory)" using kept [OF row] by auto
  qed simp
qed

text \<open>Directories move: each to a parent that lies below no moved directory.\<close>

lemma ns_rearrange:
  assumes ok: "ns_ok D E F L" and "D \<inter> dom F' = {}" and "finite (dom E')" and "\<And>k v. E' k = Some v \<Longrightarrow> entry_ok D F' k v"
    and "\<And>d. d \<in> D \<Longrightarrow> d \<noteq> ROOT_INO \<Longrightarrow> \<exists>k. ekeys E' d = {k}"
    and "\<And>i f. F' i = Some f \<Longrightarrow> fi_inode f = i \<and> file_ok E' L' f"
    and rows: "\<And>p n i. E (p, n) = Some (i, EtDirectory) \<Longrightarrow> i \<notin> M \<Longrightarrow> \<exists>n'. E' (p, n') = Some (i, EtDirectory)"
    and moved: "\<And>m. m \<in> M \<Longrightarrow> \<exists>q n. E' (q, n) = Some (m, EtDirectory) \<and> q \<in> D \<and> (\<forall>m'\<in>M. \<not> under E m' q)"
  shows "ns_ok D E' F' L'"
  using ns_okD(1) [OF ok] assms(2-6)
proof (rule ns_okI)
  fix d assume "d \<in> D"
  then have "rooted E d" by (rule ns_okD(8) [OF ok])
  then show "rooted E' d"
  proof (rule rooted_moved [where M = M])
    show "\<exists>n'. E' (p, n') = Some (i, EtDirectory)" if "E (p, n) = Some (i, EtDirectory)" "i \<notin> M" for p n i
      using that by (rule rows)
    show "\<exists>q n. E' (q, n) = Some (m, EtDirectory) \<and> rooted E q \<and> (\<forall>m'\<in>M. \<not> under E m' q)" if "m \<in> M" for m
      using moved [OF that] ns_okD(8) [OF ok] by blast
  qed
qed

lemma ekeys_move:
  assumes "E k = Some (i, t)" and "E k' = None"
  shows "ekeys (E(k := None, k' \<mapsto> (i, t))) j = (if j = i then insert k' (ekeys E i - {k}) else ekeys E j)"
proof (rule set_eqI)
  fix x
  have "k \<noteq> k'" using assms by auto
  then show "x \<in> ekeys (E(k := None, k' \<mapsto> (i, t))) j \<longleftrightarrow> x \<in> (if j = i then insert k' (ekeys E i - {k}) else ekeys E j)"
    using assms by (auto simp: ekeys_def split: if_splits)
qed

lemma ns_move_dir:
  assumes ok: "ns_ok D E F L" and row: "E k = Some (i, EtDirectory)" and free: "E (q, n) = None" and q: "q \<in> D"
    and sane: "\<not> under E i q"
  shows "ns_ok D (E(k := None, (q, n) \<mapsto> (i, EtDirectory))) F L"
proof -
  let ?E = "E(k := None, (q, n) \<mapsto> (i, EtDirectory))"
  note O = ns_okD [OF ok] and dir = ekeys_dir [OF ok row]
  note keys = ekeys_move [of E k i EtDirectory "(q, n)", OF row free]
  have other: "?E x = E x" if "x \<noteq> k" "x \<noteq> (q, n)" for x using that by simp
  show ?thesis
  proof (rule ns_rearrange [where M = "{i}", OF ok O(2)])
    show "finite (dom ?E)" using O(3) by simp
    show "entry_ok D F x v" if "?E x = Some v" for x v
      using that O(4) [of x v] q dir(2,3) by (auto simp: entry_ok_def split: if_splits)
    show "\<exists>k. ekeys ?E d = {k}" if "d \<in> D" "d \<noteq> ROOT_INO" for d
      using O(5) [OF that] dir(1) unfolding keys by auto
    show "fi_inode f = j \<and> file_ok ?E L f" if F: "F j = Some f" for j f
    proof -
      have "fi_inode f = j" "j \<noteq> i" using O(6) [OF F] O(2) dir(2) F by auto
      moreover from this have "file_ok ?E L f = file_ok E L f" by (intro file_ok_cong) (simp_all add: keys)
      ultimately show ?thesis using O(7) [OF F] by simp
    qed
    show "\<exists>n'. ?E (p, n') = Some (j, EtDirectory)" if "E (p, m) = Some (j, EtDirectory)" "j \<notin> {i}" for p m j
    proof -
      have "(p, m) \<noteq> k" "(p, m) \<noteq> (q, n)" using that row free by auto
      then have "?E (p, m) = Some (j, EtDirectory)" using that(1) by auto
      then show ?thesis by blast
    qed
    show "\<exists>q' n'. ?E (q', n') = Some (m, EtDirectory) \<and> q' \<in> D \<and> (\<forall>m'\<in>{i}. \<not> under E m' q')" if "m \<in> {i}" for m
      using that q sane by auto
  qed
qed

lemma ekeys_swap:
  assumes "E ka = Some (a, ta)" and "E kb = Some (b, tb)" and "a \<noteq> b"
  shows "ekeys (E(ka \<mapsto> (b, tb), kb \<mapsto> (a, ta))) j =
    (if j = a then insert kb (ekeys E a - {ka}) else if j = b then insert ka (ekeys E b - {kb}) else ekeys E j)"
proof (rule set_eqI)
  fix x
  have "ka \<noteq> kb" using assms by auto
  then show "x \<in> ekeys (E(ka \<mapsto> (b, tb), kb \<mapsto> (a, ta))) j \<longleftrightarrow>
      x \<in> (if j = a then insert kb (ekeys E a - {ka}) else if j = b then insert ka (ekeys E b - {kb}) else ekeys E j)"
    using assms by (auto simp: ekeys_def split: if_splits)
qed

lemma ns_swap:
  assumes ok: "ns_ok D E F L" and a: "E (pa, na) = Some (a, ta)" and b: "E (pb, nb) = Some (b, tb)" and ne: "a \<noteq> b"
    and sa: "ta = EtDirectory \<Longrightarrow> \<not> under E a pb" and sb: "tb = EtDirectory \<Longrightarrow> \<not> under E b pa"
    and E': "E' = E((pa, na) \<mapsto> (b, tb), (pb, nb) \<mapsto> (a, ta))" and dom: "dom F' = dom F"
    and files: "\<And>i f. F' i = Some f \<Longrightarrow> fi_inode f = i \<and> file_ok E' L' f"
  shows "ns_ok D E' F' L'"
proof -
  note O = ns_okD [OF ok]
  note keys = ekeys_swap [of E "(pa, na)" a ta "(pb, nb)" b tb, OF a b ne, folded E']
  have ea: "entry_ok D F (pa, na) (a, ta)" and eb: "entry_ok D F (pb, nb) (b, tb)" using O(4) [OF a] O(4) [OF b] .
  note own = ns_acyclic [OF ok]
  let ?M = "(if ta = EtDirectory then {a} else {}) \<union> (if tb = EtDirectory then {b} else {})"
  show ?thesis
  proof (rule ns_rearrange [where M = ?M, OF ok])
    show "D \<inter> dom F' = {}" using O(2) dom by simp
    show "finite (dom E')" unfolding E' using O(3) by simp
    show "entry_ok D F' x v" if "E' x = Some v" for x v
      using that O(4) [of x v] ea eb dom unfolding E' by (auto simp: entry_ok_def split: if_splits)
    show "\<exists>k. ekeys E' d = {k}" if d: "d \<in> D" "d \<noteq> ROOT_INO" for d
    proof -
      obtain k where k: "ekeys E d = {k}" using O(5) [OF d] by blast
      moreover have "d = a \<Longrightarrow> k = (pa, na)" using ekeysI [of E "(pa, na)" a, OF a] k by auto
      moreover have "d = b \<Longrightarrow> k = (pb, nb)" using ekeysI [of E "(pb, nb)" b, OF b] k by auto
      ultimately show ?thesis unfolding keys by auto
    qed
    show "\<exists>n'. E' (p, n') = Some (i, EtDirectory)" if "E (p, n) = Some (i, EtDirectory)" "i \<notin> ?M" for p n i
    proof -
      have "(p, n) \<noteq> (pa, na)" "(p, n) \<noteq> (pb, nb)" using that a b by auto
      then have "E' (p, n) = Some (i, EtDirectory)" using that(1) unfolding E' by auto
      then show ?thesis by blast
    qed
    show "\<exists>q n. E' (q, n) = Some (m, EtDirectory) \<and> q \<in> D \<and> (\<forall>m'\<in>?M. \<not> under E m' q)" if m: "m \<in> ?M" for m
    proof (cases "m = a")
      case True
      then have ta: "ta = EtDirectory" using m ne by (auto split: if_splits)
      have "E' (pb, nb) = Some (m, EtDirectory)" unfolding E' using ta True by simp
      moreover have "pb \<in> D" using eb by (simp add: entry_ok_def)
      moreover have "\<not> under E m' pb" if "m' \<in> ?M" for m' using that sa [OF ta] own b by (auto split: if_splits)
      ultimately show ?thesis by blast
    next
      case False
      then have tb: "m = b" "tb = EtDirectory" using m by (auto split: if_splits)
      have "(pa, na) \<noteq> (pb, nb)" using a b ne by auto
      then have "E' (pa, na) = Some (m, EtDirectory)" unfolding E' using tb by auto
      moreover have "pa \<in> D" using ea by (simp add: entry_ok_def)
      moreover have "\<not> under E m' pa" if "m' \<in> ?M" for m' using that sb [OF tb(2)] own a by (auto split: if_splits)
      ultimately show ?thesis by blast
    qed
  qed (rule files)
qed

section \<open>Walking towards the root\<close>

lemma under_parent:
  assumes ok: "ns_ok D E F L" and row: "E (p, n) = Some (i, EtDirectory)"
  shows "under E a i \<longleftrightarrow> a = i \<or> under E a p"
proof
  assume "under E a i"
  then show "a = i \<or> under E a p"
  proof (cases rule: under.cases)
    case (under_step q m)
    have "(q, m) = (p, n)" using ekeys_dir(1) [OF ok row] ekeysI [of E "(q, m)" i, OF under_step(1)] by simp
    then show ?thesis using under_step(2) by simp
  qed simp
next
  assume "a = i \<or> under E a p"
  then show "under E a i" using under_refl [of E i] under_step [of E p n i a, OF row] by blast
qed

lemma under_root:
  assumes ok: "ns_ok D E F L"
  shows "under E a ROOT_INO \<longleftrightarrow> a = ROOT_INO"
proof
  assume "under E a ROOT_INO"
  then show "a = ROOT_INO"
  proof (cases rule: under.cases)
    case (under_step q m)
    from ekeys_dir(3) [OF ok this(1)] show ?thesis by simp
  qed simp
qed (simp add: under_refl)

lemma dir_entry_row:
  assumes wf: "tables_wf db" and ok: "ns_ok (dirs db) (emap db) F L"
    and row: "emap db (p, n) = Some (i, EtDirectory)"
  obtains e where "entries_of db i = [e]" and "ct_parent e = p" and "ct_name e = n" and "ct_type e = EtDirectory"
proof -
  from entries_single [OF tables_wfD(1) [OF wf] ekeys_dir(1) [OF ok row]] obtain e where
    "entries_of db i = [e]" "ct_key e = (p, n)" "emap db (p, n) = Some (i, ct_type e)" by blast
  then show thesis using that [of e] row by (simp add: ct_key_def)
qed

lemma validate_directory_move_iff:
  assumes wf: "tables_wf db" and ok: "ns_ok (dirs db) (emap db) F L" and q: "q \<in> dirs db"
    and "\<forall>v\<in>vis. \<not> under (emap db) v q"
  shows "validate_directory_move db vis q a =
    (if under (emap db) a q then Inl (InvalidPath ''cannot move directory below itself'') else Inr ())"
  using ns_okD(8) [OF ok q] assms(4)
proof (induction arbitrary: vis rule: rooted.induct)
  case rooted_root
  show ?case unfolding under_root [OF ok] by (subst validate_directory_move.simps) auto
next
  case (rooted_step p n i)
  note row = rooted_step.hyps(1) and up = under_parent [OF ok rooted_step.hyps(1)]
  obtain e where e: "entries_of db i = [e]" "ct_parent e = p" "ct_name e = n" "ct_type e = EtDirectory"
    using wf ok row by (rule dir_entry_row)
  have i: "i \<noteq> ROOT_INO" using ekeys_dir(3) [OF ok row] .
  have vis: "i \<notin> vis" using rooted_step.prems under_refl [of "emap db" i] by blast
  have loop: "p \<noteq> i" using ns_acyclic [OF ok row] under_refl [of "emap db" i] by auto
  have "\<forall>v\<in>insert i vis. \<not> under (emap db) v p" using rooted_step.prems ns_acyclic [OF ok row] up by blast
  from rooted_step.IH [OF this] have rec: "validate_directory_move db (insert i vis) p a =
      (if under (emap db) a p then Inl (InvalidPath ''cannot move directory below itself'') else Inr ())" .
  show ?case
    using i vis loop e rec up [of a] by (subst validate_directory_move.simps) auto
qed

lemma lookup_parts_snoc:
  assumes "lookup_parts db cur ns = Some (d, FtDir)" and "find_entry db d n = Some e" and "ct_type e = EtDirectory"
  shows "lookup_parts db cur (ns @ [n]) = Some (ct_inode e, FtDir)"
  using assms by (induction ns arbitrary: cur) (auto split: option.splits if_splits)

lemma lookup_parts_last:
  assumes "lookup_parts db cur ns = Some (d, FtDir)" and "find_entry db d n = Some e"
  shows "lookup_parts db cur (ns @ [n]) = Some (ct_inode e, file_type_of_entry (ct_type e))"
  using assms by (induction ns arbitrary: cur) (auto split: option.splits if_splits)

text \<open>Every directory is reached from the root by the names the walk collects.\<close>

lemma trash_parts_path:
  assumes wf: "tables_wf db" and ok: "ns_ok (dirs db) (emap db) F L" and q: "q \<in> dirs db"
    and "\<forall>v\<in>vis. \<not> under (emap db) v q"
  shows "\<exists>names. trash_parts db vis q parts = Inr (names @ parts) \<and> lookup_parts db ROOT_INO names = Some (q, FtDir)"
  using ns_okD(8) [OF ok q] assms(4)
proof (induction arbitrary: vis parts rule: rooted.induct)
  case rooted_root
  have "trash_parts db vis ROOT_INO parts = Inr ([] @ parts)" by (subst trash_parts.simps) simp
  moreover have "lookup_parts db ROOT_INO [] = Some (ROOT_INO, FtDir)" by simp
  ultimately show ?case by blast
next
  case (rooted_step p n i)
  note row = rooted_step.hyps(1)
  obtain e where e: "entries_of db i = [e]" "ct_parent e = p" "ct_name e = n" "ct_type e = EtDirectory"
    using wf ok row by (rule dir_entry_row)
  have i: "i \<noteq> ROOT_INO" using ekeys_dir(3) [OF ok row] .
  have vis: "i \<notin> vis" using rooted_step.prems under_refl [of "emap db" i] by blast
  have "\<forall>v\<in>insert i vis. \<not> under (emap db) v p"
    using rooted_step.prems ns_acyclic [OF ok row] under_parent [OF ok row] by blast
  from rooted_step.IH [OF this, of "n # parts"] obtain names where
    names: "trash_parts db (insert i vis) p (n # parts) = Inr (names @ n # parts)" "lookup_parts db ROOT_INO names = Some (p, FtDir)"
    by blast
  have "find_entry db p n \<noteq> None" using row by (simp add: ns_view)
  then obtain e' where e': "find_entry db p n = Some e'" by blast
  have "ct_inode e' = i" "ct_type e' = EtDirectory" using find_entry_Some(1) [OF e'] row by simp_all
  then have "lookup_parts db ROOT_INO (names @ [n]) = Some (i, FtDir)" using lookup_parts_snoc [OF names(2) e'] by simp
  moreover have "trash_parts db vis i parts = Inr ((names @ [n]) @ parts)"
    using i vis e names(1) by (subst trash_parts.simps) simp
  ultimately show ?case by blast
qed

lemma ns_add_entry:
  assumes ok: "ns_ok D E F L" and p: "p \<in> D" and free: "E (p, n) = None" and i: "i \<notin> D" and none: "ekeys E i = {}"
    and nolink: "\<And>k. (i, k) \<notin> L" and t: "t \<noteq> EtDirectory"
    and f: "fi_inode f = i" "fi_nlink f = 1" "\<not> fi_deleted f" "fi_parent f = p"
  shows "ns_ok D (E((p, n) \<mapsto> (i, t))) (F(i \<mapsto> f)) L"
proof (rule ns_change_file [OF ok i])
  let ?E = "E((p, n) \<mapsto> (i, t))"
  show "E k = Some v" if "?E k = Some v" "fst v \<noteq> i" for k v using that by (auto split: if_splits)
  show "?E k = Some v" if "E k = Some v" for k v using that free by auto
  show "t' \<noteq> EtDirectory \<and> fst k \<in> D" if "?E k = Some (i, t')" for k t'
  proof -
    have "k = (p, n)" using that none ekeysI [of E k i t'] by (auto split: if_splits)
    then show ?thesis using that t p by simp
  qed
  show "finite (dom ?E)" using ns_okD(3) [OF ok] by simp
  have K: "{(p, n)} = ekeys ?E (fi_inode f)" using ekeys_insert [of E "(p, n)" i t i, OF free] none f(1) by simp
  show "file_ok ?E L f" by (rule file_okI [OF K]) (use f nolink in auto)
qed (use f(1) in simp_all)

text \<open>A file loses one entry: what the row and the link rows become.\<close>

definition released ::
  "file_row \<Rightarrow> int \<times> string \<Rightarrow> content_row option \<Rightarrow> link_row set \<Rightarrow> file_row \<Rightarrow> link_row set \<Rightarrow> bool" where
  "released f k rest L f' L' \<longleftrightarrow> fi_inode f' = fi_inode f \<and>
     (if fi_nlink f > 2 then fi_nlink f' = fi_nlink f - 1 \<and> \<not> fi_deleted f' \<and> fi_parent f' = fi_parent f \<and> L' = L - {(fi_inode f, k)}
      else if fi_nlink f = 2 then fi_nlink f' = 1 \<and> \<not> fi_deleted f' \<and> (\<exists>e. rest = Some e \<and> fi_parent f' = ct_parent e)
        \<and> L' = {x \<in> L. fst x \<noteq> fi_inode f}
      else fi_nlink f' = 0 \<and> fi_deleted f' \<and> fi_parent f' = 0 \<and> L' = L)"

lemma released_file_ok:
  assumes ok: "file_ok E L f" and fin: "finite (dom E)" and i: "fi_inode f = i" and k: "k \<in> ekeys E i"
    and rel: "released f k rest L f' L'" and rest: "\<And>e. rest = Some e \<Longrightarrow> ct_key e \<in> ekeys E i - {k}"
  shows "file_ok (E(k := None)) L' f'"
proof -
  let ?K = "ekeys E i"
  note O = file_okD [OF ok, unfolded i, OF refl]
  have fK: "finite ?K" using fin by (rule finite_ekeys)
  have i': "fi_inode f' = i" using rel i by (simp add: released_def)
  have K': "?K - {k} = ekeys (E(k := None)) (fi_inode f')" by (simp add: ekeys_delete i')
  have card: "card (?K - {k}) = card ?K - 1" using fK k by simp
  have pos: "card ?K > 0" using fK k by (auto simp: card_gt_0_iff)
  consider "card ?K > 2" | "card ?K = 2" | "card ?K = 1" using pos by linarith
  then show ?thesis
  proof cases
    case 1
    then have r: "fi_nlink f' = fi_nlink f - 1" "\<not> fi_deleted f'" "fi_parent f' = fi_parent f" "L' = L - {(i, k)}"
      using rel O(1) i by (simp_all add: released_def)
    show ?thesis
    proof (rule file_okI [OF K'])
      show "fi_nlink f' = int (card (?K - {k}))" using r(1) O(1) card pos by simp
      have "card (?K - {k}) \<noteq> 0" using card 1 by simp
      then have "?K - {k} \<noteq> {}" by (intro notI) (simp only: card.empty)
      then show "fi_deleted f' = (?K - {k} = {})" using r(2) by blast
      show "fi_parent f' = fst x" if "?K - {k} = {x}" for x using that card 1 by simp
      show "fi_parent f' = 0" using r(3) O(4) 1 by simp
      show "(fi_inode f', x) \<in> L' \<longleftrightarrow> card (?K - {k}) > 1 \<and> x \<in> ?K - {k}" for x
        using O(5) [of x] card 1 by (auto simp: r(4) i')
    qed
  next
    case 2
    then obtain e where r: "fi_nlink f' = 1" "\<not> fi_deleted f'" "rest = Some e" "fi_parent f' = ct_parent e" "L' = {x \<in> L. fst x \<noteq> i}"
      using rel O(1) i by (auto simp: released_def)
    have "card (?K - {k}) = 1" using card 2 by simp
    then obtain x where x: "?K - {k} = {x}" by (rule card_1_singletonE)
    have "ct_key e \<in> ?K - {k}" using rest [OF r(3)] .
    then have "?K - {k} = {ct_key e}" unfolding x by simp
    then have K1: "{ct_key e} = ekeys (E(k := None)) (fi_inode f')" using K' by simp
    show ?thesis
    proof (rule file_okI [OF K1])
      show "fi_parent f' = fst x" if "{ct_key e} = {x}" for x using that r(4) by (auto simp: ct_key_def)
    qed (simp_all add: r i')
  next
    case 3
    then have r: "fi_nlink f' = 0" "fi_deleted f'" "fi_parent f' = 0" "L' = L"
      using rel O(1) i by (simp_all add: released_def)
    have "?K - {k} = {}" using 3 k by (auto simp: card_1_singleton_iff)
    then have K0: "{} = ekeys (E(k := None)) (fi_inode f')" using K' by simp
    show ?thesis
      using O(5) 3 by (intro file_okI [OF K0]) (simp_all add: r i')
  qed
qed

lemma ns_drop_link:
  assumes ok: "ns_ok D E F L" and row: "E k = Some (i, t)" and t: "t \<noteq> EtDirectory" and f: "F i = Some f"
    and rel: "released f k rest L f' L'" and rest: "\<And>e. rest = Some e \<Longrightarrow> ct_key e \<in> ekeys E i - {k}"
  shows "ns_ok D (E(k := None)) (F(i \<mapsto> f')) L'"
proof (rule ns_change_file [OF ok ekeys_file(2) [OF ok row t]])
  note O = ns_okD [OF ok]
  have i: "fi_inode f = i" using O(6) [OF f] .
  show "E x = Some v" if "(E(k := None)) x = Some v" for x v using that by (auto split: if_splits)
  show "(E(k := None)) x = Some v" if "E x = Some v" "fst v \<noteq> i" for x v using that row by auto
  show "t' \<noteq> EtDirectory \<and> fst x \<in> D" if "(E(k := None)) x = Some (i, t')" for x t'
  proof -
    have x: "E x = Some (i, t')" using that by (auto split: if_splits)
    have "t' \<noteq> EtDirectory"
    proof
      assume "t' = EtDirectory"
      then have "i \<in> D" using ekeys_dir(2) [OF ok, of x i] x by simp
      then show False using ekeys_file(2) [OF ok row t] by blast
    qed
    then show ?thesis using O(4) [OF x] by (simp add: entry_ok_def)
  qed
  show "finite (dom (E(k := None)))" using O(3) by simp
  show "fi_inode f' = i" using rel i by (simp add: released_def)
  show "file_ok (E(k := None)) L' f'"
    using O(7) [OF f] O(3) i ekeysI [of E k i t, OF row] rel rest by (rule released_file_ok)
  show "(j, x) \<in> L' \<longleftrightarrow> (j, x) \<in> L" if "j \<noteq> i" for j x
    using rel that i by (auto simp: released_def split: if_splits)
qed

text \<open>A file gains an entry.\<close>

lemma ns_file_entries:
  assumes ok: "ns_ok D E F L" and f: "F i = Some f" and row: "E k = Some (i, t)"
  shows "t \<noteq> EtDirectory" and "fst k \<in> D"
proof -
  note O = ns_okD [OF ok]
  have "i \<notin> D" using O(2) f by auto
  then show "t \<noteq> EtDirectory" "fst k \<in> D" using O(4) [OF row] by (auto simp: entry_ok_def split: if_splits)
qed

lemma ns_add_link:
  assumes ok: "ns_ok D E F L" and f: "F i = Some f" and pos: "0 < fi_nlink f" and p: "p \<in> D" and free: "E (p, n) = None"
    and t: "t \<noteq> EtDirectory" and f': "fi_inode f' = i" "fi_nlink f' = fi_nlink f + 1" "\<not> fi_deleted f'" "fi_parent f' = 0"
    and L': "L' = insert (i, p, n) (L \<union> {i} \<times> ekeys E i)"
  shows "ns_ok D (E((p, n) \<mapsto> (i, t))) (F(i \<mapsto> f')) L'"
proof (rule ns_change_file [OF ok])
  let ?E = "E((p, n) \<mapsto> (i, t))" and ?K = "ekeys E i"
  note O = ns_okD [OF ok]
  show "i \<notin> D" using O(2) f by auto
  show "E k = Some v" if "?E k = Some v" "fst v \<noteq> i" for k v using that by (auto split: if_splits)
  show "?E k = Some v" if "E k = Some v" for k v using that free by auto
  show "t' \<noteq> EtDirectory \<and> fst k \<in> D" if "?E k = Some (i, t')" for k t'
  proof (cases "k = (p, n)")
    case True
    then show ?thesis using that t p by simp
  next
    case False
    then have "E k = Some (i, t')" using that by simp
    then show ?thesis using ns_file_entries [OF ok f] by blast
  qed
  show "finite (dom ?E)" using O(3) by simp
  show "fi_inode f' = i" by (rule f'(1))
  have i: "fi_inode f = i" using O(6) [OF f] .
  note FO = file_okD [OF O(7) [OF f], unfolded i, OF refl]
  have fin: "finite ?K" using O(3) by (rule finite_ekeys)
  have new: "(p, n) \<notin> ?K" using free by (auto simp: ekeys_def)
  have K': "insert (p, n) ?K = ekeys ?E (fi_inode f')" using ekeys_insert [of E "(p, n)" i t i, OF free] f'(1) by simp
  have card: "card (insert (p, n) ?K) = card ?K + 1" using fin new by simp
  have pos': "0 < card ?K" using pos FO(1) by simp
  show "file_ok ?E L' f'"
  proof (rule file_okI [OF K'])
    show "fi_nlink f' = int (card (insert (p, n) ?K))" using f'(2) FO(1) card by simp
    show "fi_deleted f' \<longleftrightarrow> insert (p, n) ?K = {}" using f'(3) by simp
    show "fi_parent f' = fst k" if "insert (p, n) ?K = {k}" for k
    proof -
      have "card (insert (p, n) ?K) = 1" unfolding that by simp
      then show ?thesis using card pos' by linarith
    qed
    show "(fi_inode f', k) \<in> L' \<longleftrightarrow> card (insert (p, n) ?K) > 1 \<and> k \<in> insert (p, n) ?K" for k
      using FO(5) [of k] pos' unfolding card L' f'(1) by auto
  qed (rule f'(4))
  show "(j, k) \<in> L' \<longleftrightarrow> (j, k) \<in> L" if "j \<noteq> i" for j k using that by (auto simp: L')
qed

text \<open>A file whose entry \<open>k\<close> becomes \<open>k'\<close>.\<close>

definition moved :: "file_row \<Rightarrow> int \<times> string \<Rightarrow> int \<times> string \<Rightarrow> link_row set \<Rightarrow> file_row \<Rightarrow> link_row set \<Rightarrow> bool" where
  "moved f k k' L f' L' \<longleftrightarrow> fi_inode f' = fi_inode f \<and> fi_nlink f' = fi_nlink f \<and> fi_deleted f' = fi_deleted f
     \<and> fi_parent f' = (if fi_nlink f = 1 then fst k' else fi_parent f)
     \<and> (\<forall>x. (fi_inode f, x) \<in> L' \<longleftrightarrow> (if fi_nlink f > 1 then x = k' \<or> (fi_inode f, x) \<in> L \<and> x \<noteq> k else (fi_inode f, x) \<in> L))"

lemma moved_file_ok:
  assumes ok: "file_ok E L f" and fin: "finite (dom E)" and i: "fi_inode f = i" and k: "k \<in> ekeys E i" "k' \<notin> ekeys E i"
    and keys: "ekeys E' i = insert k' (ekeys E i - {k})" and mv: "moved f k k' L f' L'"
  shows "file_ok E' L' f'"
proof -
  let ?K = "ekeys E i" and ?K' = "insert k' (ekeys E i - {k})"
  note O = file_okD [OF ok, unfolded i, OF refl]
  have fK: "finite ?K" using fin by (rule finite_ekeys)
  have pos: "0 < card ?K" using fK k(1) by (auto simp: card_gt_0_iff)
  have card: "card ?K' = card ?K" using fK k pos by simp
  have K': "?K' = ekeys E' (fi_inode f')" using keys mv i by (simp add: moved_def)
  have "?K \<noteq> {}" using k(1) by auto
  then have live: "\<not> fi_deleted f" using O(2) by simp
  have links: "(i, x) \<in> L' \<longleftrightarrow> (if card ?K > 1 then x = k' \<or> (i, x) \<in> L \<and> x \<noteq> k else (i, x) \<in> L)" for x
  proof -
    have "\<forall>x. (fi_inode f, x) \<in> L' \<longleftrightarrow> (if fi_nlink f > 1 then x = k' \<or> (fi_inode f, x) \<in> L \<and> x \<noteq> k else (fi_inode f, x) \<in> L)"
      using mv unfolding moved_def by blast
    from spec [OF this, of x] show ?thesis using i O(1) by simp
  qed
  show ?thesis
  proof (rule file_okI [OF K'])
    show "fi_nlink f' = int (card ?K')" unfolding card using O(1) mv by (simp add: moved_def)
    show "fi_deleted f' \<longleftrightarrow> ?K' = {}" using live mv by (simp add: moved_def)
    show "fi_parent f' = fst x" if "?K' = {x}" for x
    proof -
      have "card ?K' = 1" unfolding that by simp
      moreover have "x = k'" using that by auto
      ultimately have "x = k'" "card ?K = 1" using card by simp_all
      then show ?thesis using mv O(1) by (simp add: moved_def)
    qed
    show "fi_parent f' = 0" if "card ?K' \<noteq> 1" using that O(1,4) mv unfolding card by (simp add: moved_def)
    show "(fi_inode f', x) \<in> L' \<longleftrightarrow> card ?K' > 1 \<and> x \<in> ?K'" for x
    proof -
      have "fi_inode f' = i" using mv i by (simp add: moved_def)
      then show ?thesis unfolding card using links [of x] O(5) [of x] by auto
    qed
  qed
qed

lemma ns_move_file:
  assumes ok: "ns_ok D E F L" and row: "E k = Some (i, t)" and t: "t \<noteq> EtDirectory" and f: "F i = Some f"
    and free: "E (q, n) = None" and q: "q \<in> D" and mv: "moved f k (q, n) L f' L'"
    and links: "\<And>j x. j \<noteq> i \<Longrightarrow> (j, x) \<in> L' \<longleftrightarrow> (j, x) \<in> L"
  shows "ns_ok D (E(k := None, (q, n) \<mapsto> (i, t))) (F(i \<mapsto> f')) L'"
proof (rule ns_change_file [OF ok ekeys_file(2) [OF ok row t]])
  let ?E = "E(k := None, (q, n) \<mapsto> (i, t))"
  note O = ns_okD [OF ok]
  have i: "fi_inode f = i" using O(6) [OF f] .
  show "E x = Some v" if "?E x = Some v" "fst v \<noteq> i" for x v using that by (auto split: if_splits)
  show "?E x = Some v" if E: "E x = Some v" "fst v \<noteq> i" for x v
  proof -
    have "x \<noteq> k" "x \<noteq> (q, n)" using E row free by auto
    then show ?thesis using E(1) unfolding fun_upd_apply by simp
  qed
  show "t' \<noteq> EtDirectory \<and> fst x \<in> D" if "?E x = Some (i, t')" for x t'
  proof (cases "x = (q, n)")
    case True
    then show ?thesis using that t q by simp
  next
    case False
    then have "E x = Some (i, t')" using that by (auto split: if_splits)
    then show ?thesis using ns_file_entries [OF ok f] by blast
  qed
  show "finite (dom ?E)" using O(3) by simp
  show "fi_inode f' = i" using mv i by (simp add: moved_def)
  have new: "(q, n) \<notin> ekeys E i" using free by (auto simp: ekeys_def)
  have keys: "ekeys ?E i = insert (q, n) (ekeys E i - {k})" using ekeys_move [of E k i t "(q, n)" i, OF row free] by simp
  show "file_ok ?E L' f'" by (rule moved_file_ok [OF O(7) [OF f] O(3) i ekeysI [of E k i t, OF row] new keys mv])
qed (rule links)

text \<open>The link rows of a directory do not matter.\<close>

lemma ns_dir_links:
  assumes ok: "ns_ok D E F L" and d: "d \<in> D" and "\<And>j x. j \<noteq> d \<Longrightarrow> (j, x) \<in> L' \<longleftrightarrow> (j, x) \<in> L"
  shows "ns_ok D E F L'"
proof -
  note O = ns_okD [OF ok]
  have "file_ok E L' f = file_ok E L f" if "F i = Some f" for i f
  proof (rule file_ok_cong [OF refl])
    have "fi_inode f \<noteq> d" using O(2) O(6) [OF that] d that by auto
    then show "(fi_inode f, k) \<in> L' \<longleftrightarrow> (fi_inode f, k) \<in> L" for k by (rule assms(3))
  qed
  then have "fi_inode f = i \<and> file_ok E L' f" if "F i = Some f" for i f using O(6,7) [OF that] that by blast
  then show ?thesis using O(1-3) by (intro ns_okI) (simp, simp, simp, rule O(4), simp, rule O(5), simp, simp, simp, rule O(8), simp)
qed

end
