(* ===== verification/NamespaceOps.thy ===== *)
theory NamespaceOps
  imports NamespaceInv
begin

text \<open>
  Every operation of the namespace keeps the tree invariant, on every branch, and what the
  operations do to the entries: the namespace results of the development.
\<close>

section \<open>The invariant of the store\<close>

definition inodes_below :: "meta_db \<Rightarrow> int \<Rightarrow> bool" where
  "inodes_below db n \<longleftrightarrow> dirs db \<union> dom (fmap db) \<union> fst ` links db \<subseteq> {0<..<n}"

lemma subset_three: "A \<union> B \<union> C \<subseteq> S \<Longrightarrow> A' \<subseteq> A \<Longrightarrow> B' \<subseteq> B \<Longrightarrow> C' \<subseteq> C \<union> A \<union> B \<Longrightarrow> A' \<union> B' \<union> C' \<subseteq> S"
  by blast

lemma subset_three_insert:
  "A \<union> B \<union> C \<subseteq> S \<Longrightarrow> i \<in> S \<Longrightarrow> A' \<subseteq> insert i A \<Longrightarrow> B' \<subseteq> insert i B \<Longrightarrow> A' \<union> B' \<union> C \<subseteq> S"
  by blast

definition ns_inv :: "meta_db \<Rightarrow> bool" where
  "ns_inv db \<longleftrightarrow> tables_wf db \<and> ns_ok (dirs db) (emap db) (fmap db) (links db)
     \<and> (\<exists>c. counters (store_db db) INODE_ID_KEY = Some c \<and> inodes_below db (sint c))"

lemma ns_invD:
  assumes "ns_inv db"
  shows "tables_wf db" and "ns_ok (dirs db) (emap db) (fmap db) (links db)"
    and "\<exists>c. counters (store_db db) INODE_ID_KEY = Some c \<and> inodes_below db (sint c)"
  using assms by (auto simp: ns_inv_def)

lemma ns_invI:
  assumes "tables_wf db" and "ns_ok (dirs db) (emap db) (fmap db) (links db)"
    and "counters (store_db db) INODE_ID_KEY = Some c" and "inodes_below db (sint c)"
  shows "ns_inv db"
  using assms by (auto simp: ns_inv_def)

text \<open>A step inside a transaction that adds no inode.\<close>

lemma ns_inv_step:
  assumes "ns_inv db" and "tables_wf db'" and "ns_ok (dirs db') (emap db') (fmap db') (links db')"
    and "store_db db' = store_db db" and "dirs db' \<subseteq> dirs db" and "dom (fmap db') \<subseteq> dom (fmap db)"
    and "fst ` links db' \<subseteq> fst ` links db \<union> dirs db \<union> dom (fmap db)"
  shows "ns_inv db'"
proof -
  obtain c where c: "counters (store_db db) INODE_ID_KEY = Some c" "inodes_below db (sint c)" using ns_invD(3) [OF assms(1)] by blast
  have "inodes_below db' (sint c)" using c(2) assms(5-7) unfolding inodes_below_def by (rule subset_three)
  then show ?thesis using assms(2-4) c(1) by (intro ns_invI) simp_all
qed

lemma run_txn_inv:
  assumes "ns_inv db" and "run_txn db r = (res, db')" and "\<And>x db1. r = Inr (x, db1) \<Longrightarrow> ns_inv db1"
  shows "ns_inv db'"
  using assms by (auto simp: run_txn_def split: sum.splits)

lemma run_txn_Inr: "run_txn db r = (Inr x, db') \<longleftrightarrow> r = Inr (x, db')"
  by (auto simp: run_txn_def split: sum.splits)

lemma alloc_inode_effect:
  assumes "ns_inv db" and "alloc_inode db = Inr (ino, db1)"
  shows "ns_inv db1" and "ino \<notin> dirs db1" and "ino \<notin> dom (fmap db1)" and "ino \<notin> fst ` links db1"
    and "dirs db1 = dirs db \<and> emap db1 = emap db \<and> fmap db1 = fmap db \<and> links db1 = links db"
    and "\<exists>c. counters (store_db db1) INODE_ID_KEY = Some c \<and> inodes_below db1 (sint c) \<and> 0 < ino \<and> ino < sint c"
proof -
  obtain c where c: "counters (store_db db) INODE_ID_KEY = Some c" "inodes_below db (sint c)" using ns_invD(3) [OF assms(1)] by blast
  have less: "c <s i64_max" and ino: "ino = sint c"
    and db1: "db1 = db\<lparr>store_db := (store_db db)\<lparr>counters := (counters (store_db db))(INODE_ID_KEY \<mapsto> c + 1)\<rparr>\<rparr>"
    using assms(2) c(1) by (auto simp: alloc_inode_def alloc_counter_id_def result_simps split: if_splits)
  have "sint i64_max = 2 ^ 63 - 1" by (simp add: i64_max_def)
  then have lt: "sint c < 2 ^ 63 - 1" using less by (simp add: word_sless_alt)
  have ge: "- (2 ^ 63) \<le> sint c" using sint_greater_eq [of c] by simp
  have suc: "sint (c + 1) = sint c + 1" using lt ge by (simp add: sint_word_ariths signed_take_bit_int_eq_self)
  have same: "dirs db1 = dirs db" "emap db1 = emap db" "fmap db1 = fmap db" "links db1 = links db" by (simp_all add: db1)
  have wf: "tables_wf db1" using ns_invD(1) [OF assms(1)] by (simp add: tables_wf_def db1)
  have below: "inodes_below db1 (sint (c + 1))" using c(2) unfolding inodes_below_def same suc by (rule subset_trans) auto
  have cnt: "counters (store_db db1) INODE_ID_KEY = Some (c + 1)" by (simp add: db1)
  show "ns_inv db1" using wf ns_invD(2) [OF assms(1)] cnt below by (intro ns_invI) (simp_all add: same)
  show "ino \<notin> dirs db1" "ino \<notin> dom (fmap db1)" "ino \<notin> fst ` links db1"
    using c(2) unfolding inodes_below_def same ino by auto
  show "dirs db1 = dirs db \<and> emap db1 = emap db \<and> fmap db1 = fmap db \<and> links db1 = links db" by (simp add: same)
  have "ROOT_INO \<in> dirs db" using ns_okD(1) [OF ns_invD(2) [OF assms(1)]] .
  then have "0 < sint c" using c(2) unfolding inodes_below_def by force
  then show "\<exists>c. counters (store_db db1) INODE_ID_KEY = Some c \<and> inodes_below db1 (sint c) \<and> 0 < ino \<and> ino < sint c"
    using cnt below by (intro exI [of _ "c + 1"]) (simp add: ino suc)
qed

text \<open>A new inode comes with its number allocated just before.\<close>

lemma ns_inv_new:
  assumes "ns_inv db1" and "counters (store_db db1) INODE_ID_KEY = Some c" and "inodes_below db1 (sint c)" and "0 < ino" and "ino < sint c"
    and "tables_wf db'" and "ns_ok (dirs db') (emap db') (fmap db') (links db')" and "store_db db' = store_db db1"
    and "dirs db' \<subseteq> insert ino (dirs db1)" and "dom (fmap db') \<subseteq> insert ino (dom (fmap db1))" and "links db' = links db1"
  shows "ns_inv db'"
proof -
  have "inodes_below db' (sint c)"
    using assms(3) _ assms(9,10) unfolding inodes_below_def assms(11) by (rule subset_three_insert) (use assms(4,5) in simp)
  then show ?thesis using assms(2,6-8) by (intro ns_invI) simp_all
qed

section \<open>Creating\<close>

lemma create_directory_effect:
  assumes inv: "ns_inv db0" and op: "create_directory now p name db0 = (Inr ino, db')"
  shows "ns_inv db'" and "emap db0 (p, name) = None" and "emap db' = (emap db0)((p, name) \<mapsto> (ino, EtDirectory))"
    and "p \<in> dirs db0" and "dirs db' = insert ino (dirs db0)" and "fmap db' = fmap db0" and "ino \<notin> dirs db0"
proof -
  obtain db pa db1 db2 where al: "alloc_inode db0 = Inr (ino, db)" and pa: "find_access db p = Some pa"
    and none: "find_entry db p name = None"
    and s1: "insert_access \<lparr>ac_inode = ino, ac_perm = default_directory 0 (inherited_gid pa 0), ac_atime = now,
                      ac_mtime = now, ac_ctime = now, ac_nlink = 2\<rparr> db = Inr db1"
    and s2: "insert_content \<lparr>ct_parent = p, ct_name = name, ct_inode = ino, ct_type = EtDirectory\<rparr> db1 = Inr db2"
    and s3: "touch_parent (Internal ''unwrap on None'') now p db2 = Inr db'"
    using op by (auto simp: create_directory_def run_txn_Inr result_simps split: sum.splits if_splits)
  note A = alloc_inode_effect [OF inv al]
  obtain c where c: "counters (store_db db) INODE_ID_KEY = Some c" "inodes_below db (sint c)" "0 < ino" "ino < sint c"
    using A(6) by blast
  note V1 = insert_access_view [OF ns_invD(1) [OF A(1)] s1, simplified]
  note V2 = insert_content_view [OF V1(5) s2, unfolded ct_key_def, simplified]
  note V3 = touch_parent_view [OF V2(6) s3]
  have p: "p \<in> dirs db" using find_access_Some(1) [OF pa] .
  have views: "dirs db' = insert ino (dirs db)" "emap db' = (emap db)((p, name) \<mapsto> (ino, EtDirectory))" "fmap db' = fmap db"
    "links db' = links db" "store_db db' = store_db db"
    by (simp_all add: V1 V2 V3)
  have free: "emap db (p, name) = None" using none by (simp add: ns_view)
  have ok: "ns_ok (dirs db') (emap db') (fmap db') (links db')"
    unfolding views using ns_invD(2) [OF A(1)] p free A(2,3) by (rule ns_add_dir)
  show "ns_inv db'" by (rule ns_inv_new [OF A(1) c V3(5) ok views(5)]) (simp_all only: views subset_refl subset_insertI)
  show "emap db0 (p, name) = None" "emap db' = (emap db0)((p, name) \<mapsto> (ino, EtDirectory))" "p \<in> dirs db0"
    "dirs db' = insert ino (dirs db0)" "fmap db' = fmap db0" "ino \<notin> dirs db0"
    using free p A(2,5) by (simp_all add: views)
qed

text \<open>A new file row and its entry, shared by the operations that create files.\<close>

lemma new_file_inv:
  assumes inv: "ns_inv db" and ino: "ino \<notin> dirs db" "ino \<notin> dom (fmap db)" "ino \<notin> fst ` links db"
    and c: "counters (store_db db) INODE_ID_KEY = Some c" "inodes_below db (sint c)" "0 < ino" "ino < sint c"
    and pa: "find_access db p = Some pa"
    and s1: "insert_file f db = Inr db1" and s2: "insert_content \<lparr>ct_parent = p, ct_name = name, ct_inode = ino, ct_type = t\<rparr> db1 = Inr db2"
    and f: "fi_inode f = ino" "fi_nlink f = 1" "\<not> fi_deleted f" "fi_parent f = p" and t: "t \<noteq> EtDirectory"
    and same: "dirs db' = dirs db2" "emap db' = emap db2" "fmap db' = fmap db2" "links db' = links db2" "tables_wf db'" "store_db db' = store_db db2"
  shows "ns_inv db'" and "emap db (p, name) = None" and "emap db' = (emap db)((p, name) \<mapsto> (ino, t))" and "p \<in> dirs db"
    and "dirs db' = dirs db" and "fmap db' = (fmap db)(ino \<mapsto> f)"
proof -
  note V1 = insert_file_view [OF ns_invD(1) [OF inv] s1, unfolded f(1)]
  note V2 = insert_content_view [OF V1(5) s2, unfolded ct_key_def, simplified]
  have views: "dirs db' = dirs db" "emap db' = (emap db)((p, name) \<mapsto> (ino, t))" "fmap db' = (fmap db)(ino \<mapsto> f)"
    "links db' = links db" "store_db db' = store_db db"
    by (simp_all add: V1 V2 same)
  show p: "p \<in> dirs db" using find_access_Some(1) [OF pa] .
  show free: "emap db (p, name) = None" using V2(2) by (simp add: V1)
  have nolink: "(ino, k) \<notin> links db" for k using ino(3) by force
  have ok: "ns_ok (dirs db') (emap db') (fmap db') (links db')"
    unfolding views using ns_invD(2) [OF inv] p free ino(1) ekeys_absent [OF ns_invD(2) [OF inv] ino(1,2)] nolink t f
    by (rule ns_add_entry)
  show "ns_inv db'"
    by (rule ns_inv_new [OF inv c same(5) ok views(5)]) (simp_all add: views subset_insertI)
  show "emap db' = (emap db)((p, name) \<mapsto> (ino, t))" "dirs db' = dirs db" "fmap db' = (fmap db)(ino \<mapsto> f)" by (rule views)+
qed

lemma create_file_effect:
  assumes inv: "ns_inv db0" and op: "create_file_internal now p name db0 = (Inr ino, db')"
  shows "ns_inv db'" and "emap db0 (p, name) = None" and "emap db' = (emap db0)((p, name) \<mapsto> (ino, EtFile))"
    and "p \<in> dirs db0" and "dirs db' = dirs db0" and "ino \<notin> dom (fmap db0)"
proof -
  obtain db pa db1 db2 where al: "alloc_inode db0 = Inr (ino, db)" and pa: "find_access db p = Some pa"
    and s1: "insert_file (new_file_row ino p (permission_new 33188 0 (inherited_gid pa 0)) now) db = Inr db1"
    and s2: "insert_content \<lparr>ct_parent = p, ct_name = name, ct_inode = ino, ct_type = EtFile\<rparr> db1 = Inr db2"
    and s3: "touch_parent (Internal ''unwrap on None'') now p db2 = Inr db'"
    using op by (auto simp: create_file_internal_def run_txn_Inr result_simps split: sum.splits if_splits)
  note A = alloc_inode_effect [OF inv al]
  obtain c where c: "counters (store_db db) INODE_ID_KEY = Some c" "inodes_below db (sint c)" "0 < ino" "ino < sint c"
    using A(6) by blast
  have wf2: "tables_wf db2" using insert_content_view(6) [OF insert_file_view(5) [OF ns_invD(1) [OF A(1)] s1] s2] .
  note V3 = touch_parent_view [OF wf2 s3]
  note N = new_file_inv [OF A(1-4) c pa s1 s2 _ _ _ _ _ V3]
  show "ns_inv db'" "emap db0 (p, name) = None" "emap db' = (emap db0)((p, name) \<mapsto> (ino, EtFile))" "p \<in> dirs db0"
    "dirs db' = dirs db0" "ino \<notin> dom (fmap db0)"
    using N A(3,5) by (simp_all add: new_file_row_def)
qed

lemma create_node_effect:
  assumes inv: "ns_inv db0" and op: "create_node now p name kind mode uid gid rdev db0 = (Inr ino, db')"
  shows "ns_inv db'" and "emap db0 (p, name) = None" and "emap db' = (emap db0)((p, name) \<mapsto> (ino, file_type_to_entry_type kind))"
    and "p \<in> dirs db0" and "dirs db' = dirs db0" and "ino \<notin> dom (fmap db0)" and "kind \<noteq> FtDir \<and> kind \<noteq> FtSymlink"
    and "\<exists>g. fmap db' ino = Some ((new_file_row ino p (permission_new (mode_type_bits kind OR (mode AND 4095)) uid g) now)
       \<lparr>fi_rdev := u32_as_i32 rdev\<rparr>)"
proof -
  let ?f = "\<lambda>pa. (new_file_row ino p (permission_new (mode_type_bits kind OR (mode AND 4095)) uid (inherited_gid pa gid)) now)
      \<lparr>fi_rdev := u32_as_i32 rdev\<rparr>"
  obtain db pa db1 db2 where kind: "kind \<noteq> FtDir" "kind \<noteq> FtSymlink" and al: "alloc_inode db0 = Inr (ino, db)" and pa: "find_access db p = Some pa"
    and s1: "insert_file (?f pa) db = Inr db1"
    and s2: "insert_content \<lparr>ct_parent = p, ct_name = name, ct_inode = ino, ct_type = file_type_to_entry_type kind\<rparr> db1 = Inr db2"
    and s3: "db' = update_access (pa\<lparr>ac_mtime := now\<rparr>) db2"
    using op by (auto simp: create_node_def run_txn_Inr result_simps Let_def split: sum.splits if_splits)
  note A = alloc_inode_effect [OF inv al]
  obtain c where c: "counters (store_db db) INODE_ID_KEY = Some c" "inodes_below db (sint c)" "0 < ino" "ino < sint c"
    using A(6) by blast
  have wf2: "tables_wf db2" using insert_content_view(6) [OF insert_file_view(5) [OF ns_invD(1) [OF A(1)] s1] s2] .
  have "is_directory (ac_perm pa)" using tables_wfD(4) [OF ns_invD(1) [OF A(1)] find_access_Some(3) [OF pa]] .
  then have d: "is_directory (ac_perm (pa\<lparr>ac_mtime := now\<rparr>))" by simp
  note N = new_file_inv [OF A(1-4) c pa s1 s2 _ _ _ _ _ update_access_view [OF wf2 d s3]]
  show "ns_inv db'" "emap db0 (p, name) = None" "emap db' = (emap db0)((p, name) \<mapsto> (ino, file_type_to_entry_type kind))" "p \<in> dirs db0"
    "dirs db' = dirs db0" "ino \<notin> dom (fmap db0)" "kind \<noteq> FtDir \<and> kind \<noteq> FtSymlink"
    "\<exists>g. fmap db' ino = Some ((new_file_row ino p (permission_new (mode_type_bits kind OR (mode AND 4095)) uid g) now)
       \<lparr>fi_rdev := u32_as_i32 rdev\<rparr>)"
    using N A(3,5) kind by (auto simp: new_file_row_def)
qed

lemma symlink_effect:
  assumes inv: "ns_inv db0" and op: "symlink_txn now p name target db0 = (Inr ino, db')"
  shows "ns_inv db'" and "emap db0 (p, name) = None" and "emap db' = (emap db0)((p, name) \<mapsto> (ino, EtSymlink))"
    and "p \<in> dirs db0" and "dirs db' = dirs db0" and "ino \<notin> dom (fmap db0)" and "map_option fi_symlink (fmap db' ino) = Some (Some target)"
proof -
  let ?f = "\<lambda>pa. (new_file_row ino p (permission_new 41471 (pm_uid (ac_perm pa)) (pm_gid (ac_perm pa))) now)
      \<lparr>fi_size := int (length target), fi_symlink := Some target\<rparr>"
  obtain db pa db1 db2 where al: "alloc_inode db0 = Inr (ino, db)" and pa: "find_access db p = Some pa"
    and s1: "insert_file (?f pa) db = Inr db1"
    and s2: "insert_content \<lparr>ct_parent = p, ct_name = name, ct_inode = ino, ct_type = EtSymlink\<rparr> db1 = Inr db2"
    and s3: "db' = update_access (pa\<lparr>ac_mtime := now\<rparr>) db2"
    using op by (auto simp: symlink_txn_def run_txn_Inr result_simps Let_def split: sum.splits if_splits)
  note A = alloc_inode_effect [OF inv al]
  obtain c where c: "counters (store_db db) INODE_ID_KEY = Some c" "inodes_below db (sint c)" "0 < ino" "ino < sint c"
    using A(6) by blast
  have wf2: "tables_wf db2" using insert_content_view(6) [OF insert_file_view(5) [OF ns_invD(1) [OF A(1)] s1] s2] .
  have "is_directory (ac_perm pa)" using tables_wfD(4) [OF ns_invD(1) [OF A(1)] find_access_Some(3) [OF pa]] .
  then have d: "is_directory (ac_perm (pa\<lparr>ac_mtime := now\<rparr>))" by simp
  note N = new_file_inv [OF A(1-4) c pa s1 s2 _ _ _ _ _ update_access_view [OF wf2 d s3]]
  show "ns_inv db'" "emap db0 (p, name) = None" "emap db' = (emap db0)((p, name) \<mapsto> (ino, EtSymlink))" "p \<in> dirs db0"
    "dirs db' = dirs db0" "ino \<notin> dom (fmap db0)" "map_option fi_symlink (fmap db' ino) = Some (Some target)"
    using N A(3,5) by (auto simp: new_file_row_def)
qed

section \<open>Removing\<close>

lemma record_trash_view:
  assumes "record_trash enc now i p n db = Inr db'"
  shows "dirs db' = dirs db" "emap db' = emap db" "fmap db' = fmap db" "links db' = links db" "tables_wf db' = tables_wf db" "store_db db' = store_db db"
  using assms by (auto simp: record_trash_def result_simps ns_view)

lemma release_link_view:
  assumes wf: "tables_wf db" and f: "fmap db (fi_inode f) = Some f" and op: "release_link enc now f p n rest db = Inr db'"
  obtains f' where "fmap db' = (fmap db)(fi_inode f \<mapsto> f')" and "released f (p, n) rest (links db) f' (links db')"
    and "dirs db' = dirs db" and "emap db' = emap db" and "tables_wf db'" and "store_db db' = store_db db"
proof -
  let ?i = "fi_inode f"
  consider (many) "fi_nlink f > 2" | (two) "fi_nlink f = 2" | (one) "fi_nlink f \<le> 1" by linarith
  then show thesis
  proof cases
    case many
    let ?f = "f\<lparr>fi_nlink := fi_nlink f - 1, fi_deleted := False, fi_mtime := now, fi_ctime := now\<rparr>"
    have db': "db' = update_file ?f (delete_link (?i, p, n) db)" using op many by (simp add: release_link_def Let_def)
    have "fmap (delete_link (?i, p, n) db) (fi_inode ?f) \<noteq> None" using f by (simp add: ns_view)
    from update_file_view [OF _ this db'] show thesis
      using wf many by (intro that [of ?f]) (simp_all add: ns_view released_def)
  next
    case two
    then obtain e where e: "rest = Some e"
      and db': "db' = update_file (f\<lparr>fi_nlink := fi_nlink f - 1, fi_deleted := False, fi_parent := ct_parent e, fi_mtime := now, fi_ctime := now\<rparr>)
         (delete_links ?i (delete_link (?i, p, n) db))"
      using op by (auto simp: release_link_def Let_def split: option.splits)
    let ?f = "f\<lparr>fi_nlink := fi_nlink f - 1, fi_deleted := False, fi_parent := ct_parent e, fi_mtime := now, fi_ctime := now\<rparr>"
    have "fmap (delete_links ?i (delete_link (?i, p, n) db)) (fi_inode ?f) \<noteq> None" using f by (simp add: ns_view)
    from update_file_view [OF _ this db'] show thesis
      using wf two e by (intro that [of ?f]) (auto simp: ns_view released_def)
  next
    case one
    let ?f = "f\<lparr>fi_deleted := True, fi_nlink := 0, fi_parent := 0, fi_mtime := now, fi_ctime := now\<rparr>"
    obtain db1 where db1: "record_trash enc now ?i p n db = Inr db1" and db': "db' = update_file ?f db1"
      using op one by (auto simp: release_link_def Let_def result_simps)
    note T = record_trash_view [OF db1]
    have "fmap db1 (fi_inode ?f) \<noteq> None" using f by (simp add: T)
    from update_file_view [OF _ this db'] show thesis
      using wf one by (intro that [of ?f]) (simp_all add: T released_def)
  qed
qed

text \<open>The other entry that a file keeps, found by inode.\<close>

lemma rest_entry_key:
  assumes wf: "tables_wf db" and row: "find (\<lambda>r. ct_inode r = i \<and> ct_key r \<noteq> k) (content_rows db) = Some e"
  shows "ct_key e \<in> ekeys (emap db) i - {k}"
proof -
  have "e \<in> set (content_rows db)" "ct_inode e = i" "ct_key e \<noteq> k" using find_SomeD [OF row] by auto
  then show ?thesis using ekeys_rows [OF tables_wfD(1) [OF wf]] by blast
qed

lemma find_filter: "find P (filter Q xs) = find (\<lambda>x. P x \<and> Q x) xs"
  by (induction xs) auto

text \<open>A file that has an entry has a positive link count.\<close>

lemma linked_pos:
  assumes ok: "ns_ok D E F L" and row: "E k = Some (i, t)" and f: "F i = Some f"
  shows "0 < fi_nlink f"
proof -
  have i: "fi_inode f = i" using ns_okD(6) [OF ok f] .
  have "k \<in> ekeys E i" using row by (rule ekeysI)
  then have "0 < card (ekeys E i)" using finite_ekeys [OF ns_okD(3) [OF ok], of i] by (auto simp: card_gt_0_iff)
  then show ?thesis using file_okD(1) [OF ns_okD(7) [OF ok f] refl] i by simp
qed

lemma released_nlink: "released f k rest L f' L' \<Longrightarrow> 0 < fi_nlink f \<Longrightarrow> fi_nlink f' = fi_nlink f - 1"
  by (auto simp: released_def split: if_splits)

lemma released_links: "released f k rest L f' L' \<Longrightarrow> L' \<subseteq> L"
  by (auto simp: released_def split: if_splits)

lemma unlink_effect:
  assumes inv: "ns_inv db" and op: "unlink enc now p n db = (Inr (), db')"
  obtains i t f f' where "emap db (p, n) = Some (i, t)" and "t \<noteq> EtDirectory" and "fmap db i = Some f"
    and "emap db' = (emap db)((p, n) := None)" and "fmap db' = (fmap db)(i \<mapsto> f')" and "dirs db' = dirs db"
    and "fi_nlink f' = fi_nlink f - 1" and "ns_inv db'"
proof -
  let ?db1 = "delete_content p n db"
  obtain e f db2 where e: "find_entry db p n = Some e" and t: "ct_type e \<noteq> EtDirectory" and f: "find_file db (ct_inode e) = Some f"
    and rel: "release_link enc now f p n (find (\<lambda>r. ct_inode r = ct_inode e) (content_rows ?db1)) ?db1 = Inr db2"
    and touch: "touch_parent (ParentNotFound p) now p db2 = Inr db'"
    using op by (auto simp: unlink_def run_txn_Inr result_simps Let_def split: if_splits)
  note wf = ns_invD(1) [OF inv] and ok = ns_invD(2) [OF inv]
  note E = find_entry_Some [OF e]
  note V1 = delete_content_view [OF wf refl, of p n]
  let ?i = "ct_inode e"
  have f: "fmap db ?i = Some f" and fi: "fi_inode f = ?i" using f ns_okD(6) [OF ok] by (simp_all add: find_file_fmap)
  have f1: "fmap ?db1 (fi_inode f) = Some f" using f fi V1(3) by simp
  obtain f' where R: "fmap db2 = (fmap ?db1)(fi_inode f \<mapsto> f')"
    "released f (p, n) (find (\<lambda>r. ct_inode r = ?i) (content_rows ?db1)) (links ?db1) f' (links db2)"
    "dirs db2 = dirs ?db1" "emap db2 = emap ?db1" "tables_wf db2" "store_db db2 = store_db ?db1"
    using V1(5) f1 rel by (rule release_link_view)
  note T = touch_parent_view [OF R(5) touch]
  have views: "dirs db' = dirs db" "emap db' = (emap db)((p, n) := None)" "fmap db' = (fmap db)(?i \<mapsto> f')" "store_db db' = store_db db"
    using R T V1 by (simp_all add: fi)
  have find_eq: "find (\<lambda>r. ct_inode r = ?i) (content_rows ?db1) = find (\<lambda>r. ct_inode r = ?i \<and> ct_key r \<noteq> (p, n)) (content_rows db)"
    by (simp add: delete_content_def find_filter ct_key_def)
  have okay: "ns_ok (dirs db') (emap db') (fmap db') (links db')"
    unfolding views T(4) using ok E(1) t f R(2) [unfolded V1(4) find_eq] rest_entry_key [OF wf] by (rule ns_drop_link)
  have sub: "links db' \<subseteq> links db" using released_links [OF R(2)] unfolding T(4) V1(4) .
  have "ns_inv db'"
  proof (rule ns_inv_step [OF inv T(5) okay views(4)])
    show "dirs db' \<subseteq> dirs db" unfolding views ..
    show "dom (fmap db') \<subseteq> dom (fmap db)" unfolding views using f by auto
    show "fst ` links db' \<subseteq> fst ` links db \<union> dirs db \<union> dom (fmap db)" using image_mono [OF sub, of fst] by (rule le_supI1 [OF le_supI1])
  qed
  then show thesis
    using released_nlink [OF R(2) linked_pos [OF ok E(1) f]] by (rule that [OF E(1) t f views(2,3,1), rotated])
qed

lemma rmdir_effect:
  assumes inv: "ns_inv db" and op: "rmdir now p n db = (Inr (), db')"
  obtains i where "emap db (p, n) = Some (i, EtDirectory)" and "\<And>m. emap db (i, m) = None"
    and "emap db' = (emap db)((p, n) := None)" and "fmap db' = fmap db" and "dirs db' = dirs db - {i}" and "ns_inv db'"
proof -
  note wf = ns_invD(1) [OF inv] and ok = ns_invD(2) [OF inv]
  obtain e where e: "find (\<lambda>r. ct_parent r = p \<and> ct_name r = n \<and> ct_type r = EtDirectory) (content_rows db) = Some e"
    and empty: "children_of db (ct_inode e) = []"
    and touch: "touch_parent (ParentNotFound p) now p (delete_content p n (delete_xattrs (ct_inode e) (delete_access (ct_inode e) db))) = Inr db'"
    using op by (auto simp: rmdir_def run_txn_Inr result_simps split: if_splits)
  let ?i = "ct_inode e"
  have row: "emap db (p, n) = Some (?i, EtDirectory)"
    using find_SomeD [OF e] emap_rows [OF tables_wfD(1) [OF wf], of "(p, n)" ?i EtDirectory] by (auto simp: ct_key_def)
  have none: "emap db (?i, m) = None" for m using children_empty [OF tables_wfD(1) [OF wf] empty] .
  note A = delete_access_view [OF wf, of ?i]
  have wf1: "tables_wf (delete_xattrs ?i (delete_access ?i db))" using A(2) by (simp add: ns_view)
  note C = delete_content_view [OF wf1 refl, of p n]
  note T = touch_parent_view [OF C(5) touch]
  have views: "dirs db' = dirs db - {?i}" "emap db' = (emap db)((p, n) := None)" "fmap db' = fmap db" "links db' = links db" "store_db db' = store_db db"
    by (simp_all add: T C A ns_view)
  have okay: "ns_ok (dirs db') (emap db') (fmap db') (links db')" unfolding views using ok row none by (rule ns_remove_dir)
  have "ns_inv db'" by (rule ns_inv_step [OF inv T(5) okay views(5)]) (auto simp: views)
  then show thesis using that [OF row none] views by blast
qed

lemma link_insert_view:
  assumes "rbind (insert_link r db) (\<lambda>db. Inr (f, db)) = Inr (f', db')"
  shows "f' = f" and "links db' = insert r (links db)" and "dirs db' = dirs db" and "emap db' = emap db" and "fmap db' = fmap db"
    and "tables_wf db' = tables_wf db" and "store_db db' = store_db db"
proof -
  obtain db1 where "insert_link r db = Inr db1" "f' = f" "db' = db1" using assms by (auto simp: result_simps)
  then show "f' = f" "links db' = insert r (links db)" "dirs db' = dirs db" "emap db' = emap db" "fmap db' = fmap db"
    "tables_wf db' = tables_wf db" "store_db db' = store_db db"
    using insert_link_view [of r db db1] by simp_all
qed

lemma link_rows_effect:
  assumes "(case orig of
      Some e \<Rightarrow> rbind (insert_link (i, fi_parent f, ct_name e) db) (\<lambda>db. rbind (insert_link (i, p, n) db) (\<lambda>db. Inr (f1\<lparr>fi_parent := 0\<rparr>, db)))
    | None \<Rightarrow> if fi_nlink f > 1 then rbind (insert_link (i, p, n) db) (\<lambda>db. Inr (f1, db)) else Inr (f1, db)) = Inr (f2, db')"
    and "orig = None \<Longrightarrow> fi_nlink f > 1"
  shows "f2 = (if orig = None then f1 else f1\<lparr>fi_parent := 0\<rparr>)
    \<and> links db' = insert (i, p, n) (links db \<union> (case orig of None \<Rightarrow> {} | Some e \<Rightarrow> {(i, fi_parent f, ct_name e)}))
    \<and> dirs db' = dirs db \<and> emap db' = emap db \<and> fmap db' = fmap db \<and> tables_wf db' = tables_wf db \<and> store_db db' = store_db db"
proof (cases orig)
  case None
  then have "rbind (insert_link (i, p, n) db) (\<lambda>db. Inr (f1, db)) = Inr (f2, db')" using assms by simp
  from link_insert_view [OF this] show ?thesis using None by simp
next
  case (Some e)
  then obtain db1 where l1: "insert_link (i, fi_parent f, ct_name e) db = Inr db1"
    and l2: "rbind (insert_link (i, p, n) db1) (\<lambda>db. Inr (f1\<lparr>fi_parent := 0\<rparr>, db)) = Inr (f2, db')"
    using assms(1) by (auto simp: result_simps)
  from insert_link_view [OF l1] link_insert_view [OF l2] show ?thesis using Some by simp
qed

lemma link_effect:
  assumes inv: "ns_inv db" and op: "link_txn now i p n db = (Inr (), db')"
    and room: "\<And>f. fmap db i = Some f \<Longrightarrow> fi_nlink f < i32_max"
  shows "ns_inv db'" and "emap db (p, n) = None" and "emap db' = (emap db)((p, n) \<mapsto> (i, EtFile))" and "p \<in> dirs db"
    and "dirs db' = dirs db" and "\<exists>f f'. fmap db i = Some f \<and> fmap db' = (fmap db)(i \<mapsto> f') \<and> fi_nlink f' = fi_nlink f + 1"
proof -
  note wf = ns_invD(1) [OF inv] and ok = ns_invD(2) [OF inv]
  obtain f pa orig db1 f2 db2 where find: "find_file db i = Some f" and pos: "0 < fi_nlink f" and pa: "find_access db p = Some pa"
    and nosym: "fi_symlink f = None"
    and orig: "(if fi_nlink f = 1 then map_sum id Some (ok_or (Internal ''ContentMeta entry not found'') (find (\<lambda>r. ct_inode r = i) (content_rows db)))
                else Inr None) = Inr orig"
    and s1: "insert_content \<lparr>ct_parent = p, ct_name = n, ct_inode = i, ct_type = EtFile\<rparr> db = Inr db1"
    and s2: "(case orig of
        Some e \<Rightarrow> rbind (insert_link (i, fi_parent f, ct_name e) db1) (\<lambda>db. rbind (insert_link (i, p, n) db) (\<lambda>db.
          Inr (f\<lparr>fi_nlink := min (fi_nlink f + 1) i32_max, fi_mtime := now, fi_ctime := now, fi_deleted := False\<rparr>\<lparr>fi_parent := 0\<rparr>, db)))
      | None \<Rightarrow> if fi_nlink f > 1 then rbind (insert_link (i, p, n) db1) (\<lambda>db.
          Inr (f\<lparr>fi_nlink := min (fi_nlink f + 1) i32_max, fi_mtime := now, fi_ctime := now, fi_deleted := False\<rparr>, db))
          else Inr (f\<lparr>fi_nlink := min (fi_nlink f + 1) i32_max, fi_mtime := now, fi_ctime := now, fi_deleted := False\<rparr>, db1)) = Inr (f2, db2)"
    and db': "db' = update_access (pa\<lparr>ac_mtime := now\<rparr>) (update_file f2 db2)"
    using op unfolding link_txn_def Let_def run_txn_Inr
    by (auto simp: result_simps not_le split: if_splits prod.splits)
  have f: "fmap db i = Some f" using find by (simp add: find_file_fmap)
  have i: "fi_inode f = i" using ns_okD(6) [OF ok f] .
  note FO = file_okD [OF ns_okD(7) [OF ok f], unfolded i, OF refl]
  have multi: "orig = None \<Longrightarrow> fi_nlink f > 1" using orig pos by (auto simp: ok_or_def split: if_splits option.splits)
  note LR = link_rows_effect [OF s2 multi]
  note V1 = insert_content_view [OF wf s1, unfolded ct_key_def, simplified]
  have links: "insert (i, p, n) (links db \<union> (case orig of None \<Rightarrow> {} | Some e \<Rightarrow> {(i, fi_parent f, ct_name e)}))
      = insert (i, p, n) (links db \<union> {i} \<times> ekeys (emap db) i)"
  proof (cases orig)
    case None
    then have "card (ekeys (emap db) i) > 1" using multi FO(1) by simp
    then have "{i} \<times> ekeys (emap db) i \<subseteq> links db" using FO(5) by auto
    then show ?thesis using None by auto
  next
    case (Some e)
    then have one: "fi_nlink f = 1" and e: "find (\<lambda>r. ct_inode r = i) (content_rows db) = Some e"
      using orig by (auto simp: ok_or_def split: if_splits option.splits)
    have "e \<in> set (content_rows db)" "ct_inode e = i" using find_SomeD [OF e] by auto
    then have "ct_key e \<in> ekeys (emap db) i" using ekeys_rows [OF tables_wfD(1) [OF wf]] by blast
    moreover have "card (ekeys (emap db) i) = 1" using FO(1) one by simp
    then obtain k where k: "ekeys (emap db) i = {k}" by (rule card_1_singletonE)
    ultimately have "ekeys (emap db) i = {(fi_parent f, ct_name e)}" using FO(3) [of k] by (auto simp: ct_key_def)
    then show ?thesis using Some by simp
  qed
  have f2: "fi_inode f2 = i" "fi_nlink f2 = fi_nlink f + 1" "\<not> fi_deleted f2"
    using LR room [OF f] i by (auto simp: min_def)
  have par: "fi_parent f2 = 0" using LR FO(4) FO(1) multi by (cases orig) auto
  have wf2: "tables_wf db2" using LR V1(6) by simp
  have "fmap db2 (fi_inode f2) \<noteq> None" using f f2(1) LR V1(4) by simp
  note V3 = update_file_view [OF wf2 this refl]
  have d: "is_directory (ac_perm (pa\<lparr>ac_mtime := now\<rparr>))" using tables_wfD(4) [OF wf find_access_Some(3) [OF pa]] by simp
  note V4 = update_access_view [OF V3(5) d db']
  have views: "dirs db' = dirs db" "emap db' = (emap db)((p, n) \<mapsto> (i, EtFile))" "fmap db' = (fmap db)(i \<mapsto> f2)"
    "links db' = insert (i, p, n) (links db \<union> {i} \<times> ekeys (emap db) i)" "store_db db' = store_db db"
    using LR V1 V3 V4 f2(1) links by simp_all
  show p: "p \<in> dirs db" using find_access_Some(1) [OF pa] .
  show free: "emap db (p, n) = None" by (rule V1(2))
  have okay: "ns_ok (dirs db') (emap db') (fmap db') (links db')"
    unfolding views(1-4) using ok f pos p free _ f2 par refl by (rule ns_add_link) simp
  show "ns_inv db'" by (rule ns_inv_step [OF inv V4(5) okay views(5)]) (use f in \<open>auto simp: views(1-4)\<close>)
  show "emap db' = (emap db)((p, n) \<mapsto> (i, EtFile))" "dirs db' = dirs db" by (rule views)+
  show "\<exists>f f'. fmap db i = Some f \<and> fmap db' = (fmap db)(i \<mapsto> f') \<and> fi_nlink f' = fi_nlink f + 1"
    using f views(3) f2(2) by blast
qed

section \<open>Trash\<close>

lemma restore_effect:
  assumes inv: "ns_inv db" and op: "restore_deleted_file now i p n db = (Inr (), db')"
  obtains f f' t where "fmap db i = Some f" and "fi_deleted f" and "t = (if fi_symlink f \<noteq> None then EtSymlink else EtFile)"
    and "emap db (p, n) = None" and "p \<in> dirs db" and "emap db' = (emap db)((p, n) \<mapsto> (i, t))" and "fmap db' = (fmap db)(i \<mapsto> f')"
    and "f' = f\<lparr>fi_deleted := False, fi_nlink := 1, fi_parent := p, fi_mtime := now\<rparr>" and "dirs db' = dirs db" and "ns_inv db'"
proof -
  note wf = ns_invD(1) [OF inv] and ok = ns_invD(2) [OF inv]
  let ?t = "\<lambda>f. if fi_symlink f \<noteq> None then EtSymlink else EtFile" and ?f' = "\<lambda>f. f\<lparr>fi_deleted := False, fi_nlink := 1, fi_parent := p, fi_mtime := now\<rparr>"
  obtain f db1 where pa: "find_access db p \<noteq> None" and f: "fmap db i = Some f" and del: "fi_deleted f" "fi_nlink f = 0"
    and s1: "insert_content \<lparr>ct_parent = p, ct_name = n, ct_inode = i, ct_type = ?t f\<rparr> db = Inr db1"
    and s2: "touch_parent (ParentNotFound p) now p ((update_file (?f' f) db1)\<lparr>xattr_rows := AList.delete (i, CONTROL_TRASH_XATTR_NAME) (xattr_rows (update_file (?f' f) db1))\<rparr>) = Inr db'"
    using op unfolding restore_deleted_file_def run_txn_Inr find_file_fmap by (auto simp: result_simps Let_def split: if_splits)
  let ?f = "?f' f"
  have i: "fi_inode f = i" using ns_okD(6) [OF ok f] .
  note V1 = insert_content_view [OF wf s1, unfolded ct_key_def, simplified]
  have "fmap db1 (fi_inode ?f) \<noteq> None" using f i V1(4) by simp
  note V2 = update_file_view [OF V1(6) this refl]
  have "tables_wf ((update_file ?f db1)\<lparr>xattr_rows := x\<rparr>)" for x using V2(5) by (simp add: tables_wf_def)
  note V3 = touch_parent_view [OF this s2]
  have views: "dirs db' = dirs db" "emap db' = (emap db)((p, n) \<mapsto> (i, ?t f))" "fmap db' = (fmap db)(i \<mapsto> ?f)" "links db' = links db" "store_db db' = store_db db"
    using V1 V2 V3 i by simp_all
  have p: "p \<in> dirs db" using pa by (simp add: ns_view)
  note FO = file_okD [OF ns_okD(7) [OF ok f], unfolded i, OF refl]
  have none: "ekeys (emap db) i = {}" using FO(2) del(1) by simp
  then have nolink: "(i, k) \<notin> links db" for k using FO(5) [of k] by simp
  have "i \<notin> dirs db" using ns_okD(2) [OF ok] f by auto
  then have okay: "ns_ok (dirs db') (emap db') (fmap db') (links db')"
    unfolding views using ns_add_entry [OF ok p V1(2) _ none nolink, of "?t f" ?f] i by simp
  have "ns_inv db'" by (rule ns_inv_step [OF inv V3(5) okay views(5)]) (use f in \<open>auto simp: views(1-4)\<close>)
  then show thesis using that [of f "?t f" ?f] f del(1) V1(2) p views by simp
qed

lemma remove_file_effect:
  assumes inv: "ns_inv db" and op: "remove_file_metadata i db = (Inr (), db')"
  obtains f where "fmap db i = Some f" and "fi_deleted f" and "emap db' = emap db" and "dirs db' = dirs db" and "fmap db' = (fmap db)(i := None)" and "ns_inv db'"
proof -
  note wf = ns_invD(1) [OF inv] and ok = ns_invD(2) [OF inv]
  obtain f where f: "fmap db i = Some f" and del: "fi_deleted f"
    and db': "db' = delete_xattrs i (db\<lparr>file_rows := filter (\<lambda>r. fi_inode r \<noteq> i) (file_rows db)\<rparr>)"
    using op unfolding remove_file_metadata_def run_txn_Inr find_file_fmap by (auto simp: result_simps split: if_splits)
  have "map (\<lambda>f. (fi_inode f, f)) (filter (\<lambda>r. fi_inode r \<noteq> i) (file_rows db)) = filter (\<lambda>x. fst x \<noteq> i) (map (\<lambda>f. (fi_inode f, f)) (file_rows db))"
    by (simp add: filter_map comp_def)
  moreover have "distinct (map fst (map (\<lambda>f. (fi_inode f, f)) (file_rows db)))" using tables_wfD(3) [OF wf] by (simp add: comp_def)
  moreover have "file_rows db' = filter (\<lambda>r. fi_inode r \<noteq> i) (file_rows db)" by (simp add: db' delete_xattrs_def)
  ultimately have F: "fmap db' = (fmap db)(i := None)" by (simp only: fmap_def map_of_filter_key)
  have views: "dirs db' = dirs db" "emap db' = emap db" "links db' = links db" "store_db db' = store_db db" by (simp_all add: db' ns_view)
  have wf': "tables_wf db'" using wf by (simp add: db' delete_xattrs_def tables_wf_def distinct_map_filter)
  note O = ns_okD [OF ok]
  have none: "ekeys (emap db) i = {}" using file_okD(2) [OF O(7) [OF f] refl] O(6) [OF f] del by simp
  have okay: "ns_ok (dirs db') (emap db') (fmap db') (links db')"
    unfolding views F
  proof (rule ns_okI)
    show "dirs db \<inter> dom ((fmap db)(i := None)) = {}" using O(2) by auto
    show "entry_ok (dirs db) ((fmap db)(i := None)) k v" if "emap db k = Some v" for k v
    proof -
      have "fst v \<noteq> i" using none ekeysI [of "emap db" k i "snd v"] that by (cases v) auto
      then show ?thesis using O(4) [OF that] by (auto simp: entry_ok_def)
    qed
    show "fi_inode f = j \<and> file_ok (emap db) (links db) f" if "((fmap db)(i := None)) j = Some f" for j f
      using that O(6,7) [of j f] by (auto split: if_splits)
  qed (use O(1,3,5,8) in blast)+
  have "ns_inv db'" by (rule ns_inv_step [OF inv wf' okay views(4)]) (auto simp: views F)
  then show thesis using that f del views F by blast
qed

end
