(* ===== verification/NamespaceRename.thy ===== *)
theory NamespaceRename
  imports NamespaceOps
begin

text \<open>
  Renaming and exchange of entries: what they do to the tree, and that the check of the ancestry of a
  moved directory is exactly what keeps the tree acyclic.
\<close>

section \<open>Replacing the destination\<close>

lemma replace_file:
  assumes inv: "ns_inv db" and ex: "find_entry db p n = Some ex" and t: "ct_type ex \<noteq> EtDirectory"
    and f: "find_file db (ct_inode ex) = Some f"
    and rel: "release_link enc now f p n (find (\<lambda>r. ct_inode r = ct_inode ex \<and> (ct_parent r \<noteq> p \<or> ct_name r \<noteq> n)) (content_rows db)) db = Inr db0"
    and db1: "db1 = delete_content p n db0"
  shows "ns_inv db1" and "emap db1 = (emap db)((p, n) := None)" and "dirs db1 = dirs db"
    and "\<And>j. j \<noteq> ct_inode ex \<Longrightarrow> fmap db1 j = fmap db j" and "dom (fmap db1) = dom (fmap db)"
proof -
  note wf = ns_invD(1) [OF inv] and ok = ns_invD(2) [OF inv] and E = find_entry_Some [OF ex]
  let ?i = "ct_inode ex" and ?rest = "find (\<lambda>r. ct_inode r = ct_inode ex \<and> (ct_parent r \<noteq> p \<or> ct_name r \<noteq> n)) (content_rows db)"
  have f: "fmap db ?i = Some f" and fi: "fi_inode f = ?i" using f ns_okD(6) [OF ok] by (simp_all add: find_file_fmap)
  have f1: "fmap db (fi_inode f) = Some f" using f fi by simp
  obtain f' where R: "fmap db0 = (fmap db)(fi_inode f \<mapsto> f')" "released f (p, n) ?rest (links db) f' (links db0)"
    "dirs db0 = dirs db" "emap db0 = emap db" "tables_wf db0" "store_db db0 = store_db db"
    using wf f1 rel by (rule release_link_view)
  note V = delete_content_view [OF R(5) db1]
  have views: "dirs db1 = dirs db" "emap db1 = (emap db)((p, n) := None)" "fmap db1 = (fmap db)(?i \<mapsto> f')"
    "links db1 = links db0" "store_db db1 = store_db db"
    using R V by (simp_all add: fi)
  have rest: "ct_key e \<in> ekeys (emap db) ?i - {(p, n)}" if "?rest = Some e" for e
  proof -
    have "e \<in> set (content_rows db)" "ct_inode e = ?i" "ct_key e \<noteq> (p, n)" using find_SomeD [OF that] by (auto simp: ct_key_def)
    then show ?thesis using ekeys_rows [OF tables_wfD(1) [OF wf]] by blast
  qed
  have okay: "ns_ok (dirs db1) (emap db1) (fmap db1) (links db1)"
    unfolding views using ok E(1) t f R(2) rest by (rule ns_drop_link)
  have sub: "links db1 \<subseteq> links db" using released_links [OF R(2)] unfolding views .
  show "ns_inv db1"
  proof (rule ns_inv_step [OF inv V(5) okay views(5)])
    show "dirs db1 \<subseteq> dirs db" unfolding views ..
    show "dom (fmap db1) \<subseteq> dom (fmap db)" unfolding views using f by auto
    show "fst ` links db1 \<subseteq> fst ` links db \<union> dirs db \<union> dom (fmap db)" using image_mono [OF sub, of fst] by (rule le_supI1 [OF le_supI1])
  qed
  show "emap db1 = (emap db)((p, n) := None)" "dirs db1 = dirs db" by (rule views)+
  show "fmap db1 j = fmap db j" if "j \<noteq> ?i" for j using that by (simp add: views)
  show "dom (fmap db1) = dom (fmap db)" using f by (auto simp: views)
qed

lemma replace_directory:
  assumes inv: "ns_inv db" and ex: "find_entry db p n = Some ex" and t: "ct_type ex = EtDirectory"
    and empty: "children_of db (ct_inode ex) = []"
    and db1: "db1 = delete_content p n (delete_xattrs (ct_inode ex) (delete_access (ct_inode ex) db))"
  shows "ns_inv db1" and "emap db1 = (emap db)((p, n) := None)" and "dirs db1 = dirs db - {ct_inode ex}"
    and "fmap db1 = fmap db" and "\<And>m. emap db (ct_inode ex, m) = None"
proof -
  note wf = ns_invD(1) [OF inv] and ok = ns_invD(2) [OF inv] and E = find_entry_Some [OF ex]
  let ?i = "ct_inode ex"
  show none: "emap db (?i, m) = None" for m using children_empty [OF tables_wfD(1) [OF wf] empty] .
  note A = delete_access_view [OF wf, of ?i]
  have wf1: "tables_wf (delete_xattrs ?i (delete_access ?i db))" using A(2) by (simp add: ns_view)
  note C = delete_content_view [OF wf1 db1]
  have views: "dirs db1 = dirs db - {?i}" "emap db1 = (emap db)((p, n) := None)" "fmap db1 = fmap db" "links db1 = links db" "store_db db1 = store_db db"
    by (simp_all add: C A ns_view)
  have "emap db (p, n) = Some (?i, EtDirectory)" using E(1) t by simp
  then have okay: "ns_ok (dirs db1) (emap db1) (fmap db1) (links db1)" unfolding views using ok none by (intro ns_remove_dir)
  show "ns_inv db1" by (rule ns_inv_step [OF inv C(5) okay views(5)]) (auto simp: views)
  show "emap db1 = (emap db)((p, n) := None)" "dirs db1 = dirs db - {?i}" "fmap db1 = fmap db" by (rule views)+
qed

text \<open>The destination of a rename is gone and everything else stays.\<close>

lemma replace_existing_effect:
  assumes inv: "ns_inv db" and ex: "find_entry db p n = Some ex" and op: "replace_existing enc now src ex db = Inr db1"
  shows "ns_inv db1" and "emap db1 = (emap db)((p, n) := None)"
    and "dirs db1 = (if ct_type ex = EtDirectory then dirs db - {ct_inode ex} else dirs db)"
    and "ct_type src = EtDirectory \<longleftrightarrow> ct_type ex = EtDirectory"
    and "j \<noteq> ct_inode ex \<Longrightarrow> fmap db1 j = fmap db j" and "dom (fmap db1) = dom (fmap db)"
    and "ct_type ex = EtDirectory \<Longrightarrow> emap db (ct_inode ex, m) = None"
proof -
  have pn: "ct_parent ex = p" "ct_name ex = n" using find_entry_Some(2,3) [OF ex] .
  have "ns_inv db1 \<and> emap db1 = (emap db)((p, n) := None)
    \<and> dirs db1 = (if ct_type ex = EtDirectory then dirs db - {ct_inode ex} else dirs db)
    \<and> (ct_type src = EtDirectory \<longleftrightarrow> ct_type ex = EtDirectory) \<and> (\<forall>j. j \<noteq> ct_inode ex \<longrightarrow> fmap db1 j = fmap db j)
    \<and> dom (fmap db1) = dom (fmap db) \<and> (\<forall>m. ct_type ex = EtDirectory \<longrightarrow> emap db (ct_inode ex, m) = None)"
  proof (cases "ct_type src = EtDirectory")
    case True
    then have d: "ct_type ex = EtDirectory" "children_of db (ct_inode ex) = []"
      "db1 = delete_content p n (delete_xattrs (ct_inode ex) (delete_access (ct_inode ex) db))"
      using op pn by (auto simp: replace_existing_def result_simps split: if_splits)
    from replace_directory [OF inv ex d] show ?thesis using True d(1) by simp
  next
    case False
    then obtain f db0 where d: "ct_type ex \<noteq> EtDirectory" "find_file db (ct_inode ex) = Some f"
      "release_link enc now f p n (find (\<lambda>r. ct_inode r = ct_inode ex \<and> (ct_parent r \<noteq> p \<or> ct_name r \<noteq> n)) (content_rows db)) db = Inr db0"
      "db1 = delete_content p n db0"
      using op pn by (auto simp: replace_existing_def result_simps split: if_splits)
    from replace_file [OF inv ex d] show ?thesis using False d(1) by simp
  qed
  then show "ns_inv db1" "emap db1 = (emap db)((p, n) := None)"
    "dirs db1 = (if ct_type ex = EtDirectory then dirs db - {ct_inode ex} else dirs db)"
    "ct_type src = EtDirectory \<longleftrightarrow> ct_type ex = EtDirectory"
    "j \<noteq> ct_inode ex \<Longrightarrow> fmap db1 j = fmap db j" "dom (fmap db1) = dom (fmap db)"
    "ct_type ex = EtDirectory \<Longrightarrow> emap db (ct_inode ex, m) = None" by blast+
qed

section \<open>Moving an entry\<close>

text \<open>The bookkeeping after the entry has moved: the part of \<^verbatim>\<open>move_entry\<close> that follows the two table updates.\<close>

definition relink :: "int \<Rightarrow> int \<Rightarrow> int \<times> string \<Rightarrow> int \<Rightarrow> string \<Rightarrow> int \<Rightarrow> file_row option \<Rightarrow> meta_db \<Rightarrow> meta_error + meta_db" where
  "relink now i k q n nlink file db =
     (if nlink > 1 then insert_link (i, q, n) (delete_link (i, k) db)
      else case file of
             Some f \<Rightarrow> if nlink = 1 then Inr (update_file (f\<lparr>fi_parent := q, fi_mtime := now\<rparr>) db) else Inr db
           | None \<Rightarrow> Inr db)"

lemma move_entry_relink:
  "move_entry now src nlink file q n db =
     rbind (insert_content \<lparr>ct_parent = q, ct_name = n, ct_inode = ct_inode src, ct_type = ct_type src\<rparr>
              (delete_content (ct_parent src) (ct_name src) db)) (relink now (ct_inode src) (ct_key src) q n nlink file)"
  by (simp add: move_entry_def relink_def [abs_def] ct_key_def)

lemma relink_links:
  assumes "insert_link (i, q, n) (delete_link (i, k) db) = Inr db'"
  shows "links db' = insert (i, q, n) (links db - {(i, k)})" and "fst ` links db' \<subseteq> insert i (fst ` links db)"
    and "dirs db' = dirs db" and "emap db' = emap db" and "fmap db' = fmap db" and "tables_wf db' = tables_wf db" and "store_db db' = store_db db"
proof -
  note I = insert_link_view [OF assms]
  show L: "links db' = insert (i, q, n) (links db - {(i, k)})" using I(1) by (simp add: ns_view)
  show "fst ` links db' \<subseteq> insert i (fst ` links db)" unfolding L by auto
qed (use insert_link_view [OF assms] in \<open>simp_all add: ns_view\<close>)

lemma relink_directory:
  assumes ok: "ns_ok (dirs db) E F L" and d: "i \<in> dirs db" and wf: "tables_wf db" and L: "links db = L"
    and op: "relink now i k q n nlink None db = Inr db'"
  shows "ns_ok (dirs db) E F (links db')" and "fmap db' = fmap db" and "dirs db' = dirs db" and "emap db' = emap db" and "tables_wf db'"
    and "store_db db' = store_db db" and "fst ` links db' \<subseteq> insert i (fst ` links db)"
proof -
  have "ns_ok (dirs db) E F (links db') \<and> fmap db' = fmap db \<and> dirs db' = dirs db \<and> emap db' = emap db \<and> tables_wf db'
    \<and> store_db db' = store_db db \<and> fst ` links db' \<subseteq> insert i (fst ` links db)"
  proof (cases "nlink > 1")
    case True
    then have l: "insert_link (i, q, n) (delete_link (i, k) db) = Inr db'" using op by (simp add: relink_def)
    note I = relink_links [OF l]
    have "ns_ok (dirs db) E F (links db')" using ok d by (rule ns_dir_links) (auto simp: I(1) L)
    then show ?thesis using I wf by simp
  next
    case False
    then have "db' = db" using op by (simp add: relink_def)
    then show ?thesis using ok wf L by auto
  qed
  then show "ns_ok (dirs db) E F (links db')" "fmap db' = fmap db" "dirs db' = dirs db" "emap db' = emap db" "tables_wf db'"
    "store_db db' = store_db db" "fst ` links db' \<subseteq> insert i (fst ` links db)" by blast+
qed

lemma relink_file:
  assumes wf: "tables_wf db" and f: "fmap db i = Some f" and fi: "fi_inode f = i" and pos: "0 < fi_nlink f"
    and op: "relink now i k q n (fi_nlink f) (Some f) db = Inr db'"
  obtains f' where "fmap db' = (fmap db)(i \<mapsto> f')" and "moved f k (q, n) (links db) f' (links db')" and "dirs db' = dirs db"
    and "emap db' = emap db" and "tables_wf db'" and "store_db db' = store_db db" and "fst ` links db' \<subseteq> insert i (fst ` links db)"
    and "\<And>j x. j \<noteq> i \<Longrightarrow> (j, x) \<in> links db' \<longleftrightarrow> (j, x) \<in> links db"
proof (cases "fi_nlink f > 1")
  case True
  then have l: "insert_link (i, q, n) (delete_link (i, k) db) = Inr db'" using op by (simp add: relink_def)
  note I = relink_links [OF l]
  have "moved f k (q, n) (links db) f (links db')" using True fi by (auto simp: moved_def I(1))
  moreover have "fmap db' = (fmap db)(i \<mapsto> f)" using f I(5) by auto
  moreover have "(j, x) \<in> links db' \<longleftrightarrow> (j, x) \<in> links db" if "j \<noteq> i" for j x using that by (auto simp: I(1))
  ultimately show thesis using I wf by (intro that [of f]) simp_all
next
  case False
  let ?f = "f\<lparr>fi_parent := q, fi_mtime := now\<rparr>"
  have one: "fi_nlink f = 1" using pos False by simp
  then have db': "db' = update_file ?f db" using op by (simp add: relink_def)
  have "fmap db (fi_inode ?f) \<noteq> None" using f fi by simp
  note U = update_file_view [OF wf this db']
  have "moved f k (q, n) (links db) ?f (links db')" using one by (auto simp: moved_def U(4))
  then show thesis using U fi by (intro that [of ?f]) (auto simp: U(4))
qed

lemma move_entry_effect:
  assumes inv: "ns_inv db" and row: "emap db k = Some (i, t)" and src: "ct_key src = k" "ct_inode src = i" "ct_type src = t"
    and free: "emap db (q, n) = None" and q: "q \<in> dirs db" and sane: "t = EtDirectory \<Longrightarrow> \<not> under (emap db) i q"
    and nl: "\<And>f. fmap db i = Some f \<Longrightarrow> nlink = fi_nlink f" and op: "move_entry now src nlink (fmap db i) q n db = Inr db'"
  shows "ns_inv db'" and "emap db' = (emap db)(k := None, (q, n) \<mapsto> (i, t))" and "dirs db' = dirs db" and "dom (fmap db') = dom (fmap db)"
proof -
  note wf = ns_invD(1) [OF inv] and ok = ns_invD(2) [OF inv]
  obtain db2 where s1: "insert_content \<lparr>ct_parent = q, ct_name = n, ct_inode = i, ct_type = t\<rparr> (delete_content (ct_parent src) (ct_name src) db) = Inr db2"
    and s2: "relink now i k q n nlink (fmap db i) db2 = Inr db'"
    using op src by (auto simp: move_entry_relink result_simps)
  note V1 = delete_content_view [OF wf refl, of "ct_parent src" "ct_name src", folded ct_key_def, unfolded src(1)]
  note V2 = insert_content_view [OF V1(5) s1, unfolded ct_key_def, simplified]
  let ?E = "(emap db)(k := None, (q, n) \<mapsto> (i, t))"
  have v2: "dirs db2 = dirs db" "emap db2 = ?E" "fmap db2 = fmap db" "links db2 = links db" "store_db db2 = store_db db"
    using V1 V2 by simp_all
  have all: "dirs db' = dirs db \<and> emap db' = ?E \<and> dom (fmap db') = dom (fmap db) \<and> store_db db' = store_db db \<and> tables_wf db'
    \<and> ns_ok (dirs db) ?E (fmap db') (links db') \<and> fst ` links db' \<subseteq> insert i (fst ` links db)"
  proof (cases "t = EtDirectory")
    case True
    have dir: "i \<in> dirs db" using ekeys_dir(2) [OF ok, of k i] row True by simp
    then have "fmap db i = None" using ns_okD(2) [OF ok] by auto
    then have s2: "relink now i k q n nlink None db2 = Inr db'" using s2 by simp
    have "ns_ok (dirs db) ?E (fmap db) (links db)"
      unfolding True by (rule ns_move_dir [OF ok _ free q sane [OF True]]) (use row True in simp)
    then have "ns_ok (dirs db2) ?E (fmap db) (links db)" by (simp add: v2)
    from relink_directory [OF this _ V2(6) v2(4) s2] show ?thesis using dir by (simp add: v2)
  next
    case False
    then have "i \<in> dom (fmap db)" using ekeys_file(1) [OF ok row] by simp
    then obtain f where f: "fmap db i = Some f" by blast
    have "relink now i k q n (fi_nlink f) (Some f) db2 = Inr db'" using s2 nl [OF f] f by simp
    moreover have "fmap db2 i = Some f" using f v2 by simp
    ultimately obtain f' where
      R: "fmap db' = (fmap db2)(i \<mapsto> f')" "moved f k (q, n) (links db2) f' (links db')" "dirs db' = dirs db2" "emap db' = emap db2" "tables_wf db'"
        "store_db db' = store_db db2" "fst ` links db' \<subseteq> insert i (fst ` links db2)" "\<And>j x. j \<noteq> i \<Longrightarrow> (j, x) \<in> links db' \<longleftrightarrow> (j, x) \<in> links db2"
      using relink_file [OF V2(6) _ ns_okD(6) [OF ok f] linked_pos [OF ok row f]] by blast
    have "ns_ok (dirs db) ?E ((fmap db)(i \<mapsto> f')) (links db')"
      by (rule ns_move_file [OF ok row False f free q R(2) [unfolded v2]]) (use R(8) v2 in simp)
    moreover have "dom ((fmap db)(i \<mapsto> f')) = dom (fmap db)" using f by auto
    ultimately show ?thesis using R(1,3-7) by (simp add: v2)
  qed
  have "i \<in> dirs db \<or> i \<in> dom (fmap db)" using ns_okD(4) [OF ok row] by (auto simp: entry_ok_def split: if_splits)
  then have "fst ` links db' \<subseteq> fst ` links db \<union> dirs db \<union> dom (fmap db)" using all by blast
  then show "ns_inv db'" using inv all by (intro ns_inv_step [of db db']) simp_all
  show "emap db' = ?E" "dirs db' = dirs db" "dom (fmap db') = dom (fmap db)" using all by simp_all
qed

lemma touch_parents_view:
  assumes wf: "tables_wf db" and op: "touch_parents e now p q db = Inr db'"
  shows "dirs db' = dirs db" and "emap db' = emap db" and "fmap db' = fmap db" and "links db' = links db" and "tables_wf db'" and "store_db db' = store_db db"
proof -
  obtain db1 where t1: "touch_parent (ParentNotFound p) now p db = Inr db1" and t2: "(if p \<noteq> q then touch_parent e now q db1 else Inr db1) = Inr db'"
    using op by (auto simp: touch_parents_def result_simps)
  note T = touch_parent_view [OF wf t1]
  have "dirs db' = dirs db1 \<and> emap db' = emap db1 \<and> fmap db' = fmap db1 \<and> links db' = links db1 \<and> tables_wf db' \<and> store_db db' = store_db db1"
    using t2 touch_parent_view [OF T(5)] T(5) by (auto split: if_splits)
  then show "dirs db' = dirs db" "emap db' = emap db" "fmap db' = fmap db" "links db' = links db" "tables_wf db'" "store_db db' = store_db db"
    using T by simp_all
qed

lemma touch_parents_inv:
  assumes inv: "ns_inv db" and op: "touch_parents e now p q db = Inr db'"
  shows "ns_inv db'"
proof -
  note T = touch_parents_view [OF ns_invD(1) [OF inv] op]
  have "ns_ok (dirs db') (emap db') (fmap db') (links db')" using ns_invD(2) [OF inv] by (simp add: T)
  then show ?thesis by (rule ns_inv_step [OF inv T(5) _ T(6)]) (auto simp: T)
qed

section \<open>Rename\<close>

lemma validated_move:
  assumes inv: "ns_inv db" and q: "q \<in> dirs db" and val: "validate_entry_move db e q = Inr ()" and d: "ct_type e = EtDirectory"
  shows "\<not> under (emap db) (ct_inode e) q"
  using val d validate_directory_move_iff [OF ns_invD(1,2) [OF inv] q, of "{}" "ct_inode e"]
  by (auto simp: validate_entry_move_def split: if_splits)

text \<open>The source entry of a rename, once the guards are passed.\<close>

definition rename_ready :: "meta_db \<Rightarrow> int \<Rightarrow> string \<Rightarrow> int \<Rightarrow> content_row \<Rightarrow> int \<Rightarrow> bool" where
  "rename_ready db p n q src nlink \<longleftrightarrow> q \<in> dirs db \<and> ct_key src = (p, n) \<and> emap db (p, n) = Some (ct_inode src, ct_type src)
     \<and> (ct_type src = EtDirectory \<longrightarrow> \<not> under (emap db) (ct_inode src) q)
     \<and> (\<forall>f. fmap db (ct_inode src) = Some f \<longrightarrow> nlink = fi_nlink f)"

lemma rename_guards:
  assumes inv: "ns_inv db" and op: "rename_with_mode enc now p n q m noreplace db = (Inr out, db')"
  obtains src nlink where "rename_ready db p n q src nlink" and "noreplace \<longrightarrow> find_entry db q m = None"
    and "rename_apply enc now src nlink (fmap db (ct_inode src)) p q m (find_entry db q m) db = Inr (out, db')"
proof -
  obtain src nlink where q: "find_access db q \<noteq> None" and src: "find_entry db p n = Some src"
    and val: "validate_entry_move db src q = Inr ()"
    and nl: "(case fmap db (ct_inode src) of Some f \<Rightarrow> Inr (fi_nlink f)
      | None \<Rightarrow> ok_or (NotFound (ct_inode src)) (map_option ac_nlink (find_access db (ct_inode src)))) = Inr nlink"
    and nr: "noreplace \<longrightarrow> find_entry db q m = None"
    and rest: "rename_apply enc now src nlink (fmap db (ct_inode src)) p q m (find_entry db q m) db = Inr (out, db')"
    using op unfolding rename_with_mode_def run_txn_Inr rbind_Inr_iff ok_or_Inr_iff file_type_of_entry_dir find_file_fmap
    by (auto simp: result_simps split: if_splits)
  have q: "q \<in> dirs db" using q by (simp add: ns_view)
  have "\<not> under (emap db) (ct_inode src) q" if "ct_type src = EtDirectory" using inv q val that by (rule validated_move)
  then have "rename_ready db p n q src nlink" using q find_entry_Some(1,4) [OF src] nl by (auto simp: rename_ready_def)
  then show thesis using nr rest by (rule that)
qed

lemma rename_move_fresh:
  assumes inv: "ns_inv db" and ready: "rename_ready db p n q src nlink" and free: "emap db (q, m) = None"
    and mv: "move_entry now src nlink (fmap db (ct_inode src)) q m db = Inr db2" and touch: "touch_parents e now p q db2 = Inr db'"
  shows "ns_inv db'" and "emap db' = (emap db)((p, n) := None, (q, m) \<mapsto> (ct_inode src, ct_type src))"
    and "dirs db' = dirs db" and "dom (fmap db') = dom (fmap db)"
proof -
  have r: "q \<in> dirs db" "ct_key src = (p, n)" "emap db (p, n) = Some (ct_inode src, ct_type src)" "ct_type src = EtDirectory \<Longrightarrow> \<not> under (emap db) (ct_inode src) q"
    "\<And>f. fmap db (ct_inode src) = Some f \<Longrightarrow> nlink = fi_nlink f"
    using ready by (auto simp: rename_ready_def)
  note M = move_entry_effect [OF inv r(3,2) refl refl free r(1) r(4) r(5) mv]
  note T = touch_parents_view [OF ns_invD(1) [OF M(1)] touch]
  show "ns_inv db'" using touch_parents_inv [OF M(1) touch] .
  show "emap db' = (emap db)((p, n) := None, (q, m) \<mapsto> (ct_inode src, ct_type src))"
    "dirs db' = dirs db" "dom (fmap db') = dom (fmap db)" using M T by simp_all
qed

lemma rename_ready_replaced:
  assumes inv: "ns_inv db" and ready: "rename_ready db p n q src nlink" and ex: "find_entry db q m = Some ex"
    and ne: "ct_inode ex \<noteq> ct_inode src" and rep: "replace_existing enc now src ex db = Inr db1"
  shows "rename_ready db1 p n q src nlink" and "(p, n) \<noteq> (q, m)"
proof -
  have r: "q \<in> dirs db" "ct_key src = (p, n)" "emap db (p, n) = Some (ct_inode src, ct_type src)" "ct_type src = EtDirectory \<Longrightarrow> \<not> under (emap db) (ct_inode src) q"
    "\<And>f. fmap db (ct_inode src) = Some f \<Longrightarrow> nlink = fi_nlink f"
    using ready by (auto simp: rename_ready_def)
  note R = replace_existing_effect [OF inv ex rep]
  have ne': "(p, n) \<noteq> (q, m)" using r(3) find_entry_Some(1) [OF ex] ne by auto
  have "q \<in> dirs db1" using r(1) R(3) R(7) [of m] find_entry_Some(1) [OF ex] by auto
  moreover have "emap db1 (p, n) = Some (ct_inode src, ct_type src)" unfolding R(2) using r(3) ne' by simp
  moreover have "\<not> under (emap db1) (ct_inode src) q" if d: "ct_type src = EtDirectory"
  proof
    assume "under (emap db1) (ct_inode src) q"
    then have "under (emap db) (ct_inode src) q" by (rule under_mono) (auto simp: R(2) split: if_splits)
    then show False using r(4) [OF d] by blast
  qed
  moreover have "nlink = fi_nlink f" if "fmap db1 (ct_inode src) = Some f" for f using that r(5) R(5) [of "ct_inode src"] ne by simp
  ultimately show "rename_ready db1 p n q src nlink" using r(2) by (auto simp: rename_ready_def)
  show "(p, n) \<noteq> (q, m)" by (rule ne')
qed

text \<open>What becomes of an entry at the destination: nothing is there, or an inode of the same sort that is
  taken away, an empty directory if it is one.\<close>

definition replaced_ok :: "int \<Rightarrow> entry_type \<Rightarrow> (int \<times> entry_type) option \<Rightarrow> entries \<Rightarrow> int set \<Rightarrow> int set \<Rightarrow> bool" where
  "replaced_ok i t old E D D' \<longleftrightarrow> (case old of
       None \<Rightarrow> D' = D
     | Some (j, tj) \<Rightarrow> j \<noteq> i \<and> (t = EtDirectory \<longleftrightarrow> tj = EtDirectory)
         \<and> (if tj = EtDirectory then D' = D - {j} \<and> (\<forall>x. E (j, x) = None) else D' = D))"

text \<open>
  A successful rename moves the entry: either the destination already names the same inode and
  nothing changes, or the source entry is gone and the destination names its inode.
\<close>

lemma rename_applied:
  assumes inv: "ns_inv db" and ready: "rename_ready db p n q src nlink"
    and app: "rename_apply enc now src nlink (fmap db (ct_inode src)) p q m (find_entry db q m) db = Inr (out, db')"
  shows "ns_inv db' \<and> ro_ino out = ct_inode src
    \<and> (if ro_renamed out then emap db' = (emap db)((p, n) := None, (q, m) \<mapsto> (ct_inode src, ct_type src))
         \<and> replaced_ok (ct_inode src) (ct_type src) (emap db (q, m)) (emap db) (dirs db) (dirs db')
       else db' = db \<and> (\<exists>t'. emap db (q, m) = Some (ct_inode src, t')))"
proof (cases "find_entry db q m")
  case None
  obtain db2 where s: "move_entry now src nlink (fmap db (ct_inode src)) q m db = Inr db2" "touch_parents (NotFound q) now p q db2 = Inr db'"
    "ro_ino out = ct_inode src" "ro_renamed out"
    using app None by (auto simp: rename_apply_def result_simps)
  have free: "emap db (q, m) = None" using None by (simp add: ns_view)
  from rename_move_fresh [OF inv ready free s(1,2)] show ?thesis using s(3,4) free by (simp add: replaced_ok_def)
next
  case (Some ex)
  show ?thesis
  proof (cases "ct_inode ex = ct_inode src")
    case True
    then have "db' = db" "ro_ino out = ct_inode src" "\<not> ro_renamed out" using app Some by (auto simp: rename_apply_def)
    then show ?thesis using inv find_entry_Some(1) [OF Some] True by simp
  next
    case False
    then obtain db1 db2 where s: "replace_existing enc now src ex db = Inr db1"
      "move_entry now src nlink (fmap db (ct_inode src)) q m db1 = Inr db2" "touch_parents (NotFound q) now p q db2 = Inr db'"
      "ro_ino out = ct_inode src" "ro_renamed out"
      using app Some by (auto simp: rename_apply_def result_simps)
    note R = replace_existing_effect [OF inv Some s(1)]
    note ready' = rename_ready_replaced [OF inv ready Some False s(1)]
    have free: "emap db1 (q, m) = None" by (simp add: R(2))
    have same: "fmap db (ct_inode src) = fmap db1 (ct_inode src)" using R(5) [of "ct_inode src"] False by simp
    note M = rename_move_fresh [OF R(1) ready'(1) free s(2) [unfolded same] s(3)]
    have E: "emap db' = (emap db)((p, n) := None, (q, m) \<mapsto> (ct_inode src, ct_type src))" unfolding M(2) R(2) by (rule ext) simp
    have "replaced_ok (ct_inode src) (ct_type src) (emap db (q, m)) (emap db) (dirs db) (dirs db')"
      using False R(3,4,7) M(3) find_entry_Some(1) [OF Some] by (simp add: replaced_ok_def)
    then show ?thesis using M(1) s(4,5) E by simp
  qed
qed

lemma rename_effect:
  assumes inv: "ns_inv db" and op: "rename_with_mode enc now p n q m noreplace db = (Inr out, db')"
  shows "ns_inv db'" and "\<exists>t. emap db (p, n) = Some (ro_ino out, t) \<and> q \<in> dirs db \<and> (t = EtDirectory \<longrightarrow> \<not> under (emap db) (ro_ino out) q)
      \<and> (if ro_renamed out then emap db' = (emap db)((p, n) := None, (q, m) \<mapsto> (ro_ino out, t))
           \<and> replaced_ok (ro_ino out) t (emap db (q, m)) (emap db) (dirs db) (dirs db')
         else db' = db \<and> (\<exists>t'. emap db (q, m) = Some (ro_ino out, t')))"
    and "noreplace \<Longrightarrow> emap db (q, m) = None"
proof -
  obtain src nlink where ready: "rename_ready db p n q src nlink" and nr: "noreplace \<longrightarrow> find_entry db q m = None"
    and app: "rename_apply enc now src nlink (fmap db (ct_inode src)) p q m (find_entry db q m) db = Inr (out, db')"
    using inv op by (rule rename_guards)
  show "noreplace \<Longrightarrow> emap db (q, m) = None" using nr by (simp add: ns_view)
  have r: "emap db (p, n) = Some (ct_inode src, ct_type src)" "q \<in> dirs db" "ct_type src = EtDirectory \<longrightarrow> \<not> under (emap db) (ct_inode src) q"
    using ready by (auto simp: rename_ready_def)
  note A = rename_applied [OF inv ready app]
  show "ns_inv db'" using A by blast
  have ro: "ro_ino out = ct_inode src" using A by blast
  show "\<exists>t. emap db (p, n) = Some (ro_ino out, t) \<and> q \<in> dirs db \<and> (t = EtDirectory \<longrightarrow> \<not> under (emap db) (ro_ino out) q)
      \<and> (if ro_renamed out then emap db' = (emap db)((p, n) := None, (q, m) \<mapsto> (ro_ino out, t))
           \<and> replaced_ok (ro_ino out) t (emap db (q, m)) (emap db) (dirs db) (dirs db')
         else db' = db \<and> (\<exists>t'. emap db (q, m) = Some (ro_ino out, t')))"
    unfolding ro by (rule exI [of _ "ct_type src"]) (use A r in simp)
qed

section \<open>Exchange\<close>

lemma moved_cong:
  assumes "moved f k k' L f' L'" and "\<And>x. (fi_inode f, x) \<in> M \<longleftrightarrow> (fi_inode f, x) \<in> L" and "\<And>x. (fi_inode f, x) \<in> M' \<longleftrightarrow> (fi_inode f, x) \<in> L'"
  shows "moved f k k' M f' M'"
  using assms unfolding moved_def by simp

text \<open>One side: a directory needs nothing, a file is relinked.\<close>

lemma exchange_side:
  assumes wf: "tables_wf db" and f: "\<And>f. fo = Some f \<Longrightarrow> fmap db i = Some f \<and> fi_inode f = i \<and> 0 < fi_nlink f"
    and op: "exchange_file now fo p n q m db = Inr db'"
  obtains g where "fmap db' = (if fo = None then fmap db else (fmap db)(i \<mapsto> g))" and "\<And>f. fo = Some f \<Longrightarrow> moved f (p, n) (q, m) (links db) g (links db')"
    and "dirs db' = dirs db" and "emap db' = emap db" and "tables_wf db'" and "store_db db' = store_db db"
    and "fst ` links db' \<subseteq> insert i (fst ` links db)" and "\<And>j x. j \<noteq> i \<Longrightarrow> (j, x) \<in> links db' \<longleftrightarrow> (j, x) \<in> links db"
proof (cases fo)
  case None
  then have "db' = db" using op by (simp add: exchange_file_def)
  then show thesis using None wf by (intro that) auto
next
  case (Some f0)
  note f0 = f [OF Some]
  have "relink now i (p, n) q m (fi_nlink f0) (Some f0) db = Inr db'"
    using op Some f0 by (auto simp: exchange_file_def relink_def split: if_splits)
  then obtain g where g: "fmap db' = (fmap db)(i \<mapsto> g)" "moved f0 (p, n) (q, m) (links db) g (links db')" "dirs db' = dirs db"
    "emap db' = emap db" "tables_wf db'" "store_db db' = store_db db" "fst ` links db' \<subseteq> insert i (fst ` links db)"
    "\<And>j x. j \<noteq> i \<Longrightarrow> (j, x) \<in> links db' \<longleftrightarrow> (j, x) \<in> links db"
    using relink_file [OF wf, of i f0] f0 by blast
  show thesis using g Some by (intro that [of g]) simp_all
qed

lemma swap_files_ok:
  assumes ok: "ns_ok D E F L" and a: "E ka = Some (a, ta)" and b: "E kb = Some (b, tb)" and ne: "a \<noteq> b"
    and E': "E' = E(ka \<mapsto> (b, tb), kb \<mapsto> (a, ta))"
    and A: "\<And>f. F a = Some f \<Longrightarrow> \<exists>g. F' a = Some g \<and> moved f ka kb L g L'" and B: "\<And>f. F b = Some f \<Longrightarrow> \<exists>g. F' b = Some g \<and> moved f kb ka L g L'"
    and dom: "dom F' = dom F" and same: "\<And>j. j \<noteq> a \<Longrightarrow> j \<noteq> b \<Longrightarrow> F' j = F j"
    and rows: "\<And>j x. j \<noteq> a \<Longrightarrow> j \<noteq> b \<Longrightarrow> (j, x) \<in> L' \<longleftrightarrow> (j, x) \<in> L" and g: "F' j = Some g"
  shows "fi_inode g = j \<and> file_ok E' L' g"
proof -
  note O = ns_okD [OF ok] and keys = ekeys_swap [of E ka a ta kb b tb, OF a b ne, folded E']
  have step: "fi_inode g = i \<and> file_ok E' L' g"
    if f: "F i = Some f" and k: "E k = Some (i, t)" and k': "k' \<notin> ekeys E i" and keys': "ekeys E' i = insert k' (ekeys E i - {k})"
      and mv: "moved f k k' L g L'" for i f k k' t
  proof -
    have i: "fi_inode f = i" using O(6) [OF f] .
    have "file_ok E' L' g" by (rule moved_file_ok [OF O(7) [OF f] O(3) i ekeysI [of E k i t, OF k] k' keys' mv])
    then show ?thesis using mv i by (simp add: moved_def)
  qed
  obtain f where f: "F j = Some f" using dom g by blast
  consider "j = a" | "j = b" | "j \<noteq> a" "j \<noteq> b" by blast
  then show ?thesis
  proof cases
    case 1
    then have "moved f ka kb L g L'" using A f g by auto
    moreover have "kb \<notin> ekeys E a" using b ne by (auto simp: ekeys_def)
    ultimately show ?thesis using step [of a f ka ta kb] f a keys [of a] 1 by simp
  next
    case 2
    then have "moved f kb ka L g L'" using B f g by auto
    moreover have "ka \<notin> ekeys E b" using a ne by (auto simp: ekeys_def)
    ultimately show ?thesis using step [of b f kb tb ka] f b keys [of b] ne 2 by simp
  next
    case 3
    then have F: "F j = Some g" using same g by simp
    have "file_ok E' L' g = file_ok E L g" using O(6) [OF F] 3 by (intro file_ok_cong) (simp_all add: keys rows)
    then show ?thesis using O(6,7) [OF F] by simp
  qed
qed

lemma exchange_rows:
  assumes wf: "tables_wf db" and ne: "(p, n) \<noteq> (q, m)"
    and s1: "insert_content \<lparr>ct_parent = p, ct_name = n, ct_inode = b, ct_type = tb\<rparr> (delete_content q m (delete_content p n db)) = Inr db1"
    and s2: "insert_content \<lparr>ct_parent = q, ct_name = m, ct_inode = a, ct_type = ta\<rparr> db1 = Inr db2"
  shows "emap db2 = (emap db)((p, n) \<mapsto> (b, tb), (q, m) \<mapsto> (a, ta))" and "dirs db2 = dirs db" and "fmap db2 = fmap db" and "links db2 = links db"
    and "tables_wf db2" and "store_db db2 = store_db db"
proof -
  note D1 = delete_content_view [OF wf refl, of p n]
  note D2 = delete_content_view [OF D1(5) refl, of q m]
  note I1 = insert_content_view [OF D2(5) s1, unfolded ct_key_def, simplified]
  note I2 = insert_content_view [OF I1(6) s2, unfolded ct_key_def, simplified]
  have "(emap db)((p, n) := None, (q, m) := None, (p, n) \<mapsto> (b, tb), (q, m) \<mapsto> (a, ta)) = (emap db)((p, n) \<mapsto> (b, tb), (q, m) \<mapsto> (a, ta))"
    by (rule ext) simp
  then show "emap db2 = (emap db)((p, n) \<mapsto> (b, tb), (q, m) \<mapsto> (a, ta))" by (simp add: I1 I2 D1 D2)
  show "dirs db2 = dirs db" "fmap db2 = fmap db" "links db2 = links db" "tables_wf db2" "store_db db2 = store_db db"
    using I1 I2 D1 D2 by simp_all
qed

lemma side_file_Inr [result_simps]:
  "side_file db e = Inr x \<longleftrightarrow> x = (if ct_type e = EtDirectory then None else fmap db (ct_inode e)) \<and> (ct_type e \<noteq> EtDirectory \<longrightarrow> x \<noteq> None)"
  by (cases "fmap db (ct_inode e)") (auto simp: side_file_def find_file_fmap)

lemma side_file_live:
  assumes ok: "ns_ok (dirs db) (emap db) (fmap db) (links db)" and e: "find_entry db p n = Some e" and s: "side_file db e = Inr (Some f)"
  shows "fmap db (ct_inode e) = Some f \<and> fi_inode f = ct_inode e \<and> 0 < fi_nlink f"
proof -
  have f: "fmap db (ct_inode e) = Some f" using s by (auto simp: result_simps split: if_splits)
  then show ?thesis using ns_okD(6) [OF ok f] linked_pos [OF ok find_entry_Some(1) [OF e] f] by simp
qed

lemma exchange_guards:
  assumes op: "rename_exchange now p n q m db = (Inr (), db')" and ch: "db' \<noteq> db"
  obtains a b fa fb db1 db2 db3 db4 where "(p, n) \<noteq> (q, m)" and "find_entry db p n = Some a" and "find_entry db q m = Some b"
    and "ct_inode a \<noteq> ct_inode b" and "validate_entry_move db a q = Inr ()" and "validate_entry_move db b p = Inr ()"
    and "side_file db a = Inr fa" and "side_file db b = Inr fb"
    and "insert_content \<lparr>ct_parent = p, ct_name = n, ct_inode = ct_inode b, ct_type = ct_type b\<rparr> (delete_content q m (delete_content p n db)) = Inr db1"
    and "insert_content \<lparr>ct_parent = q, ct_name = m, ct_inode = ct_inode a, ct_type = ct_type a\<rparr> db1 = Inr db2"
    and "exchange_file now fa p n q m db2 = Inr db3" and "exchange_file now fb q m p n db3 = Inr db4"
    and "touch_parents (ParentNotFound q) now p q db4 = Inr db'"
  using op ch unfolding rename_exchange_def by (auto simp: run_txn_Inr rbind_Inr_iff ok_or_Inr_iff split: if_splits)

text \<open>Both sides together: the state before the parents are touched.\<close>

lemma exchange_sides:
  assumes ok: "ns_ok (dirs db) (emap db) (fmap db) (links db)" and a: "find_entry db p n = Some a" and b: "find_entry db q m = Some b"
    and ab: "ct_inode a \<noteq> ct_inode b" and fa: "side_file db a = Inr fa" and fb: "side_file db b = Inr fb"
    and X: "fmap db2 = fmap db" "links db2 = links db" "tables_wf db2" and s3: "exchange_file now fa p n q m db2 = Inr db3"
    and s4: "exchange_file now fb q m p n db3 = Inr db4"
  shows "dirs db4 = dirs db2 \<and> emap db4 = emap db2 \<and> tables_wf db4 \<and> store_db db4 = store_db db2 \<and> dom (fmap db4) = dom (fmap db)"
    and "fst ` links db4 \<subseteq> insert (ct_inode a) (insert (ct_inode b) (fst ` links db))"
    and "fmap db (ct_inode a) = Some f \<Longrightarrow> \<exists>g. fmap db4 (ct_inode a) = Some g \<and> moved f (p, n) (q, m) (links db) g (links db4)"
    and "fmap db (ct_inode b) = Some f \<Longrightarrow> \<exists>g. fmap db4 (ct_inode b) = Some g \<and> moved f (q, m) (p, n) (links db) g (links db4)"
    and "j \<noteq> ct_inode a \<Longrightarrow> j \<noteq> ct_inode b \<Longrightarrow> fmap db4 j = fmap db j"
    and "j \<noteq> ct_inode a \<Longrightarrow> j \<noteq> ct_inode b \<Longrightarrow> (j, x) \<in> links db4 \<longleftrightarrow> (j, x) \<in> links db"
proof -
  let ?a = "ct_inode a" and ?b = "ct_inode b"
  have La: "fmap db2 ?a = Some f \<and> fi_inode f = ?a \<and> 0 < fi_nlink f" if "fa = Some f" for f
    using side_file_live [OF ok a] fa that X(1) by simp
  obtain ga where A: "fmap db3 = (if fa = None then fmap db2 else (fmap db2)(?a \<mapsto> ga))" "\<And>f. fa = Some f \<Longrightarrow> moved f (p, n) (q, m) (links db2) ga (links db3)"
    "dirs db3 = dirs db2" "emap db3 = emap db2" "tables_wf db3" "store_db db3 = store_db db2"
    "fst ` links db3 \<subseteq> insert ?a (fst ` links db2)" "\<And>j x. j \<noteq> ?a \<Longrightarrow> (j, x) \<in> links db3 \<longleftrightarrow> (j, x) \<in> links db2"
    using exchange_side [OF X(3) La s3] by blast
  have Lb: "fmap db3 ?b = Some f \<and> fi_inode f = ?b \<and> 0 < fi_nlink f" if "fb = Some f" for f
    using side_file_live [OF ok b] fb that X(1) A(1) ab by simp
  obtain gb where B: "fmap db4 = (if fb = None then fmap db3 else (fmap db3)(?b \<mapsto> gb))" "\<And>f. fb = Some f \<Longrightarrow> moved f (q, m) (p, n) (links db3) gb (links db4)"
    "dirs db4 = dirs db3" "emap db4 = emap db3" "tables_wf db4" "store_db db4 = store_db db3"
    "fst ` links db4 \<subseteq> insert ?b (fst ` links db3)" "\<And>j x. j \<noteq> ?b \<Longrightarrow> (j, x) \<in> links db4 \<longleftrightarrow> (j, x) \<in> links db3"
    using exchange_side [OF A(5) Lb s4] by blast
  have fa_file: "fa = Some f" if "fmap db ?a = Some f" for f
  proof -
    have "ct_type a \<noteq> EtDirectory" using ekeys_dir(2) [OF ok, of "(p, n)" ?a] find_entry_Some(1) [OF a] ns_okD(2) [OF ok] that by auto
    then show ?thesis using fa that by (auto simp: result_simps)
  qed
  have fb_file: "fb = Some f" if "fmap db ?b = Some f" for f
  proof -
    have "ct_type b \<noteq> EtDirectory" using ekeys_dir(2) [OF ok, of "(q, m)" ?b] find_entry_Some(1) [OF b] ns_okD(2) [OF ok] that by auto
    then show ?thesis using fb that by (auto simp: result_simps)
  qed
  show "dirs db4 = dirs db2 \<and> emap db4 = emap db2 \<and> tables_wf db4 \<and> store_db db4 = store_db db2 \<and> dom (fmap db4) = dom (fmap db)"
    using A B X La Lb by (auto split: if_splits)
  show "fst ` links db4 \<subseteq> insert ?a (insert ?b (fst ` links db))" using A(7) B(7) unfolding X(2) by blast
  show "\<exists>g. fmap db4 ?a = Some g \<and> moved f (p, n) (q, m) (links db) g (links db4)" if f: "fmap db ?a = Some f" for f
  proof -
    have s: "fa = Some f" "fi_inode f = ?a" using fa_file [OF f] La by auto
    have "moved f (p, n) (q, m) (links db) ga (links db4)"
      using A(2) [OF s(1)] by (rule moved_cong) (use X(2) B(8) ab s(2) in auto)
    then show ?thesis using A(1) B(1) s(1) ab by simp
  qed
  show "\<exists>g. fmap db4 ?b = Some g \<and> moved f (q, m) (p, n) (links db) g (links db4)" if f: "fmap db ?b = Some f" for f
  proof -
    have s: "fb = Some f" "fi_inode f = ?b" using fb_file [OF f] Lb by auto
    have "moved f (q, m) (p, n) (links db) gb (links db4)"
      using B(2) [OF s(1)] by (rule moved_cong) (use X(2) A(8) ab s(2) in auto)
    then show ?thesis using B(1) s(1) by simp
  qed
  show "fmap db4 j = fmap db j" if "j \<noteq> ?a" "j \<noteq> ?b" for j using that A(1) B(1) X(1) by simp
  show "(j, x) \<in> links db4 \<longleftrightarrow> (j, x) \<in> links db" if "j \<noteq> ?a" "j \<noteq> ?b" for j x using that A(8) B(8) X(2) by simp
qed

text \<open>A successful exchange that changes anything swaps the two entries.\<close>

definition swapped :: "meta_db \<Rightarrow> int \<Rightarrow> string \<Rightarrow> int \<Rightarrow> string \<Rightarrow> meta_db \<Rightarrow> bool" where
  "swapped db p n q m db' \<longleftrightarrow> (\<exists>a ta b tb. emap db (p, n) = Some (a, ta) \<and> emap db (q, m) = Some (b, tb) \<and> a \<noteq> b
     \<and> (ta = EtDirectory \<longrightarrow> \<not> under (emap db) a q) \<and> (tb = EtDirectory \<longrightarrow> \<not> under (emap db) b p)
     \<and> emap db' = (emap db)((p, n) \<mapsto> (b, tb), (q, m) \<mapsto> (a, ta)) \<and> dirs db' = dirs db)"

lemma exchange_effect:
  assumes inv: "ns_inv db" and op: "rename_exchange now p n q m db = (Inr (), db')"
  shows "ns_inv db'" and "db' \<noteq> db \<Longrightarrow> swapped db p n q m db'"
proof -
  note wf = ns_invD(1) [OF inv] and ok = ns_invD(2) [OF inv]
  have "ns_inv db' \<and> swapped db p n q m db'" if ch: "db' \<noteq> db"
  proof -
    obtain a b fa fb db1 db2 db3 db4 where ne: "(p, n) \<noteq> (q, m)" and a: "find_entry db p n = Some a" and b: "find_entry db q m = Some b"
      and ab: "ct_inode a \<noteq> ct_inode b" and va: "validate_entry_move db a q = Inr ()" and vb: "validate_entry_move db b p = Inr ()"
      and fa: "side_file db a = Inr fa" and fb: "side_file db b = Inr fb"
      and s1: "insert_content \<lparr>ct_parent = p, ct_name = n, ct_inode = ct_inode b, ct_type = ct_type b\<rparr> (delete_content q m (delete_content p n db)) = Inr db1"
      and s2: "insert_content \<lparr>ct_parent = q, ct_name = m, ct_inode = ct_inode a, ct_type = ct_type a\<rparr> db1 = Inr db2"
      and s3: "exchange_file now fa p n q m db2 = Inr db3" and s4: "exchange_file now fb q m p n db3 = Inr db4"
      and s5: "touch_parents (ParentNotFound q) now p q db4 = Inr db'"
      using op ch by (rule exchange_guards)
    note Ea = find_entry_Some(1) [OF a] and Eb = find_entry_Some(1) [OF b]
    note X = exchange_rows [OF wf ne s1 s2] and S = exchange_sides [OF ok a b ab fa fb _ _ _ s3 s4]
    note S = S [OF X(3,4,5)]
    note T = touch_parents_view [OF S(1) [THEN conjunct2, THEN conjunct2, THEN conjunct1] s5]
    have pq: "p \<in> dirs db" "q \<in> dirs db" using ns_okD(4) [OF ok Ea] ns_okD(4) [OF ok Eb] by (simp_all add: entry_ok_def)
    have dom: "dom (fmap db4) = dom (fmap db)" using S(1) by blast
    have "ns_ok (dirs db) (emap db2) (fmap db4) (links db4)"
    proof (rule ns_swap [OF ok Ea Eb ab _ _ X(1)])
      show "\<not> under (emap db) (ct_inode a) q" if "ct_type a = EtDirectory" using inv pq(2) va that by (rule validated_move)
      show "\<not> under (emap db) (ct_inode b) p" if "ct_type b = EtDirectory" using inv pq(1) vb that by (rule validated_move)
      show "dom (fmap db4) = dom (fmap db)" by (rule dom)
      show "fi_inode g = j \<and> file_ok (emap db2) (links db4) g" if "fmap db4 j = Some g" for j g
        by (rule swap_files_ok [OF ok Ea Eb ab X(1) S(3) S(4) dom S(5) S(6) that])
    qed
    then have okay: "ns_ok (dirs db') (emap db') (fmap db') (links db')" using S(1) X by (simp add: T)
    have ab_in: "ct_inode a \<in> dirs db \<union> dom (fmap db)" "ct_inode b \<in> dirs db \<union> dom (fmap db)"
      using ns_okD(4) [OF ok Ea] ns_okD(4) [OF ok Eb] by (auto simp: entry_ok_def split: if_splits)
    have "ns_inv db'"
    proof (rule ns_inv_step [OF inv T(5) okay])
      show "fst ` links db' \<subseteq> fst ` links db \<union> dirs db \<union> dom (fmap db)"
        unfolding T(4) by (rule subset_trans [OF S(2)]) (use ab_in in \<open>simp add: Un_assoc subset_insertI2\<close>)
      show "dirs db' \<subseteq> dirs db" "store_db db' = store_db db" using S(1) X(2,6) by (simp_all add: T)
      show "dom (fmap db') \<subseteq> dom (fmap db)" unfolding T(3) using S(1) by blast
    qed
    moreover have "emap db' = (emap db)((p, n) \<mapsto> (ct_inode b, ct_type b), (q, m) \<mapsto> (ct_inode a, ct_type a))" using S(1) X(1) by (simp add: T)
    moreover have "dirs db' = dirs db" using S(1) X(2) by (simp add: T)
    ultimately show ?thesis using Ea Eb ab validated_move [OF inv pq(2) va] validated_move [OF inv pq(1) vb] by (auto simp: swapped_def)
  qed
  then show "ns_inv db'" "db' \<noteq> db \<Longrightarrow> swapped db p n q m db'"
    using inv by blast+
qed

end
