(* ===== verification/NamespaceSteps.thy ===== *)
theory NamespaceSteps
  imports NamespaceRename
begin

text \<open>
  The namespace as a state machine: a step is one call of the store, successful or not, and the
  reachable states are those of a store opened on an empty database. Every reachable state is a tree,
  and the tables refine an abstract tree of directories and entries.
\<close>

section \<open>Opening\<close>

lemma set_counter_floor_self:
  assumes "0 \<le> lo" and "lo < 2 ^ 63"
  obtains v where "counters (set_counter_floor key lo sdb) key = Some v" and "lo \<le> sint v"
    and "\<And>w. counters sdb key = Some w \<Longrightarrow> sint w \<le> sint v"
proof -
  have lo: "sint (word_of_int lo :: u64) = lo" using assms by (simp add: signed_of_int signed_take_bit_int_eq_self)
  show thesis
  proof (cases "counters sdb key")
    case None
    then show thesis using that [of "word_of_int lo"] lo by (simp add: set_counter_floor_def)
  next
    case (Some w)
    then show thesis using that [of "if lo \<le> sint w then w else word_of_int lo"] lo by (simp add: set_counter_floor_def)
  qed
qed

lemma set_counter_floor_other: "key \<noteq> key' \<Longrightarrow> counters (set_counter_floor key' lo sdb) key = counters sdb key"
  by (simp add: set_counter_floor_def split: option.splits)

lemma greatest_ge: "x \<in> set xs \<Longrightarrow> \<exists>m. greatest xs = Some m \<and> x \<le> m \<and> m \<in> set xs"
  using Max_in [of "set xs"] by (auto simp: greatest_def)

lemma as_u64_pos: "0 \<le> x \<Longrightarrow> x < 2 ^ 64 \<Longrightarrow> int (as_u64 x) = x"
  by (simp add: as_u64_def)

lemma keys_differ: "INODE_ID_KEY \<noteq> SLICE_ID_KEY"
  by (simp add: INODE_ID_KEY_def SLICE_ID_KEY_def)

lemma init_counters_effect:
  assumes "init_counters db = Inr db'"
  obtains v where "counters (store_db db') INODE_ID_KEY = Some v" and "int (init_next_inode db) \<le> sint v"
    and "\<And>w. counters (store_db db) INODE_ID_KEY = Some w \<Longrightarrow> sint w \<le> sint v"
    and "dirs db' = dirs db" and "emap db' = emap db" and "fmap db' = fmap db" and "links db' = links db"
    and "tables_wf db' = tables_wf db" and "access_rows db' = access_rows db"
proof -
  let ?sdb = "set_counter_floor INODE_ID_KEY (int (init_next_inode db)) (store_db db)"
  obtain ns where small: "init_next_inode db < 2 ^ 63" and db': "db' = db\<lparr>store_db := set_counter_floor SLICE_ID_KEY ns ?sdb\<rparr>"
    using assms by (auto simp: init_counters_def i64_try_from_def result_simps split: if_splits)
  obtain v where v: "counters ?sdb INODE_ID_KEY = Some v" "int (init_next_inode db) \<le> sint v"
    "\<And>w. counters (store_db db) INODE_ID_KEY = Some w \<Longrightarrow> sint w \<le> sint v"
    using set_counter_floor_self [of "int (init_next_inode db)" INODE_ID_KEY "store_db db"] small by auto
  have "counters (store_db db') INODE_ID_KEY = Some v" using v(1) keys_differ by (simp add: db' set_counter_floor_other)
  then show thesis using v(2,3) by (rule that) (simp_all add: db' tables_wf_def)
qed

text \<open>The floor of the inode counter lies above every inode of the tables.\<close>

lemma max_plus_1_u64: "a < 2 ^ 63 \<Longrightarrow> add_u64 (max a 1) 1 = max a 1 + 1"
  by (simp add: add_u64_def u64_limit_def)

lemma init_next_inode_above:
  assumes rows: "\<And>i. i \<in> dirs db \<union> dom (fmap db) \<Longrightarrow> 0 < i \<and> i < 2 ^ 63 - 1" and i: "i \<in> dirs db \<union> dom (fmap db)"
  shows "i < int (init_next_inode db)"
proof -
  let ?pick = "\<lambda>xs. case greatest xs of Some i \<Rightarrow> as_u64 i | None \<Rightarrow> 0"
  let ?A = "map ac_inode (access_rows db)" and ?F = "map fi_inode (file_rows db)"
  have sets: "set ?A = dirs db" "set ?F = dom (fmap db)"
    by (auto simp: dirs_def fmap_def dom_map_of_conv_image_fst image_image)
  have cast: "int (as_u64 x) = x" "x < 2 ^ 63 - 1" if "x \<in> dirs db \<union> dom (fmap db)" for x using rows [OF that] by (auto intro: as_u64_pos)
  have pick: "?pick xs < 2 ^ 63 \<and> (\<forall>x\<in>set xs. x \<le> int (?pick xs))" if "set xs \<subseteq> dirs db \<union> dom (fmap db)" for xs
  proof (cases "greatest xs")
    case None
    then show ?thesis by (auto simp: greatest_def split: if_splits)
  next
    case (Some m)
    then have m: "m \<in> set xs" "\<forall>x\<in>set xs. x \<le> m" using greatest_ge [of _ xs] by (auto simp: greatest_def split: if_splits)
    then have "m \<in> dirs db \<union> dom (fmap db)" using that by blast
    then have "int (as_u64 m) = m" "m < 2 ^ 63 - 1" using cast by blast+
    then show ?thesis using m(2) Some by simp
  qed
  define a f where "a = ?pick ?A" and "f = ?pick ?F"
  have a: "a < 2 ^ 63" "\<forall>x\<in>dirs db. x \<le> int a" using pick [of ?A] unfolding a_def [symmetric] sets by blast+
  have f: "f < 2 ^ 63" "\<forall>x\<in>dom (fmap db). x \<le> int f" using pick [of ?F] unfolding f_def [symmetric] sets by blast+
  have "init_next_inode db = max (max a f) 1 + 1"
    unfolding init_next_inode_def Let_def a_def [symmetric] f_def [symmetric] using a(1) f(1) by (intro max_plus_1_u64) simp
  moreover have "i \<le> int a \<or> i \<le> int f" using i a(2) f(2) by blast
  ultimately show ?thesis by linarith
qed

lemma inodes_below_mono: "inodes_below db c \<Longrightarrow> c \<le> c' \<Longrightarrow> inodes_below db c'"
  by (force simp: inodes_below_def)

lemma reopen_inv:
  assumes inv: "ns_inv db" and op: "from_config_inner now db = Inr db'"
  shows "ns_inv db'" and "dirs db' = dirs db" and "emap db' = emap db"
proof -
  obtain db1 where i: "init_counters db = Inr db1" and r: "init_root_directory now db1 = Inr db'"
    using op by (auto simp: from_config_inner_def result_simps)
  obtain v where v: "counters (store_db db1) INODE_ID_KEY = Some v" "\<And>w. counters (store_db db) INODE_ID_KEY = Some w \<Longrightarrow> sint w \<le> sint v"
    and same: "dirs db1 = dirs db" "emap db1 = emap db" "fmap db1 = fmap db" "links db1 = links db" "tables_wf db1 = tables_wf db"
    using init_counters_effect [OF i] by metis
  have "ROOT_INO \<in> dirs db1" using ns_okD(1) [OF ns_invD(2) [OF inv]] same(1) by simp
  then have db': "db' = db1" using r by (auto simp: init_root_directory_def ROOT_INO_def ns_view split: if_splits)
  obtain c where c: "counters (store_db db) INODE_ID_KEY = Some c" "inodes_below db (sint c)" using ns_invD(3) [OF inv] by blast
  have "inodes_below db1 (sint c)" using c(2) by (simp add: inodes_below_def same)
  then have "inodes_below db1 (sint v)" using v(2) [OF c(1)] by (rule inodes_below_mono)
  then show "ns_inv db'" unfolding db' using ns_invD(1,2) [OF inv] v(1) by (intro ns_invI) (simp_all add: same)
  show "dirs db' = dirs db" "emap db' = emap db" by (simp_all add: db' same)
qed

lemma fresh_views: "dirs fresh_db = {}" "emap fresh_db = Map.empty" "fmap fresh_db = Map.empty" "links fresh_db = {}" "tables_wf fresh_db"
  by (simp_all add: fresh_db_def dirs_def emap_def fmap_def links_def tables_wf_def)

lemma open_fresh:
  "\<exists>db. from_config_inner now fresh_db = Inr db \<and> ns_inv db \<and> dirs db = {ROOT_INO} \<and> emap db = Map.empty"
proof -
  have small: "init_next_inode fresh_db = 2" "init_next_slice (store_db fresh_db) = 1"
    by (simp_all add: init_next_inode_def init_next_slice_def fresh_db_def greatest_def decode_id_def ID_FLAG_def add_u64_def u64_limit_def)
  then obtain db1 where i: "init_counters fresh_db = Inr db1" by (auto simp: init_counters_def i64_try_from_def)
  obtain v where v: "counters (store_db db1) INODE_ID_KEY = Some v" "2 \<le> sint v"
    and same: "dirs db1 = {}" "emap db1 = Map.empty" "fmap db1 = Map.empty" "links db1 = {}" "tables_wf db1"
    using init_counters_effect [OF i] small fresh_views by (metis of_nat_numeral)
  let ?a = "\<lparr>ac_inode = 1, ac_perm = permission_new 16877 0 0, ac_atime = now, ac_mtime = now, ac_ctime = now, ac_nlink = 2\<rparr>"
  have none: "find_access db1 1 = None" using same(1) by (simp add: ns_view)
  then obtain db2 where r: "insert_access ?a db1 = Inr db2" by (simp add: insert_access_def)
  have "is_directory (ac_perm ?a)" by code_simp
  note A = insert_access_view [OF same(5) r this]
  have views: "dirs db2 = {ROOT_INO}" "emap db2 = Map.empty" "fmap db2 = Map.empty" "links db2 = {}" "store_db db2 = store_db db1"
    using A same by (simp_all add: ROOT_INO_def)
  have "ns_ok {ROOT_INO} Map.empty Map.empty {}" by (intro ns_okI) (auto intro: rooted_root)
  then have "ns_inv db2"
    using A(5) v by (intro ns_invI [of db2 v]) (simp_all add: views inodes_below_def ROOT_INO_def)
  moreover have "from_config_inner now fresh_db = Inr db2" using i none r by (simp add: from_config_inner_def init_root_directory_def)
  ultimately show ?thesis using views by blast
qed

section \<open>Steps\<close>

type_synonym trash_encoder = "string \<Rightarrow> int \<Rightarrow> bytes option"

text \<open>
  One call of the store, whatever its outcome. A hard link is created while the store has fewer than
  \<open>2 ^ 31 - 1\<close> entries: the link counter is a 32-bit integer that saturates.
\<close>

inductive ns_step :: "trash_encoder \<Rightarrow> meta_db \<Rightarrow> meta_db \<Rightarrow> bool" for enc where
  ns_mkdir: "ns_step enc db (snd (mkdir now p n db))"
| ns_create_file: "ns_step enc db (snd (create_file_internal now p n db))"
| ns_create_node: "ns_step enc db (snd (create_node now p n kind mode uid gid rdev db))"
| ns_symlink: "ns_step enc db (snd (symlink now p n target db))"
| ns_link: "int (length (content_rows db)) < i32_max \<Longrightarrow> ns_step enc db (snd (link now i p n db))"
| ns_unlink: "ns_step enc db (snd (unlink enc now p n db))"
| ns_rmdir: "ns_step enc db (snd (rmdir now p n db))"
| ns_rename: "ns_step enc db (snd (rename_with_mode enc now p n q m noreplace db))"
| ns_exchange: "ns_step enc db (snd (rename_exchange now p n q m db))"
| ns_restore: "ns_step enc db (snd (restore_deleted_file now i p n db))"
| ns_remove: "ns_step enc db (snd (remove_file_metadata i db))"
| ns_reopen: "from_config_inner now db = Inr db' \<Longrightarrow> ns_step enc db db'"

inductive ns_reachable :: "trash_encoder \<Rightarrow> meta_db \<Rightarrow> bool" for enc where
  ns_open: "from_config_inner now fresh_db = Inr db \<Longrightarrow> ns_reachable enc db"
| ns_next: "ns_reachable enc db \<Longrightarrow> ns_step enc db db' \<Longrightarrow> ns_reachable enc db'"

section \<open>The abstract tree\<close>

text \<open>
  What a namespace promises: a set of directories and a map of entries. Each step changes one entry
  or swaps two. A directory never moves below itself, only empty directories disappear, and an entry
  is only ever replaced by one of the same sort.
\<close>

record tree =
  t_dirs :: "int set"
  t_entries :: entries

inductive tree_step :: "tree \<Rightarrow> tree \<Rightarrow> bool" where
  t_stay: "tree_step T T"
| t_add_dir: "p \<in> D \<Longrightarrow> E (p, n) = None \<Longrightarrow> i \<notin> D \<Longrightarrow>
    tree_step \<lparr>t_dirs = D, t_entries = E\<rparr> \<lparr>t_dirs = insert i D, t_entries = E((p, n) \<mapsto> (i, EtDirectory))\<rparr>"
| t_add_file: "p \<in> D \<Longrightarrow> E (p, n) = None \<Longrightarrow> i \<notin> D \<Longrightarrow> t \<noteq> EtDirectory \<Longrightarrow>
    tree_step \<lparr>t_dirs = D, t_entries = E\<rparr> \<lparr>t_dirs = D, t_entries = E((p, n) \<mapsto> (i, t))\<rparr>"
| t_remove_file: "E (p, n) = Some (i, t) \<Longrightarrow> t \<noteq> EtDirectory \<Longrightarrow>
    tree_step \<lparr>t_dirs = D, t_entries = E\<rparr> \<lparr>t_dirs = D, t_entries = E((p, n) := None)\<rparr>"
| t_remove_dir: "E (p, n) = Some (i, EtDirectory) \<Longrightarrow> (\<And>m. E (i, m) = None) \<Longrightarrow>
    tree_step \<lparr>t_dirs = D, t_entries = E\<rparr> \<lparr>t_dirs = D - {i}, t_entries = E((p, n) := None)\<rparr>"
| t_move: "E (p, n) = Some (i, t) \<Longrightarrow> q \<in> D \<Longrightarrow> (t = EtDirectory \<Longrightarrow> \<not> under E i q) \<Longrightarrow> replaced_ok i t (E (q, m)) E D D' \<Longrightarrow>
    tree_step \<lparr>t_dirs = D, t_entries = E\<rparr> \<lparr>t_dirs = D', t_entries = E((p, n) := None, (q, m) \<mapsto> (i, t))\<rparr>"
| t_swap: "E (p, n) = Some (a, ta) \<Longrightarrow> E (q, m) = Some (b, tb) \<Longrightarrow> a \<noteq> b \<Longrightarrow> (ta = EtDirectory \<Longrightarrow> \<not> under E a q)
    \<Longrightarrow> (tb = EtDirectory \<Longrightarrow> \<not> under E b p) \<Longrightarrow>
    tree_step \<lparr>t_dirs = D, t_entries = E\<rparr> \<lparr>t_dirs = D, t_entries = E((p, n) \<mapsto> (b, tb), (q, m) \<mapsto> (a, ta))\<rparr>"

definition tree_of :: "meta_db \<Rightarrow> tree" where
  "tree_of db = \<lparr>t_dirs = dirs db, t_entries = emap db\<rparr>"

text \<open>A step of the tables keeps the invariant and is a step of the tree.\<close>

definition refines :: "meta_db \<Rightarrow> meta_db \<Rightarrow> bool" where
  "refines db db' \<longleftrightarrow> ns_inv db' \<and> tree_step (tree_of db) (tree_of db')"

lemma refines_refl: "ns_inv db \<Longrightarrow> refines db db"
  by (simp add: refines_def t_stay)

lemma refines_alloc: "ns_inv db \<Longrightarrow> alloc_inode db = Inr (i, db') \<Longrightarrow> refines db db'"
  using alloc_inode_effect(1,5) [of db i db'] by (auto simp: refines_def tree_of_def t_stay)

lemma run_txn_Inl: "run_txn db r = (Inl e, db') \<Longrightarrow> db' = db"
  by (auto simp: run_txn_def split: sum.splits)

text \<open>A creation that fails has at most consumed a number.\<close>

lemma failed_creation:
  assumes inv: "ns_inv db" and "(case alloc_inode db of Inl e \<Rightarrow> (Inl e, db) | Inr (i, db1) \<Rightarrow> run_txn db1 (f i db1)) = (Inl e, db')"
  shows "refines db db'"
proof (cases "alloc_inode db")
  case (Inl e)
  then show ?thesis using assms by (auto intro: refines_refl)
next
  case (Inr x)
  obtain i db1 where x: "x = (i, db1)" by (rule prod.exhaust)
  then have "db' = db1" using assms(2) Inr run_txn_Inl by auto
  then show ?thesis using refines_alloc [OF inv] Inr x by simp
qed

lemma refines_add_file:
  assumes "ns_inv db'" and "p \<in> dirs db" and "emap db (p, n) = None" and "i \<notin> dirs db" and "t \<noteq> EtDirectory"
    and "dirs db' = dirs db" and "emap db' = (emap db)((p, n) \<mapsto> (i, t))"
  shows "refines db db'"
  unfolding refines_def tree_of_def assms(6,7) using assms(1-5) by (auto intro: t_add_file)

lemma fresh_not_dir:
  assumes "ns_inv db" and "emap db k = Some (i, t)" and "t \<noteq> EtDirectory"
  shows "i \<notin> dirs db"
  using ekeys_file(2) [OF ns_invD(2) [OF assms(1)] assms(2,3)] .

lemma refines_mkdir: "ns_inv db \<Longrightarrow> refines db (snd (mkdir now p n db))"
proof (cases "mkdir now p n db")
  case (Pair r db')
  assume inv: "ns_inv db"
  show ?thesis
  proof (cases r)
    case (Inl e)
    then show ?thesis using failed_creation [OF inv, of _ e db'] Pair unfolding mkdir_def create_directory_def by simp
  next
    case (Inr i)
    then have "create_directory now p n db = (Inr i, db')" using Pair by (simp add: mkdir_def)
    note C = create_directory_effect [OF inv this]
    have "tree_step (tree_of db) (tree_of db')" unfolding tree_of_def C(3,5) using C(4,2,7) by (rule t_add_dir)
    then show ?thesis using C(1) Pair by (simp add: refines_def)
  qed
qed

lemma refines_created:
  assumes "ns_inv db'" and "p \<in> dirs db" and "emap db (p, n) = None" and "t \<noteq> EtDirectory" and "dirs db' = dirs db"
    and E: "emap db' = (emap db)((p, n) \<mapsto> (i, t))"
  shows "refines db db'"
proof -
  have "emap db' (p, n) = Some (i, t)" by (simp add: E)
  then have "i \<notin> dirs db" using fresh_not_dir [OF assms(1) _ assms(4)] assms(5) by metis
  then show ?thesis using assms by (intro refines_add_file)
qed

lemma refines_create_file: "ns_inv db \<Longrightarrow> refines db (snd (create_file_internal now p n db))"
proof (cases "create_file_internal now p n db")
  case (Pair r db')
  assume inv: "ns_inv db"
  show ?thesis
  proof (cases r)
    case (Inl e)
    then show ?thesis using failed_creation [OF inv, of _ e db'] Pair unfolding create_file_internal_def by simp
  next
    case (Inr i)
    note C = create_file_effect [OF inv Pair [unfolded Inr]]
    show ?thesis using refines_created [OF C(1,4,2) _ C(5,3)] Pair by simp
  qed
qed

lemma refines_create_node: "ns_inv db \<Longrightarrow> refines db (snd (create_node now p n kind mode uid gid rdev db))"
proof (cases "create_node now p n kind mode uid gid rdev db")
  case (Pair r db')
  assume inv: "ns_inv db"
  show ?thesis
  proof (cases r)
    case (Inl e)
    show ?thesis
    proof (cases "kind = FtDir \<or> kind = FtSymlink")
      case True
      then show ?thesis using refines_refl [OF inv] by (simp add: create_node_def)
    next
      case False
      then show ?thesis using failed_creation [OF inv, of _ e db'] Pair Inl unfolding create_node_def by simp
    qed
  next
    case (Inr i)
    note C = create_node_effect [OF inv Pair [unfolded Inr]]
    show ?thesis using refines_created [OF C(1,4,2) _ C(5,3)] C(7) Pair by simp
  qed
qed

lemma refines_symlink: "ns_inv db \<Longrightarrow> refines db (snd (symlink now p n target db))"
proof (cases "symlink_txn now p n target db")
  case (Pair r db')
  assume inv: "ns_inv db"
  have snd: "snd (symlink now p n target db) = db'" using Pair by (simp add: symlink_def)
  show ?thesis
  proof (cases r)
    case (Inl e)
    then show ?thesis using failed_creation [OF inv, of _ e db'] Pair unfolding snd symlink_txn_def by simp
  next
    case (Inr i)
    note C = symlink_effect [OF inv Pair [unfolded Inr]]
    show ?thesis unfolding snd using refines_created [OF C(1,4,2) _ C(5,3)] by simp
  qed
qed

lemma nlink_le_entries:
  assumes inv: "ns_inv db" and f: "fmap db i = Some f"
  shows "fi_nlink f \<le> int (length (content_rows db))"
proof -
  note wf = ns_invD(1) [OF inv] and ok = ns_invD(2) [OF inv]
  have "fi_nlink f = int (card (ekeys (emap db) i))" using file_okD(1) [OF ns_okD(7) [OF ok f] refl] ns_okD(6) [OF ok f] by simp
  also have "\<dots> = int (length (entries_of db i))" using length_entries [OF tables_wfD(1) [OF wf]] by simp
  also have "\<dots> \<le> int (length (content_rows db))" by (simp add: entries_of_def)
  finally show ?thesis .
qed

lemma refines_link:
  assumes inv: "ns_inv db" and room: "int (length (content_rows db)) < i32_max"
  shows "refines db (snd (link now i p n db))"
proof (cases "link_txn now i p n db")
  case (Pair r db')
  have snd: "snd (link now i p n db) = db'" using Pair by (simp add: link_def)
  show ?thesis
  proof (cases r)
    case (Inl e)
    then have "db' = db" using Pair run_txn_Inl unfolding link_txn_def by blast
    then show ?thesis using refines_refl [OF inv] by (simp add: snd)
  next
    case (Inr u)
    have op: "link_txn now i p n db = (Inr (), db')" using Pair Inr by simp
    have "fi_nlink f < i32_max" if "fmap db i = Some f" for f using nlink_le_entries [OF inv that] room by simp
    note C = link_effect [OF inv op this]
    show ?thesis unfolding snd using refines_created [OF C(1,4,2) _ C(5,3)] by simp
  qed
qed

text \<open>The remaining operations are one transaction each.\<close>

lemma refines_txn:
  assumes inv: "ns_inv db" and op: "op = run_txn db r" and ok: "\<And>x db'. op = (Inr x, db') \<Longrightarrow> refines db db'"
  shows "refines db (snd op)"
proof (cases op)
  case (Pair x db')
  show ?thesis
  proof (cases x)
    case (Inl e)
    then have "db' = db" using Pair run_txn_Inl [of db r e db'] op by simp
    then show ?thesis using refines_refl [OF inv] Pair by simp
  next
    case (Inr y)
    then show ?thesis using ok Pair by simp
  qed
qed

lemma refines_unit_txn:
  assumes "ns_inv db" and "op = run_txn db (r :: meta_error + unit \<times> meta_db)" and "\<And>db'. op = (Inr (), db') \<Longrightarrow> refines db db'"
  shows "refines db (snd op)"
  using assms(1,2) by (rule refines_txn) (use assms(3) in simp)

lemma refines_unlink: "ns_inv db \<Longrightarrow> refines db (snd (unlink enc now p n db))"
proof (rule refines_unit_txn [OF _ unlink_def])
  fix db'
  assume inv: "ns_inv db" and op: "unlink enc now p n db = (Inr (), db')"
  obtain i t where "emap db (p, n) = Some (i, t)" "t \<noteq> EtDirectory" "emap db' = (emap db)((p, n) := None)" "dirs db' = dirs db" "ns_inv db'"
    using unlink_effect [OF inv op] by metis
  then show "refines db db'" by (auto simp: refines_def tree_of_def intro: t_remove_file)
qed

lemma refines_rmdir: "ns_inv db \<Longrightarrow> refines db (snd (rmdir now p n db))"
proof (rule refines_unit_txn [OF _ rmdir_def])
  fix db'
  assume inv: "ns_inv db" and op: "rmdir now p n db = (Inr (), db')"
  obtain i where "emap db (p, n) = Some (i, EtDirectory)" "\<And>m. emap db (i, m) = None" "emap db' = (emap db)((p, n) := None)"
    "dirs db' = dirs db - {i}" "ns_inv db'"
    using rmdir_effect [OF inv op] by metis
  then show "refines db db'" by (auto simp: refines_def tree_of_def intro: t_remove_dir)
qed

lemma refines_rename: "ns_inv db \<Longrightarrow> refines db (snd (rename_with_mode enc now p n q m nr db))"
proof (rule refines_txn [OF _ rename_with_mode_def])
  fix out db'
  assume inv: "ns_inv db" and op: "rename_with_mode enc now p n q m nr db = (Inr out, db')"
  note R = rename_effect [OF inv op]
  show "refines db db'"
  proof (cases "ro_renamed out")
    case True
    then obtain t where t: "emap db (p, n) = Some (ro_ino out, t)" "q \<in> dirs db" "t = EtDirectory \<longrightarrow> \<not> under (emap db) (ro_ino out) q"
      "emap db' = (emap db)((p, n) := None, (q, m) \<mapsto> (ro_ino out, t))" "replaced_ok (ro_ino out) t (emap db (q, m)) (emap db) (dirs db) (dirs db')"
      using R(2) by auto
    have "tree_step (tree_of db) (tree_of db')" unfolding tree_of_def t(4) using t(1,2) _ t(5) by (rule t_move) (use t(3) in blast)
    then show ?thesis using R(1) by (simp add: refines_def)
  next
    case False
    then show ?thesis using R(2) refines_refl [OF inv] by auto
  qed
qed

lemma refines_exchange: "ns_inv db \<Longrightarrow> refines db (snd (rename_exchange now p n q m db))"
proof (cases "p = q \<and> n = m")
  case True
  assume "ns_inv db"
  then show ?thesis using True by (simp add: rename_exchange_def refines_refl)
next
  case False
  assume inv: "ns_inv db"
  from inv rename_exchange_def [of now p n q m db, unfolded if_not_P [OF False]] show ?thesis
  proof (rule refines_unit_txn)
    fix db' assume op: "rename_exchange now p n q m db = (Inr (), db')"
    note X = exchange_effect [OF inv op]
    show "refines db db'"
    proof (cases "db' = db")
      case False
      from X(2) [OF this] show ?thesis using X(1) by (auto simp: swapped_def refines_def tree_of_def intro: t_swap)
    qed (simp add: refines_refl inv)
  qed
qed

lemma refines_restore: "ns_inv db \<Longrightarrow> refines db (snd (restore_deleted_file now i p n db))"
proof (rule refines_unit_txn [OF _ restore_deleted_file_def])
  fix db'
  assume inv: "ns_inv db" and op: "restore_deleted_file now i p n db = (Inr (), db')"
  from inv op show "refines db db'"
  proof (rule restore_effect)
    fix f f' t
    assume t: "t = (if fi_symlink f \<noteq> None then EtSymlink else EtFile)" and r: "emap db (p, n) = None" "p \<in> dirs db"
      "emap db' = (emap db)((p, n) \<mapsto> (i, t))" "dirs db' = dirs db" "ns_inv db'"
    have "t \<noteq> EtDirectory" by (simp add: t)
    then show "refines db db'" using r by (intro refines_created)
  qed
qed

lemma refines_remove: "ns_inv db \<Longrightarrow> refines db (snd (remove_file_metadata i db))"
proof (rule refines_unit_txn [OF _ remove_file_metadata_def])
  fix db'
  assume inv: "ns_inv db" and op: "remove_file_metadata i db = (Inr (), db')"
  obtain "emap db' = emap db" "dirs db' = dirs db" "ns_inv db'" using remove_file_effect [OF inv op] by metis
  then show "refines db db'" by (simp add: refines_def tree_of_def t_stay)
qed

lemma refines_reopen: "ns_inv db \<Longrightarrow> from_config_inner now db = Inr db' \<Longrightarrow> refines db db'"
  using reopen_inv [of db now db'] by (simp add: refines_def tree_of_def t_stay)

lemma step_refines: "ns_step enc db db' \<Longrightarrow> ns_inv db \<Longrightarrow> refines db db'"
  by (induction rule: ns_step.induct)
    (simp_all add: refines_mkdir refines_create_file refines_create_node refines_symlink refines_link refines_unlink refines_rmdir
      refines_rename refines_exchange refines_restore refines_remove refines_reopen)

lemma reachable_ns_inv: "ns_reachable enc db \<Longrightarrow> ns_inv db"
proof (induction rule: ns_reachable.induct)
  case (ns_open now db)
  then show ?case using open_fresh [of now] by auto
next
  case (ns_next db db')
  then show ?case using step_refines [of enc db db'] by (simp add: refines_def)
qed

end
