(* ===== verification/NamespaceResults.thy ===== *)
theory NamespaceResults
  imports NamespaceSteps
begin

text \<open>
  What users of the namespace rely on: the shape of every reachable state, the outcome of renames and
  removals on every branch, restoring from the trash, and paths.
\<close>

section \<open>A small store\<close>

text \<open>
  A store with a directory \<open>/d\<close>, a file \<open>/d/f\<close> and a second name \<open>/b\<close> of it, built by the operations.
\<close>

lemmas ns_eval = mkdir_def create_directory_def create_file_internal_def link_def link_txn_def alloc_inode_def alloc_counter_id_def
  run_txn_def find_access_def find_entry_def find_file_def insert_access_def insert_content_def insert_file_def insert_link_def
  touch_parent_def update_access_def update_file_def inherited_gid_def new_file_row_def default_directory_def permission_new_def
  lock_namespace_for_rename_def ROOT_INO_def rbind_def ok_or_def i32_max_def is_directory_def file_type_bits_def S_IFMT_def

lemma small_ids: "(2::u64) <s i64_max" "(3::u64) <s i64_max"
  by (simp_all add: word_sless_alt i64_max_def)

definition demo_dir :: "int \<Rightarrow> int \<Rightarrow> int \<Rightarrow> access_row" where
  "demo_dir i now mtime = \<lparr>ac_inode = i, ac_perm = permission_new 16877 0 0, ac_atime = now, ac_mtime = mtime, ac_ctime = now, ac_nlink = 2\<rparr>"

definition demo_store :: "u64 \<Rightarrow> slice_db" where
  "demo_store n = (store_db fresh_db)\<lparr>counters := [INODE_ID_KEY \<mapsto> n, SLICE_ID_KEY \<mapsto> 1]\<rparr>"

definition demo_root :: meta_db where
  "demo_root = \<lparr>access_rows = [demo_dir 1 0 0], content_rows = [], file_rows = [], link_rows = [], xattr_rows = [], store_db = demo_store 2\<rparr>"

definition demo_mkdir :: meta_db where
  "demo_mkdir = \<lparr>access_rows = [demo_dir 1 0 1, demo_dir 2 1 1],
     content_rows = [\<lparr>ct_parent = 1, ct_name = ''d'', ct_inode = 2, ct_type = EtDirectory\<rparr>],
     file_rows = [], link_rows = [], xattr_rows = [], store_db = demo_store 3\<rparr>"

definition demo_file :: file_row where
  "demo_file = (new_file_row 3 2 (permission_new 33188 0 0) 2)"

definition demo_create :: meta_db where
  "demo_create = \<lparr>access_rows = [demo_dir 1 0 1, demo_dir 2 1 2],
     content_rows = [\<lparr>ct_parent = 1, ct_name = ''d'', ct_inode = 2, ct_type = EtDirectory\<rparr>,
       \<lparr>ct_parent = 2, ct_name = ''f'', ct_inode = 3, ct_type = EtFile\<rparr>],
     file_rows = [demo_file], link_rows = [], xattr_rows = [], store_db = demo_store 4\<rparr>"

definition demo_db :: meta_db where
  "demo_db = \<lparr>access_rows = [demo_dir 1 0 3, demo_dir 2 1 2],
     content_rows = [\<lparr>ct_parent = 1, ct_name = ''d'', ct_inode = 2, ct_type = EtDirectory\<rparr>,
       \<lparr>ct_parent = 2, ct_name = ''f'', ct_inode = 3, ct_type = EtFile\<rparr>,
       \<lparr>ct_parent = 1, ct_name = ''b'', ct_inode = 3, ct_type = EtFile\<rparr>],
     file_rows = [demo_file\<lparr>fi_nlink := 2, fi_mtime := 3, fi_ctime := 3, fi_parent := 0\<rparr>],
     link_rows = [(3, 2, ''f''), (3, 1, ''b'')], xattr_rows = [], store_db = demo_store 4\<rparr>"

lemmas demo_defs = demo_root_def demo_mkdir_def demo_create_def demo_db_def demo_dir_def demo_store_def demo_file_def fresh_db_def

lemma demo_open: "from_config_inner 0 fresh_db = Inr demo_root"
  using keys_differ
  by (simp add: from_config_inner_def init_counters_def init_root_directory_def init_next_inode_def init_next_slice_def greatest_def
    add_u64_def u64_limit_def decode_id_def ID_FLAG_def i64_try_from_def set_counter_floor_def insert_access_def find_access_def demo_defs)

lemma demo_steps: "snd (mkdir 1 1 ''d'' demo_root) = demo_mkdir" "snd (create_file_internal 2 2 ''f'' demo_mkdir) = demo_create"
  "snd (link 3 3 1 ''b'' demo_create) = demo_db"
  using small_ids keys_differ by (simp_all add: ns_eval demo_defs fun_upd_twist)

lemma demo_reachable:
  "ns_reachable enc demo_root" "ns_reachable enc demo_mkdir" "ns_reachable enc demo_create" "ns_reachable enc demo_db"
proof -
  show r0: "ns_reachable enc demo_root" using demo_open by (rule ns_open)
  show r1: "ns_reachable enc demo_mkdir" using r0 by (rule ns_next) (use ns_mkdir [of enc demo_root 1 1 "''d''"] demo_steps in simp)
  show r2: "ns_reachable enc demo_create" using r1 by (rule ns_next) (use ns_create_file [of enc demo_mkdir 2 2 "''f''"] demo_steps in simp)
  have "ns_step enc demo_create (snd (link 3 3 1 ''b'' demo_create))" by (rule ns_link) (simp add: demo_defs i32_max_def)
  with r2 show "ns_reachable enc demo_db" unfolding demo_steps by (rule ns_next)
qed

section \<open>The tree\<close>

lemma entries_ekeys:
  assumes "ns_inv db"
  shows "int (length (entries_of db i)) = int (card (ekeys (emap db) i))"
  using length_entries [OF tables_wfD(1) [OF ns_invD(1) [OF assms]]] by simp

lemma inv_entry:
  assumes inv: "ns_inv db" and e: "find_entry db p n = Some e"
  shows "find_access db p \<noteq> None" and "ct_type e = EtDirectory \<Longrightarrow> find_access db (ct_inode e) \<noteq> None \<and> \<not> under (emap db) (ct_inode e) p"
    and "ct_type e \<noteq> EtDirectory \<Longrightarrow> find_file db (ct_inode e) \<noteq> None"
proof -
  note ok = ns_invD(2) [OF inv] and E = find_entry_Some [OF e]
  note entry = ns_okD(4) [OF ok E(1)]
  show "find_access db p \<noteq> None" using entry by (simp add: entry_ok_def ns_view)
  show "find_access db (ct_inode e) \<noteq> None \<and> \<not> under (emap db) (ct_inode e) p" if "ct_type e = EtDirectory"
    using entry ns_acyclic [OF ok, of p n "ct_inode e"] E(1) that by (simp add: entry_ok_def ns_view)
  show "find_file db (ct_inode e) \<noteq> None" if "ct_type e \<noteq> EtDirectory"
    using entry that by (auto simp: entry_ok_def find_file_fmap)
qed

lemma inv_dir:
  assumes inv: "ns_inv db" and d: "find_access db d \<noteq> None"
  shows "rooted (emap db) d" and "d \<noteq> ROOT_INO \<Longrightarrow> length (entries_of db d) = 1"
proof -
  note ok = ns_invD(2) [OF inv]
  have d: "d \<in> dirs db" using d by (simp add: ns_view)
  show "rooted (emap db) d" using ns_okD(8) [OF ok d] .
  show "length (entries_of db d) = 1" if "d \<noteq> ROOT_INO" using ns_okD(5) [OF ok d that] entries_ekeys [OF inv, of d] by auto
qed

lemma inv_file:
  assumes inv: "ns_inv db" and f: "find_file db i = Some f"
  shows "find_access db i = None" and "fi_nlink f = int (length (entries_of db i))"
proof -
  note ok = ns_invD(2) [OF inv]
  have f: "fmap db i = Some f" using f by (simp add: find_file_fmap)
  then show "find_access db i = None" using ns_okD(2) [OF ok] by (auto simp: ns_view)
  show "fi_nlink f = int (length (entries_of db i))"
    using file_okD(1) [OF ns_okD(7) [OF ok f] refl] ns_okD(6) [OF ok f] entries_ekeys [OF inv, of i] by simp
qed

text \<open>
  C4. In every state reached by any sequence of calls on a freshly opened store the directories form
  a tree: every directory is reached from the root, every other directory than the root has exactly
  one entry, no directory lies below itself. Every entry lies in a directory and leads to a row that
  exists, a directory row for an entry of type directory and a file row for any other entry; no inode
  has both rows; and the link count of a file row is the number of its entries.
\<close>

theorem reachable_tree:
  assumes "ns_reachable enc db"
  shows "(\<forall>d. find_access db d \<noteq> None \<longrightarrow> rooted (emap db) d \<and> (d \<noteq> ROOT_INO \<longrightarrow> length (entries_of db d) = 1))
    \<and> (\<forall>p n e. find_entry db p n = Some e \<longrightarrow> find_access db p \<noteq> None \<and>
      (if ct_type e = EtDirectory then find_access db (ct_inode e) \<noteq> None \<and> \<not> under (emap db) (ct_inode e) p
       else find_file db (ct_inode e) \<noteq> None))
    \<and> (\<forall>i f. find_file db i = Some f \<longrightarrow> find_access db i = None \<and> fi_nlink f = int (length (entries_of db i)))"
proof (intro conjI allI impI)
  note inv = reachable_ns_inv [OF assms]
  show "rooted (emap db) d" "d \<noteq> ROOT_INO \<Longrightarrow> length (entries_of db d) = 1" if "find_access db d \<noteq> None" for d using inv_dir [OF inv that] .
  show "find_access db p \<noteq> None" if "find_entry db p n = Some e" for p n e using inv_entry(1) [OF inv that] .
  show "if ct_type e = EtDirectory then find_access db (ct_inode e) \<noteq> None \<and> \<not> under (emap db) (ct_inode e) p else find_file db (ct_inode e) \<noteq> None"
    if "find_entry db p n = Some e" for p n e using inv_entry(2,3) [OF inv that] by presburger
  show "find_access db i = None" "fi_nlink f = int (length (entries_of db i))" if "find_file db i = Some f" for i f using inv_file [OF inv that] .
qed

theorem reachable_tree_witness:
  "rooted (emap demo_db) 2 \<and> length (entries_of demo_db 2) = 1 \<and> find_access demo_db 3 = None \<and> length (entries_of demo_db 3) = 2"
proof -
  have d: "find_access demo_db 2 \<noteq> None" "(2::int) \<noteq> ROOT_INO" by (simp_all add: find_access_def ROOT_INO_def demo_defs)
  obtain f where f: "find_file demo_db 3 = Some f" "fi_nlink f = 2" by (simp add: find_file_def demo_defs new_file_row_def)
  note T = reachable_tree [OF demo_reachable(4) [of "\<lambda>p t. None"]]
  from T [THEN conjunct1, rule_format, OF d(1)] T [THEN conjunct2, THEN conjunct2, rule_format, OF f(1)] show ?thesis using d(2) f(2) by simp
qed

text \<open>
  C5. The tables refine the abstract tree: every call of the store, successful or failing, is a step
  of the tree of directories and entries that the tables stand for.
\<close>

theorem step_refines_tree:
  assumes "ns_reachable enc db" and "ns_step enc db db'"
  shows "tree_step (tree_of db) (tree_of db')"
  using step_refines [OF assms(2) reachable_ns_inv [OF assms(1)]] by (simp add: refines_def)

theorem step_refines_tree_witness:
  "tree_step (tree_of demo_create) (tree_of demo_db) \<and> tree_of demo_create \<noteq> tree_of demo_db"
proof -
  have "ns_step (\<lambda>p t. None) demo_create (snd (link 3 3 1 ''b'' demo_create))" by (rule ns_link) (simp add: demo_defs i32_max_def)
  then have "tree_step (tree_of demo_create) (tree_of demo_db)" unfolding demo_steps by (rule step_refines_tree [OF demo_reachable(3)])
  moreover have "emap demo_create (1, ''b'') = None" "emap demo_db (1, ''b'') \<noteq> None" by (simp_all add: emap_def ct_key_def demo_defs)
  then have "tree_of demo_create \<noteq> tree_of demo_db" unfolding tree_of_def by (metis tree.ext_inject)
  ultimately show ?thesis by blast
qed

section \<open>Renaming\<close>

lemma lookup_emap: "lookup db p n = map_option fst (emap db (p, n))"
  by (simp add: lookup_def find_entry_emap [symmetric] option.map_comp comp_def)

text \<open>
  C17. A rename that succeeds and reports \<open>renamed\<close> takes the source name away, gives the inode the
  new name and changes no other name; one that succeeds without renaming found both names on the
  same inode and changed nothing. With \<open>noreplace\<close> the new name was free.
\<close>

theorem rename_moves_entry:
  assumes "ns_reachable enc db" and "rename_with_mode enc now p n q m noreplace db = (Inr out, db')"
  shows "lookup db p n = Some (ro_ino out) \<and> (noreplace \<longrightarrow> lookup db q m = None)
    \<and> (if ro_renamed out then lookup db' q m = Some (ro_ino out) \<and> lookup db' p n = None
         \<and> (\<forall>p' n'. (p', n') \<noteq> (p, n) \<and> (p', n') \<noteq> (q, m) \<longrightarrow> lookup db' p' n' = lookup db p' n')
       else db' = db \<and> lookup db q m = Some (ro_ino out))"
proof -
  note R = rename_effect [OF reachable_ns_inv [OF assms(1)] assms(2)]
  obtain t where t: "emap db (p, n) = Some (ro_ino out, t)"
    and c: "if ro_renamed out then emap db' = (emap db)((p, n) := None, (q, m) \<mapsto> (ro_ino out, t))
           \<and> replaced_ok (ro_ino out) t (emap db (q, m)) (emap db) (dirs db) (dirs db')
         else db' = db \<and> (\<exists>t'. emap db (q, m) = Some (ro_ino out, t'))"
    using R(2) by blast
  show ?thesis
  proof (cases "ro_renamed out")
    case True
    then have E: "emap db' = (emap db)((p, n) := None, (q, m) \<mapsto> (ro_ino out, t))" and ok: "replaced_ok (ro_ino out) t (emap db (q, m)) (emap db) (dirs db) (dirs db')"
      using c by simp_all
    have "(p, n) \<noteq> (q, m)" using ok t by (auto simp: replaced_ok_def)
    then show ?thesis using True t R(3) by (auto simp: lookup_emap E)
  next
    case False
    then show ?thesis using c t R(3) by (auto simp: lookup_emap)
  qed
qed

theorem rename_moves_entry_witness:
  "\<exists>out db'. rename_with_mode (\<lambda>p t. None) 5 2 ''f'' 1 ''g'' True demo_create = (Inr out, db') \<and> ro_renamed out
     \<and> lookup db' 1 ''g'' = Some 3 \<and> lookup db' 2 ''f'' = None"
proof -
  obtain out db' where op: "rename_with_mode (\<lambda>p t. None) 5 2 ''f'' 1 ''g'' True demo_create = (Inr out, db')" and o: "ro_renamed out" "ro_ino out = 3"
    by (simp add: rename_with_mode_def validate_entry_move_def rename_apply_def move_entry_def touch_parents_def delete_content_def ns_eval demo_defs)
  then show ?thesis using rename_moves_entry [OF demo_reachable(3) op] by auto
qed

lemma rbind_Inl_iff: "rbind m f = Inl e \<longleftrightarrow> m = Inl e \<or> (\<exists>x. m = Inr x \<and> f x = Inl e)"
  by (cases m) auto

lemma move_entry_error: "move_entry now src nlink fo q m db = Inl e \<Longrightarrow> e = DatabaseError"
  by (auto simp: move_entry_def rbind_Inl_iff insert_content_def insert_link_def split: if_splits option.splits)

lemma touch_parents_error: "touch_parents e0 now p q db = Inl e \<Longrightarrow> e = e0 \<or> e = ParentNotFound p"
  by (auto simp: touch_parents_def rbind_Inl_iff touch_parent_def split: if_splits option.splits)

lemma rename_apply_dir_error:
  assumes d: "ct_type src = EtDirectory" and op: "rename_apply enc now src nlink fo p q m ex db = Inl e"
  shows "e \<noteq> InvalidPath msg"
proof -
  have replace: "e' = DirectoryNotEmpty (ct_inode x) \<or> e' = MetaIoKind IoNotADirectory" if "replace_existing enc now src x db = Inl e'" for x e'
    using that d by (auto simp: replace_existing_def rbind_Inl_iff Let_def split: if_splits)
  show ?thesis
    using op by (auto simp: rename_apply_def Let_def rbind_Inl_iff split: option.splits if_splits dest!: replace move_entry_error touch_parents_error)
qed

text \<open>
  C31. Moving a directory is refused as an invalid path exactly when the new parent is the directory
  itself or lies below it, and the refusal changes nothing.
\<close>

theorem rename_below_itself_refused:
  assumes "ns_reachable enc db" and e: "find_entry db p n = Some e" and d: "ct_type e = EtDirectory" and q: "find_access db q \<noteq> None"
  shows "(\<exists>msg. fst (rename_with_mode enc now p n q m noreplace db) = Inl (InvalidPath msg)) \<longleftrightarrow> under (emap db) (ct_inode e) q"
proof -
  note inv = reachable_ns_inv [OF assms(1)]
  let ?r = "fst (rename_with_mode enc now p n q m noreplace db)"
  have qd: "q \<in> dirs db" using q by (simp add: ns_view)
  have val: "validate_entry_move db e q = (if under (emap db) (ct_inode e) q then Inl (InvalidPath ''cannot move directory below itself'') else Inr ())"
    using validate_directory_move_iff [OF ns_invD(1,2) [OF inv] qd, of "{}" "ct_inode e"] d by (simp add: validate_entry_move_def)
  have "lock_namespace_for_rename db = Inr ()"
    using ns_okD(1) [OF ns_invD(2) [OF inv]] find_access_None [of db ROOT_INO] by (auto simp: lock_namespace_for_rename_def)
  moreover obtain a where "find_access db q = Some a" "is_directory (ac_perm a)"
    using q find_access_Some(3) [of db q] tables_wfD(4) [OF ns_invD(1) [OF inv]] by blast
  ultimately have r: "?r = fst (run_txn db (rbind (validate_entry_move db e q) (\<lambda>_.
        rbind (case find_file db (ct_inode e) of Some f \<Rightarrow> Inr (fi_nlink f)
               | None \<Rightarrow> ok_or (NotFound (ct_inode e)) (map_option ac_nlink (find_access db (ct_inode e)))) (\<lambda>nlink.
        if noreplace \<and> find_entry db q m \<noteq> None then Inl (AlreadyExists q m)
        else rename_apply enc now e nlink (find_file db (ct_inode e)) p q m (find_entry db q m) db))))"
    using e by (simp add: rename_with_mode_def)
  show ?thesis
  proof (cases "under (emap db) (ct_inode e) q")
    case True
    then show ?thesis unfolding r val by (simp add: run_txn_def)
  next
    case False
    have never: "rename_apply enc now e nlink fo p q m ex db \<noteq> Inl (InvalidPath msg)" for nlink fo ex msg
      using rename_apply_dir_error [OF d] by blast
    from False show ?thesis
      unfolding r val by (auto simp: never run_txn_def ok_or_def rbind_Inl_iff split: sum.splits option.splits if_splits)
  qed
qed

theorem rename_below_itself_refused_witness:
  "\<exists>msg. fst (rename_with_mode (\<lambda>p t. None) 5 1 ''d'' 2 ''x'' False demo_mkdir) = Inl (InvalidPath msg)"
proof -
  let ?e = "\<lparr>ct_parent = 1, ct_name = ''d'', ct_inode = 2, ct_type = EtDirectory\<rparr>"
  have "find_entry demo_mkdir 1 ''d'' = Some ?e" "ct_type ?e = EtDirectory" "find_access demo_mkdir 2 \<noteq> None"
    by (simp_all add: find_entry_def find_access_def demo_defs)
  note R = rename_below_itself_refused [OF demo_reachable(2) [of "\<lambda>p t. None"] this, of 5 "''x''" False]
  have "under (emap demo_mkdir) (ct_inode ?e) 2" using under_refl [of "emap demo_mkdir" 2] by simp
  then show ?thesis using R by blast
qed

lemma validate_at_root: "i \<noteq> ROOT_INO \<Longrightarrow> validate_directory_move db vis ROOT_INO i = Inr ()"
  by (subst validate_directory_move.simps) simp

text \<open>Directories renamed, exchanged and removed in the root directory; \<open>demo_dirs cs\<close> are its entries.\<close>

definition demo_dirs :: "int \<Rightarrow> (string \<times> int) list \<Rightarrow> access_row list \<Rightarrow> link_row list \<Rightarrow> u64 \<Rightarrow> meta_db" where
  "demo_dirs now cs ds ls c =
     \<lparr>access_rows = demo_dir 1 0 now # ds,
      content_rows = map (\<lambda>(n, i). \<lparr>ct_parent = 1, ct_name = n, ct_inode = i, ct_type = EtDirectory\<rparr>) cs,
      file_rows = [], link_rows = ls, xattr_rows = [], store_db = demo_store c\<rparr>"

definition demo_swapped :: meta_db where
  "demo_swapped = demo_dirs 5 [(''c'', 2)] [demo_dir 2 1 1] [(2, 1, ''b'')] 4"

lemmas rename_eval = rename_with_mode_def validate_entry_move_def rename_apply_def move_entry_def touch_parents_def delete_content_def
  delete_link_def rename_exchange_def side_file_def exchange_file_def rmdir_def delete_access_def delete_xattrs_def children_of_def
  validate_at_root [unfolded ROOT_INO_def]

lemma demo_swapped_reachable: "ns_reachable enc demo_swapped"
proof -
  have "demo_root = demo_dirs 0 [] [] [] 2" by (simp add: demo_dirs_def demo_defs)
  then have r0: "ns_reachable enc (demo_dirs 0 [] [] [] 2)" using demo_reachable(1) [of enc] by simp
  have "snd (mkdir 1 1 ''a'' (demo_dirs 0 [] [] [] 2)) = demo_dirs 1 [(''a'', 2)] [demo_dir 2 1 1] [] 3"
    using small_ids keys_differ by (simp add: demo_dirs_def ns_eval demo_defs fun_upd_twist)
  from ns_next [OF r0 ns_mkdir, of 1 1 "''a''", unfolded this] have r1: "ns_reachable enc (demo_dirs 1 [(''a'', 2)] [demo_dir 2 1 1] [] 3)" .
  have "snd (mkdir 2 1 ''c'' (demo_dirs 1 [(''a'', 2)] [demo_dir 2 1 1] [] 3))
      = demo_dirs 2 [(''a'', 2), (''c'', 3)] [demo_dir 2 1 1, demo_dir 3 2 2] [] 4"
    using small_ids keys_differ by (simp add: demo_dirs_def ns_eval demo_defs fun_upd_twist)
  from ns_next [OF r1 ns_mkdir, of 2 1 "''c''", unfolded this]
  have r2: "ns_reachable enc (demo_dirs 2 [(''a'', 2), (''c'', 3)] [demo_dir 2 1 1, demo_dir 3 2 2] [] 4)" .
  have "snd (rename_with_mode enc 3 1 ''a'' 1 ''b'' False (demo_dirs 2 [(''a'', 2), (''c'', 3)] [demo_dir 2 1 1, demo_dir 3 2 2] [] 4))
      = demo_dirs 3 [(''c'', 3), (''b'', 2)] [demo_dir 2 1 1, demo_dir 3 2 2] [(2, 1, ''b'')] 4"
    by (simp add: demo_dirs_def rename_eval ns_eval demo_defs)
  from ns_next [OF r2 ns_rename, of 3 1 "''a''" 1 "''b''" False, unfolded this]
  have r3: "ns_reachable enc (demo_dirs 3 [(''c'', 3), (''b'', 2)] [demo_dir 2 1 1, demo_dir 3 2 2] [(2, 1, ''b'')] 4)" .
  have "snd (rename_exchange 4 1 ''b'' 1 ''c'' (demo_dirs 3 [(''c'', 3), (''b'', 2)] [demo_dir 2 1 1, demo_dir 3 2 2] [(2, 1, ''b'')] 4))
      = demo_dirs 4 [(''b'', 3), (''c'', 2)] [demo_dir 2 1 1, demo_dir 3 2 2] [(2, 1, ''b'')] 4"
    by (simp add: demo_dirs_def rename_eval ns_eval demo_defs)
  from ns_next [OF r3 ns_exchange, of 4 1 "''b''" 1 "''c''", unfolded this]
  have r4: "ns_reachable enc (demo_dirs 4 [(''b'', 3), (''c'', 2)] [demo_dir 2 1 1, demo_dir 3 2 2] [(2, 1, ''b'')] 4)" .
  have "snd (rmdir 5 1 ''b'' (demo_dirs 4 [(''b'', 3), (''c'', 2)] [demo_dir 2 1 1, demo_dir 3 2 2] [(2, 1, ''b'')] 4)) = demo_swapped"
    by (simp add: demo_swapped_def demo_dirs_def rename_eval ns_eval demo_defs)
  from ns_next [OF r4 ns_rmdir, of 5 1 "''b''", unfolded this] show ?thesis .
qed

text \<open>
  Renaming a directory records a link row for it, which an exchange leaves behind: a state is
  reachable in which a directory cannot be renamed to a free name of its own parent, because the row
  of an earlier name is still there and the insertion fails in the database.
\<close>

theorem directory_rename_blocked:
  "\<exists>db e. ns_reachable enc db \<and> find_entry db 1 ''c'' = Some e \<and> ct_type e = EtDirectory \<and> find_entry db 1 ''b'' = None
     \<and> fst (rename_with_mode enc now 1 ''c'' 1 ''b'' False db) = Inl DatabaseError"
proof -
  let ?e = "\<lparr>ct_parent = 1, ct_name = ''c'', ct_inode = 2, ct_type = EtDirectory\<rparr>"
  have "find_entry demo_swapped 1 ''c'' = Some ?e" "find_entry demo_swapped 1 ''b'' = None"
    "fst (rename_with_mode enc now 1 ''c'' 1 ''b'' False demo_swapped) = Inl DatabaseError"
    by (simp_all add: demo_swapped_def demo_dirs_def rename_eval ns_eval demo_defs)
  then show ?thesis using demo_swapped_reachable [of enc] by (intro exI [of _ demo_swapped] exI [of _ ?e]) simp
qed

section \<open>Removing and restoring\<close>

lemma lookup_parts_mono:
  assumes sub: "\<And>k v. emap db k = Some v \<Longrightarrow> emap db' k = Some v" and "lookup_parts db cur ns = Some (d, FtDir)"
  shows "lookup_parts db' cur ns = Some (d, FtDir)"
  using assms(2)
proof (induction ns arbitrary: cur)
  case (Cons n ns)
  obtain e where e: "find_entry db cur n = Some e" using Cons.prems by (auto split: option.splits)
  then have "emap db' (cur, n) = Some (ct_inode e, ct_type e)" using sub find_entry_Some(1) by blast
  then obtain e' where e': "find_entry db' cur n = Some e'" "ct_inode e' = ct_inode e" "ct_type e' = ct_type e"
    using find_entry_emap [of db' cur n] by auto
  then show ?case using Cons e by (auto split: if_splits)
qed simp

lemma other_entry:
  assumes inv: "ns_inv db" and e: "find_entry db p n = Some e" and f: "fmap db (ct_inode e) = Some f" and two: "fi_nlink f = 2"
  shows "find (\<lambda>r. ct_inode r = ct_inode e) (content_rows (delete_content p n db)) \<noteq> None"
proof -
  note wf = ns_invD(1) [OF inv] and ok = ns_invD(2) [OF inv]
  let ?K = "ekeys (emap db) (ct_inode e)"
  have "card ?K = 2" using file_okD(1) [OF ns_okD(7) [OF ok f] refl] ns_okD(6) [OF ok f] two by simp
  then have "?K \<noteq> {(p, n)}" by auto
  moreover have "(p, n) \<in> ?K" using find_entry_Some(1) [OF e] by (rule ekeysI)
  ultimately obtain k where "k \<in> ?K" "k \<noteq> (p, n)" by blast
  then obtain r where "r \<in> set (content_rows db)" "ct_key r \<noteq> (p, n)" "ct_inode r = ct_inode e"
    using ekeys_rows [OF tables_wfD(1) [OF wf], of k "ct_inode e"] by blast
  then show ?thesis by (auto simp: find_None_iff delete_content_def ct_key_def)
qed

text \<open>The trash record of a file that loses its last name: the path by which it was found.\<close>

lemma last_link_trash:
  assumes inv: "ns_inv db" and e: "find_entry db p n = Some e" and t: "ct_type e \<noteq> EtDirectory" and f: "fmap db (ct_inode e) = Some f"
    and one: "fi_nlink f = 1" and total: "\<forall>path t. enc path t \<noteq> None"
  obtains parts v where "record_trash enc now (ct_inode e) p n (delete_content p n db)
      = Inr (put_xattr (ct_inode e) CONTROL_TRASH_XATTR_NAME v (delete_content p n db))"
    and "lookup_parts db ROOT_INO (parts @ [n]) = Some (ct_inode e, file_type_of_entry (ct_type e))" and "enc (join_slash (parts @ [n])) now = Some v"
proof -
  note wf = ns_invD(1) [OF inv] and ok = ns_invD(2) [OF inv] and E = find_entry_Some [OF e]
  let ?db = "delete_content p n db" and ?f = "f\<lparr>fi_nlink := 0, fi_deleted := True, fi_parent := 0\<rparr>"
  note V = delete_content_view [OF wf refl, of p n]
  have rel: "released f (p, n) None (links db) ?f (links db)" using one by (simp add: released_def)
  have ok': "ns_ok (dirs ?db) (emap ?db) ((fmap db)(ct_inode e \<mapsto> ?f)) (links db)"
    unfolding V(1,2) by (rule ns_drop_link [OF ok E(1) t f rel]) simp
  have "p \<in> dirs ?db" using ns_okD(4) [OF ok E(1)] V(2) by (simp add: entry_ok_def)
  from trash_parts_path [OF V(5) ok' this, of "{}" "[n]"] obtain parts where
    parts: "trash_parts ?db {} p [n] = Inr (parts @ [n])" "lookup_parts ?db ROOT_INO parts = Some (p, FtDir)" by auto
  have "lookup_parts db ROOT_INO parts = Some (p, FtDir)"
    by (rule lookup_parts_mono [OF _ parts(2)]) (auto simp: V(1) split: if_splits)
  from lookup_parts_last [OF this e] have look: "lookup_parts db ROOT_INO (parts @ [n]) = Some (ct_inode e, file_type_of_entry (ct_type e))" .
  obtain v where v: "enc (join_slash (parts @ [n])) now = Some v" using total by blast
  have "record_trash enc now (ct_inode e) p n ?db = Inr (put_xattr (ct_inode e) CONTROL_TRASH_XATTR_NAME v ?db)"
    using parts(1) v by (simp add: record_trash_def)
  then show thesis using look v by (rule that)
qed

lemma release_link_succeeds:
  assumes inv: "ns_inv db" and e: "find_entry db p n = Some e" and t: "ct_type e \<noteq> EtDirectory" and f: "fmap db (ct_inode e) = Some f"
    and total: "\<forall>path t. enc path t \<noteq> None"
  shows "\<exists>db2. release_link enc now f p n (find (\<lambda>r. ct_inode r = ct_inode e) (content_rows (delete_content p n db))) (delete_content p n db) = Inr db2"
proof -
  note ok = ns_invD(2) [OF inv]
  have fi: "fi_inode f = ct_inode e" using ns_okD(6) [OF ok f] .
  have pos: "0 < fi_nlink f" using linked_pos [OF ok find_entry_Some(1) [OF e] f] .
  consider "fi_nlink f > 2" | "fi_nlink f = 2" | "fi_nlink f = 1" using pos by linarith
  then show ?thesis
  proof cases
    case 2
    then show ?thesis using other_entry [OF inv e f 2] by (auto simp: release_link_def Let_def)
  next
    case 3
    obtain v where "record_trash enc now (ct_inode e) p n (delete_content p n db)
        = Inr (put_xattr (ct_inode e) CONTROL_TRASH_XATTR_NAME v (delete_content p n db))"
      using inv e t f 3 total by (rule last_link_trash)
    then show ?thesis using 3 by (simp add: release_link_def Let_def fi)
  qed (simp add: release_link_def Let_def)
qed

lemma lock_ok: "ns_inv db \<Longrightarrow> lock_namespace_for_rename db = Inr ()"
  using ns_okD(1) [OF ns_invD(2), of db] find_access_None [of db ROOT_INO] by (auto simp: lock_namespace_for_rename_def)

text \<open>
  C30. The outcome of unlink in every reachable state, when the JSON encoder of trash records does not
  fail: it succeeds exactly on names of inodes that are not directories, and the two failures are an
  absent name and a directory.
\<close>

theorem unlink_outcome:
  assumes "ns_reachable enc db" and total: "\<forall>path t. enc path t \<noteq> None"
  shows "fst (unlink enc now p n db) = (case find_entry db p n of
       None \<Rightarrow> Inl (Internal ''File not found in parent'')
     | Some e \<Rightarrow> if ct_type e = EtDirectory then Inl (NotDirectory (ct_inode e)) else Inr ())"
proof (cases "find_entry db p n")
  case None
  then show ?thesis using lock_ok [OF reachable_ns_inv [OF assms(1)]] by (simp add: unlink_def run_txn_def)
next
  case (Some e)
  note inv = reachable_ns_inv [OF assms(1)]
  show ?thesis
  proof (cases "ct_type e = EtDirectory")
    case True
    then show ?thesis using lock_ok [OF inv] Some by (simp add: unlink_def run_txn_def)
  next
    case False
    obtain f where f: "fmap db (ct_inode e) = Some f" using inv_entry(3) [OF inv Some False] by (auto simp: find_file_fmap)
    obtain db2 where r: "release_link enc now f p n (find (\<lambda>r. ct_inode r = ct_inode e) (content_rows (delete_content p n db))) (delete_content p n db) = Inr db2"
      using release_link_succeeds [OF inv Some False f total] by blast
    note V = delete_content_view [OF ns_invD(1) [OF inv] refl, of p n]
    have "fmap (delete_content p n db) (fi_inode f) = Some f" using f ns_okD(6) [OF ns_invD(2) [OF inv] f] V(3) by simp
    with V(5) obtain "dirs db2 = dirs (delete_content p n db)" using r by (rule release_link_view)
    then have "dirs db2 = dirs db" using V(2) by simp
    moreover have "p \<in> dirs db" using inv_entry(1) [OF inv Some] by (simp add: ns_view)
    ultimately obtain db3 where "touch_parent (ParentNotFound p) now p db2 = Inr db3" using touch_parent_ok [of p db2] by blast
    then show ?thesis using lock_ok [OF inv] Some False f r by (simp add: unlink_def run_txn_def Let_def find_file_fmap)
  qed
qed

theorem unlink_outcome_witness:
  "fst (unlink (\<lambda>path t. Some []) 5 2 ''f'' demo_db) = Inr () \<and> fst (unlink (\<lambda>path t. Some []) 5 1 ''d'' demo_db) = Inl (NotDirectory 2)"
proof -
  let ?enc = "\<lambda>(path :: string) (t :: int). Some ([] :: bytes)"
  note O = unlink_outcome [OF demo_reachable(4) [of ?enc]]
  have "fst (unlink ?enc 5 2 ''f'' demo_db) = Inr ()" by (subst O) (simp_all add: find_entry_def demo_defs)
  moreover have "fst (unlink ?enc 5 1 ''d'' demo_db) = Inl (NotDirectory 2)" by (subst O) (simp_all add: find_entry_def demo_defs)
  ultimately show ?thesis by blast
qed

text \<open>What unlink leaves behind when it takes the last name of a file away.\<close>

lemma unlink_last:
  assumes inv: "ns_inv db" and e: "find_entry db p n = Some e" and t: "ct_type e \<noteq> EtDirectory" and f: "fmap db (ct_inode e) = Some f"
    and one: "fi_nlink f = 1" and total: "\<forall>path t. enc path t \<noteq> None"
  obtains parts v db' where "unlink enc now p n db = (Inr (), db')"
    and "lookup_parts db ROOT_INO (parts @ [n]) = Some (ct_inode e, file_type_of_entry (ct_type e))" and "enc (join_slash (parts @ [n])) now = Some v"
    and "map_of (xattr_rows db') (ct_inode e, CONTROL_TRASH_XATTR_NAME) = Some v"
    and "fmap db' = (fmap db)(ct_inode e \<mapsto> f\<lparr>fi_deleted := True, fi_nlink := 0, fi_parent := 0, fi_mtime := now, fi_ctime := now\<rparr>)"
proof -
  note wf = ns_invD(1) [OF inv] and ok = ns_invD(2) [OF inv]
  let ?db1 = "delete_content p n db" and ?i = "ct_inode e"
  let ?f = "f\<lparr>fi_deleted := True, fi_nlink := 0, fi_parent := 0, fi_mtime := now, fi_ctime := now\<rparr>"
  have fi: "fi_inode f = ?i" using ns_okD(6) [OF ok f] .
  obtain parts v where tr: "record_trash enc now ?i p n ?db1 = Inr (put_xattr ?i CONTROL_TRASH_XATTR_NAME v ?db1)"
    and look: "lookup_parts db ROOT_INO (parts @ [n]) = Some (?i, file_type_of_entry (ct_type e))" and v: "enc (join_slash (parts @ [n])) now = Some v"
    using inv e t f one total by (rule last_link_trash)
  let ?db2 = "update_file ?f (put_xattr ?i CONTROL_TRASH_XATTR_NAME v ?db1)"
  note V = delete_content_view [OF wf refl, of p n]
  have "fmap (put_xattr ?i CONTROL_TRASH_XATTR_NAME v ?db1) (fi_inode ?f) \<noteq> None" using f fi V(3) by (simp add: ns_view)
  note U = update_file_view [OF _ this refl]
  have wf1: "tables_wf (put_xattr ?i CONTROL_TRASH_XATTR_NAME v ?db1)" using V(5) by (simp add: ns_view)
  have "p \<in> dirs ?db2" using inv_entry(1) [OF inv e] U(2) [OF wf1] V(2) by (simp add: ns_view)
  then obtain db3 where touch: "touch_parent (ParentNotFound p) now p ?db2 = Inr db3" using touch_parent_ok by blast
  have "unlink enc now p n db = (Inr (), db3)"
    using lock_ok [OF inv] e t f tr touch one by (simp add: unlink_def run_txn_def Let_def find_file_fmap release_link_def fi)
  moreover have "xattr_rows db3 = xattr_rows ?db2" using touch by (auto simp: touch_parent_def update_access_def split: option.splits)
  then have "map_of (xattr_rows db3) (?i, CONTROL_TRASH_XATTR_NAME) = Some v" by (simp add: update_file_def put_xattr_def update_conv')
  moreover have "fmap db3 = (fmap db)(?i \<mapsto> ?f)" using touch_parent_view(3) [OF U(5) [OF wf1] touch] U(1) [OF wf1] V(3) fi by (simp add: ns_view)
  ultimately show thesis using look v by (intro that)
qed

lemma unlink_last_row:
  assumes inv: "ns_inv db" and e: "find_entry db p n = Some e" and f: "fmap db (ct_inode e) = Some f" and one: "fi_nlink f = 1"
    and un: "unlink enc now p n db = (Inr (), db1)"
  shows "fmap db1 (ct_inode e) = Some (f\<lparr>fi_deleted := True, fi_nlink := 0, fi_parent := 0, fi_mtime := now, fi_ctime := now\<rparr>)"
proof -
  let ?f = "f\<lparr>fi_deleted := True, fi_nlink := 0, fi_parent := 0, fi_mtime := now, fi_ctime := now\<rparr>" and ?i = "ct_inode e"
  have fi: "fi_inode f = ?i" using ns_okD(6) [OF ns_invD(2) [OF inv] f] .
  obtain dbx where tr: "record_trash enc now ?i p n (delete_content p n db) = Inr dbx"
    and touch: "touch_parent (ParentNotFound p) now p (update_file ?f dbx) = Inr db1"
    using un e f one fi by (auto simp: unlink_def run_txn_Inr result_simps find_file_fmap release_link_def Let_def split: if_splits)
  note V = delete_content_view [OF ns_invD(1) [OF inv] refl, of p n] and T = record_trash_view [OF tr]
  have wf: "tables_wf dbx" using V(5) T(5) by simp
  have "fmap dbx (fi_inode ?f) \<noteq> None" using f fi V(3) T(3) by simp
  note U = update_file_view [OF wf this refl]
  show ?thesis using touch_parent_view(3) [OF U(5) touch] U(1) fi by simp
qed

lemma restore_succeeds:
  assumes inv: "ns_inv db" and p: "p \<in> dirs db" and free: "emap db (p, n) = None" and f: "fmap db i = Some f" and del: "fi_deleted f" "fi_nlink f = 0"
  shows "\<exists>db'. restore_deleted_file now i p n db = (Inr (), db')"
proof -
  let ?r = "\<lparr>ct_parent = p, ct_name = n, ct_inode = i, ct_type = (if fi_symlink f \<noteq> None then EtSymlink else EtFile)\<rparr>"
  obtain db1 where s1: "insert_content ?r db = Inr db1" using insert_content_free [of db ?r] free by (simp add: ct_key_def)
  let ?db2 = "update_file (f\<lparr>fi_deleted := False, fi_nlink := 1, fi_parent := p, fi_mtime := now\<rparr>) db1"
  have "p \<in> dirs (?db2\<lparr>xattr_rows := AList.delete (i, CONTROL_TRASH_XATTR_NAME) (xattr_rows ?db2)\<rparr>)"
    using p insert_content_view(3) [OF ns_invD(1) [OF inv] s1] by (simp add: update_file_def)
  from touch_parent_ok [OF this] obtain db3 where
    "touch_parent (ParentNotFound p) now p (?db2\<lparr>xattr_rows := AList.delete (i, CONTROL_TRASH_XATTR_NAME) (xattr_rows ?db2)\<rparr>) = Inr db3" by blast
  moreover obtain a where "find_access db p = Some a" using p find_access_None [of db p] by auto
  moreover have "find_entry db p n = None" using free by (simp add: ns_view)
  ultimately show ?thesis using lock_ok [OF inv] f del s1 by (simp add: restore_deleted_file_def run_txn_def Let_def find_file_fmap)
qed

text \<open>
  C24. Unlinking the last name of a file and restoring it under that name brings every name back: the
  restore succeeds, all lookups answer as before, and the file row is the old one up to its times.
\<close>

theorem restore_undoes_unlink:
  assumes "ns_reachable enc db" and e: "find_entry db p n = Some e" and t: "ct_type e \<noteq> EtDirectory" and f: "find_file db (ct_inode e) = Some f"
    and one: "fi_nlink f = 1" and un: "unlink enc now p n db = (Inr (), db1)"
  shows "\<exists>db2. restore_deleted_file now' (ct_inode e) p n db1 = (Inr (), db2) \<and> (\<forall>p' n'. lookup db2 p' n' = lookup db p' n')
     \<and> find_file db2 (ct_inode e) = Some (f\<lparr>fi_mtime := now', fi_ctime := now\<rparr>)"
proof -
  note inv = reachable_ns_inv [OF assms(1)]
  let ?i = "ct_inode e"
  have f: "fmap db ?i = Some f" using f by (simp add: find_file_fmap)
  note row = unlink_last_row [OF inv e f one un] and E = find_entry_Some(1) [OF e]
  obtain E1: "emap db1 = (emap db)((p, n) := None)" "dirs db1 = dirs db" "ns_inv db1" using inv un by (rule unlink_effect)
  have p: "p \<in> dirs db1" using inv_entry(1) [OF inv e] E1(2) by (simp add: ns_view)
  obtain db2 where re: "restore_deleted_file now' ?i p n db1 = (Inr (), db2)"
    using restore_succeeds [OF E1(3) p _ row, of n now'] E1(1) by auto
  obtain f1 t' where R: "fmap db1 ?i = Some f1" "emap db2 = (emap db1)((p, n) \<mapsto> (?i, t'))"
    "fmap db2 = (fmap db1)(?i \<mapsto> f1\<lparr>fi_deleted := False, fi_nlink := 1, fi_parent := p, fi_mtime := now'\<rparr>)"
    using E1(3) re by (rule restore_effect) simp
  have look: "lookup db2 p' n' = lookup db p' n'" for p' n' using E by (simp add: lookup_emap R(2) E1(1))
  have fi: "fi_inode f = ?i" using ns_okD(6) [OF ns_invD(2) [OF inv] f] .
  note FO = file_okD [OF ns_okD(7) [OF ns_invD(2) [OF inv] f] refl, unfolded fi]
  have "card (ekeys (emap db) ?i) = 1" using FO(1) one by simp
  then have K: "ekeys (emap db) ?i = {(p, n)}" using ekeysI [of "emap db" "(p, n)" ?i, OF E] by (auto simp: card_1_singleton_iff)
  then have "fi_parent f = p" "\<not> fi_deleted f" using FO(2,3) by auto
  then have "f1\<lparr>fi_deleted := False, fi_nlink := 1, fi_parent := p, fi_mtime := now'\<rparr> = f\<lparr>fi_mtime := now', fi_ctime := now\<rparr>"
    using R(1) row one by auto
  then show ?thesis using re look R(3) by (simp add: find_file_fmap)
qed

theorem restore_undoes_unlink_witness:
  "\<exists>db1 db2. unlink (\<lambda>path t. Some []) 5 2 ''f'' demo_create = (Inr (), db1) \<and> restore_deleted_file 6 3 2 ''f'' db1 = (Inr (), db2)
     \<and> lookup db2 2 ''f'' = Some 3"
proof -
  let ?e = "\<lparr>ct_parent = 2, ct_name = ''f'', ct_inode = 3, ct_type = EtFile\<rparr>" and ?enc = "\<lambda>(path :: string) (t :: int). Some ([] :: bytes)"
  have e: "find_entry demo_create 2 ''f'' = Some ?e" and t: "ct_type ?e \<noteq> EtDirectory" and f: "find_file demo_create (ct_inode ?e) = Some demo_file"
    and one: "fi_nlink demo_file = 1" and look: "lookup demo_create 2 ''f'' = Some 3"
    by (simp_all add: find_entry_def find_file_def lookup_def demo_defs new_file_row_def)
  obtain db1 where un: "unlink ?enc 5 2 ''f'' demo_create = (Inr (), db1)"
    using reachable_ns_inv [OF demo_reachable(3) [of ?enc]] e t f [unfolded find_file_fmap] one by (rule unlink_last [where enc = ?enc]) auto
  from restore_undoes_unlink [OF demo_reachable(3) e t f one un, of 6] show ?thesis using un look by auto
qed

end
