(* ===== verification/NamespacePaths.thy ===== *)
theory NamespacePaths
  imports NamespaceResults
begin

text \<open>
  Paths of an inode and the resolution of a path. The walk of \<^verbatim>\<open>build_paths_from_names\<close> towards the
  root ends because the directories form a tree, and resolving a path it built leads back to the inode.
\<close>

section \<open>Splitting and joining\<close>

definition name_ok :: "string \<Rightarrow> bool" where
  "name_ok n \<longleftrightarrow> n \<noteq> [] \<and> CHR ''/'' \<notin> set n"

definition names_ok :: "meta_db \<Rightarrow> bool" where
  "names_ok db \<longleftrightarrow> (\<forall>r\<in>set (content_rows db). name_ok (ct_name r))"

lemma split_slash_free: "CHR ''/'' \<notin> set n \<Longrightarrow> split_slash n = [n]"
  by (induction n) auto

lemma split_slash_sep: "CHR ''/'' \<notin> set n \<Longrightarrow> split_slash (n @ CHR ''/'' # s) = n # split_slash s"
  by (induction n) (auto split: list.splits)

lemma split_join: "name_ok n \<Longrightarrow> \<forall>x\<in>set ns. name_ok x \<Longrightarrow> split_slash (n @ join_slash ns) = n # ns"
proof (induction ns arbitrary: n)
  case Nil
  then show ?case by (simp add: join_slash_def split_slash_free name_ok_def)
next
  case (Cons m ns)
  have "n @ join_slash (m # ns) = n @ CHR ''/'' # (m @ join_slash ns)" by (simp add: join_slash_def)
  moreover have "split_slash (m @ join_slash ns) = m # ns" using Cons by simp
  moreover have "CHR ''/'' \<notin> set n" using Cons.prems(1) by (simp add: name_ok_def)
  ultimately show ?case using split_slash_sep [of n "m @ join_slash ns"] by simp
qed

lemma dropWhile_name: "name_ok n \<Longrightarrow> dropWhile (\<lambda>c. c = CHR ''/'') (n @ s) = n @ s"
  by (cases n) (auto simp: name_ok_def)

lemma rev_join_last: "name_ok n \<Longrightarrow> dropWhile (\<lambda>c. c = CHR ''/'') (rev (s @ n)) = rev (s @ n)"
  using dropWhile_name [of "rev n" "rev s"] by (simp add: name_ok_def)

lemma trim_join:
  assumes "\<forall>x\<in>set (ns @ [n]). name_ok x"
  shows "trim_slashes (join_slash (ns @ [n])) = tl (join_slash (ns @ [n]))"
proof -
  obtain s where s: "tl (join_slash (ns @ [n])) = s @ n" by (cases ns) (simp_all add: join_slash_def)
  obtain m ms where ms: "ns @ [n] = m # ms" by (cases ns) auto
  have "join_slash (m # ms) = CHR ''/'' # (m @ join_slash ms)" by (simp add: join_slash_def)
  moreover have "name_ok m" using assms ms by simp
  ultimately have "dropWhile (\<lambda>c. c = CHR ''/'') (join_slash (ns @ [n])) = tl (join_slash (ns @ [n]))" unfolding ms by (simp add: dropWhile_name)
  then show ?thesis unfolding trim_slashes_def using assms s rev_join_last [of n s] by simp
qed

lemma lookup_path_join:
  assumes "\<forall>x\<in>set (ns @ [n]). name_ok x"
  shows "lookup_path db (join_slash (ns @ [n])) = lookup_parts db 1 (ns @ [n])"
proof -
  obtain m ms where ms: "ns @ [n] = m # ms" by (cases ns) auto
  have ok: "name_ok m" "\<forall>x\<in>set ms. name_ok x" using assms unfolding ms by auto
  have j: "join_slash (m # ms) = CHR ''/'' # (m @ join_slash ms)" by (simp add: join_slash_def)
  then have "join_slash (ns @ [n]) \<noteq> ''/''" using ok(1) unfolding ms by (simp add: name_ok_def)
  moreover have "trim_slashes (join_slash (ns @ [n])) = m @ join_slash ms" using trim_join [OF assms] j unfolding ms by simp
  moreover have "filter (\<lambda>p. p \<noteq> []) (m # ms) = m # ms" using ok by (auto simp: name_ok_def filter_id_conv)
  ultimately show ?thesis unfolding lookup_path_def ms using split_join [OF ok] by simp
qed

lemma join_slash_inject:
  assumes "\<forall>x\<in>set (ns @ [n]). name_ok x" and "\<forall>x\<in>set (ms @ [m]). name_ok x" and eq: "join_slash (ns @ [n]) = join_slash (ms @ [m])"
  shows "ns @ [n] = ms @ [m]"
proof -
  have parts: "split_slash (tl (join_slash (x # xs))) = x # xs" if "\<forall>y\<in>set (x # xs). name_ok y" for x xs
    using that split_join [of x xs] by (simp add: join_slash_def)
  obtain a as b bs where "ns @ [n] = a # as" "ms @ [m] = b # bs" by (cases ns; cases ms) auto
  then show ?thesis using assms parts [of a as] parts [of b bs] by metis
qed

section \<open>Climbing to the root\<close>

lemma resolve_parent_dir:
  assumes inv: "ns_inv db" and row: "emap db (p, n) = Some (i, EtDirectory)"
  shows "resolve_parent db i = Some (p, n)"
proof -
  obtain e where "entries_of db i = [e]" "ct_parent e = p" "ct_name e = n" using ns_invD(1,2) [OF inv] row by (rule dir_entry_row)
  then show ?thesis by (simp add: resolve_parent_def entries_sorted_def)
qed

lemma entry_name_ok:
  assumes "names_ok db" and "emap db (p, n) = Some v"
  shows "name_ok n"
proof -
  have "find_entry db p n \<noteq> None" using assms(2) by (simp add: ns_view)
  then obtain e where "find_entry db p n = Some e" by blast
  from find_entry_Some(3,5) [OF this] show ?thesis using assms(1) by (auto simp: names_ok_def)
qed

lemma climb_rooted:
  assumes inv: "ns_inv db" and names: "names_ok db" and "rooted (emap db) d"
  shows "\<exists>ns. climb 1 (resolve_parent db) d parts = Some (Some (ns @ parts)) \<and> lookup_parts db 1 ns = Some (d, FtDir) \<and> (\<forall>x\<in>set ns. name_ok x)"
  using assms(3)
proof (induction arbitrary: parts rule: rooted.induct)
  case rooted_root
  show ?case by (rule exI [of _ "[]"]) (simp add: climb.simps ROOT_INO_def)
next
  case (rooted_step p n i)
  note row = rooted_step.hyps(1)
  have "i \<noteq> 1" using ekeys_dir(3) [OF ns_invD(2) [OF inv] row] by (simp add: ROOT_INO_def)
  then have step: "climb 1 (resolve_parent db) i parts = climb 1 (resolve_parent db) p (n # parts)"
    using resolve_parent_dir [OF inv row] by (subst climb.simps) simp
  from rooted_step.IH [of "n # parts"] obtain ns where
    ns: "climb 1 (resolve_parent db) p (n # parts) = Some (Some (ns @ n # parts))" "lookup_parts db 1 ns = Some (p, FtDir)" "\<forall>x\<in>set ns. name_ok x" by blast
  have "find_entry db p n \<noteq> None" using row by (simp add: ns_view)
  then obtain e where e: "find_entry db p n = Some e" by blast
  have "ct_inode e = i" "ct_type e = EtDirectory" using find_entry_Some(1) [OF e] row by simp_all
  then have "lookup_parts db 1 (ns @ [n]) = Some (i, FtDir)" using lookup_parts_snoc [OF ns(2) e] by simp
  moreover have "name_ok n" using entry_name_ok [OF names row] .
  ultimately show ?case using step ns by (intro exI [of _ "ns @ [n]"]) auto
qed

text \<open>The path of one entry.\<close>

lemma climb_entry:
  assumes inv: "ns_inv db" and names: "names_ok db" and r: "r \<in> set (content_rows db)"
  obtains ns where "climb 1 (resolve_parent db) (ct_parent r) [ct_name r] = Some (Some (ns @ [ct_name r]))"
    and "lookup_parts db 1 ns = Some (ct_parent r, FtDir)" and "\<forall>x\<in>set (ns @ [ct_name r]). name_ok x"
    and "lookup_parts db 1 (ns @ [ct_name r]) = Some (ct_inode r, file_type_of_entry (ct_type r))"
proof -
  have row: "emap db (ct_parent r, ct_name r) = Some (ct_inode r, ct_type r)"
    using emap_rows [OF tables_wfD(1) [OF ns_invD(1) [OF inv]], of "ct_key r" "ct_inode r" "ct_type r"] r by (auto simp: ct_key_def)
  have "ct_parent r \<in> dirs db" using ns_okD(4) [OF ns_invD(2) [OF inv] row] by (simp add: entry_ok_def)
  from climb_rooted [OF inv names ns_okD(8) [OF ns_invD(2) [OF inv] this], of "[ct_name r]"] obtain ns where
    ns: "climb 1 (resolve_parent db) (ct_parent r) [ct_name r] = Some (Some (ns @ [ct_name r]))" "lookup_parts db 1 ns = Some (ct_parent r, FtDir)"
      "\<forall>x\<in>set ns. name_ok x" by blast
  have "find_entry db (ct_parent r) (ct_name r) \<noteq> None" using row by (simp add: ns_view)
  then obtain e where e: "find_entry db (ct_parent r) (ct_name r) = Some e" by blast
  have "ct_inode e = ct_inode r" "ct_type e = ct_type r" using find_entry_Some(1) [OF e] row by simp_all
  then have "lookup_parts db 1 (ns @ [ct_name r]) = Some (ct_inode r, file_type_of_entry (ct_type r))" using lookup_parts_last [OF ns(2) e] by simp
  moreover have "name_ok (ct_name r)" using names r by (simp add: names_ok_def)
  ultimately show thesis using ns by (intro that) auto
qed

section \<open>All paths of an inode\<close>

definition path_of :: "meta_db \<Rightarrow> content_row \<Rightarrow> string" where
  "path_of db r = (case climb 1 (resolve_parent db) (ct_parent r) [ct_name r] of Some (Some parts) \<Rightarrow> join_slash parts | _ \<Rightarrow> [])"

lemma path_of_resolves:
  assumes inv: "ns_inv db" and names: "names_ok db" and r: "r \<in> set (content_rows db)"
  shows "lookup_path db (path_of db r) = Some (ct_inode r, file_type_of_entry (ct_type r))"
proof -
  obtain ns where ns: "climb 1 (resolve_parent db) (ct_parent r) [ct_name r] = Some (Some (ns @ [ct_name r]))" "\<forall>x\<in>set (ns @ [ct_name r]). name_ok x"
    "lookup_parts db 1 (ns @ [ct_name r]) = Some (ct_inode r, file_type_of_entry (ct_type r))"
    using inv names r by (rule climb_entry)
  then show ?thesis using lookup_path_join [OF ns(2)] by (simp add: path_of_def)
qed

lemma path_of_inject:
  assumes inv: "ns_inv db" and names: "names_ok db" and r: "r \<in> set (content_rows db)" "r' \<in> set (content_rows db)" and eq: "path_of db r = path_of db r'"
  shows "ct_key r = ct_key r'"
proof -
  obtain ns where ns: "climb 1 (resolve_parent db) (ct_parent r) [ct_name r] = Some (Some (ns @ [ct_name r]))" "lookup_parts db 1 ns = Some (ct_parent r, FtDir)"
    "\<forall>x\<in>set (ns @ [ct_name r]). name_ok x"
    using inv names r(1) by (rule climb_entry)
  obtain ns' where ns': "climb 1 (resolve_parent db) (ct_parent r') [ct_name r'] = Some (Some (ns' @ [ct_name r']))" "lookup_parts db 1 ns' = Some (ct_parent r', FtDir)"
    "\<forall>x\<in>set (ns' @ [ct_name r']). name_ok x"
    using inv names r(2) by (rule climb_entry)
  have "ns @ [ct_name r] = ns' @ [ct_name r']" using eq ns(1) ns'(1) by (intro join_slash_inject [OF ns(3) ns'(3)]) (simp add: path_of_def)
  then show ?thesis using ns(2) ns'(2) by (simp add: ct_key_def)
qed

lemma climb_names_rows:
  assumes inv: "ns_inv db" and names: "names_ok db" and "set es \<subseteq> set (content_rows db)"
  shows "climb_names 1 (resolve_parent db) (map (\<lambda>e. (Some (ct_parent e), ct_name e)) es) = Some (map (path_of db) es)"
  using assms(3)
proof (induction es)
  case (Cons e es)
  obtain ns where "climb 1 (resolve_parent db) (ct_parent e) [ct_name e] = Some (Some (ns @ [ct_name e]))"
    using inv names by (rule climb_entry [of _ e]) (use Cons.prems in auto)
  then show ?case using Cons by (simp add: path_of_def)
qed simp

lemma entries_sorted_set: "set (entries_sorted db i) = set (entries_of db i)"
  by (simp add: entries_sorted_def)

lemma find_hd_filter: "filter P xs = y # ys \<Longrightarrow> find P xs = Some y"
  by (induction xs) (auto split: if_splits)

lemma get_names_entries:
  assumes inv: "ns_inv db" and i: "i \<noteq> 1"
  shows "get_names db i = map (\<lambda>e. (Some (ct_parent e), ct_name e)) (entries_sorted db i)"
proof (cases "find_access db i")
  case (Some a)
  then have "length (entries_of db i) = 1" using inv_dir(2) [OF inv, of i] i by (simp add: ROOT_INO_def)
  then obtain e where e: "entries_of db i = [e]" by (auto simp: length_Suc_conv)
  then have "find (\<lambda>r. ct_inode r = i) (content_rows db) = Some e" by (simp add: entries_of_def find_hd_filter)
  then show ?thesis using Some i e by (simp add: get_names_def entries_sorted_def)
qed (simp add: get_names_def i)

lemma entries_sorted_distinct:
  assumes "ns_inv db"
  shows "distinct (entries_sorted db i)" and "length (entries_sorted db i) = length (entries_of db i)"
proof -
  have "distinct (map ct_key (entries_of db i))" using entries_keys(2) [OF tables_wfD(1) [OF ns_invD(1) [OF assms]]] .
  then have "distinct (entries_of db i)" by (simp add: distinct_map)
  then show "distinct (entries_sorted db i)" by (simp add: entries_sorted_def)
  show "length (entries_sorted db i) = length (entries_of db i)" by (simp add: entries_sorted_def)
qed

text \<open>
  C25. The walk that builds the paths of an inode ends in every reachable state, although its loop has
  no guard against cycles, and gives one path for each entry of the inode, without duplicates and in
  order; resolving any of them leads to the inode. Names are nonempty and free of slashes.
\<close>

theorem get_paths_resolve:
  assumes "ns_reachable enc db" and names: "names_ok db" and i: "i \<noteq> 1"
  shows "\<exists>ps. get_paths db i = Some ps \<and> sorted ps \<and> distinct ps \<and> length ps = length (entries_of db i)
     \<and> (\<forall>path\<in>set ps. \<exists>kind. lookup_path db path = Some (i, kind))"
proof -
  note inv = reachable_ns_inv [OF assms(1)]
  let ?es = "entries_sorted db i" let ?ps = "map (path_of db) ?es"
  have rows: "set ?es \<subseteq> set (content_rows db)" by (auto simp: entries_sorted_set entries_of_def)
  have "get_paths db i = Some (remdups_adj (sort ?ps))"
    using climb_names_rows [OF inv names rows] i by (simp add: get_paths_def build_paths_from_names_def get_names_entries [OF inv i])
  moreover have "inj_on (path_of db) (set ?es)"
  proof (rule inj_onI)
    fix r r' assume r: "r \<in> set ?es" "r' \<in> set ?es" and eq: "path_of db r = path_of db r'"
    then have "ct_key r = ct_key r'" using path_of_inject [OF inv names] rows by blast
    moreover have "distinct (map ct_key (entries_of db i))" using entries_keys(2) [OF tables_wfD(1) [OF ns_invD(1) [OF inv]]] .
    ultimately show "r = r'" using r by (auto simp: entries_sorted_set distinct_map inj_on_def)
  qed
  then have d: "distinct (sort ?ps)" using entries_sorted_distinct(1) [OF inv] by (simp add: distinct_map)
  then have "remdups_adj (sort ?ps) = sort ?ps" by (rule remdups_adj_distinct)
  moreover have "\<exists>kind. lookup_path db path = Some (i, kind)" if "path \<in> set ?ps" for path
  proof -
    obtain r where r: "r \<in> set ?es" "path = path_of db r" using \<open>path \<in> set ?ps\<close> by auto
    then have "ct_inode r = i" by (simp add: entries_sorted_set entries_of_def)
    then show ?thesis using path_of_resolves [OF inv names, of r] r rows by auto
  qed
  ultimately show ?thesis using d entries_sorted_distinct(2) [OF inv, of i] by (intro exI [of _ "sort ?ps"]) simp
qed

theorem get_paths_resolve_witness: "\<exists>ps. get_paths demo_db 3 = Some ps \<and> length ps = 2"
proof -
  have "names_ok demo_db" by (simp add: names_ok_def name_ok_def demo_defs)
  from get_paths_resolve [OF demo_reachable(4) this, of 3] show ?thesis by (auto simp: entries_of_def demo_defs)
qed

section \<open>Attributes in batches\<close>

lemma fold_upd_find:
  assumes "distinct (map k xs)"
  shows "fold (\<lambda>x m. m(k x \<mapsto> v x)) xs m0 i = (case find (\<lambda>x. k x = i) xs of Some x \<Rightarrow> Some (v x) | None \<Rightarrow> m0 i)"
  using assms
proof (induction xs arbitrary: m0)
  case (Cons x xs)
  have "find (\<lambda>y. k y = i) xs = None" if "k x = i"
  proof -
    have "k x \<notin> k ` set xs" using Cons.prems by simp
    then show ?thesis using that by (simp add: find_None_iff image_iff) metis
  qed
  then show ?case using Cons by (auto split: option.splits)
qed simp

lemma find_filter_key: "i \<in> S \<Longrightarrow> find (\<lambda>x. k x = i) (filter (\<lambda>x. k x \<in> S) xs) = find (\<lambda>x. k x = i) xs"
  by (induction xs) auto

text \<open>
  The batch form of stat, which fills a hash map from two bulk queries, answers for every inode of
  the request what single calls of stat answer.
\<close>

theorem batch_stat_single:
  assumes "ns_reachable enc db"
  shows "batch_stat db inodes = map (stat db) inodes"
proof -
  note inv = reachable_ns_inv [OF assms]
  note wf = ns_invD(1) [OF inv]
  have "(let files = filter (\<lambda>f. fi_inode f \<in> set inodes) (file_rows db); dirs = filter (\<lambda>a. ac_inode a \<in> set inodes) (access_rows db);
          m0 = fold (\<lambda>f m. m(fi_inode f \<mapsto> file_meta_to_attr f)) files Map.empty
        in fold (\<lambda>a m. m(ac_inode a \<mapsto> access_meta_to_attr a)) dirs m0) i = stat db i" if i: "i \<in> set inodes" for i
  proof -
    have d: "distinct (map fi_inode (filter (\<lambda>f. fi_inode f \<in> set inodes) (file_rows db)))"
      "distinct (map ac_inode (filter (\<lambda>a. ac_inode a \<in> set inodes) (access_rows db)))"
      using tables_wfD(2,3) [OF wf] by (simp_all add: distinct_map_filter)
    have excl: "find_access db i = None" if "find_file db i = Some f" for f using inv_file(1) [OF inv that] .
    show ?thesis
      unfolding Let_def fold_upd_find [OF d(1)] fold_upd_find [OF d(2)] find_filter_key [OF i]
      using excl by (auto simp: stat_def find_access_def find_file_def split: option.splits)
  qed
  then show ?thesis by (simp add: batch_stat_def Let_def)
qed

theorem batch_stat_single_witness: "batch_stat demo_db [2, 3, 9] = [stat demo_db 2, stat demo_db 3, stat demo_db 9]"
  using batch_stat_single [OF demo_reachable(4), of "[2, 3, 9]"] by simp

section \<open>Listing a directory\<close>

lemma less_snoc_one:
  assumes "l < y" and "CHR 0x00 \<notin> set y"
  shows "l @ [CHR 0x01] \<le> y"
  using assms
proof (induction l arbitrary: y)
  case Nil
  then obtain c t where y: "y = c # t" by (cases y) auto
  then have "c \<noteq> CHR 0x00" using Nil by auto
  then have "(of_char c :: nat) \<noteq> of_char (CHR 0x00)" by (simp only: of_char_eq_iff not_False_eq_True)
  then have "CHR 0x01 \<le> c" by (simp add: less_eq_char_def)
  then show ?case by (simp add: y) (cases "c = CHR 0x01"; simp)
next
  case (Cons a l)
  then show ?case by (cases y) auto
qed

lemma inv_children:
  assumes inv: "ns_inv db"
  shows "distinct (map ct_name (children_of db d))" and "find_entry db d n = Some e \<longleftrightarrow> e \<in> set (children_of db d) \<and> ct_name e = n"
proof -
  have "distinct (map ct_key (content_rows db))" using tables_wfD(1) [OF ns_invD(1) [OF inv]] .
  then have inj: "inj_on ct_key (set (content_rows db))" and dist: "distinct (content_rows db)" by (simp_all add: distinct_map)
  have child: "x \<in> set (children_of db d) \<longleftrightarrow> x \<in> set (content_rows db) \<and> ct_parent x = d" for x by (auto simp: children_of_def)
  have "inj_on ct_name (set (children_of db d))"
  proof (rule inj_onI)
    fix x y assume xy: "x \<in> set (children_of db d)" "y \<in> set (children_of db d)" "ct_name x = ct_name y"
    then have "ct_key x = ct_key y" by (simp add: child ct_key_def)
    then show "x = y" using inj_onD [OF inj, of x y] xy by (simp add: child)
  qed
  then show "distinct (map ct_name (children_of db d))" using dist by (simp add: distinct_map children_of_def)
  show "find_entry db d n = Some e \<longleftrightarrow> e \<in> set (children_of db d) \<and> ct_name e = n"
  proof
    assume "find_entry db d n = Some e"
    from find_entry_Some(2,3,5) [OF this] show "e \<in> set (children_of db d) \<and> ct_name e = n" by (simp add: child)
  next
    assume e: "e \<in> set (children_of db d) \<and> ct_name e = n"
    then have row: "emap db (d, n) = Some (ct_inode e, ct_type e)"
      using emap_rows [OF tables_wfD(1) [OF ns_invD(1) [OF inv]], of "(d, n)" "ct_inode e" "ct_type e"] by (auto simp: child ct_key_def)
    then have "find_entry db d n \<noteq> None" by (simp add: ns_view)
    then obtain e' where e': "find_entry db d n = Some e'" by blast
    have "ct_key e' = ct_key e" using find_entry_Some(4) [OF e'] e by (simp add: child ct_key_def)
    then have "e' = e" using inj_onD [OF inj, of e' e] find_entry_Some(5) [OF e'] e by (simp add: child)
    then show "find_entry db d n = Some e" using e' by simp
  qed
qed

lemma dir_entry_name [simp]: "de_name (dir_entry_of r) = ct_name r" "de_ino (dir_entry_of r) = ct_inode r"
  by (simp_all add: dir_entry_of_def)

lemma readdir_rows:
  assumes "readdir db d = Inr es"
  shows "es = map dir_entry_of (sort_key ct_name (children_of db d))" and "find_access db d \<noteq> None"
    and "0 < limit \<Longrightarrow> readdir_page db d start limit = Inr (take limit (filter (\<lambda>x. start \<le> de_name x) es))"
proof -
  obtain a where a: "find_access db d = Some a" "is_directory (ac_perm a)" and es: "es = map dir_entry_of (sort_key ct_name (children_of db d))"
    using assms by (auto simp: readdir_def result_simps split: if_splits)
  show "es = map dir_entry_of (sort_key ct_name (children_of db d))" "find_access db d \<noteq> None" using es a by simp_all
  have "map dir_entry_of (sort_key ct_name (filter (\<lambda>r. start \<le> ct_name r) (children_of db d))) = filter (\<lambda>x. start \<le> de_name x) es"
    unfolding es by (simp add: filter_sort filter_map comp_def)
  then show "readdir_page db d start limit = Inr (take limit (filter (\<lambda>x. start \<le> de_name x) es))" if "0 < limit"
    using a that by (simp add: readdir_page_def take_map [symmetric])
qed

lemma less_snoc: "(l :: string) < l @ [c]"
  by (induction l) auto

lemma find_distinct: "distinct (map k xs) \<Longrightarrow> find (\<lambda>x. k x = i) xs = Some e \<longleftrightarrow> e \<in> set xs \<and> k e = i"
  by (induction xs) auto

lemma find_map_entry: "find (\<lambda>x. de_name x = n) (map dir_entry_of xs) = map_option dir_entry_of (find (\<lambda>r. ct_name r = n) xs)"
  by (induction xs) auto

text \<open>A page of a strictly ordered list and what follows it.\<close>

lemma page_rest:
  assumes sorted: "sorted_wrt (<) (map de_name (page @ rest))" and nonzero: "\<forall>x\<in>set rest. CHR 0x00 \<notin> set (de_name x)" and some: "page \<noteq> []"
  shows "filter (\<lambda>x. de_name (last page) @ [CHR 0x01] \<le> de_name x) (page @ rest) = rest"
proof -
  let ?l = "de_name (last page)" let ?Q = "\<lambda>x. ?l @ [CHR 0x01] \<le> de_name x"
  have "\<not> ?Q x" if x: "x \<in> set page" for x
  proof -
    have p: "page = butlast page @ [last page]" using some by simp
    have "sorted_wrt (<) (map de_name page)" using sorted by (simp add: sorted_wrt_append)
    then have "sorted_wrt (<) (map de_name (butlast page @ [last page]))" using some by simp
    then have "\<forall>y\<in>set (butlast page). de_name y < ?l" unfolding map_append sorted_wrt_append by simp
    moreover have "x \<in> set (butlast page) \<or> x = last page"
    proof -
      have "x \<in> set (butlast page @ [last page])" using x p by simp
      then show ?thesis by auto
    qed
    ultimately have "de_name x \<le> ?l" by auto
    then show ?thesis using less_snoc [of ?l "CHR 0x01"] by (auto simp: not_le)
  qed
  then have "filter ?Q page = []" by (simp add: filter_empty_conv)
  moreover have "?Q x" if x: "x \<in> set rest" for x
  proof (rule less_snoc_one)
    have "last page \<in> set page" using some by simp
    then show "?l < de_name x" using sorted x by (auto simp: sorted_wrt_append)
    show "CHR 0x00 \<notin> set (de_name x)" using nonzero x by blast
  qed
  then have "filter ?Q rest = rest" by (simp add: filter_id_conv)
  ultimately show ?thesis by (simp only: filter_append append_Nil)
qed

text \<open>
  C38. Listing a directory is complete and pages well: the full listing is in strict order of names and
  contains exactly the entries that lookup finds, and a page taken at \<open>start\<close> is followed, at the
  name of its last entry extended by one character \<open>0x01\<close>, exactly by the rest of the listing. Names
  contain no zero byte.
\<close>

theorem readdir_pages:
  assumes "ns_reachable enc db" and dir: "readdir db d = Inr es" and nonzero: "\<forall>x\<in>set es. CHR 0x00 \<notin> set (de_name x)"
    and limit: "0 < limit" and page: "readdir_page db d start limit = Inr page" and some: "page \<noteq> []"
  shows "sorted_wrt (<) (map de_name es) \<and> (\<forall>n. lookup db d n = map_option de_ino (find (\<lambda>x. de_name x = n) es))
    \<and> length page \<le> limit
    \<and> filter (\<lambda>x. start \<le> de_name x) es = page @ filter (\<lambda>x. de_name (last page) @ [CHR 0x01] \<le> de_name x) es"
proof -
  note inv = reachable_ns_inv [OF assms(1)] and R = readdir_rows [OF dir]
  let ?S = "sort_key ct_name (children_of db d)" and ?fs = "filter (\<lambda>x. start \<le> de_name x) es"
  have names: "map de_name es = map ct_name ?S" by (simp add: R(1) comp_def)
  have dist: "distinct (map ct_name ?S)" using inv_children(1) [OF inv, of d] by (simp add: distinct_map)
  then have strict: "sorted_wrt (<) (map de_name es)" unfolding names by (simp add: strict_sorted_iff)
  have look: "lookup db d n = map_option de_ino (find (\<lambda>x. de_name x = n) es)" for n
  proof -
    have iff: "find_entry db d n = Some e \<longleftrightarrow> find (\<lambda>r. ct_name r = n) ?S = Some e" for e
      using find_distinct [OF dist, of n e] inv_children(2) [OF inv, of d n e] by simp
    have "find_entry db d n = find (\<lambda>r. ct_name r = n) ?S"
    proof (cases "find_entry db d n")
      case None
      then have "find (\<lambda>r. ct_name r = n) ?S \<noteq> Some e" for e using iff [of e] by simp
      then have "find (\<lambda>r. ct_name r = n) ?S = None" by blast
      then show ?thesis using None by simp
    next
      case (Some e)
      then show ?thesis using iff [of e] by simp
    qed
    then show ?thesis by (simp add: lookup_def R(1) find_map_entry option.map_comp comp_def)
  qed
  have pg: "page = take limit ?fs" using R(3) [OF limit, of start] page by simp
  define rest where "rest = drop limit ?fs"
  have split: "?fs = page @ rest" by (simp add: pg rest_def)
  have "sorted_wrt (<) (map de_name ?fs)" using strict by (simp add: sorted_wrt_map sorted_wrt_filter)
  then have fs: "sorted_wrt (<) (map de_name (page @ rest))" unfolding split .
  have sub: "x \<in> set es \<and> start \<le> de_name x" if "x \<in> set (page @ rest)" for x
    using that unfolding split [symmetric] by simp
  have l: "start \<le> de_name (last page)" using sub [of "last page"] last_in_set [OF some] by simp
  have "filter (\<lambda>x. de_name (last page) @ [CHR 0x01] \<le> de_name x) es = filter (\<lambda>x. de_name (last page) @ [CHR 0x01] \<le> de_name x) ?fs"
  proof -
    have "start \<le> de_name x" if "de_name (last page) @ [CHR 0x01] \<le> de_name x" for x
      using order_trans [OF l order_trans [OF less_imp_le [OF less_snoc] that]] .
    then show ?thesis unfolding filter_filter by (intro filter_cong refl iffI conjI; blast?)
  qed
  also have "\<dots> = rest" unfolding split using fs _ some by (rule page_rest) (use sub nonzero in auto)
  finally have "?fs = page @ filter (\<lambda>x. de_name (last page) @ [CHR 0x01] \<le> de_name x) es" using split by simp
  then show ?thesis using strict look pg by simp
qed

theorem readdir_pages_witness:
  "\<exists>es page. readdir demo_db 1 = Inr es \<and> readdir_page demo_db 1 [] 1 = Inr page \<and> length es = 2 \<and> length page = 1
     \<and> es = page @ filter (\<lambda>x. de_name (last page) @ [CHR 0x01] \<le> de_name x) es"
proof -
  let ?es = "[\<lparr>de_name = ''b'', de_ino = 3, de_kind = FtFile\<rparr>, \<lparr>de_name = ''d'', de_ino = 2, de_kind = FtDir\<rparr>]"
  have es: "readdir demo_db 1 = Inr ?es" and page: "readdir_page demo_db 1 [] 1 = Inr [hd ?es]"
    by (simp_all add: readdir_def readdir_page_def ns_eval children_of_def dir_entry_of_def demo_defs less_char_def less_eq_char_def)
  from readdir_pages [OF demo_reachable(4) es _ _ page] show ?thesis using es page by simp
qed

end
