(* ===== verification/GlobalLocks.thy ===== *)
theory GlobalLocks
  imports MetaTypes
begin

text \<open>
  Named locks of the metadata store (\<^verbatim>\<open>LockName\<close> of \<^verbatim>\<open>src/src/meta/store.rs\<close>, the table \<^verbatim>\<open>locks\<close> and its
  calls in \<^verbatim>\<open>src/src/meta/stores/database/mod.rs\<close>). A row holds the instant at which the lease of its
  name ends, here in nanoseconds. The clock is an argument of each call. The text of a name is
  injective, so the table is a map from names. Durations outside the range of the time library,
  which panic in the code, and failing database calls are not modelled.
\<close>

section \<open>The calls\<close>

datatype lock_name = CleanupSessionsLock | ChunkCompactLock nat

type_synonym lock_table = "lock_name \<Rightarrow> int option"

definition get_lock_internal :: "int \<Rightarrow> lock_name \<Rightarrow> nat \<Rightarrow> lock_table \<Rightarrow> bool \<times> lock_table" where
  "get_lock_internal current_time name ttl_secs locks =
     (let expires_at = current_time + as_i64 ttl_secs * 1000000000
      in case locks name of
           Some last_updated \<Rightarrow>
             if last_updated \<le> current_time then (True, locks(name \<mapsto> expires_at)) else (False, locks)
         | None \<Rightarrow> (True, locks(name \<mapsto> expires_at)))"

definition is_lock_held_internal :: "int \<Rightarrow> lock_name \<Rightarrow> lock_table \<Rightarrow> bool" where
  "is_lock_held_internal current_time name locks =
     (case locks name of Some last_updated \<Rightarrow> current_time < last_updated | None \<Rightarrow> False)"

definition release_lock_internal :: "lock_name \<Rightarrow> lock_table \<Rightarrow> bool \<times> lock_table" where
  "release_lock_internal name locks = (locks name \<noteq> None, locks(name := None))"

datatype lock_call = LockGet lock_name nat | LockHeld lock_name | LockRelease lock_name

text \<open>A call of some client at an instant of its clock; clocks of different clients need not agree.\<close>

fun lock_step :: "int \<times> lock_call \<Rightarrow> lock_table \<Rightarrow> lock_table" where
  "lock_step (t, LockGet name ttl_secs) locks = snd (get_lock_internal t name ttl_secs locks)"
| "lock_step (t, LockHeld name) locks = locks"
| "lock_step (t, LockRelease name) locks = snd (release_lock_internal name locks)"

section \<open>Leases\<close>

fun lock_keeps :: "lock_name \<Rightarrow> int \<times> lock_call \<Rightarrow> bool" where
  "lock_keeps name (t, LockGet other ttl_secs) \<longleftrightarrow> other \<noteq> name \<or> ttl_secs < u64_limit div 2"
| "lock_keeps name (t, LockHeld other) \<longleftrightarrow> True"
| "lock_keeps name (t, LockRelease other) \<longleftrightarrow> other \<noteq> name"

definition leased_until :: "lock_name \<Rightarrow> int \<Rightarrow> lock_table \<Rightarrow> bool" where
  "leased_until name e locks \<longleftrightarrow> (\<exists>l. locks name = Some l \<and> e \<le> l)"

lemma lock_step_lease:
  assumes "leased_until name e locks" and "lock_keeps name c"
  shows "leased_until name e (lock_step c locks)"
proof (cases "(name, c)" rule: lock_keeps.cases)
  case (1 nm t other ttl_secs)
  then have c: "c = (t, LockGet other ttl_secs)" and ttl: "other = name \<Longrightarrow> 0 \<le> as_i64 ttl_secs" using assms(2) by (auto simp: as_i64_small)
  obtain l where l: "locks name = Some l" "e \<le> l" using assms(1) by (auto simp: leased_until_def)
  show ?thesis using l ttl by (auto simp: c get_lock_internal_def leased_until_def Let_def split: option.split)
qed (use assms in \<open>auto simp: leased_until_def release_lock_internal_def\<close>)

lemma lock_run_lease:
  assumes "leased_until name e locks" and "\<forall>c\<in>set cs. lock_keeps name c"
  shows "leased_until name e (fold lock_step cs locks)"
  using assms by (induction cs arbitrary: locks) (simp_all add: lock_step_lease)

lemma granted_leased:
  "get_lock_internal t name ttl_secs locks = (True, locks') \<Longrightarrow> leased_until name (t + as_i64 ttl_secs * 1000000000) locks'"
  by (auto simp: get_lock_internal_def leased_until_def Let_def split: option.splits if_splits)

lemma leased_answers:
  assumes "leased_until name e locks" and "t < e"
  shows "is_lock_held_internal t name locks" and "get_lock_internal t name ttl_secs locks = (False, locks)"
  using assms by (auto simp: leased_until_def is_lock_held_internal_def get_lock_internal_def Let_def)

end
