(* ===== verification/MetaAttrs.thy ===== *)
theory MetaAttrs
  imports NamespacePaths GlobalLocks
begin

text \<open>
  Attributes of the database store (\<^verbatim>\<open>src/src/meta/stores/database/mod.rs\<close>, requests in
  \<^verbatim>\<open>src/src/meta/store.rs\<close>): sizes and truncation, \<^verbatim>\<open>set_attr\<close>, \<^verbatim>\<open>open\<close>, extended attributes, ACL rules and
  the usage report; and \<^verbatim>\<open>write\<close>, which publishes a slice and extends the file. The clock (in nanoseconds
  for attributes, in seconds for the rows a truncation leaves to the collector) and the JSON coder of ACL rules
  are arguments.
\<close>

section \<open>Sizes\<close>

definition with_size :: "int \<Rightarrow> nat \<Rightarrow> file_row \<Rightarrow> file_row" where
  "with_size now n f =
     (let f' = f\<lparr>fi_size := as_i64 n\<rparr> in if as_u64 (fi_size f) \<noteq> n then f'\<lparr>fi_mtime := now, fi_ctime := now\<rparr> else f')"

definition set_file_size :: "int \<Rightarrow> int \<Rightarrow> nat \<Rightarrow> meta_db \<Rightarrow> (meta_error + unit) \<times> meta_db" where
  "set_file_size now ino n db =
     (case find_file db ino of None \<Rightarrow> (Inl (NotFound ino), db) | Some f \<Rightarrow> (Inr (), update_file (with_size now n f) db))"

definition extend_file_size :: "int \<Rightarrow> int \<Rightarrow> nat \<Rightarrow> meta_db \<Rightarrow> (meta_error + unit) \<times> meta_db" where
  "extend_file_size now ino n db =
     (case find_file db ino of
        None \<Rightarrow> (Inl (NotFound ino), db)
      | Some f \<Rightarrow> (Inr (), if fi_size f < as_i64 n then update_file (f\<lparr>fi_size := as_i64 n, fi_mtime := now, fi_ctime := now\<rparr>) db else db))"

definition truncate_file :: "int \<Rightarrow> int \<Rightarrow> int \<Rightarrow> nat \<Rightarrow> nat \<Rightarrow> meta_db \<Rightarrow> (meta_error + unit) \<times> meta_db" where
  "truncate_file now secs ino n csize db =
     run_txn db (rbind (ok_or (NotFound ino) (find_file db ino)) (\<lambda>f.
       let db1 = update_file (with_size now n f) db
       in rbind (prune_slices_for_truncate secs (store_db db1) ino n (as_u64 (fi_size f)) csize) (\<lambda>s.
          Inr ((), db1\<lparr>store_db := s\<rparr>))))"

section \<open>Writes\<close>

text \<open>The one statement that extends the size, and the loss of the set-user and set-group bits.\<close>

definition write_size :: "int \<Rightarrow> nat \<Rightarrow> file_row \<Rightarrow> file_row" where
  "write_size now new_size f = (if fi_size f < as_i64 new_size then f\<lparr>fi_size := as_i64 new_size, fi_mtime := now\<rparr> else f)"

definition clear_set_ids :: "file_row \<Rightarrow> file_row" where
  "clear_set_ids f = f\<lparr>fi_perm := (fi_perm f)\<lparr>pm_mode := pm_mode (fi_perm f) AND NOT 0xC00\<rparr>\<rparr>"

text \<open>
  The lock is read before the transaction, at its own instant \<^verbatim>\<open>t\<close> and from the table \<^verbatim>\<open>locks\<close> of that instant; all
  else happens in the transaction.
\<close>

definition write_with_coalesced_reservation ::
  "int \<Rightarrow> lock_table \<Rightarrow> int \<Rightarrow> int \<Rightarrow> nat \<Rightarrow> slice_desc \<Rightarrow> nat \<Rightarrow> bool \<Rightarrow> meta_db \<Rightarrow> (meta_error + unit) \<times> meta_db" where
  "write_with_coalesced_reservation t locks now ino cid s new_size coalesced db =
     (if is_lock_held_internal t (ChunkCompactLock cid) locks then (Inl (ContinueRetry VersionConflict), db)
      else run_txn db (
        rbind (if coalesced then consume_coalesced_reservation (store_db db) s else Inr (True, store_db db)) (\<lambda>(fresh, sdb).
          if \<not> fresh then Inr ((), db\<lparr>store_db := sdb\<rparr>)
          else let db = db\<lparr>store_db := insert_slice sdb cid s\<rparr>
               in rbind (ok_or (NotFound ino) (find_file db ino)) (\<lambda>f.
                    let f = write_size now new_size f;
                        db = update_file f db
                    in Inr ((), update_file (clear_set_ids f) db)))))"

definition meta_write :: "int \<Rightarrow> lock_table \<Rightarrow> int \<Rightarrow> int \<Rightarrow> nat \<Rightarrow> slice_desc \<Rightarrow> nat \<Rightarrow> meta_db \<Rightarrow> (meta_error + unit) \<times> meta_db" where
  "meta_write t locks now ino cid s new_size db = write_with_coalesced_reservation t locks now ino cid s new_size False db"

section \<open>Changing attributes\<close>

record set_attr_request =
  sr_mode :: "u32 option"
  sr_uid :: "u32 option"
  sr_gid :: "u32 option"
  sr_size :: "nat option"
  sr_atime :: "int option"
  sr_mtime :: "int option"
  sr_ctime :: "int option"
  sr_flags :: "u32 option"

definition CLEAR_SUID :: u32 where "CLEAR_SUID = 1"
definition CLEAR_SGID :: u32 where "CLEAR_SGID = 2"
definition SET_ATIME_NOW :: u32 where "SET_ATIME_NOW = 4"
definition SET_MTIME_NOW :: u32 where "SET_MTIME_NOW = 8"
definition OPEN_TRUNC :: u32 where "OPEN_TRUNC = 8"

definition has_flag :: "u32 \<Rightarrow> u32 \<Rightarrow> bool" where
  "has_flag flags f \<longleftrightarrow> flags AND f = f"

definition chmod_request :: "u32 \<Rightarrow> set_attr_request" where
  "chmod_request new_mode = \<lparr>sr_mode = Some (new_mode AND 0xFFF), sr_uid = None, sr_gid = None, sr_size = None,
     sr_atime = None, sr_mtime = None, sr_ctime = None, sr_flags = None\<rparr>"

definition chown_request :: "u32 option \<Rightarrow> u32 option \<Rightarrow> set_attr_request" where
  "chown_request uid gid = \<lparr>sr_mode = None, sr_uid = uid, sr_gid = gid, sr_size = None,
     sr_atime = None, sr_mtime = None, sr_ctime = None, sr_flags = None\<rparr>"

text \<open>The permission part, which files and directories share; the flag tells whether something was asked for.\<close>

definition request_perm :: "set_attr_request \<Rightarrow> u32 \<Rightarrow> permission \<Rightarrow> permission \<times> bool" where
  "request_perm req flags p =
     (let (p, t) = (case sr_mode req of Some mode \<Rightarrow> (chmod p (mode AND 0xFFF), True) | None \<Rightarrow> (p, False));
          (p, t) = (case sr_uid req of
                      Some uid \<Rightarrow> (chown p uid (case sr_gid req of Some gid \<Rightarrow> gid | None \<Rightarrow> pm_gid p), True)
                    | None \<Rightarrow> (case sr_gid req of Some gid \<Rightarrow> (chown p (pm_uid p) gid, True) | None \<Rightarrow> (p, t)));
          (p, t) = (if has_flag flags CLEAR_SUID then (p\<lparr>pm_mode := pm_mode p AND NOT 0x800\<rparr>, True) else (p, t))
      in if has_flag flags CLEAR_SGID then (p\<lparr>pm_mode := pm_mode p AND NOT 0x400\<rparr>, True) else (p, t))"

definition request_times :: "int \<Rightarrow> set_attr_request \<Rightarrow> u32 \<Rightarrow> int \<Rightarrow> int \<Rightarrow> int \<Rightarrow> bool \<Rightarrow> int \<times> int \<times> int" where
  "request_times now req flags atime mtime ctime t =
     (let (atime, t) = (if has_flag flags SET_ATIME_NOW then (now, True) else case sr_atime req of Some a \<Rightarrow> (a, True) | None \<Rightarrow> (atime, t));
          (mtime, t) = (if has_flag flags SET_MTIME_NOW then (now, True) else case sr_mtime req of Some m \<Rightarrow> (m, True) | None \<Rightarrow> (mtime, t))
      in (atime, mtime, case sr_ctime req of Some c \<Rightarrow> c | None \<Rightarrow> if t then now else ctime))"

definition set_attr_file :: "int \<Rightarrow> set_attr_request \<Rightarrow> u32 \<Rightarrow> file_row \<Rightarrow> file_row" where
  "set_attr_file now req flags f =
     (let (p, t) = request_perm req flags (fi_perm f);
          (sz, mtime, t) = (case sr_size req of
             Some n \<Rightarrow> (if fi_size f \<noteq> as_i64 n then (as_i64 n, now, True) else (fi_size f, fi_mtime f, True))
           | None \<Rightarrow> (fi_size f, fi_mtime f, t));
          (atime, mtime, ctime) = request_times now req flags (fi_atime f) mtime (fi_ctime f) t
      in f\<lparr>fi_perm := p, fi_size := sz, fi_atime := atime, fi_mtime := mtime, fi_ctime := ctime\<rparr>)"

definition set_attr_dir :: "int \<Rightarrow> set_attr_request \<Rightarrow> u32 \<Rightarrow> access_row \<Rightarrow> access_row" where
  "set_attr_dir now req flags a =
     (let (p, t) = request_perm req flags (ac_perm a);
          (atime, mtime, ctime) = request_times now req flags (ac_atime a) (ac_mtime a) (ac_ctime a) t
      in a\<lparr>ac_perm := p, ac_atime := atime, ac_mtime := mtime, ac_ctime := ctime\<rparr>)"

definition set_attr :: "int \<Rightarrow> int \<Rightarrow> set_attr_request \<Rightarrow> u32 \<Rightarrow> meta_db \<Rightarrow> (meta_error + file_attr) \<times> meta_db" where
  "set_attr now ino req flags db =
     (case find_file db ino of
        Some f \<Rightarrow> let f' = set_attr_file now req flags f in (Inr (file_meta_to_attr f'), update_file f' db)
      | None \<Rightarrow> (case find_access db ino of
          Some a \<Rightarrow> let db' = update_access (set_attr_dir now req flags a) db in (ok_or (NotFound ino) (stat db' ino), db')
        | None \<Rightarrow> (Inl (NotFound ino), db)))"

definition meta_open :: "int \<Rightarrow> int \<Rightarrow> u32 \<Rightarrow> meta_db \<Rightarrow> (meta_error + file_attr) \<times> meta_db" where
  "meta_open now ino flags db =
     (case find_file db ino of
        Some f \<Rightarrow>
          if fi_symlink f \<noteq> None then (Inl (NotSupported ''opening symlink targets is not implemented''), db)
          else let f1 = f\<lparr>fi_atime := now\<rparr>;
                   f2 = (if has_flag flags OPEN_TRUNC then f1\<lparr>fi_size := 0, fi_mtime := now, fi_ctime := now\<rparr> else f1);
                   db' = update_file f2 db
               in (ok_or (NotFound ino) (stat db' ino), db')
      | None \<Rightarrow>
          if has_flag flags OPEN_TRUNC then (Inl (NotSupported ''truncate flag only supported for regular files''), db)
          else (case find_access db ino of
              Some a \<Rightarrow> let a' = a\<lparr>ac_atime := now\<rparr> in (Inr (access_meta_to_attr a'), update_access a' db)
            | None \<Rightarrow> (Inl (NotFound ino), db)))"

definition meta_close :: "int \<Rightarrow> meta_db \<Rightarrow> meta_error + unit" where
  "meta_close ino db = (if stat db ino \<noteq> None then Inr () else Inl (NotFound ino))"

section \<open>Extended attributes and ACL rules\<close>

definition touch_ctime :: "int \<Rightarrow> int \<Rightarrow> meta_db \<Rightarrow> meta_error + meta_db" where
  "touch_ctime now ino db =
     (case find_file db ino of
        Some f \<Rightarrow> Inr (update_file (f\<lparr>fi_ctime := now\<rparr>) db)
      | None \<Rightarrow> (case find_access db ino of
          Some a \<Rightarrow> Inr (update_access (a\<lparr>ac_ctime := now\<rparr>) db)
        | None \<Rightarrow> Inl (NotFound ino)))"

definition XATTR_CREATE :: u32 where "XATTR_CREATE = 1"
definition XATTR_REPLACE :: u32 where "XATTR_REPLACE = 2"

definition set_xattr :: "int \<Rightarrow> int \<Rightarrow> string \<Rightarrow> bytes \<Rightarrow> u32 \<Rightarrow> meta_db \<Rightarrow> (meta_error + unit) \<times> meta_db" where
  "set_xattr now ino name v flags db =
     (if stat db ino = None then (Inl (NotFound ino), db)
      else run_txn db (rbind
        (case map_of (xattr_rows db) (ino, name) of
           Some _ \<Rightarrow> if flags AND XATTR_CREATE \<noteq> 0 then Inl (AlreadyExists ino name) else Inr (put_xattr ino name v db)
         | None \<Rightarrow> if flags AND XATTR_REPLACE \<noteq> 0 then Inl (NotFound ino) else Inr (put_xattr ino name v db))
        (\<lambda>db1. rbind (touch_ctime now ino db1) (\<lambda>db2. Inr ((), db2)))))"

definition get_xattr :: "int \<Rightarrow> string \<Rightarrow> meta_db \<Rightarrow> meta_error + bytes option" where
  "get_xattr ino name db = (if stat db ino = None then Inl (NotFound ino) else Inr (map_of (xattr_rows db) (ino, name)))"

definition list_xattr :: "int \<Rightarrow> meta_db \<Rightarrow> meta_error + string list" where
  "list_xattr ino db =
     (if stat db ino = None then Inl (NotFound ino) else Inr (map (\<lambda>r. snd (fst r)) (filter (\<lambda>r. fst (fst r) = ino) (xattr_rows db))))"

definition remove_xattr :: "int \<Rightarrow> int \<Rightarrow> string \<Rightarrow> meta_db \<Rightarrow> (meta_error + unit) \<times> meta_db" where
  "remove_xattr now ino name db =
     (if stat db ino = None then (Inl (NotFound ino), db)
      else run_txn db
        (if map_of (xattr_rows db) (ino, name) = None then Inl (NotFound ino)
         else rbind (touch_ctime now ino (db\<lparr>xattr_rows := AList.delete (ino, name) (xattr_rows db)\<rparr>)) (\<lambda>db2. Inr ((), db2))))"

record acl_rule =
  acl_type :: u8
  acl_qualifier :: u32
  acl_permissions :: u32

definition DATABASE_ACL_RULES_XATTR_NAME :: string where
  "DATABASE_ACL_RULES_XATTR_NAME = ''system.brewfs.acl.rules''"

definition set_acl :: "(acl_rule list \<Rightarrow> bytes) \<Rightarrow> (bytes \<Rightarrow> acl_rule list option) \<Rightarrow> int \<Rightarrow> int \<Rightarrow> acl_rule \<Rightarrow> meta_db \<Rightarrow> (meta_error + unit) \<times> meta_db" where
  "set_acl encode decode now ino rule db =
     (case rbind (get_xattr ino DATABASE_ACL_RULES_XATTR_NAME db) (\<lambda>raw. case raw of
             Some raw \<Rightarrow> ok_or (Internal ''invalid ACL metadata'') (decode raw) | None \<Rightarrow> Inr []) of
        Inl e \<Rightarrow> (Inl e, db)
      | Inr rules \<Rightarrow>
          let kept = filter (\<lambda>r. acl_type r \<noteq> acl_type rule \<or> acl_qualifier r \<noteq> acl_qualifier rule) rules
          in set_xattr now ino DATABASE_ACL_RULES_XATTR_NAME (encode (kept @ [rule])) 0 db)"

definition get_acl :: "(bytes \<Rightarrow> acl_rule list option) \<Rightarrow> int \<Rightarrow> u8 \<Rightarrow> u32 \<Rightarrow> meta_db \<Rightarrow> meta_error + acl_rule option" where
  "get_acl decode ino kind qualifier db =
     rbind (get_xattr ino DATABASE_ACL_RULES_XATTR_NAME db) (\<lambda>raw. case raw of
       None \<Rightarrow> Inr None
     | Some raw \<Rightarrow> rbind (ok_or (Internal ''invalid ACL metadata'') (decode raw)) (\<lambda>rules.
         Inr (find (\<lambda>r. acl_type r = kind \<and> acl_qualifier r = qualifier) rules)))"

section \<open>Usage\<close>

definition DEFAULT_STATFS_TOTAL_SPACE :: nat where "DEFAULT_STATFS_TOTAL_SPACE = 2 ^ 50"
definition DEFAULT_STATFS_AVAILABLE_INODES :: nat where "DEFAULT_STATFS_AVAILABLE_INODES = 10 * 2 ^ 20"
definition STATFS_BLOCK_SIZE :: nat where "STATFS_BLOCK_SIZE = 512"
definition u64_max :: nat where "u64_max = 2 ^ 64 - 1"

definition stat_fs_used_bytes :: "nat \<Rightarrow> nat \<Rightarrow> nat" where
  "stat_fs_used_bytes n blocks = (if 0 < blocks then min (blocks * STATFS_BLOCK_SIZE) u64_max else n)"

record stat_fs_snapshot =
  sf_total_space :: nat
  sf_available_space :: nat
  sf_used_inodes :: nat
  sf_available_inodes :: nat

text \<open>The doubling loops; the comparisons are made in \<^verbatim>\<open>u128\<close> and do not overflow.\<close>

partial_function (option) grow :: "(nat \<Rightarrow> bool) \<Rightarrow> nat \<Rightarrow> nat option" where
  "grow short n = (if short n then if u64_max div 2 \<le> n then Some u64_max else grow short (n * 2) else Some n)"

definition stat_fs_snapshot_from_usage :: "nat \<Rightarrow> nat \<Rightarrow> stat_fs_snapshot option" where
  "stat_fs_snapshot_from_usage used_space used_inodes =
     Option.bind (grow (\<lambda>n. n * 8 < used_space * 10) DEFAULT_STATFS_TOTAL_SPACE) (\<lambda>total_space.
       let total_space = (if total_space < used_space then used_space else total_space)
       in Option.bind (grow (\<lambda>n. n * 4 < used_inodes) DEFAULT_STATFS_AVAILABLE_INODES) (\<lambda>available_inodes.
         Some \<lparr>sf_total_space = total_space, sf_available_space = total_space - used_space, sf_used_inodes = used_inodes,
           sf_available_inodes = available_inodes\<rparr>))"

definition file_usage :: "file_row \<Rightarrow> nat" where
  "file_usage f = (let n = (case fi_symlink f of Some target \<Rightarrow> length target | None \<Rightarrow> nat (max (fi_size f) 0)) in stat_fs_used_bytes n (div_ceil n 512))"

definition stat_fs :: "meta_db \<Rightarrow> stat_fs_snapshot option" where
  "stat_fs db =
     (let files = filter (\<lambda>f. \<not> fi_deleted f \<and> 0 < fi_nlink f) (file_rows db);
          used_space = fold (\<lambda>f acc. min (acc + file_usage f) u64_max) files 0
      in stat_fs_snapshot_from_usage used_space (min (length files + length (access_rows db)) u64_max))"

section \<open>Attributes and the tree\<close>

text \<open>Two file rows that the tree does not tell apart.\<close>

definition same_links :: "file_row \<Rightarrow> file_row \<Rightarrow> bool" where
  "same_links f g \<longleftrightarrow> fi_inode f = fi_inode g \<and> fi_nlink f = fi_nlink g \<and> fi_parent f = fi_parent g \<and> fi_deleted f = fi_deleted g"

definition keeps_tree :: "meta_db \<Rightarrow> meta_db \<Rightarrow> bool" where
  "keeps_tree db db' \<longleftrightarrow> ns_inv db' \<and> tree_of db' = tree_of db"

lemma keeps_tree_refl: "ns_inv db \<Longrightarrow> keeps_tree db db"
  by (simp add: keeps_tree_def)

lemma update_file_keeps:
  assumes inv: "ns_inv db" and f: "find_file db i = Some f" and s: "same_links g f"
  shows "keeps_tree db (update_file g db)"
proof -
  note wf = ns_invD(1) [OF inv] and ok = ns_invD(2) [OF inv]
  have F: "fmap db i = Some f" using f by (simp add: find_file_fmap)
  have i: "fi_inode g = i" using ns_okD(6) [OF ok F] s by (simp add: same_links_def)
  note V = update_file_view [OF wf, of g "update_file g db", unfolded i, OF _ refl]
  have "file_ok (emap db) (links db) g" using ns_okD(7) [OF ok F] s by (simp add: file_ok_def same_links_def)
  moreover have d: "dom ((fmap db)(i \<mapsto> g)) = dom (fmap db)" using F by auto
  ultimately have "ns_ok (dirs db) (emap db) ((fmap db)(i \<mapsto> g)) (links db)"
    using ok i by (intro ns_okI) (auto simp: entry_ok_def dest: ns_okD split: if_splits)
  then have "ns_inv (update_file g db)" using V F d by (intro ns_inv_step [OF inv]) auto
  then show ?thesis using V F by (simp add: keeps_tree_def tree_of_def)
qed

lemma update_access_keeps:
  assumes inv: "ns_inv db" and "is_directory (ac_perm a)"
  shows "keeps_tree db (update_access a db)"
proof -
  note V = update_access_view [OF ns_invD(1) [OF inv] assms(2) refl]
  have "ns_inv (update_access a db)" using V ns_invD(2) [OF inv] by (intro ns_inv_step [OF inv]) auto
  then show ?thesis using V by (simp add: keeps_tree_def tree_of_def)
qed

lemma xattr_rows_keep:
  assumes "ns_inv db"
  shows "keeps_tree db (db\<lparr>xattr_rows := xs\<rparr>)"
proof -
  let ?db = "db\<lparr>xattr_rows := xs\<rparr>"
  have v: "dirs ?db = dirs db" "emap ?db = emap db" "fmap ?db = fmap db" "links ?db = links db" "tables_wf ?db = tables_wf db" "store_db ?db = store_db db"
    by (simp_all add: dirs_def emap_def fmap_def links_def tables_wf_def)
  have "ns_inv ?db" using ns_invD [OF assms] v by (intro ns_inv_step [OF assms]) auto
  then show ?thesis using v by (simp add: keeps_tree_def tree_of_def)
qed

lemma keeps_tree_trans: "keeps_tree db db1 \<Longrightarrow> keeps_tree db1 db2 \<Longrightarrow> keeps_tree db db2"
  by (simp add: keeps_tree_def)

lemma touch_ctime_keeps:
  assumes inv: "ns_inv db" and t: "touch_ctime now i db = Inr db'"
  shows "keeps_tree db db'"
proof (cases "find_file db i")
  case (Some f)
  then have "db' = update_file (f\<lparr>fi_ctime := now\<rparr>) db" using t by (simp add: touch_ctime_def)
  then show ?thesis using update_file_keeps [OF inv Some, of "f\<lparr>fi_ctime := now\<rparr>"] by (simp add: same_links_def)
next
  case None
  then obtain a where a: "find_access db i = Some a" "db' = update_access (a\<lparr>ac_ctime := now\<rparr>) db"
    using t by (auto simp: touch_ctime_def split: option.splits)
  have "is_directory (ac_perm a)" using tables_wfD(4) [OF ns_invD(1) [OF inv]] find_access_Some(3) [OF a(1)] by blast
  then show ?thesis using update_access_keeps [OF inv, of "a\<lparr>ac_ctime := now\<rparr>"] a(2) by simp
qed

lemma cleared_type [simp]:
  "(m AND - 2049) AND S_IFMT = m AND (S_IFMT :: u32)" "(m AND - 1025) AND S_IFMT = m AND (S_IFMT :: u32)"
  by (simp_all add: S_IFMT_def and.assoc)

lemma mode_type [simp]: "pm_mode (chmod p n) AND S_IFMT = pm_mode p AND S_IFMT" "pm_mode (chown p u g) AND S_IFMT = pm_mode p AND S_IFMT"
  using chmod_type(1) [of p n] chown_type(1) [of p u g] by (simp_all add: file_type_bits_def)

lemma request_perm_type: "file_type_bits (fst (request_perm req flags p)) = file_type_bits p"
  by (simp add: request_perm_def file_type_bits_def split: option.split prod.split)

lemma with_size_links: "same_links (with_size now n f) f"
  by (simp add: with_size_def same_links_def Let_def)

lemma set_attr_file_links: "same_links (set_attr_file now req flags f) f"
  by (simp add: set_attr_file_def same_links_def split: prod.split option.split)

lemma set_attr_dir_type: "is_directory (ac_perm a) \<Longrightarrow> is_directory (ac_perm (set_attr_dir now req flags a))"
  using request_perm_type [of req flags "ac_perm a"]
  by (cases "request_perm req flags (ac_perm a)") (simp add: set_attr_dir_def is_directory_def split: prod.split)

lemma prune_counters:
  assumes "prune_slices_for_truncate now s ino n old csize = Inr s'"
  shows "counters s' = counters s"
proof -
  have "counters (fold (rewrite_row now c) rs s) = counters s" for c rs s
    by (induction rs arbitrary: s) (simp_all add: rewrite_row_def delete_slice_row_def set_slice_length_def split: trim_action_kind.split)
  moreover have "counters (fold (drop_row now) rs s) = counters s" for rs s
    by (induction rs arbitrary: s) (simp_all add: drop_row_def delete_slice_row_def)
  ultimately show ?thesis using assms
    by (auto simp: prune_slices_for_truncate_def apply_truncate_plan_def prune_rewrite_def prune_delete_def result_simps split: option.splits if_splits)
qed

lemma store_rows_keep:
  assumes "ns_inv db" and "counters s INODE_ID_KEY = counters (store_db db) INODE_ID_KEY"
  shows "keeps_tree db (db\<lparr>store_db := s\<rparr>)"
proof -
  let ?db = "db\<lparr>store_db := s\<rparr>"
  have v: "dirs ?db = dirs db" "emap ?db = emap db" "fmap ?db = fmap db" "links ?db = links db" "tables_wf ?db = tables_wf db"
    "inodes_below ?db c = inodes_below db c" for c
    by (simp_all add: dirs_def emap_def fmap_def links_def tables_wf_def inodes_below_def)
  have "ns_inv ?db" using assms v unfolding ns_inv_def by simp
  then show ?thesis using v by (simp add: keeps_tree_def tree_of_def)
qed

lemma truncate_file_keeps:
  assumes inv: "ns_inv db"
  shows "keeps_tree db (snd (truncate_file now secs ino n csize db))"
proof (cases "find_file db ino")
  case None
  then show ?thesis using keeps_tree_refl [OF inv] by (simp add: truncate_file_def run_txn_def)
next
  case (Some f)
  let ?db1 = "update_file (with_size now n f) db"
  have k: "keeps_tree db ?db1" using update_file_keeps [OF inv Some with_size_links] .
  show ?thesis
  proof (cases "prune_slices_for_truncate secs (store_db ?db1) ino n (as_u64 (fi_size f)) csize")
    case (Inl e)
    then show ?thesis using Some keeps_tree_refl [OF inv] by (simp add: truncate_file_def run_txn_def Let_def)
  next
    case (Inr s)
    have "keeps_tree ?db1 (?db1\<lparr>store_db := s\<rparr>)" using k prune_counters [OF Inr] by (intro store_rows_keep) (simp_all add: keeps_tree_def)
    then show ?thesis using Some Inr keeps_tree_trans [OF k] by (simp add: truncate_file_def run_txn_def Let_def)
  qed
qed

lemma dir_perm: "ns_inv db \<Longrightarrow> find_access db i = Some a \<Longrightarrow> is_directory (ac_perm a)"
  using tables_wfD(4) [OF ns_invD(1)] find_access_Some(3) by blast

lemma set_attr_keeps: "ns_inv db \<Longrightarrow> keeps_tree db (snd (set_attr now ino req flags db))"
  using update_file_keeps [OF _ _ set_attr_file_links] update_access_keeps [OF _ set_attr_dir_type] dir_perm keeps_tree_refl
  by (auto simp: set_attr_def Let_def split: option.split)

lemma meta_open_keeps:
  assumes inv: "ns_inv db"
  shows "keeps_tree db (snd (meta_open now ino flags db))"
proof (cases "find_file db ino")
  case (Some f)
  then show ?thesis using update_file_keeps [OF inv Some] keeps_tree_refl [OF inv] by (auto simp: meta_open_def Let_def same_links_def)
next
  case None
  have "keeps_tree db (update_access (a\<lparr>ac_atime := now\<rparr>) db)" if "find_access db ino = Some a" for a
    using update_access_keeps [OF inv] dir_perm [OF inv that] by simp
  then show ?thesis using None keeps_tree_refl [OF inv] by (auto simp: meta_open_def Let_def split: option.split)
qed

lemma run_txn_keeps:
  assumes "ns_inv db" and "\<And>x db'. r = Inr (x, db') \<Longrightarrow> keeps_tree db db'"
  shows "keeps_tree db (snd (run_txn db r))"
  using assms keeps_tree_refl by (auto simp: run_txn_def split: sum.split)

lemma set_xattr_keeps:
  assumes inv: "ns_inv db"
  shows "keeps_tree db (snd (set_xattr now ino name v flags db))"
proof -
  have p: "keeps_tree db (put_xattr ino name v db)" using xattr_rows_keep [OF inv] by (simp add: put_xattr_def)
  then have "keeps_tree db db'" if "touch_ctime now ino (put_xattr ino name v db) = Inr db'" for db'
    using touch_ctime_keeps [OF _ that] keeps_tree_trans by (auto simp: keeps_tree_def)
  then show ?thesis using keeps_tree_refl [OF inv]
    by (auto simp: set_xattr_def result_simps intro!: run_txn_keeps [OF inv] split: option.splits if_splits)
qed

lemma remove_xattr_keeps:
  assumes inv: "ns_inv db"
  shows "keeps_tree db (snd (remove_xattr now ino name db))"
proof -
  let ?db = "db\<lparr>xattr_rows := AList.delete (ino, name) (xattr_rows db)\<rparr>"
  have p: "keeps_tree db ?db" by (rule xattr_rows_keep [OF inv])
  then have "keeps_tree db db'" if "touch_ctime now ino ?db = Inr db'" for db'
    using touch_ctime_keeps [OF _ that] keeps_tree_trans by (auto simp: keeps_tree_def)
  then show ?thesis using keeps_tree_refl [OF inv]
    by (auto simp: remove_xattr_def result_simps intro!: run_txn_keeps [OF inv] split: if_splits)
qed

lemma find_update_file: "find_file db i = Some f \<Longrightarrow> fi_inode g = i \<Longrightarrow> find_file (update_file g db) j = (if j = i then Some g else find_file db j)"
proof -
  assume f: "find_file db i = Some f" and g: "fi_inode g = i"
  have "find (\<lambda>r. fi_inode r = j) (map (\<lambda>r. if fi_inode r = fi_inode g then g else r) rs)
      = (if j = i then (if find (\<lambda>r. fi_inode r = i) rs = None then None else Some g) else find (\<lambda>r. fi_inode r = j) rs)" for rs
    by (induction rs) (auto simp: g)
  then show ?thesis using f by (simp add: find_file_def update_file_def)
qed

lemma store_db_update_file [simp]: "store_db (update_file g db) = store_db db" "find_access (update_file g db) j = find_access db j"
  by (simp_all add: update_file_def find_access_def)

text \<open>What a write does to the tables, on each way to succeed.\<close>

definition written :: "int \<Rightarrow> nat \<Rightarrow> file_row \<Rightarrow> file_row" where
  "written now n f = clear_set_ids (write_size now n f)"

lemma written_simps [simp]:
  "fi_inode (written now n f) = fi_inode f" "fi_symlink (written now n f) = fi_symlink f"
  "fi_size (written now n f) = max (fi_size f) (as_i64 n)"
  "pm_mode (fi_perm (written now n f)) = pm_mode (fi_perm f) AND NOT 0xC00"
  "same_links (written now n f) f"
  by (simp_all add: written_def write_size_def clear_set_ids_def same_links_def)

lemma update_file_twice: "fi_inode g = fi_inode f \<Longrightarrow> update_file g (update_file f db) = update_file g db"
  by (simp add: update_file_def comp_def)

lemma store_update_file: "update_file g (db\<lparr>store_db := s\<rparr>) = (update_file g db)\<lparr>store_db := s\<rparr>" "find_file (db\<lparr>store_db := s\<rparr>) = find_file db"
  by (simp_all add: update_file_def find_file_def fun_eq_iff)

lemma write_cases:
  "write_with_coalesced_reservation t locks now ino cid s n coalesced db =
     (if is_lock_held_internal t (ChunkCompactLock cid) locks then (Inl (ContinueRetry VersionConflict), db)
      else case (if coalesced then consume_coalesced_reservation (store_db db) s else Inr (True, store_db db)) of
             Inl e \<Rightarrow> (Inl e, db)
           | Inr (fresh, sdb) \<Rightarrow>
               if \<not> fresh then (Inr (), db\<lparr>store_db := sdb\<rparr>)
               else case find_file db ino of
                      None \<Rightarrow> (Inl (NotFound ino), db)
                    | Some f \<Rightarrow> (Inr (), (update_file (written now n f) db)\<lparr>store_db := insert_slice sdb cid s\<rparr>))"
proof -
  have u: "update_file (clear_set_ids (write_size now n f)) (update_file (write_size now n f) d) = update_file (written now n f) d" for f d
    using update_file_twice [of "clear_set_ids (write_size now n f)"] by (simp add: written_def clear_set_ids_def)
  show ?thesis
    by (simp add: write_with_coalesced_reservation_def run_txn_def Let_def u store_update_file result_simps split: sum.split option.split prod.split)
qed

lemma consume_counters:
  assumes "consume_coalesced_reservation sdb s = Inr (fresh, sdb')"
  shows "counters sdb' INODE_ID_KEY = counters sdb INODE_ID_KEY" and "slice_rows sdb' = slice_rows sdb" and "next_row sdb' = next_row sdb"
  using assms by (auto simp: consume_coalesced_reservation_def result_simps Let_def published_key_def ledger_key_def INODE_ID_KEY_def split: if_splits)

lemma write_keeps:
  assumes inv: "ns_inv db"
  shows "keeps_tree db (snd (write_with_coalesced_reservation t locks now ino cid s n coalesced db))"
proof -
  have st: "keeps_tree db (db\<lparr>store_db := sdb\<rparr>)" "find_file db ino = Some f \<Longrightarrow> keeps_tree db ((update_file (written now n f) db)\<lparr>store_db := insert_slice sdb cid s\<rparr>)"
    if c: "counters sdb INODE_ID_KEY = counters (store_db db) INODE_ID_KEY" for sdb f
  proof -
    show "keeps_tree db (db\<lparr>store_db := sdb\<rparr>)" using store_rows_keep [OF inv c] .
    assume f: "find_file db ino = Some f"
    have k: "keeps_tree db (update_file (written now n f) db)" by (rule update_file_keeps [OF inv f]) simp
    moreover have "keeps_tree (update_file (written now n f) db) ((update_file (written now n f) db)\<lparr>store_db := insert_slice sdb cid s\<rparr>)"
      using k c by (intro store_rows_keep) (simp_all add: keeps_tree_def insert_slice_def)
    ultimately show "keeps_tree db ((update_file (written now n f) db)\<lparr>store_db := insert_slice sdb cid s\<rparr>)" by (rule keeps_tree_trans)
  qed
  show ?thesis unfolding write_cases
    using st st [OF consume_counters(1)] keeps_tree_refl [OF inv] by (simp split: sum.split option.split prod.split)
qed

text \<open>Calls that change attributes, and states reached with namespace calls and attribute calls.\<close>

inductive attr_step :: "meta_db \<Rightarrow> meta_db \<Rightarrow> bool" where
  as_size: "attr_step db (snd (set_file_size now ino n db))"
| as_extend: "attr_step db (snd (extend_file_size now ino n db))"
| as_truncate: "attr_step db (snd (truncate_file now secs ino n csize db))"
| as_write: "attr_step db (snd (write_with_coalesced_reservation t locks now ino cid s n coalesced db))"
| as_set_attr: "attr_step db (snd (set_attr now ino req flags db))"
| as_open: "attr_step db (snd (meta_open now ino flags db))"
| as_set_xattr: "attr_step db (snd (set_xattr now ino name v flags db))"
| as_remove_xattr: "attr_step db (snd (remove_xattr now ino name db))"
| as_set_acl: "attr_step db (snd (set_acl encode decode now ino rule db))"

inductive store_reachable :: "trash_encoder \<Rightarrow> meta_db \<Rightarrow> bool" for enc where
  sr_open: "from_config_inner now fresh_db = Inr db \<Longrightarrow> store_reachable enc db"
| sr_names: "store_reachable enc db \<Longrightarrow> ns_step enc db db' \<Longrightarrow> store_reachable enc db'"
| sr_attrs: "store_reachable enc db \<Longrightarrow> attr_step db db' \<Longrightarrow> store_reachable enc db'"

lemma attr_step_keeps: "attr_step db db' \<Longrightarrow> ns_inv db \<Longrightarrow> keeps_tree db db'"
proof (induction rule: attr_step.induct)
  case (as_size db now ino n)
  then show ?case using update_file_keeps [OF _ _ with_size_links] keeps_tree_refl by (auto simp: set_file_size_def split: option.split)
next
  case (as_extend db now ino n)
  then show ?case using update_file_keeps keeps_tree_refl by (auto simp: extend_file_size_def same_links_def split: option.split)
next
  case (as_set_acl db encode decode now ino rule)
  then show ?case using set_xattr_keeps keeps_tree_refl by (auto simp: set_acl_def Let_def split: sum.split)
qed (simp_all add: truncate_file_keeps write_keeps set_attr_keeps meta_open_keeps set_xattr_keeps remove_xattr_keeps)

lemma store_reachable_inv: "store_reachable enc db \<Longrightarrow> ns_inv db"
proof (induction rule: store_reachable.induct)
  case (sr_open now db)
  then show ?case by (rule reachable_ns_inv [OF ns_open])
next
  case (sr_names db db')
  then show ?case using step_refines [OF sr_names.hyps(2)] by (simp add: refines_def)
next
  case (sr_attrs db db')
  then show ?case using attr_step_keeps by (simp add: keeps_tree_def)
qed

lemma reachable_store: "ns_reachable enc db \<Longrightarrow> store_reachable enc db"
  by (induction rule: ns_reachable.induct) (auto intro: store_reachable.intros)

text \<open>
  C23. Attribute calls never touch the tree: in every state reached by namespace and attribute calls in any order, a
  size change, truncation, write, attribute change, open, extended-attribute or ACL call, successful or failing, leaves
  directories and entries as they are and keeps the invariant of the tables; a directory stays one under any mode.
\<close>

theorem attributes_keep_tree:
  assumes "store_reachable enc db" and "attr_step db db'"
  shows "ns_inv db' \<and> tree_of db' = tree_of db"
  using attr_step_keeps [OF assms(2) store_reachable_inv [OF assms(1)]] by (simp add: keeps_tree_def)

theorem attributes_keep_tree_witness:
  "let db = snd (set_attr 9 2 (chmod_request 448) 0 demo_create)
   in tree_of db = tree_of demo_create \<and> map_option ac_ctime (find_access db 2) = Some 9 \<and> map_option ac_ctime (find_access demo_create 2) = Some 1"
proof -
  have "map_option ac_ctime (find_access (snd (set_attr 9 2 (chmod_request 448) 0 demo_create)) 2) = Some 9"
    "map_option ac_ctime (find_access demo_create 2) = Some 1"
    by (simp_all add: set_attr_def set_attr_dir_def request_perm_def request_times_def chmod_request_def has_flag_def CLEAR_SUID_def CLEAR_SGID_def
      SET_ATIME_NOW_def SET_MTIME_NOW_def find_file_def find_access_def update_access_def new_file_row_def Let_def demo_defs)
  then show ?thesis
    using attributes_keep_tree [OF reachable_store [OF demo_reachable(3) [of "\<lambda>path t. None"]] as_set_attr, of 9 2 "chmod_request 448" 0] by (simp add: Let_def)
qed

section \<open>Truncation\<close>

lemma as_u64_as_i64: "n < u64_limit \<Longrightarrow> as_u64 (as_i64 n) = n"
  by (auto simp: as_u64_def as_i64_def Let_def u64_limit_def)

lemma truncate_file_found:
  assumes f: "find_file db ino = Some f" and p: "prune_slices_for_truncate secs (store_db db) ino n (as_u64 (fi_size f)) csize = Inr s"
  shows "truncate_file now secs ino n csize db = (Inr (), (update_file (with_size now n f) db)\<lparr>store_db := s\<rparr>)"
  using assms by (simp add: truncate_file_def run_txn_def Let_def)

lemma stat_after_size:
  assumes f: "find_file db ino = Some f" "fi_symlink f = None" and n: "n < u64_limit"
  shows "map_option at_size (stat ((update_file (with_size now n f) db)\<lparr>store_db := s\<rparr>) ino) = Some n"
    and "j \<noteq> ino \<Longrightarrow> stat ((update_file (with_size now n f) db)\<lparr>store_db := s\<rparr>) j = stat db j"
proof -
  have i: "fi_inode (with_size now n f) = ino" using f(1) by (auto simp: with_size_def Let_def find_file_def dest: find_SomeD)
  have "find_file ((update_file (with_size now n f) db)\<lparr>store_db := s\<rparr>) j = (if j = ino then Some (with_size now n f) else find_file db j)" for j
    using find_update_file [OF f(1) i, of j] by (simp add: find_file_def)
  moreover have "find_access ((update_file (with_size now n f) db)\<lparr>store_db := s\<rparr>) j = find_access db j" for j
    using store_db_update_file(2) [of "with_size now n f" db j] by (simp add: find_access_def)
  moreover have "at_size (file_meta_to_attr (with_size now n f)) = n"
    using f(2) as_u64_as_i64 [OF n] by (simp add: file_meta_to_attr_def with_size_def Let_def)
  ultimately show "map_option at_size (stat ((update_file (with_size now n f) db)\<lparr>store_db := s\<rparr>) ino) = Some n"
    "j \<noteq> ino \<Longrightarrow> stat ((update_file (with_size now n f) db)\<lparr>store_db := s\<rparr>) j = stat db j" by (simp_all add: stat_def split: option.split)
qed

text \<open>The chunk identifiers of two inodes are disjoint as long as indices stay below the base.\<close>

lemma other_inode_chunks:
  assumes "0 \<le> ino" "0 \<le> j" "j \<noteq> ino" "idx < CHUNK_ID_BASE" "m \<le> CHUNK_ID_BASE"
  shows "nat j * CHUNK_ID_BASE + idx < nat ino * CHUNK_ID_BASE \<or> nat ino * CHUNK_ID_BASE + m \<le> nat j * CHUNK_ID_BASE + idx"
proof (cases "nat j < nat ino")
  case True
  then have "(nat j + 1) * CHUNK_ID_BASE \<le> nat ino * CHUNK_ID_BASE" by (intro mult_le_mono1) linarith
  then show ?thesis using assms(4) by simp
next
  case False
  then have "nat ino < nat j" using assms(1-3) by linarith
  then have "(nat ino + 1) * CHUNK_ID_BASE \<le> nat j * CHUNK_ID_BASE" by (intro mult_le_mono1) linarith
  then show ?thesis using assms(5) by simp
qed

text \<open>
  C10. Truncating a file to a smaller size: the call succeeds, the size is the new one, every byte below it reads as
  before, and from there to the end of the old last chunk the chunks hold zero, whatever the size is later. No other
  inode's attributes change, and no chunk identifier outside the file's old range changes; when the file had at most
  \<^verbatim>\<open>CHUNK_ID_BASE\<close> chunks, a bound the code does not check, no chunk of another inode changes.
\<close>

theorem truncate_file_content:
  assumes f: "find_file db ino = Some f" "fi_symlink f = None" "0 \<le> ino" and n: "n < as_u64 (fi_size f)" "0 < csize"
    and rows: "rows_ok (store_db db)" "slices_bounded (map row_desc (slice_rows (store_db db)))"
    and ids: "nat ino * CHUNK_ID_BASE + div_ceil (as_u64 (fi_size f)) csize < u64_limit div 2"
  shows "\<exists>db'. truncate_file now secs ino n csize db = (Inr (), db') \<and> map_option at_size (stat db' ino) = Some n
    \<and> (\<forall>j. j \<noteq> ino \<longrightarrow> stat db' j = stat db j)
    \<and> (\<forall>blk bs idx x. idx < div_ceil (as_u64 (fi_size f)) csize \<and> x < csize \<longrightarrow>
         chunk_byte blk bs (get_slices (store_db db') (nat ino * CHUNK_ID_BASE + idx)) x =
         (if idx * csize + x < n then chunk_byte blk bs (get_slices (store_db db) (nat ino * CHUNK_ID_BASE + idx)) x else Some 0))
    \<and> (\<forall>cid. cid < nat ino * CHUNK_ID_BASE \<or> nat ino * CHUNK_ID_BASE + div_ceil (as_u64 (fi_size f)) csize \<le> cid \<longrightarrow>
         get_slices (store_db db') cid = get_slices (store_db db) cid)
    \<and> (div_ceil (as_u64 (fi_size f)) csize \<le> CHUNK_ID_BASE \<longrightarrow> (\<forall>j idx. 0 \<le> j \<and> j \<noteq> ino \<and> idx < CHUNK_ID_BASE \<longrightarrow>
         get_slices (store_db db') (nat j * CHUNK_ID_BASE + idx) = get_slices (store_db db) (nat j * CHUNK_ID_BASE + idx)))"
proof -
  have old: "as_u64 (fi_size f) < u64_limit" by (simp add: as_u64_def u64_limit_def nat_less_iff)
  from prune_slices_for_truncate_content [OF rows n(1,2) old f(3) ids, of secs] obtain s where
    s: "prune_slices_for_truncate secs (store_db db) ino n (as_u64 (fi_size f)) csize = Inr s"
    and c: "\<forall>blk bs idx x. idx < div_ceil (as_u64 (fi_size f)) csize \<and> x < csize \<longrightarrow>
         chunk_byte blk bs (get_slices s (nat ino * CHUNK_ID_BASE + idx)) x =
         (if idx * csize + x < n then chunk_byte blk bs (get_slices (store_db db) (nat ino * CHUNK_ID_BASE + idx)) x else Some 0)"
    "\<forall>cid. cid < nat ino * CHUNK_ID_BASE \<or> nat ino * CHUNK_ID_BASE + div_ceil (as_u64 (fi_size f)) csize \<le> cid \<longrightarrow>
         get_slices s cid = get_slices (store_db db) cid" by blast
  have lim: "n < u64_limit" using n(1) old by simp
  have "get_slices s (nat j * CHUNK_ID_BASE + idx) = get_slices (store_db db) (nat j * CHUNK_ID_BASE + idx)"
    if "div_ceil (as_u64 (fi_size f)) csize \<le> CHUNK_ID_BASE" "0 \<le> j" "j \<noteq> ino" "idx < CHUNK_ID_BASE" for j idx
    using c(2) other_inode_chunks [OF f(3) that(2,3,4,1)] by blast
  then have others: "\<forall>j idx. 0 \<le> j \<and> j \<noteq> ino \<and> idx < CHUNK_ID_BASE \<longrightarrow> div_ceil (as_u64 (fi_size f)) csize \<le> CHUNK_ID_BASE \<longrightarrow>
      get_slices s (nat j * CHUNK_ID_BASE + idx) = get_slices (store_db db) (nat j * CHUNK_ID_BASE + idx)" by blast
  show ?thesis
    using truncate_file_found [OF f(1) s] stat_after_size [OF f(1,2) lim] c others by (intro exI [of _ "(update_file (with_size now n f) db)\<lparr>store_db := s\<rparr>"]) simp
qed

definition sized_db :: meta_db where
  "sized_db = demo_create\<lparr>file_rows := [demo_file\<lparr>fi_size := 20\<rparr>], store_db := two_slice_db\<rparr>"

theorem truncate_file_content_witness:
  "\<exists>db'. truncate_file 9000000000 9 3 4 16 sized_db = (Inr (), db') \<and> map_option at_size (stat db' 3) = Some 4
    \<and> get_slices (store_db db') 4000000000 = get_slices two_slice_db 4000000000
    \<and> (\<forall>blk bs. chunk_byte blk bs (get_slices (store_db db') 3000000000) 3 = chunk_byte blk bs (get_slices two_slice_db 3000000000) 3
      \<and> chunk_byte blk bs (get_slices (store_db db') 3000000000) 5 = Some 0 \<and> chunk_byte blk bs (get_slices (store_db db') 3000000001) 1 = Some 0)"
proof -
  have f: "find_file sized_db 3 = Some (demo_file\<lparr>fi_size := 20\<rparr>)" "fi_symlink (demo_file\<lparr>fi_size := 20\<rparr>) = None" "as_u64 (fi_size (demo_file\<lparr>fi_size := 20\<rparr>)) = 20"
    by (simp_all add: sized_db_def find_file_def demo_file_def new_file_row_def as_u64_def)
  have n: "div_ceil 20 16 = 2" by (simp add: div_ceil_def)
  have r: "rows_ok (store_db sized_db)" "slices_bounded (map row_desc (slice_rows (store_db sized_db)))"
    by (simp_all add: sized_db_def two_slice_db_def rows_ok_def slices_bounded_def saturating_add_u64_def u64_limit_def)
  have s: "store_db sized_db = two_slice_db" by (simp add: sized_db_def)
  from truncate_file_content [OF f(1,2) _ _ _ r, of 4 16 9000000000 9, unfolded f(3) n s]
  obtain db' where db': "truncate_file 9000000000 9 3 4 16 sized_db = (Inr (), db')" "map_option at_size (stat db' 3) = Some 4"
      "get_slices (store_db db') 4000000000 = get_slices two_slice_db 4000000000"
    and bytes: "\<And>blk bs idx x. idx < 2 \<and> x < 16 \<Longrightarrow> chunk_byte blk bs (get_slices (store_db db') (3000000000 + idx)) x
      = (if idx * 16 + x < 4 then chunk_byte blk bs (get_slices two_slice_db (3000000000 + idx)) x else Some 0)"
    by (auto simp: u64_limit_def CHUNK_ID_BASE_def)
  from bytes [of 0 3] bytes [of 0 5] bytes [of 1 1] db' show ?thesis by auto
qed

section \<open>Extended attributes\<close>

lemma stat_None: "stat db i = None \<longleftrightarrow> find_file db i = None \<and> find_access db i = None"
  by (auto simp: stat_def split: option.splits)

lemma stat_xattr_rows: "stat (db\<lparr>xattr_rows := xs\<rparr>) j = stat db j"
proof -
  have "find_file (db\<lparr>xattr_rows := xs\<rparr>) j = find_file db j" "find_access (db\<lparr>xattr_rows := xs\<rparr>) j = find_access db j"
    by (simp_all add: find_file_def find_access_def)
  then show ?thesis by (simp add: stat_def split: option.split)
qed

lemma touch_ctime_some:
  assumes "stat db i \<noteq> None"
  obtains db' where "touch_ctime now i db = Inr db'" "xattr_rows db' = xattr_rows db" "\<And>j. stat db' j = None \<longleftrightarrow> stat db j = None"
proof (cases "find_file db i")
  case (Some f)
  have i: "fi_inode (f\<lparr>fi_ctime := now\<rparr>) = i" using Some by (auto simp: find_file_def dest: find_SomeD)
  show thesis
    using Some find_update_file [OF Some i] by (intro that [of "update_file (f\<lparr>fi_ctime := now\<rparr>) db"]) (simp_all add: touch_ctime_def stat_None, simp add: update_file_def)
next
  case None
  then obtain a where a: "find_access db i = Some a" using assms by (auto simp: stat_None)
  let ?a = "a\<lparr>ac_ctime := now\<rparr>"
  have i: "ac_inode a = i" using find_access_Some(2) [OF a] .
  have "find (\<lambda>r. ac_inode r = j) (map (\<lambda>r. if ac_inode r = i then ?a else r) rs) = None \<longleftrightarrow> find (\<lambda>r. ac_inode r = j) rs = None" for j rs
    using i by (induction rs) auto
  then have "find_access (update_access ?a db) j = None \<longleftrightarrow> find_access db j = None" for j using i by (simp add: find_access_def update_access_def)
  moreover have "find_file (update_access ?a db) j = find_file db j" for j by (simp add: find_file_def update_access_def)
  ultimately show thesis
    using None a by (intro that [of "update_access ?a db"]) (simp_all add: touch_ctime_def stat_None, simp add: update_access_def)
qed

text \<open>What the calls return, in terms of the map from names to values of an inode.\<close>

lemma set_xattr_ok:
  assumes s: "stat db ino \<noteq> None" and "case map_of (xattr_rows db) (ino, name) of Some _ \<Rightarrow> flags AND XATTR_CREATE = 0 | None \<Rightarrow> flags AND XATTR_REPLACE = 0"
  obtains db' where "set_xattr now ino name v flags db = (Inr (), db')" "map_of (xattr_rows db') = (map_of (xattr_rows db))((ino, name) \<mapsto> v)"
    "\<And>j. stat db' j = None \<longleftrightarrow> stat db j = None"
proof -
  let ?db = "put_xattr ino name v db"
  have st: "stat ?db j = stat db j" for j by (simp add: put_xattr_def stat_xattr_rows)
  obtain db' where db': "touch_ctime now ino ?db = Inr db'" "xattr_rows db' = xattr_rows ?db" "\<And>j. stat db' j = None \<longleftrightarrow> stat ?db j = None"
    using touch_ctime_some [of ?db ino now] s st by metis
  have "set_xattr now ino name v flags db = (Inr (), db')" using assms db'(1) by (auto simp: set_xattr_def run_txn_def split: option.splits)
  then show thesis using db' st by (intro that [of db']) (simp_all add: put_xattr_def update_conv')
qed

text \<open>
  C37. Extended attributes are a map for each inode. Setting one fails exactly for a missing inode, for an existing name
  under the create flag and for a missing name under the replace flag, with the error of that case and no change;
  otherwise the name has the new value afterwards and every other attribute of every inode is as before. Removing one
  fails exactly for a missing inode or name and otherwise removes that name only.
\<close>

theorem xattr_calls:
  "let old = map_of (xattr_rows db) (ino, name); r = set_xattr now ino name v flags db; q = remove_xattr now ino name db
   in (if stat db ino = None then r = (Inl (NotFound ino), db) \<and> q = (Inl (NotFound ino), db)
       else (if old \<noteq> None \<and> flags AND XATTR_CREATE \<noteq> 0 then r = (Inl (AlreadyExists ino name), db)
             else if old = None \<and> flags AND XATTR_REPLACE \<noteq> 0 then r = (Inl (NotFound ino), db)
             else fst r = Inr () \<and> (\<forall>j m. get_xattr j m (snd r) = (if (j, m) = (ino, name) then Inr (Some v) else get_xattr j m db)))
         \<and> (if old = None then q = (Inl (NotFound ino), db)
            else fst q = Inr () \<and> (\<forall>j m. get_xattr j m (snd q) = (if (j, m) = (ino, name) then Inr None else get_xattr j m db))))"
proof (cases "stat db ino = None")
  case True
  then show ?thesis by (simp add: Let_def set_xattr_def remove_xattr_def)
next
  case False
  let ?old = "map_of (xattr_rows db) (ino, name)" and ?r = "set_xattr now ino name v flags db" and ?q = "remove_xattr now ino name db"
  have set: "if ?old \<noteq> None \<and> flags AND XATTR_CREATE \<noteq> 0 then ?r = (Inl (AlreadyExists ino name), db)
     else if ?old = None \<and> flags AND XATTR_REPLACE \<noteq> 0 then ?r = (Inl (NotFound ino), db)
     else fst ?r = Inr () \<and> (\<forall>j m. get_xattr j m (snd ?r) = (if (j, m) = (ino, name) then Inr (Some v) else get_xattr j m db))"
  proof (cases "case ?old of Some _ \<Rightarrow> flags AND XATTR_CREATE = 0 | None \<Rightarrow> flags AND XATTR_REPLACE = 0")
    case True
    obtain db' where d: "?r = (Inr (), db')" "map_of (xattr_rows db') = (map_of (xattr_rows db))((ino, name) \<mapsto> v)" "\<And>j. stat db' j = None \<longleftrightarrow> stat db j = None"
      using set_xattr_ok [OF False True, of now v] by metis
    then show ?thesis using True False by (auto simp: get_xattr_def split: option.splits)
  next
    case b: False
    then show ?thesis using False by (auto simp: set_xattr_def run_txn_def split: option.splits)
  qed
  have rem: "if ?old = None then ?q = (Inl (NotFound ino), db)
     else fst ?q = Inr () \<and> (\<forall>j m. get_xattr j m (snd ?q) = (if (j, m) = (ino, name) then Inr None else get_xattr j m db))"
  proof (cases "?old = None")
    case True
    then show ?thesis using False by (simp add: remove_xattr_def run_txn_def)
  next
    case o: False
    let ?db = "db\<lparr>xattr_rows := AList.delete (ino, name) (xattr_rows db)\<rparr>"
    have st: "stat ?db j = stat db j" for j by (rule stat_xattr_rows)
    obtain db' where d: "touch_ctime now ino ?db = Inr db'" "xattr_rows db' = xattr_rows ?db" "\<And>j. stat db' j = None \<longleftrightarrow> stat ?db j = None"
      using touch_ctime_some [of ?db ino now] False st by metis
    then have "?q = (Inr (), db')" using False o by (simp add: remove_xattr_def run_txn_def)
    then show ?thesis using False o d st by (auto simp: get_xattr_def delete_conv')
  qed
  show ?thesis unfolding Let_def if_not_P [OF False] using set rem by (rule conjI)
qed

section \<open>Usage bounds\<close>

lemma grow_returns:
  assumes mono: "\<And>a b. a \<le> b \<Longrightarrow> short b \<Longrightarrow> short a" and "0 < n" and "n \<le> u64_max"
  shows "\<exists>m. grow short n = Some m \<and> n \<le> m \<and> m \<le> u64_max \<and> (\<not> short m \<or> m = u64_max) \<and> (m = n \<or> short (m div 2))"
  using assms(2,3)
proof (induction "u64_max - n" arbitrary: n rule: less_induct)
  case less
  consider "\<not> short n" | "short n" "u64_max div 2 \<le> n" | "short n" "\<not> u64_max div 2 \<le> n" by blast
  then show ?case
  proof cases
    case 1
    then show ?thesis using less.prems by (subst grow.simps) simp
  next
    case 2
    then have "grow short n = Some u64_max" by (subst grow.simps) simp
    moreover have "short (u64_max div 2)" using mono [OF 2(2,1)] .
    ultimately show ?thesis using less.prems by simp
  next
    case 3
    then have g: "grow short n = grow short (n * 2)" by (subst grow.simps) simp
    have le: "n * 2 \<le> u64_max" using 3(2) by linarith
    then have "u64_max - n * 2 < u64_max - n" using less.prems by linarith
    from less.hyps [OF this] less.prems le obtain m where
      "grow short (n * 2) = Some m \<and> n * 2 \<le> m \<and> m \<le> u64_max \<and> (\<not> short m \<or> m = u64_max) \<and> (m = n * 2 \<or> short (m div 2))" by auto
    moreover from this have "m = n * 2 \<or> short (m div 2)" by blast
    then have "short (m div 2)" using 3(1) by (elim disjE) simp_all
    ultimately show ?thesis using g by (intro exI [of _ m]) simp
  qed
qed

definition used_space :: "meta_db \<Rightarrow> nat" where
  "used_space db = min (sum_list (map file_usage (filter (\<lambda>f. \<not> fi_deleted f \<and> 0 < fi_nlink f) (file_rows db)))) u64_max"

lemma saturating_fold: "fold (\<lambda>f acc. min (acc + g f) (b :: nat)) fs a = (if fs = [] then a else min (a + sum_list (map g fs)) b)"
  by (induction fs arbitrary: a) (auto simp: min_def)

text \<open>
  C33. The usage report always exists and is consistent: with \<open>u\<close> the saturated sum of the block-rounded sizes of the
  live files, the total space is at least \<open>u\<close>, free and used space add up to it, it leaves a fifth free or is the largest
  \<^verbatim>\<open>u64\<close>, and it is one pebibyte or at most twice what was needed; the inode budget is a quarter of the used inodes or more.
\<close>

theorem stat_fs_bounds:
  "\<exists>s. stat_fs db = Some s \<and> used_space db \<le> sf_total_space s \<and> sf_total_space s \<le> u64_max
    \<and> sf_available_space s + used_space db = sf_total_space s
    \<and> (used_space db * 10 \<le> sf_total_space s * 8 \<or> sf_total_space s = u64_max)
    \<and> (sf_total_space s = 2 ^ 50 \<or> sf_total_space s div 2 * 8 < used_space db * 10)
    \<and> (sf_used_inodes s \<le> sf_available_inodes s * 4 \<or> sf_available_inodes s = u64_max) \<and> sf_available_inodes s \<le> u64_max"
proof -
  let ?u = "used_space db" and ?i = "min (length (filter (\<lambda>f. \<not> fi_deleted f \<and> 0 < fi_nlink f) (file_rows db)) + length (access_rows db)) u64_max"
  have "?u \<le> u64_max" by (simp add: used_space_def)
  obtain t where t: "grow (\<lambda>n. n * 8 < ?u * 10) DEFAULT_STATFS_TOTAL_SPACE = Some t" "t \<le> u64_max" "\<not> t * 8 < ?u * 10 \<or> t = u64_max"
    "t = DEFAULT_STATFS_TOTAL_SPACE \<or> t div 2 * 8 < ?u * 10"
    using grow_returns [of "\<lambda>n. n * 8 < ?u * 10" DEFAULT_STATFS_TOTAL_SPACE] by (auto simp: DEFAULT_STATFS_TOTAL_SPACE_def u64_max_def)
  obtain a where a: "grow (\<lambda>n. n * 4 < ?i) DEFAULT_STATFS_AVAILABLE_INODES = Some a" "a \<le> u64_max" "\<not> a * 4 < ?i \<or> a = u64_max"
    using grow_returns [of "\<lambda>n. n * 4 < ?i" DEFAULT_STATFS_AVAILABLE_INODES] by (auto simp: DEFAULT_STATFS_AVAILABLE_INODES_def u64_max_def)
  have tu: "?u \<le> t" using t(3) \<open>?u \<le> u64_max\<close> by auto
  have "stat_fs db = stat_fs_snapshot_from_usage ?u ?i" by (simp add: stat_fs_def used_space_def saturating_fold Let_def)
  also have "\<dots> = Some \<lparr>sf_total_space = t, sf_available_space = t - ?u, sf_used_inodes = ?i, sf_available_inodes = a\<rparr>"
    unfolding stat_fs_snapshot_from_usage_def t(1) a(1) using tu by (simp add: Let_def)
  finally show ?thesis using tu t(2-4) a(2,3) by (auto simp: DEFAULT_STATFS_TOTAL_SPACE_def)
qed

end
