(* ===== verification/MetaWrite.thy ===== *)
theory MetaWrite
  imports MetaAttrs Compaction
begin

text \<open>
  What \<^verbatim>\<open>write\<close> and \<^verbatim>\<open>write_with_coalesced_reservation\<close> of the database store
  (\<^verbatim>\<open>src/src/meta/stores/database/mod.rs\<close>) promise: the published slice and the attributes of the file, that a
  repeated publication of a member of a shared object has no effect, and that a chunk under a compaction lease
  takes no write.
\<close>

section \<open>Publishing a slice\<close>

lemma get_slices_insert:
  assumes "rows_ok db"
  shows "get_slices (insert_slice db cid s) c = (if c = cid then get_slices db cid @ [s\<lparr>chunk_id := cid\<rparr>] else get_slices db c)"
  by (simp add: get_slices_rows [OF rows_ok_insert [OF assms]] get_slices_rows [OF assms])

lemma meta_write_found:
  assumes "find_file db ino = Some f" and "\<not> is_lock_held_internal t (ChunkCompactLock cid) locks"
  shows "meta_write t locks now ino cid s n db =
    (Inr (), (update_file (written now n f) db)\<lparr>store_db := insert_slice (store_db db) cid s\<rparr>)"
  using assms by (simp add: meta_write_def write_cases)

lemma stat_written:
  assumes f: "find_file db ino = Some f" "fi_symlink f = None" and n: "0 \<le> fi_size f" "fi_size f < 2 ^ 63" "n < u64_limit div 2"
    and db': "db' = (update_file (written now n f) db)\<lparr>store_db := s\<rparr>"
  shows "\<exists>a. stat db' ino = Some a \<and> at_size a = max (as_u64 (fi_size f)) n \<and> at_mode a = pm_mode (fi_perm f) AND NOT 0xC00"
    and "j \<noteq> ino \<Longrightarrow> stat db' j = stat db j"
proof -
  have i: "fi_inode (written now n f) = ino" using f(1) by (auto simp: find_file_def dest: find_SomeD)
  have ff: "find_file db' j = (if j = ino then Some (written now n f) else find_file db j)" for j
    using find_update_file [OF f(1) i, of j] by (simp add: db' find_file_def)
  have fa: "find_access db' j = find_access db j" for j
    using store_db_update_file(2) [of "written now n f" db j] by (simp add: db' find_access_def)
  have "as_u64 (max (fi_size f) (as_i64 n)) = max (as_u64 (fi_size f)) n"
    using n by (auto simp: as_u64_def as_i64_small u64_limit_def max_def)
  then show "\<exists>a. stat db' ino = Some a \<and> at_size a = max (as_u64 (fi_size f)) n \<and> at_mode a = pm_mode (fi_perm f) AND NOT 0xC00"
    using ff [of ino] f(2) by (simp add: stat_def file_meta_to_attr_def Let_def)
  show "j \<noteq> ino \<Longrightarrow> stat db' j = stat db j" using ff [of j] fa [of j] by (simp add: stat_def split: option.split)
qed

text \<open>
  C12. A write to a chunk under no lease: the slice becomes the newest of the chunk, so its bytes are read where it
  covers the chunk and the former bytes elsewhere; the size of the file is the larger of the old and the new one; the
  set-user and set-group bits are gone; no other chunk, no attribute of another inode and no entry of the tree
  changes. A write for an inode without a file row fails and leaves the tables as they were.
\<close>

theorem write_publishes:
  assumes inv: "ns_inv db" "rows_ok (store_db db)" and f: "find_file db ino = Some f" "fi_symlink f = None"
    and n: "0 \<le> fi_size f" "fi_size f < 2 ^ 63" "n < u64_limit div 2" and free: "\<not> is_lock_held_internal t (ChunkCompactLock cid) locks"
  shows "\<exists>db'. meta_write t locks now ino cid s n db = (Inr (), db') \<and> ns_inv db' \<and> tree_of db' = tree_of db
    \<and> rows_ok (store_db db') \<and> get_slices (store_db db') cid = get_slices (store_db db) cid @ [s\<lparr>chunk_id := cid\<rparr>]
    \<and> (\<forall>c. c \<noteq> cid \<longrightarrow> get_slices (store_db db') c = get_slices (store_db db) c)
    \<and> (\<forall>blk bs x. chunk_byte blk bs (get_slices (store_db db') cid) x =
         (if covers s x then slice_byte blk bs (slice_id s) (x - sl_offset s) else chunk_byte blk bs (get_slices (store_db db) cid) x))
    \<and> (\<exists>a. stat db' ino = Some a \<and> at_size a = max (as_u64 (fi_size f)) n \<and> at_mode a = pm_mode (fi_perm f) AND NOT 0xC00)
    \<and> (\<forall>j. j \<noteq> ino \<longrightarrow> stat db' j = stat db j)
    \<and> (\<forall>j. find_file db j = None \<longrightarrow> meta_write t locks now j cid s n db = (Inl (NotFound j), db))"
proof -
  let ?db = "(update_file (written now n f) db)\<lparr>store_db := insert_slice (store_db db) cid s\<rparr>"
  note w = meta_write_found [OF f(1) free, of now s n]
  have "keeps_tree db ?db" using write_keeps [OF inv(1), of t locks now ino cid s n False] w by (simp add: meta_write_def)
  moreover have "meta_write t locks now j cid s n db = (Inl (NotFound j), db)" if "find_file db j = None" for j
    using that free by (simp add: meta_write_def write_cases)
  moreover have "chunk_byte blk bs (get_slices (store_db ?db) cid) x =
      (if covers s x then slice_byte blk bs (slice_id s) (x - sl_offset s) else chunk_byte blk bs (get_slices (store_db db) cid) x)" for blk bs x
    by (simp add: get_slices_insert [OF inv(2)] chunk_byte_snoc covers_def)
  ultimately show ?thesis
    using w stat_written [OF f n refl] rows_ok_insert [OF inv(2)] get_slices_insert [OF inv(2)]
    by (intro exI [of _ ?db]) (simp add: keeps_tree_def)
qed

definition suid_file :: file_row where
  "suid_file = demo_file\<lparr>fi_size := 10, fi_perm := permission_new 35236 0 0\<rparr>"

definition suid_db :: meta_db where
  "suid_db = (update_file suid_file demo_create)\<lparr>store_db := (demo_store 4)\<lparr>slice_rows := slice_rows two_slice_db, next_row := 3\<rparr>\<rparr>"

lemma suid_db_ok: "ns_inv suid_db" "rows_ok (store_db suid_db)" "find_file suid_db 3 = Some suid_file" "find_file suid_db 4 = None"
proof -
  have f: "find_file demo_create 3 = Some demo_file" by (simp add: demo_create_def demo_file_def new_file_row_def find_file_def)
  have "ns_inv demo_create" using reachable_ns_inv [OF demo_reachable(3) [of "\<lambda>p t. None"]] .
  then have k: "keeps_tree demo_create (update_file suid_file demo_create)"
    using f by (rule update_file_keeps) (simp add: suid_file_def same_links_def)
  have "keeps_tree (update_file suid_file demo_create) suid_db"
    unfolding suid_db_def by (rule store_rows_keep) (use k in \<open>simp_all add: keeps_tree_def demo_create_def\<close>)
  then show "ns_inv suid_db" by (simp add: keeps_tree_def)
  show "rows_ok (store_db suid_db)" by (simp add: suid_db_def two_slice_db_def rows_ok_def)
  show "find_file suid_db 3 = Some suid_file" "find_file suid_db 4 = None"
    by (simp_all add: suid_db_def suid_file_def update_file_def demo_create_def demo_file_def new_file_row_def find_file_def)
qed

theorem write_publishes_witness:
  "let s = \<lparr>slice_id = 9, chunk_id = 3000000000, sl_offset = 4, sl_length = 8\<rparr>
   in \<exists>db'. meta_write 5 Map.empty 5 3 3000000000 s 12 suid_db = (Inr (), db') \<and> tree_of db' = tree_of suid_db
     \<and> map slice_id (get_slices (store_db db') 3000000000) = [7, 9]
     \<and> map_option at_size (stat db' 3) = Some 12 \<and> map_option at_mode (stat db' 3) = Some 33188
     \<and> (\<forall>blk bs. chunk_byte blk bs (get_slices (store_db db') 3000000000) 5 = slice_byte blk bs 9 1)
     \<and> meta_write 5 Map.empty 5 4 3000000000 s 12 suid_db = (Inl (NotFound 4), suid_db)"
proof -
  define s where "s = \<lparr>slice_id = 9, chunk_id = 3000000000, sl_offset = 4, sl_length = (8 :: nat)\<rparr>"
  have g: "map slice_id (get_slices (store_db suid_db) 3000000000) = [7]" by (simp add: suid_db_def two_slice_db_def get_slices_def)
  have f: "fi_symlink suid_file = None" "fi_size suid_file = 10" "as_u64 10 = 10" "pm_mode (fi_perm suid_file) AND NOT 0xC00 = 33188"
    by (simp_all add: suid_file_def demo_file_def new_file_row_def permission_new_def as_u64_def)
  have "\<not> is_lock_held_internal 5 (ChunkCompactLock 3000000000) Map.empty" by (simp add: is_lock_held_internal_def)
  from write_publishes [OF suid_db_ok(1-3) f(1) _ _ _ this, of 12 5 s, unfolded f] obtain db' where
    db': "meta_write 5 Map.empty 5 3 3000000000 s 12 suid_db = (Inr (), db')" "tree_of db' = tree_of suid_db"
      "get_slices (store_db db') 3000000000 = get_slices (store_db suid_db) 3000000000 @ [s\<lparr>chunk_id := 3000000000\<rparr>]"
      "\<And>blk bs x. chunk_byte blk bs (get_slices (store_db db') 3000000000) x =
         (if covers s x then slice_byte blk bs (slice_id s) (x - sl_offset s) else chunk_byte blk bs (get_slices (store_db suid_db) 3000000000) x)"
      "\<exists>a. stat db' 3 = Some a \<and> at_size a = 12 \<and> at_mode a = 33188"
      "meta_write 5 Map.empty 5 4 3000000000 s 12 suid_db = (Inl (NotFound 4), suid_db)"
    using suid_db_ok(4) by (auto simp: u64_limit_def)
  have "chunk_byte blk bs (get_slices (store_db db') 3000000000) 5 = slice_byte blk bs 9 1" for blk bs
    unfolding db'(4) by (simp add: covers_def s_def)
  moreover have "map slice_id (get_slices (store_db db') 3000000000) = [7, 9]" using g db'(3) by (simp add: s_def)
  ultimately show ?thesis unfolding Let_def s_def [symmetric] using db'(1,2,5,6) by (intro exI [of _ db']) auto
qed

section \<open>Leases\<close>

text \<open>
  C16. A compaction lease protects its chunk: once a client was granted the lock of a chunk at instant \<^verbatim>\<open>t\<close> for
  \<^verbatim>\<open>ttl\<close> seconds, and as long as nobody releases that lock, then whatever lock calls clients make, at whatever
  clocks, the lock counts as held before the end of the lease, is granted to nobody else, and every write to the
  chunk, coalesced or not, is refused with a conflict that asks for a retry and changes nothing.
\<close>

theorem lease_protects_chunk:
  assumes "get_lock_internal t (ChunkCompactLock cid) ttl locks = (True, locks1)" and "ttl < u64_limit div 2"
    and "\<forall>c\<in>set cs. lock_keeps (ChunkCompactLock cid) c" and "t' < t + int ttl * 1000000000"
  shows "let locks' = fold lock_step cs locks1
    in is_lock_held_internal t' (ChunkCompactLock cid) locks' \<and> (\<forall>ttl'. get_lock_internal t' (ChunkCompactLock cid) ttl' locks' = (False, locks'))
     \<and> (\<forall>now ino s n coalesced db. write_with_coalesced_reservation t' locks' now ino cid s n coalesced db = (Inl (ContinueRetry VersionConflict), db))"
proof -
  note l = leased_answers [OF lock_run_lease [OF granted_leased [OF assms(1)] assms(3)], unfolded as_i64_small [OF assms(2)], OF assms(4)]
  show ?thesis using l by (simp add: write_cases)
qed

theorem lease_protects_chunk_witness:
  "let locks1 = snd (get_lock_internal 100 (ChunkCompactLock 7) 30 Map.empty);
       locks' = fold lock_step [(200, LockRelease CleanupSessionsLock), (29000000000, LockGet (ChunkCompactLock 7) 60)] locks1
   in fst (get_lock_internal 100 (ChunkCompactLock 7) 30 Map.empty)
    \<and> (\<forall>now ino s n coalesced db. write_with_coalesced_reservation 30000000000 locks' now ino 7 s n coalesced db = (Inl (ContinueRetry VersionConflict), db))
    \<and> fst (get_lock_internal 30000000100 (ChunkCompactLock 7) 60 locks')"
proof -
  have g: "get_lock_internal 100 (ChunkCompactLock 7) 30 Map.empty = (True, [ChunkCompactLock 7 \<mapsto> 30000000100])"
    by (simp add: get_lock_internal_def as_i64_def u64_limit_def)
  let ?cs = "[(200, LockRelease CleanupSessionsLock), (29000000000, LockGet (ChunkCompactLock 7) 60)]"
  have "lock_keeps (ChunkCompactLock 7) c" if "c \<in> set ?cs" for c using that by (auto simp: u64_limit_def)
  from lease_protects_chunk [OF g, of ?cs 30000000000] this
  have "\<forall>now ino s n coalesced db. write_with_coalesced_reservation 30000000000 (fold lock_step ?cs [ChunkCompactLock 7 \<mapsto> 30000000100]) now ino 7 s n coalesced db
      = (Inl (ContinueRetry VersionConflict), db)" by (simp add: u64_limit_def Let_def)
  moreover have "as_i64 30 = 30" "as_i64 60 = 60" by (simp_all add: as_i64_def u64_limit_def)
  ultimately show ?thesis by (simp add: Let_def get_lock_internal_def release_lock_internal_def)
qed

section \<open>Members of shared objects\<close>

text \<open>The publication of a member, as the two counters of its group record it.\<close>

definition member_published :: "slice_desc \<Rightarrow> slice_db \<Rightarrow> bool" where
  "member_published s sdb \<longleftrightarrow> (\<exists>grp slot bits p. decode_id (of_nat (slice_id s)) = Some (grp, slot)
     \<and> counters sdb (ledger_key grp) = Some bits \<and> \<not> drop_bit 32 bits \<le> slot \<and> bits AND push_bit (unat slot) 1 = 0
     \<and> counters sdb (published_key grp) = Some p \<and> p AND push_bit (unat slot) 1 \<noteq> 0)"

lemma published_not_ledger [simp]: "published_key a \<noteq> ledger_key b" "ledger_key b \<noteq> published_key a"
proof -
  have "CHR ''/'' \<in> set (decimal (unat a) @ ''/published'')" by simp
  then have "decimal (unat a) @ ''/published'' \<noteq> decimal (unat b)" by (metis slash_not_decimal)
  then show "published_key a \<noteq> ledger_key b" by (simp add: published_key_def ledger_key_def)
  then show "ledger_key b \<noteq> published_key a" by simp
qed

lemma decoded_slot: "decode_id i = Some (grp, slot) \<Longrightarrow> unat slot < 32"
proof -
  assume "decode_id i = Some (grp, slot)"
  then have "slot = i AND 31" by (auto simp: decode_id_def split: if_splits)
  then have "slot \<le> 31" by (simp add: word_and_le1)
  then show ?thesis by (simp add: word_le_nat_alt)
qed

lemma or_bit_set: "k < 64 \<Longrightarrow> ((p :: u64) OR push_bit k 1) AND push_bit k 1 \<noteq> 0"
proof
  assume "k < 64" "(p OR push_bit k 1) AND push_bit k 1 = 0"
  moreover from \<open>k < 64\<close> have "bit ((p OR push_bit k 1) AND push_bit k 1) k" by (simp add: bit_simps)
  ultimately show False by simp
qed

lemma or_keeps_bit:
  assumes "(p :: u64) AND m \<noteq> 0"
  shows "(p OR q) AND m \<noteq> 0"
proof -
  obtain k where "bit (p AND m) k" using assms by (metis bit_eqI bit_0_eq bot_apply bot_bool_def)
  then have "bit ((p OR q) AND m) k" by (simp add: bit_simps)
  then show ?thesis by auto
qed

lemma consume_published:
  assumes "consume_coalesced_reservation sdb s = Inr (fresh, sdb')"
  shows "member_published s sdb'"
  using assms decoded_slot [of "of_nat (slice_id s)"] or_bit_set
  by (force simp: consume_coalesced_reservation_def member_published_def result_simps Let_def split: if_splits)

lemma consume_again: "member_published s sdb \<Longrightarrow> consume_coalesced_reservation sdb s = Inr (False, sdb)"
  by (auto simp: consume_coalesced_reservation_def member_published_def result_simps)

lemma consume_counter_change:
  assumes "consume_coalesced_reservation sdb s = Inr (fresh, sdb')"
  obtains "counters sdb' = counters sdb"
  | g p m where "counters sdb (published_key g) = Some p" "counters sdb' = (counters sdb)(published_key g \<mapsto> p OR m)"
  using assms by (auto simp: consume_coalesced_reservation_def result_simps Let_def split: if_splits)

lemma consume_keeps_published:
  assumes "consume_coalesced_reservation sdb s = Inr (fresh, sdb')" and "member_published u sdb"
  shows "member_published u sdb'"
  using assms(1)
proof (cases rule: consume_counter_change)
  case 1
  then show ?thesis using assms(2) by (simp add: member_published_def)
next
  case (2 g p m)
  then show ?thesis using assms(2) or_keeps_bit unfolding member_published_def by fastforce
qed

text \<open>Further writes, of any file and member, keep a published member published.\<close>

record write_call =
  wc_time :: int
  wc_locks :: lock_table
  wc_now :: int
  wc_ino :: int
  wc_chunk :: nat
  wc_slice :: slice_desc
  wc_size :: nat
  wc_coalesced :: bool

definition run_write :: "write_call \<Rightarrow> meta_db \<Rightarrow> meta_db" where
  "run_write c db = snd (write_with_coalesced_reservation (wc_time c) (wc_locks c) (wc_now c) (wc_ino c) (wc_chunk c) (wc_slice c)
     (wc_size c) (wc_coalesced c) db)"

lemma published_insert: "member_published u (insert_slice sdb cid s) = member_published u sdb"
  by (simp add: member_published_def insert_slice_def)

lemma run_write_published:
  assumes "member_published u (store_db db)"
  shows "member_published u (store_db (run_write c db))"
  using assms consume_keeps_published [OF _ assms]
  by (auto simp: run_write_def write_cases published_insert split: sum.split option.split prod.split)

lemma run_writes_published: "member_published u (store_db db) \<Longrightarrow> member_published u (store_db (fold run_write cs db))"
  by (induction cs arbitrary: db) (simp_all add: run_write_published)

lemma write_published:
  assumes "write_with_coalesced_reservation t locks now ino cid s n True db = (Inr (), db')"
  shows "member_published s (store_db db')"
  using assms by (auto simp: write_cases published_insert dest: consume_published split: if_splits sum.splits option.splits prod.splits)

text \<open>
  A member of a shared object is published at most once: after a coalesced write of a slice succeeded, and after any
  further writes, repeating it with any clocks, inode, chunk and size succeeds and changes nothing, unless the chunk is
  under a compaction lease, in which case it asks for a retry and changes nothing either.
\<close>

theorem coalesced_write_once:
  assumes "write_with_coalesced_reservation t locks now ino cid s n True db = (Inr (), db')" and "db1 = fold run_write cs db'"
  shows "write_with_coalesced_reservation t' locks' now' ino' cid' s n' True db1 =
    ((if is_lock_held_internal t' (ChunkCompactLock cid') locks' then Inl (ContinueRetry VersionConflict) else Inr ()), db1)"
  using consume_again [OF run_writes_published [OF write_published [OF assms(1)], of cs]] by (simp add: write_cases assms(2))

definition member_slice :: slice_desc where
  "member_slice = \<lparr>slice_id = 4503599627370528, chunk_id = 3000000000, sl_offset = 4, sl_length = 8\<rparr>"

definition group_db :: meta_db where
  "group_db = suid_db\<lparr>store_db := (store_db suid_db)\<lparr>counters := [''write_coalesce/1'' \<mapsto> 4294967296, ''write_coalesce/1/published'' \<mapsto> 0],
     uncommitted_rows := [\<lparr>un_id = 1, un_slice_id = 4503599627370528, un_chunk_id = 3000000000, un_size = 8, un_created_at = 0,
       un_operation = ''coalesce'', un_status = UnPending\<rparr>]\<rparr>\<rparr>"

lemma group_db_consume:
  "\<exists>sdb. consume_coalesced_reservation (store_db group_db) member_slice = Inr (True, sdb) \<and> slice_rows sdb = slice_rows two_slice_db \<and> next_row sdb = 3"
proof -
  have d: "decode_id 4503599627370528 = Some (1, 0)" by (simp add: decode_id_def ID_FLAG_def)
  have k: "ledger_key 1 = ''write_coalesce/1''" "published_key 1 = ''write_coalesce/1/published''"
    by (simp_all add: ledger_key_def published_key_def decimal.simps digit_char_def char_of_def bit_0)
  show ?thesis by (simp add: consume_coalesced_reservation_def group_db_def suid_db_def member_slice_def d k result_simps)
qed

theorem coalesced_write_once_witness:
  "let w = write_with_coalesced_reservation 5 Map.empty 5 3 3000000000 member_slice 12 True;
       db1 = snd (meta_write 6 Map.empty 6 3 3000000001 \<lparr>slice_id = 9, chunk_id = 3000000001, sl_offset = 0, sl_length = 4\<rparr> 20 (snd (w group_db)))
   in fst (w group_db) = Inr () \<and> map slice_id (get_slices (store_db (snd (w group_db))) 3000000000) = [7, 4503599627370528]
    \<and> w db1 = (Inr (), db1)"
proof -
  let ?w = "write_with_coalesced_reservation 5 Map.empty 5 3 3000000000 member_slice 12 True"
  let ?c = "\<lparr>wc_time = 6, wc_locks = Map.empty, wc_now = 6, wc_ino = 3, wc_chunk = 3000000001,
     wc_slice = \<lparr>slice_id = 9, chunk_id = 3000000001, sl_offset = 0, sl_length = 4\<rparr>, wc_size = 20, wc_coalesced = False\<rparr>"
  obtain sdb where c: "consume_coalesced_reservation (store_db group_db) member_slice = Inr (True, sdb)" "slice_rows sdb = slice_rows two_slice_db" "next_row sdb = 3"
    using group_db_consume by blast
  have f: "find_file group_db 3 = Some suid_file" using suid_db_ok(3) by (simp add: group_db_def store_update_file)
  have w: "fst (?w group_db) = Inr ()" "slice_rows (store_db (snd (?w group_db))) = slice_rows (insert_slice sdb 3000000000 member_slice)"
    using c(1) f by (simp_all add: write_cases is_lock_held_internal_def)
  have "map slice_id (get_slices (store_db (snd (?w group_db))) 3000000000) = [7, 4503599627370528]"
    unfolding get_slices_def w(2) by (simp add: c two_slice_db_def member_slice_def)
  moreover have "?w (run_write ?c (snd (?w group_db))) = (Inr (), run_write ?c (snd (?w group_db)))"
    using coalesced_write_once [of 5 Map.empty 5 3 3000000000 member_slice 12 group_db "snd (?w group_db)" "run_write ?c (snd (?w group_db))" "[?c]" 5 Map.empty 5 3 3000000000 12] w(1)
    by (simp add: prod_eq_iff is_lock_held_internal_def)
  ultimately show ?thesis using w(1) by (simp add: Let_def run_write_def meta_write_def)
qed

end
