(* ===== verification/PathCache.thy ===== *)
theory PathCache
  imports NamespacePaths "HOL-Library.AList" "HOL-Library.Sublist"
begin

text \<open>
  The path cache of the metadata client: the trie of resolved paths
  (\<^verbatim>\<open>src/src/meta/client/path_trie.rs\<close>) and the three tables of \<^verbatim>\<open>MetaClient\<close> that follow it
  (\<^verbatim>\<open>src/src/meta/client/mod.rs\<close>): path to inode, the trie, and inode to paths. Hash maps are
  association lists or maps; the order in which a hash map is walked is the order of the list, and
  no result below depends on it. Each call is one step; node locks are not modelled.
\<close>

section \<open>Paths\<close>

definition split_path :: "string \<Rightarrow> string list" where
  "split_path path = filter (\<lambda>s. s \<noteq> []) (split_slash (dropWhile (\<lambda>c. c = CHR ''/'') path))"

section \<open>The trie\<close>

datatype trie_node = TrieNode (tn_children: "(string \<times> trie_node) list") (tn_inodes: "int list") (tn_terminal: bool)

definition trie_new :: trie_node where
  "trie_new = TrieNode [] [] False"

fun trie_insert_at :: "string list \<Rightarrow> int \<Rightarrow> trie_node \<Rightarrow> trie_node" where
  "trie_insert_at [] ino (TrieNode ch is t) = TrieNode ch (if ino \<in> set is then is else is @ [ino]) True"
| "trie_insert_at (c # cs) ino (TrieNode ch is t) =
     TrieNode (AList.update c (trie_insert_at cs ino (case map_of ch c of Some n \<Rightarrow> n | None \<Rightarrow> trie_new)) ch) is t"

definition trie_insert :: "string \<Rightarrow> int \<Rightarrow> trie_node \<Rightarrow> trie_node" where
  "trie_insert path ino = trie_insert_at (split_path path) ino"

fun collect_all_paths_from_node :: "trie_node \<Rightarrow> string \<Rightarrow> (string \<times> int list) list" where
  "collect_all_paths_from_node (TrieNode ch is t) pre =
     (if t then [(pre, is)] else [])
     @ concat (map (\<lambda>(c, n). collect_all_paths_from_node n (if pre = [] then ''/'' @ c else pre @ ''/'' @ c)) ch)"

fun remove_at :: "string \<Rightarrow> string list \<Rightarrow> trie_node \<Rightarrow> (string \<times> int list) list \<times> trie_node" where
  "remove_at path [] n = ([], n)"
| "remove_at path [c] (TrieNode ch is t) =
     (case map_of ch c of
        Some n \<Rightarrow> (collect_all_paths_from_node n path, TrieNode (AList.delete c ch) is t)
      | None \<Rightarrow> ([], TrieNode ch is t))"
| "remove_at path (c # d # cs) (TrieNode ch is t) =
     (case map_of ch c of
        Some n \<Rightarrow> (let (removed, n') = remove_at path (d # cs) n in (removed, TrieNode (AList.update c n' ch) is t))
      | None \<Rightarrow> ([], TrieNode ch is t))"

definition remove_by_prefix :: "string \<Rightarrow> trie_node \<Rightarrow> (string \<times> int list) list \<times> trie_node" where
  "remove_by_prefix path t =
     (let components = split_path path
      in if components = [] then (collect_all_paths_from_node t [], trie_new) else remove_at path components t)"

section \<open>The tables of the client\<close>

record path_index =
  path_cache :: "string \<Rightarrow> int option"
  path_trie :: trie_node
  inode_to_paths :: "int \<Rightarrow> string list option"

definition path_index_new :: path_index where
  "path_index_new = \<lparr>path_cache = (\<lambda>_. None), path_trie = trie_new, inode_to_paths = (\<lambda>_. None)\<rparr>"

definition check_root :: "int \<Rightarrow> int \<Rightarrow> int" where
  "check_root root_ino i = (if i = 0 then 1 else if i = 1 then root_ino else i)"

text \<open>The end of a path resolution that met no symbolic link.\<close>

definition cache_resolved :: "string \<Rightarrow> int \<Rightarrow> path_index \<Rightarrow> path_index" where
  "cache_resolved path ino st =
     st\<lparr>path_cache := (path_cache st)(path := Some ino), path_trie := trie_insert path ino (path_trie st),
       inode_to_paths := (inode_to_paths st)(ino := Some ((case inode_to_paths st ino of Some ps \<Rightarrow> ps | None \<Rightarrow> []) @ [path]))\<rparr>"

definition drop_reverse :: "string \<Rightarrow> int \<Rightarrow> (int \<Rightarrow> string list option) \<Rightarrow> int \<Rightarrow> string list option" where
  "drop_reverse removed_path ino m =
     (case m ino of
        None \<Rightarrow> m
      | Some ps \<Rightarrow> let kept = filter (\<lambda>p. p \<noteq> removed_path) ps in m(ino := if kept = [] then None else Some kept))"

definition invalidate_removed :: "string \<times> int list \<Rightarrow> path_index \<Rightarrow> path_index" where
  "invalidate_removed r st =
     st\<lparr>path_cache := (path_cache st)(fst r := None), inode_to_paths := fold (drop_reverse (fst r)) (snd r) (inode_to_paths st)\<rparr>"

definition invalidate_path :: "string \<Rightarrow> path_index \<Rightarrow> path_index" where
  "invalidate_path parent_path st =
     (let (removed, t) = remove_by_prefix parent_path (path_trie st) in fold invalidate_removed removed (st\<lparr>path_trie := t\<rparr>))"

definition invalidate_parent_path :: "int \<Rightarrow> int \<Rightarrow> path_index \<Rightarrow> path_index" where
  "invalidate_parent_path root_ino parent_ino st =
     (let parent_ino = check_root root_ino parent_ino
      in case inode_to_paths st parent_ino of
           Some paths \<Rightarrow> let st' = fold invalidate_path paths st in st'\<lparr>inode_to_paths := (inode_to_paths st')(parent_ino := None)\<rparr>
         | None \<Rightarrow> st\<lparr>path_cache := (\<lambda>_. None)\<rparr>)"

text \<open>The part of the event \<^verbatim>\<open>InvalidateInode\<close> that concerns paths.\<close>

definition invalidate_inode_paths :: "int \<Rightarrow> path_index \<Rightarrow> path_index" where
  "invalidate_inode_paths ino st =
     (case inode_to_paths st ino of
        Some paths \<Rightarrow> st\<lparr>path_cache := fold (\<lambda>p m. m(p := None)) paths (path_cache st)\<rparr>
      | None \<Rightarrow> st)"

section \<open>What the trie stores\<close>

fun trie_get :: "trie_node \<Rightarrow> string list \<Rightarrow> int list option" where
  "trie_get (TrieNode ch is t) [] = (if t then Some is else None)"
| "trie_get (TrieNode ch is t) (c # cs) = (case map_of ch c of Some n \<Rightarrow> trie_get n cs | None \<Rightarrow> None)"

fun trie_ok :: "trie_node \<Rightarrow> bool" where
  "trie_ok (TrieNode ch is t) \<longleftrightarrow> distinct (map fst ch) \<and> (\<not> t \<longrightarrow> is = []) \<and> (\<forall>(c, n)\<in>set ch. name_ok c \<and> trie_ok n)"

lemma split_slash_nonempty [simp]: "split_slash p \<noteq> []"
  by (induction p) (auto split: list.splits)

lemma split_slash_cut: "split_slash (p @ CHR ''/'' # q) = split_slash p @ split_slash q"
  by (induction p) (auto simp: neq_Nil_conv split: list.splits)

lemma split_path_alt: "split_path p = filter (\<lambda>s. s \<noteq> []) (split_slash p)"
  by (induction p) (auto simp: split_path_def)

lemma split_path_child: "name_ok c \<Longrightarrow> split_path (p @ CHR ''/'' # c) = split_path p @ [c]"
  by (simp add: split_path_alt split_slash_cut split_slash_free name_ok_def)

lemma split_path_join: "\<forall>c\<in>set cs. name_ok c \<Longrightarrow> split_path (p @ join_slash cs) = split_path p @ cs"
proof (induction cs arbitrary: p)
  case Nil
  then show ?case by (simp add: join_slash_def)
next
  case (Cons c cs)
  from Cons.IH [of "p @ CHR ''/'' # c"] Cons.prems have "split_path ((p @ CHR ''/'' # c) @ join_slash cs) = split_path p @ c # cs"
    by (simp add: split_path_child)
  then show ?case by (simp add: join_slash_def)
qed

lemma split_slash_parts: "c \<in> set (split_slash p) \<Longrightarrow> CHR ''/'' \<notin> set c"
  by (induction p arbitrary: c) (auto split: list.splits if_splits)

lemma split_path_names: "c \<in> set (split_path p) \<Longrightarrow> name_ok c"
  using split_slash_parts by (auto simp: split_path_alt name_ok_def)

lemma trie_new_facts [simp]: "trie_ok trie_new" "trie_get trie_new cs = None"
  by (simp_all add: trie_new_def) (cases cs; simp)

lemma trie_new_get: "trie_get trie_new = (\<lambda>_. None)"
  by (simp add: fun_eq_iff)

lemma update_members: "distinct (map fst ch) \<Longrightarrow> (k, n) \<in> set (AList.update c v ch) \<longleftrightarrow> (if k = c then n = v else (k, n) \<in> set ch)"
  using map_of_eq_Some_iff [of "AList.update c v ch" k n] map_of_eq_Some_iff [of ch k n] by (auto simp: distinct_update update_conv')

lemma delete_members: "distinct (map fst ch) \<Longrightarrow> (k, n) \<in> set (AList.delete c ch) \<longleftrightarrow> k \<noteq> c \<and> (k, n) \<in> set ch"
  by (auto simp: AList.delete_eq)

definition add_inode :: "int \<Rightarrow> int list option \<Rightarrow> int list" where
  "add_inode ino old = (let inos = case old of Some inos \<Rightarrow> inos | None \<Rightarrow> [] in if ino \<in> set inos then inos else inos @ [ino])"

lemma trie_insert_at:
  assumes "trie_ok t" and "\<forall>c\<in>set cs. name_ok c"
  shows "trie_ok (trie_insert_at cs ino t)
    \<and> trie_get (trie_insert_at cs ino t) = (trie_get t)(cs \<mapsto> add_inode ino (trie_get t cs))"
  using assms
proof (induction cs arbitrary: t)
  case Nil
  obtain ch inos b where t: "t = TrieNode ch inos b" by (cases t)
  show ?case
  proof (intro conjI ext)
    fix ds
    show "trie_get (trie_insert_at [] ino t) ds = ((trie_get t)([] \<mapsto> add_inode ino (trie_get t []))) ds"
      using Nil by (cases ds) (auto simp: t add_inode_def)
  qed (use Nil t in auto)
next
  case (Cons c cs)
  obtain ch inos b where t: "t = TrieNode ch inos b" by (cases t)
  let ?n = "case map_of ch c of Some n \<Rightarrow> n | None \<Rightarrow> trie_new"
  have ch: "distinct (map fst ch)" "\<And>c n. (c, n) \<in> set ch \<Longrightarrow> name_ok c \<and> trie_ok n" using Cons.prems(1) by (auto simp: t)
  have "trie_ok ?n" using ch(2) map_of_SomeD [of ch c] by (auto split: option.split)
  note IH = Cons.IH [OF this]
  have g: "trie_get ?n cs = trie_get t (c # cs)" by (simp add: t split: option.split)
  show ?case
  proof (intro conjI ext)
    show "trie_ok (trie_insert_at (c # cs) ino t)" using IH Cons.prems ch by (auto simp: t distinct_update update_members split: if_splits)
    fix ds
    show "trie_get (trie_insert_at (c # cs) ino t) ds
      = ((trie_get t)(c # cs \<mapsto> add_inode ino (trie_get t (c # cs)))) ds"
    proof (cases ds)
      case (Cons e es)
      show ?thesis
      proof (cases "e = c")
        case True
        then show ?thesis using IH Cons.prems(2) g unfolding Cons t by (auto simp: update_conv' Cons split: option.split)
      next
        case False
        then show ?thesis by (simp add: t Cons update_conv')
      qed
    qed (simp add: t)
  qed
qed

lemma collect_all_paths:
  "trie_ok t \<Longrightarrow> (q, inos) \<in> set (collect_all_paths_from_node t pre) \<longleftrightarrow> (\<exists>cs. trie_get t cs = Some inos \<and> q = pre @ join_slash cs)"
proof (induction t arbitrary: pre q)
  case (TrieNode ch js b)
  have ch: "distinct (map fst ch)" "\<And>c n. (c, n) \<in> set ch \<Longrightarrow> trie_ok n" using TrieNode.prems by auto
  have pre: "(if pre = [] then ''/'' @ c else pre @ ''/'' @ c) = pre @ CHR ''/'' # c" for c by simp
  have IH: "(q, inos) \<in> set (collect_all_paths_from_node n (pre @ CHR ''/'' # c)) \<longleftrightarrow> (\<exists>cs. trie_get n cs = Some inos \<and> q = pre @ join_slash (c # cs))"
    if "(c, n) \<in> set ch" for c n
    using TrieNode.IH [of "(c, n)" n] that ch(2) by (simp add: join_slash_def)
  have "(q, inos) \<in> set (collect_all_paths_from_node (TrieNode ch js b) pre)
      \<longleftrightarrow> b \<and> q = pre \<and> inos = js \<or> (\<exists>c n. (c, n) \<in> set ch \<and> (q, inos) \<in> set (collect_all_paths_from_node n (pre @ CHR ''/'' # c)))"
    by (simp only: collect_all_paths_from_node.simps pre) auto
  also have "\<dots> \<longleftrightarrow> b \<and> q = pre \<and> inos = js \<or> (\<exists>c n cs. map_of ch c = Some n \<and> trie_get n cs = Some inos \<and> q = pre @ join_slash (c # cs))"
    using IH ch(1) by (metis map_of_eq_Some_iff)
  also have "\<dots> \<longleftrightarrow> (\<exists>cs. trie_get (TrieNode ch js b) cs = Some inos \<and> q = pre @ join_slash cs)" (is "_ \<longleftrightarrow> (\<exists>cs. ?P cs)")
  proof
    assume "\<exists>cs. ?P cs"
    then obtain cs where cs: "?P cs" ..
    then show "b \<and> q = pre \<and> inos = js \<or> (\<exists>c n cs. map_of ch c = Some n \<and> trie_get n cs = Some inos \<and> q = pre @ join_slash (c # cs))"
    proof (cases cs)
      case Nil
      then show ?thesis using cs by (simp add: join_slash_def split: if_splits)
    next
      case (Cons c ds)
      then show ?thesis using cs by (auto split: option.splits)
    qed
  next
    assume "b \<and> q = pre \<and> inos = js \<or> (\<exists>c n cs. map_of ch c = Some n \<and> trie_get n cs = Some inos \<and> q = pre @ join_slash (c # cs))"
    then show "\<exists>cs. ?P cs"
    proof
      assume "b \<and> q = pre \<and> inos = js"
      then have "?P []" by (simp add: join_slash_def)
      then show ?thesis ..
    next
      assume "\<exists>c n cs. map_of ch c = Some n \<and> trie_get n cs = Some inos \<and> q = pre @ join_slash (c # cs)"
      then obtain c n cs where "map_of ch c = Some n" "trie_get n cs = Some inos" "q = pre @ join_slash (c # cs)" by blast
      then have "?P (c # cs)" by simp
      then show ?thesis ..
    qed
  qed
  finally show ?case .
qed

lemma remove_at:
  assumes "trie_ok t" and "remove_at path (c # cs) t = (removed, t')"
  shows "trie_ok t' \<and> (\<forall>ds. trie_get t' ds = (if prefix (c # cs) ds then None else trie_get t ds))
    \<and> (\<forall>q inos. (q, inos) \<in> set removed \<longleftrightarrow> (\<exists>ds. trie_get t (c # cs @ ds) = Some inos \<and> q = path @ join_slash ds))"
  using assms
proof (induction cs arbitrary: c t t' removed)
  case Nil
  obtain ch inos b where t: "t = TrieNode ch inos b" by (cases t)
  have ch: "distinct (map fst ch)" "\<And>c n. (c, n) \<in> set ch \<Longrightarrow> name_ok c \<and> trie_ok n" using Nil.prems(1) by (auto simp: t)
  show ?case
  proof (cases "map_of ch c")
    case None
    then have "removed = []" "t' = t" using Nil.prems(2) by (simp_all add: t)
    moreover have "trie_get t (c # ds) = None" for ds using None by (simp add: t)
    ultimately show ?thesis using Nil.prems(1) by (auto simp: prefix_def)
  next
    case (Some n)
    then have r: "removed = collect_all_paths_from_node n path" "t' = TrieNode (AList.delete c ch) inos b" using Nil.prems(2) by (simp_all add: t)
    have "trie_ok n" using ch(2) map_of_SomeD [OF Some] by blast
    moreover have "trie_ok t'" using Nil.prems(1) ch by (auto simp: r t delete_members distinct_delete)
    moreover have "trie_get t' ds = (if prefix [c] ds then None else trie_get t ds)" for ds
      by (cases ds) (auto simp: r t delete_conv' prefix_def)
    ultimately show ?thesis using collect_all_paths [of n _ _ path] Some by (simp add: r(1) t)
  qed
next
  case (Cons d cs)
  obtain ch inos b where t: "t = TrieNode ch inos b" by (cases t)
  have ch: "distinct (map fst ch)" "\<And>c n. (c, n) \<in> set ch \<Longrightarrow> name_ok c \<and> trie_ok n" using Cons.prems(1) by (auto simp: t)
  show ?case
  proof (cases "map_of ch c")
    case None
    then have "removed = []" "t' = t" using Cons.prems(2) by (simp_all add: t)
    moreover have "trie_get t (c # ds) = None" for ds using None by (simp add: t)
    ultimately show ?thesis using Cons.prems(1) by (auto simp: prefix_def)
  next
    case (Some n)
    then obtain n' where r: "remove_at path (d # cs) n = (removed, n')" "t' = TrieNode (AList.update c n' ch) inos b"
      using Cons.prems(2) by (auto simp: t split: prod.splits)
    have n: "trie_ok n" "name_ok c" using ch(2) map_of_SomeD [OF Some] by blast+
    note IH = Cons.IH [OF n(1) r(1)]
    have "trie_ok t'" using IH ch n(2) Cons.prems(1) by (auto simp: r(2) t distinct_update update_members split: if_splits)
    moreover have "trie_get t' ds = (if prefix (c # d # cs) ds then None else trie_get t ds)" for ds
      using IH Some by (cases ds) (auto simp: r(2) t update_conv')
    ultimately show ?thesis using IH Some by (simp add: t)
  qed
qed

lemma remove_by_prefix:
  assumes "trie_ok t" and "remove_by_prefix p t = (removed, t')"
  shows "trie_ok t'" and "trie_get t' = (\<lambda>ds. if prefix (split_path p) ds then None else trie_get t ds)"
    and "(q, inos) \<in> set removed \<longleftrightarrow> (\<exists>ds. trie_get t (split_path p @ ds) = Some inos \<and> q = (if split_path p = [] then [] else p) @ join_slash ds)"
proof -
  have "trie_ok t' \<and> trie_get t' = (\<lambda>ds. if prefix (split_path p) ds then None else trie_get t ds)
    \<and> ((q, inos) \<in> set removed \<longleftrightarrow> (\<exists>ds. trie_get t (split_path p @ ds) = Some inos \<and> q = (if split_path p = [] then [] else p) @ join_slash ds))"
  proof (cases "split_path p")
    case Nil
    then show ?thesis using assms collect_all_paths [OF assms(1), of q inos "[]"] by (auto simp: remove_by_prefix_def)
  next
    case (Cons c cs)
    then have "remove_at p (c # cs) t = (removed, t')" using assms(2) by (simp add: remove_by_prefix_def)
    from remove_at [OF assms(1) this] show ?thesis using Cons by auto
  qed
  then show "trie_ok t'" "trie_get t' = (\<lambda>ds. if prefix (split_path p) ds then None else trie_get t ds)"
    "(q, inos) \<in> set removed \<longleftrightarrow> (\<exists>ds. trie_get t (split_path p @ ds) = Some inos \<and> q = (if split_path p = [] then [] else p) @ join_slash ds)"
    by blast+
qed

lemma trie_insert:
  assumes "trie_ok t"
  shows "trie_ok (trie_insert p ino t)" and "trie_get (trie_insert p ino t) = (trie_get t)(split_path p \<mapsto> add_inode ino (trie_get t (split_path p)))"
  using trie_insert_at [OF assms, of "split_path p" ino] split_path_names by (auto simp: trie_insert_def)

text \<open>Calls on a trie, and the same calls on a map from component lists to inode lists.\<close>

datatype trie_call = Insert string int | RemoveByPrefix string

fun trie_step :: "trie_call \<Rightarrow> trie_node \<Rightarrow> trie_node" where
  "trie_step (Insert p ino) t = trie_insert p ino t"
| "trie_step (RemoveByPrefix p) t = snd (remove_by_prefix p t)"

fun map_step :: "trie_call \<Rightarrow> (string list \<Rightarrow> int list option) \<Rightarrow> string list \<Rightarrow> int list option" where
  "map_step (Insert p ino) m = m(split_path p \<mapsto> add_inode ino (m (split_path p)))"
| "map_step (RemoveByPrefix p) m = (\<lambda>ds. if prefix (split_path p) ds then None else m ds)"

lemma trie_run:
  assumes "trie_ok t"
  shows "trie_ok (fold trie_step calls t) \<and> trie_get (fold trie_step calls t) = fold map_step calls (trie_get t)"
  using assms
proof (induction calls arbitrary: t)
  case (Cons call calls)
  have "trie_ok (trie_step call t) \<and> trie_get (trie_step call t) = map_step call (trie_get t)"
  proof (cases call)
    case (RemoveByPrefix p)
    then show ?thesis using remove_by_prefix(1,2) [OF Cons.prems, of p "fst (remove_by_prefix p t)" "snd (remove_by_prefix p t)"] by simp
  qed (simp add: trie_insert [OF Cons.prems])
  then show ?case using Cons.IH [of "trie_step call t"] by simp
qed simp

text \<open>
  C26. The path trie is a map from component lists to inodes: after any calls it stores what the same calls leave
  in a map, and \<^verbatim>\<open>remove_by_prefix\<close> reports exactly the stored paths at and below the given one, spelled by appending
  their components to it, however slashes are repeated in the calls.
\<close>

theorem path_trie_refines_map:
  "trie_get (fold trie_step calls trie_new) = fold map_step calls (\<lambda>_. None)
   \<and> set (fst (remove_by_prefix p (fold trie_step calls trie_new)))
     = {((if split_path p = [] then [] else p) @ join_slash ds, inos) | ds inos. fold map_step calls (\<lambda>_. None) (split_path p @ ds) = Some inos}"
proof -
  let ?t = "fold trie_step calls trie_new"
  have g: "trie_ok ?t" "trie_get ?t = fold map_step calls (\<lambda>_. None)" using trie_run [of trie_new calls] trie_new_get by simp_all
  show ?thesis
  proof (intro conjI set_eqI)
    fix x
    show "x \<in> set (fst (remove_by_prefix p ?t))
      \<longleftrightarrow> x \<in> {((if split_path p = [] then [] else p) @ join_slash ds, inos) | ds inos. fold map_step calls (\<lambda>_. None) (split_path p @ ds) = Some inos}"
      using remove_by_prefix(3) [OF g(1) prod.collapse [symmetric], of "fst x" "snd x" p] unfolding g(2) by (cases x) auto
  qed (rule g(2))
qed

section \<open>Coherence of the path cache\<close>

definition canonical :: "string \<Rightarrow> bool" where
  "canonical p \<longleftrightarrow> p = join_slash (split_path p)"

text \<open>Cached paths are spelled canonically and stored in the trie; the paths of the reverse table are canonical too.\<close>

definition indexed :: "path_index \<Rightarrow> bool" where
  "indexed st \<longleftrightarrow> trie_ok (path_trie st) \<and> (\<forall>i ps. inode_to_paths st i = Some ps \<longrightarrow> list_all canonical ps)
     \<and> (\<forall>p i. path_cache st p = Some i \<longrightarrow> canonical p \<and> trie_get (path_trie st) (split_path p) \<noteq> None)"

lemma join_slash_append: "join_slash (xs @ ys) = join_slash xs @ join_slash ys"
  by (simp add: join_slash_def)

lemma indexed_new: "indexed path_index_new"
  by (simp add: indexed_def path_index_new_def)

lemma indexed_resolved:
  assumes "indexed st" and "canonical p"
  shows "indexed (cache_resolved p i st)"
  using assms trie_insert [of "path_trie st" p i] by (auto simp: indexed_def cache_resolved_def split: if_splits option.splits)

lemma indexed_evict:
  assumes "indexed st" and "\<And>p i. path_cache st' p = Some i \<Longrightarrow> path_cache st p = Some i" and "path_trie st' = path_trie st"
    and "inode_to_paths st' = inode_to_paths st"
  shows "indexed st'"
  using assms unfolding indexed_def by metis

lemma drop_reverse_canonical:
  assumes "\<forall>i ps. m i = Some ps \<longrightarrow> list_all canonical ps" and "fold (drop_reverse r) inos m i = Some ps"
  shows "list_all canonical ps"
  using assms
proof (induction inos arbitrary: m)
  case (Cons j inos)
  have "\<forall>i ps. drop_reverse r j m i = Some ps \<longrightarrow> list_all canonical ps"
    using Cons.prems(1) by (auto simp: drop_reverse_def list_all_iff Let_def split: option.splits if_splits)
  from Cons.IH [OF this] Cons.prems(2) show ?case by simp
qed simp

lemma fold_invalidate_removed:
  "path_trie (fold invalidate_removed rs st) = path_trie st"
  "path_cache (fold invalidate_removed rs st) = (\<lambda>p. if p \<in> fst ` set rs then None else path_cache st p)"
  by (induction rs arbitrary: st) (auto simp: invalidate_removed_def)

lemma fold_invalidate_reverse:
  assumes "\<forall>i ps. inode_to_paths st i = Some ps \<longrightarrow> list_all canonical ps"
  shows "\<forall>i ps. inode_to_paths (fold invalidate_removed rs st) i = Some ps \<longrightarrow> list_all canonical ps"
  using assms
proof (induction rs arbitrary: st)
  case (Cons r rs)
  have "inode_to_paths (invalidate_removed r st) = fold (drop_reverse (fst r)) (snd r) (inode_to_paths st)" by (simp add: invalidate_removed_def)
  then have "\<forall>i ps. inode_to_paths (invalidate_removed r st) i = Some ps \<longrightarrow> list_all canonical ps"
    using drop_reverse_canonical [OF Cons.prems] by simp
  from Cons.IH [OF this] show ?case by simp
qed simp

lemma invalidate_path_cache:
  assumes ix: "indexed st" and q: "canonical q"
  shows "indexed (invalidate_path q st)
    \<and> (\<forall>p i. path_cache (invalidate_path q st) p = Some i \<longrightarrow> path_cache st p = Some i \<and> \<not> prefix (split_path q) (split_path p))"
proof -
  obtain removed t' where r: "remove_by_prefix q (path_trie st) = (removed, t')" by (cases "remove_by_prefix q (path_trie st)")
  have t: "trie_ok (path_trie st)" using ix by (simp add: indexed_def)
  note R = remove_by_prefix [OF t r]
  let ?st = "fold invalidate_removed removed (st\<lparr>path_trie := t'\<rparr>)"
  note F = fold_invalidate_removed [of removed "st\<lparr>path_trie := t'\<rparr>"]
  have st: "invalidate_path q st = ?st" by (simp add: invalidate_path_def r)
  have "canonical p \<and> path_cache st p = Some i \<and> \<not> prefix (split_path q) (split_path p) \<and> trie_get t' (split_path p) \<noteq> None" if p: "path_cache ?st p = Some i" for p i
  proof -
    have old: "path_cache st p = Some i" and gone: "p \<notin> fst ` set removed" using p F by (auto split: if_splits)
    obtain inos where s: "canonical p" "trie_get (path_trie st) (split_path p) = Some inos" using ix old unfolding indexed_def by blast
    have "\<not> prefix (split_path q) (split_path p)"
    proof
      assume "prefix (split_path q) (split_path p)"
      then obtain ds where ds: "split_path p = split_path q @ ds" by (auto simp: prefix_def)
      have "p = join_slash (split_path q) @ join_slash ds" using s(1) by (simp add: canonical_def ds join_slash_append)
      then have "p = (if split_path q = [] then [] else q) @ join_slash ds" using q by (auto simp: canonical_def join_slash_def)
      then have "(p, inos) \<in> set removed" using R(3) [of p inos] s(2) ds by auto
      then show False using gone by force
    qed
    then show ?thesis using old s by (simp add: R(2))
  qed
  moreover have "\<forall>i ps. inode_to_paths ?st i = Some ps \<longrightarrow> list_all canonical ps" 
    using ix by (intro fold_invalidate_reverse) (simp add: indexed_def)
  ultimately show ?thesis using R(1) F unfolding st indexed_def by simp
qed

lemma fold_invalidate_path:
  assumes "indexed st" and "list_all canonical qs"
  shows "indexed (fold invalidate_path qs st)
    \<and> (\<forall>p i. path_cache (fold invalidate_path qs st) p = Some i \<longrightarrow> path_cache st p = Some i \<and> (\<forall>q\<in>set qs. \<not> prefix (split_path q) (split_path p)))"
  using assms
proof (induction qs arbitrary: st)
  case (Cons q qs)
  have q: "canonical q" and qs: "list_all canonical qs" using Cons.prems(2) by simp_all
  note Q = invalidate_path_cache [OF Cons.prems(1) q]
  note IH = Cons.IH [OF conjunct1 [OF Q] qs]
  have "path_cache st p = Some i \<and> (\<forall>x\<in>set (q # qs). \<not> prefix (split_path x) (split_path p))"
    if "path_cache (fold invalidate_path qs (invalidate_path q st)) p = Some i" for p i
  proof -
    note R = conjunct2 [OF IH, THEN spec, THEN spec, THEN mp, OF that]
    note conjunct2 [OF Q, THEN spec, THEN spec, THEN mp, OF conjunct1 [OF R]]
    then show ?thesis using R by simp
  qed
  then show ?case unfolding fold_Cons comp_apply using conjunct1 [OF IH] by blast
qed simp

text \<open>The reverse table either does not know the directory or knows it by its path.\<close>

definition listed :: "int \<Rightarrow> string list \<Rightarrow> path_index \<Rightarrow> bool" where
  "listed d P st \<longleftrightarrow> (case inode_to_paths st d of None \<Rightarrow> True | Some ps \<Rightarrow> \<exists>q\<in>set ps. split_path q = P)"

lemma invalidate_parent:
  assumes ix: "indexed st"
  shows "indexed (invalidate_parent_path r d st)"
    and "path_cache (invalidate_parent_path r d st) p = Some i \<Longrightarrow> path_cache st p = Some i \<and> (listed (check_root r d) P st \<longrightarrow> \<not> prefix P (split_path p))"
proof -
  let ?d = "check_root r d" and ?st = "invalidate_parent_path r d st"
  have "indexed ?st \<and> (path_cache ?st p = Some i \<longrightarrow> path_cache st p = Some i \<and> (listed ?d P st \<longrightarrow> \<not> prefix P (split_path p)))"
  proof (cases "inode_to_paths st ?d")
    case None
    then show ?thesis using ix by (simp add: invalidate_parent_path_def indexed_def)
  next
    case (Some qs)
    have c: "list_all canonical qs" using ix Some unfolding indexed_def by blast
    let ?s = "fold invalidate_path qs st"
    have st: "?st = ?s\<lparr>inode_to_paths := (inode_to_paths ?s)(?d := None)\<rparr>" using Some by (simp add: invalidate_parent_path_def Let_def)
    note F = fold_invalidate_path [OF ix c]
    have "indexed ?st" using conjunct1 [OF F] unfolding st indexed_def by simp
    moreover have "path_cache st p = Some i \<and> (listed ?d P st \<longrightarrow> \<not> prefix P (split_path p))" if "path_cache ?st p = Some i"
    proof -
      have "path_cache ?s p = Some i" using that unfolding st by simp
      from conjunct2 [OF F, THEN spec, THEN spec, THEN mp, OF this] show ?thesis using Some by (auto simp: listed_def)
    qed
    ultimately show ?thesis by blast
  qed
  then show "indexed ?st" "path_cache ?st p = Some i \<Longrightarrow> path_cache st p = Some i \<and> (listed ?d P st \<longrightarrow> \<not> prefix P (split_path p))" by blast+
qed

lemma invalidate_parents:
  assumes "indexed st"
  shows "indexed (fold (invalidate_parent_path r) ds st)"
    and "path_cache (fold (invalidate_parent_path r) ds st) p = Some i \<Longrightarrow> path_cache st p = Some i"
proof -
  have "indexed (fold (invalidate_parent_path r) ds st) \<and> (path_cache (fold (invalidate_parent_path r) ds st) p = Some i \<longrightarrow> path_cache st p = Some i)"
    using assms
  proof (induction ds arbitrary: st)
    case (Cons d ds)
    note I = invalidate_parent [OF Cons.prems, of r d]
    show ?case using Cons.IH [OF I(1)] I(2) [of p i] by auto
  qed simp
  then show "indexed (fold (invalidate_parent_path r) ds st)"
    "path_cache (fold (invalidate_parent_path r) ds st) p = Some i \<Longrightarrow> path_cache st p = Some i" by blast+
qed

section \<open>The cache beside the store\<close>

lemma lookup_parts_emap:
  "lookup_parts db cur (n # ns) = (case emap db (cur, n) of None \<Rightarrow> None | Some (i, t) \<Rightarrow>
     if file_type_of_entry t = FtDir then lookup_parts db i ns else if ns = [] then Some (i, file_type_of_entry t) else None)"
  unfolding find_entry_emap [symmetric] by (cases "find_entry db cur n") auto

text \<open>A path that does not pass through a changed directory resolves as before.\<close>

lemma unchanged_walk:
  assumes "\<And>k v. emap db k = Some v \<Longrightarrow> fst k \<notin> D \<Longrightarrow> emap db' k = Some v" and "lookup_parts db cur cs = Some r"
    and "\<And>j d. lookup_parts db cur (take j cs) = Some (d, FtDir) \<Longrightarrow> d \<notin> D"
  shows "lookup_parts db' cur cs = Some r"
  using assms(2,3)
proof (induction cs arbitrary: cur)
  case (Cons c cs)
  have "cur \<notin> D" using Cons.prems(2) [of 0] by simp
  then have e: "emap db' (cur, c) = emap db (cur, c)" using assms(1) Cons.prems(1) by (cases "emap db (cur, c)") (auto simp: lookup_parts_emap simp del: lookup_parts.simps(2))
  have "lookup_parts db' i cs = lookup_parts db i cs" if i: "emap db (cur, c) = Some (i, t)" "file_type_of_entry t = FtDir" for i t
  proof -
    have r: "lookup_parts db i cs = Some r" using Cons.prems(1) i by (simp add: lookup_parts_emap del: lookup_parts.simps(2))
    have "lookup_parts db' i cs = Some r"
    proof (rule Cons.IH [OF r])
      fix j d assume "lookup_parts db i (take j cs) = Some (d, FtDir)"
      then show "d \<notin> D" using Cons.prems(2) [of "Suc j" d] i by (simp add: lookup_parts_emap del: lookup_parts.simps(2))
    qed
    then show ?thesis using r by simp
  qed
  then show ?case using Cons.prems(1) unfolding lookup_parts_emap e by (auto split: option.splits)
qed simp

lemma split_path_trailing: "split_path (p @ replicate n (CHR ''/'')) = split_path p"
proof (induction n)
  case (Suc n)
  have "split_path (p @ replicate (Suc n) (CHR ''/'')) = split_path ((p @ replicate n (CHR ''/'')) @ CHR ''/'' # [])" by (simp add: replicate_append_same)
  also have "\<dots> = split_path p" using Suc unfolding split_path_alt split_slash_cut by simp
  finally show ?case .
qed simp

lemma split_path_trim: "filter (\<lambda>c. c \<noteq> []) (split_slash (trim_slashes p)) = split_path p"
proof -
  let ?s = "\<lambda>c. c = CHR ''/''" and ?d = "dropWhile (\<lambda>c. c = CHR ''/'') p"
  have "takeWhile ?s (rev ?d) = replicate (length (takeWhile ?s (rev ?d))) (CHR ''/'')" by (rule replicate_eqI) (auto dest: set_takeWhileD)
  then obtain n where n: "takeWhile ?s (rev ?d) = replicate n (CHR ''/'')" by (rule that)
  have "rev (rev ?d) = rev (replicate n (CHR ''/'') @ dropWhile ?s (rev ?d))" unfolding n [symmetric] takeWhile_dropWhile_id ..
  then have d: "?d = trim_slashes p @ replicate n (CHR ''/'')" unfolding trim_slashes_def rev_append rev_replicate rev_rev_ident .
  have "split_path p = filter (\<lambda>c. c \<noteq> []) (split_slash ?d)" by (simp add: split_path_def)
  also have "\<dots> = split_path (trim_slashes p @ replicate n (CHR ''/''))" by (simp only: d split_path_alt)
  finally show ?thesis by (simp add: split_path_trailing) (simp add: split_path_alt)
qed

section \<open>Where the cache goes stale\<close>

lemmas cache_eval = cache_resolved_def path_index_new_def invalidate_parent_path_def invalidate_path_def invalidate_removed_def drop_reverse_def
  check_root_def trie_insert_def trie_new_def remove_by_prefix_def split_path_def

definition moved_db :: meta_db where
  "moved_db = snd (rename_with_mode (\<lambda>path t. Some []) 5 1 ''d'' 1 ''e'' False demo_create)"

lemma moved_db_rows: "content_rows moved_db = [\<lparr>ct_parent = 2, ct_name = ''f'', ct_inode = 3, ct_type = EtFile\<rparr>,
    \<lparr>ct_parent = 1, ct_name = ''e'', ct_inode = 2, ct_type = EtDirectory\<rparr>]" "file_rows moved_db = [demo_file]"
  by (simp_all add: moved_db_def rename_eval ns_eval demo_defs)

lemma moved_reachable: "ns_reachable (\<lambda>path t. Some []) moved_db"
  unfolding moved_db_def by (rule ns_next [OF demo_reachable(3) ns_rename])

lemma moved_unlinked: "lookup_path (snd (unlink (\<lambda>path t. Some []) 6 2 ''f'' moved_db)) ''/e/f'' = None"
proof -
  note inv = reachable_ns_inv [OF moved_reachable]
  have e: "find_entry moved_db 2 ''f'' = Some \<lparr>ct_parent = 2, ct_name = ''f'', ct_inode = 3, ct_type = EtFile\<rparr>" by (simp add: find_entry_def moved_db_rows)
  have f: "fmap moved_db 3 = Some demo_file" "fi_nlink demo_file = 1" by (simp_all add: fmap_def moved_db_rows demo_file_def new_file_row_def)
  from inv e obtain db2 where u: "unlink (\<lambda>path t. Some []) 6 2 ''f'' moved_db = (Inr (), db2)" by (rule unlink_last) (use f in auto)
  from inv u have "emap db2 = (emap moved_db)((2, ''f'') := None)" by (rule unlink_effect)
  then have "emap db2 (1, ''e'') = Some (2, EtDirectory)" "emap db2 (2, ''f'') = None" by (simp_all add: emap_def ct_key_def moved_db_rows)
  then show ?thesis by (simp add: u lookup_path_def trim_slashes_def lookup_parts_emap del: lookup_parts.simps(2))
qed

text \<open>
  The reverse table can know a directory by an old path only, and then the cache goes stale. After \<open>/d\<close> was
  resolved and renamed to \<open>/e\<close>, the invalidation of the root clears the cache and leaves the table; once
  \<open>/e/f\<close> is cached, removing it invalidates \<open>/d\<close> only, and the cache still answers with the removed inode.
\<close>

theorem stale_after_rename:
  "let st1 = invalidate_parent_path 1 1 (cache_resolved ''/d'' 2 path_index_new);
       st2 = invalidate_parent_path 1 2 (cache_resolved ''/e/f'' 3 st1);
       db2 = snd (unlink (\<lambda>path t. Some []) 6 2 ''f'' moved_db)
   in lookup_path demo_create ''/d'' = Some (2, FtDir) \<and> lookup_path moved_db ''/e/f'' = Some (3, FtFile)
      \<and> lookup_path db2 ''/e/f'' = None \<and> path_cache st2 ''/e/f'' = Some 3"
proof -
  have "lookup_path demo_create ''/d'' = Some (2, FtDir)" by (simp add: lookup_path_def trim_slashes_def find_entry_def demo_defs)
  moreover have "lookup_path moved_db ''/e/f'' = Some (3, FtFile)"
    by (simp add: lookup_path_def trim_slashes_def find_entry_def moved_db_rows)
  moreover have "lookup_path (snd (unlink (\<lambda>path t. Some []) 6 2 ''f'' moved_db)) ''/e/f'' = None" by (rule moved_unlinked)
  moreover have "path_cache (invalidate_parent_path 1 2 (cache_resolved ''/e/f'' 3 (invalidate_parent_path 1 1 (cache_resolved ''/d'' 2 path_index_new)))) ''/e/f'' = Some 3"
    by (simp add: cache_eval)
  ultimately show ?thesis by (simp add: Let_def)
qed

end
