(* ===== verification/OrderedMaps.thy ===== *)
theory OrderedMaps
  imports Main
begin

text \<open>
  \<^verbatim>\<open>std::collections::BTreeMap\<close> as the list of its pairs in ascending key order, which is what
  iterating over it gives.
\<close>

fun bt_insert :: "'k :: linorder \<Rightarrow> 'v \<Rightarrow> ('k \<times> 'v) list \<Rightarrow> ('k \<times> 'v) list" where
  "bt_insert k v [] = [(k, v)]"
| "bt_insert k v ((l, w) # m) = (if k < l then (k, v) # (l, w) # m else if k = l then (k, v) # m else (l, w) # bt_insert k v m)"

definition bt_get :: "('k \<times> 'v) list \<Rightarrow> 'k \<Rightarrow> 'v option" where
  "bt_get m k = map_of m k"

definition bt_ok :: "('k :: linorder \<times> 'v) list \<Rightarrow> bool" where
  "bt_ok m \<longleftrightarrow> sorted_wrt (<) (map fst m)"

lemma bt_ok_Nil [simp]: "bt_ok []"
  by (simp add: bt_ok_def)

lemma keys_bt_insert [simp]: "fst ` set (bt_insert k v m) = insert k (fst ` set m)"
  by (induction k v m rule: bt_insert.induct) (simp_all add: insert_commute)

lemma bt_ok_insert [simp]: "bt_ok m \<Longrightarrow> bt_ok (bt_insert k v m)"
proof (induction m)
  case (Cons p m)
  obtain l w where p: "p = (l, w)" by (cases p)
  have "x < l \<or> x \<in> fst ` set m \<and> l < x \<or> x = l" if "x \<in> insert l (fst ` set m)" for x using Cons.prems that by (auto simp: p bt_ok_def)
  then show ?case using Cons keys_bt_insert [of k v m] by (auto simp: p bt_ok_def)
qed (simp add: bt_ok_def)

lemma bt_get_insert [simp]: "bt_get (bt_insert k v m) = (bt_get m)(k \<mapsto> v)"
  by (induction m) (auto simp: bt_get_def fun_upd_def)

lemma bt_get_iff: "bt_ok m \<Longrightarrow> (k, v) \<in> set m \<longleftrightarrow> bt_get m k = Some v"
  by (simp add: bt_get_def bt_ok_def map_of_eq_Some_iff strict_sorted_iff)

lemma bt_get_None: "bt_get m k = None \<longleftrightarrow> k \<notin> fst ` set m"
  by (simp add: bt_get_def map_of_eq_None_iff)

lemma bt_eqI:
  assumes "bt_ok m" and "bt_ok n" and "bt_get m = bt_get n"
  shows "m = n"
proof -
  have "set m = set n" using bt_get_iff [OF assms(1)] bt_get_iff [OF assms(2)] assms(3) by auto
  moreover have "distinct (map fst m)" "distinct (map fst n)" "sorted (map fst m)" "sorted (map fst n)" using assms(1,2) by (simp_all add: bt_ok_def strict_sorted_iff)
  ultimately show ?thesis by (intro map_sorted_distinct_set_unique [of fst]) (simp_all add: distinct_map)
qed

end
