(* ===== verification/InodeCache.thy ===== *)
theory InodeCache
  imports NamespacePaths OrderedMaps
begin

text \<open>
  The inode cache of the metadata client (\<^verbatim>\<open>src/src/meta/client/cache.rs\<close>): attributes, parent and children of
  inodes. The state is what \<^verbatim>\<open>ttl_manager\<close> holds, the table every call reads; its evictions are steps of
  their own. A node is shared by reference in the code and here reached through its inode. Cached slices
  and the cache of open files are not modelled. Each call is one step.
\<close>

section \<open>The calls\<close>

datatype children_state = NotLoaded | Partial "(string \<times> int) list" | Complete "(string \<times> int) list"

record inode_entry =
  ne_attr :: file_attr
  ne_parent :: "int option"
  ne_children :: children_state
  ne_generation :: u64

type_synonym inode_cache = "int \<Rightarrow> inode_entry option"

definition inode_entry_new :: "file_attr \<Rightarrow> int option \<Rightarrow> inode_entry" where
  "inode_entry_new attr parent = \<lparr>ne_attr = attr, ne_parent = parent, ne_children = NotLoaded, ne_generation = 0\<rparr>"

definition insert_node :: "int \<Rightarrow> file_attr \<Rightarrow> int option \<Rightarrow> inode_cache \<Rightarrow> inode_cache" where
  "insert_node ino attr parent ic =
     (case ic ino of
        Some node \<Rightarrow> ic(ino \<mapsto> node\<lparr>ne_attr := attr, ne_parent := parent\<rparr>)
      | None \<Rightarrow> ic(ino \<mapsto> inode_entry_new attr parent))"

definition mark_children_complete_empty :: "int \<Rightarrow> inode_cache \<Rightarrow> inode_cache" where
  "mark_children_complete_empty ino ic =
     (case ic ino of
        Some node \<Rightarrow> if ne_children node = NotLoaded then ic(ino \<mapsto> node\<lparr>ne_children := Complete []\<rparr>) else ic
      | None \<Rightarrow> ic)"

definition refresh_cached_node_for_fresh_stat :: "int \<Rightarrow> file_attr \<Rightarrow> inode_cache \<Rightarrow> bool \<times> inode_cache" where
  "refresh_cached_node_for_fresh_stat ino attr ic =
     (case ic ino of
        None \<Rightarrow> (False, ic)
      | Some node \<Rightarrow> (True, ic(ino \<mapsto> node\<lparr>ne_attr := attr, ne_parent := None, ne_children := NotLoaded,
                              ne_generation := ne_generation node + 1\<rparr>)))"

definition invalidate_inode :: "int \<Rightarrow> inode_cache \<Rightarrow> inode_cache" where
  "invalidate_inode ino ic = ic(ino := None)"

definition ensure_node_in_cache :: "meta_db \<Rightarrow> int \<Rightarrow> int option \<Rightarrow> inode_cache \<Rightarrow> bool \<times> inode_cache" where
  "ensure_node_in_cache db ino parent ic =
     (if ic ino \<noteq> None then (True, ic)
      else case stat db ino of Some attr \<Rightarrow> (True, insert_node ino attr parent ic) | None \<Rightarrow> (False, ic))"

definition add_child :: "int \<Rightarrow> string \<Rightarrow> int \<Rightarrow> inode_cache \<Rightarrow> inode_cache" where
  "add_child parent_ino name child_ino ic =
     (case ic parent_ino of
        None \<Rightarrow> ic
      | Some node \<Rightarrow>
          let children = (case ne_children node of
                            NotLoaded \<Rightarrow> Partial [(name, child_ino)]
                          | Partial m \<Rightarrow> Partial (bt_insert name child_ino m)
                          | Complete m \<Rightarrow> Complete (bt_insert name child_ino m))
          in ic(parent_ino \<mapsto> node\<lparr>ne_children := children, ne_generation := ne_generation node + 1\<rparr>))"

definition load_children_if_fresh :: "int \<Rightarrow> (string \<times> int) list \<Rightarrow> u64 \<Rightarrow> inode_cache \<Rightarrow> bool \<times> inode_cache" where
  "load_children_if_fresh parent_ino entries expected_generation ic =
     (case ic parent_ino of
        None \<Rightarrow> (False, ic)
      | Some node \<Rightarrow>
          if ne_generation node \<noteq> expected_generation then (False, ic)
          else (True, ic(parent_ino \<mapsto> node\<lparr>ne_children := Complete (fold (\<lambda>(n, i). bt_insert n i) entries [])\<rparr>)))"

text \<open>Removing a loaded child; nothing happens when the name is not loaded.\<close>

definition remove_child_but_keep_inode :: "int \<Rightarrow> string \<Rightarrow> inode_cache \<Rightarrow> int option \<times> inode_cache" where
  "remove_child_but_keep_inode parent_ino name ic =
     (case ic parent_ino of
        None \<Rightarrow> (None, ic)
      | Some node \<Rightarrow>
          let drop_from = (\<lambda>con m. case bt_get m name of
                 None \<Rightarrow> (None, ic)
               | Some child_ino \<Rightarrow> (Some child_ino, ic(parent_ino \<mapsto> node\<lparr>ne_children := con (filter (\<lambda>(n, i). n \<noteq> name) m),
                                      ne_generation := ne_generation node + 1\<rparr>)))
          in case ne_children node of NotLoaded \<Rightarrow> (None, ic) | Partial m \<Rightarrow> drop_from Partial m | Complete m \<Rightarrow> drop_from Complete m)"

definition remove_child :: "int \<Rightarrow> string \<Rightarrow> inode_cache \<Rightarrow> int option \<times> inode_cache" where
  "remove_child parent_ino name ic =
     (case remove_child_but_keep_inode parent_ino name ic of
        (None, ic) \<Rightarrow> (None, ic)
      | (Some child_ino, ic) \<Rightarrow> (Some child_ino, invalidate_inode child_ino ic))"

definition lookup_if_loaded :: "int \<Rightarrow> string \<Rightarrow> inode_cache \<Rightarrow> int option option" where
  "lookup_if_loaded parent_ino name ic =
     (case ic parent_ino of
        None \<Rightarrow> None
      | Some node \<Rightarrow> (case ne_children node of
                        NotLoaded \<Rightarrow> None
                      | Partial m \<Rightarrow> map_option Some (bt_get m name)
                      | Complete m \<Rightarrow> Some (bt_get m name)))"

definition ic_readdir :: "int \<Rightarrow> inode_cache \<Rightarrow> dir_entry list option" where
  "ic_readdir ino ic =
     (case ic ino of
        Some node \<Rightarrow> (case ne_children node of
            Complete m \<Rightarrow> those (map (\<lambda>(n, i). map_option (\<lambda>c. \<lparr>de_name = n, de_ino = i, de_kind = at_kind (ne_attr c)\<rparr>) (ic i)) m)
          | _ \<Rightarrow> None)
      | None \<Rightarrow> None)"

definition get_attr :: "int \<Rightarrow> inode_cache \<Rightarrow> file_attr option" where
  "get_attr ino ic = map_option ne_attr (ic ino)"

definition refresh_attr :: "int \<Rightarrow> file_attr \<Rightarrow> inode_cache \<Rightarrow> bool \<times> inode_cache" where
  "refresh_attr ino attr ic =
     (case ic ino of None \<Rightarrow> (False, ic) | Some node \<Rightarrow> (True, ic(ino \<mapsto> node\<lparr>ne_attr := attr\<rparr>)))"

section \<open>Agreement with the store\<close>

text \<open>
  \<open>names\<close> are the entries of the store. A loaded child is an entry; a complete list holds all entries of its directory.
\<close>

definition children_agree :: "(string \<Rightarrow> int option) \<Rightarrow> children_state \<Rightarrow> bool" where
  "children_agree es c = (case c of
     NotLoaded \<Rightarrow> True
   | Partial m \<Rightarrow> (\<forall>n i. bt_get m n = Some i \<longrightarrow> es n = Some i)
   | Complete m \<Rightarrow> bt_get m = es)"

definition cache_agrees :: "(int \<Rightarrow> string \<Rightarrow> int option) \<Rightarrow> inode_cache \<Rightarrow> bool" where
  "cache_agrees names ic \<longleftrightarrow> (\<forall>d node. ic d = Some node \<longrightarrow> children_agree (names d) (ne_children node))"

lemma agreesD: "cache_agrees names ic \<Longrightarrow> ic d = Some node \<Longrightarrow> children_agree (names d) (ne_children node)"
  by (simp add: cache_agrees_def)

lemma agrees_empty [simp]: "cache_agrees names (\<lambda>_. None)"
  by (simp add: cache_agrees_def)

lemma agrees_upd: "cache_agrees names ic \<Longrightarrow> children_agree (names d) (ne_children node) \<Longrightarrow> cache_agrees names (ic(d \<mapsto> node))"
  by (simp add: cache_agrees_def)

lemma children_agree_simps [simp]:
  "children_agree es NotLoaded" "children_agree es (Complete m) \<longleftrightarrow> bt_get m = es"
  "children_agree es (Partial m) \<longleftrightarrow> (\<forall>n i. bt_get m n = Some i \<longrightarrow> es n = Some i)"
  by (simp_all add: children_agree_def)

named_theorems agree "calls of the inode cache keep the agreement"

lemma agrees_insert_node [agree]: "cache_agrees names ic \<Longrightarrow> cache_agrees names (insert_node ino attr parent ic)"
  by (auto simp: insert_node_def inode_entry_new_def intro!: agrees_upd dest: agreesD split: option.split)

lemma agrees_invalidate [agree]: "cache_agrees names ic \<Longrightarrow> cache_agrees names (invalidate_inode ino ic)"
  by (simp add: cache_agrees_def invalidate_inode_def)

lemma agrees_ensure [agree]: "cache_agrees names ic \<Longrightarrow> cache_agrees names (snd (ensure_node_in_cache db ino parent ic))"
  by (simp add: ensure_node_in_cache_def agree split: option.split)

lemma agrees_refresh [agree]: "cache_agrees names ic \<Longrightarrow> cache_agrees names (snd (refresh_attr ino attr ic))"
  by (auto simp: refresh_attr_def intro!: agrees_upd dest: agreesD split: option.split)

lemma agrees_fresh_stat [agree]: "cache_agrees names ic \<Longrightarrow> cache_agrees names (snd (refresh_cached_node_for_fresh_stat ino attr ic))"
  by (auto simp: refresh_cached_node_for_fresh_stat_def intro!: agrees_upd split: option.split)

lemma bt_get_Nil [simp]: "bt_get [] = Map.empty"
  by (simp add: bt_get_def fun_eq_iff)

lemma agrees_complete_empty: "cache_agrees names ic \<Longrightarrow> names ino = (\<lambda>_. None) \<Longrightarrow> cache_agrees names (mark_children_complete_empty ino ic)"
  by (auto simp: mark_children_complete_empty_def intro!: agrees_upd split: option.split)

lemma agrees_add:
  assumes "cache_agrees names ic"
  shows "cache_agrees (names(p := (names p)(n \<mapsto> i))) (add_child p n i ic)"
proof (cases "ic p")
  case None
  then show ?thesis using assms by (auto simp: cache_agrees_def add_child_def)
next
  case (Some node)
  have "children_agree ((names p)(n \<mapsto> i)) (case ne_children node of NotLoaded \<Rightarrow> Partial [(n, i)]
      | Partial m \<Rightarrow> Partial (bt_insert n i m) | Complete m \<Rightarrow> Complete (bt_insert n i m))"
    using agreesD [OF assms Some] by (cases "ne_children node") (auto simp: bt_get_def [of "[(n, i)]"] split: if_splits)
  then show ?thesis using assms Some by (auto simp: cache_agrees_def add_child_def)
qed

lemma bt_get_filter: "bt_get (filter (\<lambda>(k, v). k \<noteq> n) m) = (bt_get m)(n := None)"
  by (induction m) (auto simp: bt_get_def fun_eq_iff)

lemma agrees_remove_keep:
  assumes "cache_agrees names ic"
  shows "cache_agrees (names(p := (names p)(n := None))) (snd (remove_child_but_keep_inode p n ic))"
proof (cases "ic p")
  case None
  then show ?thesis using assms by (auto simp: cache_agrees_def remove_child_but_keep_inode_def)
next
  case (Some node)
  have stay: "cache_agrees (names(p := (names p)(n := None))) ic" if "children_agree ((names p)(n := None)) (ne_children node)"
    using assms Some that by (auto simp: cache_agrees_def)
  have drop: "cache_agrees (names(p := (names p)(n := None))) (ic(p \<mapsto> node\<lparr>ne_children := c, ne_generation := g\<rparr>))"
    if "children_agree ((names p)(n := None)) c" for c g
    using assms that by (auto simp: cache_agrees_def)
  show ?thesis
    using agreesD [OF assms Some] Some
    by (cases "ne_children node")
      (auto simp: remove_child_but_keep_inode_def bt_get_filter fun_eq_iff intro!: stay drop split: option.split if_splits)
qed

lemma agrees_remove:
  assumes "cache_agrees names ic"
  shows "cache_agrees (names(p := (names p)(n := None))) (snd (remove_child p n ic))"
  using agrees_remove_keep [OF assms, of p n]
  by (auto simp: remove_child_def split: prod.split option.split intro: agrees_invalidate)

lemma bt_get_fold:
  "distinct (map fst es) \<Longrightarrow> bt_get (fold (\<lambda>(n, i). bt_insert n i) es m) = (bt_get m) ++ map_of es"
proof (induction es arbitrary: m)
  case (Cons e es)
  obtain a b where e: "e = (a, b)" by (cases e)
  have "a \<notin> dom (map_of es)" using Cons.prems by (simp add: e dom_map_of_conv_image_fst)
  then show ?case using Cons.IH [of "bt_insert a b m"] Cons.prems by (simp add: e map_add_upd_left) (auto simp: map_add_def fun_eq_iff split: option.split dest: map_of_SomeD)
qed simp

lemma agrees_load:
  assumes "cache_agrees names ic" and "distinct (map fst es)" and "map_of es = names p"
  shows "cache_agrees names (snd (load_children_if_fresh p es g ic))"
  using assms by (auto simp: load_children_if_fresh_def bt_get_fold intro!: agrees_upd split: option.split)

lemma lookup_if_loaded_agrees: "cache_agrees names ic \<Longrightarrow> lookup_if_loaded p n ic = Some r \<Longrightarrow> names p n = r"
  by (auto simp: lookup_if_loaded_def children_agree_def dest!: agreesD split: option.splits children_state.splits)

end
