(* ===== verification/ClientNames.thy ===== *)
theory ClientNames
  imports PathCache InodeCache
begin

text \<open>
  Names in the metadata client (\<^verbatim>\<open>src/src/meta/client/mod.rs\<close>): cached lookups, the namespace calls with their
  cache updates, listing, and path resolution with symbolic links, over the inode cache, the path cache and the
  store. A call is one step of one client that is alone on its store; the cache of open files, prefetching, metrics
  and failing database calls are left out. The clocks of the store and of the client are arguments.
\<close>

section \<open>Options and checks\<close>

record client_options =
  co_root :: int
  co_read_only :: bool
  co_case_insensitive :: bool
  co_max_symlinks :: nat

record meta_client =
  cl_inodes :: inode_cache
  cl_paths :: path_index

definition client_new :: meta_client where
  "client_new = \<lparr>cl_inodes = (\<lambda>_. None), cl_paths = path_index_new\<rparr>"

definition validate_entry_name :: "string \<Rightarrow> meta_error + unit" where
  "validate_entry_name name =
     (if name = [] then Inl InvalidFilename
      else if 255 < length name then Inl FilenameTooLong
      else if CHR ''/'' \<in> set name \<or> CHR 0x00 \<in> set name then Inl InvalidFilename
      else Inr ())"

definition validate_symlink_target :: "string \<Rightarrow> meta_error + unit" where
  "validate_symlink_target target = (if CHR 0x00 \<in> set target then Inl InvalidFilename else Inr ())"

definition ensure_writable :: "client_options \<Rightarrow> meta_error + unit" where
  "ensure_writable opts = (if co_read_only opts then Inl (NotSupported ''metadata client configured read-only'') else Inr ())"

section \<open>Cached lookups\<close>

definition cached_stat :: "client_options \<Rightarrow> meta_db \<Rightarrow> int \<Rightarrow> inode_cache \<Rightarrow> file_attr option \<times> inode_cache" where
  "cached_stat opts db ino ic =
     (let inode = check_root (co_root opts) ino
      in case get_attr inode ic of
           Some attr \<Rightarrow> (Some attr, ic)
         | None \<Rightarrow> (case stat db inode of Some a \<Rightarrow> (Some a, insert_node inode a None ic) | None \<Rightarrow> (None, ic)))"

definition lookup_with_attr :: "meta_db \<Rightarrow> int \<Rightarrow> string \<Rightarrow> meta_error + (int \<times> file_attr) option" where
  "lookup_with_attr db parent name =
     (case lookup db parent name of
        None \<Rightarrow> Inr None
      | Some ino \<Rightarrow> rbind (ok_or (NotFound ino) (stat db ino)) (\<lambda>attr. Inr (Some (ino, attr))))"

definition dir_parent :: "file_attr \<Rightarrow> int \<Rightarrow> int option" where
  "dir_parent attr parent = (if at_kind attr = FtDir then Some parent else None)"

definition cache_lookup_attr :: "int \<Rightarrow> string \<Rightarrow> int \<Rightarrow> file_attr \<Rightarrow> inode_cache \<Rightarrow> inode_cache" where
  "cache_lookup_attr parent name ino attr ic = add_child parent name ino (insert_node ino attr (dir_parent attr parent) ic)"

definition ascii_lower :: "char \<Rightarrow> char" where
  "ascii_lower c = (let k = of_char c :: nat in if 65 \<le> k \<and> k \<le> 90 then char_of (k + 32) else c)"

definition eq_ignore_ascii_case :: "string \<Rightarrow> string \<Rightarrow> bool" where
  "eq_ignore_ascii_case a b \<longleftrightarrow> map ascii_lower a = map ascii_lower b"

definition resolve_case :: "meta_db \<Rightarrow> int \<Rightarrow> string \<Rightarrow> inode_cache \<Rightarrow> (meta_error + int option) \<times> inode_cache" where
  "resolve_case db parent name ic =
     (case readdir db parent of
        Inl e \<Rightarrow> (Inl e, ic)
      | Inr entries \<Rightarrow> (case find (\<lambda>e. eq_ignore_ascii_case (de_name e) name) entries of
            None \<Rightarrow> (Inr None, ic)
          | Some e \<Rightarrow>
              let ic = (case stat db (de_ino e) of Some attr \<Rightarrow> insert_node (de_ino e) attr (dir_parent attr parent) ic | None \<Rightarrow> ic)
              in (Inr (Some (de_ino e)), add_child parent (de_name e) (de_ino e) ic)))"

definition cached_lookup :: "client_options \<Rightarrow> meta_db \<Rightarrow> int \<Rightarrow> string \<Rightarrow> inode_cache \<Rightarrow> (meta_error + int option) \<times> inode_cache" where
  "cached_lookup opts db parent name ic =
     (case validate_entry_name name of
        Inl e \<Rightarrow> (Inl e, ic)
      | Inr _ \<Rightarrow>
          let parent = check_root (co_root opts) parent;
              miss = (case lookup_with_attr db parent name of
                        Inl e \<Rightarrow> (Inl e, ic)
                      | Inr (Some (ino, attr)) \<Rightarrow> (Inr (Some ino), cache_lookup_attr parent name ino attr ic)
                      | Inr None \<Rightarrow> if co_case_insensitive opts then resolve_case db parent name ic else (Inr None, ic))
          in case lookup_if_loaded parent name ic of
               Some (Some ino) \<Rightarrow> (Inr (Some ino), ic)
             | Some None \<Rightarrow> if \<not> co_case_insensitive opts then (Inr None, ic) else miss
             | None \<Rightarrow> miss)"

definition cached_lookup_required :: "client_options \<Rightarrow> meta_db \<Rightarrow> int \<Rightarrow> string \<Rightarrow> inode_cache \<Rightarrow> (meta_error + int) \<times> inode_cache" where
  "cached_lookup_required opts db parent name ic =
     (let parent = check_root (co_root opts) parent; (r, ic) = cached_lookup opts db parent name ic
      in (rbind r (ok_or (NotFound parent)), ic))"

definition ensure_directory_exists :: "client_options \<Rightarrow> meta_db \<Rightarrow> int \<Rightarrow> inode_cache \<Rightarrow> (meta_error + unit) \<times> inode_cache" where
  "ensure_directory_exists opts db ino ic =
     (let ino = check_root (co_root opts) ino; (attr, ic) = cached_stat opts db ino ic
      in (rbind (ok_or (NotFound ino) attr) (\<lambda>a. if at_kind a \<noteq> FtDir then Inl (NotDirectory ino) else Inr ()), ic))"

section \<open>After a change of names\<close>

definition refresh_cached_attr_after_namespace_mutation :: "meta_db \<Rightarrow> int \<Rightarrow> inode_cache \<Rightarrow> inode_cache" where
  "refresh_cached_attr_after_namespace_mutation db ino ic =
     (if ic ino = None then ic
      else case stat db ino of Some attr \<Rightarrow> snd (refresh_attr ino attr ic) | None \<Rightarrow> invalidate_inode ino ic)"

definition invalidate_parent_after_namespace_mutation :: "client_options \<Rightarrow> meta_db \<Rightarrow> int \<Rightarrow> meta_client \<Rightarrow> meta_client" where
  "invalidate_parent_after_namespace_mutation opts db parent_ino cl =
     (let parent_ino = check_root (co_root opts) parent_ino
      in cl\<lparr>cl_inodes := refresh_cached_attr_after_namespace_mutation db parent_ino (cl_inodes cl),
           cl_paths := invalidate_parent_path (co_root opts) parent_ino (cl_paths cl)\<rparr>)"

definition adjust_attr :: "int \<Rightarrow> int \<Rightarrow> file_attr \<Rightarrow> file_attr" where
  "adjust_attr now nlink_delta attr =
     (let attr = (if 0 < nlink_delta then attr\<lparr>at_nlink := min (u32_limit - 1) (at_nlink attr + nat nlink_delta)\<rparr>
                  else if nlink_delta < 0 then attr\<lparr>at_nlink := at_nlink attr - nat (- nlink_delta)\<rparr> else attr)
      in attr\<lparr>at_mtime := now, at_ctime := now\<rparr>)"

definition update_node :: "int \<Rightarrow> (inode_entry \<Rightarrow> inode_entry) \<Rightarrow> inode_cache \<Rightarrow> inode_cache" where
  "update_node ino f ic = (case ic ino of Some node \<Rightarrow> ic(ino \<mapsto> f node) | None \<Rightarrow> ic)"

definition adjust_cached_parent_after_namespace_mutation :: "client_options \<Rightarrow> int \<Rightarrow> int \<Rightarrow> int \<Rightarrow> meta_client \<Rightarrow> meta_client" where
  "adjust_cached_parent_after_namespace_mutation opts now parent_ino nlink_delta cl =
     (let parent_ino = check_root (co_root opts) parent_ino
      in cl\<lparr>cl_inodes := update_node parent_ino (\<lambda>node. node\<lparr>ne_attr := adjust_attr now nlink_delta (ne_attr node)\<rparr>) (cl_inodes cl),
           cl_paths := invalidate_parent_path (co_root opts) parent_ino (cl_paths cl)\<rparr>)"

section \<open>The namespace calls\<close>

definition client_mkdir ::
  "client_options \<Rightarrow> int \<Rightarrow> int \<Rightarrow> int \<Rightarrow> string \<Rightarrow> meta_db \<Rightarrow> meta_client \<Rightarrow> (meta_error + int) \<times> meta_db \<times> meta_client" where
  "client_mkdir opts now t parent name db cl =
     (case rbind (ensure_writable opts) (\<lambda>_. validate_entry_name name) of
        Inl e \<Rightarrow> (Inl e, db, cl)
      | Inr _ \<Rightarrow>
          let parent = check_root (co_root opts) parent
          in case mkdir now parent name db of
               (Inl e, db) \<Rightarrow> (Inl e, db, cl)
             | (Inr ino, db) \<Rightarrow>
                 let ic = (case stat db ino of
                             Some attr \<Rightarrow> mark_children_complete_empty ino (insert_node ino attr (Some parent) (cl_inodes cl))
                           | None \<Rightarrow> cl_inodes cl);
                     ic = add_child parent name ino ic
                 in (Inr ino, db, adjust_cached_parent_after_namespace_mutation opts t parent 1 (cl\<lparr>cl_inodes := ic\<rparr>)))"

definition client_rmdir ::
  "client_options \<Rightarrow> int \<Rightarrow> int \<Rightarrow> int \<Rightarrow> string \<Rightarrow> meta_db \<Rightarrow> meta_client \<Rightarrow> (meta_error + unit) \<times> meta_db \<times> meta_client" where
  "client_rmdir opts now t parent name db cl =
     (case rbind (ensure_writable opts) (\<lambda>_. validate_entry_name name) of
        Inl e \<Rightarrow> (Inl e, db, cl)
      | Inr _ \<Rightarrow>
          let parent = check_root (co_root opts) parent
          in case rmdir now parent name db of
               (Inl e, db) \<Rightarrow> (Inl e, db, cl)
             | (Inr _, db) \<Rightarrow>
                 let (child, ic) = remove_child_but_keep_inode parent name (cl_inodes cl);
                     ic = (case child of
                             Some i \<Rightarrow> update_node i (\<lambda>node. node\<lparr>ne_attr := (ne_attr node)\<lparr>at_nlink := 0\<rparr>, ne_parent := None\<rparr>) ic
                           | None \<Rightarrow> ic)
                 in (Inr (), db, adjust_cached_parent_after_namespace_mutation opts t parent (- 1) (cl\<lparr>cl_inodes := ic\<rparr>)))"

text \<open>Files keep their parent in the cache while they have one link.\<close>

definition link_parent :: "file_attr \<Rightarrow> int \<Rightarrow> int option" where
  "link_parent attr parent = (if at_nlink attr \<le> 1 then Some parent else None)"

definition cache_created :: "meta_db \<Rightarrow> int \<Rightarrow> string \<Rightarrow> int \<Rightarrow> inode_cache \<Rightarrow> inode_cache" where
  "cache_created db parent name ino ic =
     add_child parent name ino (case stat db ino of Some attr \<Rightarrow> insert_node ino attr (link_parent attr parent) ic | None \<Rightarrow> ic)"

definition client_create_file ::
  "client_options \<Rightarrow> int \<Rightarrow> int \<Rightarrow> int \<Rightarrow> string \<Rightarrow> meta_db \<Rightarrow> meta_client \<Rightarrow> (meta_error + int) \<times> meta_db \<times> meta_client" where
  "client_create_file opts now t parent name db cl =
     (case rbind (ensure_writable opts) (\<lambda>_. validate_entry_name name) of
        Inl e \<Rightarrow> (Inl e, db, cl)
      | Inr _ \<Rightarrow>
          let parent = check_root (co_root opts) parent
          in case create_file_internal now parent name db of
               (Inl e, db) \<Rightarrow> (Inl e, db, cl)
             | (Inr ino, db) \<Rightarrow>
                 (Inr ino, db, adjust_cached_parent_after_namespace_mutation opts t parent 0
                    (cl\<lparr>cl_inodes := cache_created db parent name ino (cl_inodes cl)\<rparr>)))"

definition client_create_node ::
  "client_options \<Rightarrow> int \<Rightarrow> int \<Rightarrow> string \<Rightarrow> file_type \<Rightarrow> u32 \<Rightarrow> u32 \<Rightarrow> u32 \<Rightarrow> u32 \<Rightarrow> meta_db \<Rightarrow> meta_client
   \<Rightarrow> (meta_error + int) \<times> meta_db \<times> meta_client" where
  "client_create_node opts now parent name kind mode uid gid rdev db cl =
     (case rbind (ensure_writable opts) (\<lambda>_. validate_entry_name name) of
        Inl e \<Rightarrow> (Inl e, db, cl)
      | Inr _ \<Rightarrow>
          let parent = check_root (co_root opts) parent
          in case create_node now parent name kind mode uid gid rdev db of
               (Inl e, db) \<Rightarrow> (Inl e, db, cl)
             | (Inr ino, db) \<Rightarrow>
                 (Inr ino, db, invalidate_parent_after_namespace_mutation opts db parent
                    (cl\<lparr>cl_inodes := cache_created db parent name ino (cl_inodes cl)\<rparr>)))"

definition client_link ::
  "client_options \<Rightarrow> int \<Rightarrow> int \<Rightarrow> int \<Rightarrow> int \<Rightarrow> string \<Rightarrow> meta_db \<Rightarrow> meta_client \<Rightarrow> (meta_error + file_attr) \<times> meta_db \<times> meta_client" where
  "client_link opts now t ino parent name db cl =
     (case rbind (ensure_writable opts) (\<lambda>_. validate_entry_name name) of
        Inl e \<Rightarrow> (Inl e, db, cl)
      | Inr _ \<Rightarrow>
          let inode = check_root (co_root opts) ino; parent = check_root (co_root opts) parent
          in case link now inode parent name db of
               (Inl e, db) \<Rightarrow> (Inl e, db, cl)
             | (Inr attr, db) \<Rightarrow>
                 let ic = snd (ensure_node_in_cache db parent None (cl_inodes cl));
                     ic = add_child parent name inode (insert_node inode attr None ic)
                 in (Inr attr, db, adjust_cached_parent_after_namespace_mutation opts t parent 0 (cl\<lparr>cl_inodes := ic\<rparr>)))"

definition client_symlink ::
  "client_options \<Rightarrow> int \<Rightarrow> int \<Rightarrow> int \<Rightarrow> string \<Rightarrow> string \<Rightarrow> meta_db \<Rightarrow> meta_client
   \<Rightarrow> (meta_error + int \<times> file_attr) \<times> meta_db \<times> meta_client" where
  "client_symlink opts now t parent name target db cl =
     (case rbind (ensure_writable opts) (\<lambda>_. rbind (validate_entry_name name) (\<lambda>_. validate_symlink_target target)) of
        Inl e \<Rightarrow> (Inl e, db, cl)
      | Inr _ \<Rightarrow>
          let parent = check_root (co_root opts) parent
          in case symlink now parent name target db of
               (Inl e, db) \<Rightarrow> (Inl e, db, cl)
             | (Inr (ino, attr), db) \<Rightarrow>
                 let ic = snd (ensure_node_in_cache db parent None (cl_inodes cl));
                     ic = add_child parent name ino (insert_node ino attr (link_parent attr parent) ic)
                 in (Inr (ino, attr), db, adjust_cached_parent_after_namespace_mutation opts t parent 0 (cl\<lparr>cl_inodes := ic\<rparr>)))"

definition client_unlink ::
  "client_options \<Rightarrow> trash_encoder \<Rightarrow> int \<Rightarrow> int \<Rightarrow> int \<Rightarrow> string \<Rightarrow> meta_db \<Rightarrow> meta_client
   \<Rightarrow> (meta_error + unit) \<times> meta_db \<times> meta_client" where
  "client_unlink opts enc now t parent name db cl =
     (case rbind (ensure_writable opts) (\<lambda>_. validate_entry_name name) of
        Inl e \<Rightarrow> (Inl e, db, cl)
      | Inr _ \<Rightarrow>
          let parent = check_root (co_root opts) parent; (target, ic) = cached_lookup opts db parent name (cl_inodes cl)
          in case target of
               Inl e \<Rightarrow> (Inl e, db, cl\<lparr>cl_inodes := ic\<rparr>)
             | Inr target_ino \<Rightarrow> (case unlink enc now parent name db of
                   (Inl e, db) \<Rightarrow> (Inl e, db, cl\<lparr>cl_inodes := ic\<rparr>)
                 | (Inr _, db) \<Rightarrow>
                     let ic = snd (remove_child parent name ic);
                         ic = (case target_ino of Some ino \<Rightarrow> invalidate_inode ino ic | None \<Rightarrow> ic)
                     in (Inr (), db, adjust_cached_parent_after_namespace_mutation opts t parent 0 (cl\<lparr>cl_inodes := ic\<rparr>))))"

section \<open>Renaming\<close>

definition rename_source :: "client_options \<Rightarrow> meta_db \<Rightarrow> int \<Rightarrow> string \<Rightarrow> inode_cache \<Rightarrow> (meta_error + unit) \<times> inode_cache" where
  "rename_source opts db old_parent old_name ic =
     (case cached_lookup_required opts db old_parent old_name ic of
        (Inl e, ic) \<Rightarrow> (Inl e, ic)
      | (Inr src_ino, ic) \<Rightarrow> (Inr (), snd (cached_stat opts db src_ino ic)))"

text \<open>Both names already led to one inode: nothing was renamed.\<close>

definition rename_same_inode :: "meta_db \<Rightarrow> int \<Rightarrow> int \<Rightarrow> string \<Rightarrow> int \<Rightarrow> string \<Rightarrow> inode_cache \<Rightarrow> inode_cache" where
  "rename_same_inode db src_ino old_parent old_name new_parent new_name ic =
     (let ic = invalidate_inode src_ino ic;
          ic = snd (remove_child old_parent old_name ic);
          ic = snd (remove_child new_parent new_name ic);
          ic = snd (ensure_node_in_cache db old_parent None ic);
          ic = snd (ensure_node_in_cache db new_parent None ic);
          ic = snd (ensure_node_in_cache db src_ino None ic);
          ic = add_child old_parent old_name src_ino ic
      in add_child new_parent new_name src_ino ic)"

definition rename_children :: "meta_db \<Rightarrow> rename_outcome \<Rightarrow> int \<Rightarrow> string \<Rightarrow> int \<Rightarrow> string \<Rightarrow> inode_cache \<Rightarrow> inode_cache" where
  "rename_children db out old_parent old_name new_parent new_name ic =
     (let ic = snd (remove_child old_parent old_name ic);
          ic = snd (remove_child new_parent new_name ic);
          ic = invalidate_inode (ro_ino out) ic;
          ic = snd (ensure_node_in_cache db new_parent None ic);
          ic = snd (ensure_node_in_cache db (ro_ino out) (Some new_parent) ic);
          ic = add_child new_parent new_name (ro_ino out) ic
      in case ro_replaced_ino out of
           None \<Rightarrow> ic
         | Some dest \<Rightarrow>
             if ic dest \<noteq> None
             then (case stat db dest of
                     Some attr \<Rightarrow> update_node dest (\<lambda>node. node\<lparr>ne_attr := attr, ne_parent := None\<rparr>) ic
                   | None \<Rightarrow> invalidate_inode dest ic)
             else invalidate_inode dest ic)"

definition rename_parents :: "client_options \<Rightarrow> int \<Rightarrow> rename_outcome \<Rightarrow> int \<Rightarrow> int \<Rightarrow> meta_client \<Rightarrow> meta_client" where
  "rename_parents opts t out old_parent new_parent cl =
     (let cross = ro_source_is_dir out \<and> old_parent \<noteq> new_parent;
          old_parent_delta = (if cross then - 1 else 0);
          new_parent_delta = (if cross then 1 else 0) - (if ro_replaced_is_dir out then 1 else 0)
      in if old_parent = new_parent
         then adjust_cached_parent_after_namespace_mutation opts t old_parent (old_parent_delta + new_parent_delta) cl
         else adjust_cached_parent_after_namespace_mutation opts t new_parent new_parent_delta
                (adjust_cached_parent_after_namespace_mutation opts t old_parent old_parent_delta cl))"

definition rename_cached ::
  "client_options \<Rightarrow> trash_encoder \<Rightarrow> int \<Rightarrow> int \<Rightarrow> int \<Rightarrow> string \<Rightarrow> int \<Rightarrow> string \<Rightarrow> (int \<times> file_attr) option \<Rightarrow> file_attr option \<Rightarrow> bool
   \<Rightarrow> meta_db \<Rightarrow> meta_client \<Rightarrow> (meta_error + unit) \<times> meta_db \<times> meta_client" where
  "rename_cached opts enc now t old_parent old_name new_parent new_name known_src known_new_parent_attr noreplace db cl =
     (let old_parent = check_root (co_root opts) old_parent; new_parent = check_root (co_root opts) new_parent
      in case ensure_writable opts of
        Inl e \<Rightarrow> (Inl e, db, cl)
      | Inr _ \<Rightarrow>
          if old_parent = new_parent \<and> old_name = new_name then (Inr (), db, cl)
          else case validate_entry_name new_name of
            Inl e \<Rightarrow> (Inl e, db, cl)
          | Inr _ \<Rightarrow>
              let (src, ic) = (case known_src of
                                 Some _ \<Rightarrow> (Inr (), cl_inodes cl)
                               | None \<Rightarrow> rename_source opts db old_parent old_name (cl_inodes cl))
              in case src of
                Inl e \<Rightarrow> (Inl e, db, cl\<lparr>cl_inodes := ic\<rparr>)
              | Inr _ \<Rightarrow>
                  let (dest, ic) = (case known_new_parent_attr of
                                      Some a \<Rightarrow> (if at_kind a \<noteq> FtDir then Inl (NotDirectory new_parent) else Inr (), ic)
                                    | None \<Rightarrow> ensure_directory_exists opts db new_parent ic)
                  in case dest of
                    Inl e \<Rightarrow> (Inl e, db, cl\<lparr>cl_inodes := ic\<rparr>)
                  | Inr _ \<Rightarrow> (case rename_with_mode enc now old_parent old_name new_parent new_name noreplace db of
                        (Inl e, db) \<Rightarrow> (Inl e, db, cl\<lparr>cl_inodes := ic\<rparr>)
                      | (Inr out, db) \<Rightarrow>
                          if \<not> ro_renamed out
                          then (Inr (), db, cl\<lparr>cl_inodes := rename_same_inode db (ro_ino out) old_parent old_name new_parent new_name ic\<rparr>)
                          else (Inr (), db, rename_parents opts t out old_parent new_parent
                                  (cl\<lparr>cl_inodes := rename_children db out old_parent old_name new_parent new_name ic\<rparr>))))"

definition client_rename_exchange ::
  "client_options \<Rightarrow> int \<Rightarrow> int \<Rightarrow> string \<Rightarrow> int \<Rightarrow> string \<Rightarrow> meta_db \<Rightarrow> meta_client \<Rightarrow> (meta_error + unit) \<times> meta_db \<times> meta_client" where
  "client_rename_exchange opts now old_parent old_name new_parent new_name db cl =
     (let old_parent = check_root (co_root opts) old_parent; new_parent = check_root (co_root opts) new_parent
      in case ensure_writable opts of
        Inl e \<Rightarrow> (Inl e, db, cl)
      | Inr _ \<Rightarrow>
          if old_parent = new_parent \<and> old_name = new_name then (Inr (), db, cl)
          else
            let (a, ic) = cached_lookup_required opts db old_parent old_name (cl_inodes cl)
            in case a of
              Inl e \<Rightarrow> (Inl e, db, cl\<lparr>cl_inodes := ic\<rparr>)
            | Inr old_ino \<Rightarrow>
                let (b, ic) = cached_lookup_required opts db new_parent new_name ic
                in case b of
                  Inl e \<Rightarrow> (Inl e, db, cl\<lparr>cl_inodes := ic\<rparr>)
                | Inr new_ino \<Rightarrow> (case rename_exchange now old_parent old_name new_parent new_name db of
                      (Inl e, db) \<Rightarrow> (Inl e, db, cl\<lparr>cl_inodes := ic\<rparr>)
                    | (Inr _, db) \<Rightarrow>
                        let affected = [old_ino, new_ino] @ List.map_filter (\<lambda>k. k) [lookup db old_parent old_name, lookup db new_parent new_name];
                            ic = invalidate_inode old_parent (fold invalidate_inode affected ic);
                            st = invalidate_parent_path (co_root opts) old_parent (cl_paths cl)
                        in (Inr (), db,
                            if old_parent \<noteq> new_parent
                            then cl\<lparr>cl_inodes := invalidate_inode new_parent ic, cl_paths := invalidate_parent_path (co_root opts) new_parent st\<rparr>
                            else cl\<lparr>cl_inodes := ic, cl_paths := st\<rparr>)))"

section \<open>Listing and fresh attributes\<close>

text \<open>The generation is read before the store is, and compared when the listing is stored.\<close>

definition readdir_begin :: "meta_db \<Rightarrow> int \<Rightarrow> inode_cache \<Rightarrow> u64 \<times> inode_cache" where
  "readdir_begin db inode ic =
     (let ic = snd (ensure_node_in_cache db inode None ic)
      in (case ic inode of Some node \<Rightarrow> ne_generation node | None \<Rightarrow> 0, ic))"

definition readdir_end :: "meta_db \<Rightarrow> int \<Rightarrow> u64 \<Rightarrow> dir_entry list \<Rightarrow> inode_cache \<Rightarrow> inode_cache" where
  "readdir_end db inode children_generation entries ic =
     snd (load_children_if_fresh inode (map (\<lambda>e. (de_name e, de_ino e)) entries) children_generation
        (snd (ensure_node_in_cache db inode None ic)))"

definition client_readdir :: "client_options \<Rightarrow> int \<Rightarrow> meta_db \<Rightarrow> inode_cache \<Rightarrow> (meta_error + dir_entry list) \<times> inode_cache" where
  "client_readdir opts ino db ic =
     (let inode = check_root (co_root opts) ino
      in case ic_readdir inode ic of
           Some entries \<Rightarrow> (Inr entries, ic)
         | None \<Rightarrow>
             let (children_generation, ic) = readdir_begin db inode ic
             in case readdir db inode of
                  Inl e \<Rightarrow> (Inl e, ic)
                | Inr entries \<Rightarrow>
                    let entries = sort_key de_name entries
                    in (Inr entries, readdir_end db inode children_generation entries ic))"

definition stat_fresh :: "client_options \<Rightarrow> int \<Rightarrow> meta_db \<Rightarrow> inode_cache \<Rightarrow> file_attr option \<times> inode_cache" where
  "stat_fresh opts ino db ic =
     (let inode = check_root (co_root opts) ino
      in case stat db inode of
           Some a \<Rightarrow> (let (found, ic) = refresh_cached_node_for_fresh_stat inode a ic
                      in (Some a, if found then ic else insert_node inode a None ic))
         | None \<Rightarrow> (None, invalidate_inode inode ic))"

section \<open>Resolving paths\<close>

definition join_parts :: "string list \<Rightarrow> string" where
  "join_parts parts = tl (join_slash parts)"

text \<open>\<^verbatim>\<open>normalize_path\<close> of the client, for the targets of symbolic links.\<close>

fun normalize_step :: "string \<Rightarrow> string list \<Rightarrow> string list" where
  "normalize_step part components =
     (if part = [] \<or> part = ''.'' then components
      else if part = ''..'' then butlast components
      else components @ [part])"

definition normalize_path :: "string \<Rightarrow> string" where
  "normalize_path path =
     (let components = fold normalize_step (split_slash path) []
      in if take 1 path = ''/'' then (if components = [] then ''/'' else ''/'' @ join_parts components) else join_parts components)"

definition client_get_paths :: "client_options \<Rightarrow> meta_db \<Rightarrow> int \<Rightarrow> string list option" where
  "client_get_paths opts db ino =
     (let inode = check_root (co_root opts) ino in if inode = co_root opts then Some [''/''] else get_paths db inode)"

text \<open>
  The path to go on with after a symbolic link at \<open>child\<close> in directory \<open>current\<close>; \<open>None\<close> when the walk of
  \<^verbatim>\<open>get_paths\<close> does not end.
\<close>

definition follow_target :: "client_options \<Rightarrow> meta_db \<Rightarrow> int \<Rightarrow> int \<Rightarrow> string list \<Rightarrow> (meta_error + string) option" where
  "follow_target opts db current child later =
     (case read_symlink db child of
        Inl e \<Rightarrow> Some (Inl e)
      | Inr target \<Rightarrow>
          map_option (\<lambda>resolved. Inr (normalize_path (if later = [] then resolved else resolved @ ''/'' @ join_parts later)))
            (if take 1 target = ''/'' then Some target
             else map_option (\<lambda>paths. let parent_path = (case paths of [] \<Rightarrow> ''/'' | p # _ \<Rightarrow> p)
                                     in if parent_path = ''/'' then ''/'' @ target else parent_path @ ''/'' @ target)
                    (client_get_paths opts db current)))"

text \<open>One pass over the segments: an inode, or the path to go on with.\<close>

fun walk_segments ::
  "client_options \<Rightarrow> meta_db \<Rightarrow> bool \<Rightarrow> int \<Rightarrow> string list \<Rightarrow> inode_cache \<Rightarrow> ((meta_error + (int + string)) \<times> inode_cache) option" where
  "walk_segments opts db follow_final current [] ic = Some (Inr (Inl current), ic)"
| "walk_segments opts db follow_final current (seg # rest) ic =
     (case cached_stat opts db current ic of (attr, ic) \<Rightarrow>
        if (case attr of Some a \<Rightarrow> at_kind a \<noteq> FtDir | None \<Rightarrow> False) then Some (Inl (NotDirectory current), ic)
        else case cached_lookup opts db current seg ic of
               (Inl e, ic) \<Rightarrow> Some (Inl e, ic)
             | (Inr None, ic) \<Rightarrow> Some (Inl (NotFound current), ic)
             | (Inr (Some child), ic) \<Rightarrow>
                 (case (if rest \<noteq> [] \<or> follow_final then cached_stat opts db child ic else (None, ic)) of (attr, ic) \<Rightarrow>
                    if (case attr of Some a \<Rightarrow> at_kind a = FtSymlink | None \<Rightarrow> False)
                    then map_option (\<lambda>r. (map_sum id Inr r, ic)) (follow_target opts db current child rest)
                    else walk_segments opts db follow_final child rest ic))"

text \<open>The passes; the counter is the number of symbolic links that may still be followed.\<close>

fun resolve_passes ::
  "client_options \<Rightarrow> meta_db \<Rightarrow> bool \<Rightarrow> nat \<Rightarrow> string \<Rightarrow> inode_cache \<Rightarrow> ((meta_error + int) \<times> inode_cache) option" where
  "resolve_passes opts db follow_final 0 path ic = Some (Inl TooManySymlinks, ic)"
| "resolve_passes opts db follow_final (Suc n) path ic =
     (case walk_segments opts db follow_final (co_root opts) (split_path path) ic of
        None \<Rightarrow> None
      | Some (Inl e, ic) \<Rightarrow> Some (Inl e, ic)
      | Some (Inr (Inl ino), ic) \<Rightarrow> Some (Inr ino, ic)
      | Some (Inr (Inr path'), ic) \<Rightarrow> resolve_passes opts db follow_final n path' ic)"

text \<open>A cached path answers, unless it leads to a symbolic link that is to be followed.\<close>

definition path_hit :: "client_options \<Rightarrow> meta_db \<Rightarrow> string \<Rightarrow> bool \<Rightarrow> meta_client \<Rightarrow> int option \<times> inode_cache" where
  "path_hit opts db path follow_final cl =
     (case path_cache (cl_paths cl) path of
        None \<Rightarrow> (None, cl_inodes cl)
      | Some ino \<Rightarrow>
          if \<not> follow_final then (Some ino, cl_inodes cl)
          else case cached_stat opts db ino (cl_inodes cl) of (attr, ic) \<Rightarrow>
                 (if (case attr of Some a \<Rightarrow> at_kind a = FtSymlink | None \<Rightarrow> False) then None else Some ino, ic))"

definition resolve_path_impl ::
  "client_options \<Rightarrow> meta_db \<Rightarrow> string \<Rightarrow> bool \<Rightarrow> meta_client \<Rightarrow> ((meta_error + int) \<times> meta_client) option" where
  "resolve_path_impl opts db path follow_final cl =
     (if path = ''/'' then Some (Inr (co_root opts), cl)
      else case path_hit opts db path follow_final cl of
             (Some ino, ic) \<Rightarrow> Some (Inr ino, cl\<lparr>cl_inodes := ic\<rparr>)
           | (None, ic) \<Rightarrow> (case resolve_passes opts db follow_final (co_max_symlinks opts) path ic of
                 None \<Rightarrow> None
               | Some (Inl e, ic) \<Rightarrow> Some (Inl e, cl\<lparr>cl_inodes := ic\<rparr>)
               | Some (Inr ino, ic) \<Rightarrow> Some (Inr ino, \<lparr>cl_inodes = ic, cl_paths = cache_resolved path ino (cl_paths cl)\<rparr>)))"

text \<open>\<^verbatim>\<open>normalize_path\<close> of the file system layer, which its calls apply before they resolve a path.\<close>

definition fs_normalize_path :: "string \<Rightarrow> string" where
  "fs_normalize_path path =
     (let parts = filter (\<lambda>s. s \<noteq> []) (split_slash path) in if parts = [] then ''/'' else join_slash parts)"

end
