(* ===== verification/ClientCoherence.thy ===== *)
theory ClientCoherence
  imports ClientNames MetaAttrs
begin

text \<open>
  The client beside its store: what its namespace calls do to the inode cache and the path cache, that cached lookups
  agree with the store, and when a cached path still leads where it led.
\<close>

section \<open>Names of the store\<close>

lemma names_emap: "lookup db = (\<lambda>p n. map_option fst (emap db (p, n)))"
  by (simp add: fun_eq_iff lookup_emap)

lemma names_added:
  assumes "emap db' = (emap db)((p, n) \<mapsto> (i, t))"
  shows "lookup db' = (lookup db)(p := (lookup db p)(n \<mapsto> i))"
  by (simp add: names_emap assms fun_eq_iff)

lemma names_removed:
  assumes "emap db' = (emap db)((p, n) := None)"
  shows "lookup db' = (lookup db)(p := (lookup db p)(n := None))"
  by (simp add: names_emap assms fun_eq_iff)

lemma names_same: "emap db' = emap db \<Longrightarrow> lookup db' = lookup db"
  by (simp add: names_emap)

lemma entry_stat:
  assumes inv: "ns_inv db" and "lookup db p n = Some i"
  shows "stat db i \<noteq> None"
proof -
  obtain e where e: "find_entry db p n = Some e" "ct_inode e = i" using assms(2) by (auto simp: lookup_def)
  then show ?thesis using inv_entry(2,3) [OF inv e(1)] by (cases "ct_type e = EtDirectory") (auto simp: stat_def split: option.split)
qed

lemma failed_creation_names:
  assumes inv: "ns_inv db" and "(case alloc_inode db of Inl e \<Rightarrow> (Inl e, db) | Inr (i, db1) \<Rightarrow> run_txn db1 (f i db1)) = (Inl e, db')"
  shows "ns_inv db' \<and> emap db' = emap db"
proof (cases "alloc_inode db")
  case (Inr x)
  obtain i db1 where x: "x = (i, db1)" by (rule prod.exhaust)
  then have "db' = db1" using assms(2) Inr run_txn_Inl by auto
  then show ?thesis using alloc_inode_effect(1,5) [OF inv] Inr x by simp
qed (use assms in auto)

section \<open>Cached lookups\<close>

lemma agrees_update_node [agree]:
  "cache_agrees names ic \<Longrightarrow> (\<And>node. ne_children (f node) = ne_children node) \<Longrightarrow> cache_agrees names (update_node ino f ic)"
  by (auto simp: update_node_def intro!: agrees_upd dest: agreesD split: option.split)

lemma agrees_cached_stat [agree]: "cache_agrees names ic \<Longrightarrow> cache_agrees names (snd (cached_stat opts db ino ic))"
  by (simp add: cached_stat_def Let_def agree split: option.split)

lemma agrees_known: "cache_agrees names ic \<Longrightarrow> names p n = Some i \<Longrightarrow> cache_agrees names (add_child p n i ic)"
  using agrees_add [of names ic p n i] by (simp add: fun_upd_idem)

lemma cached_lookup_agrees:
  assumes inv: "ns_inv db" and ag: "cache_agrees (lookup db) ic" and cs: "\<not> co_case_insensitive opts"
  shows "fst (cached_lookup opts db parent name ic) = rbind (validate_entry_name name) (\<lambda>_. Inr (lookup db (check_root (co_root opts) parent) name))"
    and "cache_agrees (lookup db) (snd (cached_lookup opts db parent name ic))"
proof -
  let ?p = "check_root (co_root opts) parent"
  have miss: "(\<exists>ic'. (case lookup_with_attr db ?p name of Inl e \<Rightarrow> (Inl e, ic)
        | Inr (Some (ino, attr)) \<Rightarrow> (Inr (Some ino), cache_lookup_attr ?p name ino attr ic) | Inr None \<Rightarrow> (Inr None, ic)) = (Inr (lookup db ?p name), ic')
      \<and> cache_agrees (lookup db) ic')"
  proof (cases "lookup db ?p name")
    case None
    then show ?thesis using ag by (simp add: lookup_with_attr_def)
  next
    case (Some i)
    obtain a where "stat db i = Some a" using entry_stat [OF inv Some] by blast
    then show ?thesis using ag Some by (simp add: lookup_with_attr_def result_simps cache_lookup_attr_def agrees_known agree)
  qed
  obtain ic' where m: "(case lookup_with_attr db ?p name of Inl e \<Rightarrow> (Inl e, ic)
        | Inr (Some (ino, attr)) \<Rightarrow> (Inr (Some ino), cache_lookup_attr ?p name ino attr ic) | Inr None \<Rightarrow> (Inr None, ic)) = (Inr (lookup db ?p name), ic')"
    "cache_agrees (lookup db) ic'" using miss by blast
  have "cached_lookup opts db parent name ic = (case validate_entry_name name of Inl e \<Rightarrow> (Inl e, ic)
      | Inr _ \<Rightarrow> (case lookup_if_loaded ?p name ic of Some r \<Rightarrow> (Inr r, ic) | None \<Rightarrow> (Inr (lookup db ?p name), ic')))"
    using cs m(1) by (simp add: cached_lookup_def Let_def split: option.split sum.split)
  then show "fst (cached_lookup opts db parent name ic) = rbind (validate_entry_name name) (\<lambda>_. Inr (lookup db ?p name))"
    "cache_agrees (lookup db) (snd (cached_lookup opts db parent name ic))"
    using lookup_if_loaded_agrees [OF ag] ag m(2) by (auto simp: rbind_def split: sum.split option.split)
qed

lemma agrees_required:
  assumes "ns_inv db" and "cache_agrees (lookup db) ic" and "\<not> co_case_insensitive opts"
  shows "cache_agrees (lookup db) (snd (cached_lookup_required opts db parent name ic))"
  using cached_lookup_agrees(2) [OF assms] by (simp add: cached_lookup_required_def Let_def split_def)

lemma agrees_directory [agree]: "cache_agrees names ic \<Longrightarrow> cache_agrees names (snd (ensure_directory_exists opts db ino ic))"
  using agrees_cached_stat [of names ic opts db] by (simp add: ensure_directory_exists_def Let_def split_def)

lemma agrees_source:
  assumes "ns_inv db" and "cache_agrees (lookup db) ic" and "\<not> co_case_insensitive opts"
  shows "cache_agrees (lookup db) (snd (rename_source opts db p n ic))"
  using agrees_required [OF assms, of p n] by (auto simp: rename_source_def agree split: prod.split sum.split)

section \<open>Calls that add names\<close>

text \<open>
  A call keeps the invariant of the store and the agreement of the inode cache. It either keeps all entries, or it
  changes entries of the directories \<open>D\<close> only and invalidates the paths of these.
\<close>

definition call_ok :: "int \<Rightarrow> meta_db \<Rightarrow> path_index \<Rightarrow> int list \<Rightarrow> meta_db \<Rightarrow> meta_client \<Rightarrow> bool" where
  "call_ok rt db st D db' cl' \<longleftrightarrow> ns_inv db' \<and> cache_agrees (lookup db') (cl_inodes cl')
     \<and> ((\<forall>k v. emap db k = Some v \<longrightarrow> emap db' k = Some v) \<and> (\<exists>ds. cl_paths cl' = fold (invalidate_parent_path rt) ds st)
        \<or> (\<forall>k v. emap db k = Some v \<longrightarrow> fst k \<notin> set D \<longrightarrow> emap db' k = Some v) \<and> cl_paths cl' = fold (invalidate_parent_path rt) D st)"

lemma call_ok_quiet:
  assumes "ns_inv db'" and "emap db' = emap db" and "cache_agrees (lookup db) (cl_inodes cl')" and "cl_paths cl' = st"
  shows "call_ok rt db st D db' cl'"
proof -
  have "cl_paths cl' = fold (invalidate_parent_path rt) [] st" using assms(4) by simp
  then show ?thesis using assms names_same [OF assms(2)] unfolding call_ok_def by metis
qed

lemma call_ok_added:
  assumes "ns_inv db'" and "emap db (p, n) = None" and "emap db' = (emap db)((p, n) \<mapsto> (i, t))"
    and "cache_agrees (lookup db) ic" and "\<And>names. cache_agrees names (add_child p n i ic) \<Longrightarrow> cache_agrees names (cl_inodes cl')"
    and "cl_paths cl' = invalidate_parent_path rt d st"
  shows "call_ok rt db st D db' cl'"
proof -
  have "cache_agrees (lookup db') (cl_inodes cl')" unfolding names_added [OF assms(3)] by (intro assms(5) agrees_add assms(4))
  moreover have "cl_paths cl' = fold (invalidate_parent_path rt) [d] st" using assms(6) by simp
  moreover have "\<forall>k v. emap db k = Some v \<longrightarrow> emap db' k = Some v" using assms(2,3) by auto
  ultimately show ?thesis using assms(1) unfolding call_ok_def by blast
qed

lemma adjust_simps [simp]:
  "cl_inodes (adjust_cached_parent_after_namespace_mutation opts t p delta cl) =
     update_node (check_root (co_root opts) p) (\<lambda>node. node\<lparr>ne_attr := adjust_attr t delta (ne_attr node)\<rparr>) (cl_inodes cl)"
  "cl_paths (adjust_cached_parent_after_namespace_mutation opts t p delta cl) = invalidate_parent_path (co_root opts) (check_root (co_root opts) p) (cl_paths cl)"
  by (simp_all add: adjust_cached_parent_after_namespace_mutation_def Let_def)

lemma no_children:
  assumes "ns_inv db" and "i \<notin> dirs db"
  shows "lookup db i = (\<lambda>_. None)"
proof -
  have "emap db (i, n) = None" for n using ns_okD(4) [OF ns_invD(2) [OF assms(1)], of "(i, n)"] assms(2) by (cases "emap db (i, n)") (auto simp: entry_ok_def)
  then show ?thesis by (simp add: names_emap)
qed

lemma inodes_ok: "ns_inv db \<Longrightarrow> cache_agrees (lookup db) ic \<Longrightarrow> call_ok rt db (cl_paths cl) D db (cl\<lparr>cl_inodes := ic\<rparr>)"
  by (rule call_ok_quiet) simp_all

text \<open>The common shape of a call: checks, a store call, and cache updates when it succeeded.\<close>

lemma store_call_ok:
  assumes inv: "ns_inv db" and ag: "cache_agrees (lookup db) (cl_inodes cl)"
    and call: "(case chk of Inl e \<Rightarrow> (Inl e, db, cl) | Inr _ \<Rightarrow> (case op of (Inl e, db1) \<Rightarrow> (Inl e, db1, cl) | (Inr x, db1) \<Rightarrow> (Inr (g x), db1, h x db1))) = (r, db', cl')"
    and failed: "\<And>e db1. op = (Inl e, db1) \<Longrightarrow> ns_inv db1 \<and> emap db1 = emap db"
    and success: "\<And>x db1. op = (Inr x, db1) \<Longrightarrow> call_ok rt db (cl_paths cl) D db1 (h x db1)"
  shows "call_ok rt db (cl_paths cl) D db' cl'"
proof (cases chk)
  case (Inl e)
  then show ?thesis using call call_ok_quiet [OF inv refl ag refl] by simp
next
  case (Inr u)
  obtain x db1 where op: "op = (x, db1)" by (cases op)
  show ?thesis
  proof (cases x)
    case (Inl e)
    then show ?thesis using call Inr op call_ok_quiet [OF _ _ ag refl] failed by auto
  next
    case (Inr y)
    then show ?thesis using call \<open>chk = _\<close> op success by auto
  qed
qed

lemma mkdir_ok:
  assumes inv: "ns_inv db" and ag: "cache_agrees (lookup db) (cl_inodes cl)" and call: "client_mkdir opts now t parent name db cl = (r, db', cl')"
  shows "call_ok (co_root opts) db (cl_paths cl) D db' cl'"
proof (rule store_call_ok [OF inv ag call [unfolded client_mkdir_def Let_def]])
  let ?p = "check_root (co_root opts) parent"
  show "ns_inv db1 \<and> emap db1 = emap db" if "mkdir now ?p name db = (Inl e, db1)" for e db1
    by (rule failed_creation_names [OF inv that [unfolded mkdir_def create_directory_def]])
  show "call_ok (co_root opts) db (cl_paths cl) D db1 (adjust_cached_parent_after_namespace_mutation opts t ?p 1
      (cl\<lparr>cl_inodes := add_child ?p name i (case stat db1 i of Some attr \<Rightarrow> mark_children_complete_empty i (insert_node i attr (Some ?p) (cl_inodes cl)) | None \<Rightarrow> cl_inodes cl)\<rparr>))"
    if "mkdir now ?p name db = (Inr i, db1)" for i db1
  proof -
    note C = create_directory_effect [OF inv that [unfolded mkdir_def]]
    have "cache_agrees (lookup db) (case stat db1 i of Some attr \<Rightarrow> mark_children_complete_empty i (insert_node i attr (Some ?p) (cl_inodes cl)) | None \<Rightarrow> cl_inodes cl)"
      using ag no_children [OF inv C(7)] by (simp add: agrees_complete_empty agree split: option.split)
    from call_ok_added [OF C(1-3) this] show ?thesis by (simp add: agree)
  qed
qed

lemma cache_created_ok:
  assumes "ns_inv db'" and "emap db (p, n) = None" and "emap db' = (emap db)((p, n) \<mapsto> (i, t))" and ag: "cache_agrees (lookup db) (cl_inodes cl)"
  shows "call_ok (co_root opts) db (cl_paths cl) D db' (adjust_cached_parent_after_namespace_mutation opts tm p 0 (cl\<lparr>cl_inodes := cache_created db' p n i (cl_inodes cl)\<rparr>))"
proof -
  have "cache_agrees (lookup db) (case stat db' i of Some attr \<Rightarrow> insert_node i attr (link_parent attr p) (cl_inodes cl) | None \<Rightarrow> cl_inodes cl)"
    using ag by (simp add: agree split: option.split)
  from call_ok_added [OF assms(1-3) this] show ?thesis by (simp add: cache_created_def agree)
qed

lemma create_file_ok:
  assumes inv: "ns_inv db" and ag: "cache_agrees (lookup db) (cl_inodes cl)" and call: "client_create_file opts now t parent name db cl = (r, db', cl')"
  shows "call_ok (co_root opts) db (cl_paths cl) D db' cl'"
proof (rule store_call_ok [OF inv ag call [unfolded client_create_file_def Let_def]])
  let ?p = "check_root (co_root opts) parent"
  show "ns_inv db1 \<and> emap db1 = emap db" if "create_file_internal now ?p name db = (Inl e, db1)" for e db1
    by (rule failed_creation_names [OF inv that [unfolded create_file_internal_def]])
  show "call_ok (co_root opts) db (cl_paths cl) D db1 (adjust_cached_parent_after_namespace_mutation opts t ?p 0
      (cl\<lparr>cl_inodes := cache_created db1 ?p name i (cl_inodes cl)\<rparr>))" if "create_file_internal now ?p name db = (Inr i, db1)" for i db1
    by (rule cache_created_ok [OF create_file_effect(1-3) [OF inv that] ag])
qed

lemma link_failed:
  assumes inv: "ns_inv db" and room: "int (length (content_rows db)) < i32_max" and op: "link now i p n db = (Inl e, db')"
  shows "ns_inv db' \<and> emap db' = emap db"
proof (cases "link_txn now i p n db")
  case (Pair x db1)
  have db1: "db1 = db'" using op Pair by (simp add: link_def)
  show ?thesis
  proof (cases x)
    case (Inl e)
    then have "db1 = db" using Pair run_txn_Inl unfolding link_txn_def by blast
    then show ?thesis using inv db1 by simp
  next
    case (Inr u)
    have "fi_nlink f < i32_max" if "fmap db i = Some f" for f using nlink_le_entries [OF inv that] room by simp
    then have "\<exists>f. fmap db1 i = Some f" using link_effect(6) [OF inv, of now i p n db1] Pair Inr by fastforce
    then have "stat db1 i \<noteq> None" by (auto simp: stat_def find_file_fmap)
    then show ?thesis using op Pair Inr db1 by (auto simp: link_def result_simps)
  qed
qed

lemma link_done:
  assumes inv: "ns_inv db" and room: "int (length (content_rows db)) < i32_max" and op: "link now i p n db = (Inr a, db')"
  shows "ns_inv db'" and "emap db (p, n) = None" and "emap db' = (emap db)((p, n) \<mapsto> (i, EtFile))"
proof -
  have "link_txn now i p n db = (Inr (), db')" using op by (cases "link_txn now i p n db") (auto simp: link_def result_simps)
  moreover have "fi_nlink f < i32_max" if "fmap db i = Some f" for f using nlink_le_entries [OF inv that] room by simp
  ultimately show "ns_inv db'" "emap db (p, n) = None" "emap db' = (emap db)((p, n) \<mapsto> (i, EtFile))" using link_effect(1-3) [OF inv] by blast+
qed

lemma link_ok:
  assumes inv: "ns_inv db" and ag: "cache_agrees (lookup db) (cl_inodes cl)" and room: "int (length (content_rows db)) < i32_max"
    and call: "client_link opts now t ino parent name db cl = (r, db', cl')"
  shows "call_ok (co_root opts) db (cl_paths cl) D db' cl'"
proof (rule store_call_ok [OF inv ag call [unfolded client_link_def Let_def]])
  let ?p = "check_root (co_root opts) parent" and ?i = "check_root (co_root opts) ino"
  show "ns_inv db1 \<and> emap db1 = emap db" if "link now ?i ?p name db = (Inl e, db1)" for e db1
    by (rule link_failed [OF inv room that])
  show "call_ok (co_root opts) db (cl_paths cl) D db1 (adjust_cached_parent_after_namespace_mutation opts t ?p 0
      (cl\<lparr>cl_inodes := add_child ?p name ?i (insert_node ?i a None (snd (ensure_node_in_cache db1 ?p None (cl_inodes cl))))\<rparr>))"
    if "link now ?i ?p name db = (Inr a, db1)" for a db1
  proof -
    have "cache_agrees (lookup db) (insert_node ?i a None (snd (ensure_node_in_cache db1 ?p None (cl_inodes cl))))" using ag by (simp add: agree)
    from call_ok_added [OF link_done [OF inv room that] this] show ?thesis by (simp add: agree)
  qed
qed

lemma agrees_refresh_parent [agree]: "cache_agrees names ic \<Longrightarrow> cache_agrees names (refresh_cached_attr_after_namespace_mutation db ino ic)"
  by (simp add: refresh_cached_attr_after_namespace_mutation_def agree split: option.split)

lemma create_node_ok:
  assumes inv: "ns_inv db" and ag: "cache_agrees (lookup db) (cl_inodes cl)"
    and call: "client_create_node opts now parent name kind mode uid gid rdev db cl = (r, db', cl')"
  shows "call_ok (co_root opts) db (cl_paths cl) D db' cl'"
proof (rule store_call_ok [OF inv ag call [unfolded client_create_node_def Let_def]])
  let ?p = "check_root (co_root opts) parent"
  show "ns_inv db1 \<and> emap db1 = emap db" if "create_node now ?p name kind mode uid gid rdev db = (Inl e, db1)" for e db1
  proof (cases "kind = FtDir \<or> kind = FtSymlink")
    case False
    show ?thesis by (rule failed_creation_names [OF inv that [unfolded create_node_def if_not_P [OF False]]])
  qed (use that inv in \<open>simp add: create_node_def\<close>)
  show "call_ok (co_root opts) db (cl_paths cl) D db1 (invalidate_parent_after_namespace_mutation opts db1 ?p
      (cl\<lparr>cl_inodes := cache_created db1 ?p name i (cl_inodes cl)\<rparr>))" if "create_node now ?p name kind mode uid gid rdev db = (Inr i, db1)" for i db1
  proof -
    have "cache_agrees (lookup db) (case stat db1 i of Some attr \<Rightarrow> insert_node i attr (link_parent attr ?p) (cl_inodes cl) | None \<Rightarrow> cl_inodes cl)"
      using ag by (simp add: agree split: option.split)
    from call_ok_added [OF create_node_effect(1-3) [OF inv that] this] show ?thesis
      by (simp add: invalidate_parent_after_namespace_mutation_def cache_created_def agree Let_def)
  qed
qed

lemma symlink_done:
  assumes "symlink now p n target db = (Inr (i, a), db')"
  shows "symlink_txn now p n target db = (Inr i, db')"
  using assms by (cases "symlink_txn now p n target db") (auto simp: symlink_def result_simps)

lemma symlink_failed:
  assumes inv: "ns_inv db" and op: "symlink now p n target db = (Inl e, db')"
  shows "ns_inv db' \<and> emap db' = emap db"
proof (cases "symlink_txn now p n target db")
  case (Pair x db1)
  have db1: "db1 = db'" using op Pair by (simp add: symlink_def)
  show ?thesis
  proof (cases x)
    case (Inl e')
    show ?thesis using failed_creation_names [OF inv Pair [unfolded Inl symlink_txn_def]] db1 by simp
  next
    case (Inr i)
    have "fmap db1 i \<noteq> None" using symlink_effect(7) [OF inv Pair [unfolded Inr]] by auto
    then have "stat db1 i \<noteq> None" by (auto simp: stat_def find_file_fmap)
    then show ?thesis using op Pair Inr db1 by (auto simp: symlink_def result_simps)
  qed
qed

lemma symlink_ok:
  assumes inv: "ns_inv db" and ag: "cache_agrees (lookup db) (cl_inodes cl)"
    and call: "client_symlink opts now t parent name target db cl = (r, db', cl')"
  shows "call_ok (co_root opts) db (cl_paths cl) D db' cl'"
proof -
  let ?p = "check_root (co_root opts) parent"
  let ?h = "\<lambda>x db1. adjust_cached_parent_after_namespace_mutation opts t ?p 0
      (cl\<lparr>cl_inodes := add_child ?p name (fst x) (insert_node (fst x) (snd x) (link_parent (snd x) ?p) (snd (ensure_node_in_cache db1 ?p None (cl_inodes cl))))\<rparr>)"
  have c: "(case rbind (ensure_writable opts) (\<lambda>_. rbind (validate_entry_name name) (\<lambda>_. validate_symlink_target target)) of Inl e \<Rightarrow> (Inl e, db, cl)
      | Inr _ \<Rightarrow> (case symlink now ?p name target db of (Inl e, db1) \<Rightarrow> (Inl e, db1, cl) | (Inr x, db1) \<Rightarrow> (Inr x, db1, ?h x db1))) = (r, db', cl')"
    using call by (simp add: client_symlink_def Let_def split_def cong: sum.case_cong)
  show ?thesis
  proof (rule store_call_ok [OF inv ag c])
    show "ns_inv db1 \<and> emap db1 = emap db" if "symlink now ?p name target db = (Inl e, db1)" for e db1
      by (rule symlink_failed [OF inv that])
    show "call_ok (co_root opts) db (cl_paths cl) D db1 (?h x db1)" if "symlink now ?p name target db = (Inr x, db1)" for x db1
    proof -
      have op: "symlink_txn now ?p name target db = (Inr (fst x), db1)" using symlink_done [of now ?p name target db "fst x" "snd x"] that by simp
      have "cache_agrees (lookup db) (insert_node (fst x) (snd x) (link_parent (snd x) ?p) (snd (ensure_node_in_cache db1 ?p None (cl_inodes cl))))"
        using ag by (simp add: agree)
      from call_ok_added [OF symlink_effect(1-3) [OF inv op] this] show ?thesis by (simp add: agree)
    qed
  qed
qed

section \<open>Calls that take names away\<close>

lemma check_root_idem [simp]: "check_root 1 (check_root 1 p) = check_root 1 p"
  by (simp add: check_root_def)

lemma rmdir_ok:
  assumes inv: "ns_inv db" and ag: "cache_agrees (lookup db) (cl_inodes cl)" and rt: "co_root opts = 1"
    and call: "client_rmdir opts now t parent name db cl = (r, db', cl')"
  shows "call_ok 1 db (cl_paths cl) [check_root 1 parent] db' cl'"
proof -
  let ?p = "check_root 1 parent"
  let ?ic = "\<lambda>x. case fst x of Some i \<Rightarrow> update_node i (\<lambda>node. node\<lparr>ne_attr := (ne_attr node)\<lparr>at_nlink := 0\<rparr>, ne_parent := None\<rparr>) (snd x) | None \<Rightarrow> snd x"
  let ?h = "adjust_cached_parent_after_namespace_mutation opts t ?p (- 1) (cl\<lparr>cl_inodes := ?ic (remove_child_but_keep_inode ?p name (cl_inodes cl))\<rparr>)"
  have c: "(case rbind (ensure_writable opts) (\<lambda>_. validate_entry_name name) of Inl e \<Rightarrow> (Inl e, db, cl)
      | Inr _ \<Rightarrow> (case rmdir now ?p name db of (Inl e, db1) \<Rightarrow> (Inl e, db1, cl) | (Inr x, db1) \<Rightarrow> (Inr (), db1, ?h))) = (r, db', cl')"
    using call by (simp add: client_rmdir_def Let_def rt split_def cong: sum.case_cong)
  show ?thesis
  proof (rule store_call_ok [OF inv ag c])
    show "ns_inv db1 \<and> emap db1 = emap db" if "rmdir now ?p name db = (Inl e, db1)" for e db1
      using run_txn_Inl that inv unfolding rmdir_def by blast
    show "call_ok 1 db (cl_paths cl) [?p] db1 ?h" if "rmdir now ?p name db = (Inr x, db1)" for x db1
    proof -
      have "rmdir now ?p name db = (Inr (), db1)" using that by simp
      then obtain i where E: "emap db1 = (emap db)((?p, name) := None)" "ns_inv db1" by (rule rmdir_effect [OF inv])
      have "cache_agrees (lookup db1) (snd (remove_child_but_keep_inode ?p name (cl_inodes cl)))"
        unfolding names_removed [OF E(1)] by (rule agrees_remove_keep [OF ag])
      then have "cache_agrees (lookup db1) (cl_inodes ?h)" by (simp add: agree split: option.split)
      moreover have "cl_paths ?h = fold (invalidate_parent_path 1) [?p] (cl_paths cl)" by (simp add: rt)
      ultimately show ?thesis using E unfolding call_ok_def by auto
    qed
  qed
qed

lemma unlink_ok:
  assumes inv: "ns_inv db" and ag: "cache_agrees (lookup db) (cl_inodes cl)" and rt: "co_root opts = 1" and cs: "\<not> co_case_insensitive opts"
    and call: "client_unlink opts enc now t parent name db cl = (r, db', cl')"
  shows "call_ok 1 db (cl_paths cl) [check_root 1 parent] db' cl'"
proof -
  let ?p = "check_root 1 parent"
  obtain target ic where l: "cached_lookup opts db ?p name (cl_inodes cl) = (target, ic)" by (cases "cached_lookup opts db ?p name (cl_inodes cl)")
  have ic: "cache_agrees (lookup db) ic" using cached_lookup_agrees(2) [OF inv ag cs, of ?p name] l by simp
  show ?thesis
  proof (cases "rbind (ensure_writable opts) (\<lambda>_. validate_entry_name name)")
    case (Inl e)
    then show ?thesis using call call_ok_quiet [OF inv refl ag refl] by (simp add: client_unlink_def)
  next
    case (Inr u)
    note call = call [unfolded client_unlink_def Inr sum.case Let_def rt l prod.case]
    show ?thesis
    proof (cases target)
      case (Inl e)
      then show ?thesis using call inodes_ok [OF inv ic] by auto
    next
      case (Inr tg)
      obtain x db1 where op: "unlink enc now ?p name db = (x, db1)" by (cases "unlink enc now ?p name db")
      show ?thesis
      proof (cases x)
        case (Inl e)
        then have "db1 = db" using op run_txn_Inl unfolding unlink_def by blast
        then show ?thesis using call Inl op \<open>target = _\<close> inodes_ok [OF inv ic] by auto
      next
        case (Inr u)
        have "unlink enc now ?p name db = (Inr (), db1)" using op Inr by simp
        then obtain i t f f' where E: "emap db1 = (emap db)((?p, name) := None)" "ns_inv db1" by (rule unlink_effect [OF inv])
        have "cache_agrees (lookup db1) (snd (remove_child ?p name ic))" unfolding names_removed [OF E(1)] by (rule agrees_remove [OF ic])
        then have "cache_agrees (lookup db1) (cl_inodes cl')" using call op Inr \<open>target = _\<close> by (auto simp: agree split: option.split)
        moreover have "cl_paths cl' = fold (invalidate_parent_path 1) [?p] (cl_paths cl)" "db' = db1" using call op Inr \<open>target = _\<close> by (auto simp: rt)
        ultimately show ?thesis using E unfolding call_ok_def by auto
      qed
    qed
  qed
qed

lemma names_renamed:
  assumes "emap db' = (emap db)((p, n) := None, (q, m) \<mapsto> (i, t))"
  shows "lookup db' = (let L = (lookup db)(p := (lookup db p)(n := None)); L = L(q := (L q)(m := None)) in L(q := (L q)(m \<mapsto> i)))"
  by (auto simp: names_emap assms fun_eq_iff Let_def)

lemma agrees_renamed:
  assumes ag: "cache_agrees (lookup db) ic" and E: "emap db' = (emap db)((p, n) := None, (q, m) \<mapsto> (ro_ino out, t))"
  shows "cache_agrees (lookup db') (rename_children db' out p n q m ic)"
proof -
  note r = agrees_remove [OF agrees_remove [OF ag, of p n], of q m]
  let ?ic = "snd (ensure_node_in_cache db' (ro_ino out) (Some q) (snd (ensure_node_in_cache db' q None (invalidate_inode (ro_ino out)
      (snd (remove_child q m (snd (remove_child p n ic))))))))"
  have "cache_agrees (lookup db') (add_child q m (ro_ino out) ?ic)"
    unfolding names_renamed [OF E] Let_def by (intro agrees_add agrees_ensure agrees_invalidate r)
  then show ?thesis by (simp add: rename_children_def Let_def agree split: option.split)
qed

lemma agrees_same_inode:
  assumes ag: "cache_agrees (lookup db) ic" and "lookup db p n = Some i" and "lookup db q m = Some i"
  shows "cache_agrees (lookup db) (rename_same_inode db i p n q m ic)"
proof -
  let ?L = "(lookup db)(p := (lookup db p)(n := None))"
  let ?M = "?L(q := (?L q)(m := None))"
  let ?N = "?M(p := (?M p)(n \<mapsto> i))"
  have "?N(q := (?N q)(m \<mapsto> i)) = lookup db" using assms(2,3) by (auto simp: fun_eq_iff)
  moreover have "cache_agrees (?N(q := (?N q)(m \<mapsto> i))) (rename_same_inode db i p n q m ic)"
    unfolding rename_same_inode_def Let_def by (intro agrees_add agrees_ensure agrees_remove agrees_invalidate ag)
  ultimately show ?thesis by simp
qed

lemma agrees_rename_parents [agree]: "cache_agrees names (cl_inodes cl) \<Longrightarrow> cache_agrees names (cl_inodes (rename_parents opts t out p q cl))"
  by (simp add: rename_parents_def Let_def agree)

lemma paths_rename_parents:
  assumes "co_root opts = 1" and "check_root 1 p = p" and "check_root 1 q = q"
  shows "cl_paths (rename_parents opts t out p q cl) = fold (invalidate_parent_path 1) (if p = q then [p] else [p, q]) (cl_paths cl)"
  using assms by (simp add: rename_parents_def Let_def)

definition both_dirs :: "int \<Rightarrow> int \<Rightarrow> int list" where
  "both_dirs p q = (let p = check_root 1 p; q = check_root 1 q in if p = q then [p] else [p, q])"

lemma rename_ok:
  assumes inv: "ns_inv db" and ag: "cache_agrees (lookup db) (cl_inodes cl)" and rt: "co_root opts = 1" and cs: "\<not> co_case_insensitive opts"
    and call: "rename_cached opts enc now t old_parent n new_parent m known attr nr db cl = (r, db', cl')"
  shows "call_ok 1 db (cl_paths cl) (both_dirs old_parent new_parent) db' cl'"
proof -
  let ?p = "check_root 1 old_parent" and ?q = "check_root 1 new_parent"
  obtain src ic1 where src: "(case known of Some _ \<Rightarrow> (Inr (), cl_inodes cl) | None \<Rightarrow> rename_source opts db ?p n (cl_inodes cl)) = (src, ic1)" by fastforce
  obtain dest ic2 where dest: "(case attr of Some a \<Rightarrow> (if at_kind a \<noteq> FtDir then Inl (NotDirectory ?q) else Inr (), ic1)
      | None \<Rightarrow> ensure_directory_exists opts db ?q ic1) = (dest, ic2)" by fastforce
  have ic1: "cache_agrees (lookup db) ic1" using src ag agrees_source [OF inv ag cs, of ?p n] by (auto split: option.splits)
  have ic2: "cache_agrees (lookup db) ic2" using dest ic1 agrees_directory [OF ic1, of opts db ?q] by (auto split: option.splits)
  obtain x db1 where op: "rename_with_mode enc now ?p n ?q m nr db = (x, db1)" by fastforce
  note c = call [unfolded rename_cached_def rt Let_def src dest op prod.case]
  have none: "\<And>e. x = Inl e \<Longrightarrow> db1 = db" using op run_txn_Inl unfolding rename_with_mode_def by blast
  consider (same) "cl' = cl" "db' = db" | (looked) "cl' = cl\<lparr>cl_inodes := ic1\<rparr>" "db' = db" | (checked) "cl' = cl\<lparr>cl_inodes := ic2\<rparr>" "db' = db"
    | (linked) out where "x = Inr out" "db' = db1" "\<not> ro_renamed out" "cl' = cl\<lparr>cl_inodes := rename_same_inode db1 (ro_ino out) ?p n ?q m ic2\<rparr>"
    | (renamed) out where "x = Inr out" "db' = db1" "ro_renamed out" "cl' = rename_parents opts t out ?p ?q (cl\<lparr>cl_inodes := rename_children db1 out ?p n ?q m ic2\<rparr>)"
    using c none by (auto split: sum.splits if_splits)
  then show ?thesis
  proof cases
    case same
    then show ?thesis using call_ok_quiet [OF inv refl ag refl] by simp
  next
    case linked
    note R = rename_effect(2) [OF inv op [unfolded linked(1)]]
    have l: "db1 = db" "lookup db ?p n = Some (ro_ino out)" "lookup db ?q m = Some (ro_ino out)" using R linked(3) by (auto simp: lookup_emap)
    show ?thesis using inodes_ok [OF inv agrees_same_inode [OF ic2 l(2,3)]] linked(2,4) l(1) by simp
  next
    case renamed
    note R = rename_effect [OF inv op [unfolded renamed(1)]]
    obtain ty where E: "emap db1 = (emap db)((?p, n) := None, (?q, m) \<mapsto> (ro_ino out, ty))" using R(2) renamed(3) by auto
    have "cache_agrees (lookup db1) (cl_inodes cl')" using agrees_renamed [OF ic2 E] renamed(4) by (simp add: agree)
    moreover have "cl_paths cl' = fold (invalidate_parent_path 1) (both_dirs old_parent new_parent) (cl_paths cl)"
      using renamed(4) paths_rename_parents [OF rt] by (simp add: both_dirs_def Let_def)
    moreover have "\<forall>k v. emap db k = Some v \<longrightarrow> fst k \<notin> set (both_dirs old_parent new_parent) \<longrightarrow> emap db1 k = Some v"
      by (auto simp: E both_dirs_def Let_def split: if_splits)
    ultimately show ?thesis using R(1) renamed(2) unfolding call_ok_def by blast
  qed (use inodes_ok [OF inv ic1] inodes_ok [OF inv ic2] in simp_all)
qed

lemma agrees_fold_invalidate [agree]: "cache_agrees names ic \<Longrightarrow> cache_agrees names (fold invalidate_inode is ic)"
  by (induction "is" arbitrary: ic) (simp_all add: agree)

lemma agrees_dropped:
  assumes "cache_agrees names ic" and "\<And>d. d \<notin> D \<Longrightarrow> names' d = names d" and "\<And>d. d \<in> D \<Longrightarrow> ic' d = None" and "\<And>d. ic' d = ic d \<or> ic' d = None"
  shows "cache_agrees names' ic'"
  using assms unfolding cache_agrees_def by (metis option.distinct(1))

lemma exchange_done:
  assumes inv: "ns_inv db" and ag: "cache_agrees (lookup db) ic" and op: "rename_exchange now p n q m db = (Inr (), db')"
    and p: "p = check_root 1 old_parent" "q = check_root 1 new_parent"
    and cl': "cl' = (if p \<noteq> q then cl\<lparr>cl_inodes := invalidate_inode q (invalidate_inode p (fold invalidate_inode is ic)),
        cl_paths := invalidate_parent_path 1 q (invalidate_parent_path 1 p (cl_paths cl))\<rparr>
      else cl\<lparr>cl_inodes := invalidate_inode p (fold invalidate_inode is ic), cl_paths := invalidate_parent_path 1 p (cl_paths cl)\<rparr>)"
  shows "call_ok 1 db (cl_paths cl) (both_dirs old_parent new_parent) db' cl'"
proof -
  have E: "emap db' k = emap db k" if "fst k \<noteq> p" "fst k \<noteq> q" for k
    using exchange_effect(2) [OF inv op] that by (cases "db' = db") (auto simp: swapped_def)
  have "cache_agrees (lookup db) (fold invalidate_inode is ic)" using ag by (simp add: agree)
  then have "cache_agrees (lookup db') (cl_inodes cl')"
    by (rule agrees_dropped [where D = "{p, q}"]) (auto simp: names_emap E cl' invalidate_inode_def)
  moreover have "cl_paths cl' = fold (invalidate_parent_path 1) (both_dirs old_parent new_parent) (cl_paths cl)"
    by (simp add: cl' both_dirs_def p [symmetric])
  moreover have "\<forall>k v. emap db k = Some v \<longrightarrow> fst k \<notin> set (both_dirs old_parent new_parent) \<longrightarrow> emap db' k = Some v"
    using E by (auto simp: both_dirs_def p [symmetric] split: if_splits)
  ultimately show ?thesis using exchange_effect(1) [OF inv op] unfolding call_ok_def by blast
qed

lemma exchange_ok:
  assumes inv: "ns_inv db" and ag: "cache_agrees (lookup db) (cl_inodes cl)" and rt: "co_root opts = 1" and cs: "\<not> co_case_insensitive opts"
    and call: "client_rename_exchange opts now old_parent n new_parent m db cl = (r, db', cl')"
  shows "call_ok 1 db (cl_paths cl) (both_dirs old_parent new_parent) db' cl'"
proof -
  let ?p = "check_root 1 old_parent" and ?q = "check_root 1 new_parent"
  obtain a ic1 where a: "cached_lookup_required opts db ?p n (cl_inodes cl) = (a, ic1)" by fastforce
  obtain b ic2 where b: "cached_lookup_required opts db ?q m ic1 = (b, ic2)" by fastforce
  have ic1: "cache_agrees (lookup db) ic1" using agrees_required [OF inv ag cs, of ?p n] a by simp
  have ic2: "cache_agrees (lookup db) ic2" using agrees_required [OF inv ic1 cs, of ?q m] b by simp
  obtain x db1 where op: "rename_exchange now ?p n ?q m db = (x, db1)" by fastforce
  note c = call [unfolded client_rename_exchange_def rt Let_def a b op prod.case]
  have none: "\<And>e. x = Inl e \<Longrightarrow> db1 = db" using op run_txn_Inl by (auto simp: rename_exchange_def split: if_splits)
  show ?thesis
  proof (cases "ensure_writable opts = Inr () \<and> \<not> (?p = ?q \<and> n = m)")
    case False
    then have "cl' = cl \<and> db' = db" using c by (cases "ensure_writable opts") auto
    then show ?thesis using call_ok_quiet [OF inv refl ag refl] by simp
  next
    case True
    note c = c [unfolded conjunct1 [OF True] sum.case if_not_P [OF conjunct2 [OF True]]]
    show ?thesis
    proof (cases a)
      case (Inl e)
      then show ?thesis using c inodes_ok [OF inv ic1] by auto
    next
      case (Inr i)
      note c = c [unfolded Inr sum.case]
      show ?thesis
      proof (cases b)
        case (Inl e)
        then show ?thesis using c inodes_ok [OF inv ic2] by auto
      next
        case (Inr j)
        note c = c [unfolded Inr sum.case]
        show ?thesis
        proof (cases x)
          case (Inl e)
          then show ?thesis using c none inodes_ok [OF inv ic2] by auto
        next
          case (Inr u)
          note c = c [unfolded Inr sum.case]
          note e = c [unfolded prod.inject]
          have "rename_exchange now ?p n ?q m db = (Inr (), db')" using op Inr conjunct1 [OF conjunct2 [OF e]] by simp
          from exchange_done [OF inv ic2 this refl refl conjunct2 [OF conjunct2 [OF e], symmetric]] show ?thesis .
        qed
      qed
    qed
  qed
qed

section \<open>Listings\<close>

lemma map_of_names:
  assumes "distinct (map fst es)" and "\<And>n i. (n, i) \<in> set es \<longleftrightarrow> f n = Some i"
  shows "map_of es = f"
proof
  fix n
  show "map_of es n = f n"
  proof (cases "f n")
    case (Some i)
    then show ?thesis using assms by (simp add: map_of_is_SomeI)
  next
    case None
    then have "\<nexists>i. (n, i) \<in> set es" using assms(2) by simp
    then show ?thesis using None by (metis map_of_SomeD not_Some_eq)
  qed
qed

lemma readdir_names:
  assumes inv: "ns_inv db" and "readdir db d = Inr es" and "es' = sort_key de_name es"
  shows "distinct (map fst (map (\<lambda>e. (de_name e, de_ino e)) es'))" and "map_of (map (\<lambda>e. (de_name e, de_ino e)) es') = lookup db d"
proof -
  note es = readdir_rows(1) [OF assms(2)]
  have "distinct (map ct_name (sort_key ct_name (children_of db d)))"
    using inv_children(1) [OF inv, of d] by (simp add: distinct_map)
  then have "distinct (map de_name es)" by (simp add: es comp_def)
  then have d: "distinct (map de_name es')" unfolding assms(3) by (simp add: distinct_map)
  then show D: "distinct (map fst (map (\<lambda>e. (de_name e, de_ino e)) es'))" by (simp add: comp_def)
  have "(n, i) \<in> set (map (\<lambda>e. (de_name e, de_ino e)) es') \<longleftrightarrow> (\<exists>e\<in>set (children_of db d). ct_name e = n \<and> ct_inode e = i)" for n i
    by (auto simp: assms(3) es image_iff)
  also have "(\<exists>e\<in>set (children_of db d). ct_name e = n \<and> ct_inode e = i) \<longleftrightarrow> lookup db d n = Some i" for n i
    using inv_children(2) [OF inv, of d n] by (auto simp: lookup_def)
  finally show "map_of (map (\<lambda>e. (de_name e, de_ino e)) es') = lookup db d" by (rule map_of_names [OF D])
qed

lemma those_names:
  "those (map (\<lambda>(n, i). map_option (\<lambda>c. \<lparr>de_name = n, de_ino = i, de_kind = at_kind (ne_attr c)\<rparr>) (ic i)) m) = Some es
   \<Longrightarrow> map (\<lambda>e. (de_name e, de_ino e)) es = m"
  by (induction m arbitrary: es) (auto split: option.splits prod.splits)

lemma readdir_agrees:
  assumes inv: "ns_inv db" and ag: "cache_agrees (lookup db) ic"
  shows "cache_agrees (lookup db) (snd (client_readdir opts ino db ic))"
    and "fst (client_readdir opts ino db ic) = Inr es \<Longrightarrow> map_of (map (\<lambda>e. (de_name e, de_ino e)) es) = lookup db (check_root (co_root opts) ino)"
proof -
  let ?d = "check_root (co_root opts) ino"
  have hit: "map_of (map (\<lambda>e. (de_name e, de_ino e)) es) = lookup db ?d" if h: "ic_readdir ?d ic = Some es" for es
  proof -
    obtain node m where n: "ic ?d = Some node" "ne_children node = Complete m"
      "those (map (\<lambda>(n, i). map_option (\<lambda>c. \<lparr>de_name = n, de_ino = i, de_kind = at_kind (ne_attr c)\<rparr>) (ic i)) m) = Some es"
      using h by (cases "ic ?d"; cases "ne_children (the (ic ?d))") (auto simp: ic_readdir_def)
    then show ?thesis using agreesD [OF ag n(1)] those_names [OF n(3)] by (simp add: bt_get_def fun_eq_iff)
  qed
  have b: "cache_agrees (lookup db) (snd (readdir_begin db ?d ic))" using ag by (simp add: readdir_begin_def Let_def agree)
  have e: "cache_agrees (lookup db) (readdir_end db ?d g (sort_key de_name es) (snd (readdir_begin db ?d ic)))" if "readdir db ?d = Inr es" for g es
    unfolding readdir_end_def using readdir_names [OF inv that refl] b by (intro agrees_load agrees_ensure)
  show "cache_agrees (lookup db) (snd (client_readdir opts ino db ic))"
    using ag b e by (simp add: client_readdir_def Let_def split_def split: option.split sum.split)
  show "map_of (map (\<lambda>e. (de_name e, de_ino e)) es) = lookup db ?d" if "fst (client_readdir opts ino db ic) = Inr es"
    using that hit readdir_names(2) [OF inv _ refl, of ?d] by (auto simp: client_readdir_def Let_def split_def split: option.splits sum.splits)
qed

lemma agrees_stat_fresh [agree]: "cache_agrees names ic \<Longrightarrow> cache_agrees names (snd (stat_fresh opts ino db ic))"
  using agrees_fresh_stat [of names ic] by (simp add: stat_fresh_def Let_def split_def agree split: option.split)

section \<open>Walking a path\<close>

fun name_walk :: "(int \<Rightarrow> string \<Rightarrow> int option) \<Rightarrow> int \<Rightarrow> string list \<Rightarrow> int option" where
  "name_walk names cur [] = Some cur"
| "name_walk names cur (s # ss) = (case names cur s of None \<Rightarrow> None | Some i \<Rightarrow> name_walk names i ss)"

lemma entry_positive:
  assumes inv: "ns_inv db" and "lookup db p n = Some i"
  shows "0 < i" and "i \<noteq> 1"
proof -
  obtain t where e: "emap db (p, n) = Some (i, t)" using assms(2) by (auto simp: lookup_emap)
  note entry = ns_okD(4) [OF ns_invD(2) [OF inv] e]
  obtain c where "counters (store_db db) INODE_ID_KEY = Some c" "inodes_below db (sint c)" using ns_invD(3) [OF inv] by blast
  then show "0 < i" using entry by (auto simp: entry_ok_def inodes_below_def split: if_splits)
  show "i \<noteq> 1" using entry by (simp add: entry_ok_def ROOT_INO_def)
qed

lemma name_walk_parts:
  assumes inv: "ns_inv db"
  shows "cur \<in> dirs db \<Longrightarrow> name_walk (lookup db) cur cs = Some i \<Longrightarrow> map_option fst (lookup_parts db cur cs) = Some i"
proof (induction cs arbitrary: cur)
  case (Cons c cs)
  obtain j where j: "lookup db cur c = Some j" "name_walk (lookup db) j cs = Some i" using Cons.prems(2) by (auto split: option.splits)
  obtain t where e: "emap db (cur, c) = Some (j, t)" using j(1) by (auto simp: lookup_emap)
  note ok = ns_invD(2) [OF inv]
  note entry = ns_okD(4) [OF ok e]
  show ?case
  proof (cases "t = EtDirectory")
    case True
    then show ?thesis using Cons.IH [of j] j(2) entry e by (simp add: lookup_parts_emap entry_ok_def del: lookup_parts.simps(2))
  next
    case False
    then have "j \<notin> dirs db" using entry ns_okD(2) [OF ok] by (auto simp: entry_ok_def)
    then have "cs = []" using j(2) no_children [OF inv] by (cases cs) auto
    then show ?thesis using False j(2) e by (cases t) (simp_all add: lookup_parts_emap del: lookup_parts.simps(2))
  qed
qed simp

lemma walk_agrees:
  assumes inv: "ns_inv db" and cs: "\<not> co_case_insensitive opts" and rt: "co_root opts = 1"
  shows "walk_segments opts db follow cur segs ic = Some (r, ic') \<Longrightarrow> cache_agrees (lookup db) ic \<Longrightarrow> 0 < cur
    \<Longrightarrow> cache_agrees (lookup db) ic' \<and> (\<forall>i. r = Inr (Inl i) \<longrightarrow> name_walk (lookup db) cur segs = Some i)"
proof (induction segs arbitrary: cur ic)
  case (Cons s ss)
  obtain attr ic1 where c1: "cached_stat opts db cur ic = (attr, ic1)" by fastforce
  obtain l ic2 where c2: "cached_lookup opts db cur s ic1 = (l, ic2)" by fastforce
  have a1: "cache_agrees (lookup db) ic1" using agrees_cached_stat [OF Cons.prems(2), of opts db cur] c1 by simp
  have a2: "cache_agrees (lookup db) ic2" using cached_lookup_agrees(2) [OF inv a1 cs, of cur s] c2 by simp
  have "rbind (validate_entry_name s) (\<lambda>_. Inr (lookup db cur s)) = l"
    using cached_lookup_agrees(1) [OF inv a1 cs, of cur s] c2 Cons.prems(3) by (simp add: rt check_root_def split: if_splits)
  then have l: "l = Inr (Some i) \<Longrightarrow> lookup db cur s = Some i" for i by (auto simp: result_simps)
  note W = Cons.prems(1) [unfolded walk_segments.simps c1 c2 prod.case]
  show ?case
  proof (cases "\<exists>child. l = Inr (Some child) \<and> \<not> (case attr of Some a \<Rightarrow> at_kind a \<noteq> FtDir | None \<Rightarrow> False)")
    case False
    then have "ic' = ic1 \<or> ic' = ic2" and "\<forall>i. r \<noteq> Inr (Inl i)" using W by (auto split: if_splits sum.splits option.splits)
    then show ?thesis using a1 a2 by blast
  next
    case True
    then obtain child where child: "l = Inr (Some child)" and dir: "\<not> (case attr of Some a \<Rightarrow> at_kind a \<noteq> FtDir | None \<Rightarrow> False)" by blast
    obtain attr' ic3 where c3: "(if ss \<noteq> [] \<or> follow then cached_stat opts db child ic2 else (None, ic2)) = (attr', ic3)" by fastforce
    have a3: "cache_agrees (lookup db) ic3" using agrees_cached_stat [OF a2, of opts db child] a2 c3 by (auto split: if_splits)
    note W = W [unfolded if_not_P [OF dir] child sum.case option.case c3 prod.case]
    show ?thesis
    proof (cases "case attr' of Some a \<Rightarrow> at_kind a = FtSymlink | None \<Rightarrow> False")
      case True
      then obtain z where "r = map_sum id Inr z" "ic' = ic3" using W by auto
      then show ?thesis using a3 by (cases z) auto
    next
      case False
      then show ?thesis using W Cons.IH [OF _ a3 entry_positive(1) [OF inv l [OF child]]] l [OF child] by simp
    qed
  qed
qed auto

lemma passes_agree:
  assumes inv: "ns_inv db" and cs: "\<not> co_case_insensitive opts" and rt: "co_root opts = 1"
  shows "resolve_passes opts db follow n path ic = Some (r, ic') \<Longrightarrow> cache_agrees (lookup db) ic \<Longrightarrow> cache_agrees (lookup db) ic'"
proof (induction n arbitrary: path ic)
  case (Suc n)
  obtain w ic1 where w: "walk_segments opts db follow 1 (split_path path) ic = Some (w, ic1)" using Suc.prems(1) by (auto simp: rt split: option.splits)
  have a: "cache_agrees (lookup db) ic1" using walk_agrees [OF inv cs rt w Suc.prems(2)] by simp
  show ?case using Suc.prems(1) w a Suc.IH [OF _ a] by (auto simp: rt split: sum.splits)
qed simp

section \<open>Runs of a client\<close>

datatype client_call =
    CMkdir int int int string
  | CRmdir int int int string
  | CCreateFile int int int string
  | CCreateNode int int string file_type u32 u32 u32 u32
  | CLink int int int int string
  | CSymlink int int int string string
  | CUnlink int int int string
  | CRename int int int string int string "(int \<times> file_attr) option" "file_attr option" bool
  | CExchange int int string int string
  | CReaddir int
  | CLookup int string
  | CStat int
  | CStatFresh int

fun run_call :: "client_options \<Rightarrow> trash_encoder \<Rightarrow> client_call \<Rightarrow> meta_db \<Rightarrow> meta_client \<Rightarrow> meta_db \<times> meta_client" where
  "run_call opts enc (CMkdir now t p n) db cl = snd (client_mkdir opts now t p n db cl)"
| "run_call opts enc (CRmdir now t p n) db cl = snd (client_rmdir opts now t p n db cl)"
| "run_call opts enc (CCreateFile now t p n) db cl = snd (client_create_file opts now t p n db cl)"
| "run_call opts enc (CCreateNode now p n kind mode uid gid rdev) db cl = snd (client_create_node opts now p n kind mode uid gid rdev db cl)"
| "run_call opts enc (CLink now t i p n) db cl = snd (client_link opts now t i p n db cl)"
| "run_call opts enc (CSymlink now t p n target) db cl = snd (client_symlink opts now t p n target db cl)"
| "run_call opts enc (CUnlink now t p n) db cl = snd (client_unlink opts enc now t p n db cl)"
| "run_call opts enc (CRename now t p n q m known attr nr) db cl = snd (rename_cached opts enc now t p n q m known attr nr db cl)"
| "run_call opts enc (CExchange now p n q m) db cl = snd (client_rename_exchange opts now p n q m db cl)"
| "run_call opts enc (CReaddir i) db cl = (db, cl\<lparr>cl_inodes := snd (client_readdir opts i db (cl_inodes cl))\<rparr>)"
| "run_call opts enc (CLookup p n) db cl = (db, cl\<lparr>cl_inodes := snd (cached_lookup opts db p n (cl_inodes cl))\<rparr>)"
| "run_call opts enc (CStat i) db cl = (db, cl\<lparr>cl_inodes := snd (cached_stat opts db i (cl_inodes cl))\<rparr>)"
| "run_call opts enc (CStatFresh i) db cl = (db, cl\<lparr>cl_inodes := snd (stat_fresh opts i db (cl_inodes cl))\<rparr>)"

text \<open>The directories in which a call takes a name away or changes what it leads to.\<close>

fun changed_dirs :: "client_call \<Rightarrow> int list" where
  "changed_dirs (CRmdir now t p n) = [check_root 1 p]"
| "changed_dirs (CUnlink now t p n) = [check_root 1 p]"
| "changed_dirs (CRename now t p n q m known attr nr) = both_dirs p q"
| "changed_dirs (CExchange now p n q m) = both_dirs p q"
| "changed_dirs _ = []"

text \<open>Link counts are 32 bits wide.\<close>

fun call_room :: "client_call \<Rightarrow> meta_db \<Rightarrow> bool" where
  "call_room (CLink now t i p n) db \<longleftrightarrow> int (length (content_rows db)) < i32_max"
| "call_room _ db \<longleftrightarrow> True"

lemma run_call_ok:
  assumes inv: "ns_inv db" and ag: "cache_agrees (lookup db) (cl_inodes cl)" and cs: "\<not> co_case_insensitive opts" and rt: "co_root opts = 1"
    and room: "call_room c db" and call: "run_call opts enc c db cl = (db', cl')"
  shows "call_ok 1 db (cl_paths cl) (changed_dirs c) db' cl'"
proof (cases c)
  case (CMkdir now t p n)
  then show ?thesis using mkdir_ok [OF inv ag, of opts now t p n _ db' cl'] call by (cases "client_mkdir opts now t p n db cl") (simp add: rt)
next
  case (CRmdir now t p n)
  then show ?thesis using rmdir_ok [OF inv ag rt, of now t p n _ db' cl'] call by (cases "client_rmdir opts now t p n db cl") simp
next
  case (CCreateFile now t p n)
  then show ?thesis using create_file_ok [OF inv ag, of opts now t p n _ db' cl'] call by (cases "client_create_file opts now t p n db cl") (simp add: rt)
next
  case (CCreateNode now p n kind mode uid gid rdev)
  then show ?thesis using create_node_ok [OF inv ag, of opts now p n kind mode uid gid rdev _ db' cl'] call
    by (cases "client_create_node opts now p n kind mode uid gid rdev db cl") (simp add: rt)
next
  case (CLink now t i p n)
  then show ?thesis using link_ok [OF inv ag, of opts now t i p n _ db' cl'] call room by (cases "client_link opts now t i p n db cl") (simp add: rt)
next
  case (CSymlink now t p n target)
  then show ?thesis using symlink_ok [OF inv ag, of opts now t p n target _ db' cl'] call by (cases "client_symlink opts now t p n target db cl") (simp add: rt)
next
  case (CUnlink now t p n)
  then show ?thesis using unlink_ok [OF inv ag rt cs, of enc now t p n _ db' cl'] call by (cases "client_unlink opts enc now t p n db cl") simp
next
  case (CRename now t p n q m known attr nr)
  then show ?thesis using rename_ok [OF inv ag rt cs, of enc now t p n q m known attr nr _ db' cl'] call
    by (cases "rename_cached opts enc now t p n q m known attr nr db cl") simp
next
  case (CExchange now p n q m)
  then show ?thesis using exchange_ok [OF inv ag rt cs, of now p n q m _ db' cl'] call by (cases "client_rename_exchange opts now p n q m db cl") simp
qed (use call inodes_ok [OF inv] readdir_agrees(1) [OF inv ag] cached_lookup_agrees(2) [OF inv ag cs] ag in \<open>auto simp: agree\<close>)

text \<open>
  The reverse table does not know the directory, or knows it by its path. Otherwise invalidating the directory misses
  the paths below it.
\<close>

definition knows :: "meta_db \<Rightarrow> int \<Rightarrow> path_index \<Rightarrow> bool" where
  "knows db d st \<longleftrightarrow> (\<forall>P. lookup_parts db 1 P = Some (d, FtDir) \<longrightarrow> listed (check_root 1 d) P st)"

fun knows_all :: "meta_db \<Rightarrow> int list \<Rightarrow> path_index \<Rightarrow> bool" where
  "knows_all db [] st \<longleftrightarrow> True"
| "knows_all db (d # ds) st \<longleftrightarrow> knows db d st \<and> knows_all db ds (invalidate_parent_path 1 d st)"

lemma knows_all_out:
  assumes "indexed st" and "knows_all db ds st" and "path_cache (fold (invalidate_parent_path 1) ds st) p = Some i"
  shows "path_cache st p = Some i" and "\<And>d P. d \<in> set ds \<Longrightarrow> lookup_parts db 1 P = Some (d, FtDir) \<Longrightarrow> \<not> prefix P (split_path p)"
proof -
  have "path_cache st p = Some i \<and> (\<forall>d\<in>set ds. \<forall>P. lookup_parts db 1 P = Some (d, FtDir) \<longrightarrow> \<not> prefix P (split_path p))"
    using assms
  proof (induction ds arbitrary: st)
    case (Cons d ds)
    note I = invalidate_parent [OF Cons.prems(1), of 1 d]
    from Cons.prems(2,3) have k: "knows db d st" "knows_all db ds (invalidate_parent_path 1 d st)"
      "path_cache (fold (invalidate_parent_path 1) ds (invalidate_parent_path 1 d st)) p = Some i" by simp_all
    note IH = Cons.IH [OF I(1) k(2,3)]
    have "\<not> prefix P (split_path p)" if "lookup_parts db 1 P = Some (d, FtDir)" for P
      using I(2) [OF conjunct1 [OF IH], of P] k(1) that by (simp add: knows_def)
    then show ?case using IH I(2) [OF conjunct1 [OF IH]] by auto
  qed simp
  then show "path_cache st p = Some i" "\<And>d P. d \<in> set ds \<Longrightarrow> lookup_parts db 1 P = Some (d, FtDir) \<Longrightarrow> \<not> prefix P (split_path p)" by blast+
qed

text \<open>The paths that were cached under a name that a symbolic link led away from.\<close>

definition linked_paths :: "client_options \<Rightarrow> meta_db \<Rightarrow> string \<Rightarrow> bool \<Rightarrow> meta_client \<Rightarrow> string set \<Rightarrow> string set" where
  "linked_paths opts db p follow cl S =
     (if p = ''/'' then S
      else case path_hit opts db p follow cl of
             (Some ino, ic) \<Rightarrow> S
           | (None, ic) \<Rightarrow> (case resolve_passes opts db follow (co_max_symlinks opts) p ic of
                 Some (Inr ino, _) \<Rightarrow> (case walk_segments opts db follow (co_root opts) (split_path p) ic of
                     Some (Inr (Inl i), _) \<Rightarrow> S - {p} | _ \<Rightarrow> insert p S)
               | _ \<Rightarrow> S))"

text \<open>
  A client alone on a store. The set collects suspect paths: those cached through a symbolic link, and those cached while
  names were taken away in a directory that the reverse table knew by other paths only.
\<close>

inductive client_run :: "client_options \<Rightarrow> trash_encoder \<Rightarrow> meta_db \<Rightarrow> meta_client \<Rightarrow> string set \<Rightarrow> bool" for opts enc where
  cr_open: "ns_reachable enc db \<Longrightarrow> client_run opts enc db client_new {}"
| cr_call: "client_run opts enc db cl S \<Longrightarrow> call_room c db \<Longrightarrow> run_call opts enc c db cl = (db', cl') \<Longrightarrow>
    client_run opts enc db' cl' (if knows_all db (changed_dirs c) (cl_paths cl) then S else S \<union> dom (path_cache (cl_paths cl)))"
| cr_resolve: "client_run opts enc db cl S \<Longrightarrow> p = fs_normalize_path q \<Longrightarrow> resolve_path_impl opts db p follow cl = Some (r, cl') \<Longrightarrow>
    client_run opts enc db cl' (linked_paths opts db p follow cl S)"
| cr_attrs: "client_run opts enc db cl S \<Longrightarrow> attr_step db db' \<Longrightarrow> client_run opts enc db' cl S"
| cr_evict_path: "client_run opts enc db cl S \<Longrightarrow> client_run opts enc db (cl\<lparr>cl_paths := (cl_paths cl)\<lparr>path_cache := (path_cache (cl_paths cl))(p := None)\<rparr>\<rparr>) S"
| cr_evict_inode: "client_run opts enc db cl S \<Longrightarrow> client_run opts enc db (cl\<lparr>cl_inodes := invalidate_inode i (cl_inodes cl)\<rparr>) S"
| cr_event: "client_run opts enc db cl S \<Longrightarrow>
    client_run opts enc db \<lparr>cl_inodes = invalidate_inode i (cl_inodes cl), cl_paths = invalidate_inode_paths i (cl_paths cl)\<rparr> S"
| cr_event_parent: "client_run opts enc db cl S \<Longrightarrow> client_run opts enc db (cl\<lparr>cl_paths := invalidate_parent_path 1 d (cl_paths cl)\<rparr>) S"

definition run_inv :: "meta_db \<Rightarrow> meta_client \<Rightarrow> string set \<Rightarrow> bool" where
  "run_inv db cl S \<longleftrightarrow> ns_inv db \<and> cache_agrees (lookup db) (cl_inodes cl) \<and> indexed (cl_paths cl)
     \<and> (\<forall>p i. path_cache (cl_paths cl) p = Some i \<longrightarrow> p \<notin> S \<longrightarrow> map_option fst (lookup_parts db 1 (split_path p)) = Some i)"

lemma run_invI:
  assumes "ns_inv db" and "cache_agrees (lookup db) (cl_inodes cl)" and "indexed (cl_paths cl)"
    and "\<And>p i. path_cache (cl_paths cl) p = Some i \<Longrightarrow> p \<notin> S \<Longrightarrow> map_option fst (lookup_parts db 1 (split_path p)) = Some i"
  shows "run_inv db cl S"
  using assms by (simp add: run_inv_def)

lemma run_invD:
  assumes "run_inv db cl S"
  shows "ns_inv db" and "cache_agrees (lookup db) (cl_inodes cl)" and "indexed (cl_paths cl)"
    and "\<And>p i. path_cache (cl_paths cl) p = Some i \<Longrightarrow> p \<notin> S \<Longrightarrow> map_option fst (lookup_parts db 1 (split_path p)) = Some i"
  using assms by (simp_all add: run_inv_def)

lemma run_inv_fewer:
  assumes "run_inv db cl S" and "cache_agrees (lookup db) (cl_inodes cl')" and "indexed (cl_paths cl')"
    and "\<And>p i. path_cache (cl_paths cl') p = Some i \<Longrightarrow> path_cache (cl_paths cl) p = Some i"
  shows "run_inv db cl' S"
  using run_invD(1,4) [OF assms(1)] assms(2-4) by (intro run_invI) blast+

lemma run_inv_call:
  assumes R: "run_inv db cl S" and ok: "call_ok 1 db (cl_paths cl) D db' cl'"
  shows "run_inv db' cl' (if knows_all db D (cl_paths cl) then S else S \<union> dom (path_cache (cl_paths cl)))"
proof -
  note I = run_invD [OF R]
  let ?S = "if knows_all db D (cl_paths cl) then S else S \<union> dom (path_cache (cl_paths cl))"
  from ok have inv: "ns_inv db'" "cache_agrees (lookup db') (cl_inodes cl')"
    and ch: "(\<forall>k v. emap db k = Some v \<longrightarrow> emap db' k = Some v) \<and> (\<exists>ds. cl_paths cl' = fold (invalidate_parent_path 1) ds (cl_paths cl))
      \<or> (\<forall>k v. emap db k = Some v \<longrightarrow> fst k \<notin> set D \<longrightarrow> emap db' k = Some v) \<and> cl_paths cl' = fold (invalidate_parent_path 1) D (cl_paths cl)"
    by (simp_all add: call_ok_def)
  obtain ds where ds: "cl_paths cl' = fold (invalidate_parent_path 1) ds (cl_paths cl)" using ch by blast
  note P = invalidate_parents [OF I(3), of 1 ds, folded ds]
  show ?thesis
  proof (rule run_invI [OF inv P(1)])
    fix p i assume p: "path_cache (cl_paths cl') p = Some i" "p \<notin> ?S"
    have old: "path_cache (cl_paths cl) p = Some i" "p \<notin> S" and k: "knows_all db D (cl_paths cl)" using P(2) [OF p(1)] p(2) by (auto split: if_splits)
    obtain k where w: "lookup_parts db 1 (split_path p) = Some (i, k)" using I(4) [OF old] by auto
    have "lookup_parts db' 1 (split_path p) = Some (i, k)"
    proof (cases "\<forall>k v. emap db k = Some v \<longrightarrow> emap db' k = Some v")
      case True
      show ?thesis by (rule unchanged_walk [of _ "{}", OF _ w]) (use True in auto)
    next
      case False
      then have D: "\<forall>k v. emap db k = Some v \<longrightarrow> fst k \<notin> set D \<longrightarrow> emap db' k = Some v" "cl_paths cl' = fold (invalidate_parent_path 1) D (cl_paths cl)"
        using ch by blast+
      note out = knows_all_out(2) [OF I(3) \<open>knows_all db D (cl_paths cl)\<close> p(1) [unfolded D(2)]]
      show ?thesis by (rule unchanged_walk [of _ "set D", OF _ w]) (use D(1) out take_is_prefix in blast)+
    qed
    then show "map_option fst (lookup_parts db' 1 (split_path p)) = Some i" by simp
  qed
qed

lemma normalized:
  assumes "p = fs_normalize_path q" and "p \<noteq> ''/''"
  shows "canonical p" and "split_path p \<noteq> []"
proof -
  have parts: "filter (\<lambda>s. s \<noteq> []) (split_slash q) = split_path q" by (simp add: split_path_alt)
  have p: "p = join_slash (split_path q)" "split_path q \<noteq> []" using assms by (auto simp: fs_normalize_path_def parts Let_def split: if_splits)
  have "split_path p = split_path q" using split_path_join [of "split_path q" "[]"] split_path_names [of _ q] p(1) by (simp add: split_path_def)
  then show "canonical p" "split_path p \<noteq> []" using p by (simp_all add: canonical_def)
qed

lemma agrees_path_hit: "cache_agrees names (cl_inodes cl) \<Longrightarrow> cache_agrees names (snd (path_hit opts db p follow cl))"
  using agrees_cached_stat [of names "cl_inodes cl" opts db] by (simp add: path_hit_def split_def split: option.split)

lemma resolved_directly:
  assumes inv: "ns_inv db" and cs: "\<not> co_case_insensitive opts" and rt: "co_root opts = 1" and ag: "cache_agrees (lookup db) ic"
    and "resolve_passes opts db follow n p ic = Some (Inr i, ic')" and "walk_segments opts db follow 1 (split_path p) ic = Some (Inr (Inl j), ic1)"
  shows "map_option fst (lookup_parts db 1 (split_path p)) = Some i"
proof -
  have "j = i" using assms(5,6) by (cases n) (simp_all add: rt)
  moreover have "name_walk (lookup db) 1 (split_path p) = Some j" using walk_agrees [OF inv cs rt assms(6) ag] by simp
  moreover have "1 \<in> dirs db" using ns_okD(1) [OF ns_invD(2) [OF inv]] by (simp add: ROOT_INO_def)
  ultimately show ?thesis using name_walk_parts [OF inv] by simp
qed

lemma run_inv_resolve:
  assumes R: "run_inv db cl S" and cs: "\<not> co_case_insensitive opts" and rt: "co_root opts = 1" and p: "p = fs_normalize_path q"
    and res: "resolve_path_impl opts db p follow cl = Some (r, cl')"
  shows "run_inv db cl' (linked_paths opts db p follow cl S)"
proof (cases "p = ''/''")
  case True
  then show ?thesis using R res by (simp add: resolve_path_impl_def linked_paths_def)
next
  case False
  note I = run_invD [OF R]
  obtain hit ic where h: "path_hit opts db p follow cl = (hit, ic)" by fastforce
  have ic: "cache_agrees (lookup db) ic" using agrees_path_hit [OF I(2), of opts db p follow] h by simp
  show ?thesis
  proof (cases hit)
    case (Some i)
    then have "cl' = cl\<lparr>cl_inodes := ic\<rparr>" "linked_paths opts db p follow cl S = S" using False h res by (simp_all add: resolve_path_impl_def linked_paths_def)
    then show ?thesis using run_inv_fewer [OF R, of cl'] ic I(3) by simp
  next
    case None
    obtain x ic2 where x: "resolve_passes opts db follow (co_max_symlinks opts) p ic = Some (x, ic2)" using False h None res
      by (auto simp: resolve_path_impl_def split: option.splits)
    have ic2: "cache_agrees (lookup db) ic2" using passes_agree [OF I(1) cs rt x ic] .
    show ?thesis
    proof (cases x)
      case (Inl e)
      then have "cl' = cl\<lparr>cl_inodes := ic2\<rparr>" "linked_paths opts db p follow cl S = S" using False h None x res by (auto simp: resolve_path_impl_def linked_paths_def)
      then show ?thesis using run_inv_fewer [OF R, of cl'] ic2 I(3) by simp
    next
      case (Inr i)
      have cl': "cl' = \<lparr>cl_inodes = ic2, cl_paths = cache_resolved p i (cl_paths cl)\<rparr>" using False h None x Inr res by (simp add: resolve_path_impl_def)
      let ?S = "linked_paths opts db p follow cl S"
      have S: "?S = (case walk_segments opts db follow 1 (split_path p) ic of Some (Inr (Inl j), _) \<Rightarrow> S - {p} | _ \<Rightarrow> insert p S)"
        using False h None x Inr by (simp add: linked_paths_def rt)
      show ?thesis
      proof (rule run_invI [OF I(1)])
        show "cache_agrees (lookup db) (cl_inodes cl')" using ic2 cl' by simp
        show "indexed (cl_paths cl')" using indexed_resolved [OF I(3) normalized(1) [OF p False]] cl' by simp
        fix p' i' assume c: "path_cache (cl_paths cl') p' = Some i'" "p' \<notin> ?S"
        show "map_option fst (lookup_parts db 1 (split_path p')) = Some i'"
        proof (cases "p' = p")
          case True
          then obtain j ic1 where w: "walk_segments opts db follow 1 (split_path p) ic = Some (Inr (Inl j), ic1)"
            using c(2) unfolding S by (auto split: option.splits prod.splits sum.splits)
          show ?thesis using resolved_directly [OF I(1) cs rt ic x [unfolded Inr] w] c(1) True cl' by (simp add: cache_resolved_def)
        next
          case False
          then have "path_cache (cl_paths cl) p' = Some i'" "p' \<notin> S" using c cl' unfolding S by (auto simp: cache_resolved_def split: option.splits prod.splits sum.splits)
          then show ?thesis by (rule I(4))
        qed
      qed
    qed
  qed
qed

lemma fold_forget: "fold (\<lambda>p m. m(p := None)) ps c q = (if q \<in> set ps then None else c q)"
proof (induction ps arbitrary: c)
  case (Cons a ps)
  show ?case by (simp only: fold_Cons comp_apply Cons.IH) simp
qed simp

lemma client_run_inv:
  assumes "client_run opts enc db cl S" and rt: "co_root opts = 1" and cs: "\<not> co_case_insensitive opts"
  shows "run_inv db cl S"
  using assms(1)
proof (induction rule: client_run.induct)
  case (cr_open db)
  then show ?case using reachable_ns_inv indexed_new by (simp add: run_inv_def client_new_def path_index_new_def)
next
  case (cr_call db cl S c db' cl')
  note I = run_invD [OF cr_call.IH]
  show ?case using run_inv_call [OF cr_call.IH run_call_ok [OF I(1,2) cs rt cr_call.hyps(2,3)]] .
next
  case (cr_resolve db cl S p q follow r cl')
  from run_inv_resolve [OF cr_resolve.IH cs rt cr_resolve.hyps(2,3)] show ?case .
next
  case (cr_attrs db cl S db')
  have k: "ns_inv db'" "emap db' = emap db" using attr_step_keeps [OF cr_attrs.hyps(2) run_invD(1) [OF cr_attrs.IH]] by (simp_all add: keeps_tree_def tree_of_def)
  from k(2) have "lookup_parts db' c cs = lookup_parts db c cs" for c cs
    by (induction cs arbitrary: c) (simp_all add: lookup_parts_emap del: lookup_parts.simps(2) split: option.split)
  then show ?case using cr_attrs.IH k(1) names_same [OF k(2)] by (simp add: run_inv_def)
next
  case (cr_evict_path db cl S p)
  show ?case using run_invD(2,3) [OF cr_evict_path.IH]
    by (intro run_inv_fewer [OF cr_evict_path.IH]) (auto intro!: indexed_evict [of "cl_paths cl"] split: if_splits)
next
  case (cr_evict_inode db cl S i)
  show ?case using run_invD(2,3) [OF cr_evict_inode.IH] by (intro run_inv_fewer [OF cr_evict_inode.IH]) (simp_all add: agree)
next
  case (cr_event db cl S i)
  have f: "path_cache (invalidate_inode_paths i (cl_paths cl)) p = Some j \<Longrightarrow> path_cache (cl_paths cl) p = Some j" for p j
    by (simp add: invalidate_inode_paths_def fold_forget split: option.splits if_splits)
  have "indexed (invalidate_inode_paths i (cl_paths cl))"
    using run_invD(3) [OF cr_event.IH] f by (rule indexed_evict) (simp_all add: invalidate_inode_paths_def split: option.split)
  then show ?case using run_invD(2) [OF cr_event.IH] f by (intro run_inv_fewer [OF cr_event.IH]) (simp_all add: agree)
next
  case (cr_event_parent db cl S d)
  note P = invalidate_parent [OF run_invD(3) [OF cr_event_parent.IH], of 1 d]
  show ?case using run_invD(2) [OF cr_event_parent.IH] P(1) P(2) by (intro run_inv_fewer [OF cr_event_parent.IH]) simp_all
qed

section \<open>A client on the small store\<close>

definition demo_opts :: client_options where
  "demo_opts = \<lparr>co_root = 1, co_read_only = False, co_case_insensitive = False, co_max_symlinks = 1\<rparr>"

lemma demo_names: "lookup demo_db 1 ''d'' = Some 2" "lookup demo_db 1 ''b'' = Some 3"
  by (simp_all add: lookup_def find_entry_def demo_defs)

lemma demo_stats:
  obtains a1 a2 a3 where "stat demo_db 1 = Some a1" "at_kind a1 = FtDir" "stat demo_db 2 = Some a2" "stat demo_db 3 = Some a3"
  by (simp add: stat_def find_file_def find_access_def access_meta_to_attr_def new_file_row_def demo_defs)

lemmas client_eval = resolve_path_impl_def path_hit_def linked_paths_def cached_stat_def cached_lookup_def validate_entry_name_def lookup_if_loaded_def
  lookup_with_attr_def cache_lookup_attr_def dir_parent_def insert_node_def inode_entry_new_def add_child_def get_attr_def demo_opts_def
  check_root_def split_path_def

text \<open>The paths \<^verbatim>\<open>/d\<close> and \<^verbatim>\<open>/b\<close> are resolved.\<close>

lemma demo_client:
  "\<exists>ic. client_run demo_opts enc demo_db \<lparr>cl_inodes = ic, cl_paths = cache_resolved ''/b'' 3 (cache_resolved ''/d'' 2 path_index_new)\<rparr> {}"
proof -
  obtain a1 a2 a3 where a: "stat demo_db 1 = Some a1" "at_kind a1 = FtDir" "stat demo_db 2 = Some a2" "stat demo_db 3 = Some a3" by (rule demo_stats)
  let ?root = "\<lambda>m g. \<lparr>ne_attr = a1, ne_parent = None, ne_children = Partial m, ne_generation = g\<rparr>"
  let ?c1 = "\<lparr>cl_inodes = [2 \<mapsto> inode_entry_new a2 (dir_parent a2 1), 1 \<mapsto> ?root [(''d'', 2)] 1], cl_paths = cache_resolved ''/d'' 2 path_index_new\<rparr>"
  have p: "''/d'' = fs_normalize_path ''/d''" "''/b'' = fs_normalize_path ''//b/''" by (simp_all add: fs_normalize_path_def join_slash_def)
  have r0: "client_run demo_opts enc demo_db client_new {}" by (rule cr_open [OF demo_reachable(4)])
  have s1: "resolve_path_impl demo_opts demo_db ''/d'' False client_new = Some (Inr 2, ?c1)"
    "linked_paths demo_opts demo_db ''/d'' False client_new {} = {}"
    by (simp_all add: client_eval client_new_def path_index_new_def a demo_names rbind_def ok_or_def Let_def fun_upd_twist)
  note r1 = cr_resolve [OF r0 p(1) s1(1), unfolded s1(2)]
  have s2: "\<exists>ic. resolve_path_impl demo_opts demo_db ''/b'' False ?c1 = Some (Inr 3, \<lparr>cl_inodes = ic, cl_paths = cache_resolved ''/b'' 3 (cache_resolved ''/d'' 2 path_index_new)\<rparr>)"
    "linked_paths demo_opts demo_db ''/b'' False ?c1 {} = {}"
    by (simp_all add: client_eval path_index_new_def cache_resolved_def [of "''/d''"] a demo_names rbind_def ok_or_def Let_def bt_get_def)
  from s2(1) obtain ic where ic: "resolve_path_impl demo_opts demo_db ''/b'' False ?c1
      = Some (Inr 3, \<lparr>cl_inodes = ic, cl_paths = cache_resolved ''/b'' 3 (cache_resolved ''/d'' 2 path_index_new)\<rparr>)" by blast
  from cr_resolve [OF r1 p(2) ic, unfolded s2(2)] show ?thesis by blast
qed

lemma demo_dir_path: "lookup_parts demo_db 1 P = Some (2, FtDir) \<Longrightarrow> P = [''d'']"
proof -
  assume P: "lookup_parts demo_db 1 P = Some (2, FtDir)"
  then obtain n ns where n: "P = n # ns" by (cases P) auto
  then have d: "n = ''d''" "lookup_parts demo_db 2 ns = Some (2, FtDir)" using P by (auto simp: find_entry_def demo_defs split: if_splits)
  then show ?thesis using n by (cases ns) (auto simp: find_entry_def demo_defs split: if_splits)
qed

lemma demo_unlink: "\<exists>db. unlink (\<lambda>path t. None) 7 2 ''f'' demo_db = (Inr (), db)"
  by (simp add: unlink_def release_link_def delete_content_def delete_link_def delete_links_def ns_eval demo_defs)

section \<open>What the client answers\<close>

text \<open>
  C11. Cached names agree with the store: after any sequence of calls, resolutions, evictions and events of a client
  alone on its store, with the default root and exact-case names, a lookup answers what the store has under that
  name, found or not found, whatever the cache holds, and a listing names the entries of the store with their inodes.
\<close>

theorem client_names_agree:
  assumes run: "client_run opts enc db cl S" and opts: "co_root opts = 1" "\<not> co_case_insensitive opts"
  shows "fst (cached_lookup opts db d name (cl_inodes cl)) = rbind (validate_entry_name name) (\<lambda>_. Inr (lookup db (check_root 1 d) name))
    \<and> (\<forall>es. fst (client_readdir opts d db (cl_inodes cl)) = Inr es \<longrightarrow> map_of (map (\<lambda>e. (de_name e, de_ino e)) es) = lookup db (check_root 1 d))"
proof -
  note I = run_invD [OF client_run_inv [OF run opts]]
  show ?thesis using cached_lookup_agrees(1) [OF I(1,2) opts(2), of d name] readdir_agrees(2) [OF I(1,2), of opts d] by (simp add: opts(1))
qed

theorem client_names_agree_witness:
  "\<exists>db cl. client_run demo_opts (\<lambda>path t. None) db cl {} \<and> lookup db 1 ''b'' = Some 3 \<and> fst (cached_lookup demo_opts db 0 ''b'' (cl_inodes cl)) = Inr (Some 3)
    \<and> fst (cached_lookup demo_opts db 1 ''c'' (cl_inodes cl)) = Inr None"
proof -
  obtain ic where run: "client_run demo_opts (\<lambda>path t. None) demo_db \<lparr>cl_inodes = ic, cl_paths = cache_resolved ''/b'' 3 (cache_resolved ''/d'' 2 path_index_new)\<rparr> {}"
    using demo_client by blast
  have c: "lookup demo_db 1 ''c'' = None" by (simp add: lookup_def find_entry_def demo_defs)
  from client_names_agree [OF run, of 0 "''b''"] client_names_agree [OF run, of 1 "''c''"] run c show ?thesis
    by (intro exI [of _ demo_db] exI) (auto simp: demo_opts_def demo_names validate_entry_name_def rbind_def check_root_def)
qed

text \<open>
  C3. A cached path leads where the store leads: unless the path was cached through a symbolic link, or names were taken
  away, while it was cached, in a directory that the reverse table knew by other paths only, the inode the path cache
  holds is the one the path resolves to in the store as it is now. This holds after any sequence of namespace calls of
  a client alone on its store, with the default root and exact-case names, renames of directories included, resolutions with and without following links, attribute calls,
  evictions and events.
\<close>

theorem path_cache_coherent:
  assumes run: "client_run opts enc db cl S" and opts: "co_root opts = 1" "\<not> co_case_insensitive opts"
    and p: "path_cache (cl_paths cl) p = Some i" "p \<notin> S"
  shows "map_option fst (lookup_path db p) = Some i"
proof -
  note I = run_invD [OF client_run_inv [OF run opts]]
  have "canonical p" using I(3) p(1) unfolding indexed_def by blast
  then have "p \<noteq> ''/''" by (auto simp: canonical_def split_path_def join_slash_def)
  then show ?thesis using I(4) [OF p] by (simp add: lookup_path_def split_path_trim)
qed

theorem path_cache_coherent_witness:
  "\<exists>db cl cl'. unlink (\<lambda>path t. None) 7 2 ''f'' demo_db = (Inr (), db) \<and> run_call demo_opts (\<lambda>path t. None) (CUnlink 7 8 2 ''f'') demo_db cl = (db, cl')
    \<and> client_run demo_opts (\<lambda>path t. None) db cl' {} \<and> path_cache (cl_paths cl') ''/d'' = None \<and> path_cache (cl_paths cl') ''/b'' = Some 3
    \<and> map_option fst (lookup_path db ''/b'') = Some 3"
proof -
  let ?enc = "\<lambda>(path :: string) (t :: int). None :: bytes option" and ?st = "cache_resolved ''/b'' 3 (cache_resolved ''/d'' 2 path_index_new)"
  obtain ic where run: "client_run demo_opts ?enc demo_db \<lparr>cl_inodes = ic, cl_paths = ?st\<rparr> {}" using demo_client by blast
  let ?cl = "\<lparr>cl_inodes = ic, cl_paths = ?st\<rparr>"
  obtain db where u: "unlink ?enc 7 2 ''f'' demo_db = (Inr (), db)" using demo_unlink by blast
  have opts: "co_root demo_opts = 1" "\<not> co_case_insensitive demo_opts" by (simp_all add: demo_opts_def)
  note I = run_invD [OF client_run_inv [OF run opts]]
  have "fst (cached_lookup demo_opts demo_db 2 ''f'' ic) = Inr (Some 3)"
    using cached_lookup_agrees(1) [OF I(1) _ opts(2), of ic 2 "''f''"] I(2) by (simp add: opts check_root_def validate_entry_name_def rbind_def lookup_def find_entry_def demo_defs)
  then obtain ic1 where l: "cached_lookup demo_opts demo_db 2 ''f'' ic = (Inr (Some 3), ic1)" by (metis prod.collapse)
  obtain cl' where c: "run_call demo_opts ?enc (CUnlink 7 8 2 ''f'') demo_db ?cl = (db, cl')" and st: "cl_paths cl' = invalidate_parent_path 1 2 ?st"
    using l u by (simp add: client_unlink_def ensure_writable_def validate_entry_name_def rbind_def opts check_root_def Let_def demo_opts_def)
  have "knows demo_db 2 ?st" unfolding knows_def
  proof (intro allI impI)
    fix P assume "lookup_parts demo_db 1 P = Some (2, FtDir)"
    from demo_dir_path [OF this] show "listed (check_root 1 2) P ?st" by (simp add: listed_def check_root_def cache_resolved_def path_index_new_def split_path_def)
  qed
  then have r: "client_run demo_opts ?enc db cl' {}" using cr_call [OF run _ c] by (simp add: check_root_def)
  have p: "path_cache (cl_paths cl') ''/d'' = None" "path_cache (cl_paths cl') ''/b'' = Some 3" unfolding st by (simp_all add: cache_eval)
  from path_cache_coherent [OF r opts p(2)] show ?thesis using u c r p by blast
qed

section \<open>Where the client departs from the store\<close>

text \<open>
  The path cache does not tell resolutions that follow a final symbolic link from those that do not: once a path was
  resolved with following, resolving it without answers the target of the link.
\<close>

lemma lstat_after_stat:
  assumes "resolve_path_impl opts db p True cl = Some (Inr i, cl')" and "p \<noteq> ''/''"
  shows "resolve_path_impl opts db' p False cl' = Some (Inr i, cl')"
proof -
  have "path_cache (cl_paths cl') p = Some i"
    using assms by (auto simp: resolve_path_impl_def path_hit_def cache_resolved_def split: option.splits prod.splits sum.splits if_splits)
  then show ?thesis using assms(2) by (simp add: resolve_path_impl_def path_hit_def)
qed

text \<open>
  A removal between the two halves of a listing goes unnoticed when the children were not loaded: the generation does not
  advance, and the listing taken before the removal is stored as complete.
\<close>

lemma removal_during_listing:
  assumes "ic d = Some node" and "ne_children node = NotLoaded" and "(n, i) \<in> set (map (\<lambda>e. (de_name e, de_ino e)) es)"
    and "distinct (map de_name es)" and "readdir_begin db d ic = (g, ic1)"
  shows "lookup_if_loaded d n (readdir_end db' d g es (snd (remove_child_but_keep_inode d n ic1))) = Some (Some i)"
proof -
  have b: "g = ne_generation node" "ic1 = ic" using assms(1,5) by (auto simp: readdir_begin_def ensure_node_in_cache_def)
  have "map_of (map (\<lambda>e. (de_name e, de_ino e)) es) n = Some i" using assms(3,4) by (intro map_of_is_SomeI) (simp_all add: comp_def)
  moreover have "bt_get (fold (\<lambda>(n, i). bt_insert n i) (map (\<lambda>e. (de_name e, de_ino e)) es) []) = map_of (map (\<lambda>e. (de_name e, de_ino e)) es)"
    using bt_get_fold [of "map (\<lambda>e. (de_name e, de_ino e)) es" "[]"] assms(4) by (simp add: comp_def)
  ultimately show ?thesis
    using assms(1,2) by (simp add: b readdir_end_def ensure_node_in_cache_def load_children_if_fresh_def remove_child_but_keep_inode_def lookup_if_loaded_def)
qed

end
