(* ===== verification/Wire.thy ===== *)
theory Wire
  imports Prelude
begin

text \<open>
  The scalar layer of the packed base formats (\<^verbatim>\<open>src/src/native_base/wire/error.rs\<close> and
  \<^verbatim>\<open>uvarint.rs\<close>): the variable-length integers, and the reader and writer that every
  length-prefixed structure uses. The texts of error messages are left out.
\<close>

section \<open>Errors\<close>

datatype wire_error =
    UnsupportedFormat
  | Invalid string
  | CrcMismatch string nat nat
  | HashMismatch string bytes bytes
  | Truncated string nat nat
  | LimitExceeded
  | CodecError

section \<open>Variable-length integers\<close>

definition UVARINT_MAX_LEN :: nat where
  "UVARINT_MAX_LEN = 10"

lemma unat_drop_7: "unat (drop_bit 7 (v :: u64)) = unat v div 128"
  by (simp only: unat_drop_bit_eq) (simp add: drop_bit_eq_div)

function encode_uvarint :: "u64 \<Rightarrow> bytes" where
  "encode_uvarint v =
     (let byte = ucast (v AND 127); v' = drop_bit 7 v
      in if v' = 0 then [byte] else (byte OR 128) # encode_uvarint v')"
  by auto

termination
proof (relation "measure unat")
  fix v v' :: u64 assume v': "v' = drop_bit 7 v" and "v' \<noteq> 0"
  then have "unat v' \<noteq> 0" by (simp add: unat_eq_zero)
  then show "(v', v) \<in> measure unat" using v' by (simp add: unat_drop_7)
qed simp

declare encode_uvarint.simps [simp del]

text \<open>The loop of the decoder; \<open>len\<close> is the length of the whole buffer.\<close>

fun decode_uvarint_from :: "nat \<Rightarrow> nat \<Rightarrow> nat \<Rightarrow> u64 \<Rightarrow> bytes \<Rightarrow> wire_error + (u64 \<times> nat)" where
  "decode_uvarint_from len i shift val [] = Inl (Truncated ''uvarint'' UVARINT_MAX_LEN len)"
| "decode_uvarint_from len i shift val (byte # rest) =
     (if UVARINT_MAX_LEN \<le> i then Inl (Invalid ''uvarint'')
      else let payload = ucast (byte AND 127) :: u64
           in if i = UVARINT_MAX_LEN - 1 \<and> 1 < payload then Inl (Invalid ''uvarint'')
              else let val' = val OR push_bit shift payload
                   in if byte AND 128 = 0
                      then if i + 1 < UVARINT_MAX_LEN \<and> payload = 0 \<and> drop_bit shift val' = 0 \<and> 0 < i
                           then Inl (Invalid ''uvarint'') else Inr (val', i + 1)
                      else decode_uvarint_from len (i + 1) (shift + 7) val' rest)"

definition decode_uvarint :: "bytes \<Rightarrow> wire_error + (u64 \<times> nat)" where
  "decode_uvarint buf = decode_uvarint_from (length buf) 0 0 0 buf"

lemma bit_127 [simp]: "bit (127 :: int) n \<longleftrightarrow> n < 7"
proof -
  have m: "(127 :: int) = mask 7" by (simp add: mask_eq_exp_minus_1)
  show ?thesis unfolding m by (simp add: bit_mask_iff)
qed

lemma bit_128 [simp]: "bit (128 :: int) n \<longleftrightarrow> n = 7"
proof -
  have "bit ((2 :: int) ^ 7) n \<longleftrightarrow> n = 7" by (auto simp only: bit_exp_iff possible_bit_int simp_thms)
  then show ?thesis by simp
qed

lemma low_byte:
  fixes v :: u64
  shows "ucast (v AND 127) AND (128 :: u8) = 0" and "(ucast (v AND 127) OR 128) AND (128 :: u8) \<noteq> 0"
    and "ucast (ucast (v AND 127) AND (127 :: u8)) = v AND 127"
    and "ucast ((ucast (v AND 127) OR 128) AND (127 :: u8)) = v AND 127"
proof -
  show "ucast (v AND 127) AND (128 :: u8) = 0" by (rule bit_word_eqI) (auto simp: bit_simps)
  have "bit ((ucast (v AND 127) OR 128) AND (128 :: u8)) 7" by (simp add: bit_simps)
  then show "(ucast (v AND 127) OR 128) AND (128 :: u8) \<noteq> 0" by auto
  show "ucast (ucast (v AND 127) AND (127 :: u8)) = v AND 127" by (rule bit_word_eqI) (auto simp: bit_simps)
  show "ucast ((ucast (v AND 127) OR 128) AND (127 :: u8)) = v AND 127" by (rule bit_word_eqI) (auto simp: bit_simps)
qed

lemma split_7: "push_bit s (v AND 127) OR push_bit (s + 7) (drop_bit 7 v) = push_bit s (v :: u64)"
proof (rule bit_word_eqI)
  fix n
  have "bit v (7 + (n - (s + 7))) = bit v (n - s)" if "\<not> n - s < 7"
  proof -
    have "7 + (n - (s + 7)) = n - s" using that by simp
    then show ?thesis by simp
  qed
  then show "bit (push_bit s (v AND 127) OR push_bit (s + 7) (drop_bit 7 v)) n = bit (push_bit s v) n"
    by (cases "n - s < 7") (auto simp: bit_simps)
qed

lemma and_127_small: "unat (v :: u64) < 128 \<Longrightarrow> v AND 127 = v"
proof (rule bit_word_eqI)
  fix n assume "unat v < 128"
  then show "bit (v AND 127) n = bit v n" using bit_less_bound [of v 7 n] bit_imp_le_length [of v n] by (auto simp: bit_simps)
qed

lemma decode_encoded_uvarint:
  assumes "unat v < 2 ^ (64 - 7 * i)" and "i < 10" and "v \<noteq> 0 \<or> i = 0"
  shows "decode_uvarint_from len i (7 * i) val (encode_uvarint v @ rest) = Inr (val OR push_bit (7 * i) v, i + length (encode_uvarint v))"
  using assms
proof (induction v arbitrary: i val rule: encode_uvarint.induct)
  case (1 v)
  show ?case
  proof (cases "drop_bit 7 v = 0")
    case True
    then have "unat v div 128 = 0" using unat_drop_7 [of v] by simp
    then have small: "v AND 127 = v" by (intro and_127_small) simp
    have "\<not> 1 < v" if "i = 9" using "1.prems"(1) that by (simp add: word_less_nat_alt)
    then show ?thesis using "1.prems" True low_byte [of v] small
      by (auto simp: encode_uvarint.simps [of v] UVARINT_MAX_LEN_def Let_def)
  next
    case False
    then have div: "0 < unat v div 128" using unat_drop_7 [of v] by (metis neq0_conv unat_eq_zero)
    have i: "i < 9"
    proof (rule ccontr)
      assume "\<not> i < 9"
      then have "i = 9" using "1.prems"(2) by simp
      then show False using "1.prems"(1) div by simp
    qed
    have "64 - 7 * i = 7 + (64 - 7 * (i + 1))" using i by simp
    then have "(2 :: nat) ^ (64 - 7 * i) = 2 ^ 7 * 2 ^ (64 - 7 * (i + 1))" by (simp only: power_add)
    then have "unat (drop_bit 7 v) < 2 ^ (64 - 7 * (i + 1))" using "1.prems"(1) unat_drop_7 [of v] by (simp add: less_mult_imp_div_less mult.commute)
    then have IH: "decode_uvarint_from len (i + 1) (7 * (i + 1)) w (encode_uvarint (drop_bit 7 v) @ rest)
        = Inr (w OR push_bit (7 * (i + 1)) (drop_bit 7 v), i + 1 + length (encode_uvarint (drop_bit 7 v)))" for w
      using "1.IH" [OF refl refl False, of "i + 1" w] i False by (simp add: add.commute)
    have s: "7 * (i + 1) = 7 * i + 7" by simp
    show ?thesis using IH [unfolded s] i False low_byte [of v] split_7 [of "7 * i" v]
      by (simp add: encode_uvarint.simps [of v] UVARINT_MAX_LEN_def Let_def or.assoc)
  qed
qed

text \<open>The reading of an encoding so far: the bits of the next bytes and, when they end, their number.\<close>

lemma byte_of_payload:
  fixes b :: u8
  shows "b AND 128 \<noteq> 0 \<Longrightarrow> b = ucast ((ucast (b AND 127) OR push_bit 7 w) AND 127 :: u64) OR 128"
    and "b AND 128 = 0 \<Longrightarrow> b = ucast (ucast (b AND 127) AND 127 :: u64)"
proof -
  have hi: "(b AND 128 = 0) = (\<not> bit b 7)"
  proof
    assume "b AND 128 = 0"
    then have "\<not> bit (b AND 128) 7" by simp
    then show "\<not> bit b 7" by (simp add: bit_simps)
  next
    assume "\<not> bit b 7"
    then show "b AND 128 = 0" by (intro bit_word_eqI) (auto simp: bit_simps)
  qed
  have seven: "n < 7 \<or> n = 7" if "n < 8" for n :: nat using that by auto
  show "b = ucast ((ucast (b AND 127) OR push_bit 7 w) AND 127 :: u64) OR 128" if "b AND 128 \<noteq> 0"
    by (rule bit_word_eqI) (use that hi seven in \<open>auto simp: bit_simps\<close>)
  show "b = ucast (ucast (b AND 127) AND 127 :: u64)" if "b AND 128 = 0"
    by (rule bit_word_eqI) (use that hi seven in \<open>auto simp: bit_simps\<close>)
qed

lemma encode_uvarint_byte:
  assumes "b AND 128 \<noteq> 0" and "unat w < 2 ^ 57" and "w \<noteq> 0"
  shows "encode_uvarint (ucast (b AND 127) OR push_bit 7 w) = b # encode_uvarint w"
proof -
  let ?v = "ucast (b AND 127) OR push_bit 7 w :: u64"
  have wb: "n < 57" if "bit w n" for n using bit_less_bound [OF assms(2) that] .
  have "drop_bit 7 ?v = w"
    by (rule bit_word_eqI) (use wb in \<open>auto simp: bit_simps\<close>)
  then show ?thesis using byte_of_payload(1) [OF assms(1), of w] assms(3) by (simp add: encode_uvarint.simps [of ?v] Let_def)
qed

lemma encode_uvarint_last: "b AND 128 = 0 \<Longrightarrow> encode_uvarint (ucast (b AND 127)) = [b :: u8]"
proof -
  assume b: "b AND 128 = 0"
  have "drop_bit 7 (ucast (b AND 127) :: u64) = 0" by (rule bit_word_eqI) (auto simp: bit_simps)
  then show ?thesis using byte_of_payload(2) [OF b] by (simp add: encode_uvarint.simps [of "ucast (b AND 127)"] Let_def)
qed

lemma decode_uvarint_from_sound:
  assumes "decode_uvarint_from len i (7 * i) val buf = Inr (v, n)" and "unat val < 2 ^ (7 * i)" and "i < 10"
  shows "\<exists>w. i < n \<and> n - i \<le> length buf \<and> n \<le> 10 \<and> v = val OR push_bit (7 * i) w \<and> unat w < 2 ^ (64 - 7 * i)
    \<and> (take (n - i) buf = encode_uvarint w \<and> (w \<noteq> 0 \<or> i = 0) \<or> n = 10 \<and> buf ! (9 - i) = 0)"
  using assms
proof (induction buf arbitrary: i val)
  case Nil
  then show ?case by simp
next
  case (Cons b buf)
  let ?p = "ucast (b AND 127) :: u64"
  have p7: "unat ?p < 128" using bound_from_bits [of ?p 7] by (auto simp: bit_simps)
  have p1: "?p \<le> 1" if "i = 9" using Cons.prems(1) that by (auto simp: UVARINT_MAX_LEN_def Let_def split: if_splits)
  have fits: "unat ?p < 2 ^ (64 - 7 * i)"
  proof (cases "i = 9")
    case True
    then show ?thesis using p1 by (simp add: word_le_nat_alt)
  next
    case False
    then have "7 \<le> 64 - 7 * i" using Cons.prems(3) by simp
    then have "(2 :: nat) ^ 7 \<le> 2 ^ (64 - 7 * i)" by (intro power_increasing) simp_all
    then show ?thesis using p7 by simp
  qed
  show ?case
  proof (cases "b AND 128 = 0")
    case True
    then have end_: "v = val OR push_bit (7 * i) ?p" "n = i + 1" and short: "\<not> (i < 9 \<and> ?p = 0 \<and> drop_bit (7 * i) v = 0 \<and> 0 < i)"
      using Cons.prems by (auto simp: UVARINT_MAX_LEN_def Let_def split: if_splits)
    have "drop_bit (7 * i) val = 0" 
      by (rule bit_word_eqI) (use bit_less_bound [OF Cons.prems(2)] in \<open>fastforce simp: bit_simps\<close>)
    then have "?p \<noteq> 0 \<or> i = 0 \<or> i = 9" using short end_ Cons.prems(3) by auto
    moreover have "b = 0" if "?p = 0"
      using byte_of_payload(2) [OF True] that by simp
    ultimately show ?thesis using end_ encode_uvarint_last [OF True] fits Cons.prems(3) by auto
  next
    case False
    let ?val = "val OR push_bit (7 * i) ?p"
    have rec: "decode_uvarint_from len (i + 1) (7 * (i + 1)) ?val buf = Inr (v, n)"
      using Cons.prems(1) False by (auto simp: Let_def add.commute split: if_splits)
    have i: "i < 9"
    proof (rule ccontr)
      assume "\<not> i < 9"
      then have "i = 9" using Cons.prems(3) by simp
      then show False using rec by (cases buf) (simp_all add: UVARINT_MAX_LEN_def)
    qed
    have "unat ?val < 2 ^ (7 * (i + 1))"
    proof (rule bound_from_bits)
      fix m assume "bit ?val m"
      then show "m < 7 * (i + 1)" using bit_less_bound [OF Cons.prems(2), of m] bit_less_bound [of ?p 7 "m - 7 * i"] p7 by (auto simp: bit_simps)
    qed
    from Cons.IH [OF rec this] i obtain w where w: "i + 1 < n" "n - (i + 1) \<le> length buf" "n \<le> 10" "v = ?val OR push_bit (7 * (i + 1)) w" "unat w < 2 ^ (64 - 7 * (i + 1))"
      and enc: "take (n - (i + 1)) buf = encode_uvarint w \<and> w \<noteq> 0 \<or> n = 10 \<and> buf ! (9 - (i + 1)) = 0" by auto
    let ?w = "?p OR push_bit 7 w"
    have s: "7 * (i + 1) = 7 * i + 7" "64 - 7 * (i + 1) = 64 - 7 * i - 7" by simp_all
    have v: "v = val OR push_bit (7 * i) ?w" using w(4) by (simp add: s push_bit_or or.assoc push_bit_push_bit add.commute)
    have wb: "m < 64 - 7 * i - 7" if "bit w m" for m using bit_less_bound [OF w(5) that] s by simp
    have "unat ?w < 2 ^ (64 - 7 * i)"
    proof (rule bound_from_bits)
      fix m assume "bit ?w m"
      then show "m < 64 - 7 * i" using bit_less_bound [OF fits, of m] wb [of "m - 7"] by (auto simp: bit_simps)
    qed
    moreover have "take (n - i) (b # buf) = encode_uvarint ?w \<and> ?w \<noteq> 0" if e: "take (n - (i + 1)) buf = encode_uvarint w" and "w \<noteq> 0"
    proof -
      have "64 - 7 * (i + 1) \<le> 57" by simp
      then have "(2 :: nat) ^ (64 - 7 * (i + 1)) \<le> 2 ^ 57" by (intro power_increasing) simp_all
      then have "unat w < 2 ^ 57" using w(5) by linarith
      from encode_uvarint_byte [OF False this that(2)] e w(1)
      have t: "take (n - i) (b # buf) = encode_uvarint ?w" by (simp add: take_Cons')
      have "encode_uvarint 0 = [0]" by (simp add: encode_uvarint.simps)
      moreover have "encode_uvarint ?w \<noteq> [0]" using encode_uvarint_byte [OF False \<open>unat w < 2 ^ 57\<close> that(2)] by (simp add: encode_uvarint.simps [of w] Let_def)
      ultimately show ?thesis using t by metis
    qed
    moreover have "(b # buf) ! (9 - i) = 0" if "buf ! (9 - (i + 1)) = 0"
      using that i by (simp add: nth_Cons')
    ultimately show ?thesis using v w(1-3) enc by (intro exI [of _ ?w]) auto
  qed
qed

lemma length_encode_uvarint: "length (encode_uvarint v) \<le> 10" "encode_uvarint v \<noteq> []"
proof -
  have "decode_uvarint_from 0 0 (7 * 0) 0 (encode_uvarint v) = Inr (v, length (encode_uvarint v))"
    using decode_encoded_uvarint [of v 0 0 0 "[]"] unsigned_less [of v] by simp
  from decode_uvarint_from_sound [OF this] show "length (encode_uvarint v) \<le> 10" by simp
  show "encode_uvarint v \<noteq> []" by (simp add: encode_uvarint.simps [of v] Let_def)
qed

lemma decode_uvarint_encoded: "decode_uvarint (encode_uvarint v @ rest) = Inr (v, length (encode_uvarint v))"
  using decode_encoded_uvarint [of v 0 _ 0 rest] unsigned_less [of v] by (simp add: decode_uvarint_def)

text \<open>
  C36. Variable-length integers: every \<^verbatim>\<open>u64\<close> is encoded in at most ten bytes and decoded back with
  anything behind it left alone, and the decoder accepts no other spelling of a number, except that a
  ten-byte encoding may end in a zero byte.
\<close>

theorem uvarint_canonical:
  "decode_uvarint (encode_uvarint v @ rest) = Inr (v, length (encode_uvarint v)) \<and> length (encode_uvarint v) \<le> UVARINT_MAX_LEN
   \<and> (decode_uvarint buf = Inr (w, n) \<longrightarrow> n \<le> length buf \<and> (take n buf = encode_uvarint w \<or> n = UVARINT_MAX_LEN \<and> buf ! 9 = 0))
   \<and> decode_uvarint (replicate 9 128 @ [0]) = Inr (0, 10)"
proof (intro conjI impI)
  show "decode_uvarint (encode_uvarint v @ rest) = Inr (v, length (encode_uvarint v))" by (rule decode_uvarint_encoded)
  show "length (encode_uvarint v) \<le> UVARINT_MAX_LEN" using length_encode_uvarint(1) [of v] by (simp add: UVARINT_MAX_LEN_def)
  assume d: "decode_uvarint buf = Inr (w, n)"
  have "decode_uvarint_from (length buf) 0 (7 * 0) 0 buf = Inr (w, n)" using d by (simp add: decode_uvarint_def)
  from decode_uvarint_from_sound [OF this]
  show "n \<le> length buf" "take n buf = encode_uvarint w \<or> n = UVARINT_MAX_LEN \<and> buf ! 9 = 0" by (auto simp: UVARINT_MAX_LEN_def)
next
  have "replicate 9 x = [x, x, x, x, x, x, x, x, x]" for x :: u8 by (simp add: numeral_eq_Suc)
  then show "decode_uvarint (replicate 9 128 @ [0]) = Inr (0, 10)"
    by (simp add: decode_uvarint_def UVARINT_MAX_LEN_def Let_def)
qed

theorem uvarint_canonical_witness:
  "decode_uvarint [172, 2] = Inr (300, 2) \<and> take 2 [172, 2, 7] = encode_uvarint 300"
proof -
  have d: "decode_uvarint [172, 2] = Inr (300, 2)" "decode_uvarint [172, 2, 7] = Inr (300, 2)"
    by (simp_all add: decode_uvarint_def UVARINT_MAX_LEN_def Let_def)
  then show ?thesis using uvarint_canonical [of 0 "[]" "[172, 2, 7]" 300 2] by (simp add: UVARINT_MAX_LEN_def)
qed

section \<open>The reader\<close>

record reader =
  rd_buf :: bytes
  rd_pos :: nat

definition reader_new :: "bytes \<Rightarrow> reader" where
  "reader_new buf = \<lparr>rd_buf = buf, rd_pos = 0\<rparr>"

definition rd_remaining :: "reader \<Rightarrow> nat" where
  "rd_remaining r = length (rd_buf r) - rd_pos r"

definition rd_is_empty :: "reader \<Rightarrow> bool" where
  "rd_is_empty r \<longleftrightarrow> rd_remaining r = 0"

definition rd_take :: "nat \<Rightarrow> string \<Rightarrow> reader \<Rightarrow> wire_error + (bytes \<times> reader)" where
  "rd_take len what r =
     rbind (ok_or (Invalid what) (checked_add_u64 (rd_pos r) len)) (\<lambda>e.
     if length (rd_buf r) < e then Inl (Truncated what len (length (rd_buf r) - rd_pos r))
     else Inr (bytes_at (rd_buf r) (rd_pos r) len, r\<lparr>rd_pos := e\<rparr>))"

definition rd_u8 :: "string \<Rightarrow> reader \<Rightarrow> wire_error + (u8 \<times> reader)" where
  "rd_u8 what r = rbind (rd_take 1 what r) (\<lambda>(b, r). Inr (b ! 0, r))"

definition rd_uint :: "nat \<Rightarrow> string \<Rightarrow> reader \<Rightarrow> wire_error + (nat \<times> reader)" where
  "rd_uint width what r = rbind (rd_take width what r) (\<lambda>(b, r). Inr (from_le_bytes b, r))"

abbreviation rd_u16 :: "string \<Rightarrow> reader \<Rightarrow> wire_error + (nat \<times> reader)" where
  "rd_u16 \<equiv> rd_uint 2"

abbreviation rd_u32 :: "string \<Rightarrow> reader \<Rightarrow> wire_error + (nat \<times> reader)" where
  "rd_u32 \<equiv> rd_uint 4"

abbreviation rd_u64 :: "string \<Rightarrow> reader \<Rightarrow> wire_error + (nat \<times> reader)" where
  "rd_u64 \<equiv> rd_uint 8"

definition rd_i64 :: "string \<Rightarrow> reader \<Rightarrow> wire_error + (int \<times> reader)" where
  "rd_i64 what r = rbind (rd_u64 what r) (\<lambda>(n, r). Inr (sint (of_nat n :: u64), r))"

definition rd_uvarint :: "string \<Rightarrow> reader \<Rightarrow> wire_error + (u64 \<times> reader)" where
  "rd_uvarint what r = rbind (decode_uvarint (drop (rd_pos r) (rd_buf r))) (\<lambda>(v, used). Inr (v, r\<lparr>rd_pos := rd_pos r + used\<rparr>))"

definition rd_bool :: "string \<Rightarrow> reader \<Rightarrow> wire_error + (bool \<times> reader)" where
  "rd_bool what r = rbind (rd_u8 what r) (\<lambda>(b, r). if b = 0 then Inr (False, r) else if b = 1 then Inr (True, r) else Inl (Invalid what))"

text \<open>A \<^verbatim>\<open>u64\<close> always fits \<^verbatim>\<open>usize\<close> on the 64-bit targets.\<close>

definition rd_bytes :: "string \<Rightarrow> reader \<Rightarrow> wire_error + (bytes \<times> reader)" where
  "rd_bytes what r = rbind (rd_uvarint what r) (\<lambda>(len, r). rd_take (unat len) what r)"

definition rd_option_tag :: "string \<Rightarrow> reader \<Rightarrow> wire_error + (bool \<times> reader)" where
  "rd_option_tag what r = rbind (rd_u8 what r) (\<lambda>(b, r). if b = 0 then Inr (False, r) else if b = 1 then Inr (True, r) else Inl (Invalid what))"

section \<open>The writer\<close>

text \<open>A writer is the buffer it has filled; what each method appends:\<close>

definition wr_u8 :: "u8 \<Rightarrow> bytes" where
  "wr_u8 v = [v]"

abbreviation wr_u16 :: "nat \<Rightarrow> bytes" where
  "wr_u16 \<equiv> to_le_bytes 2"

abbreviation wr_u32 :: "nat \<Rightarrow> bytes" where
  "wr_u32 \<equiv> to_le_bytes 4"

abbreviation wr_u64 :: "nat \<Rightarrow> bytes" where
  "wr_u64 \<equiv> to_le_bytes 8"

definition wr_i64 :: "int \<Rightarrow> bytes" where
  "wr_i64 v = to_le_bytes 8 (unat (word_of_int v :: u64))"

definition wr_bool :: "bool \<Rightarrow> bytes" where
  "wr_bool v = [if v then 1 else 0]"

definition wr_bytes :: "bytes \<Rightarrow> bytes" where
  "wr_bytes b = encode_uvarint (of_nat (length b)) @ b"

definition wr_option_tag :: "bool \<Rightarrow> bytes" where
  "wr_option_tag v = [if v then 1 else 0]"

section \<open>What a reader and a writer agree on\<close>

text \<open>A reader that has consumed \<open>pre\<close> and has \<open>s\<close> ahead of it.\<close>

definition reader_at :: "bytes \<Rightarrow> bytes \<Rightarrow> reader" where
  "reader_at pre s = \<lparr>rd_buf = pre @ s, rd_pos = length pre\<rparr>"

definition rd_inv :: "reader \<Rightarrow> bool" where
  "rd_inv r \<longleftrightarrow> rd_pos r \<le> length (rd_buf r)"

lemma reader_new_at: "reader_new s = reader_at [] s"
  by (simp add: reader_new_def reader_at_def)

lemma reader_at_end [simp]: "rd_is_empty (reader_at pre s) \<longleftrightarrow> s = []" "rd_remaining (reader_at pre s) = length s"
  by (simp_all add: rd_is_empty_def rd_remaining_def reader_at_def)

named_theorems wire_read \<open>what reading a written value gives\<close>

text \<open>
  A codec: a value that was written is read back, wherever it stands, and whatever is read is a
  legal value and leaves the cursor inside the buffer.
\<close>

locale wire_codec =
  fixes put :: "'a \<Rightarrow> bytes" and get :: "reader \<Rightarrow> wire_error + ('a \<times> reader)" and ok :: "'a \<Rightarrow> bool"
  assumes get_put: "ok x \<Longrightarrow> length pre + length (put x) + length s < u64_limit \<Longrightarrow>
      get (reader_at pre (put x @ s)) = Inr (x, reader_at (pre @ put x) s)"
    and get_sound: "get r = Inr (x, r') \<Longrightarrow> rd_inv r \<Longrightarrow> ok x \<and> rd_inv r' \<and> rd_buf r' = rd_buf r \<and> rd_pos r \<le> rd_pos r'"
begin

lemma get_whole:
  assumes "ok x" and "length (put x) < u64_limit"
  obtains r where "get (reader_new (put x)) = Inr (x, r)" "rd_is_empty r"
  using get_put [of x "[]" "[]"] assms by (simp add: reader_new_at)

lemma put_inject:
  assumes "ok x" and "ok y" and "length (put x) + length s < u64_limit" and "put x @ s = put y @ t"
  shows "x = y \<and> s = t"
proof -
  have l: "length (put y) + length t < u64_limit" using assms(3) arg_cong [OF assms(4), of length] by simp
  have "get (reader_at [] (put x @ s)) = Inr (x, reader_at (put x) s)" using get_put [of x "[]" s] assms by simp
  moreover have "get (reader_at [] (put x @ s)) = Inr (y, reader_at (put y) t)" using get_put [of y "[]" t] assms l by simp
  ultimately have "Inr (x, reader_at (put x) s) = (Inr (y, reader_at (put y) t) :: wire_error + 'a \<times> reader)" by (rule trans [OF sym])
  then show ?thesis using assms(4) by (auto simp: reader_at_def)
qed

end

lemma rd_take_at [wire_read]:
  assumes "length b = n" and "length pre + n < u64_limit"
  shows "rd_take n what (reader_at pre (b @ s)) = Inr (b, reader_at (pre @ b) s)"
  using assms by (simp add: rd_take_def reader_at_def checked_add_u64_def)

lemma rd_take_sound:
  assumes "rd_take n what r = Inr (b, r')"
  shows "rd_inv r' \<and> length b = n \<and> rd_buf r' = rd_buf r \<and> rd_pos r' = rd_pos r + n \<and> b = bytes_at (rd_buf r) (rd_pos r) n"
  using assms by (auto simp: rd_take_def result_simps rd_inv_def split: if_splits)

lemma rd_u8_sound: "rd_u8 what r = Inr (x, r') \<Longrightarrow> rd_inv r' \<and> rd_buf r' = rd_buf r \<and> rd_pos r' = rd_pos r + 1"
  using rd_take_sound [of 1 what r] by (auto simp: rd_u8_def result_simps)

interpretation u8c: wire_codec wr_u8 "rd_u8 what" "\<lambda>_. True" for what
proof
  show "rd_u8 what (reader_at pre (wr_u8 x @ s)) = Inr (x, reader_at (pre @ wr_u8 x) s)"
    if "length pre + length (wr_u8 x) + length s < u64_limit" for pre x s
    using rd_take_at [of "[x]" 1 pre what s] that by (simp add: rd_u8_def wr_u8_def)
qed (use rd_u8_sound in force)

lemma rd_uint_sound: "rd_uint w what r = Inr (x, r') \<Longrightarrow> x < 256 ^ w \<and> rd_inv r' \<and> rd_buf r' = rd_buf r \<and> rd_pos r' = rd_pos r + w"
  using rd_take_sound [of w what r] from_le_bytes_less by (fastforce simp: rd_uint_def result_simps)

interpretation uintc: wire_codec "to_le_bytes w" "rd_uint w what" "\<lambda>n. n < 256 ^ w" for w what
proof
  show "rd_uint w what (reader_at pre (to_le_bytes w x @ s)) = Inr (x, reader_at (pre @ to_le_bytes w x) s)"
    if "x < 256 ^ w" "length pre + length (to_le_bytes w x) + length s < u64_limit" for pre x s
    using rd_take_at [of "to_le_bytes w x" w pre what s] that by (simp add: rd_uint_def)
qed (use rd_uint_sound in force)

interpretation i64c: wire_codec wr_i64 "rd_i64 what" "\<lambda>v. - (2 ^ 63) \<le> v \<and> v < 2 ^ 63" for what
proof
  show "rd_i64 what (reader_at pre (wr_i64 x @ s)) = Inr (x, reader_at (pre @ wr_i64 x) s)"
    if "- (2 ^ 63) \<le> x \<and> x < 2 ^ 63" "length pre + length (wr_i64 x) + length s < u64_limit" for pre x s
  proof -
    have "unat (word_of_int x :: u64) < 256 ^ 8" using unsigned_less [of "word_of_int x :: u64"] by simp
    then have "rd_u64 what (reader_at pre (wr_i64 x @ s)) = Inr (unat (word_of_int x :: u64), reader_at (pre @ wr_i64 x) s)"
      using uintc.get_put [of "unat (word_of_int x :: u64)" 8 pre s what] that(2) by (simp add: wr_i64_def)
    moreover have "sint (word_of_int x :: u64) = x" using that(1) by (simp add: signed_word_eqI signed_of_int signed_take_bit_int_eq_self)
    ultimately show ?thesis by (simp add: rd_i64_def)
  qed
  show "(- (2 ^ 63) \<le> x \<and> x < 2 ^ 63) \<and> rd_inv r' \<and> rd_buf r' = rd_buf r \<and> rd_pos r \<le> rd_pos r'"
    if "rd_i64 what r = Inr (x, r')" for r x r'
  proof -
    from that obtain n where "rd_u64 what r = Inr (n, r')" and x: "x = sint (of_nat n :: u64)" by (auto simp: rd_i64_def result_simps)
    then show ?thesis using rd_uint_sound [of 8 what r n r'] sint_ge [of "of_nat n :: u64"] sint_lt [of "of_nat n :: u64"] by simp
  qed
qed

interpretation uvarintc: wire_codec encode_uvarint "rd_uvarint what" "\<lambda>_. True" for what
proof
  show "rd_uvarint what (reader_at pre (encode_uvarint x @ s)) = Inr (x, reader_at (pre @ encode_uvarint x) s)" for pre x s
    using decode_uvarint_encoded [of x s] by (simp add: rd_uvarint_def reader_at_def)
  show "True \<and> rd_inv r' \<and> rd_buf r' = rd_buf r \<and> rd_pos r \<le> rd_pos r'" if "rd_uvarint what r = Inr (x, r')" "rd_inv r" for r x r'
  proof -
    from that obtain used where d: "decode_uvarint_from (length (rd_buf r) - rd_pos r) 0 (7 * 0) 0 (drop (rd_pos r) (rd_buf r)) = Inr (x, used)"
      and r': "r' = r\<lparr>rd_pos := rd_pos r + used\<rparr>" by (auto simp: rd_uvarint_def decode_uvarint_def result_simps)
    from decode_uvarint_from_sound [OF d] show ?thesis using that(2) r' by (auto simp: rd_inv_def)
  qed
qed

interpretation boolc: wire_codec wr_bool "rd_bool what" "\<lambda>_. True" for what
proof
  show "rd_bool what (reader_at pre (wr_bool x @ s)) = Inr (x, reader_at (pre @ wr_bool x) s)"
    if "length pre + length (wr_bool x) + length s < u64_limit" for pre x s
    using u8c.get_put [of pre "if x then 1 else 0" s what] that by (simp add: rd_bool_def wr_bool_def wr_u8_def)
qed (use rd_u8_sound in \<open>force simp: rd_bool_def result_simps split: if_splits\<close>)

interpretation tagc: wire_codec wr_option_tag "rd_option_tag what" "\<lambda>_. True" for what
proof
  show "rd_option_tag what (reader_at pre (wr_option_tag x @ s)) = Inr (x, reader_at (pre @ wr_option_tag x) s)"
    if "length pre + length (wr_option_tag x) + length s < u64_limit" for pre x s
    using u8c.get_put [of pre "if x then 1 else 0" s what] that by (simp add: rd_option_tag_def wr_option_tag_def wr_u8_def)
qed (use rd_u8_sound in \<open>force simp: rd_option_tag_def result_simps split: if_splits\<close>)

interpretation bytesc: wire_codec wr_bytes "rd_bytes what" "\<lambda>b. length b < u64_limit" for what
proof
  show "rd_bytes what (reader_at pre (wr_bytes x @ s)) = Inr (x, reader_at (pre @ wr_bytes x) s)"
    if "length x < u64_limit" "length pre + length (wr_bytes x) + length s < u64_limit" for pre x s
  proof -
    have "unat (of_nat (length x) :: u64) = length x" using that(1) by (simp add: unat_of_nat u64_limit_def)
    then show ?thesis using uvarintc.get_put [of pre "of_nat (length x)" "x @ s" what] that
        rd_take_at [of x "length x" "pre @ encode_uvarint (of_nat (length x))" what s]
      by (simp add: rd_bytes_def wr_bytes_def)
  qed
  show "length x < u64_limit \<and> rd_inv r' \<and> rd_buf r' = rd_buf r \<and> rd_pos r \<le> rd_pos r'" if "rd_bytes what r = Inr (x, r')" "rd_inv r" for r x r'
  proof -
    from that(1) obtain n r1 where n: "rd_uvarint what r = Inr (n, r1)" and t: "rd_take (unat n) what r1 = Inr (x, r')" by (auto simp: rd_bytes_def result_simps)
    show ?thesis using uvarintc.get_sound [OF n that(2)] rd_take_sound [OF t] unsigned_less [of n] by (auto simp: u64_limit_def)
  qed
qed

lemmas [wire_read] = u8c.get_put uintc.get_put i64c.get_put uvarintc.get_put boolc.get_put tagc.get_put bytesc.get_put

end
