(* ===== verification/Container.thy ===== *)
theory Container
  imports Wire
begin

text \<open>
  The container of every packed base object (\<^verbatim>\<open>src/src/native_base/wire/container.rs\<close>): the object
  kinds with their magic numbers, the feature bits, and the 64-byte header and footer. The CRC-32C of
  the \<^verbatim>\<open>crc32c\<close> crate is the argument \<open>crc\<close>.
\<close>

section \<open>Parts of a buffer\<close>

lemma bytes_at_skip [simp]: "length xs \<le> a \<Longrightarrow> bytes_at (xs @ ys) a n = bytes_at ys (a - length xs) n"
  by (simp add: bytes_at_def)

lemma bytes_at_whole: "n = length xs \<Longrightarrow> bytes_at xs 0 n = xs"
  by (simp add: bytes_at_def)

lemma bytes_at_first: "n = length xs \<Longrightarrow> bytes_at (xs @ ys) 0 n = xs"
  by (simp add: bytes_at_def)

lemma bytes_at_inside: "a + n \<le> length xs \<Longrightarrow> bytes_at (xs @ ys) a n = bytes_at xs a n"
  by (simp add: bytes_at_def)

lemma bytes_at_join: "a' = a + m \<Longrightarrow> bytes_at d a m @ bytes_at d a' n = bytes_at d a (m + n)"
  by (simp add: bytes_at_def take_add drop_drop add.commute)

lemma bytes_at_nth: "a < length d \<Longrightarrow> bytes_at d a (Suc 0) = [d ! a]"
  by (simp add: bytes_at_def take_Suc hd_drop_conv_nth)

lemma bytes_at_bytes_at: "a + n \<le> m \<Longrightarrow> bytes_at (bytes_at d k m) a n = bytes_at d (k + a) n"
  by (simp add: bytes_at_def drop_take min_def add.commute)

lemma bytes_at_Cons [simp]: "0 < a \<Longrightarrow> bytes_at (x # xs) a n = bytes_at xs (a - 1) n"
  by (simp add: bytes_at_def drop_Cons')

lemmas bytes_at_simps = bytes_at_whole bytes_at_first

section \<open>Kinds, features and codecs\<close>

definition MIN_OBJECT_LEN :: nat where "MIN_OBJECT_LEN = 128"
definition HEADER_LEN :: nat where "HEADER_LEN = 64"
definition FOOTER_LEN :: nat where "FOOTER_LEN = 64"

text \<open>\<^verbatim>\<open>b"BRFEND03"\<close>.\<close>

definition FOOTER_MAGIC :: bytes where
  "FOOTER_MAGIC = [66, 82, 70, 69, 78, 68, 48, 51]"

datatype object_kind = DataPack | DataSeal | FrozenMetadata | SnapshotManifest | PagedInventory

fun object_kind_as_u8 :: "object_kind \<Rightarrow> u8" where
  "object_kind_as_u8 DataPack = 1"
| "object_kind_as_u8 DataSeal = 2"
| "object_kind_as_u8 FrozenMetadata = 3"
| "object_kind_as_u8 SnapshotManifest = 4"
| "object_kind_as_u8 PagedInventory = 5"

text \<open>\<^verbatim>\<open>BRFDP003\<close>, \<^verbatim>\<open>BRFDS003\<close>, \<^verbatim>\<open>BRFCL003\<close>, \<^verbatim>\<open>BRFSM003\<close> and \<^verbatim>\<open>BRFIN003\<close>.\<close>

fun object_magic :: "object_kind \<Rightarrow> bytes" where
  "object_magic DataPack = [66, 82, 70, 68, 80, 48, 48, 51]"
| "object_magic DataSeal = [66, 82, 70, 68, 83, 48, 48, 51]"
| "object_magic FrozenMetadata = [66, 82, 70, 67, 76, 48, 48, 51]"
| "object_magic SnapshotManifest = [66, 82, 70, 83, 77, 48, 48, 51]"
| "object_magic PagedInventory = [66, 82, 70, 73, 78, 48, 48, 51]"

definition object_kind_from_magic :: "bytes \<Rightarrow> wire_error + object_kind" where
  "object_kind_from_magic magic =
     ok_or UnsupportedFormat
       (find (\<lambda>kind. magic = object_magic kind) [DataPack, DataSeal, FrozenMetadata, SnapshotManifest, PagedInventory])"

definition PLAIN_BYTES_FRAMES :: u64 where "PLAIN_BYTES_FRAMES = push_bit 0 1"
definition ZSTD_FRAME_OR_PAGE :: u64 where "ZSTD_FRAME_OR_PAGE = push_bit 1 1"
definition EXTERNAL_INDEX_CHILDREN :: u64 where "EXTERNAL_INDEX_CHILDREN = push_bit 2 1"
definition NATIVE_BLOCK_V1_INNER :: u64 where "NATIVE_BLOCK_V1_INNER = push_bit 3 1"
definition PACKED_DATA_UNCOMPRESSED_BLOCKS :: u64 where "PACKED_DATA_UNCOMPRESSED_BLOCKS = push_bit 4 1"

definition KNOWN_FEATURES :: u64 where
  "KNOWN_FEATURES = PLAIN_BYTES_FRAMES OR ZSTD_FRAME_OR_PAGE OR EXTERNAL_INDEX_CHILDREN OR NATIVE_BLOCK_V1_INNER
     OR PACKED_DATA_UNCOMPRESSED_BLOCKS"

record feature_closure =
  fc_declared :: u64
  fc_content :: u64

definition fc_closure :: "feature_closure \<Rightarrow> u64" where
  "fc_closure f = fc_declared f OR fc_content f"

definition fc_undeclared :: "feature_closure \<Rightarrow> u64" where
  "fc_undeclared f = fc_content f AND NOT (fc_declared f)"

definition fc_ensure_declared :: "feature_closure \<Rightarrow> wire_error + unit" where
  "fc_ensure_declared f = (if fc_undeclared f \<noteq> 0 then Inl UnsupportedFormat else Inr ())"

datatype codec = NoCodec | Zstd

fun codec_as_u8 :: "codec \<Rightarrow> u8" where
  "codec_as_u8 NoCodec = 0"
| "codec_as_u8 Zstd = 2"

definition codec_from_u8 :: "u8 \<Rightarrow> wire_error + codec" where
  "codec_from_u8 v = (if v = 0 then Inr NoCodec else if v = 2 then Inr Zstd else Inl UnsupportedFormat)"

lemma object_magic_simps [simp]: "length (object_magic k) = 8" "object_magic k = object_magic l \<longleftrightarrow> k = l"
  by (cases k; cases l; simp)+

lemma kind_from_magic [simp]: "object_kind_from_magic m = Inr k \<longleftrightarrow> m = object_magic k"
  by (cases k) (auto simp: object_kind_from_magic_def ok_or_Inr_iff split: if_splits)

lemma kind_from_own_magic [simp]: "object_kind_from_magic (object_magic k) = Inr k"
  by simp

lemma codec_from_u8 [simp]: "codec_from_u8 v = Inr c \<longleftrightarrow> v = codec_as_u8 c"
  by (cases c) (auto simp: codec_from_u8_def)

lemma codec_from_own_u8 [simp]: "codec_from_u8 (codec_as_u8 c) = Inr c"
  by simp

section \<open>Header and footer\<close>

definition WIRE_MAJOR :: nat where "WIRE_MAJOR = 3"
definition WIRE_MINOR :: nat where "WIRE_MINOR = 0"

record container_header =
  ch_kind :: object_kind
  ch_features :: u64
  ch_object_len :: nat
  ch_root_offset :: nat
  ch_root_stored_len :: nat
  ch_root_raw_len :: nat
  ch_hash_id :: u8
  ch_root_codec :: codec

definition header_fields :: "container_header \<Rightarrow> bytes" where
  "header_fields h = object_magic (ch_kind h) @ to_le_bytes 2 WIRE_MAJOR @ to_le_bytes 2 WIRE_MINOR @ to_le_bytes 4 HEADER_LEN
     @ to_le_bytes 8 (unat (ch_features h)) @ to_le_bytes 8 (ch_object_len h) @ to_le_bytes 8 (ch_root_offset h)
     @ to_le_bytes 4 (ch_root_stored_len h) @ to_le_bytes 4 (ch_root_raw_len h) @ [ch_hash_id h] @ [codec_as_u8 (ch_root_codec h)]
     @ replicate 10 0"

definition header_encode :: "(bytes \<Rightarrow> u32) \<Rightarrow> container_header \<Rightarrow> bytes" where
  "header_encode crc h = header_fields h @ to_le_bytes 4 (unat (crc (header_fields h)))"

definition header_parse :: "(bytes \<Rightarrow> u32) \<Rightarrow> bytes \<Rightarrow> wire_error + container_header" where
  "header_parse crc b =
     (let what = ''container header'' in
      if length b < HEADER_LEN then Inl (Truncated what HEADER_LEN (length b))
      else rbind (object_kind_from_magic (bytes_at b 0 8)) (\<lambda>kind.
        if from_le_bytes (bytes_at b 8 2) \<noteq> WIRE_MAJOR then Inl UnsupportedFormat
        else if from_le_bytes (bytes_at b 10 2) \<noteq> WIRE_MINOR then Inl UnsupportedFormat
        else if from_le_bytes (bytes_at b 12 4) \<noteq> HEADER_LEN then Inl (Invalid what)
        else let object_len = from_le_bytes (bytes_at b 24 8)
        in if object_len < MIN_OBJECT_LEN then Inl (Invalid what)
        else if b ! 48 \<noteq> 1 then Inl UnsupportedFormat
        else rbind (codec_from_u8 (b ! 49)) (\<lambda>root_codec.
          if list_ex (\<lambda>x. x \<noteq> 0) (bytes_at b 50 10) then Inl (Invalid what)
          else let stored_crc = from_le_bytes (bytes_at b 60 4); computed = unat (crc (bytes_at b 0 60))
          in if stored_crc \<noteq> computed then Inl (CrcMismatch what stored_crc computed)
          else Inr \<lparr>ch_kind = kind, ch_features = of_nat (from_le_bytes (bytes_at b 16 8)), ch_object_len = object_len,
                 ch_root_offset = from_le_bytes (bytes_at b 32 8), ch_root_stored_len = from_le_bytes (bytes_at b 40 4),
                 ch_root_raw_len = from_le_bytes (bytes_at b 44 4), ch_hash_id = b ! 48, ch_root_codec = root_codec\<rparr>)))"

definition ensure_supported_features :: "container_header \<Rightarrow> wire_error + unit" where
  "ensure_supported_features h = (if ch_features h AND NOT KNOWN_FEATURES \<noteq> 0 then Inl UnsupportedFormat else Inr ())"

record container_footer =
  cf_object_len :: nat
  cf_digest :: bytes

definition footer_fields :: "container_footer \<Rightarrow> bytes" where
  "footer_fields f = FOOTER_MAGIC @ to_le_bytes 8 (cf_object_len f) @ cf_digest f @ replicate 12 0"

definition footer_encode :: "(bytes \<Rightarrow> u32) \<Rightarrow> container_footer \<Rightarrow> bytes" where
  "footer_encode crc f = footer_fields f @ to_le_bytes 4 (unat (crc (footer_fields f)))"

definition footer_parse :: "(bytes \<Rightarrow> u32) \<Rightarrow> bytes \<Rightarrow> wire_error + container_footer" where
  "footer_parse crc b =
     (let what = ''container footer'' in
      if length b < FOOTER_LEN then Inl (Truncated what FOOTER_LEN (length b))
      else if bytes_at b 0 8 \<noteq> FOOTER_MAGIC then Inl (Invalid what)
      else if list_ex (\<lambda>x. x \<noteq> 0) (bytes_at b 48 12) then Inl (Invalid what)
      else let stored_crc = from_le_bytes (bytes_at b 60 4); computed = unat (crc (bytes_at b 0 60))
      in if stored_crc \<noteq> computed then Inl (CrcMismatch what stored_crc computed)
      else Inr \<lparr>cf_object_len = from_le_bytes (bytes_at b 8 8), cf_digest = bytes_at b 16 32\<rparr>)"

definition parse_footer :: "(bytes \<Rightarrow> u32) \<Rightarrow> bytes \<Rightarrow> wire_error + container_footer" where
  "parse_footer crc obj =
     (let what = ''container footer'' in
      if length obj < MIN_OBJECT_LEN then Inl (Truncated what MIN_OBJECT_LEN (length obj))
      else rbind (footer_parse crc (drop (length obj - FOOTER_LEN) obj)) (\<lambda>f.
        if cf_object_len f \<noteq> length obj then Inl (Invalid what) else Inr f))"

definition header_ok :: "container_header \<Rightarrow> bool" where
  "header_ok h \<longleftrightarrow> MIN_OBJECT_LEN \<le> ch_object_len h \<and> ch_object_len h < u64_limit \<and> ch_root_offset h < u64_limit
     \<and> ch_root_stored_len h < u32_limit \<and> ch_root_raw_len h < u32_limit \<and> ch_hash_id h = 1"

definition footer_ok :: "container_footer \<Rightarrow> bool" where
  "footer_ok f \<longleftrightarrow> cf_object_len f < u64_limit \<and> length (cf_digest f) = 32"

lemmas container_consts = MIN_OBJECT_LEN_def HEADER_LEN_def FOOTER_LEN_def WIRE_MAJOR_def WIRE_MINOR_def u64_limit_def u32_limit_def

lemma length_header_fields [simp]: "length (header_fields h) = 60"
  by (simp add: header_fields_def)

lemma length_header_encode [simp]: "length (header_encode crc h) = 64"
  by (simp add: header_encode_def)

lemma length_footer_encode: "length (cf_digest f) = 32 \<Longrightarrow> length (footer_encode crc f) = 64"
  by (simp add: footer_encode_def footer_fields_def FOOTER_MAGIC_def)

lemma unat_u32_less: "unat (x :: u32) < 4294967296"
  using unsigned_less [of x] by simp

lemma list_ex_nonzero: "list_ex (\<lambda>x. x \<noteq> 0) xs \<longleftrightarrow> xs \<noteq> replicate (length xs) (0 :: u8)"
proof -
  have "(\<forall>x\<in>set xs. x = 0) \<longleftrightarrow> xs = replicate (length xs) 0" by (metis replicate_eqI in_set_replicate)
  then show ?thesis by (auto simp: list_ex_iff)
qed

lemma header_parse_encode:
  assumes "header_ok h"
  shows "header_parse crc (header_encode crc h @ rest) = Inr h"
proof -
  let ?b = "header_encode crc h @ rest"
  have b: "?b = header_fields h @ to_le_bytes 4 (unat (crc (header_fields h))) @ rest" by (simp add: header_encode_def)
  have nth: "?b ! 48 = ch_hash_id h" "?b ! 49 = codec_as_u8 (ch_root_codec h)"
    by (simp_all add: header_encode_def header_fields_def nth_append)
  have crc: "bytes_at ?b 0 60 = header_fields h" "bytes_at ?b 60 4 = to_le_bytes 4 (unat (crc (header_fields h)))"
    unfolding b by (simp_all add: bytes_at_simps)
  have f: "bytes_at ?b 0 8 = object_magic (ch_kind h)" "bytes_at ?b 8 2 = to_le_bytes 2 WIRE_MAJOR" "bytes_at ?b 10 2 = to_le_bytes 2 WIRE_MINOR"
    "bytes_at ?b 12 4 = to_le_bytes 4 HEADER_LEN" "bytes_at ?b 16 8 = to_le_bytes 8 (unat (ch_features h))" "bytes_at ?b 24 8 = to_le_bytes 8 (ch_object_len h)"
    "bytes_at ?b 32 8 = to_le_bytes 8 (ch_root_offset h)" "bytes_at ?b 40 4 = to_le_bytes 4 (ch_root_stored_len h)"
    "bytes_at ?b 44 4 = to_le_bytes 4 (ch_root_raw_len h)" "bytes_at ?b 50 10 = replicate 10 0"
    unfolding header_encode_def header_fields_def append_assoc by (simp_all add: bytes_at_simps)
  have "unat (ch_features h) < 18446744073709551616" using unsigned_less [of "ch_features h"] by simp
  then have n: "from_le_bytes (bytes_at ?b 16 8) = unat (ch_features h)" "from_le_bytes (bytes_at ?b 8 2) = WIRE_MAJOR"
    "from_le_bytes (bytes_at ?b 10 2) = WIRE_MINOR" "from_le_bytes (bytes_at ?b 12 4) = HEADER_LEN" "from_le_bytes (bytes_at ?b 24 8) = ch_object_len h"
    "from_le_bytes (bytes_at ?b 32 8) = ch_root_offset h" "from_le_bytes (bytes_at ?b 40 4) = ch_root_stored_len h"
    "from_le_bytes (bytes_at ?b 44 4) = ch_root_raw_len h" "from_le_bytes (bytes_at ?b 60 4) = unat (crc (header_fields h))"
    using assms unat_u32_less [of "crc (header_fields h)"] by (simp_all add: f crc header_ok_def container_consts)
  have "\<not> length ?b < HEADER_LEN" "\<not> list_ex (\<lambda>x. x \<noteq> 0) (bytes_at ?b 50 10)" by (simp_all add: HEADER_LEN_def f(10) list_ex_nonzero)
  moreover have "object_kind_from_magic (bytes_at ?b 0 8) = Inr (ch_kind h)" "codec_from_u8 (?b ! 49) = Inr (ch_root_codec h)" by (simp_all add: f(1) nth(2))
  ultimately show ?thesis using assms unfolding header_parse_def Let_def n crc(1) by (simp add: header_ok_def nth(1))
qed

lemma header_parse_sound:
  assumes p: "header_parse crc b = Inr h"
  shows "header_ok h \<and> 64 \<le> length b \<and> bytes_at b 0 64 = header_encode crc h"
proof -
  have l: "64 \<le> length b" using p by (auto simp: header_parse_def HEADER_LEN_def Let_def split: if_splits)
  from p l obtain c where k: "bytes_at b 0 8 = object_magic (ch_kind h)" and c: "b ! 49 = codec_as_u8 (ch_root_codec h)"
    and v: "from_le_bytes (bytes_at b 8 2) = WIRE_MAJOR" "from_le_bytes (bytes_at b 10 2) = WIRE_MINOR" "from_le_bytes (bytes_at b 12 4) = HEADER_LEN"
    and z: "bytes_at b 50 10 = replicate 10 0" and crc: "from_le_bytes (bytes_at b 60 4) = unat (crc (bytes_at b 0 60))"
    and f: "ch_features h = of_nat (from_le_bytes (bytes_at b 16 8))" "ch_object_len h = from_le_bytes (bytes_at b 24 8)"
      "ch_root_offset h = from_le_bytes (bytes_at b 32 8)" "ch_root_stored_len h = from_le_bytes (bytes_at b 40 4)"
      "ch_root_raw_len h = from_le_bytes (bytes_at b 44 4)" "ch_hash_id h = b ! 48" "b ! 48 = 1" "MIN_OBJECT_LEN \<le> ch_object_len h"
    by (auto simp: header_parse_def Let_def result_simps list_ex_nonzero split: if_splits)
  have le: "from_le_bytes (bytes_at b a n) < 256 ^ n" if "a + n \<le> length b" for a n
    using from_le_bytes_less [of "bytes_at b a n"] that by simp
  have "unat (ch_features h) = from_le_bytes (bytes_at b 16 8)" using le [of 16 8] l by (simp add: f(1) unat_of_nat)
  then have refill: "to_le_bytes 8 (unat (ch_features h)) = bytes_at b 16 8" "to_le_bytes 8 (ch_object_len h) = bytes_at b 24 8"
    "to_le_bytes 8 (ch_root_offset h) = bytes_at b 32 8" "to_le_bytes 4 (ch_root_stored_len h) = bytes_at b 40 4"
    "to_le_bytes 4 (ch_root_raw_len h) = bytes_at b 44 4" "to_le_bytes 2 WIRE_MAJOR = bytes_at b 8 2" "to_le_bytes 2 WIRE_MINOR = bytes_at b 10 2"
    "to_le_bytes 4 HEADER_LEN = bytes_at b 12 4" "to_le_bytes 4 (unat (crc (bytes_at b 0 60))) = bytes_at b 60 4"
    "[ch_hash_id h] = bytes_at b 48 1" "[codec_as_u8 (ch_root_codec h)] = bytes_at b 49 1"
    using l by (simp_all add: f(2-6) v [symmetric] crc [symmetric] c [symmetric] bytes_at_nth)
  have fields: "header_fields h = bytes_at b 0 60" unfolding header_fields_def refill k [symmetric] z [symmetric]
    by (simp add: bytes_at_join append_assoc [symmetric] del: append_assoc)
  have "header_encode crc h = bytes_at b 0 64" unfolding header_encode_def fields refill by (simp add: bytes_at_join)
  moreover have "header_ok h" using le [of 24 8] le [of 32 8] le [of 40 4] le [of 44 4] l f by (simp add: header_ok_def container_consts)
  ultimately show ?thesis using l by simp
qed

lemma footer_parse_encode:
  assumes "footer_ok f"
  shows "footer_parse crc (footer_encode crc f) = Inr f"
proof -
  let ?b = "footer_encode crc f"
  have d: "length (cf_digest f) = 32" and n: "cf_object_len f < 256 ^ 8" using assms by (simp_all add: footer_ok_def u64_limit_def)
  then have l: "length (footer_fields f) = 60" by (simp add: footer_fields_def FOOTER_MAGIC_def)
  have m: "length FOOTER_MAGIC = 8" by (simp add: FOOTER_MAGIC_def)
  have f: "bytes_at ?b 0 8 = FOOTER_MAGIC" "bytes_at ?b 8 8 = to_le_bytes 8 (cf_object_len f)" "bytes_at ?b 16 32 = cf_digest f" "bytes_at ?b 48 12 = replicate 12 0"
    using d m unfolding footer_encode_def footer_fields_def append_assoc by (simp_all add: bytes_at_simps)
  have c: "bytes_at ?b 0 60 = footer_fields f" "bytes_at ?b 60 4 = to_le_bytes 4 (unat (crc (footer_fields f)))"
    using l unfolding footer_encode_def by (simp_all add: bytes_at_simps)
  have "from_le_bytes (bytes_at ?b 60 4) = unat (crc (footer_fields f))" using unat_u32_less by (simp add: c)
  moreover have "\<not> list_ex (\<lambda>x. x \<noteq> 0) (bytes_at ?b 48 12)" by (simp add: f list_ex_nonzero)
  ultimately show ?thesis using n by (simp add: footer_parse_def length_footer_encode [OF d] FOOTER_LEN_def Let_def f c)
qed

lemma footer_parse_sound:
  assumes p: "footer_parse crc b = Inr f" and l: "length b = 64"
  shows "footer_ok f \<and> b = footer_encode crc f"
proof -
  from p l have k: "bytes_at b 0 8 = FOOTER_MAGIC" and z: "bytes_at b 48 12 = replicate 12 0"
    and crc: "from_le_bytes (bytes_at b 60 4) = unat (crc (bytes_at b 0 60))"
    and f: "cf_object_len f = from_le_bytes (bytes_at b 8 8)" "cf_digest f = bytes_at b 16 32"
    by (auto simp: footer_parse_def Let_def list_ex_nonzero split: if_splits)
  have r: "to_le_bytes 8 (cf_object_len f) = bytes_at b 8 8" "to_le_bytes 4 (unat (crc (bytes_at b 0 60))) = bytes_at b 60 4"
    using l by (simp_all add: f(1) crc [symmetric])
  have fields: "footer_fields f = bytes_at b 0 60" unfolding footer_fields_def r k [symmetric] z [symmetric] f(2)
    by (simp add: bytes_at_join append_assoc [symmetric] del: append_assoc)
  have "footer_encode crc f = bytes_at b 0 64" unfolding footer_encode_def fields r by (simp add: bytes_at_join)
  moreover have "bytes_at b 0 64 = b" using l by (simp add: bytes_at_whole)
  moreover have "footer_ok f" using l from_le_bytes_less [of "bytes_at b 8 8"] by (simp add: footer_ok_def u64_limit_def f)
  ultimately show ?thesis by simp
qed

lemma parse_footer_encode:
  assumes "footer_ok f" and "cf_object_len f = length pre + 64" and "64 \<le> length pre"
  shows "parse_footer crc (pre @ footer_encode crc f) = Inr f"
proof -
  have l: "length (footer_encode crc f) = 64" using assms(1) by (simp add: footer_ok_def length_footer_encode)
  then show ?thesis using assms footer_parse_encode [OF assms(1)] by (simp add: parse_footer_def Let_def container_consts)
qed

lemma parse_footer_sound:
  assumes "parse_footer crc obj = Inr f"
  shows "footer_ok f \<and> cf_object_len f = length obj \<and> 128 \<le> length obj \<and> obj = take (length obj - 64) obj @ footer_encode crc f"
proof -
  from assms have l: "128 \<le> length obj" and f: "footer_parse crc (drop (length obj - 64) obj) = Inr f" and n: "cf_object_len f = length obj"
    by (auto simp: parse_footer_def Let_def container_consts result_simps split: if_splits)
  have "length (drop (length obj - 64) obj) = 64" using l by simp
  from footer_parse_sound [OF f this] show ?thesis using l n append_take_drop_id [of "length obj - 64" obj] by metis
qed

end
