(* ===== verification/Frame.thy ===== *)
theory Frame
  imports Container
begin

text \<open>
  Frames of a data pack (\<^verbatim>\<open>src/src/native_base/wire/frame.rs\<close>): the 80-byte header, the payload codec
  and the frame record inside an object. SHA-256 and the Zstd functions of the \<^verbatim>\<open>zstd\<close> crate are
  the arguments \<open>sha\<close>, \<open>compress\<close> and \<open>decompress\<close>.
\<close>

definition FRAME_HEADER_LEN :: nat where "FRAME_HEADER_LEN = 80"

text \<open>\<^verbatim>\<open>b"BNFR"\<close>.\<close>

definition FRAME_MAGIC :: bytes where "FRAME_MAGIC = [66, 78, 70, 82]"
definition FRAME_VERSION :: u8 where "FRAME_VERSION = 1"
definition ALIGNMENT :: nat where "ALIGNMENT = 8"
definition MAX_PLAIN_PAYLOAD :: nat where "MAX_PLAIN_PAYLOAD = 64 * 1024 * 1024"
definition MAX_NATIVE_OUTER_PAYLOAD :: nat where "MAX_NATIVE_OUTER_PAYLOAD = 65 * 1024 * 1024"
definition MAX_ENCODED_FRAME_PAYLOAD :: nat where "MAX_ENCODED_FRAME_PAYLOAD = 65 * 1024 * 1024"

datatype payload_format = PlainBytes | NativeBlockV1

fun payload_format_as_u8 :: "payload_format \<Rightarrow> u8" where
  "payload_format_as_u8 PlainBytes = 0"
| "payload_format_as_u8 NativeBlockV1 = 1"

definition payload_format_from_u8 :: "u8 \<Rightarrow> wire_error + payload_format" where
  "payload_format_from_u8 v = (if v = 0 then Inr PlainBytes else if v = 1 then Inr NativeBlockV1 else Inl UnsupportedFormat)"

fun max_raw_payload :: "payload_format \<Rightarrow> nat" where
  "max_raw_payload PlainBytes = MAX_PLAIN_PAYLOAD"
| "max_raw_payload NativeBlockV1 = MAX_NATIVE_OUTER_PAYLOAD"

fun feature_bit :: "payload_format \<Rightarrow> u64" where
  "feature_bit PlainBytes = PLAIN_BYTES_FRAMES"
| "feature_bit NativeBlockV1 = NATIVE_BLOCK_V1_INNER"

record frame_header =
  fh_format :: payload_format
  fh_codec :: codec
  fh_ordinal :: nat
  fh_stored_len :: nat
  fh_raw_len :: nat
  fh_raw_digest :: bytes

definition frame_fields :: "frame_header \<Rightarrow> bytes" where
  "frame_fields h = FRAME_MAGIC @ [FRAME_VERSION] @ [payload_format_as_u8 (fh_format h)] @ [codec_as_u8 (fh_codec h)] @ [0]
     @ to_le_bytes 8 (fh_ordinal h) @ to_le_bytes 4 (fh_stored_len h) @ to_le_bytes 4 (fh_raw_len h) @ fh_raw_digest h @ replicate 20 0"

definition frame_encode :: "(bytes \<Rightarrow> u32) \<Rightarrow> frame_header \<Rightarrow> bytes" where
  "frame_encode crc h = frame_fields h @ to_le_bytes 4 (unat (crc (frame_fields h)))"

definition frame_parse :: "(bytes \<Rightarrow> u32) \<Rightarrow> bytes \<Rightarrow> wire_error + frame_header" where
  "frame_parse crc b =
     (let what = ''frame header'' in
      if length b < FRAME_HEADER_LEN then Inl (Truncated what FRAME_HEADER_LEN (length b))
      else if bytes_at b 0 4 \<noteq> FRAME_MAGIC then Inl (Invalid what)
      else if b ! 4 \<noteq> FRAME_VERSION then Inl UnsupportedFormat
      else rbind (payload_format_from_u8 (b ! 5)) (\<lambda>format. rbind (codec_from_u8 (b ! 6)) (\<lambda>cdc.
        if b ! 7 \<noteq> 0 then Inl (Invalid what)
        else let stored_len = from_le_bytes (bytes_at b 16 4); raw_len = from_le_bytes (bytes_at b 20 4)
        in if list_ex (\<lambda>x. x \<noteq> 0) (bytes_at b 56 20) then Inl (Invalid what)
        else let stored_crc = from_le_bytes (bytes_at b 76 4); computed = unat (crc (bytes_at b 0 76))
        in if stored_crc \<noteq> computed then Inl (CrcMismatch what stored_crc computed)
        else if MAX_ENCODED_FRAME_PAYLOAD < stored_len then Inl LimitExceeded
        else if max_raw_payload format < raw_len then Inl LimitExceeded
        else if format = NativeBlockV1 \<and> cdc \<noteq> NoCodec then Inl (Invalid what)
        else if cdc = NoCodec \<and> stored_len \<noteq> raw_len then Inl (Invalid what)
        else Inr \<lparr>fh_format = format, fh_codec = cdc, fh_ordinal = from_le_bytes (bytes_at b 8 8), fh_stored_len = stored_len,
               fh_raw_len = raw_len, fh_raw_digest = bytes_at b 24 32\<rparr>)))"

definition decode_payload ::
  "(bytes \<Rightarrow> bytes) \<Rightarrow> (bytes \<Rightarrow> nat \<Rightarrow> bytes option) \<Rightarrow> frame_header \<Rightarrow> bytes \<Rightarrow> wire_error + bytes" where
  "decode_payload sha decompress h stored =
     (if length stored \<noteq> fh_stored_len h then Inl (Invalid ''frame payload'')
      else rbind (case fh_codec h of
          NoCodec \<Rightarrow> Inr stored
        | Zstd \<Rightarrow> rbind (ok_or CodecError (decompress stored (fh_raw_len h))) (\<lambda>out.
            if length out \<noteq> fh_raw_len h then Inl (Invalid ''frame payload'') else Inr out)) (\<lambda>raw.
        if sha raw \<noteq> fh_raw_digest h then Inl (HashMismatch ''frame raw payload'' (fh_raw_digest h) (sha raw)) else Inr raw))"

definition stored_digest :: "(bytes \<Rightarrow> u32) \<Rightarrow> (bytes \<Rightarrow> bytes) \<Rightarrow> frame_header \<Rightarrow> bytes \<Rightarrow> bytes" where
  "stored_digest crc sha h stored = sha (frame_encode crc h @ stored)"

definition frame_span :: "frame_header \<Rightarrow> nat" where
  "frame_span h = div_ceil (FRAME_HEADER_LEN + fh_stored_len h) ALIGNMENT * ALIGNMENT"

definition zstd_encode :: "(bytes \<Rightarrow> int \<Rightarrow> bytes option) \<Rightarrow> bytes \<Rightarrow> int \<Rightarrow> wire_error + bytes" where
  "zstd_encode compress raw level = ok_or CodecError (compress raw level)"

text \<open>
  The record at \<open>offset\<close> of an object. Callers pass an \<open>end\<close> inside the object, so the slices below
  do not panic.
\<close>

definition read_frame_at :: "(bytes \<Rightarrow> u32) \<Rightarrow> bytes \<Rightarrow> nat \<Rightarrow> nat \<Rightarrow> wire_error + (frame_header \<times> bytes)" where
  "read_frame_at crc obj offset fin =
     (let what = ''frame'' in
      if fin \<le> offset then Inl (Invalid what)
      else if length obj < offset \<or> length obj - offset < FRAME_HEADER_LEN then Inl (Truncated what FRAME_HEADER_LEN (length obj - offset))
      else rbind (frame_parse crc (bytes_at obj offset FRAME_HEADER_LEN)) (\<lambda>h.
        let payload_start = offset + FRAME_HEADER_LEN; span = frame_span h
        in rbind (ok_or (Invalid what) (checked_add_u64 payload_start (fh_stored_len h))) (\<lambda>payload_end.
           rbind (ok_or (Invalid what) (checked_add_u64 offset span)) (\<lambda>frame_end.
             if fin < frame_end then Inl (Invalid what)
             else if list_ex (\<lambda>x. x \<noteq> 0) (bytes_at obj payload_end (frame_end - payload_end)) then Inl (Invalid what)
             else Inr (h, bytes_at obj payload_start (payload_end - payload_start))))))"

section \<open>Headers round trip\<close>

definition frame_ok :: "frame_header \<Rightarrow> bool" where
  "frame_ok h \<longleftrightarrow> fh_ordinal h < u64_limit \<and> fh_stored_len h \<le> MAX_ENCODED_FRAME_PAYLOAD \<and> fh_raw_len h \<le> max_raw_payload (fh_format h)
     \<and> (fh_format h = NativeBlockV1 \<longrightarrow> fh_codec h = NoCodec) \<and> (fh_codec h = NoCodec \<longrightarrow> fh_stored_len h = fh_raw_len h)
     \<and> length (fh_raw_digest h) = 32"

lemmas frame_consts = FRAME_HEADER_LEN_def ALIGNMENT_def MAX_PLAIN_PAYLOAD_def MAX_NATIVE_OUTER_PAYLOAD_def MAX_ENCODED_FRAME_PAYLOAD_def

lemma payload_format_from_u8 [simp]: "payload_format_from_u8 v = Inr f \<longleftrightarrow> v = payload_format_as_u8 f"
  by (cases f) (auto simp: payload_format_from_u8_def)

lemma payload_format_from_own_u8 [simp]: "payload_format_from_u8 (payload_format_as_u8 f) = Inr f"
  by simp

lemma max_raw_payload_less: "max_raw_payload f < 4294967296"
  by (cases f) (simp_all add: frame_consts)

lemma length_frame_fields: "length (fh_raw_digest h) = 32 \<Longrightarrow> length (frame_fields h) = 76"
  by (simp add: frame_fields_def FRAME_MAGIC_def)

lemma length_frame_encode [simp]: "frame_ok h \<Longrightarrow> length (frame_encode crc h) = 80"
  by (simp add: frame_encode_def frame_ok_def length_frame_fields)

lemma frame_parse_encode:
  assumes ok: "frame_ok h"
  shows "frame_parse crc (frame_encode crc h) = Inr h"
proof -
  let ?b = "frame_encode crc h"
  have d: "length (fh_raw_digest h) = 32" and m: "length FRAME_MAGIC = 4" using ok by (simp_all add: frame_ok_def FRAME_MAGIC_def)
  have l: "length (frame_fields h) = 76" using d by (rule length_frame_fields)
  have nth: "?b ! 4 = FRAME_VERSION" "?b ! 5 = payload_format_as_u8 (fh_format h)" "?b ! 6 = codec_as_u8 (fh_codec h)" "?b ! 7 = 0"
    using m by (simp_all add: frame_encode_def frame_fields_def nth_append)
  have f: "bytes_at ?b 0 4 = FRAME_MAGIC" "bytes_at ?b 8 8 = to_le_bytes 8 (fh_ordinal h)" "bytes_at ?b 16 4 = to_le_bytes 4 (fh_stored_len h)"
    "bytes_at ?b 20 4 = to_le_bytes 4 (fh_raw_len h)" "bytes_at ?b 24 32 = fh_raw_digest h" "bytes_at ?b 56 20 = replicate 20 0"
    using m d unfolding frame_encode_def frame_fields_def append_assoc by (simp_all add: bytes_at_simps)
  have c: "bytes_at ?b 0 76 = frame_fields h" "bytes_at ?b 76 4 = to_le_bytes 4 (unat (crc (frame_fields h)))"
    using l unfolding frame_encode_def by (simp_all add: bytes_at_simps)
  have n: "from_le_bytes (bytes_at ?b 76 4) = unat (crc (frame_fields h))" "from_le_bytes (bytes_at ?b 8 8) = fh_ordinal h"
    "from_le_bytes (bytes_at ?b 16 4) = fh_stored_len h" "from_le_bytes (bytes_at ?b 20 4) = fh_raw_len h"
    using ok max_raw_payload_less [of "fh_format h"] unat_u32_less by (simp_all add: c f frame_ok_def frame_consts u64_limit_def)
  have z: "\<not> list_ex (\<lambda>x. x \<noteq> 0) (bytes_at ?b 56 20)" by (simp add: f list_ex_nonzero)
  show ?thesis using ok z by (simp add: frame_parse_def FRAME_HEADER_LEN_def Let_def nth f(1,5) c(1) n frame_ok_def)
qed

lemma frame_parse_sound:
  assumes p: "frame_parse crc b = Inr h" and l: "length b = 80"
  shows "frame_ok h \<and> b = frame_encode crc h"
proof -
  from p l have k: "bytes_at b 0 4 = FRAME_MAGIC" "b ! 4 = FRAME_VERSION" "b ! 5 = payload_format_as_u8 (fh_format h)" "b ! 6 = codec_as_u8 (fh_codec h)" "b ! 7 = 0"
    and z: "bytes_at b 56 20 = replicate 20 0" and crc: "from_le_bytes (bytes_at b 76 4) = unat (crc (bytes_at b 0 76))"
    and f: "fh_ordinal h = from_le_bytes (bytes_at b 8 8)" "fh_stored_len h = from_le_bytes (bytes_at b 16 4)" "fh_raw_len h = from_le_bytes (bytes_at b 20 4)"
      "fh_raw_digest h = bytes_at b 24 32"
    and ok: "fh_stored_len h \<le> MAX_ENCODED_FRAME_PAYLOAD" "fh_raw_len h \<le> max_raw_payload (fh_format h)" "fh_format h = NativeBlockV1 \<longrightarrow> fh_codec h = NoCodec"
      "fh_codec h = NoCodec \<longrightarrow> fh_stored_len h = fh_raw_len h"
    by (auto simp: frame_parse_def Let_def result_simps list_ex_nonzero split: if_splits)
  have r: "to_le_bytes 8 (fh_ordinal h) = bytes_at b 8 8" "to_le_bytes 4 (fh_stored_len h) = bytes_at b 16 4" "to_le_bytes 4 (fh_raw_len h) = bytes_at b 20 4"
    "to_le_bytes 4 (unat (crc (bytes_at b 0 76))) = bytes_at b 76 4" "[FRAME_VERSION] = bytes_at b 4 1" "[payload_format_as_u8 (fh_format h)] = bytes_at b 5 1"
    "[codec_as_u8 (fh_codec h)] = bytes_at b 6 1" "[0] = bytes_at b 7 1"
    using l by (simp_all add: f(1-3) crc [symmetric] k(2-4) [symmetric] bytes_at_nth k(5))
  have fields: "frame_fields h = bytes_at b 0 76" unfolding frame_fields_def r k(1) [symmetric] z [symmetric] f(4)
    by (simp add: bytes_at_join append_assoc [symmetric] del: append_assoc)
  have "frame_encode crc h = bytes_at b 0 80" unfolding frame_encode_def fields r by (simp add: bytes_at_join)
  moreover have "bytes_at b 0 80 = b" using l by (simp add: bytes_at_whole)
  moreover have "frame_ok h" using l ok from_le_bytes_less [of "bytes_at b 8 8"] by (simp add: frame_ok_def u64_limit_def f(1,4))
  ultimately show ?thesis by simp
qed

section \<open>Frame records\<close>

text \<open>A record with its padding, as the builder writes it.\<close>

definition frame_record :: "(bytes \<Rightarrow> u32) \<Rightarrow> frame_header \<Rightarrow> bytes \<Rightarrow> bytes" where
  "frame_record crc h stored = frame_encode crc h @ stored @ replicate (frame_span h - FRAME_HEADER_LEN - length stored) 0"

lemma frame_span_bounds: "80 + fh_stored_len h \<le> frame_span h" "frame_span h < 88 + fh_stored_len h" "8 dvd frame_span h"
  by (auto simp: frame_span_def div_ceil_def frame_consts) presburger+

lemma length_frame_record: "frame_ok h \<Longrightarrow> length stored = fh_stored_len h \<Longrightarrow> length (frame_record crc h stored) = frame_span h"
  using frame_span_bounds(1) [of h] by (simp add: frame_record_def FRAME_HEADER_LEN_def)

lemma read_frame_at_record:
  assumes ok: "frame_ok h" and st: "length stored = fh_stored_len h" and fin: "length pre + frame_span h \<le> fin" "fin < u64_limit"
  shows "read_frame_at crc (pre @ frame_record crc h stored @ post) (length pre) fin = Inr (h, stored)"
proof -
  let ?obj = "pre @ frame_record crc h stored @ post"
  have e: "length (frame_encode crc h) = 80" using ok by simp
  have s: "80 + fh_stored_len h \<le> frame_span h" by (rule frame_span_bounds)
  have "bytes_at ?obj (length pre) 80 = frame_encode crc h" "bytes_at ?obj (length pre + 80) (fh_stored_len h) = stored"
    "bytes_at ?obj (length pre + 80 + fh_stored_len h) (frame_span h - (80 + fh_stored_len h)) = replicate (frame_span h - 80 - length stored) 0"
    using e st s unfolding frame_record_def append_assoc FRAME_HEADER_LEN_def by (simp_all add: bytes_at_simps)
  moreover have "length ?obj = length pre + frame_span h + length post" using length_frame_record [OF ok st] by simp
  moreover have "length pre + 80 + fh_stored_len h < u64_limit" "length pre + frame_span h < u64_limit" using fin s by simp_all
  ultimately show ?thesis using fin(1) s frame_parse_encode [OF ok, of crc]
    by (simp add: read_frame_at_def FRAME_HEADER_LEN_def Let_def list_ex_nonzero checked_add_u64_def)
qed

lemma read_frame_at_sound:
  assumes r: "read_frame_at crc obj off fin = Inr (h, stored)" and fin: "fin \<le> length obj"
  shows "frame_ok h \<and> length stored = fh_stored_len h \<and> off + frame_span h \<le> fin \<and> bytes_at obj off (frame_span h) = frame_record crc h stored"
proof -
  from r have p: "frame_parse crc (bytes_at obj off 80) = Inr h" and l: "off + 80 \<le> length obj" and e: "off + frame_span h \<le> fin"
    and z: "\<not> list_ex (\<lambda>x. x \<noteq> 0) (bytes_at obj (off + 80 + fh_stored_len h) (off + frame_span h - (off + 80 + fh_stored_len h)))"
    and s: "stored = bytes_at obj (off + 80) (fh_stored_len h)"
    by (auto simp: read_frame_at_def FRAME_HEADER_LEN_def Let_def result_simps split: if_splits)
  have h: "frame_ok h" "bytes_at obj off 80 = frame_encode crc h" using frame_parse_sound [OF p] l by simp_all
  have b: "80 + fh_stored_len h \<le> frame_span h" by (rule frame_span_bounds)
  have len: "length stored = fh_stored_len h" using s b e fin by simp
  have pad: "bytes_at obj (off + (80 + fh_stored_len h)) (frame_span h - 80 - fh_stored_len h) = replicate (frame_span h - 80 - fh_stored_len h) 0"
    using z b e fin by (simp add: list_ex_nonzero add.assoc)
  have "frame_record crc h stored = frame_encode crc h @ stored @ replicate (frame_span h - 80 - fh_stored_len h) 0"
    by (simp add: frame_record_def FRAME_HEADER_LEN_def len)
  also have "\<dots> = bytes_at obj off 80 @ bytes_at obj (off + 80) (fh_stored_len h)
      @ bytes_at obj (off + (80 + fh_stored_len h)) (frame_span h - 80 - fh_stored_len h)" by (simp only: h(2) pad s)
  also have "\<dots> = bytes_at obj off (frame_span h)" using b by (simp add: bytes_at_join append_assoc [symmetric] del: append_assoc)
  finally have "frame_record crc h stored = bytes_at obj off (frame_span h)" .
  then show ?thesis using h(1) len e by simp
qed

end
