(* ===== verification/DataPacks.thy ===== *)
theory DataPacks
  imports Frame
begin

text \<open>
  Data packs (\<^verbatim>\<open>src/src/native_base/wire/datapack.rs\<close>): the builder that lays frames out between a
  container header and footer, and the scrub that walks and verifies every byte of a pack.
\<close>

section \<open>Scrubbing\<close>

record scrubbed_frame =
  sf_header :: frame_header
  sf_offset :: nat
  sf_stored :: bytes
  sf_raw :: bytes

record scrubbed_pack =
  sp_header :: container_header
  sp_frames :: "scrubbed_frame list"
  sp_footer :: container_footer
  sp_full_hash :: bytes
  sp_closure :: feature_closure

definition content_bits :: "payload_format \<Rightarrow> codec \<Rightarrow> u64" where
  "content_bits format cdc = feature_bit format OR (if cdc = Zstd then ZSTD_FRAME_OR_PAGE else 0)"

text \<open>The loop over the frames: the frames found, the offset it stops at and the feature bits they need.\<close>

function scrub_frames ::
  "(bytes \<Rightarrow> u32) \<Rightarrow> (bytes \<Rightarrow> bytes) \<Rightarrow> (bytes \<Rightarrow> nat \<Rightarrow> bytes option) \<Rightarrow> bytes \<Rightarrow> nat \<Rightarrow> nat \<Rightarrow> nat \<Rightarrow> u64
   \<Rightarrow> wire_error + (scrubbed_frame list \<times> nat \<times> u64)" where
  "scrub_frames crc sha decompress obj body_end offset expected content =
     (if offset < body_end
      then rbind (read_frame_at crc obj offset body_end) (\<lambda>(fh, stored).
        if fh_ordinal fh \<noteq> expected then Inl (Invalid ''frame ordinal'')
        else let content' = content OR content_bits (fh_format fh) (fh_codec fh)
        in rbind (decode_payload sha decompress fh stored) (\<lambda>raw.
           rbind (scrub_frames crc sha decompress obj body_end (offset + frame_span fh) (expected + 1) content') (\<lambda>(frames, fin, bits).
             Inr (\<lparr>sf_header = fh, sf_offset = offset, sf_stored = stored, sf_raw = raw\<rparr> # frames, fin, bits))))
      else Inr ([], offset, content))"
  by auto

termination
proof (relation "measure (\<lambda>(crc, sha, decompress, obj, body_end, offset, expected, content). body_end - offset)", goal_cases)
  case 1
  then show ?case by simp
next
  case (2 crc sha decompress obj body_end offset expected content x fh stored)
  then show ?case using frame_span_bounds(1) [of fh] by simp
qed

declare scrub_frames.simps [simp del]

definition scrub :: "(bytes \<Rightarrow> u32) \<Rightarrow> (bytes \<Rightarrow> bytes) \<Rightarrow> (bytes \<Rightarrow> nat \<Rightarrow> bytes option) \<Rightarrow> bytes \<Rightarrow> wire_error + scrubbed_pack" where
  "scrub crc sha decompress obj =
     rbind (header_parse crc obj) (\<lambda>header.
     if ch_kind header \<noteq> DataPack then Inl (Invalid ''data pack'')
     else if length obj < ch_object_len header then Inl (Truncated ''data pack'' (ch_object_len header) (length obj))
     else if ch_object_len header \<noteq> length obj then Inl (Invalid ''data pack'')
     else if ch_root_offset header \<noteq> 0 \<or> ch_root_stored_len header \<noteq> 0 \<or> ch_root_raw_len header \<noteq> 0 then Inl (Invalid ''data pack header'')
     else if ch_features header AND NOT KNOWN_FEATURES \<noteq> 0 then Inl UnsupportedFormat
     else rbind (ensure_supported_features header) (\<lambda>_.
       rbind (parse_footer crc obj) (\<lambda>footer.
       if cf_digest footer \<noteq> replicate 32 0 then Inl (Invalid ''data pack footer'')
       else let body_end = length obj - FOOTER_LEN
       in rbind (scrub_frames crc sha decompress obj body_end HEADER_LEN 0 0) (\<lambda>(frames, offset, content).
          if offset \<noteq> body_end then Inl (Invalid ''data pack'')
          else let closure = \<lparr>fc_declared = ch_features header, fc_content = content\<rparr>
          in rbind (fc_ensure_declared closure) (\<lambda>_.
             Inr \<lparr>sp_header = header, sp_frames = frames, sp_footer = footer, sp_full_hash = sha obj, sp_closure = closure\<rparr>)))))"

section \<open>Building\<close>

record pack_frame =
  pf_format :: payload_format
  pf_codec :: codec
  pf_stored :: bytes
  pf_raw_len :: nat

definition plain_bytes :: "bytes \<Rightarrow> wire_error + pack_frame" where
  "plain_bytes raw =
     (if MAX_PLAIN_PAYLOAD < length raw then Inl LimitExceeded
      else Inr \<lparr>pf_format = PlainBytes, pf_codec = NoCodec, pf_stored = raw, pf_raw_len = length raw\<rparr>)"

definition native_block_v1 :: "bytes \<Rightarrow> wire_error + pack_frame" where
  "native_block_v1 encoded =
     (if MAX_NATIVE_OUTER_PAYLOAD < length encoded then Inl LimitExceeded
      else Inr \<lparr>pf_format = NativeBlockV1, pf_codec = NoCodec, pf_stored = encoded, pf_raw_len = length encoded\<rparr>)"

definition plain_bytes_zstd :: "(bytes \<Rightarrow> int \<Rightarrow> bytes option) \<Rightarrow> bytes \<Rightarrow> int \<Rightarrow> wire_error + pack_frame" where
  "plain_bytes_zstd compress raw level =
     (if MAX_PLAIN_PAYLOAD < length raw then Inl LimitExceeded
      else rbind (zstd_encode compress raw level) (\<lambda>stored.
        if MAX_ENCODED_FRAME_PAYLOAD < length stored then Inl LimitExceeded
        else Inr \<lparr>pf_format = PlainBytes, pf_codec = Zstd, pf_stored = stored, pf_raw_len = length raw\<rparr>))"

definition pack_frame_header ::
  "(bytes \<Rightarrow> bytes) \<Rightarrow> (bytes \<Rightarrow> nat \<Rightarrow> bytes option) \<Rightarrow> pack_frame \<Rightarrow> nat \<Rightarrow> wire_error + frame_header" where
  "pack_frame_header sha decompress f ordinal =
     rbind (case pf_codec f of
         NoCodec \<Rightarrow> Inr (sha (pf_stored f))
       | Zstd \<Rightarrow> rbind (ok_or CodecError (decompress (pf_stored f) (pf_raw_len f))) (\<lambda>out.
           if length out \<noteq> pf_raw_len f then Inl (Invalid ''pack frame'') else Inr (sha out))) (\<lambda>digest.
     Inr \<lparr>fh_format = pf_format f, fh_codec = pf_codec f, fh_ordinal = ordinal, fh_stored_len = length (pf_stored f) mod u32_limit,
       fh_raw_len = pf_raw_len f, fh_raw_digest = digest\<rparr>)"

fun measure_frames :: "pack_frame list \<Rightarrow> u64 \<Rightarrow> nat \<Rightarrow> wire_error + (u64 \<times> nat)" where
  "measure_frames [] features body_len = Inr (features, body_len)"
| "measure_frames (f # fs) features body_len =
     rbind (ok_or (Invalid ''pack builder'') (Option.bind (checked_add_u64 body_len FRAME_HEADER_LEN) (\<lambda>v. checked_add_u64 v (length (pf_stored f))))) (\<lambda>len.
     measure_frames fs (features OR content_bits (pf_format f) (pf_codec f)) (mul_u64 (div_ceil len ALIGNMENT) ALIGNMENT))"

fun write_frames ::
  "(bytes \<Rightarrow> u32) \<Rightarrow> (bytes \<Rightarrow> bytes) \<Rightarrow> (bytes \<Rightarrow> nat \<Rightarrow> bytes option) \<Rightarrow> nat \<Rightarrow> pack_frame list \<Rightarrow> wire_error + bytes" where
  "write_frames crc sha decompress ordinal [] = Inr []"
| "write_frames crc sha decompress ordinal (f # fs) =
     rbind (pack_frame_header sha decompress f ordinal) (\<lambda>fh.
     let padded = sub_u64 (sub_u64 (frame_span fh) FRAME_HEADER_LEN) (length (pf_stored f))
     in rbind (write_frames crc sha decompress (ordinal + 1) fs) (\<lambda>rest.
        Inr (frame_encode crc fh @ pf_stored f @ replicate padded 0 @ rest)))"

definition build :: "(bytes \<Rightarrow> u32) \<Rightarrow> (bytes \<Rightarrow> bytes) \<Rightarrow> (bytes \<Rightarrow> nat \<Rightarrow> bytes option) \<Rightarrow> pack_frame list \<Rightarrow> wire_error + bytes" where
  "build crc sha decompress frames =
     rbind (measure_frames frames 0 0) (\<lambda>(features, body_len).
     rbind (ok_or (Invalid ''pack builder'') (Option.bind (checked_add_u64 HEADER_LEN body_len) (\<lambda>v. checked_add_u64 v FOOTER_LEN))) (\<lambda>object_len.
     if object_len < MIN_OBJECT_LEN then Inl (Invalid ''pack builder'')
     else let header = \<lparr>ch_kind = DataPack, ch_features = features, ch_object_len = object_len, ch_root_offset = 0,
                ch_root_stored_len = 0, ch_root_raw_len = 0, ch_hash_id = 1, ch_root_codec = NoCodec\<rparr>;
              footer = \<lparr>cf_object_len = object_len, cf_digest = replicate 32 0\<rparr>
     in rbind (write_frames crc sha decompress 0 frames) (\<lambda>body.
        Inr (header_encode crc header @ body @ footer_encode crc footer))))"

section \<open>Laid out frames\<close>

text \<open>Frames that follow each other from an offset, with the ordinals and digests they must have.\<close>

fun laid :: "(bytes \<Rightarrow> bytes) \<Rightarrow> (bytes \<Rightarrow> nat \<Rightarrow> bytes option) \<Rightarrow> nat \<Rightarrow> nat \<Rightarrow> scrubbed_frame list \<Rightarrow> bool" where
  "laid sha decompress off ord [] \<longleftrightarrow> True"
| "laid sha decompress off ord (f # fs) \<longleftrightarrow>
     frame_ok (sf_header f) \<and> length (sf_stored f) = fh_stored_len (sf_header f) \<and> fh_ordinal (sf_header f) = ord \<and> sf_offset f = off
     \<and> decode_payload sha decompress (sf_header f) (sf_stored f) = Inr (sf_raw f)
     \<and> laid sha decompress (off + frame_span (sf_header f)) (ord + 1) fs"

definition frames_body :: "(bytes \<Rightarrow> u32) \<Rightarrow> scrubbed_frame list \<Rightarrow> bytes" where
  "frames_body crc fs = concat (map (\<lambda>f. frame_record crc (sf_header f) (sf_stored f)) fs)"

fun frames_bits :: "scrubbed_frame list \<Rightarrow> u64" where
  "frames_bits [] = 0"
| "frames_bits (f # fs) = content_bits (fh_format (sf_header f)) (fh_codec (sf_header f)) OR frames_bits fs"

lemma frames_body_simps [simp]:
  "frames_body crc [] = []" "frames_body crc (f # fs) = frame_record crc (sf_header f) (sf_stored f) @ frames_body crc fs"
  by (simp_all add: frames_body_def)

lemma scrub_frames_laid:
  assumes "laid sha decompress (length pre) ord fs" and "length pre + length (frames_body crc fs) < u64_limit"
  shows "scrub_frames crc sha decompress (pre @ frames_body crc fs @ post) (length pre + length (frames_body crc fs)) (length pre) ord content
    = Inr (fs, length pre + length (frames_body crc fs), content OR frames_bits fs)"
  using assms
proof (induction fs arbitrary: pre ord content)
  case Nil
  then show ?case by (simp add: scrub_frames.simps)
next
  case (Cons f fs)
  let ?r = "frame_record crc (sf_header f) (sf_stored f)" and ?c = "content OR content_bits (fh_format (sf_header f)) (fh_codec (sf_header f))"
  have h: "frame_ok (sf_header f)" "length (sf_stored f) = fh_stored_len (sf_header f)" "fh_ordinal (sf_header f) = ord" "sf_offset f = length pre"
    "decode_payload sha decompress (sf_header f) (sf_stored f) = Inr (sf_raw f)" "laid sha decompress (length pre + frame_span (sf_header f)) (ord + 1) fs"
    using Cons.prems(1) by simp_all
  have l: "length ?r = frame_span (sf_header f)" using h by (simp add: length_frame_record)
  let ?fin = "length pre + length (frames_body crc (f # fs))"
  have fin: "?fin = length (pre @ ?r) + length (frames_body crc fs)" by simp
  have rd: "read_frame_at crc (pre @ frames_body crc (f # fs) @ post) (length pre) ?fin = Inr (sf_header f, sf_stored f)"
    using read_frame_at_record [OF h(1,2), of pre ?fin crc "frames_body crc fs @ post"] Cons.prems(2) l by simp
  have IH: "scrub_frames crc sha decompress (pre @ frames_body crc (f # fs) @ post) ?fin (length pre + frame_span (sf_header f)) (ord + 1) ?c
      = Inr (fs, ?fin, ?c OR frames_bits fs)"
    using Cons.IH [of "pre @ ?r" "ord + 1" ?c] h(6) Cons.prems(2) l by (simp add: add.assoc)
  have "length pre < ?fin" using l frame_span_bounds(1) [of "sf_header f"] by simp
  then show ?case unfolding scrub_frames.simps [of crc sha decompress _ ?fin "length pre"] using rd IH h(3-5) by (simp add: or.assoc Let_def)
qed

lemma scrub_frames_sound:
  assumes "scrub_frames crc sha decompress obj body_end off ord content = Inr (fs, fin, bits)" and "body_end \<le> length obj" and "off \<le> body_end"
  shows "laid sha decompress off ord fs \<and> fin = body_end \<and> bytes_at obj off (body_end - off) = frames_body crc fs \<and> bits = content OR frames_bits fs"
  using assms
proof (induction crc sha decompress obj body_end off ord content arbitrary: fs rule: scrub_frames.induct)
  case (1 crc sha decompress obj body_end off ord content)
  show ?case
  proof (cases "off < body_end")
    case False
    then show ?thesis using "1.prems" by (simp add: scrub_frames.simps bytes_at_def)
  next
    case True
    let ?c = "\<lambda>h. content OR content_bits (fh_format h) (fh_codec h)"
    obtain h stored raw gs where rd: "read_frame_at crc obj off body_end = Inr (h, stored)" and o: "fh_ordinal h = ord"
      and d: "decode_payload sha decompress h stored = Inr raw"
      and rec: "scrub_frames crc sha decompress obj body_end (off + frame_span h) (ord + 1) (?c h) = Inr (gs, fin, bits)"
      and fs: "fs = \<lparr>sf_header = h, sf_offset = off, sf_stored = stored, sf_raw = raw\<rparr> # gs"
      using "1.prems"(1) True by (subst (asm) scrub_frames.simps) (auto simp: result_simps Let_def split: if_splits)
    have r: "frame_ok h" "length stored = fh_stored_len h" "off + frame_span h \<le> body_end" "bytes_at obj off (frame_span h) = frame_record crc h stored"
      using read_frame_at_sound [OF rd "1.prems"(2)] by simp_all
    have IH: "laid sha decompress (off + frame_span h) (ord + 1) gs" "fin = body_end"
      "bytes_at obj (off + frame_span h) (body_end - (off + frame_span h)) = frames_body crc gs" "bits = ?c h OR frames_bits gs"
      using "1.IH" [OF True rd refl _ refl d rec "1.prems"(2) r(3)] o by simp_all
    have "bytes_at obj off (body_end - off) = bytes_at obj off (frame_span h) @ bytes_at obj (off + frame_span h) (body_end - (off + frame_span h))"
      using r(3) by (simp add: bytes_at_join)
    then show ?thesis using IH r o d by (simp add: fs or.assoc)
  qed
qed

text \<open>What the builder is given to write a scrubbed frame again.\<close>

definition frame_again :: "scrubbed_frame \<Rightarrow> pack_frame" where
  "frame_again f = \<lparr>pf_format = fh_format (sf_header f), pf_codec = fh_codec (sf_header f), pf_stored = sf_stored f,
     pf_raw_len = fh_raw_len (sf_header f)\<rparr>"

lemma frame_ok_less: "frame_ok h \<Longrightarrow> fh_stored_len h < u32_limit"
  by (simp add: frame_ok_def frame_consts u32_limit_def)

lemma pack_frame_header_again:
  assumes "frame_ok (sf_header f)" and "length (sf_stored f) = fh_stored_len (sf_header f)"
    and "decode_payload sha decompress (sf_header f) (sf_stored f) = Inr (sf_raw f)"
  shows "pack_frame_header sha decompress (frame_again f) (fh_ordinal (sf_header f)) = Inr (sf_header f)"
  using assms frame_ok_less [OF assms(1)]
  by (cases "fh_codec (sf_header f)") (auto simp: pack_frame_header_def frame_again_def decode_payload_def result_simps split: if_splits)

lemma write_frames_laid:
  assumes "laid sha decompress off ord fs" and "length (frames_body crc fs) < u64_limit"
  shows "write_frames crc sha decompress ord (map frame_again fs) = Inr (frames_body crc fs)"
  using assms
proof (induction fs arbitrary: off ord)
  case Nil
  then show ?case by simp
next
  case (Cons f fs)
  let ?h = "sf_header f"
  have h: "frame_ok ?h" "length (sf_stored f) = fh_stored_len ?h" "fh_ordinal ?h = ord" using Cons.prems(1) by simp_all
  have l: "length (frame_record crc ?h (sf_stored f)) = frame_span ?h" using h by (simp add: length_frame_record)
  have s: "80 + length (sf_stored f) \<le> frame_span ?h" "frame_span ?h < u64_limit" using frame_span_bounds(1) [of ?h] h l Cons.prems(2) by simp_all
  then have "sub_u64 (sub_u64 (frame_span ?h) FRAME_HEADER_LEN) (length (sf_stored f)) = frame_span ?h - FRAME_HEADER_LEN - length (sf_stored f)"
    by (simp add: sub_u64_exact FRAME_HEADER_LEN_def)
  moreover have "pack_frame_header sha decompress (frame_again f) ord = Inr ?h"
    using pack_frame_header_again [of f sha decompress] Cons.prems(1) h by simp
  moreover have "write_frames crc sha decompress (ord + 1) (map frame_again fs) = Inr (frames_body crc fs)" using Cons.IH [of "off + frame_span ?h" "ord + 1"] Cons.prems by simp
  moreover have "pf_stored (frame_again f) = sf_stored f" by (simp add: frame_again_def)
  ultimately show ?case by (simp add: frame_record_def Let_def)
qed

lemma measure_frames_laid:
  assumes "laid sha decompress off ord fs" and "body + length (frames_body crc fs) < u64_limit" and "8 dvd body"
  shows "measure_frames (map frame_again fs) bits body = Inr (bits OR frames_bits fs, body + length (frames_body crc fs))"
  using assms
proof (induction fs arbitrary: off ord bits body)
  case Nil
  then show ?case by simp
next
  case (Cons f fs)
  let ?h = "sf_header f" and ?r = "frame_record crc (sf_header f) (sf_stored f)"
  have h: "frame_ok ?h" "length (sf_stored f) = fh_stored_len ?h" using Cons.prems(1) by simp_all
  have l: "length ?r = frame_span ?h" using h by (simp add: length_frame_record)
  have span: "80 + fh_stored_len ?h \<le> frame_span ?h" by (rule frame_span_bounds)
  obtain k where k: "body = 8 * k" using Cons.prems(3) by (auto elim: dvdE)
  have "div_ceil (8 * k + n) 8 * 8 = 8 * k + div_ceil n 8 * 8" for n by (simp add: div_ceil_def)
  then have "div_ceil (body + 80 + length (sf_stored f)) 8 * 8 = body + frame_span ?h"
    using h(2) unfolding k by (simp add: frame_span_def frame_consts add.assoc)
  moreover have lim: "body + frame_span ?h < u64_limit" using Cons.prems(2) l by simp
  ultimately have m: "mul_u64 (div_ceil (body + 80 + length (sf_stored f)) 8) 8 = body + frame_span ?h" by (simp add: mul_u64_def)
  have "measure_frames (map frame_again (f # fs)) bits body =
      measure_frames (map frame_again fs) (bits OR content_bits (fh_format ?h) (fh_codec ?h)) (body + frame_span ?h)"
    using span lim h(2) m by (simp add: frame_again_def checked_add_u64_def FRAME_HEADER_LEN_def ALIGNMENT_def add.assoc)
  also have "\<dots> = Inr (bits OR content_bits (fh_format ?h) (fh_codec ?h) OR frames_bits fs, body + frame_span ?h + length (frames_body crc fs))"
    using Cons.prems l frame_span_bounds(3) [of ?h] by (intro Cons.IH [THEN trans]) (auto simp: or.assoc)
  finally show ?case using l by (simp add: add.assoc)
qed

lemma build_laid:
  assumes "laid sha decompress 64 0 fs" and "128 + length (frames_body crc fs) < u64_limit"
  shows "build crc sha decompress (map frame_again fs) = Inr (header_encode crc \<lparr>ch_kind = DataPack, ch_features = frames_bits fs,
      ch_object_len = 128 + length (frames_body crc fs), ch_root_offset = 0, ch_root_stored_len = 0, ch_root_raw_len = 0, ch_hash_id = 1, ch_root_codec = NoCodec\<rparr>
    @ frames_body crc fs @ footer_encode crc \<lparr>cf_object_len = 128 + length (frames_body crc fs), cf_digest = replicate 32 0\<rparr>)"
proof -
  have "measure_frames (map frame_again fs) 0 0 = Inr (frames_bits fs, length (frames_body crc fs))"
    using measure_frames_laid [OF assms(1), of 0 crc 0] assms(2) by simp
  moreover have "write_frames crc sha decompress 0 (map frame_again fs) = Inr (frames_body crc fs)"
    using write_frames_laid [OF assms(1)] assms(2) by simp
  moreover have "checked_add_u64 HEADER_LEN (length (frames_body crc fs)) = Some (64 + length (frames_body crc fs))"
    "checked_add_u64 (64 + length (frames_body crc fs)) FOOTER_LEN = Some (128 + length (frames_body crc fs))"
    using assms(2) by (simp_all add: checked_add_u64_def container_consts)
  ultimately show ?thesis unfolding build_def by (simp only: rbind_simps ok_or_simps Option.bind.simps prod.case Let_def) (simp add: MIN_OBJECT_LEN_def)
qed

section \<open>Scrub and builder agree\<close>

lemma scrub_sound:
  assumes "scrub crc sha decompress obj = Inr pack"
  shows "laid sha decompress 64 0 (sp_frames pack) \<and> length obj < u64_limit \<and> header_ok (sp_header pack)
    \<and> ch_kind (sp_header pack) = DataPack \<and> ch_object_len (sp_header pack) = length obj \<and> ch_root_offset (sp_header pack) = 0
    \<and> ch_root_stored_len (sp_header pack) = 0 \<and> ch_root_raw_len (sp_header pack) = 0
    \<and> length obj = 128 + length (frames_body crc (sp_frames pack))
    \<and> obj = header_encode crc (sp_header pack) @ frames_body crc (sp_frames pack) @ footer_encode crc \<lparr>cf_object_len = length obj, cf_digest = replicate 32 0\<rparr>
    \<and> sp_closure pack = \<lparr>fc_declared = ch_features (sp_header pack), fc_content = frames_bits (sp_frames pack)\<rparr>
    \<and> frames_bits (sp_frames pack) AND NOT (ch_features (sp_header pack)) = 0 \<and> ch_features (sp_header pack) AND NOT KNOWN_FEATURES = 0"
proof -
  let ?h = "sp_header pack" and ?f = "sp_footer pack"
  from assms obtain fin bits where h: "header_parse crc obj = Inr ?h" and hd: "ch_kind ?h = DataPack" "ch_object_len ?h = length obj"
      "ch_root_offset ?h = 0" "ch_root_stored_len ?h = 0" "ch_root_raw_len ?h = 0" "ch_features ?h AND NOT KNOWN_FEATURES = 0"
    and f: "parse_footer crc obj = Inr ?f" "cf_digest ?f = replicate 32 0"
    and fr: "scrub_frames crc sha decompress obj (length obj - 64) 64 0 0 = Inr (sp_frames pack, fin, bits)"
    and c: "sp_closure pack = \<lparr>fc_declared = ch_features ?h, fc_content = bits\<rparr>" "fc_ensure_declared (sp_closure pack) = Inr ()"
    by (auto simp: scrub_def result_simps Let_def container_consts split: if_splits)
  have H: "header_ok ?h" "64 \<le> length obj" "bytes_at obj 0 64 = header_encode crc ?h" using header_parse_sound [OF h] by simp_all
  have F: "cf_object_len ?f = length obj" "128 \<le> length obj" "obj = take (length obj - 64) obj @ footer_encode crc ?f" using parse_footer_sound [OF f(1)] by simp_all
  have L: "laid sha decompress 64 0 (sp_frames pack)" "bytes_at obj 64 (length obj - 64 - 64) = frames_body crc (sp_frames pack)" "bits = frames_bits (sp_frames pack)"
    using scrub_frames_sound [OF fr] F(2) by simp_all
  have "take (length obj - 64) obj = bytes_at obj 0 64 @ bytes_at obj 64 (length obj - 64 - 64)" using F(2) by (simp add: bytes_at_join) (simp add: bytes_at_def)
  moreover have "?f = \<lparr>cf_object_len = length obj, cf_digest = replicate 32 0\<rparr>" using F(1) f(2) by (cases ?f) simp
  ultimately have "obj = header_encode crc ?h @ frames_body crc (sp_frames pack) @ footer_encode crc \<lparr>cf_object_len = length obj, cf_digest = replicate 32 0\<rparr>"
    using F(3) H(3) L(2) by (metis append_assoc)
  moreover have "length (frames_body crc (sp_frames pack)) = length obj - 128" using arg_cong [OF L(2), of length] F(2) by simp
  ultimately show ?thesis using H(1) hd L(1,3) c F(2) by (auto simp: header_ok_def fc_ensure_declared_def fc_undeclared_def split: if_splits)
qed

lemma scrub_laid:
  assumes l: "laid sha decompress 64 0 fs" and lim: "128 + length (frames_body crc fs) < u64_limit"
    and h: "ch_kind h = DataPack" "ch_object_len h = 128 + length (frames_body crc fs)" "ch_root_offset h = 0" "ch_root_stored_len h = 0" "ch_root_raw_len h = 0" "ch_hash_id h = 1"
    and bits: "frames_bits fs AND NOT (ch_features h) = 0" "ch_features h AND NOT KNOWN_FEATURES = 0"
    and f: "f = \<lparr>cf_object_len = 128 + length (frames_body crc fs), cf_digest = replicate 32 0\<rparr>"
    and obj: "obj = header_encode crc h @ frames_body crc fs @ footer_encode crc f"
  shows "scrub crc sha decompress obj = Inr \<lparr>sp_header = h, sp_frames = fs, sp_footer = f, sp_full_hash = sha obj,
    sp_closure = \<lparr>fc_declared = ch_features h, fc_content = frames_bits fs\<rparr>\<rparr>"
proof -
  have len: "length obj = 128 + length (frames_body crc fs)" by (simp add: obj f length_footer_encode)
  have "header_parse crc obj = Inr h" unfolding obj using h lim by (intro header_parse_encode) (simp add: header_ok_def container_consts)
  moreover have "parse_footer crc obj = Inr f"
    using parse_footer_encode [of f "header_encode crc h @ frames_body crc fs" crc] lim by (simp add: obj f footer_ok_def)
  moreover have "scrub_frames crc sha decompress obj (length obj - 64) 64 0 0 = Inr (fs, length obj - 64, frames_bits fs)"
    using scrub_frames_laid [of sha decompress "header_encode crc h" 0 fs crc "footer_encode crc f" 0] l lim unfolding len by (simp add: obj)
  ultimately show ?thesis using h bits len
    by (simp add: scrub_def Let_def container_consts ensure_supported_features_def fc_ensure_declared_def fc_undeclared_def f)
qed

text \<open>How the frames of a pack come about: the raw payload and the frame a constructor made of it.\<close>

definition made :: "(bytes \<Rightarrow> int \<Rightarrow> bytes option) \<Rightarrow> bytes \<Rightarrow> pack_frame \<Rightarrow> bool" where
  "made compress raw f \<longleftrightarrow> plain_bytes raw = Inr f \<or> native_block_v1 raw = Inr f \<or> (\<exists>level. plain_bytes_zstd compress raw level = Inr f)"

definition made_header :: "(bytes \<Rightarrow> bytes) \<Rightarrow> nat \<Rightarrow> bytes \<Rightarrow> pack_frame \<Rightarrow> frame_header" where
  "made_header sha ord raw f = \<lparr>fh_format = pf_format f, fh_codec = pf_codec f, fh_ordinal = ord, fh_stored_len = length (pf_stored f),
     fh_raw_len = length raw, fh_raw_digest = sha raw\<rparr>"

fun made_frames :: "(bytes \<Rightarrow> bytes) \<Rightarrow> nat \<Rightarrow> nat \<Rightarrow> (bytes \<times> pack_frame) list \<Rightarrow> scrubbed_frame list" where
  "made_frames sha off ord [] = []"
| "made_frames sha off ord ((raw, f) # fs) =
     \<lparr>sf_header = made_header sha ord raw f, sf_offset = off, sf_stored = pf_stored f, sf_raw = raw\<rparr>
     # made_frames sha (off + frame_span (made_header sha ord raw f)) (ord + 1) fs"

lemma made_frame:
  assumes m: "made compress raw f" and sha: "\<forall>b. length (sha b) = 32"
    and z: "\<forall>raw level s. compress raw level = Some s \<longrightarrow> decompress s (length raw) = Some raw" and o: "ord < u64_limit"
  shows "frame_ok (made_header sha ord raw f)" and "decode_payload sha decompress (made_header sha ord raw f) (pf_stored f) = Inr raw"
    and "pf_raw_len f = length raw"
  using assms by (auto simp: made_def plain_bytes_def native_block_v1_def plain_bytes_zstd_def zstd_encode_def result_simps made_header_def
      frame_ok_def decode_payload_def frame_consts split: if_splits)

lemma made_frames_laid:
  assumes "\<forall>(raw, f)\<in>set rfs. made compress raw f" and sha: "\<forall>b. length (sha b) = 32"
    and z: "\<forall>raw level s. compress raw level = Some s \<longrightarrow> decompress s (length raw) = Some raw" and "ord + length rfs \<le> u64_limit"
  shows "laid sha decompress off ord (made_frames sha off ord rfs) \<and> map frame_again (made_frames sha off ord rfs) = map snd rfs
    \<and> map sf_raw (made_frames sha off ord rfs) = map fst rfs"
  using assms(1,4)
proof (induction rfs arbitrary: off ord)
  case Nil
  then show ?case by simp
next
  case (Cons rf rfs)
  obtain raw f where rf: "rf = (raw, f)" by (cases rf)
  have m: "made compress raw f" using Cons.prems rf by simp
  have "ord < u64_limit" using Cons.prems(2) by simp
  note M = made_frame [OF m sha z this]
  have "laid sha decompress off' (ord + 1) (made_frames sha off' (ord + 1) rfs) \<and> map frame_again (made_frames sha off' (ord + 1) rfs) = map snd rfs
    \<and> map sf_raw (made_frames sha off' (ord + 1) rfs) = map fst rfs" for off' using Cons.IH [of "ord + 1" off'] Cons.prems by simp
  moreover have "frame_again \<lparr>sf_header = made_header sha ord raw f, sf_offset = off, sf_stored = pf_stored f, sf_raw = raw\<rparr> = f"
    using M(3) by (cases f) (simp add: made_header_def frame_again_def)
  moreover have "fh_stored_len (made_header sha ord raw f) = length (pf_stored f)" "fh_ordinal (made_header sha ord raw f) = ord" by (simp_all add: made_header_def)
  ultimately show ?case using M by (simp add: rf)
qed

lemma frames_bits_known: "frames_bits fs AND NOT KNOWN_FEATURES = 0"
proof (induction fs)
  case (Cons f fs)
  have "content_bits a b AND NOT KNOWN_FEATURES = 0" for a b
    by (cases a; cases b; simp add: content_bits_def KNOWN_FEATURES_def PLAIN_BYTES_FRAMES_def ZSTD_FRAME_OR_PAGE_def EXTERNAL_INDEX_CHILDREN_def
        NATIVE_BLOCK_V1_INNER_def PACKED_DATA_UNCOMPRESSED_BLOCKS_def)
  then show ?case using Cons by (simp add: bit.conj_disj_distrib2)
qed simp

text \<open>
  C28. Building a data pack and scrubbing it: frames made by the constructors from raw payloads give
  a pack that scrubs clean, with exactly these payloads in this order, when the pack fits 64-bit
  offsets. SHA-256 gives 32 bytes, and Zstd gives back what it compressed when told its length.
\<close>

theorem scrub_build:
  assumes "\<forall>(raw, f)\<in>set rfs. made compress raw f" and "\<forall>b. length (sha b) = 32"
    and "\<forall>raw level s. compress raw level = Some s \<longrightarrow> decompress s (length raw) = Some raw"
    and "128 + sum_list (map (\<lambda>(raw, f). 88 + length (pf_stored f)) rfs) < u64_limit"
  shows "\<exists>obj pack. build crc sha decompress (map snd rfs) = Inr obj \<and> scrub crc sha decompress obj = Inr pack
    \<and> map sf_raw (sp_frames pack) = map fst rfs \<and> map frame_again (sp_frames pack) = map snd rfs"
proof -
  let ?fs = "made_frames sha 64 0 rfs"
  have n: "length rfs \<le> sum_list (map (\<lambda>(raw, f). 88 + length (pf_stored f)) rfs)" by (induction rfs) auto
  have L: "laid sha decompress 64 0 ?fs" "map frame_again ?fs = map snd rfs" "map sf_raw ?fs = map fst rfs"
    using made_frames_laid [OF assms(1-3), of 0 64] assms(4) n by simp_all
  have "length (frames_body crc fs) \<le> sum_list (map (\<lambda>f. 88 + length (sf_stored f)) fs)" if "laid sha decompress off ord fs" for off ord fs
    using that
  proof (induction fs arbitrary: off ord)
    case (Cons f fs)
    have "length (frame_record crc (sf_header f) (sf_stored f)) = frame_span (sf_header f)" using Cons.prems by (simp add: length_frame_record)
    then show ?case using Cons.IH [of _ "ord + 1"] Cons.prems frame_span_bounds(2) [of "sf_header f"] by fastforce
  qed simp
  from this [OF L(1)] have "length (frames_body crc ?fs) \<le> sum_list (map (\<lambda>f. 88 + length (sf_stored f)) ?fs)" .
  also have "map (\<lambda>f. 88 + length (sf_stored f)) fs = map (\<lambda>f. 88 + length (pf_stored f)) (map frame_again fs)" for fs by (simp add: frame_again_def comp_def)
  finally have lim: "128 + length (frames_body crc ?fs) < u64_limit" using assms(4) unfolding L(2) by (simp add: comp_def case_prod_unfold)
  show ?thesis
    using build_laid [OF L(1) lim] scrub_laid [OF L(1) lim _ _ _ _ _ _ _ _ refl refl, of "\<lparr>ch_kind = DataPack, ch_features = frames_bits ?fs,
      ch_object_len = 128 + length (frames_body crc ?fs), ch_root_offset = 0, ch_root_stored_len = 0, ch_root_raw_len = 0, ch_hash_id = 1, ch_root_codec = NoCodec\<rparr>"]
      frames_bits_known [of ?fs] unfolding L(2) by (simp add: L(2,3))
qed

theorem scrub_build_witness:
  "\<exists>obj pack. build (\<lambda>_. 0) (\<lambda>_. replicate 32 0) (\<lambda>s n. Some s)
       [\<lparr>pf_format = PlainBytes, pf_codec = NoCodec, pf_stored = [1, 2, 3], pf_raw_len = 3\<rparr>] = Inr obj
     \<and> scrub (\<lambda>_. 0) (\<lambda>_. replicate 32 0) (\<lambda>s n. Some s) obj = Inr pack \<and> map sf_raw (sp_frames pack) = [[1, 2, 3]]"
  using scrub_build [of "[([1, 2, 3], \<lparr>pf_format = PlainBytes, pf_codec = NoCodec, pf_stored = [1, 2, 3], pf_raw_len = 3\<rparr>)]"
      "\<lambda>raw level. Some raw" "\<lambda>_. replicate 32 0" "\<lambda>s n. Some s" "\<lambda>_. 0"]
  by (auto simp: made_def plain_bytes_def MAX_PLAIN_PAYLOAD_def u64_limit_def)

text \<open>
  C15. A data pack has one form: when the scrub accepts an object, the builder makes exactly this object from
  the frames the scrub found, up to feature bits declared without need and the codec of the absent root.
\<close>

theorem scrub_canonical:
  assumes "scrub crc sha decompress obj = Inr pack"
  shows "\<exists>again. build crc sha decompress (map frame_again (sp_frames pack)) = Inr again \<and> length again = length obj
    \<and> drop 64 again = drop 64 obj \<and> frames_bits (sp_frames pack) AND NOT (ch_features (sp_header pack)) = 0
    \<and> (ch_features (sp_header pack) = frames_bits (sp_frames pack) \<and> ch_root_codec (sp_header pack) = NoCodec \<longrightarrow> again = obj)"
proof -
  let ?h = "sp_header pack" and ?fs = "sp_frames pack"
  note S = scrub_sound [OF assms]
  let ?g = "\<lparr>ch_kind = DataPack, ch_features = frames_bits ?fs, ch_object_len = length obj, ch_root_offset = 0,
      ch_root_stored_len = 0, ch_root_raw_len = 0, ch_hash_id = 1, ch_root_codec = NoCodec\<rparr>"
    and ?tail = "frames_body crc ?fs @ footer_encode crc \<lparr>cf_object_len = length obj, cf_digest = replicate 32 0\<rparr>"
  have len: "128 + length (frames_body crc ?fs) = length obj" using S by simp
  have obj: "obj = header_encode crc ?h @ ?tail" using S by (elim conjE)
  have b: "build crc sha decompress (map frame_again ?fs) = Inr (header_encode crc ?g @ ?tail)" using build_laid [of sha decompress ?fs crc] S unfolding len by simp
  have eq: "?h = ?g" if "ch_features ?h = frames_bits ?fs" "ch_root_codec ?h = NoCodec" using that S by (cases ?h) (simp add: header_ok_def)
  have "length (header_encode crc ?g @ ?tail) = length (header_encode crc ?h @ ?tail)" "drop 64 (header_encode crc ?g @ ?tail) = drop 64 (header_encode crc ?h @ ?tail)" by simp_all
  then have "length (header_encode crc ?g @ ?tail) = length obj" "drop 64 (header_encode crc ?g @ ?tail) = drop 64 obj" unfolding obj [symmetric] .
  then show ?thesis using b eq S obj by (intro exI [of _ "header_encode crc ?g @ ?tail"]) auto
qed

theorem scrub_canonical_witness:
  "\<exists>obj pack. scrub (\<lambda>_. 0) (\<lambda>_. []) (\<lambda>s n. None) obj = Inr pack \<and> length obj = 128
    \<and> build (\<lambda>_. 0) (\<lambda>_. []) (\<lambda>s n. None) (map frame_again (sp_frames pack)) = Inr obj"
proof -
  let ?h = "\<lparr>ch_kind = DataPack, ch_features = 0, ch_object_len = 128, ch_root_offset = 0, ch_root_stored_len = 0, ch_root_raw_len = 0,
      ch_hash_id = 1, ch_root_codec = NoCodec\<rparr>" and ?f = "\<lparr>cf_object_len = 128, cf_digest = replicate 32 0\<rparr>"
  let ?obj = "header_encode (\<lambda>_. 0) ?h @ frames_body (\<lambda>_. 0) [] @ footer_encode (\<lambda>_. 0) ?f"
  have s: "scrub (\<lambda>_. 0) (\<lambda>_. []) (\<lambda>s n. None) ?obj = Inr \<lparr>sp_header = ?h, sp_frames = [], sp_footer = ?f, sp_full_hash = [],
      sp_closure = \<lparr>fc_declared = 0, fc_content = 0\<rparr>\<rparr>"
    using scrub_laid [of "\<lambda>_. []" "\<lambda>s n. None" "[]" "\<lambda>_. 0" ?h ?f ?obj] by (simp add: u64_limit_def)
  from scrub_canonical [OF s] show ?thesis using s by (intro exI [of _ ?obj] exI conjI) (auto simp: length_footer_encode)
qed

end
