(* ===== verification/Refs.thy ===== *)
theory Refs
  imports Container
begin

text \<open>
  References between objects and pages (\<^verbatim>\<open>src/src/native_base/wire/refs.rs\<close>): page addresses, object
  references, roots and children, each a codec over the shared reader and writer.
\<close>

definition MAX_KEY_LEN :: nat where "MAX_KEY_LEN = 1024"
definition MAX_INDEX_LEVEL :: u8 where "MAX_INDEX_LEVEL = 12"

datatype page_kind = GenericKeyValue | TableRootDirectory | ManifestPayload | InventoryIndex

fun page_kind_as_u8 :: "page_kind \<Rightarrow> u8" where
  "page_kind_as_u8 GenericKeyValue = 1"
| "page_kind_as_u8 TableRootDirectory = 2"
| "page_kind_as_u8 ManifestPayload = 3"
| "page_kind_as_u8 InventoryIndex = 4"

definition page_kind_from_u8 :: "u8 \<Rightarrow> wire_error + page_kind" where
  "page_kind_from_u8 v =
     (if v = 1 then Inr GenericKeyValue else if v = 2 then Inr TableRootDirectory
      else if v = 3 then Inr ManifestPayload else if v = 4 then Inr InventoryIndex else Inl UnsupportedFormat)"

record page_address =
  pa_offset :: nat
  pa_stored_len :: nat
  pa_raw_len :: nat
  pa_codec :: codec
  pa_kind :: page_kind
  pa_level :: u8
  pa_entry_count :: nat
  pa_digest :: bytes

definition page_address_encode :: "page_address \<Rightarrow> bytes" where
  "page_address_encode a = wr_u64 (pa_offset a) @ wr_u32 (pa_stored_len a) @ wr_u32 (pa_raw_len a) @ wr_u8 (codec_as_u8 (pa_codec a))
     @ wr_u8 (page_kind_as_u8 (pa_kind a)) @ wr_u8 (pa_level a) @ wr_u8 0 @ wr_u32 (pa_entry_count a) @ pa_digest a"

definition page_address_decode :: "reader \<Rightarrow> wire_error + (page_address \<times> reader)" where
  "page_address_decode r = (let what = ''page address'' in
     rbind (rd_u64 what r) (\<lambda>(offset, r). rbind (rd_u32 what r) (\<lambda>(stored_len, r). rbind (rd_u32 what r) (\<lambda>(raw_len, r).
     rbind (rd_u8 what r) (\<lambda>(c, r). rbind (codec_from_u8 c) (\<lambda>cdc. rbind (rd_u8 what r) (\<lambda>(k, r). rbind (page_kind_from_u8 k) (\<lambda>kind.
     rbind (rd_u8 what r) (\<lambda>(level, r). rbind (rd_u8 what r) (\<lambda>(reserved, r).
     if reserved \<noteq> 0 then Inl (Invalid what)
     else if MAX_INDEX_LEVEL < level then Inl (Invalid what)
     else rbind (rd_u32 what r) (\<lambda>(entry_count, r). rbind (rd_take 32 what r) (\<lambda>(digest, r).
     Inr (\<lparr>pa_offset = offset, pa_stored_len = stored_len, pa_raw_len = raw_len, pa_codec = cdc, pa_kind = kind, pa_level = level,
       pa_entry_count = entry_count, pa_digest = digest\<rparr>, r)))))))))))))"

record object_ref =
  or_id :: bytes
  or_kind :: u8
  or_len :: nat
  or_hash :: bytes
  or_key :: bytes

text \<open>\<^verbatim>\<open>std::str::from_utf8\<close> succeeds: well-formed UTF-8 without surrogates and overlong forms.\<close>

definition utf8_tail :: "u8 \<Rightarrow> bool" where
  "utf8_tail b \<longleftrightarrow> 128 \<le> b \<and> b \<le> 191"

fun utf8_valid :: "bytes \<Rightarrow> bool" where
  "utf8_valid [] \<longleftrightarrow> True"
| "utf8_valid (b # s) \<longleftrightarrow>
     (if b < 128 then utf8_valid s
      else if 194 \<le> b \<and> b \<le> 223 then (case s of c # t \<Rightarrow> utf8_tail c \<and> utf8_valid t | _ \<Rightarrow> False)
      else if 224 \<le> b \<and> b \<le> 239
      then (case s of c # d # t \<Rightarrow> utf8_tail c \<and> (b = 224 \<longrightarrow> 160 \<le> c) \<and> (b = 237 \<longrightarrow> c \<le> 159) \<and> utf8_tail d \<and> utf8_valid t | _ \<Rightarrow> False)
      else if 240 \<le> b \<and> b \<le> 244
      then (case s of c # d # e # t \<Rightarrow> utf8_tail c \<and> (b = 240 \<longrightarrow> 144 \<le> c) \<and> (b = 244 \<longrightarrow> c \<le> 143) \<and> utf8_tail d \<and> utf8_tail e \<and> utf8_valid t
            | _ \<Rightarrow> False)
      else False)"

definition validate_object_key :: "bytes \<Rightarrow> wire_error + unit" where
  "validate_object_key key =
     (if MAX_KEY_LEN < length key then Inl LimitExceeded
      else if List.member key 0 then Inl (Invalid ''object key'')
      else if \<not> utf8_valid key then Inl (Invalid ''object key'')
      else Inr ())"

definition object_ref_encode :: "object_ref \<Rightarrow> bytes" where
  "object_ref_encode x = or_id x @ wr_u8 (or_kind x) @ wr_u64 (or_len x) @ or_hash x @ wr_bytes (or_key x)"

definition object_ref_decode :: "reader \<Rightarrow> wire_error + (object_ref \<times> reader)" where
  "object_ref_decode r = (let what = ''object ref'' in
     rbind (rd_take 16 what r) (\<lambda>(object_id, r). rbind (rd_u8 what r) (\<lambda>(kind, r). rbind (rd_u64 what r) (\<lambda>(object_len, r).
     rbind (rd_take 32 what r) (\<lambda>(full_hash, r). rbind (rd_bytes what r) (\<lambda>(key, r). rbind (validate_object_key key) (\<lambda>_.
     Inr (\<lparr>or_id = object_id, or_kind = kind, or_len = object_len, or_hash = full_hash, or_key = key\<rparr>, r))))))))"

record root_ref =
  rr_object :: object_ref
  rr_address :: page_address

definition root_ref_encode :: "root_ref \<Rightarrow> bytes" where
  "root_ref_encode r = object_ref_encode (rr_object r) @ page_address_encode (rr_address r)"

definition root_ref_decode :: "reader \<Rightarrow> wire_error + (root_ref \<times> reader)" where
  "root_ref_decode r = rbind (object_ref_decode r) (\<lambda>(object, r). rbind (page_address_decode r) (\<lambda>(address, r).
     Inr (\<lparr>rr_object = object, rr_address = address\<rparr>, r)))"

datatype child_ref = LocalChild page_address | ExternalChild root_ref

fun child_ref_encode :: "child_ref \<Rightarrow> bytes" where
  "child_ref_encode (LocalChild a) = wr_u8 0 @ page_address_encode a"
| "child_ref_encode (ExternalChild r) = wr_u8 1 @ root_ref_encode r"

definition child_ref_decode :: "reader \<Rightarrow> wire_error + (child_ref \<times> reader)" where
  "child_ref_decode r =
     rbind (rd_u8 ''child ref tag'' r) (\<lambda>(tag, r).
     if tag = 0 then rbind (page_address_decode r) (\<lambda>(a, r). Inr (LocalChild a, r))
     else if tag = 1 then rbind (root_ref_decode r) (\<lambda>(x, r). Inr (ExternalChild x, r))
     else Inl (Invalid ''child ref tag''))"

definition ensure_child_descends :: "u8 \<Rightarrow> u8 \<Rightarrow> wire_error + unit" where
  "ensure_child_descends parent_level child_level =
     (if parent_level = 0 then Inl (Invalid ''internal page level'')
      else if child_level \<noteq> parent_level - 1 then Inl (Invalid ''internal page level'')
      else Inr ())"

definition ensure_object_kind_allows_page :: "object_kind \<Rightarrow> page_kind \<Rightarrow> wire_error + unit" where
  "ensure_object_kind_allows_page ok pk =
     (if ok \<in> {FrozenMetadata, SnapshotManifest, PagedInventory} \<or> ok = DataSeal \<and> pk \<in> {TableRootDirectory, GenericKeyValue}
      then Inr () else Inl (Invalid ''root ref''))"

section \<open>References round trip\<close>

definition page_address_ok :: "page_address \<Rightarrow> bool" where
  "page_address_ok a \<longleftrightarrow> pa_offset a < 256 ^ 8 \<and> pa_stored_len a < 256 ^ 4 \<and> pa_raw_len a < 256 ^ 4 \<and> pa_level a \<le> MAX_INDEX_LEVEL
     \<and> pa_entry_count a < 256 ^ 4 \<and> length (pa_digest a) = 32"

definition object_ref_ok :: "object_ref \<Rightarrow> bool" where
  "object_ref_ok x \<longleftrightarrow> length (or_id x) = 16 \<and> or_len x < 256 ^ 8 \<and> length (or_hash x) = 32 \<and> validate_object_key (or_key x) = Inr ()"

definition root_ref_ok :: "root_ref \<Rightarrow> bool" where
  "root_ref_ok r \<longleftrightarrow> object_ref_ok (rr_object r) \<and> page_address_ok (rr_address r)"

fun child_ref_ok :: "child_ref \<Rightarrow> bool" where
  "child_ref_ok (LocalChild a) = page_address_ok a"
| "child_ref_ok (ExternalChild r) = root_ref_ok r"

lemma page_kind_from_u8 [simp]: "page_kind_from_u8 v = Inr k \<longleftrightarrow> v = page_kind_as_u8 k"
  by (cases k) (auto simp: page_kind_from_u8_def)

lemma page_kind_from_own_u8 [simp]: "page_kind_from_u8 (page_kind_as_u8 k) = Inr k"
  by simp

lemma length_wr_u8 [simp]: "length (wr_u8 b) = 1"
  by (simp add: wr_u8_def)

lemma length_page_address [simp]: "page_address_ok a \<Longrightarrow> length (page_address_encode a) = 56"
  by (simp add: page_address_encode_def page_address_ok_def)

lemma key_length: "validate_object_key k = Inr () \<Longrightarrow> length k \<le> 1024"
  by (auto simp: validate_object_key_def MAX_KEY_LEN_def split: if_splits)

lemma rd_take_last: "length b = n \<Longrightarrow> length pre + n < u64_limit \<Longrightarrow> rd_take n what (reader_at pre b) = Inr (b, reader_at (pre @ b) [])"
  using rd_take_at [of b n pre what "[]"] by simp

interpretation page_addressc: wire_codec page_address_encode page_address_decode page_address_ok
proof
  show "page_address_decode (reader_at pre (page_address_encode x @ s)) = Inr (x, reader_at (pre @ page_address_encode x) s)"
    if "page_address_ok x" "length pre + length (page_address_encode x) + length s < u64_limit" for x pre s
    using that by (simp add: page_address_decode_def page_address_encode_def page_address_ok_def wire_read Let_def not_less)
  show "page_address_ok x \<and> rd_inv r' \<and> rd_buf r' = rd_buf r \<and> rd_pos r \<le> rd_pos r'"
    if "page_address_decode r = Inr (x, r')" "rd_inv r" for r x r'
    using that by (auto simp: page_address_decode_def page_address_ok_def result_simps Let_def dest!: rd_uint_sound rd_u8_sound rd_take_sound split: if_splits)
qed

interpretation object_refc: wire_codec object_ref_encode object_ref_decode object_ref_ok
proof
  show "object_ref_decode (reader_at pre (object_ref_encode x @ s)) = Inr (x, reader_at (pre @ object_ref_encode x) s)"
    if ok: "object_ref_ok x" "length pre + length (object_ref_encode x) + length s < u64_limit" for x pre s
  proof -
    have "length (or_key x) < u64_limit" using key_length [of "or_key x"] ok(1) by (simp add: object_ref_ok_def u64_limit_def)
    then show ?thesis using ok by (simp add: object_ref_decode_def object_ref_encode_def object_ref_ok_def wire_read Let_def)
  qed
  show "object_ref_ok x \<and> rd_inv r' \<and> rd_buf r' = rd_buf r \<and> rd_pos r \<le> rd_pos r'"
    if "object_ref_decode r = Inr (x, r')" "rd_inv r" for r x r'
  proof -
    from that(1) obtain r1 where k: "rd_bytes ''object ref'' r1 = Inr (or_key x, r')" and v: "validate_object_key (or_key x) = Inr ()"
      and h: "length (or_id x) = 16" "or_len x < 256 ^ 8" "length (or_hash x) = 32" "rd_inv r1" "rd_buf r1 = rd_buf r" "rd_pos r \<le> rd_pos r1"
      by (auto simp: object_ref_decode_def result_simps Let_def dest!: rd_uint_sound rd_u8_sound rd_take_sound)
    show ?thesis using bytesc.get_sound [OF k h(4)] v h by (simp add: object_ref_ok_def)
  qed
qed

interpretation root_refc: wire_codec root_ref_encode root_ref_decode root_ref_ok
proof
  show "root_ref_decode (reader_at pre (root_ref_encode x @ s)) = Inr (x, reader_at (pre @ root_ref_encode x) s)"
    if "root_ref_ok x" "length pre + length (root_ref_encode x) + length s < u64_limit" for x pre s
    using that by (simp add: root_ref_decode_def root_ref_encode_def root_ref_ok_def object_refc.get_put page_addressc.get_put)
  show "root_ref_ok x \<and> rd_inv r' \<and> rd_buf r' = rd_buf r \<and> rd_pos r \<le> rd_pos r'"
    if "root_ref_decode r = Inr (x, r')" "rd_inv r" for r x r'
    using that by (auto simp: root_ref_decode_def root_ref_ok_def result_simps dest!: object_refc.get_sound page_addressc.get_sound)
qed

interpretation child_refc: wire_codec child_ref_encode child_ref_decode child_ref_ok
proof
  show "child_ref_decode (reader_at pre (child_ref_encode x @ s)) = Inr (x, reader_at (pre @ child_ref_encode x) s)"
    if "child_ref_ok x" "length pre + length (child_ref_encode x) + length s < u64_limit" for x pre s
    using that by (cases x) (simp_all add: child_ref_decode_def wire_read page_addressc.get_put root_refc.get_put)
  show "child_ref_ok x \<and> rd_inv r' \<and> rd_buf r' = rd_buf r \<and> rd_pos r \<le> rd_pos r'"
    if "child_ref_decode r = Inr (x, r')" "rd_inv r" for r x r'
    using that by (auto simp: child_ref_decode_def result_simps dest!: rd_u8_sound page_addressc.get_sound root_refc.get_sound split: if_splits)
qed

lemmas [wire_read] = page_addressc.get_put object_refc.get_put root_refc.get_put child_refc.get_put

end
