(* ===== verification/IndexPages.thy ===== *)
theory IndexPages
  imports Refs "HOL-Library.List_Lexorder"
begin

text \<open>
  Index pages (\<^verbatim>\<open>src/src/native_base/wire/page.rs\<close>): leaves with prefix-compressed keys and internal
  pages that route key ranges to children. Keys are compared as unsigned byte strings.
\<close>

definition PAGE_PREFIX_LEN :: nat where "PAGE_PREFIX_LEN = 16"

text \<open>\<^verbatim>\<open>b"BNPG"\<close>.\<close>

definition PAGE_MAGIC :: bytes where "PAGE_MAGIC = [66, 78, 80, 71]"
definition PAGE_FLAG_SUBTREE_COUNTS :: u16 where "PAGE_FLAG_SUBTREE_COUNTS = push_bit 0 1"
definition MAX_RAW_PAGE :: nat where "MAX_RAW_PAGE = 1024 * 1024"
definition MAX_ENCODED_PAGE :: nat where "MAX_ENCODED_PAGE = MAX_RAW_PAGE + 64 * 1024"
definition MAX_PAGE_ENTRIES :: nat where "MAX_PAGE_ENTRIES = 65535"
definition MAX_INDEX_KEY :: nat where "MAX_INDEX_KEY = 4096"
definition MAX_INDEX_VALUE :: nat where "MAX_INDEX_VALUE = 256 * 1024"

datatype bnpg_kind = BnpgKeyValue

fun bnpg_kind_as_u8 :: "bnpg_kind \<Rightarrow> u8" where
  "bnpg_kind_as_u8 BnpgKeyValue = 1"

definition bnpg_kind_from_u8 :: "u8 \<Rightarrow> wire_error + bnpg_kind" where
  "bnpg_kind_from_u8 v = (if v = 1 then Inr BnpgKeyValue else Inl UnsupportedFormat)"

record leaf_entry =
  le_key :: bytes
  le_value :: bytes

record internal_entry =
  in_min :: bytes
  in_max :: bytes
  in_count :: nat
  in_child :: child_ref

datatype page_body = LeafBody "leaf_entry list" | InternalBody "internal_entry list"

record index_page =
  ip_kind :: bnpg_kind
  ip_level :: u8
  ip_body :: page_body

definition entry_count :: "index_page \<Rightarrow> nat" where
  "entry_count p = (case ip_body p of LeafBody es \<Rightarrow> length es mod u32_limit | InternalBody es \<Rightarrow> length es mod u32_limit)"

fun common_prefix_len :: "bytes \<Rightarrow> bytes \<Rightarrow> nat" where
  "common_prefix_len (x # xs) (y # ys) = (if x = y then Suc (common_prefix_len xs ys) else 0)"
| "common_prefix_len _ _ = 0"

fun leaf_records :: "bytes \<Rightarrow> leaf_entry list \<Rightarrow> bytes" where
  "leaf_records prev [] = []"
| "leaf_records prev (e # es) =
     (let shared = common_prefix_len prev (le_key e)
      in encode_uvarint (of_nat shared) @ wr_bytes (drop shared (le_key e)) @ wr_bytes (le_value e) @ leaf_records (le_key e) es)"

fun internal_records :: "bool \<Rightarrow> internal_entry list \<Rightarrow> bytes" where
  "internal_records counts [] = []"
| "internal_records counts (e # es) =
     wr_bytes (in_min e) @ wr_bytes (in_max e) @ (if counts then wr_u64 (in_count e) else []) @ child_ref_encode (in_child e)
     @ internal_records counts es"

definition has_counts :: "page_body \<Rightarrow> bool" where
  "has_counts b = (case b of InternalBody es \<Rightarrow> list_ex (\<lambda>e. 0 < in_count e) es | LeafBody es \<Rightarrow> False)"

definition page_encode :: "index_page \<Rightarrow> bytes" where
  "page_encode p = PAGE_MAGIC @ wr_u8 (bnpg_kind_as_u8 (ip_kind p)) @ wr_u8 (ip_level p)
     @ wr_u16 (if has_counts (ip_body p) then unat PAGE_FLAG_SUBTREE_COUNTS else 0) @ wr_u32 (entry_count p) @ wr_u32 0
     @ (case ip_body p of LeafBody es \<Rightarrow> leaf_records [] es | InternalBody es \<Rightarrow> internal_records (has_counts (ip_body p)) es)"

fun decode_leaves :: "nat \<Rightarrow> bytes option \<Rightarrow> reader \<Rightarrow> wire_error + (leaf_entry list \<times> reader)" where
  "decode_leaves 0 prev r = Inr ([], r)"
| "decode_leaves (Suc n) prev r = (let what = ''index page'' in
     rbind (rd_uvarint what r) (\<lambda>(v, r). let shared = unat v in
     rbind (rd_bytes what r) (\<lambda>(suffix, r).
     if (case prev of Some p \<Rightarrow> length p < shared | None \<Rightarrow> shared \<noteq> 0) then Inl (Invalid what)
     else rbind (rd_bytes what r) (\<lambda>(val, r).
       let key = (case prev of Some p \<Rightarrow> take shared p | None \<Rightarrow> []) @ suffix
       in if MAX_INDEX_KEY < length key then Inl LimitExceeded
          else if MAX_INDEX_VALUE < length val then Inl LimitExceeded
          else if (case prev of Some p \<Rightarrow> key \<le> p | None \<Rightarrow> False) then Inl (Invalid what)
          else rbind (decode_leaves n (Some key) r) (\<lambda>(es, r). Inr (\<lparr>le_key = key, le_value = val\<rparr> # es, r))))))"

fun child_level :: "child_ref \<Rightarrow> u8" where
  "child_level (LocalChild a) = pa_level a"
| "child_level (ExternalChild r) = pa_level (rr_address r)"

fun decode_internals :: "bool \<Rightarrow> u8 \<Rightarrow> nat \<Rightarrow> bytes option \<Rightarrow> reader \<Rightarrow> wire_error + (internal_entry list \<times> reader)" where
  "decode_internals counts level 0 last_max r = Inr ([], r)"
| "decode_internals counts level (Suc n) last_max r = (let what = ''index page'' in
     rbind (rd_bytes what r) (\<lambda>(min_key, r). rbind (rd_bytes what r) (\<lambda>(max_key, r).
     if MAX_INDEX_KEY < length min_key \<or> MAX_INDEX_KEY < length max_key then Inl LimitExceeded
     else rbind (if counts then rbind (rd_u64 what r) (\<lambda>(c, r). if c = 0 then Inl (Invalid what) else Inr (c, r)) else Inr (0, r)) (\<lambda>(cnt, r).
       rbind (child_ref_decode r) (\<lambda>(child, r).
       rbind (ensure_child_descends level (child_level child)) (\<lambda>_.
       if max_key < min_key then Inl (Invalid what)
       else if (case last_max of Some lm \<Rightarrow> min_key \<le> lm | None \<Rightarrow> False) then Inl (Invalid what)
       else rbind (decode_internals counts level n (Some max_key) r) (\<lambda>(es, r).
         Inr (\<lparr>in_min = min_key, in_max = max_key, in_count = cnt, in_child = child\<rparr> # es, r))))))))"

definition decode_body :: "bool \<Rightarrow> u8 \<Rightarrow> nat \<Rightarrow> reader \<Rightarrow> wire_error + (page_body \<times> reader)" where
  "decode_body counts level n r =
     (if level = 0
      then if counts then Inl (Invalid ''index page'')
           else rbind (decode_leaves n None r) (\<lambda>(es, r). Inr (LeafBody es, r))
      else rbind (decode_internals counts level n None r) (\<lambda>(es, r). Inr (InternalBody es, r)))"

definition page_decode :: "bytes \<Rightarrow> wire_error + index_page" where
  "page_decode raw =
     (if MAX_RAW_PAGE < length raw then Inl LimitExceeded
      else let what = ''index page'' in
        rbind (rd_take 4 what (reader_new raw)) (\<lambda>(magic, r).
        if magic \<noteq> PAGE_MAGIC then Inl (Invalid what)
        else rbind (rd_u8 what r) (\<lambda>(k, r). rbind (bnpg_kind_from_u8 k) (\<lambda>kind. rbind (rd_u8 what r) (\<lambda>(level, r).
          rbind (rd_u16 what r) (\<lambda>(f, r).
          let flags = of_nat f :: u16
          in if flags AND NOT PAGE_FLAG_SUBTREE_COUNTS \<noteq> 0 then Inl (Invalid what)
             else let counts = (flags AND PAGE_FLAG_SUBTREE_COUNTS \<noteq> 0)
             in rbind (rd_u32 what r) (\<lambda>(n, r). rbind (rd_u32 what r) (\<lambda>(reserved, r).
                if reserved \<noteq> 0 then Inl (Invalid what)
                else if MAX_PAGE_ENTRIES < n then Inl LimitExceeded
                else rbind (decode_body counts level n r) (\<lambda>(body, r).
                  if \<not> rd_is_empty r then Inl (Invalid what)
                  else Inr \<lparr>ip_kind = kind, ip_level = level, ip_body = body\<rparr>)))))))))"

section \<open>Legal pages\<close>

definition leaf_ok :: "leaf_entry \<Rightarrow> bool" where
  "leaf_ok e \<longleftrightarrow> length (le_key e) \<le> MAX_INDEX_KEY \<and> length (le_value e) \<le> MAX_INDEX_VALUE"

definition internal_ok :: "u8 \<Rightarrow> internal_entry \<Rightarrow> bool" where
  "internal_ok level e \<longleftrightarrow> length (in_min e) \<le> MAX_INDEX_KEY \<and> length (in_max e) \<le> MAX_INDEX_KEY \<and> in_min e \<le> in_max e
     \<and> in_count e < 256 ^ 8 \<and> child_ref_ok (in_child e) \<and> ensure_child_descends level (child_level (in_child e)) = Inr ()"

fun body_ok :: "u8 \<Rightarrow> page_body \<Rightarrow> bool" where
  "body_ok level (LeafBody es) \<longleftrightarrow> level = 0 \<and> length es \<le> MAX_PAGE_ENTRIES \<and> list_all leaf_ok es \<and> sorted_wrt (<) (map le_key es)"
| "body_ok level (InternalBody es) \<longleftrightarrow> level \<noteq> 0 \<and> length es \<le> MAX_PAGE_ENTRIES \<and> list_all (internal_ok level) es
     \<and> sorted_wrt (\<lambda>a b. in_max a < in_min b) es \<and> (list_all (\<lambda>e. 0 < in_count e) es \<or> list_all (\<lambda>e. in_count e = 0) es)"

definition page_ok :: "index_page \<Rightarrow> bool" where
  "page_ok p \<longleftrightarrow> body_ok (ip_level p) (ip_body p)"

lemmas page_consts = MAX_RAW_PAGE_def MAX_PAGE_ENTRIES_def MAX_INDEX_KEY_def MAX_INDEX_VALUE_def u32_limit_def u64_limit_def

lemma common_prefix_len: "take (common_prefix_len a b) a = take (common_prefix_len a b) b" "common_prefix_len a b \<le> length a" "common_prefix_len a b \<le> length b"
  by (induction a b rule: common_prefix_len.induct) auto

lemma decode_leaves_records:
  assumes "list_all leaf_ok es" and "sorted_wrt (<) (map le_key es)" and "length pre + length (leaf_records p es) + length s < u64_limit"
    and "case prev of Some q \<Rightarrow> q = p \<and> (\<forall>e\<in>set es. p < le_key e) | None \<Rightarrow> p = []"
  shows "decode_leaves (length es) prev (reader_at pre (leaf_records p es @ s)) = Inr (es, reader_at (pre @ leaf_records p es) s)"
  using assms
proof (induction es arbitrary: prev p pre)
  case Nil
  then show ?case by simp
next
  case (Cons e es)
  let ?k = "common_prefix_len p (le_key e)"
  let ?head = "encode_uvarint (of_nat ?k) @ wr_bytes (drop ?k (le_key e)) @ wr_bytes (le_value e)"
  have ok: "length (le_key e) < u64_limit" "length (le_value e) < u64_limit" "length (le_key e) \<le> MAX_INDEX_KEY" "length (le_value e) \<le> MAX_INDEX_VALUE"
    using Cons.prems(1) by (simp_all add: leaf_ok_def page_consts)
  have k: "?k \<le> length p" "?k \<le> length (le_key e)" "take ?k p @ drop ?k (le_key e) = le_key e"
    using common_prefix_len [of p "le_key e"] by simp_all
  have u: "unat (of_nat ?k :: u64) = ?k" using k(2) ok(1) by (simp add: unat_of_nat u64_limit_def)
  have lim: "length pre + length ?head + (length (leaf_records (le_key e) es) + length s) < u64_limit" using Cons.prems(3) by (simp add: Let_def)
  have IH: "decode_leaves (length es) (Some (le_key e)) (reader_at (pre @ ?head) (leaf_records (le_key e) es @ s))
      = Inr (es, reader_at ((pre @ ?head) @ leaf_records (le_key e) es) s)"
    using Cons.prems(1,2) lim by (intro Cons.IH) auto
  have key: "(case prev of Some q \<Rightarrow> take ?k q | None \<Rightarrow> []) @ drop ?k (le_key e) = le_key e"
    and le: "\<not> (case prev of Some q \<Rightarrow> length q < ?k | None \<Rightarrow> ?k \<noteq> 0)" and gt: "\<not> (case prev of Some q \<Rightarrow> le_key e \<le> q | None \<Rightarrow> False)"
    using Cons.prems(4) k by (auto split: option.splits)
  show ?case using IH lim ok u k(2) key le gt by (cases prev) (simp_all add: wire_read Let_def not_less)
qed

lemma decode_internals_records:
  assumes "list_all (internal_ok level) es" and "sorted_wrt (\<lambda>a b. in_max a < in_min b) es"
    and "length pre + length (internal_records counts es) + length s < u64_limit"
    and "case prev of Some q \<Rightarrow> (\<forall>e\<in>set es. q < in_min e) | None \<Rightarrow> True" and "\<forall>e\<in>set es. counts \<longleftrightarrow> 0 < in_count e"
  shows "decode_internals counts level (length es) prev (reader_at pre (internal_records counts es @ s)) = Inr (es, reader_at (pre @ internal_records counts es) s)"
  using assms
proof (induction es arbitrary: prev pre)
  case Nil
  then show ?case by simp
next
  case (Cons e es)
  let ?head = "wr_bytes (in_min e) @ wr_bytes (in_max e) @ (if counts then wr_u64 (in_count e) else []) @ child_ref_encode (in_child e)"
  have ok: "length (in_min e) < u64_limit" "length (in_max e) < u64_limit" "internal_ok level e"
    using Cons.prems(1) by (simp_all add: internal_ok_def page_consts)
  have lim: "length pre + length ?head + (length (internal_records counts es) + length s) < u64_limit" using Cons.prems(3) by simp
  have IH: "decode_internals counts level (length es) (Some (in_max e)) (reader_at (pre @ ?head) (internal_records counts es @ s))
      = Inr (es, reader_at ((pre @ ?head) @ internal_records counts es) s)"
    using Cons.prems(1,2,5) lim by (intro Cons.IH) auto
  have gt: "\<not> (case prev of Some q \<Rightarrow> in_min e \<le> q | None \<Rightarrow> False)" using Cons.prems(4) by (auto split: option.splits)
  show ?case using IH lim ok gt Cons.prems(5) by (cases counts) (simp_all add: wire_read Let_def not_less internal_ok_def)
qed

lemma flag_bits [simp]: "PAGE_FLAG_SUBTREE_COUNTS = 1"
  by (simp add: PAGE_FLAG_SUBTREE_COUNTS_def)

lemma page_decode_encode:
  assumes ok: "page_ok p" and size: "length (page_encode p) \<le> MAX_RAW_PAGE"
  shows "page_decode (page_encode p) = Inr p"
proof -
  define c where "c = has_counts (ip_body p)"
  define n where "n = (case ip_body p of LeafBody es \<Rightarrow> length es | InternalBody es \<Rightarrow> length es)"
  define b where "b = (case ip_body p of LeafBody es \<Rightarrow> leaf_records [] es | InternalBody es \<Rightarrow> internal_records c es)"
  let ?pre = "PAGE_MAGIC @ wr_u8 (bnpg_kind_as_u8 (ip_kind p)) @ wr_u8 (ip_level p) @ wr_u16 (if c then 1 else 0) @ wr_u32 n @ wr_u32 0"
  have n: "entry_count p = n" "n \<le> MAX_PAGE_ENTRIES" "n < 4294967296"
    using ok by (cases "ip_body p"; simp add: page_ok_def entry_count_def n_def page_consts)+
  have enc: "page_encode p = ?pre @ b" by (cases "ip_body p") (simp_all add: page_encode_def n(1) c_def b_def)
  have m: "length PAGE_MAGIC = 4" by (simp add: PAGE_MAGIC_def)
  have lim: "length (?pre @ b) < u64_limit" using size unfolding enc [symmetric] by (simp add: page_consts)
  have body: "decode_body c (ip_level p) n (reader_at ?pre b) = Inr (ip_body p, reader_at (?pre @ b) [])"
  proof (cases "ip_body p")
    case (LeafBody es)
    then have "n = length es" "b = leaf_records [] es" "\<not> c" by (simp_all add: n_def b_def c_def has_counts_def)
    then show ?thesis using ok lim LeafBody decode_leaves_records [of es ?pre "[]" "[]" None] by (simp add: page_ok_def decode_body_def)
  next
    case (InternalBody es)
    then have "n = length es" "b = internal_records c es" by (simp_all add: n_def b_def)
    moreover have "\<forall>e\<in>set es. c \<longleftrightarrow> 0 < in_count e" using ok InternalBody by (auto simp: page_ok_def c_def has_counts_def list_ex_iff list_all_iff)
    ultimately show ?thesis using ok lim InternalBody decode_internals_records [of "ip_level p" es ?pre c "[]" None] by (simp add: page_ok_def decode_body_def)
  qed
  have "bnpg_kind_from_u8 (bnpg_kind_as_u8 (ip_kind p)) = Inr (ip_kind p)" by (cases "ip_kind p") (simp add: bnpg_kind_from_u8_def)
  then show ?thesis using body lim n(2,3) m size unfolding page_decode_def enc
    by (cases c) (simp_all add: reader_new_at wire_read Let_def not_less)
qed

lemma decode_leaves_ok:
  assumes "decode_leaves n prev r = Inr (es, r')" and "rd_inv r"
  shows "list_all leaf_ok es \<and> sorted_wrt (<) (map le_key es) \<and> length es = n \<and> rd_inv r'
    \<and> (case prev of Some p \<Rightarrow> list_all (\<lambda>e. p < le_key e) es | None \<Rightarrow> True)"
  using assms
proof (induction n arbitrary: prev r es)
  case 0
  then show ?case by (simp split: option.splits)
next
  case (Suc n)
  let ?key = "\<lambda>v s. (case prev of Some p \<Rightarrow> take (unat v) p | None \<Rightarrow> []) @ s"
  obtain v suffix val r1 r2 r3 fs where v: "rd_uvarint ''index page'' r = Inr (v, r1)" and s: "rd_bytes ''index page'' r1 = Inr (suffix, r2)"
    and w: "rd_bytes ''index page'' r2 = Inr (val, r3)" and rec: "decode_leaves n (Some (?key v suffix)) r3 = Inr (fs, r')"
    and lim: "length (?key v suffix) \<le> MAX_INDEX_KEY" "length val \<le> MAX_INDEX_VALUE" "\<not> (case prev of Some p \<Rightarrow> ?key v suffix \<le> p | None \<Rightarrow> False)"
    and es: "es = \<lparr>le_key = ?key v suffix, le_value = val\<rparr> # fs"
    using Suc.prems(1) by (auto simp: result_simps Let_def not_less split: if_splits)
  have "rd_inv r3" using uvarintc.get_sound [OF v Suc.prems(2)] bytesc.get_sound [OF s] bytesc.get_sound [OF w] by simp
  from Suc.IH [OF rec this] have IH: "list_all leaf_ok fs" "sorted_wrt (<) (map le_key fs)" "length fs = n" "rd_inv r'" "list_all (\<lambda>e. ?key v suffix < le_key e) fs" by simp_all
  have "list_all (\<lambda>e. p < le_key e) es" if "prev = Some p" for p
    using lim(3) IH(5) that by (auto simp: es list_all_iff not_le intro: less_trans)
  then show ?case using IH lim(1,2) by (auto simp: es leaf_ok_def list_all_iff split: option.splits)
qed

lemma decode_internals_ok:
  assumes "decode_internals counts level n prev r = Inr (es, r')" and "rd_inv r"
  shows "list_all (internal_ok level) es \<and> sorted_wrt (\<lambda>a b. in_max a < in_min b) es \<and> length es = n \<and> rd_inv r'
    \<and> list_all (\<lambda>e. (0 < in_count e) = counts) es \<and> (case prev of Some p \<Rightarrow> list_all (\<lambda>e. p < in_min e) es | None \<Rightarrow> True)"
  using assms
proof (induction n arbitrary: prev r es)
  case 0
  then show ?case by (simp split: option.splits)
next
  case (Suc n)
  obtain mn mx c child r1 r2 r3 r4 fs where m: "rd_bytes ''index page'' r = Inr (mn, r1)" "rd_bytes ''index page'' r1 = Inr (mx, r2)"
    and c: "(if counts then rbind (rd_u64 ''index page'' r2) (\<lambda>(c, r). if c = 0 then Inl (Invalid ''index page'') else Inr (c, r)) else Inr (0, r2)) = Inr (c, r3)"
    and ch: "child_ref_decode r3 = Inr (child, r4)" and rec: "decode_internals counts level n (Some mx) r4 = Inr (fs, r')"
    and lim: "length mn \<le> MAX_INDEX_KEY" "length mx \<le> MAX_INDEX_KEY" "ensure_child_descends level (child_level child) = Inr ()" "mn \<le> mx"
      "\<not> (case prev of Some p \<Rightarrow> mn \<le> p | None \<Rightarrow> False)"
    and es: "es = \<lparr>in_min = mn, in_max = mx, in_count = c, in_child = child\<rparr> # fs"
    using Suc.prems(1) by (auto simp: result_simps Let_def not_less split: if_splits)
  have r2: "rd_inv r2" using bytesc.get_sound [OF m(1) Suc.prems(2)] bytesc.get_sound [OF m(2)] by simp
  then have r3: "rd_inv r3" "c < 256 ^ 8" "(0 < c) = counts" using c by (auto simp: result_simps dest!: rd_uint_sound split: if_splits)
  have r4: "child_ref_ok child" "rd_inv r4" using child_refc.get_sound [OF ch r3(1)] by simp_all
  from Suc.IH [OF rec r4(2)] have IH: "list_all (internal_ok level) fs" "sorted_wrt (\<lambda>a b. in_max a < in_min b) fs" "length fs = n" "rd_inv r'"
    "list_all (\<lambda>e. (0 < in_count e) = counts) fs" "list_all (\<lambda>e. mx < in_min e) fs" by simp_all
  have "list_all (\<lambda>e. p < in_min e) es" if "prev = Some p" for p
    using lim(4,5) IH(6) that by (auto simp: es list_all_iff not_le dest: order_le_less_trans order_less_trans)
  then show ?case using IH lim(1-4) r3 r4(1) by (auto simp: es internal_ok_def list_all_iff split: option.splits)
qed

lemma decode_body_ok:
  assumes d: "decode_body counts level n r = Inr (b, r')" and "rd_inv r" and "n \<le> MAX_PAGE_ENTRIES"
  shows "body_ok level b"
proof (cases "level = 0")
  case True
  then obtain es where e: "decode_leaves n None r = Inr (es, r')" and b: "b = LeafBody es" using d by (auto simp: decode_body_def result_simps split: if_splits)
  show ?thesis using decode_leaves_ok [OF e assms(2)] assms(3) True by (simp add: b)
next
  case False
  then obtain es where e: "decode_internals counts level n None r = Inr (es, r')" and b: "b = InternalBody es" using d by (auto simp: decode_body_def result_simps)
  show ?thesis using decode_internals_ok [OF e assms(2)] assms(3) False by (cases counts) (auto simp: b list_all_iff)
qed

lemma page_decode_ok: "page_decode raw = Inr p \<Longrightarrow> page_ok p \<and> length raw \<le> MAX_RAW_PAGE"
  by (auto simp: page_decode_def page_ok_def result_simps Let_def dest!: rd_uint_sound rd_u8_sound rd_take_sound decode_body_ok split: if_splits)

text \<open>
  C18. Index pages: the encoding of a legal page within the size limit, with its prefix-compressed keys,
  decodes to the page, and whatever decodes is a legal page: keys in strictly increasing order,
  disjoint ascending ranges, children one level down, and all limits met.
\<close>

theorem index_page_codec:
  "(page_ok p \<and> length (page_encode p) \<le> MAX_RAW_PAGE \<longrightarrow> page_decode (page_encode p) = Inr p)
   \<and> (page_decode raw = Inr q \<longrightarrow> page_ok q \<and> length raw \<le> MAX_RAW_PAGE)"
  using page_decode_encode page_decode_ok by blast

theorem index_page_codec_witness:
  "page_decode (page_encode \<lparr>ip_kind = BnpgKeyValue, ip_level = 0, ip_body = LeafBody [\<lparr>le_key = [1, 2], le_value = [7]\<rparr>, \<lparr>le_key = [1, 3], le_value = []\<rparr>]\<rparr>)
   = Inr \<lparr>ip_kind = BnpgKeyValue, ip_level = 0, ip_body = LeafBody [\<lparr>le_key = [1, 2], le_value = [7]\<rparr>, \<lparr>le_key = [1, 3], le_value = []\<rparr>]\<rparr>"
proof -
  let ?p = "\<lparr>ip_kind = BnpgKeyValue, ip_level = 0, ip_body = LeafBody [\<lparr>le_key = [1, 2], le_value = [7]\<rparr>, \<lparr>le_key = [1, 3], le_value = []\<rparr>]\<rparr>"
  have "length (encode_uvarint v) \<le> 10" for v by (rule length_encode_uvarint)
  from this [of 0] this [of 1] this [of 2] have "length (page_encode ?p) \<le> MAX_RAW_PAGE" by (simp add: page_encode_def PAGE_MAGIC_def wr_bytes_def MAX_RAW_PAGE_def)
  moreover have "page_ok ?p" by (simp add: page_ok_def leaf_ok_def page_consts)
  ultimately show ?thesis using index_page_codec [of ?p] by blast
qed

end
