(* ===== verification/IndexBuild.thy ===== *)
theory IndexBuild
  imports IndexPages
begin

text \<open>
  The index-tree builder (\<^verbatim>\<open>src/src/native_base/wire/index_build.rs\<close>): leaves are filled up to a target
  size, then internal levels are built on top until one root remains. Pages are appended to the body
  of a container, aligned to eight bytes.
\<close>

section \<open>Placing pages\<close>

record index_tree_params =
  tp_leaf_target :: nat
  tp_leaf_kind :: bnpg_kind
  tp_page_kind :: page_kind
  tp_codec :: codec

definition tree_params_generic :: "nat \<Rightarrow> index_tree_params" where
  "tree_params_generic leaf_target = \<lparr>tp_leaf_target = leaf_target, tp_leaf_kind = BnpgKeyValue, tp_page_kind = GenericKeyValue, tp_codec = NoCodec\<rparr>"

definition tree_params_with_codec :: "nat \<Rightarrow> codec \<Rightarrow> index_tree_params" where
  "tree_params_with_codec leaf_target cdc = (tree_params_generic leaf_target)\<lparr>tp_codec := cdc\<rparr>"

text \<open>The loop that pushes zeros until the next page starts at a multiple of eight.\<close>

definition pad_body :: "bytes \<Rightarrow> bytes" where
  "pad_body body = body @ replicate ((8 - (HEADER_LEN + length body) mod 8) mod 8) 0"

text \<open>The lengths stored in the address fit \<^verbatim>\<open>u32\<close> after the two limit checks.\<close>

definition place_page_with_codec ::
  "(bytes \<Rightarrow> bytes) \<Rightarrow> (bytes \<Rightarrow> int \<Rightarrow> bytes option) \<Rightarrow> bytes \<Rightarrow> index_page \<Rightarrow> page_kind \<Rightarrow> codec \<Rightarrow> wire_error + (page_address \<times> bytes)" where
  "place_page_with_codec sha compress body page kind cdc =
     (let raw = page_encode page
      in if MAX_RAW_PAGE < length raw then Inl LimitExceeded
         else if MAX_PAGE_ENTRIES < entry_count page then Inl LimitExceeded
         else rbind (case cdc of NoCodec \<Rightarrow> Inr raw | Zstd \<Rightarrow> ok_or CodecError (compress raw 3)) (\<lambda>stored.
           if MAX_ENCODED_PAGE < length stored then Inl LimitExceeded
           else let body' = pad_body body
                in Inr (\<lparr>pa_offset = HEADER_LEN + length body', pa_stored_len = length stored, pa_raw_len = length raw, pa_codec = cdc,
                       pa_kind = kind, pa_level = ip_level page, pa_entry_count = entry_count page, pa_digest = sha stored\<rparr>, body' @ stored)))"

definition place_page :: "(bytes \<Rightarrow> bytes) \<Rightarrow> (bytes \<Rightarrow> int \<Rightarrow> bytes option) \<Rightarrow> bytes \<Rightarrow> index_page \<Rightarrow> page_kind \<Rightarrow> wire_error + (page_address \<times> bytes)" where
  "place_page sha compress body page kind = place_page_with_codec sha compress body page kind NoCodec"

section \<open>Building a tree\<close>

type_synonym child_summary = "bytes \<times> bytes \<times> child_ref \<times> nat"

text \<open>\<open>entries\<close> is not empty, as in every call.\<close>

definition flush_leaf ::
  "(bytes \<Rightarrow> bytes) \<Rightarrow> (bytes \<Rightarrow> int \<Rightarrow> bytes option) \<Rightarrow> index_tree_params \<Rightarrow> leaf_entry list \<Rightarrow> child_summary list \<Rightarrow> bytes
   \<Rightarrow> wire_error + (child_summary list \<times> bytes)" where
  "flush_leaf sha compress params entries children body =
     rbind (place_page_with_codec sha compress body \<lparr>ip_kind = tp_leaf_kind params, ip_level = 0, ip_body = LeafBody entries\<rparr>
              (tp_page_kind params) (tp_codec params)) (\<lambda>(addr, body).
     Inr (children @ [(le_key (hd entries), le_key (last entries), LocalChild addr, length entries)], body))"

fun sum_counts :: "nat \<Rightarrow> internal_entry list \<Rightarrow> wire_error + nat" where
  "sum_counts acc [] = Inr acc"
| "sum_counts acc (e # es) = rbind (ok_or (Invalid ''index page'') (checked_add_u64 acc (in_count e))) (\<lambda>t. sum_counts t es)"

definition flush_internal ::
  "(bytes \<Rightarrow> bytes) \<Rightarrow> (bytes \<Rightarrow> int \<Rightarrow> bytes option) \<Rightarrow> index_tree_params \<Rightarrow> u8 \<Rightarrow> bool \<Rightarrow> internal_entry list \<Rightarrow> bytes \<Rightarrow> bytes
   \<Rightarrow> child_summary list \<Rightarrow> bytes \<Rightarrow> wire_error + (child_summary list \<times> bytes)" where
  "flush_internal sha compress params level with_counts entries first_key last_key children body =
     rbind (sum_counts 0 entries) (\<lambda>visible.
     if with_counts \<and> visible = 0 then Inl (Invalid ''index page'')
     else rbind (place_page_with_codec sha compress body
              \<lparr>ip_kind = tp_leaf_kind params, ip_level = level,
                ip_body = InternalBody (if with_counts then entries else map (\<lambda>e. e\<lparr>in_count := 0\<rparr>) entries)\<rparr>
              (tp_page_kind params) (tp_codec params)) (\<lambda>(addr, body).
     Inr (children @ [(first_key, last_key, LocalChild addr, visible)], body)))"

fun leaf_phase ::
  "(bytes \<Rightarrow> bytes) \<Rightarrow> (bytes \<Rightarrow> int \<Rightarrow> bytes option) \<Rightarrow> index_tree_params \<Rightarrow> (bytes \<times> bytes) list \<Rightarrow> leaf_entry list \<Rightarrow> nat
   \<Rightarrow> child_summary list \<Rightarrow> bytes \<Rightarrow> wire_error + (child_summary list \<times> bytes)" where
  "leaf_phase sha compress params [] current est children body =
     (if current \<noteq> [] then flush_leaf sha compress params current children body else Inr (children, body))"
| "leaf_phase sha compress params ((key, val) # rest) current est children body =
     (let e = 10 + length key + length val; entry = \<lparr>le_key = key, le_value = val\<rparr>
      in if current \<noteq> [] \<and> tp_leaf_target params < est + e
         then rbind (flush_leaf sha compress params current children body) (\<lambda>(children, body).
           leaf_phase sha compress params rest [entry] e children body)
         else leaf_phase sha compress params rest (current @ [entry]) (est + e) children body)"

text \<open>One internal level; \<open>first_key\<close> is set whenever \<open>current\<close> is not empty.\<close>

fun internal_phase ::
  "(bytes \<Rightarrow> bytes) \<Rightarrow> (bytes \<Rightarrow> int \<Rightarrow> bytes option) \<Rightarrow> index_tree_params \<Rightarrow> u8 \<Rightarrow> bool \<Rightarrow> child_summary list \<Rightarrow> internal_entry list \<Rightarrow> nat
   \<Rightarrow> bytes option \<Rightarrow> bytes \<Rightarrow> child_summary list \<Rightarrow> bytes \<Rightarrow> wire_error + (child_summary list \<times> bytes)" where
  "internal_phase sha compress params level with_counts [] current est first_key last_key next body =
     (if current \<noteq> [] then flush_internal sha compress params level with_counts current (the first_key) last_key next body else Inr (next, body))"
| "internal_phase sha compress params level with_counts ((min_key, max_key, child, cnt) # rest) current est first_key last_key next body =
     (let e = 2 * (10 + max (length min_key) (length max_key)) + 72;
          entry = \<lparr>in_min = min_key, in_max = max_key, in_count = cnt, in_child = child\<rparr>
      in if 2 \<le> length current \<and> tp_leaf_target params < est + e
         then rbind (flush_internal sha compress params level with_counts current (the first_key) last_key next body) (\<lambda>(next, body).
           internal_phase sha compress params level with_counts rest [entry] e (Some min_key) max_key next body)
         else internal_phase sha compress params level with_counts rest (current @ [entry]) (est + e)
                (case first_key of None \<Rightarrow> Some min_key | Some k \<Rightarrow> Some k) max_key next body)"

function level_phase ::
  "(bytes \<Rightarrow> bytes) \<Rightarrow> (bytes \<Rightarrow> int \<Rightarrow> bytes option) \<Rightarrow> index_tree_params \<Rightarrow> bool \<Rightarrow> u8 \<Rightarrow> child_summary list \<Rightarrow> bytes
   \<Rightarrow> wire_error + (child_summary list \<times> bytes)" where
  "level_phase sha compress params with_counts level children body =
     (if 1 < length children
      then if MAX_INDEX_LEVEL < level then Inl LimitExceeded
           else rbind (internal_phase sha compress params level with_counts children [] 0 None [] [] body) (\<lambda>(next, body).
             level_phase sha compress params with_counts (level + 1) next body)
      else Inr (children, body))"
  by auto

termination
proof (relation "measure (\<lambda>(sha, compress, params, with_counts, level, children, body). 13 - unat level)", goal_cases)
  case 1
  then show ?case by simp
next
  case (2 sha compress params with_counts level children body)
  then have "unat level \<le> 12" by (simp add: MAX_INDEX_LEVEL_def word_less_nat_alt not_less)
  moreover from this have "unat (level + 1) = unat level + 1" by (simp add: unat_word_ariths)
  ultimately show ?case by simp
qed

declare level_phase.simps [simp del]

text \<open>The tree over the entries; an empty list of entries panics, which is the value \<^term>\<open>None\<close>.\<close>

definition build_index_tree_impl ::
  "(bytes \<Rightarrow> bytes) \<Rightarrow> (bytes \<Rightarrow> int \<Rightarrow> bytes option) \<Rightarrow> (bytes \<times> bytes) list \<Rightarrow> index_tree_params \<Rightarrow> bytes \<Rightarrow> bool
   \<Rightarrow> (wire_error + (child_ref \<times> bytes)) option" where
  "build_index_tree_impl sha compress entries params body with_counts =
     (case rbind (leaf_phase sha compress params entries [] 0 [] body) (\<lambda>(children, body).
        level_phase sha compress params with_counts 1 children body) of
        Inl e \<Rightarrow> Some (Inl e)
      | Inr (children, body) \<Rightarrow> if children = [] then None else Some (Inr (fst (snd (snd (last children))), body)))"

definition build_index_tree ::
  "(bytes \<Rightarrow> bytes) \<Rightarrow> (bytes \<Rightarrow> int \<Rightarrow> bytes option) \<Rightarrow> (bytes \<times> bytes) list \<Rightarrow> index_tree_params \<Rightarrow> bytes \<Rightarrow> (wire_error + (child_ref \<times> bytes)) option" where
  "build_index_tree sha compress entries params body = build_index_tree_impl sha compress entries params body False"

definition build_index_tree_with_subtree_counts ::
  "(bytes \<Rightarrow> bytes) \<Rightarrow> (bytes \<Rightarrow> int \<Rightarrow> bytes option) \<Rightarrow> (bytes \<times> bytes) list \<Rightarrow> index_tree_params \<Rightarrow> bytes \<Rightarrow> (wire_error + (child_ref \<times> bytes)) option" where
  "build_index_tree_with_subtree_counts sha compress entries params body = build_index_tree_impl sha compress entries params body True"

end
