(* ===== verification/IndexTrees.thy ===== *)
theory IndexTrees
  imports IndexBuild
begin

text \<open>
  What the index-tree builder leaves in the body of a container: every page it placed decodes to the
  page it meant, the pages do not overlap, and the leaves below the root hold the entries in order.
\<close>

section \<open>Trees of placed pages\<close>

text \<open>A page at an address of a body, stored without compression.\<close>

definition placed :: "(bytes \<Rightarrow> bytes) \<Rightarrow> index_tree_params \<Rightarrow> bytes \<Rightarrow> page_address \<Rightarrow> index_page \<Rightarrow> bool" where
  "placed sha params body a page \<longleftrightarrow>
     page_ok page \<and> length (page_encode page) \<le> MAX_RAW_PAGE \<and> ip_kind page = tp_leaf_kind params \<and> pa_codec a = NoCodec
     \<and> pa_kind a = tp_page_kind params \<and> pa_level a = ip_level page \<and> pa_entry_count a = entry_count page
     \<and> pa_stored_len a = length (page_encode page) \<and> pa_raw_len a = pa_stored_len a \<and> pa_digest a = sha (page_encode page)
     \<and> 64 \<le> pa_offset a \<and> 8 dvd pa_offset a \<and> pa_offset a + pa_stored_len a \<le> 64 + length body
     \<and> bytes_at body (pa_offset a - 64) (pa_stored_len a) = page_encode page"

datatype ptree = PLeaf page_address "leaf_entry list" | PNode page_address "internal_entry list" "ptree list"

fun pt_addr :: "ptree \<Rightarrow> page_address" where
  "pt_addr (PLeaf a es) = a"
| "pt_addr (PNode a es ts) = a"

fun pt_entries :: "ptree \<Rightarrow> leaf_entry list" where
  "pt_entries (PLeaf a es) = es"
| "pt_entries (PNode a es ts) = concat (map pt_entries ts)"

fun pt_addrs :: "ptree \<Rightarrow> page_address list" where
  "pt_addrs (PLeaf a es) = [a]"
| "pt_addrs (PNode a es ts) = a # concat (map pt_addrs ts)"

definition pt_min :: "ptree \<Rightarrow> bytes" where
  "pt_min t = le_key (hd (pt_entries t))"

definition pt_max :: "ptree \<Rightarrow> bytes" where
  "pt_max t = le_key (last (pt_entries t))"

definition routes :: "page_address \<Rightarrow> internal_entry \<Rightarrow> ptree \<Rightarrow> bool" where
  "routes a e t \<longleftrightarrow> in_child e = LocalChild (pt_addr t) \<and> in_min e = pt_min t \<and> in_max e = pt_max t \<and> pa_offset (pt_addr t) < pa_offset a"

fun tree_ok :: "(bytes \<Rightarrow> bytes) \<Rightarrow> index_tree_params \<Rightarrow> bytes \<Rightarrow> ptree \<Rightarrow> bool" where
  "tree_ok sha params body (PLeaf a es) \<longleftrightarrow> es \<noteq> [] \<and> placed sha params body a \<lparr>ip_kind = tp_leaf_kind params, ip_level = 0, ip_body = LeafBody es\<rparr>"
| "tree_ok sha params body (PNode a es ts) \<longleftrightarrow>
     ts \<noteq> [] \<and> list_all2 (routes a) es ts \<and> placed sha params body a \<lparr>ip_kind = tp_leaf_kind params, ip_level = pa_level a, ip_body = InternalBody es\<rparr>
     \<and> list_all (tree_ok sha params body) ts"

text \<open>Addresses of pages that do not overlap.\<close>

definition apart :: "bytes \<Rightarrow> page_address list \<Rightarrow> bool" where
  "apart body as \<longleftrightarrow> distinct as
     \<and> (\<forall>a\<in>set as. 64 \<le> pa_offset a \<and> 0 < pa_stored_len a \<and> pa_offset a + pa_stored_len a \<le> 64 + length body)
     \<and> (\<forall>a\<in>set as. \<forall>b\<in>set as. a \<noteq> b \<longrightarrow> pa_offset a + pa_stored_len a \<le> pa_offset b \<or> pa_offset b + pa_stored_len b \<le> pa_offset a)"

lemma placed_grow: "placed sha params body a page \<Longrightarrow> placed sha params (body @ x) a page"
  by (auto simp: placed_def bytes_at_inside)

lemma tree_ok_grow: "tree_ok sha params body t \<Longrightarrow> tree_ok sha params (body @ x) t"
proof (induction t)
  case (PLeaf a es)
  then show ?case by (simp add: placed_grow)
next
  case (PNode a es ts)
  then show ?case by (auto simp: placed_grow list_all_iff)
qed

lemma apart_grow: "apart body as \<Longrightarrow> apart (body @ x) as"
  unfolding apart_def by fastforce

lemma apart_add:
  assumes ap: "apart body (xs @ ys)" and a: "64 + length body \<le> pa_offset a" "0 < pa_stored_len a" "pa_offset a + pa_stored_len a \<le> 64 + length body + n"
    and n: "length x = n"
  shows "apart (body @ x) (xs @ a # ys)"
proof -
  have in_body: "64 \<le> pa_offset b \<and> 0 < pa_stored_len b \<and> pa_offset b + pa_stored_len b \<le> 64 + length body" if "b \<in> set (xs @ ys)" for b
    using ap that unfolding apart_def by blast
  have old: "b \<noteq> a" "pa_offset b + pa_stored_len b \<le> pa_offset a" "64 \<le> pa_offset b" "0 < pa_stored_len b" "pa_offset b + pa_stored_len b \<le> 64 + length body"
    if "b \<in> set (xs @ ys)" for b
    using in_body [OF that] a(1,2) by auto
  have "distinct (xs @ a # ys)" using ap old(1) by (auto simp: apart_def)
  moreover have "64 \<le> pa_offset b \<and> 0 < pa_stored_len b \<and> pa_offset b + pa_stored_len b \<le> 64 + length (body @ x)" if "b \<in> set (xs @ a # ys)" for b
    using old(3-5) [of b] a n that by (cases "b = a") auto
  moreover have "pa_offset b + pa_stored_len b \<le> pa_offset c \<or> pa_offset c + pa_stored_len c \<le> pa_offset b"
    if "b \<in> set (xs @ a # ys)" "c \<in> set (xs @ a # ys)" "b \<noteq> c" for b c
  proof (cases "b = a \<or> c = a")
    case True
    then show ?thesis using old(2) [of b] old(2) [of c] that by auto
  next
    case False
    then show ?thesis using ap that by (auto simp: apart_def)
  qed
  ultimately show ?thesis unfolding apart_def by blast
qed

lemma tree_ok_entries: "tree_ok sha params body t \<Longrightarrow> pt_entries t \<noteq> []"
proof (induction t)
  case (PNode a es ts)
  obtain u us where ts: "ts = u # us" using PNode.prems by (cases ts) auto
  then have "pt_entries u \<noteq> []" using PNode by simp
  then show ?case by (simp add: ts)
qed simp

lemma tree_ok_addr: "tree_ok sha params body t \<Longrightarrow> \<exists>page. placed sha params body (pt_addr t) page \<and> ip_level page = pa_level (pt_addr t)"
  by (cases t) (auto simp: placed_def)

section \<open>Placing a page\<close>

lemma pad_body: "8 dvd 64 + length (pad_body body)" "pad_body body = body @ replicate ((8 - (64 + length body) mod 8) mod 8) 0"
proof -
  show eq: "pad_body body = body @ replicate ((8 - (64 + length body) mod 8) mod 8) 0" by (simp add: pad_body_def HEADER_LEN_def)
  have "(n + (8 - n mod 8) mod 8) mod 8 = 0" for n :: nat
  proof -
    have "(n + (8 - n mod 8) mod 8) mod 8 = (n mod 8 + (8 - n mod 8)) mod 8" by (simp only: mod_add_left_eq mod_add_right_eq)
    also have "n mod 8 + (8 - n mod 8) = 8" using mod_less_divisor [of 8 n] by simp
    finally show ?thesis by simp
  qed
  from this [of "64 + length body"] show "8 dvd 64 + length (pad_body body)"
    unfolding eq length_append length_replicate add.assoc [symmetric] dvd_eq_mod_eq_0 .
qed

lemma length_wr_bytes: "length (wr_bytes b) = length (encode_uvarint (of_nat (length b))) + length b" "0 < length (wr_bytes b)"
  using length_encode_uvarint(2) by (simp_all add: wr_bytes_def)

lemma length_records: "length es \<le> length (leaf_records p es)" "length fs \<le> length (internal_records c fs)"
proof -
  have one: "1 \<le> length (wr_bytes b)" for b using length_wr_bytes(2) [of b] by (simp only: Suc_le_eq One_nat_def)
  show "length es \<le> length (leaf_records p es)"
  proof (induction es arbitrary: p)
    case (Cons e es)
    show ?case using one [of "le_value e"] Cons.IH [of "le_key e"] by (simp add: Let_def)
  qed simp
  show "length fs \<le> length (internal_records c fs)"
  proof (induction fs)
    case (Cons f fs)
    then show ?case using one [of "in_min f"] by simp
  qed simp
qed

lemma place_page_placed:
  assumes p: "place_page_with_codec sha compress body page (tp_page_kind params) NoCodec = Inr (a, body')"
    and body: "body_ok (ip_level page) (ip_body page) \<or> MAX_PAGE_ENTRIES < (case ip_body page of LeafBody es \<Rightarrow> length es | InternalBody es \<Rightarrow> length es)"
    and kind: "ip_kind page = tp_leaf_kind params"
  shows "placed sha params body' a page \<and> (\<exists>x. body' = body @ x) \<and> 64 + length body \<le> pa_offset a \<and> 0 < pa_stored_len a
    \<and> pa_offset a + pa_stored_len a = 64 + length body'"
proof -
  have l: "length (page_encode page) \<le> MAX_RAW_PAGE" and n: "entry_count page \<le> MAX_PAGE_ENTRIES"
    and a: "a = \<lparr>pa_offset = 64 + length (pad_body body), pa_stored_len = length (page_encode page), pa_raw_len = length (page_encode page), pa_codec = NoCodec,
      pa_kind = tp_page_kind params, pa_level = ip_level page, pa_entry_count = entry_count page, pa_digest = sha (page_encode page)\<rparr>"
    and b: "body' = pad_body body @ page_encode page"
    using p by (auto simp: place_page_with_codec_def Let_def HEADER_LEN_def split: if_splits)
  let ?n = "case ip_body page of LeafBody es \<Rightarrow> length es | InternalBody es \<Rightarrow> length es"
  have "?n \<le> length (page_encode page)"
  proof (cases "ip_body page")
    case (LeafBody es)
    then show ?thesis using length_records(1) [of es "[]"] by (simp add: page_encode_def)
  next
    case (InternalBody es)
    then show ?thesis using length_records(2) [of es "has_counts (InternalBody es)"] by (simp add: page_encode_def)
  qed
  then have "?n < u32_limit" using l by (simp add: page_consts)
  then have "entry_count page = ?n" by (cases "ip_body page") (simp_all add: entry_count_def)
  then have ok: "page_ok page" using body n by (simp add: page_ok_def)
  have "0 < length (page_encode page)" by (simp add: page_encode_def PAGE_MAGIC_def)
  moreover have "bytes_at body' (length (pad_body body)) (length (page_encode page)) = page_encode page" by (simp add: b bytes_at_whole)
  moreover have "length body \<le> length (pad_body body)" "\<exists>x. body' = body @ x" by (simp_all add: b pad_body(2))
  ultimately show ?thesis using ok l kind pad_body(1) [of body] by (simp add: placed_def a) (simp add: b)
qed

section \<open>Forests\<close>

text \<open>The summaries the builder keeps of the trees it has, all of the same level.\<close>

definition summary_of :: "child_summary \<Rightarrow> ptree \<Rightarrow> bool" where
  "summary_of s t \<longleftrightarrow> (\<exists>c. s = (pt_min t, pt_max t, LocalChild (pt_addr t), c) \<and> 0 < c \<and> c < u64_limit)"

definition forest :: "(bytes \<Rightarrow> bytes) \<Rightarrow> index_tree_params \<Rightarrow> bytes \<Rightarrow> u8 \<Rightarrow> ptree list \<Rightarrow> bool" where
  "forest sha params body level ts \<longleftrightarrow> (\<forall>t\<in>set ts. tree_ok sha params body t \<and> pa_level (pt_addr t) = level)"

abbreviation forest_entries :: "ptree list \<Rightarrow> leaf_entry list" where
  "forest_entries ts \<equiv> concat (map pt_entries ts)"

abbreviation forest_addrs :: "ptree list \<Rightarrow> page_address list" where
  "forest_addrs ts \<equiv> concat (map pt_addrs ts)"

definition sorted_entries :: "leaf_entry list \<Rightarrow> bool" where
  "sorted_entries es \<longleftrightarrow> list_all leaf_ok es \<and> sorted_wrt (<) (map le_key es)"

lemma sorted_entries_append: "sorted_entries (xs @ ys) \<longleftrightarrow> sorted_entries xs \<and> sorted_entries ys \<and> (\<forall>x\<in>set xs. \<forall>y\<in>set ys. le_key x < le_key y)"
  by (auto simp: sorted_entries_def sorted_wrt_append)

lemma forest_grow: "forest sha params body level ts \<Longrightarrow> forest sha params (body @ x) level ts"
  by (simp add: forest_def tree_ok_grow)

lemma forest_append [simp]:
  "forest sha params body level (ts @ us) \<longleftrightarrow> forest sha params body level ts \<and> forest sha params body level us"
  "forest sha params body level [t] \<longleftrightarrow> tree_ok sha params body t \<and> pa_level (pt_addr t) = level"
  by (auto simp: forest_def)

lemma leaf_tree:
  assumes f: "flush_leaf sha compress params es children body = Inr (children', body')" and codec: "tp_codec params = NoCodec"
    and es: "es \<noteq> []" "sorted_entries es" and ap: "apart body as"
  obtains t x c where "children' = children @ [c]" "summary_of c t" "body' = body @ x" "tree_ok sha params body' t" "pa_level (pt_addr t) = 0" "pt_entries t = es"
    "apart body' (as @ pt_addrs t)"
proof -
  let ?page = "\<lparr>ip_kind = tp_leaf_kind params, ip_level = 0, ip_body = LeafBody es\<rparr>"
  obtain a where p: "place_page_with_codec sha compress body ?page (tp_page_kind params) NoCodec = Inr (a, body')"
    and c: "children' = children @ [(le_key (hd es), le_key (last es), LocalChild a, length es)]"
    using f codec by (auto simp: flush_leaf_def result_simps)
  have "body_ok 0 (LeafBody es) \<or> MAX_PAGE_ENTRIES < length es" using es(2) by (auto simp: sorted_entries_def)
  then obtain x where P: "placed sha params body' a ?page" "body' = body @ x" "64 + length body \<le> pa_offset a" "0 < pa_stored_len a" "pa_offset a + pa_stored_len a = 64 + length body'"
    using place_page_placed [OF p] by auto
  have "length es \<le> MAX_PAGE_ENTRIES" using P(1) by (auto simp: placed_def page_ok_def)
  then have "summary_of (le_key (hd es), le_key (last es), LocalChild a, length es) (PLeaf a es)" using es(1) by (simp add: summary_of_def pt_min_def pt_max_def page_consts)
  moreover have "apart body' (as @ [a])" using apart_add [of body as "[]" a "length x" x] ap P(2-5) by simp
  ultimately show thesis using P es(1) c by (intro that [of _ "PLeaf a es" x]) (auto simp: placed_def)
qed

lemma leaf_phase_forest:
  assumes "leaf_phase sha compress params entries current est children body = Inr (children', body')" and codec: "tp_codec params = NoCodec"
    and "list_all2 summary_of children ts" and "forest sha params body 0 ts" and "apart body (forest_addrs ts)"
    and "sorted_entries (forest_entries ts @ current @ map (\<lambda>(k, v). \<lparr>le_key = k, le_value = v\<rparr>) entries)"
  shows "\<exists>us x. list_all2 summary_of children' us \<and> body' = body @ x \<and> forest sha params body' 0 us \<and> apart body' (forest_addrs us)
    \<and> forest_entries us = forest_entries ts @ current @ map (\<lambda>(k, v). \<lparr>le_key = k, le_value = v\<rparr>) entries"
  using assms(1,3-6)
proof (induction entries arbitrary: current est children body ts)
  case Nil
  show ?case
  proof (cases "current = []")
    case True
    then show ?thesis using Nil by auto
  next
    case False
    have "flush_leaf sha compress params current children body = Inr (children', body')" "sorted_entries current" using Nil.prems(1,5) False by (simp_all add: sorted_entries_append)
    from leaf_tree [OF this(1) codec False this(2) Nil.prems(4)] obtain t x c where t: "children' = children @ [c]" "summary_of c t" "body' = body @ x"
      "tree_ok sha params body' t" "pa_level (pt_addr t) = 0" "pt_entries t = current" "apart body' (forest_addrs ts @ pt_addrs t)" .
    have "list_all2 summary_of children' (ts @ [t])" "forest sha params body' 0 (ts @ [t])" using Nil.prems(2,3) t by (simp_all add: list_all2_appendI forest_grow)
    then show ?thesis using t by (intro exI [of _ "ts @ [t]"]) simp
  qed
next
  case (Cons kv entries)
  obtain k v where kv: "kv = (k, v)" by (cases kv)
  let ?e = "\<lparr>le_key = k, le_value = v\<rparr>"
  show ?case
  proof (cases "current \<noteq> [] \<and> tp_leaf_target params < est + (10 + length k + length v)")
    case True
    then obtain c1 b1 where f: "flush_leaf sha compress params current children body = Inr (c1, b1)"
      and rec: "leaf_phase sha compress params entries [?e] (10 + length k + length v) c1 b1 = Inr (children', body')"
      using Cons.prems(1) by (auto simp: kv Let_def result_simps)
    have "sorted_entries current" using Cons.prems(5) by (simp add: sorted_entries_append)
    from leaf_tree [OF f codec conjunct1 [OF True] this Cons.prems(4)] obtain t x c where t: "c1 = children @ [c]" "summary_of c t" "b1 = body @ x"
      "tree_ok sha params b1 t" "pa_level (pt_addr t) = 0" "pt_entries t = current" "apart b1 (forest_addrs ts @ pt_addrs t)" .
    have "list_all2 summary_of c1 (ts @ [t])" "forest sha params b1 0 (ts @ [t])" using Cons.prems(2,3) t by (simp_all add: list_all2_appendI forest_grow)
    from Cons.IH [OF rec this] t(6,7) Cons.prems(5)
    obtain us y where u: "list_all2 summary_of children' us" "body' = b1 @ y" "forest sha params body' 0 us" "apart body' (forest_addrs us)"
      "forest_entries us = forest_entries (ts @ [t]) @ [?e] @ map (\<lambda>(k, v). \<lparr>le_key = k, le_value = v\<rparr>) entries" by (auto simp: kv)
    show ?thesis using u t(3,6) by (intro exI [of _ us]) (simp add: kv)
  next
    case False
    then have rec: "leaf_phase sha compress params entries (current @ [?e]) (est + (10 + length k + length v)) children body = Inr (children', body')"
      using Cons.prems(1) by (simp only: kv leaf_phase.simps Let_def if_False)
    show ?thesis using Cons.IH [OF rec Cons.prems(2-4)] Cons.prems(5) by (simp add: kv)
  qed
qed

section \<open>Internal levels\<close>

lemma sorted_forest:
  assumes "sorted_entries (forest_entries ts)" and "\<forall>t\<in>set ts. pt_entries t \<noteq> []"
  shows "sorted_wrt (\<lambda>t u. pt_max t < pt_min u) ts
    \<and> (\<forall>t\<in>set ts. pt_min t \<le> pt_max t \<and> length (pt_min t) \<le> MAX_INDEX_KEY \<and> length (pt_max t) \<le> MAX_INDEX_KEY)"
  using assms
proof (induction ts)
  case (Cons t ts)
  have ne: "pt_entries t \<noteq> []" and s: "sorted_entries (pt_entries t)" "sorted_entries (forest_entries ts)"
    and lt: "\<And>x y. x \<in> set (pt_entries t) \<Longrightarrow> y \<in> set (forest_entries ts) \<Longrightarrow> le_key x < le_key y"
    using Cons.prems by (auto simp: sorted_entries_append)
  have IH: "sorted_wrt (\<lambda>t u. pt_max t < pt_min u) ts"
    "\<forall>t\<in>set ts. pt_min t \<le> pt_max t \<and> length (pt_min t) \<le> MAX_INDEX_KEY \<and> length (pt_max t) \<le> MAX_INDEX_KEY" using Cons.IH s(2) Cons.prems(2) by simp_all
  have "pt_max t < pt_min u" if "u \<in> set ts" for u
  proof -
    have "hd (pt_entries u) \<in> set (forest_entries ts)" using that Cons.prems(2) by (auto intro!: bexI [of _ u])
    then show ?thesis unfolding pt_max_def pt_min_def using ne by (intro lt) simp_all
  qed
  moreover have "pt_min t \<le> pt_max t"
  proof -
    obtain x xs where e: "pt_entries t = x # xs" using ne by (cases "pt_entries t") auto
    show ?thesis using s(1) by (cases "xs = []") (auto simp: pt_min_def pt_max_def e sorted_entries_def intro!: less_imp_le)
  qed
  moreover have "leaf_ok (hd (pt_entries t))" "leaf_ok (last (pt_entries t))" using s(1) ne by (auto simp: sorted_entries_def list_all_iff)
  ultimately show ?case using IH by (simp add: pt_min_def pt_max_def leaf_ok_def)
qed simp

lemma tree_address_ok:
  assumes t: "tree_ok sha params body t" and "64 + length body < u64_limit" and "\<forall>b. length (sha b) = 32" and "pa_level (pt_addr t) \<le> MAX_INDEX_LEVEL"
  shows "page_address_ok (pt_addr t)" and "pa_offset (pt_addr t) + pa_stored_len (pt_addr t) \<le> 64 + length body" and "0 < pa_stored_len (pt_addr t)"
proof -
  obtain page where p: "placed sha params body (pt_addr t) page" using tree_ok_addr [OF t] by blast
  have "entry_count page < u32_limit" by (cases "ip_body page") (simp_all add: entry_count_def u32_limit_def)
  then show "page_address_ok (pt_addr t)" "pa_offset (pt_addr t) + pa_stored_len (pt_addr t) \<le> 64 + length body"
    using p assms(2-4) by (auto simp: placed_def page_address_ok_def page_consts)
  show "0 < pa_stored_len (pt_addr t)" using p by (auto simp: placed_def page_encode_def PAGE_MAGIC_def)
qed

definition entry_for :: "internal_entry \<Rightarrow> ptree \<Rightarrow> bool" where
  "entry_for e t \<longleftrightarrow> summary_of (in_min e, in_max e, in_child e, in_count e) t"

lemma sum_counts:
  "sum_counts acc es = Inr v \<Longrightarrow> acc < u64_limit \<Longrightarrow> v < u64_limit \<and> acc \<le> v \<and> (list_ex (\<lambda>e. 0 < in_count e) es \<longrightarrow> acc < v)"
proof (induction es arbitrary: acc)
  case (Cons e es)
  then have "sum_counts (acc + in_count e) es = Inr v" "acc + in_count e < u64_limit" by (auto simp: result_simps)
  from Cons.IH [OF this] show ?case by auto
qed simp

lemma internal_body_ok:
  assumes es: "list_all2 entry_for es ts" and ts: "forest sha params body (level - 1) ts" and lv: "level \<noteq> 0" "level \<le> MAX_INDEX_LEVEL"
    and sorted: "sorted_entries (forest_entries ts)" and sha: "\<forall>b. length (sha b) = 32" and lim: "64 + length body < u64_limit"
    and es': "es' = (if counts then es else map (\<lambda>e. e\<lparr>in_count := 0\<rparr>) es)"
  shows "list_all (internal_ok level) es' \<and> sorted_wrt (\<lambda>a b. in_max a < in_min b) es'
    \<and> (list_all (\<lambda>e. 0 < in_count e) es' \<or> list_all (\<lambda>e. in_count e = 0) es')"
proof -
  have tree: "tree_ok sha params body t" "pa_level (pt_addr t) = level - 1" if "t \<in> set ts" for t using ts that by (simp_all add: forest_def)
  have S: "sorted_wrt (\<lambda>t u. pt_max t < pt_min u) ts"
    "\<forall>t\<in>set ts. pt_min t \<le> pt_max t \<and> length (pt_min t) \<le> MAX_INDEX_KEY \<and> length (pt_max t) \<le> MAX_INDEX_KEY"
    using sorted_forest [OF sorted] tree_ok_entries [OF tree(1)] by simp_all
  have len: "length es = length ts" using es by (rule list_all2_lengthD)
  have nth: "entry_for (es ! i) (ts ! i)" if "i < length ts" for i using es that by (simp add: list_all2_conv_all_nth)
  have keys: "in_min (es' ! i) = pt_min (ts ! i)" "in_max (es' ! i) = pt_max (ts ! i)" "in_child (es' ! i) = LocalChild (pt_addr (ts ! i))"
    "in_count (es' ! i) < 256 ^ 8" "(0 < in_count (es' ! i)) = counts" if "i < length ts" for i
    using nth [OF that] that len by (auto simp: es' entry_for_def summary_of_def u64_limit_def)
  have len': "length es' = length ts" by (simp add: es' len)
  have "level - 1 \<le> MAX_INDEX_LEVEL" using lv by (auto simp: MAX_INDEX_LEVEL_def word_le_nat_alt unat_minus_one)
  then have "page_address_ok (pt_addr t)" if "t \<in> set ts" for t using tree_address_ok(1) [OF tree(1) [OF that] lim sha] tree(2) [OF that] by simp
  then have "internal_ok level (es' ! i)" if "i < length ts" for i
    using keys [OF that] S(2) that lv(1) tree(2) [OF nth_mem [OF that]] by (simp add: internal_ok_def ensure_child_descends_def)
  then have "list_all (internal_ok level) es'" by (simp add: list_all_length len')
  moreover have "sorted_wrt (\<lambda>a b. in_max a < in_min b) es'" using S(1) keys(1,2) len' by (simp add: sorted_wrt_iff_nth_less)
  moreover have "list_all (\<lambda>e. 0 < in_count e) es' \<or> list_all (\<lambda>e. in_count e = 0) es'" using keys(5) len' by (cases counts) (simp_all add: list_all_length)
  ultimately show ?thesis by blast
qed

lemma forest_ends:
  assumes "ts \<noteq> []" and "\<forall>t\<in>set ts. pt_entries t \<noteq> []"
  shows "le_key (hd (forest_entries ts)) = pt_min (hd ts)" and "le_key (last (forest_entries ts)) = pt_max (last ts)"
proof -
  obtain t us where ts: "ts = t # us" using assms(1) by (cases ts) auto
  then show "le_key (hd (forest_entries ts)) = pt_min (hd ts)" using assms(2) by (simp add: pt_min_def)
  obtain vs v where vs: "ts = vs @ [v]" using assms(1) by (cases ts rule: rev_cases) auto
  then show "le_key (last (forest_entries ts)) = pt_max (last ts)" using assms(2) by (simp add: pt_max_def)
qed

lemma node_tree:
  assumes f: "flush_internal sha compress params level counts es (pt_min (hd ts)) (pt_max (last ts)) children body = Inr (children', body')"
    and codec: "tp_codec params = NoCodec" and es: "list_all2 entry_for es ts" "ts \<noteq> []" and ts: "forest sha params body (level - 1) ts"
    and lv: "level \<noteq> 0" "level \<le> MAX_INDEX_LEVEL" and sorted: "sorted_entries (forest_entries ts)" and sha: "\<forall>b. length (sha b) = 32"
    and lim: "64 + length body < u64_limit" and ap: "apart body (as @ forest_addrs ts @ bs)"
  obtains t x c where "children' = children @ [c]" "summary_of c t" "body' = body @ x" "tree_ok sha params body' t" "pa_level (pt_addr t) = level"
    "pt_entries t = forest_entries ts" "apart body' (as @ pt_addrs t @ bs)"
proof -
  define es' where "es' = (if counts then es else map (\<lambda>e. e\<lparr>in_count := 0\<rparr>) es)"
  let ?page = "\<lparr>ip_kind = tp_leaf_kind params, ip_level = level, ip_body = InternalBody es'\<rparr>"
  obtain a v where v: "sum_counts 0 es = Inr v" and p: "place_page_with_codec sha compress body ?page (tp_page_kind params) NoCodec = Inr (a, body')"
    and c: "children' = children @ [(pt_min (hd ts), pt_max (last ts), LocalChild a, v)]"
    using f codec unfolding flush_internal_def es'_def by (auto simp: result_simps split: if_splits)
  have B: "body_ok level (InternalBody es') \<or> MAX_PAGE_ENTRIES < length es'"
    using internal_body_ok [OF es(1) ts lv sorted sha lim es'_def] lv(1) by auto
  obtain x where P: "placed sha params body' a ?page" "body' = body @ x" "64 + length body \<le> pa_offset a" "0 < pa_stored_len a" "pa_offset a + pa_stored_len a = 64 + length body'"
    using place_page_placed [OF p] B by auto
  have tree: "tree_ok sha params body t" "pa_level (pt_addr t) = level - 1" if "t \<in> set ts" for t using ts that by (simp_all add: forest_def)
  have ne: "\<forall>t\<in>set ts. pt_entries t \<noteq> []" using tree_ok_entries [OF tree(1)] by blast
  have "level - 1 \<le> MAX_INDEX_LEVEL" using lv by (auto simp: MAX_INDEX_LEVEL_def word_le_nat_alt unat_minus_one)
  then have before: "pa_offset (pt_addr t) < pa_offset a" if "t \<in> set ts" for t
    using tree_address_ok(2,3) [OF tree(1) [OF that] lim sha] tree(2) [OF that] P(3) by simp
  have "list_all2 (routes a) es' ts"
    using es(1) before by (auto simp: list_all2_conv_all_nth es'_def routes_def entry_for_def summary_of_def)
  then have T: "tree_ok sha params body' (PNode a es' ts)" using es(2) P(1,2) tree(1) by (auto simp: list_all_iff tree_ok_grow placed_def)
  have "es \<noteq> []" "list_all (\<lambda>e. 0 < in_count e) es" using es by (auto simp: list_all2_conv_all_nth list_all_length entry_for_def summary_of_def)
  then have "0 < v" "v < u64_limit" using sum_counts [OF v] by (auto simp: list_ex_iff list_all_iff neq_Nil_conv)
  then have S: "summary_of (pt_min (hd ts), pt_max (last ts), LocalChild a, v) (PNode a es' ts)"
    using forest_ends [OF es(2) ne] by (simp add: summary_of_def pt_min_def [of "PNode a es' ts"] pt_max_def [of "PNode a es' ts"])
  have A: "apart body' (as @ pt_addrs (PNode a es' ts) @ bs)" using apart_add [OF ap P(3,4), of "length x" x] P(2,5) by simp
  have L: "pa_level (pt_addr (PNode a es' ts)) = level" using P(1) by (simp add: placed_def)
  show thesis using c S P(2) T L A by (intro that [of _ "PNode a es' ts" x]) simp_all
qed

lemma flush_internal_grows: "flush_internal sha compress params level counts es k1 k2 children body = Inr (children', body') \<Longrightarrow> length body \<le> length body'"
  by (auto simp: flush_internal_def place_page_with_codec_def result_simps Let_def pad_body(2) split: if_splits)

lemma internal_phase_grows:
  "internal_phase sha compress params level counts rest current est first_key last_key nxt body = Inr (nxt', body') \<Longrightarrow> length body \<le> length body'"
proof (induction rest arbitrary: current est first_key last_key nxt body)
  case Nil
  then show ?case by (auto dest: flush_internal_grows split: if_splits)
next
  case (Cons s rest)
  obtain a b c d where s: "s = (a, b, c, d)" by (cases s)
  from Cons.prems show ?case unfolding s
    by (auto simp: Let_def result_simps dest!: Cons.IH flush_internal_grows split: if_splits)
qed

lemma internal_phase_forest:
  assumes "internal_phase sha compress params level counts rest current est first_key last_key nxt body = Inr (nxt', body')" and codec: "tp_codec params = NoCodec"
    and "list_all2 summary_of rest rts" "list_all2 entry_for current cts" "list_all2 summary_of nxt nts"
    and "forest sha params body (level - 1) (cts @ rts)" "forest sha params body level nts"
    and "first_key = (if cts = [] then None else Some (pt_min (hd cts)))" "cts \<noteq> [] \<longrightarrow> last_key = pt_max (last cts)"
    and "sorted_entries (forest_entries (nts @ cts @ rts))" and "apart body (forest_addrs nts @ forest_addrs cts @ forest_addrs rts)"
    and lv: "level \<noteq> 0" "level \<le> MAX_INDEX_LEVEL" and sha: "\<forall>b. length (sha b) = 32" and lim: "64 + length body' < u64_limit"
  shows "\<exists>us x. list_all2 summary_of nxt' us \<and> body' = body @ x \<and> forest sha params body' level us \<and> apart body' (forest_addrs us)
    \<and> forest_entries us = forest_entries (nts @ cts @ rts)"
  using assms(1,3-11)
proof (induction rest arbitrary: current est first_key last_key nxt body rts cts nts)
  case Nil
  then have rts: "rts = []" by simp
  show ?case
  proof (cases "cts = []")
    case True
    then show ?thesis using Nil by (intro exI [of _ nts] exI [of _ "[]"]) (simp add: rts)
  next
    case False
    then have "current \<noteq> []" using Nil.prems(3) by auto
    then have f: "flush_internal sha compress params level counts current (pt_min (hd cts)) (pt_max (last cts)) nxt body = Inr (nxt', body')"
      using Nil.prems(1,7,8) False by simp
    have "forest sha params body (level - 1) cts" "sorted_entries (forest_entries cts)" using Nil.prems(5,9) by (simp_all add: sorted_entries_append)
    moreover have "64 + length body < u64_limit" "apart body (forest_addrs nts @ forest_addrs cts @ [])" using flush_internal_grows [OF f] lim Nil.prems(10) rts by simp_all
    ultimately obtain t x c where t: "nxt' = nxt @ [c]" "summary_of c t" "body' = body @ x" "tree_ok sha params body' t" "pa_level (pt_addr t) = level"
      "pt_entries t = forest_entries cts" "apart body' (forest_addrs nts @ pt_addrs t @ [])" by (rule node_tree [OF f codec Nil.prems(3) False _ lv _ sha])
    have "list_all2 summary_of nxt' (nts @ [t])" "forest sha params body' level (nts @ [t])" using Nil.prems(4,6) t by (simp_all add: list_all2_appendI forest_grow)
    then show ?thesis using t rts by (intro exI [of _ "nts @ [t]"] exI [of _ x]) simp
  qed
next
  case (Cons s rest)
  obtain mn mx ch n where s: "s = (mn, mx, ch, n)" by (cases s)
  obtain r rts' where rts: "rts = r # rts'" "summary_of s r" "list_all2 summary_of rest rts'" using Cons.prems(2) by (auto simp: list_all2_Cons1)
  let ?e = "\<lparr>in_min = mn, in_max = mx, in_count = n, in_child = ch\<rparr>" and ?est = "2 * (10 + max (length mn) (length mx)) + 72"
  have e: "entry_for ?e r" "mn = pt_min r" "mx = pt_max r" using rts(2) by (auto simp: s entry_for_def summary_of_def)
  show ?case
  proof (cases "2 \<le> length current \<and> tp_leaf_target params < est + ?est")
    case True
    then have "current \<noteq> []" by auto
    then have ne: "cts \<noteq> []" using Cons.prems(3) by auto
    obtain n1 b1 where f: "flush_internal sha compress params level counts current (pt_min (hd cts)) (pt_max (last cts)) nxt body = Inr (n1, b1)"
      and rec: "internal_phase sha compress params level counts rest [?e] ?est (Some mn) mx n1 b1 = Inr (nxt', body')"
      using Cons.prems(1,7,8) True ne by (auto simp: s Let_def result_simps)
    have b1: "64 + length body < u64_limit" using flush_internal_grows [OF f] internal_phase_grows [OF rec] lim by simp
    have "sorted_entries (forest_entries cts)" "forest sha params body (level - 1) cts" using Cons.prems(5,9) by (simp_all add: sorted_entries_append)
    from node_tree [OF f codec Cons.prems(3) ne this(2) lv this(1) sha b1 Cons.prems(10)] obtain t x c where t: "n1 = nxt @ [c]" "summary_of c t" "b1 = body @ x" "tree_ok sha params b1 t" "pa_level (pt_addr t) = level"
      "pt_entries t = forest_entries cts" "apart b1 (forest_addrs nts @ pt_addrs t @ forest_addrs rts)" .
    have "list_all2 summary_of n1 (nts @ [t])" "forest sha params b1 level (nts @ [t])" "forest sha params b1 (level - 1) ([r] @ rts')"
      using Cons.prems(4-6) t rts(1) by (simp_all add: list_all2_appendI forest_grow)
    from Cons.IH [OF rec rts(3), of "[r]" "nts @ [t]"] this e t(6,7) Cons.prems(9) rts(1)
    obtain us y where u: "list_all2 summary_of nxt' us" "body' = b1 @ y" "forest sha params body' level us" "apart body' (forest_addrs us)"
      "forest_entries us = forest_entries ((nts @ [t]) @ [r] @ rts')" by auto
    then show ?thesis using t(3,6) rts(1) by (intro exI [of _ us] exI [of _ "x @ y"]) simp
  next
    case False
    let ?fk = "case first_key of None \<Rightarrow> Some mn | Some k \<Rightarrow> Some k"
    have rec: "internal_phase sha compress params level counts rest (current @ [?e]) (est + ?est) ?fk mx nxt body = Inr (nxt', body')"
      using Cons.prems(1) False by (simp only: s internal_phase.simps Let_def if_False)
    have "?fk = (if cts @ [r] = [] then None else Some (pt_min (hd (cts @ [r]))))" using Cons.prems(7) e(2) by simp
    from Cons.IH [OF rec rts(3) _ Cons.prems(4) _ Cons.prems(6) this] e Cons.prems(3,5,9,10) rts(1)
    show ?thesis by (simp add: list_all2_appendI)
  qed
qed

section \<open>The whole tree\<close>

lemma level_phase_grows: "level_phase sha compress params counts level children body = Inr (children', body') \<Longrightarrow> length body \<le> length body'"
proof (induction sha compress params counts level children body rule: level_phase.induct)
  case (1 sha compress params counts level children body)
  show ?case
  proof (cases "1 < length children")
    case True
    then obtain n1 b1 where lv: "\<not> MAX_INDEX_LEVEL < level" and f: "internal_phase sha compress params level counts children [] 0 None [] [] body = Inr (n1, b1)"
      and rec: "level_phase sha compress params counts (level + 1) n1 b1 = Inr (children', body')"
      using "1.prems"(1) by (subst (asm) level_phase.simps) (auto simp: result_simps split: if_splits)
    show ?thesis using "1.IH" [OF True lv f refl rec] internal_phase_grows [OF f] by simp
  qed (use "1.prems" in \<open>simp add: level_phase.simps\<close>)
qed

lemma level_phase_tree:
  assumes "level_phase sha compress params counts level children body = Inr (children', body')" and "tp_codec params = NoCodec"
    and "list_all2 summary_of children ts" "ts \<noteq> []" "forest sha params body (level - 1) ts" "apart body (forest_addrs ts)" "sorted_entries (forest_entries ts)"
    and "level \<noteq> 0" "level - 1 \<le> MAX_INDEX_LEVEL" and "\<forall>b. length (sha b) = 32" and "64 + length body' < u64_limit"
  shows "\<exists>t c x. children' = [c] \<and> summary_of c t \<and> body' = body @ x \<and> tree_ok sha params body' t \<and> pa_level (pt_addr t) \<le> MAX_INDEX_LEVEL
    \<and> apart body' (pt_addrs t) \<and> pt_entries t = forest_entries ts"
  using assms
proof (induction sha compress params counts level children body arbitrary: ts rule: level_phase.induct)
  case (1 sha compress params counts level children body)
  have len: "length children = length ts" using "1.prems"(3) by (rule list_all2_lengthD)
  show ?case
  proof (cases "1 < length children")
    case False
    then obtain t where ts: "ts = [t]" using "1.prems"(4) len by (cases ts) auto
    then obtain c where c: "children = [c]" "summary_of c t" using "1.prems"(3) by (auto simp: list_all2_Cons2)
    have "children' = children" "body' = body" using "1.prems"(1) False by (simp_all add: level_phase.simps)
    then show ?thesis using c ts "1.prems"(5,6,9) by (intro exI [of _ t]) (simp add: exI [of _ "[]"])
  next
    case True
    then obtain n1 b1 where lv: "\<not> MAX_INDEX_LEVEL < level" and f: "internal_phase sha compress params level counts children [] 0 None [] [] body = Inr (n1, b1)"
      and rec: "level_phase sha compress params counts (level + 1) n1 b1 = Inr (children', body')"
      using "1.prems"(1) by (subst (asm) level_phase.simps) (auto simp: result_simps split: if_splits)
    have lim: "64 + length b1 < u64_limit" using level_phase_grows [OF rec] "1.prems"(11) by simp
    have "\<exists>us x. list_all2 summary_of n1 us \<and> b1 = body @ x \<and> forest sha params b1 level us \<and> apart b1 (forest_addrs us) \<and> forest_entries us = forest_entries ([] @ [] @ ts)"
      using "1.prems" lv lim by (intro internal_phase_forest [OF f]) (simp_all add: forest_def)
    then obtain us x where u: "list_all2 summary_of n1 us" "b1 = body @ x" "forest sha params b1 level us" "apart b1 (forest_addrs us)" "forest_entries us = forest_entries ts" by auto
    obtain t0 tr where t0: "ts = t0 # tr" using "1.prems"(4) by (cases ts) auto
    then have "forest_entries ts \<noteq> []" using tree_ok_entries [of sha params body t0] "1.prems"(5) by (simp add: forest_def)
    then have ne: "us \<noteq> []" using u(5) by auto
    have "unat level \<le> 12" using lv by (simp add: MAX_INDEX_LEVEL_def word_less_nat_alt not_less)
    then have "unat (level + 1) \<noteq> 0" by (simp add: unat_word_ariths)
    then have step: "level + 1 \<noteq> 0" "level + 1 - 1 = level" by auto
    have "\<exists>t c x. children' = [c] \<and> summary_of c t \<and> body' = b1 @ x \<and> tree_ok sha params body' t \<and> pa_level (pt_addr t) \<le> MAX_INDEX_LEVEL
        \<and> apart body' (pt_addrs t) \<and> pt_entries t = forest_entries us"
      using "1.IH" [OF True lv f refl rec "1.prems"(2) u(1) ne] u step "1.prems"(7,10,11) lv by (simp add: not_less)
    then show ?thesis using u(2,5) by auto
  qed
qed

text \<open>The root, the body and the tree the builder leaves for a sorted list of entries.\<close>

lemma build_index_tree_tree:
  assumes b: "build_index_tree_impl sha compress entries params [] counts = Some (Inr (root, body))" and codec: "tp_codec params = NoCodec"
    and sorted: "sorted_entries (map (\<lambda>(k, v). \<lparr>le_key = k, le_value = v\<rparr>) entries)"
    and sha: "\<forall>b. length (sha b) = 32" and lim: "64 + length body < u64_limit"
  obtains t where "root = LocalChild (pt_addr t)" "tree_ok sha params body t" "pa_level (pt_addr t) \<le> MAX_INDEX_LEVEL" "apart body (pt_addrs t)"
    "pt_entries t = map (\<lambda>(k, v). \<lparr>le_key = k, le_value = v\<rparr>) entries"
proof -
  obtain c1 b1 children where f: "leaf_phase sha compress params entries [] 0 [] [] = Inr (c1, b1)"
    and l: "level_phase sha compress params counts 1 c1 b1 = Inr (children, body)" and ne: "children \<noteq> []" and root: "root = fst (snd (snd (last children)))"
    using b by (auto simp: build_index_tree_impl_def result_simps split: sum.splits if_splits)
  have "\<exists>us x. list_all2 summary_of c1 us \<and> b1 = [] @ x \<and> forest sha params b1 0 us \<and> apart b1 (forest_addrs us)
      \<and> forest_entries us = forest_entries [] @ [] @ map (\<lambda>(k, v). \<lparr>le_key = k, le_value = v\<rparr>) entries"
    using sorted by (intro leaf_phase_forest [OF f codec]) (simp_all add: forest_def apart_def)
  then obtain us where u: "list_all2 summary_of c1 us" "forest sha params b1 0 us" "apart b1 (forest_addrs us)"
    "forest_entries us = map (\<lambda>(k, v). \<lparr>le_key = k, le_value = v\<rparr>) entries" by auto
  have "us \<noteq> []" using u(1) l ne by (auto simp: level_phase.simps)
  then obtain t c where "children = [c]" "summary_of c t" "tree_ok sha params body t" "pa_level (pt_addr t) \<le> MAX_INDEX_LEVEL" "apart body (pt_addrs t)" "pt_entries t = forest_entries us"
    using level_phase_tree [OF l codec u(1) _ _ u(3)] u sorted sha lim by auto
  then show thesis using root u(4) by (intro that) (auto simp: summary_of_def)
qed

end
