(* ===== verification/ObjectIndex.thy ===== *)
theory ObjectIndex
  imports IndexTrees OrderedMaps
begin

text \<open>
  Object inventories (\<^verbatim>\<open>src/src/native_base/lifecycle/index.rs\<close>): a container whose index tree maps
  object ids to object references, its builder, and the reader that verifies every page. Panics are
  the value \<^term>\<open>None\<close>; texts of error messages are left out.
\<close>

section \<open>Building\<close>

datatype lifecycle_error =
    Conflict | OperationIdMismatch | InvalidState | Retention | Durability | Cleanup | LifecycleLimitExceeded | Record
  | Store | WireErr wire_error

definition is_retryable :: "lifecycle_error \<Rightarrow> bool" where
  "is_retryable e \<longleftrightarrow> e = Conflict"

definition from_wire :: "wire_error + 'a \<Rightarrow> lifecycle_error + 'a" where
  "from_wire r = (case r of Inl e \<Rightarrow> Inl (WireErr e) | Inr x \<Rightarrow> Inr x)"

lemma from_wire_simps [simp]: "from_wire (Inl e) = Inl (WireErr e)" "from_wire (Inr x) = Inr x"
  by (simp_all add: from_wire_def)

lemma from_wire_Inr [result_simps]: "from_wire r = Inr x \<longleftrightarrow> r = Inr x"
  by (cases r) simp_all

record built_object_index =
  bi_bytes :: bytes
  bi_root :: root_ref
  bi_entries :: "object_ref list"

fun canonical_loop :: "bytes \<Rightarrow> object_ref list \<Rightarrow> (bytes \<times> object_ref) list \<Rightarrow> lifecycle_error + (bytes \<times> object_ref) list" where
  "canonical_loop self_id [] by_id = Inr by_id"
| "canonical_loop self_id (x # xs) by_id =
     (if \<not> (1 \<le> or_kind x \<and> or_kind x \<le> 6) then Inl Retention
      else rbind (from_wire (validate_object_key (or_key x))) (\<lambda>_.
        if or_id x = self_id then Inl Retention
        else case bt_get by_id (or_id x) of
          Some previous \<Rightarrow> if previous \<noteq> x then Inl Retention else canonical_loop self_id xs (bt_insert (or_id x) x by_id)
        | None \<Rightarrow> canonical_loop self_id xs (bt_insert (or_id x) x by_id)))"

definition canonical_entries :: "object_ref list \<Rightarrow> bytes \<Rightarrow> lifecycle_error + object_ref list" where
  "canonical_entries objects self_id =
     rbind (canonical_loop self_id objects []) (\<lambda>by_id. if by_id = [] then Inl Retention else Inr (map snd by_id))"

definition build_object_index ::
  "(bytes \<Rightarrow> u32) \<Rightarrow> (bytes \<Rightarrow> bytes) \<Rightarrow> (bytes \<Rightarrow> int \<Rightarrow> bytes option) \<Rightarrow> object_ref list \<Rightarrow> bytes \<Rightarrow> bytes \<Rightarrow> nat
   \<Rightarrow> (lifecycle_error + built_object_index) option" where
  "build_object_index crc sha compress objects object_id key leaf_target =
     (case canonical_entries objects object_id of
        Inl e \<Rightarrow> Some (Inl e)
      | Inr entries \<Rightarrow>
          let encoded = map (\<lambda>x. (or_id x, object_ref_encode x)) entries;
              params = \<lparr>tp_leaf_target = max leaf_target 64, tp_leaf_kind = BnpgKeyValue, tp_page_kind = InventoryIndex, tp_codec = NoCodec\<rparr>
          in case build_index_tree sha compress encoded params [] of
               None \<Rightarrow> None
             | Some (Inl e) \<Rightarrow> Some (Inl (WireErr e))
             | Some (Inr (ExternalChild _, _)) \<Rightarrow> None
             | Some (Inr (LocalChild address, body)) \<Rightarrow>
                 let body = body @ replicate ((8 - length body mod 8) mod 8) 0;
                     object_len = HEADER_LEN + length body + FOOTER_LEN;
                     header = \<lparr>ch_kind = PagedInventory, ch_features = 0, ch_object_len = object_len, ch_root_offset = pa_offset address,
                       ch_root_stored_len = pa_stored_len address, ch_root_raw_len = pa_raw_len address, ch_hash_id = 1, ch_root_codec = pa_codec address\<rparr>;
                     footer = \<lparr>cf_object_len = object_len, cf_digest = pa_digest address\<rparr>;
                     b = header_encode crc header @ body @ footer_encode crc footer;
                     object = \<lparr>or_id = object_id, or_kind = object_kind_as_u8 PagedInventory, or_len = object_len, or_hash = sha b, or_key = key\<rparr>
                 in Some (rbind (from_wire (validate_object_key key)) (\<lambda>_.
                      Inr \<lparr>bi_bytes = b, bi_root = \<lparr>rr_object = object, rr_address = address\<rparr>, bi_entries = entries\<rparr>)))"

section \<open>Reading\<close>

definition page_bytes :: "(bytes \<Rightarrow> bytes) \<Rightarrow> bytes \<Rightarrow> page_address \<Rightarrow> lifecycle_error + bytes" where
  "page_bytes sha b address =
     (if pa_kind address \<noteq> InventoryIndex \<or> pa_codec address \<noteq> NoCodec then Inl Record
      else if pa_offset address < HEADER_LEN \<or> \<not> 8 dvd pa_offset address then Inl Record
      else if pa_raw_len address \<noteq> pa_stored_len address then Inl Record
      else rbind (ok_or Record (checked_add_u64 (pa_offset address) (pa_stored_len address))) (\<lambda>fin.
        if length b - FOOTER_LEN < fin then Inl Record
        else let raw = bytes_at b (pa_offset address) (pa_stored_len address)
             in if sha raw \<noteq> pa_digest address then Inl Record else Inr raw))"

type_synonym walk_result = "bytes \<times> bytes \<times> (bytes \<times> bytes) list"

function walk :: "(bytes \<Rightarrow> bytes) \<Rightarrow> bytes \<Rightarrow> page_address \<Rightarrow> (nat \<times> nat) list \<Rightarrow> lifecycle_error + (walk_result \<times> (nat \<times> nat) list)"
  and walk_children :: "(bytes \<Rightarrow> bytes) \<Rightarrow> bytes \<Rightarrow> page_address \<Rightarrow> internal_entry list \<Rightarrow> (nat \<times> nat) list
    \<Rightarrow> lifecycle_error + ((bytes \<times> bytes) list \<times> (nat \<times> nat) list)" where
  "walk sha b address seen =
     rbind (ok_or Record (checked_add_u64 (pa_offset address) (pa_stored_len address))) (\<lambda>fin.
     if list_ex (\<lambda>(other_start, other_end). pa_offset address < other_end \<and> other_start < fin) seen \<or> (pa_offset address, fin) \<in> set seen
     then Inl Record
     else rbind (page_bytes sha b address) (\<lambda>raw. rbind (from_wire (page_decode raw)) (\<lambda>page.
       if ip_kind page \<noteq> BnpgKeyValue \<or> ip_level page \<noteq> pa_level address \<or> entry_count page \<noteq> pa_entry_count address then Inl Record
       else case ip_body page of
         LeafBody es \<Rightarrow>
           if es = [] then Inl Record
           else Inr ((le_key (hd es), le_key (last es), map (\<lambda>e. (le_key e, le_value e)) es), (pa_offset address, fin) # seen)
       | InternalBody es \<Rightarrow>
           if es = [] then Inl Record
           else rbind (walk_children sha b address es ((pa_offset address, fin) # seen)) (\<lambda>(entries, seen).
             Inr ((in_min (hd es), in_max (last es), entries), seen)))))"
| "walk_children sha b address [] seen = Inr ([], seen)"
| "walk_children sha b address (e # es) seen =
     (case in_child e of
        ExternalChild _ \<Rightarrow> Inl Record
      | LocalChild child \<Rightarrow>
          rbind (from_wire (ensure_child_descends (pa_level address) (pa_level child))) (\<lambda>_.
          if pa_offset address \<le> pa_offset child then Inl Record
          else rbind (walk sha b child seen) (\<lambda>((actual_min, actual_max, child_entries), seen).
            if actual_min \<noteq> in_min e \<or> actual_max \<noteq> in_max e then Inl Record
            else rbind (walk_children sha b address es seen) (\<lambda>(entries, seen). Inr (child_entries @ entries, seen)))))"
  by pat_completeness auto

termination
proof (relation "inv_image (less_than <*lex*> less_than <*lex*> less_than)
    (\<lambda>x. case x of Inl (sha, b, a, seen) \<Rightarrow> (unat (pa_level a), 1, 0) | Inr (sha, b, a, es, seen) \<Rightarrow> (unat (pa_level a), 0, length es))", goal_cases)
  case (3 sha b address e es seen child x)
  then have "pa_level address \<noteq> 0" "pa_level child = pa_level address - 1"
    by (auto simp: from_wire_Inr ensure_child_descends_def split: if_splits)
  then have "unat (pa_level child) < unat (pa_level address)" by (simp add: unat_minus_one unat_gt_0)
  then show ?case by simp
qed auto

declare walk.simps [simp del]

fun open_entries :: "bytes \<Rightarrow> (bytes \<times> bytes) list \<Rightarrow> bytes option \<Rightarrow> lifecycle_error + object_ref list" where
  "open_entries self_id [] previous = Inr []"
| "open_entries self_id ((key, val) # rest) previous =
     (if length key \<noteq> 16 \<or> (case previous of Some p \<Rightarrow> key \<le> p | None \<Rightarrow> False) then Inl Record
      else rbind (from_wire (object_ref_decode (reader_new val))) (\<lambda>(object, r).
        if \<not> rd_is_empty r \<or> or_id object \<noteq> key then Inl Record
        else if or_id object = self_id then Inl Retention
        else rbind (open_entries self_id rest (Some key)) (\<lambda>objects. Inr (object # objects))))"

definition open_object_index :: "(bytes \<Rightarrow> u32) \<Rightarrow> (bytes \<Rightarrow> bytes) \<Rightarrow> root_ref \<Rightarrow> bytes \<Rightarrow> lifecycle_error + object_ref list" where
  "open_object_index crc sha root b =
     (if or_kind (rr_object root) \<noteq> object_kind_as_u8 PagedInventory \<or> or_len (rr_object root) \<noteq> length b then Inl Record
      else if sha b \<noteq> or_hash (rr_object root) then Inl Record
      else rbind (from_wire (header_parse crc b)) (\<lambda>header. rbind (from_wire (ensure_supported_features header)) (\<lambda>_.
        rbind (from_wire (parse_footer crc b)) (\<lambda>footer.
        if ch_kind header \<noteq> PagedInventory \<or> ch_features header \<noteq> 0 \<or> ch_object_len header \<noteq> length b
          \<or> ch_root_offset header \<noteq> pa_offset (rr_address root) \<or> ch_root_stored_len header \<noteq> pa_stored_len (rr_address root)
          \<or> ch_root_raw_len header \<noteq> pa_raw_len (rr_address root) \<or> ch_root_codec header \<noteq> pa_codec (rr_address root)
          \<or> cf_digest footer \<noteq> pa_digest (rr_address root)
        then Inl Record
        else rbind (walk sha b (rr_address root) []) (\<lambda>((_, _, raw_entries), _).
          open_entries (or_id (rr_object root)) raw_entries None)))))"

section \<open>Reading back what was built\<close>

definition page_range :: "page_address \<Rightarrow> nat \<times> nat" where
  "page_range a = (pa_offset a, pa_offset a + pa_stored_len a)"

definition clear_of :: "(nat \<times> nat) list \<Rightarrow> page_address list \<Rightarrow> bool" where
  "clear_of seen as \<longleftrightarrow> (\<forall>(s, e)\<in>set seen. \<forall>a\<in>set as. s < e \<and> (e \<le> pa_offset a \<or> pa_offset a + pa_stored_len a \<le> s))"

lemma clear_of_simps [simp]:
  "clear_of [] as" "clear_of seen (as @ bs) \<longleftrightarrow> clear_of seen as \<and> clear_of seen bs" "clear_of seen []"
  "clear_of (xs @ ys) as \<longleftrightarrow> clear_of xs as \<and> clear_of ys as"
  by (auto simp: clear_of_def)

lemma apart_disjoint:
  "apart body as \<Longrightarrow> a \<in> set as \<Longrightarrow> b \<in> set as \<Longrightarrow> a \<noteq> b \<Longrightarrow> pa_offset a + pa_stored_len a \<le> pa_offset b \<or> pa_offset b + pa_stored_len b \<le> pa_offset a"
  unfolding apart_def by blast

lemma apart_nonempty: "apart body as \<Longrightarrow> a \<in> set as \<Longrightarrow> 0 < pa_stored_len a"
  unfolding apart_def by blast

lemma clear_of_ranges:
  assumes "apart body (as @ bs)"
  shows "clear_of (map page_range as) bs"
proof -
  have disj: "set as \<inter> set bs = {}" using assms unfolding apart_def distinct_append by (elim conjE)
  have "s < e \<and> (e \<le> pa_offset b \<or> pa_offset b + pa_stored_len b \<le> s)" if "(s, e) \<in> page_range ` set as" "b \<in> set bs" for s e b
  proof -
    from that(1) obtain a where "(s, e) = page_range a" "a \<in> set as" by (rule imageE)
    then have a: "a \<in> set as" "s = pa_offset a" "e = pa_offset a + pa_stored_len a" by (simp_all add: page_range_def)
    then have "a \<noteq> b" using that(2) disj by blast
    have "a \<in> set (as @ bs)" "b \<in> set (as @ bs)" using a(1) that(2) by simp_all
    then have "pa_offset a + pa_stored_len a \<le> pa_offset b \<or> pa_offset b + pa_stored_len b \<le> pa_offset a" "0 < pa_stored_len a"
      using apart_disjoint [OF assms _ _ \<open>a \<noteq> b\<close>] apart_nonempty [OF assms] by blast+
    then show ?thesis unfolding a(2,3) by simp
  qed
  then show ?thesis unfolding clear_of_def set_map by blast
qed

lemma apart_sub: "apart body (as @ bs) \<Longrightarrow> apart body as \<and> apart body bs"
  by (auto simp: apart_def)

text \<open>A container around the body of a tree, as the walk sees it.\<close>

definition holds_body :: "(bytes \<Rightarrow> bytes) \<Rightarrow> index_tree_params \<Rightarrow> bytes \<Rightarrow> bytes \<Rightarrow> bool" where
  "holds_body sha params body b \<longleftrightarrow> tp_leaf_kind params = BnpgKeyValue \<and> tp_page_kind params = InventoryIndex \<and> length b < u64_limit
     \<and> (\<exists>hd ft. b = hd @ body @ ft \<and> length hd = 64 \<and> length ft = 64)"

lemma page_bytes_placed:
  assumes h: "holds_body sha params body b" and p: "placed sha params body a page"
  shows "page_bytes sha b a = Inr (page_encode page)" and "checked_add_u64 (pa_offset a) (pa_stored_len a) = Some (pa_offset a + pa_stored_len a)"
    and "page_decode (page_encode page) = Inr page"
proof -
  obtain hd ft where b: "b = hd @ body @ ft" "length hd = 64" "length ft = 64" using h by (auto simp: holds_body_def)
  have fin: "pa_offset a + pa_stored_len a \<le> 64 + length body" "64 \<le> pa_offset a" "64 + length body < u64_limit" using h p b by (auto simp: holds_body_def placed_def)
  show add: "checked_add_u64 (pa_offset a) (pa_stored_len a) = Some (pa_offset a + pa_stored_len a)" using fin by simp
  have "bytes_at b (pa_offset a) (pa_stored_len a) = bytes_at (body @ ft) (pa_offset a - 64) (pa_stored_len a)" using fin(2) b by simp
  also have "\<dots> = bytes_at body (pa_offset a - 64) (pa_stored_len a)" using fin by (simp add: bytes_at_inside)
  also have "\<dots> = page_encode page" using p unfolding placed_def by (elim conjE)
  finally have raw: "bytes_at b (pa_offset a) (pa_stored_len a) = page_encode page" .
  show "page_bytes sha b a = Inr (page_encode page)"
    using h p fin raw b(3) by (simp add: page_bytes_def holds_body_def placed_def Let_def container_consts checked_add_u64_def b(1,2))
  show "page_decode (page_encode page) = Inr page" using p by (intro page_decode_encode) (simp_all add: placed_def)
qed

lemma not_overlapping:
  assumes "clear_of seen [a]" and "0 < pa_stored_len a"
  shows "\<not> list_ex (\<lambda>(s, e). pa_offset a < e \<and> s < pa_offset a + pa_stored_len a) seen" and "(pa_offset a, pa_offset a + pa_stored_len a) \<notin> set seen"
proof -
  have clear: "s < e \<and> (e \<le> pa_offset a \<or> pa_offset a + pa_stored_len a \<le> s)" if "(s, e) \<in> set seen" for s e
    using assms(1) that unfolding clear_of_def by auto
  show "\<not> list_ex (\<lambda>(s, e). pa_offset a < e \<and> s < pa_offset a + pa_stored_len a) seen"
  proof
    assume "list_ex (\<lambda>(s, e). pa_offset a < e \<and> s < pa_offset a + pa_stored_len a) seen"
    then obtain s e where "(s, e) \<in> set seen" "pa_offset a < e" "s < pa_offset a + pa_stored_len a" by (auto simp: list_ex_iff)
    then show False using clear by fastforce
  qed
  show "(pa_offset a, pa_offset a + pa_stored_len a) \<notin> set seen" using clear assms(2) by fastforce
qed

definition kv_of :: "leaf_entry \<Rightarrow> bytes \<times> bytes" where
  "kv_of e = (le_key e, le_value e)"

lemma walk_page:
  assumes h: "holds_body sha params body b" and p: "placed sha params body a page" and c: "clear_of seen [a]"
  shows "walk sha b a seen = (case ip_body page of
      LeafBody es \<Rightarrow> if es = [] then Inl Record else Inr ((le_key (hd es), le_key (last es), map kv_of es), page_range a # seen)
    | InternalBody es \<Rightarrow> if es = [] then Inl Record else rbind (walk_children sha b a es (page_range a # seen)) (\<lambda>(entries, seen).
        Inr ((in_min (hd es), in_max (last es), entries), seen)))"
proof -
  have "0 < pa_stored_len a" using p by (auto simp: placed_def page_encode_def PAGE_MAGIC_def)
  note o = not_overlapping [OF c this]
  have k: "ip_kind page = BnpgKeyValue" "ip_level page = pa_level a" "entry_count page = pa_entry_count a" using p h by (auto simp: placed_def holds_body_def)
  show ?thesis unfolding walk.simps [of sha b a seen] page_bytes_placed [OF h p] ok_or_simps rbind_simps from_wire_simps
    using o k by (cases "ip_body page") (simp_all add: page_range_def kv_of_def [abs_def])
qed

lemma clear_of_union: "set s = set xs \<union> set ys \<Longrightarrow> clear_of s as \<longleftrightarrow> clear_of xs as \<and> clear_of ys as"
  unfolding clear_of_def by (simp only: ball_Un)

lemma clear_of_head: "clear_of seen (a # as) \<longleftrightarrow> clear_of seen [a] \<and> clear_of seen as"
  using clear_of_simps(2) [of seen "[a]" as] by simp

text \<open>What walking a tree from \<open>seen\<close> returns.\<close>

definition walked :: "(bytes \<Rightarrow> bytes) \<Rightarrow> bytes \<Rightarrow> (nat \<times> nat) list \<Rightarrow> ptree \<Rightarrow> bool" where
  "walked sha b seen t \<longleftrightarrow> (\<exists>seen'. walk sha b (pt_addr t) seen = Inr ((pt_min t, pt_max t, map kv_of (pt_entries t)), seen')
     \<and> set seen' = set seen \<union> set (map page_range (pt_addrs t)))"

lemma walk_children_forest:
  assumes "list_all2 (\<lambda>e t. routes a e t \<and> ensure_child_descends (pa_level a) (pa_level (pt_addr t)) = Inr ()
      \<and> (\<forall>s. apart body (pt_addrs t) \<longrightarrow> clear_of s (pt_addrs t) \<longrightarrow> walked sha b s t)) es ts"
    and "apart body (forest_addrs ts)" and "clear_of seen (forest_addrs ts)"
  shows "\<exists>seen'. walk_children sha b a es seen = Inr (map kv_of (forest_entries ts), seen') \<and> set seen' = set seen \<union> set (map page_range (forest_addrs ts))"
  using assms
proof (induction es ts arbitrary: seen rule: list_all2_induct)
  case Nil
  then show ?case by simp
next
  case (Cons e es t ts)
  have ap: "apart body (pt_addrs t @ forest_addrs ts)" and cl: "clear_of seen (pt_addrs t)" "clear_of seen (forest_addrs ts)" using Cons.prems by simp_all
  have "walked sha b seen t" using Cons.hyps(1) apart_sub [OF ap] cl(1) by blast
  then obtain s1 where s1: "walk sha b (pt_addr t) seen = Inr ((pt_min t, pt_max t, map kv_of (pt_entries t)), s1)"
    "set s1 = set seen \<union> set (map page_range (pt_addrs t))" unfolding walked_def by blast
  have "clear_of s1 (forest_addrs ts)" using clear_of_union [OF s1(2)] cl(2) clear_of_ranges [OF ap] by blast
  then obtain s2 where s2: "walk_children sha b a es s1 = Inr (map kv_of (forest_entries ts), s2)" "set s2 = set s1 \<union> set (map page_range (forest_addrs ts))"
    using Cons.IH apart_sub [OF ap] by blast
  have "set s2 = set seen \<union> set (map page_range (forest_addrs (t # ts)))" using s1(2) s2(2) by (simp add: image_Un Un_assoc)
  moreover have "walk_children sha b a (e # es) seen = Inr (map kv_of (forest_entries (t # ts)), s2)"
    using Cons.hyps(1) s1(1) s2(1) by (simp add: routes_def not_le)
  ultimately show ?case by blast
qed

lemma routed_children:
  assumes "tree_ok sha params body (PNode a es ts)"
  shows "list_all2 (\<lambda>e t. routes a e t \<and> ensure_child_descends (pa_level a) (pa_level (pt_addr t)) = Inr ()) es ts"
    and "es \<noteq> []" and "in_min (hd es) = pt_min (PNode a es ts)" and "in_max (last es) = pt_max (PNode a es ts)"
proof -
  have ok: "ts \<noteq> []" "list_all2 (routes a) es ts" "list_all (internal_ok (pa_level a)) es" "list_all (tree_ok sha params body) ts"
    using assms by (simp_all add: placed_def page_ok_def)
  show "list_all2 (\<lambda>e t. routes a e t \<and> ensure_child_descends (pa_level a) (pa_level (pt_addr t)) = Inr ()) es ts"
    using ok(2,3) by (auto simp: list_all2_conv_all_nth list_all_length routes_def internal_ok_def)
  show ne: "es \<noteq> []" using ok(1,2) by auto
  have ends: "in_min (hd es) = pt_min (hd ts)" "in_max (last es) = pt_max (last ts)"
    using ok(1,2) ne by (auto simp: list_all2_conv_all_nth hd_conv_nth last_conv_nth routes_def)
  have "\<forall>t\<in>set ts. pt_entries t \<noteq> []" using ok(4) tree_ok_entries by (auto simp: list_all_iff)
  from forest_ends [OF ok(1) this] show "in_min (hd es) = pt_min (PNode a es ts)" "in_max (last es) = pt_max (PNode a es ts)"
    using ends by (simp_all add: pt_min_def [of "PNode a es ts"] pt_max_def [of "PNode a es ts"])
qed

lemma walk_tree:
  assumes h: "holds_body sha params body b"
  shows "tree_ok sha params body t \<Longrightarrow> apart body (pt_addrs t) \<Longrightarrow> clear_of seen (pt_addrs t) \<Longrightarrow> walked sha b seen t"
proof (induction t arbitrary: seen)
  case (PLeaf a es)
  have "es \<noteq> []" and p: "placed sha params body a \<lparr>ip_kind = tp_leaf_kind params, ip_level = 0, ip_body = LeafBody es\<rparr>" using PLeaf.prems(1) by simp_all
  then show ?case using walk_page [OF h p] PLeaf.prems(3) by (simp add: walked_def pt_min_def pt_max_def)
next
  case (PNode a es ts)
  have p: "placed sha params body a \<lparr>ip_kind = tp_leaf_kind params, ip_level = pa_level a, ip_body = InternalBody es\<rparr>"
    and trees: "list_all (tree_ok sha params body) ts" using PNode.prems(1) by simp_all
  note R = routed_children [OF PNode.prems(1)]
  have ap: "apart body ([a] @ forest_addrs ts)" and cl: "clear_of seen [a]" "clear_of seen (forest_addrs ts)"
    using PNode.prems(2,3) clear_of_head [of seen a "forest_addrs ts"] by simp_all
  have "clear_of (page_range a # seen) (forest_addrs ts)"
    using clear_of_union [of "page_range a # seen" "map page_range [a]" seen] clear_of_ranges [OF ap] cl(2) by simp
  moreover have "list_all2 (\<lambda>e t. routes a e t \<and> ensure_child_descends (pa_level a) (pa_level (pt_addr t)) = Inr ()
      \<and> (\<forall>s. apart body (pt_addrs t) \<longrightarrow> clear_of s (pt_addrs t) \<longrightarrow> walked sha b s t)) es ts"
    using R(1) PNode.IH trees by (simp add: list_all2_conv_all_nth list_all_length)
  ultimately obtain s2 where s2: "walk_children sha b a es (page_range a # seen) = Inr (map kv_of (forest_entries ts), s2)"
    "set s2 = set (page_range a # seen) \<union> set (map page_range (forest_addrs ts))"
    using walk_children_forest [of a body sha b es ts "page_range a # seen"] apart_sub [OF ap] by blast
  have "walk sha b a seen = Inr ((pt_min (PNode a es ts), pt_max (PNode a es ts), map kv_of (forest_entries ts)), s2)"
    using walk_page [OF h p cl(1)] s2(1) R(2-4) by simp
  then show ?case using s2(2) by (simp add: walked_def Un_commute)
qed

section \<open>The inventory round trip\<close>

text \<open>What the array types of an object reference guarantee.\<close>

definition object_typed :: "object_ref \<Rightarrow> bool" where
  "object_typed x \<longleftrightarrow> length (or_id x) = 16 \<and> length (or_hash x) = 32 \<and> or_len x < 256 ^ 8"

lemma canonical_loop:
  assumes "canonical_loop self_id xs m = Inr by_id" and "bt_ok m" and "\<forall>(k, x)\<in>set m. or_id x = k \<and> k \<noteq> self_id \<and> validate_object_key (or_key x) = Inr ()"
  shows "bt_ok by_id \<and> (\<forall>(k, x)\<in>set by_id. or_id x = k \<and> k \<noteq> self_id \<and> validate_object_key (or_key x) = Inr ()) \<and> snd ` set by_id = snd ` set m \<union> set xs"
  using assms
proof (induction xs arbitrary: m)
  case Nil
  then show ?case by simp
next
  case (Cons x xs)
  let ?m = "bt_insert (or_id x) x m"
  have v: "validate_object_key (or_key x) = Inr ()" and s: "or_id x \<noteq> self_id" and same: "\<And>y. bt_get m (or_id x) = Some y \<Longrightarrow> y = x"
    and rec: "canonical_loop self_id xs ?m = Inr by_id"
    using Cons.prems(1) by (auto simp: result_simps split: if_splits option.splits)
  have get: "bt_get ?m k = Some y \<longleftrightarrow> (if k = or_id x then y = x else bt_get m k = Some y)" for k y by auto
  have ok: "bt_ok ?m" using Cons.prems(2) by simp
  have mem: "(k, y) \<in> set ?m \<longleftrightarrow> (if k = or_id x then y = x else (k, y) \<in> set m)" for k y
    using get bt_get_iff [OF ok] bt_get_iff [OF Cons.prems(2)] by simp
  have "\<forall>(k, y)\<in>set ?m. or_id y = k \<and> k \<noteq> self_id \<and> validate_object_key (or_key y) = Inr ()"
  proof (intro ballI)
    fix p assume "p \<in> set ?m"
    then show "case p of (k, y) \<Rightarrow> or_id y = k \<and> k \<noteq> self_id \<and> validate_object_key (or_key y) = Inr ()"
      using mem [of "fst p" "snd p"] Cons.prems(3) v s by (cases p) (auto split: if_splits)
  qed
  from Cons.IH [OF rec ok this] have IH: "bt_ok by_id" "\<forall>(k, x)\<in>set by_id. or_id x = k \<and> k \<noteq> self_id \<and> validate_object_key (or_key x) = Inr ()"
    "snd ` set by_id = snd ` set ?m \<union> set xs" by simp_all
  have "snd ` set ?m = insert x (snd ` set m)"
  proof
    show "snd ` set ?m \<subseteq> insert x (snd ` set m)" using mem by (force split: if_splits)
    have "y \<in> snd ` set ?m" if "(k, y) \<in> set m" for k y
    proof (cases "k = or_id x")
      case True
      then have "y = x" using same that bt_get_iff [OF Cons.prems(2)] by simp
      then show ?thesis using mem [of "or_id x" x] by force
    next
      case False
      then show ?thesis using mem [of k y] that by force
    qed
    then show "insert x (snd ` set m) \<subseteq> snd ` set ?m" using mem [of "or_id x" x] by force
  qed
  then show ?case using IH by simp
qed

lemma canonical_entries:
  assumes "canonical_entries objects self_id = Inr es"
  shows "es \<noteq> []" "sorted_wrt (<) (map or_id es)" "set es = set objects" "\<forall>x\<in>set es. or_id x \<noteq> self_id \<and> validate_object_key (or_key x) = Inr ()"
proof -
  obtain m where m: "canonical_loop self_id objects [] = Inr m" "m \<noteq> []" "es = map snd m"
    using assms by (auto simp: canonical_entries_def result_simps split: if_splits)
  have C: "bt_ok m" "\<forall>(k, x)\<in>set m. or_id x = k \<and> k \<noteq> self_id \<and> validate_object_key (or_key x) = Inr ()" "snd ` set m = set objects"
    using canonical_loop [OF m(1)] by simp_all
  have "map or_id es = map fst m" using C(2) m(3) by auto
  then show "sorted_wrt (<) (map or_id es)" using C(1) by (simp add: bt_ok_def)
  show "es \<noteq> []" "set es = set objects" using C(3) m(2,3) by auto
  show "\<forall>x\<in>set es. or_id x \<noteq> self_id \<and> validate_object_key (or_key x) = Inr ()" using C(2) m(3) by fastforce
qed

definition entry_pair :: "object_ref \<Rightarrow> bytes \<times> bytes" where
  "entry_pair x = (or_id x, object_ref_encode x)"

lemma length_object_ref: "object_ref_ok x \<Longrightarrow> length (object_ref_encode x) \<le> 1091"
  using key_length [of "or_key x"] length_encode_uvarint(1) [of "of_nat (length (or_key x))"]
  by (simp add: object_ref_encode_def object_ref_ok_def length_wr_bytes(1))

lemma open_entries_pairs:
  assumes "list_all object_ref_ok xs" and "sorted_wrt (<) (map or_id xs)" and "\<forall>x\<in>set xs. or_id x \<noteq> self_id"
    and "case previous of Some p \<Rightarrow> \<forall>x\<in>set xs. p < or_id x | None \<Rightarrow> True"
  shows "open_entries self_id (map entry_pair xs) previous = Inr xs"
  using assms
proof (induction xs arbitrary: previous)
  case Nil
  then show ?case by simp
next
  case (Cons x xs)
  have "length (object_ref_encode x) < u64_limit" using length_object_ref [of x] Cons.prems(1) by (simp add: u64_limit_def)
  then obtain r where r: "object_ref_decode (reader_new (object_ref_encode x)) = Inr (x, r)" "rd_is_empty r"
    using object_refc.get_whole [of x] Cons.prems(1) by auto
  have "open_entries self_id (map entry_pair xs) (Some (or_id x)) = Inr xs" using Cons.prems by (intro Cons.IH) simp_all
  moreover have "\<not> (case previous of Some p \<Rightarrow> or_id x \<le> p | None \<Rightarrow> False)" using Cons.prems(4) by (auto split: option.splits)
  moreover have "entry_pair x = (or_id x, object_ref_encode x)" "validate_object_key (or_key x) = Inr ()" "or_id x \<noteq> self_id"
    using Cons.prems(1,3) by (simp_all add: entry_pair_def object_ref_ok_def)
  ultimately show ?case using r Cons.prems(1) by (simp add: object_ref_ok_def)
qed

lemma pairs_sorted:
  assumes "list_all object_ref_ok es" and "sorted_wrt (<) (map or_id es)"
  shows "sorted_entries (map (\<lambda>(k, v). \<lparr>le_key = k, le_value = v\<rparr>) (map entry_pair es))"
proof -
  have "map le_key (map (\<lambda>(k, v). \<lparr>le_key = k, le_value = v\<rparr>) (map entry_pair es)) = map or_id es" by (simp add: entry_pair_def)
  moreover have "leaf_ok (case entry_pair x of (k, v) \<Rightarrow> \<lparr>le_key = k, le_value = v\<rparr>)" if "x \<in> set es" for x
    using length_object_ref [of x] assms(1) that by (simp add: list_all_iff entry_pair_def leaf_ok_def object_ref_ok_def page_consts)
  ultimately show ?thesis using assms(2) unfolding sorted_entries_def by (simp only: list_all_iff set_map ball_simps) simp
qed

text \<open>The bytes an inventory container is made of, and the tree inside them.\<close>

definition inventory_header :: "page_address \<Rightarrow> nat \<Rightarrow> container_header" where
  "inventory_header a n = \<lparr>ch_kind = PagedInventory, ch_features = 0, ch_object_len = n, ch_root_offset = pa_offset a,
     ch_root_stored_len = pa_stored_len a, ch_root_raw_len = pa_raw_len a, ch_hash_id = 1, ch_root_codec = pa_codec a\<rparr>"

definition inventory_bytes :: "(bytes \<Rightarrow> u32) \<Rightarrow> page_address \<Rightarrow> bytes \<Rightarrow> bytes" where
  "inventory_bytes crc a body = header_encode crc (inventory_header a (128 + length body)) @ body
     @ footer_encode crc \<lparr>cf_object_len = 128 + length body, cf_digest = pa_digest a\<rparr>"

abbreviation "inventory_params leaf_target \<equiv>
  \<lparr>tp_leaf_target = max leaf_target 64, tp_leaf_kind = BnpgKeyValue, tp_page_kind = InventoryIndex, tp_codec = NoCodec\<rparr>"

lemma build_object_index_cases:
  assumes "build_object_index crc sha compress objects object_id key leaf_target = Some (Inr built)"
  obtains entries a body0 body where "canonical_entries objects object_id = Inr entries"
    "build_index_tree sha compress (map entry_pair entries) (inventory_params leaf_target) [] = Some (Inr (LocalChild a, body0))"
    "body = body0 @ replicate ((8 - length body0 mod 8) mod 8) 0" "bi_bytes built = inventory_bytes crc a body" "bi_entries built = entries"
    "bi_root built = \<lparr>rr_object = \<lparr>or_id = object_id, or_kind = object_kind_as_u8 PagedInventory, or_len = 128 + length body,
       or_hash = sha (inventory_bytes crc a body), or_key = key\<rparr>, rr_address = a\<rparr>"
proof -
  obtain entries where e: "canonical_entries objects object_id = Inr entries"
    using assms by (auto simp: build_object_index_def split: sum.splits)
  obtain a body0 where b: "build_index_tree sha compress (map entry_pair entries) (inventory_params leaf_target) [] = Some (Inr (LocalChild a, body0))"
    using assms e by (auto simp: build_object_index_def Let_def entry_pair_def [abs_def] split: option.splits sum.splits child_ref.splits)
  show thesis using assms e b
    by (intro that [OF e b refl]) (auto simp: build_object_index_def Let_def entry_pair_def [abs_def] result_simps inventory_bytes_def inventory_header_def container_consts ac_simps)
qed

lemma open_inventory_bytes:
  assumes t: "tree_ok sha (inventory_params n) body t" and ap: "apart body (pt_addrs t)" and sha: "\<forall>b. length (sha b) = 32"
    and lim: "128 + length body < u64_limit" and es: "map kv_of (pt_entries t) = map entry_pair es"
    and ids: "list_all object_ref_ok es" "sorted_wrt (<) (map or_id es)" "\<forall>x\<in>set es. or_id x \<noteq> object_id"
  shows "open_object_index crc sha \<lparr>rr_object = \<lparr>or_id = object_id, or_kind = object_kind_as_u8 PagedInventory, or_len = 128 + length body,
       or_hash = sha (inventory_bytes crc (pt_addr t) body), or_key = key\<rparr>, rr_address = pt_addr t\<rparr> (inventory_bytes crc (pt_addr t) body) = Inr es"
proof -
  let ?a = "pt_addr t" and ?b = "inventory_bytes crc (pt_addr t) body"
  let ?h = "inventory_header ?a (128 + length body)" and ?f = "\<lparr>cf_object_len = 128 + length body, cf_digest = pa_digest ?a\<rparr>"
  obtain page where p: "placed sha (inventory_params n) body ?a page" using t by (cases t) auto
  have d: "length (pa_digest ?a) = 32" using p sha by (simp add: placed_def)
  have bnd: "pa_offset ?a + pa_stored_len ?a \<le> 64 + length body" "pa_stored_len ?a < u32_limit" "pa_raw_len ?a = pa_stored_len ?a"
    using p by (auto simp: placed_def page_consts)
  have hl: "length (header_encode crc ?h) = 64" "length (footer_encode crc ?f) = 64" using d by (simp_all add: length_header_encode length_footer_encode)
  then have len: "length ?b = 128 + length body" by (simp add: inventory_bytes_def)
  have "header_ok ?h" using lim bnd by (simp add: header_ok_def inventory_header_def container_consts)
  then have h: "header_parse crc ?b = Inr ?h" unfolding inventory_bytes_def by (rule header_parse_encode)
  have "footer_ok ?f" using lim d by (simp add: footer_ok_def container_consts)
  then have f: "parse_footer crc ?b = Inr ?f"
    using parse_footer_encode [of ?f "header_encode crc ?h @ body" crc] hl by (simp add: inventory_bytes_def)
  have "holds_body sha (inventory_params n) body ?b"
    unfolding holds_body_def using lim len hl inventory_bytes_def [of crc ?a body] by (simp del: length_header_encode) blast
  from walk_tree [OF this t ap, of "[]"] obtain seen where "walk sha ?b ?a [] = Inr ((pt_min t, pt_max t, map entry_pair es), seen)"
    unfolding walked_def es by auto
  then show ?thesis using h f len open_entries_pairs [of es object_id None] ids
    by (simp add: open_object_index_def ensure_supported_features_def inventory_header_def)
qed

text \<open>
  C2. An inventory reads back as built: whenever the builder succeeds on object references, opening its bytes
  under its own root returns the same entries, which are the given objects once each in ascending id order.
  Every page, range, digest and key check on the way is passed, at every tree height.
\<close>

theorem open_built_index:
  assumes "build_object_index crc sha compress objects object_id key leaf_target = Some (Inr built)"
    and "list_all object_typed objects" and "\<forall>b. length (sha b) = 32" and "length (bi_bytes built) < u64_limit"
  shows "open_object_index crc sha (bi_root built) (bi_bytes built) = Inr (bi_entries built)
    \<and> set (bi_entries built) = set objects \<and> sorted_wrt (<) (map or_id (bi_entries built))"
proof -
  from build_object_index_cases [OF assms(1)] obtain entries a body0 body where
    e: "canonical_entries objects object_id = Inr entries"
    and b: "build_index_tree sha compress (map entry_pair entries) (inventory_params leaf_target) [] = Some (Inr (LocalChild a, body0))"
    and body: "body = body0 @ replicate ((8 - length body0 mod 8) mod 8) 0" and built: "bi_bytes built = inventory_bytes crc a body" "bi_entries built = entries"
      "bi_root built = \<lparr>rr_object = \<lparr>or_id = object_id, or_kind = object_kind_as_u8 PagedInventory, or_len = 128 + length body,
       or_hash = sha (inventory_bytes crc a body), or_key = key\<rparr>, rr_address = a\<rparr>" .
  note C = canonical_entries [OF e]
  have ok: "list_all object_ref_ok entries" using assms(2) C(3,4) by (simp add: list_all_iff object_typed_def object_ref_ok_def)
  have "64 + length body0 < u64_limit" using assms(4) built(1) by (simp add: inventory_bytes_def body length_header_encode)
  from build_index_tree_tree [OF b [unfolded build_index_tree_def] _ pairs_sorted [OF ok C(2)] assms(3) this]
  obtain t where t: "LocalChild a = LocalChild (pt_addr t)" "tree_ok sha (inventory_params leaf_target) body0 t" "apart body0 (pt_addrs t)"
    "pt_entries t = map (\<lambda>(k, v). \<lparr>le_key = k, le_value = v\<rparr>) (map entry_pair entries)"
    by auto
  have a: "a = pt_addr t" using t(1) by simp
  obtain page where "placed sha (inventory_params leaf_target) body0 (pt_addr t) page" using t(2) by (cases t) auto
  then have "length (pa_digest a) = 32" using assms(3) a by (simp add: placed_def)
  then have lim: "128 + length body < u64_limit" using assms(4) built(1) by (simp add: inventory_bytes_def length_header_encode length_footer_encode)
  have "map kv_of (pt_entries t) = map entry_pair entries" by (simp add: t(4) kv_of_def case_prod_beta)
  from open_inventory_bytes [OF _ _ assms(3) lim this ok C(2)] tree_ok_grow [OF t(2)] apart_grow [OF t(3)] C(4)
  have "open_object_index crc sha (bi_root built) (bi_bytes built) = Inr entries" unfolding built a body by blast
  then show ?thesis using C(2,3) built(2) by simp
qed

section \<open>The builder does not panic\<close>

definition all_local :: "child_summary list \<Rightarrow> bool" where
  "all_local cs \<longleftrightarrow> (\<forall>c\<in>set cs. \<exists>a. fst (snd (snd c)) = LocalChild a)"

lemma flush_leaf_local: "flush_leaf sha compress params es cs body = Inr (cs', body') \<Longrightarrow> all_local cs \<Longrightarrow> all_local cs' \<and> cs' \<noteq> []"
  by (auto simp: flush_leaf_def all_local_def result_simps)

lemma flush_internal_local:
  "flush_internal sha compress params level wc es f l cs body = Inr (cs', body') \<Longrightarrow> all_local cs \<Longrightarrow> all_local cs' \<and> cs' \<noteq> []"
  by (auto simp: flush_internal_def all_local_def result_simps split: if_splits)

lemma leaf_phase_local:
  "leaf_phase sha compress params es cur est cs body = Inr (cs', body') \<Longrightarrow> all_local cs
   \<Longrightarrow> all_local cs' \<and> (es \<noteq> [] \<or> cur \<noteq> [] \<or> cs \<noteq> [] \<longrightarrow> cs' \<noteq> [])"
proof (induction es arbitrary: cur est cs body)
  case Nil
  then show ?case using flush_leaf_local [of sha compress params cur cs body cs' body'] by (auto split: if_splits)
next
  case (Cons e es)
  obtain k v where e: "e = (k, v)" by (cases e)
  show ?case
  proof (cases "cur \<noteq> [] \<and> tp_leaf_target params < est + (10 + length k + length v)")
    case True
    then obtain cs1 body1 where f: "flush_leaf sha compress params cur cs body = Inr (cs1, body1)"
      and rec: "leaf_phase sha compress params es [\<lparr>le_key = k, le_value = v\<rparr>] (10 + length k + length v) cs1 body1 = Inr (cs', body')"
      using Cons.prems(1) by (auto simp: e Let_def result_simps)
    from Cons.IH [OF rec] flush_leaf_local [OF f Cons.prems(2)] show ?thesis by simp
  next
    case False
    then have "leaf_phase sha compress params es (cur @ [\<lparr>le_key = k, le_value = v\<rparr>]) (est + (10 + length k + length v)) cs body = Inr (cs', body')"
      using Cons.prems(1) by (simp only: e leaf_phase.simps Let_def if_False)
    from Cons.IH [OF this Cons.prems(2)] show ?thesis by simp
  qed
qed

lemma internal_phase_local:
  "internal_phase sha compress params level wc es cur est f l cs body = Inr (cs', body') \<Longrightarrow> all_local cs
   \<Longrightarrow> all_local cs' \<and> (es \<noteq> [] \<or> cur \<noteq> [] \<or> cs \<noteq> [] \<longrightarrow> cs' \<noteq> [])"
proof (induction es arbitrary: cur est f l cs body)
  case Nil
  then show ?case using flush_internal_local [of sha compress params level wc cur "the f" l cs body cs' body'] by (auto split: if_splits)
next
  case (Cons e es)
  obtain mn mx child n where e: "e = (mn, mx, child, n)" by (cases e)
  let ?e = "\<lparr>in_min = mn, in_max = mx, in_count = n, in_child = child\<rparr>" and ?n = "2 * (10 + max (length mn) (length mx)) + 72"
  show ?case
  proof (cases "2 \<le> length cur \<and> tp_leaf_target params < est + ?n")
    case True
    then obtain cs1 body1 where f: "flush_internal sha compress params level wc cur (the f) l cs body = Inr (cs1, body1)"
      and rec: "internal_phase sha compress params level wc es [?e] ?n (Some mn) mx cs1 body1 = Inr (cs', body')"
      using Cons.prems(1) by (auto simp: e Let_def result_simps)
    from Cons.IH [OF rec] flush_internal_local [OF f Cons.prems(2)] show ?thesis by simp
  next
    case False
    then have "internal_phase sha compress params level wc es (cur @ [?e]) (est + ?n) (case f of None \<Rightarrow> Some mn | Some k \<Rightarrow> Some k) mx cs body = Inr (cs', body')"
      using Cons.prems(1) by (simp only: e internal_phase.simps Let_def if_False)
    from Cons.IH [OF this Cons.prems(2)] show ?thesis by simp
  qed
qed

lemma level_phase_local:
  "level_phase sha compress params wc level cs body = Inr (cs', body') \<Longrightarrow> all_local cs \<Longrightarrow> cs \<noteq> [] \<Longrightarrow> all_local cs' \<and> cs' \<noteq> []"
proof (induction sha compress params wc level cs body rule: level_phase.induct)
  case (1 sha compress params wc level cs body)
  show ?case
  proof (cases "1 < length cs")
    case True
    then obtain nxt body1 where f: "\<not> MAX_INDEX_LEVEL < level" "internal_phase sha compress params level wc cs [] 0 None [] [] body = Inr (nxt, body1)"
      and rec: "level_phase sha compress params wc (level + 1) nxt body1 = Inr (cs', body')"
      using "1.prems"(1) by (subst (asm) level_phase.simps) (auto simp: result_simps split: if_splits)
    have "all_local nxt \<and> nxt \<noteq> []" using internal_phase_local [OF f(2)] "1.prems"(3) by (simp add: all_local_def)
    then show ?thesis using "1.IH" [OF True f refl rec] by blast
  next
    case False
    then show ?thesis using "1.prems" by (subst (asm) level_phase.simps) simp
  qed
qed

text \<open>
  C27. Building an inventory never reaches the expectation on the last child nor the unreachable arm for an
  external root: on every input it returns a result or an error.
\<close>

theorem build_object_index_total: "build_object_index crc sha compress objects object_id key leaf_target \<noteq> None"
proof (cases "canonical_entries objects object_id")
  case (Inl e)
  then show ?thesis by (simp add: build_object_index_def)
next
  case (Inr entries)
  let ?p = "inventory_params leaf_target" and ?es = "map (\<lambda>x. (or_id x, object_ref_encode x)) entries"
  have "(\<exists>e. build_index_tree sha compress ?es ?p [] = Some (Inl e)) \<or> (\<exists>a body. build_index_tree sha compress ?es ?p [] = Some (Inr (LocalChild a, body)))"
  proof (cases "rbind (leaf_phase sha compress ?p ?es [] 0 [] []) (\<lambda>(children, body). level_phase sha compress ?p False 1 children body)")
    case (Inl e)
    then show ?thesis by (simp add: build_index_tree_def build_index_tree_impl_def)
  next
    case (Inr r)
    then obtain c1 b1 c2 b2 where f: "leaf_phase sha compress ?p ?es [] 0 [] [] = Inr (c1, b1)" and l: "level_phase sha compress ?p False 1 c1 b1 = Inr (c2, b2)"
      and r: "r = (c2, b2)" by (cases r) (auto simp: result_simps)
    have "all_local c1 \<and> c1 \<noteq> []" using leaf_phase_local [OF f] canonical_entries(1) [OF \<open>canonical_entries objects object_id = Inr entries\<close>] by (simp add: all_local_def)
    then have c2: "all_local c2 \<and> c2 \<noteq> []" using level_phase_local [OF l] by blast
    then obtain a where "fst (snd (snd (last c2))) = LocalChild a" using last_in_set [of c2] unfolding all_local_def by blast
    then show ?thesis using Inr r c2 by (simp add: build_index_tree_def build_index_tree_impl_def)
  qed
  then show ?thesis using Inr by (auto simp: build_object_index_def Let_def)
qed

lemma one_page_bound:
  assumes "object_ref_ok x"
  shows "length (page_encode \<lparr>ip_kind = BnpgKeyValue, ip_level = 0, ip_body = LeafBody [\<lparr>le_key = or_id x, le_value = object_ref_encode x\<rparr>]\<rparr>) \<le> 1200"
proof -
  have "length (encode_uvarint v) \<le> 10" for v by (rule length_encode_uvarint)
  from this [of 0] this [of "of_nat 16"] this [of "of_nat (length (object_ref_encode x))"] show ?thesis
    using length_object_ref [OF assms] assms by (simp add: page_encode_def PAGE_MAGIC_def wr_u8_def wr_bytes_def Let_def object_ref_ok_def)
qed

text \<open>The builder succeeds on one valid object, in a small container.\<close>

lemma build_object_index_single:
  assumes x: "object_ref_ok x" and "1 \<le> or_kind x" and "or_kind x \<le> 6" and "or_id x \<noteq> object_id" and key: "validate_object_key key = Inr ()"
    and sha: "\<forall>b. length (sha b) = 32"
  shows "\<exists>built. build_object_index crc sha compress [x] object_id key leaf_target = Some (Inr built) \<and> length (bi_bytes built) < u64_limit"
proof -
  let ?page = "\<lparr>ip_kind = BnpgKeyValue, ip_level = 0, ip_body = LeafBody [\<lparr>le_key = or_id x, le_value = object_ref_encode x\<rparr>]\<rparr>"
  let ?a = "\<lparr>pa_offset = 64, pa_stored_len = length (page_encode ?page), pa_raw_len = length (page_encode ?page), pa_codec = NoCodec,
    pa_kind = InventoryIndex, pa_level = 0, pa_entry_count = 1, pa_digest = sha (page_encode ?page)\<rparr>"
  have can: "canonical_entries [x] object_id = Inr [x]" using assms by (simp add: canonical_entries_def object_ref_ok_def bt_get_def)
  have "build_index_tree sha compress [(or_id x, object_ref_encode x)] (inventory_params leaf_target) [] = Some (Inr (LocalChild ?a, page_encode ?page))"
    using one_page_bound [OF x] by (simp add: build_index_tree_def build_index_tree_impl_def flush_leaf_def place_page_with_codec_def Let_def
      level_phase.simps pad_body_def entry_count_def page_consts MAX_ENCODED_PAGE_def HEADER_LEN_def)
  then show ?thesis using can key one_page_bound [OF x] sha
    by (simp add: build_object_index_def Let_def length_footer_encode u64_limit_def)
qed

theorem open_built_index_witness:
  "let x = \<lparr>or_id = replicate 16 7, or_kind = 2, or_len = 5000, or_hash = replicate 32 1, or_key = [97, 98]\<rparr>; sha = (\<lambda>b. replicate 32 0);
       built = (case build_object_index (\<lambda>b. 0) sha (\<lambda>b n. None) [x] (replicate 16 9) [99] 4096 of Some (Inr built) \<Rightarrow> built)
   in open_object_index (\<lambda>b. 0) sha (bi_root built) (bi_bytes built) = Inr (bi_entries built) \<and> set (bi_entries built) = {x}"
proof -
  let ?x = "\<lparr>or_id = replicate 16 7, or_kind = 2, or_len = 5000, or_hash = replicate 32 1, or_key = [97, 98]\<rparr> :: object_ref"
  let ?sha = "(\<lambda>b. replicate 32 0) :: bytes \<Rightarrow> bytes" and ?crc = "(\<lambda>b. 0) :: bytes \<Rightarrow> u32"
  have "object_ref_ok ?x" "1 \<le> or_kind ?x" "or_kind ?x \<le> 6" "or_id ?x \<noteq> replicate 16 9" "validate_object_key [99] = Inr ()"
    by (simp_all add: object_ref_ok_def validate_object_key_def MAX_KEY_LEN_def)
  from build_object_index_single [OF this, of ?sha ?crc "\<lambda>b n. None" 4096] obtain built where
    b: "build_object_index ?crc ?sha (\<lambda>b n. None) [?x] (replicate 16 9) [99] 4096 = Some (Inr built)" "length (bi_bytes built) < u64_limit" by auto
  have "list_all object_typed [?x]" by (simp add: object_typed_def)
  from open_built_index [OF b(1) this _ b(2)] show ?thesis unfolding Let_def b(1) by simp
qed

end
