(* ===== verification/Bandwidth.thy ===== *)
theory Bandwidth
  imports Prelude Complex_Main
begin

text \<open>
  The bandwidth limiter (\<^verbatim>\<open>src/src/chunk/bandwidth.rs\<close>). The token bucket is the crate
  \<^verbatim>\<open>governor\<close>: its constructor \<open>direct\<close> and its call \<open>until\<close>, which waits and takes tokens or
  refuses a request above the capacity, are parameters. The state of a bucket is passed explicitly;
  \<^verbatim>\<open>u64\<close> and \<^verbatim>\<open>u32\<close> arithmetic is written with its wrap-around.
\<close>

section \<open>The limiter\<close>

record bandwidth_config =
  upload_limit_mibps :: "nat option"
  download_limit_mibps :: "nat option"

record 's bandwidth_limiter =
  bl_upload :: "'s option"
  bl_download :: "'s option"

text \<open>The closure that \<^verbatim>\<open>new\<close> runs for each direction; \<^term>\<open>None\<close> is no limit.\<close>

definition direction_limit :: "(nat \<Rightarrow> nat \<Rightarrow> 's) \<Rightarrow> nat option \<Rightarrow> 's option" where
  "direction_limit direct limit =
     (case limit of
        None \<Rightarrow> None
      | Some mibps \<Rightarrow>
          if mibps = 0 then None
          else let tokens_per_sec = max (mibps * 16 mod u64_limit) 1; burst = max tokens_per_sec 4
               in if tokens_per_sec mod u32_limit = 0 \<or> burst mod u32_limit = 0 then None
                  else Some (direct (tokens_per_sec mod u32_limit) (burst mod u32_limit)))"

definition limiter_new :: "(nat \<Rightarrow> nat \<Rightarrow> 's) \<Rightarrow> bandwidth_config \<Rightarrow> 's bandwidth_limiter" where
  "limiter_new direct config = \<lparr>bl_upload = direction_limit direct (upload_limit_mibps config), bl_download = direction_limit direct (download_limit_mibps config)\<rparr>"

definition unlimited :: "'s bandwidth_limiter" where
  "unlimited = \<lparr>bl_upload = None, bl_download = None\<rparr>"

text \<open>\<open>until n s\<close> is \<^term>\<open>Inl capacity\<close> for a refused request, and otherwise the bucket after the wait.\<close>

partial_function (option) acquire_loop :: "(nat \<Rightarrow> 's \<Rightarrow> nat + 's) \<Rightarrow> nat \<Rightarrow> nat \<Rightarrow> 's \<Rightarrow> 's option" where
  "acquire_loop until left batch_limit s =
     (if 0 < left
      then let batch = min left batch_limit
           in if batch = 0 then Some s
              else case until batch s of
                Inl capacity \<Rightarrow> acquire_loop until left capacity s
              | Inr s' \<Rightarrow> acquire_loop until (left - batch) batch_limit s'
      else Some s)"

definition acquire_tokens :: "(nat \<Rightarrow> 's \<Rightarrow> nat + 's) \<Rightarrow> nat \<Rightarrow> 's \<Rightarrow> 's option" where
  "acquire_tokens until tokens s = acquire_loop until tokens 32 s"

definition tokens_for :: "nat \<Rightarrow> nat" where
  "tokens_for n = max ((n + 65535) div 65536) 1 mod u32_limit"

definition acquire_upload :: "(nat \<Rightarrow> 's \<Rightarrow> nat + 's) \<Rightarrow> nat \<Rightarrow> 's bandwidth_limiter \<Rightarrow> 's bandwidth_limiter option" where
  "acquire_upload until n l =
     (case bl_upload l of None \<Rightarrow> Some l | Some s \<Rightarrow> map_option (\<lambda>s'. l\<lparr>bl_upload := Some s'\<rparr>) (acquire_tokens until (tokens_for n) s))"

definition acquire_download :: "(nat \<Rightarrow> 's \<Rightarrow> nat + 's) \<Rightarrow> nat \<Rightarrow> 's bandwidth_limiter \<Rightarrow> 's bandwidth_limiter option" where
  "acquire_download until n l =
     (case bl_download l of None \<Rightarrow> Some l | Some s \<Rightarrow> map_option (\<lambda>s'. l\<lparr>bl_download := Some s'\<rparr>) (acquire_tokens until (tokens_for n) s))"

definition has_upload_limit :: "'s bandwidth_limiter \<Rightarrow> bool" where
  "has_upload_limit l \<longleftrightarrow> bl_upload l \<noteq> None"

definition has_download_limit :: "'s bandwidth_limiter \<Rightarrow> bool" where
  "has_download_limit l \<longleftrightarrow> bl_download l \<noteq> None"

section \<open>What the token bucket promises\<close>

text \<open>
  \<open>quota s\<close> is the rate per second and the burst of a bucket, \<open>taken s\<close> the tokens handed out so far and
  \<open>elapsed s\<close> the seconds since it was made. A request within the burst is served and one above it is
  refused with the burst as capacity; what is handed out stays below burst plus rate times time.
\<close>

definition within_quota :: "('s \<Rightarrow> nat \<times> nat) \<Rightarrow> ('s \<Rightarrow> nat) \<Rightarrow> ('s \<Rightarrow> real) \<Rightarrow> 's \<Rightarrow> bool" where
  "within_quota quota taken elapsed s \<longleftrightarrow> real (taken s) \<le> real (snd (quota s)) + real (fst (quota s)) * elapsed s"

definition governor ::
  "(nat \<Rightarrow> nat \<Rightarrow> 's) \<Rightarrow> (nat \<Rightarrow> 's \<Rightarrow> nat + 's) \<Rightarrow> ('s \<Rightarrow> nat \<times> nat) \<Rightarrow> ('s \<Rightarrow> nat) \<Rightarrow> ('s \<Rightarrow> real) \<Rightarrow> bool" where
  "governor direct until quota taken elapsed \<longleftrightarrow>
     (\<forall>r b. 0 < r \<and> 0 < b \<longrightarrow> quota (direct r b) = (r, b) \<and> taken (direct r b) = 0)
     \<and> (\<forall>n s s'. until n s = Inr s' \<longrightarrow> quota s' = quota s \<and> taken s' = taken s + n \<and> within_quota quota taken elapsed s')
     \<and> (\<forall>n s. n \<le> snd (quota s) \<longrightarrow> \<not> isl (until n s))
     \<and> (\<forall>n s. snd (quota s) < n \<longrightarrow> until n s = Inl (snd (quota s)))"

lemma governor_grant:
  assumes "governor direct until quota taken elapsed" and "n \<le> snd (quota s)"
  obtains s' where "until n s = Inr s'" "quota s' = quota s" "taken s' = taken s + n"
    "within_quota quota taken elapsed s'"
proof -
  have "\<not> isl (until n s)" using assms unfolding governor_def by blast
  then obtain s' where s': "until n s = Inr s'" by (cases "until n s") auto
  then show thesis using assms(1) that unfolding governor_def by blast
qed

lemma acquire_loop_small:
  assumes g: "governor direct until quota taken elapsed" and "0 < limit" and "limit \<le> snd (quota s)"
    and "within_quota quota taken elapsed s \<or> 0 < left"
  shows "\<exists>s'. acquire_loop until left limit s = Some s' \<and> quota s' = quota s \<and> taken s' = taken s + left
    \<and> within_quota quota taken elapsed s'"
  using assms(3,4)
proof (induction left arbitrary: s rule: less_induct)
  case (less left)
  show ?case
  proof (cases "left = 0")
    case True
    then show ?thesis using less.prems by (subst acquire_loop.simps) simp
  next
    case False
    let ?b = "min left limit"
    have "?b \<le> snd (quota s)" using less.prems by simp
    from governor_grant [OF g this] obtain s' where s': "until ?b s = Inr s'" "quota s' = quota s" "taken s' = taken s + ?b"
      "within_quota quota taken elapsed s'" .
    have "left - ?b < left" using False assms(2) by simp
    from less.IH [OF this, of s'] s' less.prems(1) obtain s'' where "acquire_loop until (left - ?b) limit s' = Some s''" "quota s'' = quota s"
      "taken s'' = taken s + left" "within_quota quota taken elapsed s''" by auto
    moreover have "acquire_loop until left limit s = acquire_loop until (left - ?b) limit s'"
      using False assms(2) s'(1) by (subst acquire_loop.simps) (auto simp: Let_def min_def)
    ultimately show ?thesis by simp
  qed
qed

lemma acquire_tokens_charges:
  assumes g: "governor direct until quota taken elapsed" and b: "0 < snd (quota s)" and t: "0 < tokens"
  shows "\<exists>s'. acquire_tokens until tokens s = Some s' \<and> quota s' = quota s \<and> taken s' = taken s + tokens
    \<and> within_quota quota taken elapsed s'"
proof (cases "min tokens 32 \<le> snd (quota s)")
  case True
  show ?thesis
  proof (cases "32 \<le> snd (quota s)")
    case True
    then show ?thesis using acquire_loop_small [OF g _ True, of tokens] t by (simp add: acquire_tokens_def)
  next
    case False
    then have m: "min tokens 32 = tokens" "tokens \<le> snd (quota s)" using True by auto
    from governor_grant [OF g m(2)] obtain s' where "until tokens s = Inr s'" "quota s' = quota s" "taken s' = taken s + tokens"
      "within_quota quota taken elapsed s'" .
    moreover from this have "acquire_loop until tokens 32 s = Some s'" using t m by (subst acquire_loop.simps) (simp add: Let_def acquire_loop.simps)
    ultimately show ?thesis by (simp add: acquire_tokens_def)
  qed
next
  case False
  then have "until (min tokens 32) s = Inl (snd (quota s))" using g unfolding governor_def not_le by blast
  then have "acquire_loop until tokens 32 s = acquire_loop until tokens (snd (quota s)) s" using t by (subst acquire_loop.simps) (auto simp: Let_def min_def)
  then show ?thesis using acquire_loop_small [OF g b le_refl, of tokens] t by (simp add: acquire_tokens_def)
qed

lemma tokens_for_covers: "n < 65536 * (u32_limit - 1) \<Longrightarrow> n \<le> 65536 * tokens_for n \<and> 0 < tokens_for n"
proof -
  assume "n < 65536 * (u32_limit - 1)"
  then have "(n + 65535) div 65536 < u32_limit" by (intro less_mult_imp_div_less) (simp add: u32_limit_def)
  then have "tokens_for n = max ((n + 65535) div 65536) 1" by (simp add: tokens_for_def u32_limit_def)
  moreover have "n \<le> 65536 * ((n + 65535) div 65536)"
    using div_mult_mod_eq [of "n + 65535" 65536] mod_less_divisor [of 65536 "n + 65535"] by linarith
  ultimately show ?thesis by auto
qed

section \<open>The bound on the bytes transferred\<close>

fun acquire_uploads :: "(nat \<Rightarrow> 's \<Rightarrow> nat + 's) \<Rightarrow> nat list \<Rightarrow> 's bandwidth_limiter \<Rightarrow> 's bandwidth_limiter option" where
  "acquire_uploads until [] l = Some l"
| "acquire_uploads until (n # ns) l = Option.bind (acquire_upload until n l) (acquire_uploads until ns)"

lemma acquire_uploads_charge:
  assumes g: "governor direct until quota taken elapsed" and "\<forall>n\<in>set ns. n < 65536 * (u32_limit - 1)"
    and "bl_upload l = Some s" and "0 < snd (quota s)" and "within_quota quota taken elapsed s \<or> ns \<noteq> []"
  shows "\<exists>l' s'. acquire_uploads until ns l = Some l' \<and> bl_upload l' = Some s' \<and> bl_download l' = bl_download l \<and> quota s' = quota s
    \<and> 65536 * taken s + sum_list ns \<le> 65536 * taken s' \<and> within_quota quota taken elapsed s'"
  using assms(2-)
proof (induction ns arbitrary: l s)
  case Nil
  then show ?case by simp
next
  case (Cons n ns)
  have t: "n \<le> 65536 * tokens_for n" "0 < tokens_for n" using tokens_for_covers [of n] Cons.prems(1) by simp_all
  from acquire_tokens_charges [OF g Cons.prems(3) t(2)] obtain s1 where s1: "acquire_tokens until (tokens_for n) s = Some s1" "quota s1 = quota s"
    "taken s1 = taken s + tokens_for n" "within_quota quota taken elapsed s1" by blast
  let ?l = "l\<lparr>bl_upload := Some s1\<rparr>"
  have a: "acquire_upload until n l = Some ?l" using Cons.prems(2) s1(1) by (simp add: acquire_upload_def)
  have "\<exists>l' s'. acquire_uploads until ns ?l = Some l' \<and> bl_upload l' = Some s' \<and> bl_download l' = bl_download ?l \<and> quota s' = quota s1
    \<and> 65536 * taken s1 + sum_list ns \<le> 65536 * taken s' \<and> within_quota quota taken elapsed s'"
    using s1 Cons.prems(1,3) by (intro Cons.IH) simp_all
  then obtain l' s' where "acquire_uploads until ns ?l = Some l'" "bl_upload l' = Some s'"
    "bl_download l' = bl_download l" "quota s' = quota s" "65536 * taken s1 + sum_list ns \<le> 65536 * taken s'"
    "within_quota quota taken elapsed s'" using s1(2) by auto
  moreover from this(5) have "65536 * taken s + sum_list (n # ns) \<le> 65536 * taken s'" using s1(3) t(1) by simp
  ultimately show ?case using a by simp
qed

text \<open>
  C32. A configured upload limit bounds the traffic: for a limit of \<open>m\<close> MiB/s below \<open>2^28\<close>, every sequence of
  acquisitions returns, whatever their sizes, and the bytes acquired by then are at most \<open>m\<close> MiB for every second
  since the limiter was made plus \<open>m\<close> MiB of burst. Requests larger than the burst of the bucket are charged in full.
\<close>

theorem upload_bandwidth_bound:
  assumes "governor direct until quota taken elapsed" and "upload_limit_mibps config = Some m" and "0 < m" and "m < 2 ^ 28"
    and "\<forall>n\<in>set ns. n < 2 ^ 47" and "ns \<noteq> []"
  shows "\<exists>l s. acquire_uploads until ns (limiter_new direct config) = Some l \<and> bl_upload l = Some s
    \<and> real (sum_list ns) \<le> 1048576 * real m * (1 + elapsed s)"
proof -
  let ?s = "direct (m * 16) (m * 16)"
  have m: "m * 16 mod u64_limit = m * 16" "m * 16 mod u32_limit = m * 16" "max (m * 16) 4 = m * 16" using assms(3,4) by (simp_all add: u64_limit_def u32_limit_def)
  then have u: "bl_upload (limiter_new direct config) = Some ?s" using assms(2,3) by (simp add: limiter_new_def direction_limit_def Let_def max_def)
  have q: "quota ?s = (m * 16, m * 16)" "taken ?s = 0" using assms(1,3) unfolding governor_def by simp_all
  have "\<forall>n\<in>set ns. n < 65536 * (u32_limit - 1)" using assms(5) by (auto simp: u32_limit_def)
  from acquire_uploads_charge [OF assms(1) this u] obtain l s where l: "acquire_uploads until ns (limiter_new direct config) = Some l" "bl_upload l = Some s"
    "quota s = (m * 16, m * 16)" "sum_list ns \<le> 65536 * taken s" "real (taken s) \<le> real (m * 16) + real (m * 16) * elapsed s" using q assms(3,6) by (auto simp: within_quota_def)
  have "real (sum_list ns) \<le> 65536 * real (taken s)" using l(4) by (metis of_nat_le_iff of_nat_mult of_nat_numeral)
  also have "\<dots> \<le> 65536 * (real (m * 16) + real (m * 16) * elapsed s)" using l(5) by simp
  also have "\<dots> = 1048576 * real m * (1 + elapsed s)" by (simp add: algebra_simps)
  finally show ?thesis using l(1,2) by blast
qed

text \<open>A bucket that serves every request at the earliest time its quota allows.\<close>

type_synonym eager = "(nat \<times> nat) \<times> nat \<times> real"

definition eager_direct :: "nat \<Rightarrow> nat \<Rightarrow> eager" where
  "eager_direct r b = ((r, b), 0, 0)"

definition eager_until :: "nat \<Rightarrow> eager \<Rightarrow> nat + eager" where
  "eager_until n s = (case s of ((r, b), t, e) \<Rightarrow>
     if b < n then Inl b else Inr ((r, b), t + n, (real (t + n) - real b) / real (max r 1)))"

definition eager_quota :: "eager \<Rightarrow> nat \<times> nat" where
  "eager_quota s = (max (fst (fst s)) 1, snd (fst s))"

lemma eager_governor: "governor eager_direct eager_until eager_quota (\<lambda>s. fst (snd s)) (\<lambda>s. snd (snd s))"
  by (auto simp: governor_def eager_direct_def eager_until_def eager_quota_def within_quota_def split: if_splits)

theorem upload_bandwidth_bound_witness:
  "\<exists>l s. acquire_uploads eager_until [4194308, 70000] (limiter_new eager_direct \<lparr>upload_limit_mibps = Some 1, download_limit_mibps = None\<rparr>) = Some l
     \<and> bl_upload l = Some s \<and> real (sum_list [4194308, 70000]) \<le> 1048576 * real 1 * (1 + snd (snd s))"
  by (rule upload_bandwidth_bound [OF eager_governor]) simp_all

end
