(* ===== verification/PosixAcl.thy ===== *)
theory PosixAcl
  imports Prelude
begin

text \<open>
  POSIX access control lists (\<^verbatim>\<open>meta/posix_acl.rs\<close>): the extended-attribute codec, the access decision of Linux, the
  lists a chmod and a creation produce, and the textual entries of the control protocol with their validation
  (\<^verbatim>\<open>control/protocol.rs\<close>).
\<close>

definition UNDEFINED_ID :: u32 where "UNDEFINED_ID = - 1"
definition MAX_BYTES :: nat where "MAX_BYTES = 65536"

record pacl_entry =
  pe_tag :: u16
  pe_permissions :: u16
  pe_id :: u32

type_synonym posix_acl = "pacl_entry list"

section \<open>Codec\<close>

text \<open>The variables of the decoding loop.\<close>

record acl_scan =
  sc_last_tag :: u16
  sc_last_id :: "u32 option"
  sc_named :: bool
  sc_mask :: bool
  sc_user_obj :: bool
  sc_group_obj :: bool
  sc_other :: bool

definition acl_scan_new :: acl_scan where
  "acl_scan_new = \<lparr>sc_last_tag = 0, sc_last_id = None, sc_named = False, sc_mask = False, sc_user_obj = False, sc_group_obj = False, sc_other = False\<rparr>"

definition raw_entry :: "bytes \<Rightarrow> pacl_entry" where
  "raw_entry raw = \<lparr>pe_tag = of_nat (from_le_bytes (take 2 raw)), pe_permissions = of_nat (from_le_bytes (take 2 (drop 2 raw))),
     pe_id = of_nat (from_le_bytes (drop 4 raw))\<rparr>"

definition scan_entry :: "acl_scan \<Rightarrow> pacl_entry \<Rightarrow> string + acl_scan" where
  "scan_entry s e =
     (if pe_tag e \<notin> {1, 2, 4, 8, 16, 32} \<or> 7 < pe_permissions e \<or> pe_tag e < sc_last_tag s
      then Inl ''invalid POSIX ACL tag/permissions/order''
      else rbind
        (if pe_tag e \<in> {2, 8} then
           if pe_id e = UNDEFINED_ID \<or> sc_last_tag s = pe_tag e \<and> (case sc_last_id s of Some i \<Rightarrow> pe_id e \<le> i | None \<Rightarrow> False)
           then Inl ''invalid POSIX ACL named identity/order'' else Inr (s\<lparr>sc_named := True\<rparr>)
         else if pe_id e \<noteq> UNDEFINED_ID \<or> sc_last_tag s = pe_tag e then Inl ''invalid POSIX ACL singleton identity/duplicate''
         else if pe_tag e = 1 then Inr (s\<lparr>sc_user_obj := True\<rparr>)
         else if pe_tag e = 4 then Inr (s\<lparr>sc_group_obj := True\<rparr>)
         else if pe_tag e = 16 then Inr (s\<lparr>sc_mask := True\<rparr>)
         else Inr (s\<lparr>sc_other := True\<rparr>))
        (\<lambda>s. Inr (s\<lparr>sc_last_tag := pe_tag e, sc_last_id := Some (pe_id e)\<rparr>)))"

fun scan_entries :: "acl_scan \<Rightarrow> nat \<Rightarrow> bytes \<Rightarrow> string + (posix_acl \<times> acl_scan)" where
  "scan_entries s 0 b = Inr ([], s)"
| "scan_entries s (Suc n) b =
     (let e = raw_entry (take 8 b)
      in rbind (scan_entry s e) (\<lambda>s. rbind (scan_entries s n (drop 8 b)) (\<lambda>(es, s). Inr (e # es, s))))"

definition acl_decode :: "bytes \<Rightarrow> string + posix_acl" where
  "acl_decode b =
     (if length b < 28 \<or> MAX_BYTES < length b \<or> (length b - 4) mod 8 \<noteq> 0 \<or> take 4 b \<noteq> to_le_bytes 4 2
      then Inl ''invalid POSIX ACL version/length''
      else rbind (scan_entries acl_scan_new ((length b - 4) div 8) (drop 4 b)) (\<lambda>(es, s).
        if \<not> sc_user_obj s \<or> \<not> sc_group_obj s \<or> \<not> sc_other s \<or> sc_named s \<and> \<not> sc_mask s
        then Inl ''incomplete POSIX ACL base/mask entries'' else Inr es))"

definition entry_bytes :: "pacl_entry \<Rightarrow> bytes" where
  "entry_bytes e = to_le_bytes 2 (unat (pe_tag e)) @ to_le_bytes 2 (unat (pe_permissions e)) @ to_le_bytes 4 (unat (pe_id e))"

definition acl_encode :: "posix_acl \<Rightarrow> bytes" where
  "acl_encode es = to_le_bytes 4 2 @ concat (map entry_bytes es)"

section \<open>Access\<close>

definition is_extended :: "posix_acl \<Rightarrow> bool" where
  "is_extended es \<longleftrightarrow> list_ex (\<lambda>e. pe_tag e \<in> {2, 8, 16}) es"

definition acl_permission :: "posix_acl \<Rightarrow> u16 \<Rightarrow> u32" where
  "acl_permission es t = (case find (\<lambda>e. pe_tag e = t) es of Some e \<Rightarrow> ucast (pe_permissions e) | None \<Rightarrow> 0)"

definition mode_bits :: "posix_acl \<Rightarrow> u32" where
  "mode_bits es =
     (let grp = (if list_ex (\<lambda>e. pe_tag e = 16) es then acl_permission es 16 else acl_permission es 4)
      in push_bit 6 (acl_permission es 1) OR push_bit 3 grp OR acl_permission es 32)"

definition acl_mask :: "posix_acl \<Rightarrow> u32" where
  "acl_mask es = (case find (\<lambda>e. pe_tag e = 16) es of Some e \<Rightarrow> ucast (pe_permissions e) | None \<Rightarrow> 7)"

definition user_access_mode :: "posix_acl \<Rightarrow> u32 \<Rightarrow> u32 \<Rightarrow> u32 option" where
  "user_access_mode es owner uid =
     (if uid = owner then Some (acl_permission es 1)
      else if mode_bits es AND 0x38 = 0 then None
      else map_option (\<lambda>e. ucast (pe_permissions e) AND acl_mask es) (find (\<lambda>e. pe_tag e = 2 \<and> pe_id e = uid) es))"

text \<open>The loop over the entries of the group class, with its \<open>matched\<close> flag; the first answer is an early return.\<close>

fun group_loop :: "posix_acl \<Rightarrow> u32 \<Rightarrow> u32 list \<Rightarrow> u32 \<Rightarrow> u32 \<Rightarrow> bool \<Rightarrow> bool option \<times> bool" where
  "group_loop [] owning_group groups m requested matched = (None, matched)"
| "group_loop (e # es) owning_group groups m requested matched =
     (if pe_tag e = 4 \<and> owning_group \<in> set groups \<or> pe_tag e = 8 \<and> pe_id e \<in> set groups
      then if ucast (pe_permissions e) AND m AND requested = requested then (Some True, True)
           else group_loop es owning_group groups m requested True
      else group_loop es owning_group groups m requested matched)"

definition allows_access :: "posix_acl \<Rightarrow> u32 \<Rightarrow> u32 \<Rightarrow> u32 \<Rightarrow> u32 list \<Rightarrow> u32 \<Rightarrow> bool" where
  "allows_access es owner owning_group uid groups requested =
     (case user_access_mode es owner uid of
        Some mode \<Rightarrow> mode AND requested = requested
      | None \<Rightarrow>
          if mode_bits es AND 0x38 = 0
          then (if owning_group \<in> set groups then 0 else acl_permission es 32) AND requested = requested
          else case group_loop es owning_group groups (acl_mask es) requested False of
                 (Some r, _) \<Rightarrow> r
               | (None, matched) \<Rightarrow> \<not> matched \<and> acl_permission es 32 AND requested = requested)"

section \<open>Inheritance and chmod\<close>

definition class_bits :: "bool \<Rightarrow> u16 \<Rightarrow> u32 \<Rightarrow> u32 option" where
  "class_bits has_mask tag mode =
     (if tag = 1 then Some (drop_bit 6 mode AND 7)
      else if tag = 16 then Some (drop_bit 3 mode AND 7)
      else if tag = 4 \<and> \<not> has_mask then Some (drop_bit 3 mode AND 7)
      else if tag = 32 then Some (mode AND 7)
      else None)"

definition inherited_access :: "posix_acl \<Rightarrow> u32 \<Rightarrow> posix_acl" where
  "inherited_access es requested_mode =
     (let has_mask = list_ex (\<lambda>e. pe_tag e = 16) es
      in map (\<lambda>e. case class_bits has_mask (pe_tag e) requested_mode of
                    Some requested \<Rightarrow> e\<lparr>pe_permissions := pe_permissions e AND ucast requested\<rparr> | None \<Rightarrow> e) es)"

definition acl_chmod :: "posix_acl \<Rightarrow> u32 \<Rightarrow> posix_acl" where
  "acl_chmod es mode =
     (let has_mask = list_ex (\<lambda>e. pe_tag e = 16) es
      in map (\<lambda>e. case class_bits has_mask (pe_tag e) mode of
                    Some permission \<Rightarrow> e\<lparr>pe_permissions := ucast permission\<rparr> | None \<Rightarrow> e) es)"

section \<open>Entries of the control protocol\<close>

record control_acl_entry =
  ca_scope :: string
  ca_tag :: string
  ca_id :: "u32 option"
  ca_perm :: string

datatype acl_invalid = BadScope nat | BadTag nat | BadPerm nat | NeedsId nat string | MustNotHaveId nat string | MissingBaseEntries

definition valid_acl_perm :: "string \<Rightarrow> bool" where
  "valid_acl_perm perm \<longleftrightarrow>
     (case perm of
        [r, w, x] \<Rightarrow> (r = CHR ''r'' \<or> r = CHR ''-'') \<and> (w = CHR ''w'' \<or> w = CHR ''-'') \<and> (x = CHR ''x'' \<or> x = CHR ''-'')
      | _ \<Rightarrow> False)"

definition validate_acl_entry :: "control_acl_entry \<Rightarrow> nat \<Rightarrow> acl_invalid + unit" where
  "validate_acl_entry e index =
     (let entry_number = index + 1
      in if ca_scope e \<noteq> ''access'' \<and> ca_scope e \<noteq> ''default'' then Inl (BadScope entry_number)
         else if ca_tag e \<notin> {''user_obj'', ''user'', ''group_obj'', ''group'', ''mask'', ''other''} then Inl (BadTag entry_number)
         else if \<not> valid_acl_perm (ca_perm e) then Inl (BadPerm entry_number)
         else if ca_tag e \<in> {''user'', ''group''} \<and> ca_id e = None then Inl (NeedsId entry_number (ca_tag e))
         else if ca_tag e \<notin> {''user'', ''group''} \<and> ca_id e \<noteq> None then Inl (MustNotHaveId entry_number (ca_tag e))
         else Inr ())"

definition has_acl_entry :: "control_acl_entry list \<Rightarrow> string \<Rightarrow> string \<Rightarrow> bool" where
  "has_acl_entry entries scope tag \<longleftrightarrow> list_ex (\<lambda>e. ca_scope e = scope \<and> ca_tag e = tag) entries"

definition validate_acl_entry_set :: "control_acl_entry list \<Rightarrow> acl_invalid + unit" where
  "validate_acl_entry_set entries =
     (if \<not> list_ex (\<lambda>e. ca_scope e = ''access'') entries then Inr ()
      else if has_acl_entry entries ''access'' ''user_obj'' \<and> has_acl_entry entries ''access'' ''group_obj'' \<and> has_acl_entry entries ''access'' ''other''
      then Inr () else Inl MissingBaseEntries)"

fun validate_each :: "nat \<Rightarrow> control_acl_entry list \<Rightarrow> acl_invalid + unit" where
  "validate_each i [] = Inr ()"
| "validate_each i (e # es) = rbind (validate_acl_entry e i) (\<lambda>_. validate_each (Suc i) es)"

definition validate_acl_entries :: "control_acl_entry list \<Rightarrow> acl_invalid + unit" where
  "validate_acl_entries entries = rbind (validate_each 0 entries) (\<lambda>_. validate_acl_entry_set entries)"

fun perm_chars :: "nat \<Rightarrow> string \<Rightarrow> u32 \<Rightarrow> u32 option" where
  "perm_chars i [] mode = Some mode"
| "perm_chars i (c # cs) mode =
     (if i = 0 \<and> c = CHR ''r'' then perm_chars (Suc i) cs (mode OR 4)
      else if i = 1 \<and> c = CHR ''w'' then perm_chars (Suc i) cs (mode OR 2)
      else if i = 2 \<and> c = CHR ''x'' then perm_chars (Suc i) cs (mode OR 1)
      else if c = CHR ''-'' then perm_chars (Suc i) cs mode
      else None)"

definition control_acl_perm_bits :: "string \<Rightarrow> u32 option" where
  "control_acl_perm_bits perm = (if length perm \<noteq> 3 then None else perm_chars 0 perm 0)"

definition control_find :: "control_acl_entry list \<Rightarrow> string \<Rightarrow> u32 option \<Rightarrow> u32 option" where
  "control_find entries tag i =
     Option.bind (find (\<lambda>e. ca_scope e = ''access'' \<and> ca_tag e = tag \<and> ca_id e = i) entries) (\<lambda>e. control_acl_perm_bits (ca_perm e))"

definition control_masked :: "control_acl_entry list \<Rightarrow> u32 \<Rightarrow> u32" where
  "control_masked entries mode = mode AND (case control_find entries ''mask'' None of Some m \<Rightarrow> m | None \<Rightarrow> 7)"

definition control_acl_access_mode :: "control_acl_entry list \<Rightarrow> u32 \<Rightarrow> u32 \<Rightarrow> u32 \<Rightarrow> u32 list \<Rightarrow> u32 option" where
  "control_acl_access_mode entries owner_uid owner_gid uid groups =
     (if uid = owner_uid then control_find entries ''user_obj'' None
      else case control_find entries ''user'' (Some uid) of
        Some mode \<Rightarrow> Some (control_masked entries mode)
      | None \<Rightarrow>
          let start = (if owner_gid \<in> set groups then control_find entries ''group_obj'' None else None);
              matched = fold (\<lambda>gid matched. case control_find entries ''group'' (Some gid) of
                  Some mode \<Rightarrow> Some ((case matched of Some m \<Rightarrow> m | None \<Rightarrow> 0) OR mode) | None \<Rightarrow> matched) groups start
          in case matched of Some m \<Rightarrow> Some (control_masked entries m) | None \<Rightarrow> control_find entries ''other'' None)"

fun control_groups :: "control_acl_entry list \<Rightarrow> u32 list \<Rightarrow> u32 \<Rightarrow> bool \<Rightarrow> bool option \<times> bool" where
  "control_groups entries [] requested matched_group = (None, matched_group)"
| "control_groups entries (gid # gids) requested matched_group =
     (case control_find entries ''group'' (Some gid) of
        Some mode \<Rightarrow> if control_masked entries mode AND requested = requested then (Some True, True)
                     else control_groups entries gids requested True
      | None \<Rightarrow> control_groups entries gids requested matched_group)"

definition control_acl_allows_access :: "control_acl_entry list \<Rightarrow> u32 \<Rightarrow> u32 \<Rightarrow> u32 \<Rightarrow> u32 list \<Rightarrow> u32 \<Rightarrow> bool option" where
  "control_acl_allows_access entries owner_uid owner_gid uid groups requested =
     (if uid = owner_uid then map_option (\<lambda>mode. mode AND requested = requested) (control_find entries ''user_obj'' None)
      else case control_find entries ''user'' (Some uid) of
        Some mode \<Rightarrow> Some (control_masked entries mode AND requested = requested)
      | None \<Rightarrow>
          if owner_gid \<in> set groups
             \<and> control_masked entries (case control_find entries ''group_obj'' None of Some m \<Rightarrow> m | None \<Rightarrow> 0) AND requested = requested
          then Some True
          else case control_groups entries groups requested (owner_gid \<in> set groups) of
                 (Some r, _) \<Rightarrow> Some r
               | (None, matched_group) \<Rightarrow>
                   if matched_group then Some False
                   else map_option (\<lambda>mode. mode AND requested = requested) (control_find entries ''other'' None))"

section \<open>Well-formed lists\<close>

definition entry_ok :: "pacl_entry \<Rightarrow> bool" where
  "entry_ok e \<longleftrightarrow> pe_tag e \<in> {1, 2, 4, 8, 16, 32} \<and> pe_permissions e \<le> 7 \<and> (pe_tag e \<in> {2, 8} \<longleftrightarrow> pe_id e \<noteq> UNDEFINED_ID)"

definition entry_less :: "pacl_entry \<Rightarrow> pacl_entry \<Rightarrow> bool" where
  "entry_less a b \<longleftrightarrow> pe_tag a < pe_tag b \<or> pe_tag a = pe_tag b \<and> pe_id a < pe_id b"

text \<open>
  The lists the format admits: entries in strictly ascending order of tag and identity, so the singleton tags occur at
  most once, the three base entries present, and a mask whenever there is a named entry.
\<close>

definition acl_ok :: "posix_acl \<Rightarrow> bool" where
  "acl_ok es \<longleftrightarrow> length es \<le> 8191 \<and> list_all entry_ok es \<and> sorted_wrt entry_less es \<and> {1, 4, 32} \<subseteq> pe_tag ` set es
     \<and> (pe_tag ` set es \<inter> {2, 8} = {} \<or> 16 \<in> pe_tag ` set es)"

definition advance :: "pacl_entry \<Rightarrow> acl_scan \<Rightarrow> acl_scan" where
  "advance e s = \<lparr>sc_last_tag = pe_tag e, sc_last_id = Some (pe_id e), sc_named = (sc_named s \<or> pe_tag e \<in> {2, 8}),
     sc_mask = (sc_mask s \<or> pe_tag e = 16), sc_user_obj = (sc_user_obj s \<or> pe_tag e = 1), sc_group_obj = (sc_group_obj s \<or> pe_tag e = 4),
     sc_other = (sc_other s \<or> pe_tag e = 32)\<rparr>"

definition after :: "acl_scan \<Rightarrow> pacl_entry \<Rightarrow> bool" where
  "after s e \<longleftrightarrow> sc_last_tag s < pe_tag e \<or> sc_last_tag s = pe_tag e \<and> pe_tag e \<in> {2, 8} \<and> (case sc_last_id s of Some i \<Rightarrow> i < pe_id e | None \<Rightarrow> True)"

lemma scan_entry_iff: "scan_entry s e = Inr s' \<longleftrightarrow> entry_ok e \<and> after s e \<and> s' = advance e s"
  by (cases s; cases "sc_last_id s") (auto simp: scan_entry_def entry_ok_def after_def advance_def not_less not_le order.order_iff_strict)

fun chain :: "acl_scan \<Rightarrow> posix_acl \<Rightarrow> bool" where
  "chain s [] \<longleftrightarrow> True"
| "chain s (e # es) \<longleftrightarrow> entry_ok e \<and> after s e \<and> chain (advance e s) es"

lemma unat_16: "unat (w :: u16) mod 65536 = unat w"
  using unsigned_less [of w, where 'a = nat] by simp

lemma unat_32: "unat (w :: u32) mod 4294967296 = unat w"
  using unsigned_less [of w, where 'a = nat] by simp

lemma raw_entry_bytes [simp]: "raw_entry (entry_bytes e) = e" "length (entry_bytes e) = 8"
  by (simp_all add: raw_entry_def entry_bytes_def unat_16 unat_32)

lemma bytes_raw_entry:
  assumes "length raw = 8"
  shows "entry_bytes (raw_entry raw) = raw"
proof -
  have "from_le_bytes (take 2 raw) < 65536" "from_le_bytes (take 2 (drop 2 raw)) < 65536" "from_le_bytes (drop 4 raw) < 4294967296"
    using from_le_bytes_less [of "take 2 raw"] from_le_bytes_less [of "take 2 (drop 2 raw)"] from_le_bytes_less [of "drop 4 raw"] assms by simp_all
  then have "entry_bytes (raw_entry raw) = take 2 raw @ take 2 (drop 2 raw) @ drop 4 raw"
    using assms by (simp add: raw_entry_def entry_bytes_def unsigned_of_nat take_bit_eq_mod)
  also have "\<dots> = raw" using append_take_drop_id [of 2 raw] append_take_drop_id [of 2 "drop 2 raw"] by simp
  finally show ?thesis .
qed

lemma scan_entries_iff:
  "length b = 8 * n \<Longrightarrow> scan_entries s n b = Inr (es, s') \<longleftrightarrow> b = concat (map entry_bytes es) \<and> length es = n \<and> chain s es \<and> s' = fold advance es s"
proof (induction n arbitrary: b s es s')
  case 0
  then show ?case by auto
next
  case (Suc n)
  let ?e = "raw_entry (take 8 b)"
  have t: "entry_bytes ?e = take 8 b" "length (drop 8 b) = 8 * n" using Suc.prems by (simp_all add: bytes_raw_entry)
  have "scan_entries s (Suc n) b = Inr (es, s') \<longleftrightarrow> (\<exists>es'. es = ?e # es' \<and> entry_ok ?e \<and> after s ?e
     \<and> scan_entries (advance ?e s) n (drop 8 b) = Inr (es', s'))"
    by (auto simp: Let_def result_simps scan_entry_iff)
  also have "\<dots> \<longleftrightarrow> b = concat (map entry_bytes es) \<and> length es = Suc n \<and> chain s es \<and> s' = fold advance es s"
  proof (cases es)
    case (Cons e es')
    have "b = entry_bytes e @ concat (map entry_bytes es') \<longleftrightarrow> e = ?e \<and> drop 8 b = concat (map entry_bytes es')"
      using t(1) append_take_drop_id [of 8 b] raw_entry_bytes [of e] by (metis append_eq_conv_conj)
    then show ?thesis using Suc.IH [OF t(2)] Cons by auto
  qed simp
  finally show ?case .
qed

lemma entry_less_transp: "transp entry_less"
  by (auto simp: transp_def entry_less_def)

lemma chain_after_entry:
  assumes "entry_ok e0" and "sc_last_tag s = pe_tag e0" and "sc_last_id s = Some (pe_id e0)"
  shows "chain s es \<longleftrightarrow> list_all entry_ok es \<and> sorted_wrt entry_less (e0 # es)"
  using assms
proof (induction es arbitrary: s e0)
  case (Cons e es)
  have "entry_ok e \<Longrightarrow> after s e \<longleftrightarrow> entry_less e0 e" using Cons.prems by (auto simp: after_def entry_less_def entry_ok_def)
  moreover have "entry_ok e \<Longrightarrow> chain (advance e s) es \<longleftrightarrow> list_all entry_ok es \<and> sorted_wrt entry_less (e # es)"
    by (rule Cons.IH) (simp_all add: advance_def)
  ultimately show ?case using sorted_wrt2 [OF entry_less_transp, of e0 e es] by auto
qed simp

lemma chain_new: "chain acl_scan_new es \<longleftrightarrow> list_all entry_ok es \<and> sorted_wrt entry_less es"
proof (cases es)
  case (Cons e es')
  have "entry_ok e \<Longrightarrow> after acl_scan_new e" by (auto simp: after_def acl_scan_new_def entry_ok_def)
  then show ?thesis
    using Cons chain_after_entry [of e "advance e acl_scan_new" es'] by (auto simp: advance_def)
qed simp

lemma fold_advance:
  "sc_named (fold advance es s) \<longleftrightarrow> sc_named s \<or> pe_tag ` set es \<inter> {2, 8} \<noteq> {}"
  "sc_mask (fold advance es s) \<longleftrightarrow> sc_mask s \<or> 16 \<in> pe_tag ` set es"
  "sc_user_obj (fold advance es s) \<longleftrightarrow> sc_user_obj s \<or> 1 \<in> pe_tag ` set es"
  "sc_group_obj (fold advance es s) \<longleftrightarrow> sc_group_obj s \<or> 4 \<in> pe_tag ` set es"
  "sc_other (fold advance es s) \<longleftrightarrow> sc_other s \<or> 32 \<in> pe_tag ` set es"
  by (induction es arbitrary: s) (auto simp: advance_def)

lemma length_entry_bytes: "length (concat (map entry_bytes es)) = 8 * length es"
  by (induction es) auto

lemma three_tags: "{1, 4, 32} \<subseteq> pe_tag ` set es \<Longrightarrow> 3 \<le> length es"
  using card_mono [of "pe_tag ` set es" "{1, 4, 32}"] card_image_le [of "set es" pe_tag] card_length [of es] by simp

text \<open>
  C20. The extended-attribute codec of access control lists is a bijection: a byte string decodes to a list exactly when
  the list is well formed and the string is its encoding. Every list with a missing, duplicate, unordered, unknown or
  unmasked entry is refused, and no list has two encodings.
\<close>

theorem acl_codec: "acl_decode b = Inr es \<longleftrightarrow> acl_ok es \<and> b = acl_encode es"
proof
  assume d: "acl_decode b = Inr es"
  then have len: "28 \<le> length b" "length b \<le> 65536" "(length b - 4) mod 8 = 0" "take 4 b = to_le_bytes 4 2"
    by (auto simp: acl_decode_def MAX_BYTES_def split: if_splits)
  let ?n = "(length b - 4) div 8"
  have n: "length (drop 4 b) = 8 * ?n" using len(3) by auto
  from d len obtain s where "scan_entries acl_scan_new ?n (drop 4 b) = Inr (es, s)"
    and s: "sc_user_obj s" "sc_group_obj s" "sc_other s" "\<not> sc_named s \<or> sc_mask s"
    by (auto simp: acl_decode_def MAX_BYTES_def result_simps split: if_splits)
  then have e: "drop 4 b = concat (map entry_bytes es)" "length es = ?n" "chain acl_scan_new es" "s = fold advance es acl_scan_new"
    using scan_entries_iff [OF n] by blast+
  have "acl_ok es" using e(2,4) e(3) [unfolded chain_new] s len(2) by (auto simp: acl_ok_def fold_advance acl_scan_new_def)
  moreover have "b = acl_encode es" using append_take_drop_id [of 4 b] e(1) len(4) by (simp add: acl_encode_def)
  ultimately show "acl_ok es \<and> b = acl_encode es" ..
next
  assume a: "acl_ok es \<and> b = acl_encode es"
  let ?b = "concat (map entry_bytes es)"
  have b: "length b = 4 + 8 * length es" "take 4 b = to_le_bytes 4 2" "drop 4 b = ?b" using a by (simp_all add: acl_encode_def length_entry_bytes)
  have l: "3 \<le> length es" "length es \<le> 8191" using a three_tags by (auto simp: acl_ok_def)
  have "scan_entries acl_scan_new (length es) ?b = Inr (es, fold advance es acl_scan_new)"
    using scan_entries_iff [of ?b "length es" acl_scan_new es] a by (simp add: length_entry_bytes chain_new acl_ok_def)
  then show "acl_decode b = Inr es" using a b l by (auto simp: acl_decode_def MAX_BYTES_def fold_advance acl_scan_new_def acl_ok_def)
qed

section \<open>Mode bits\<close>

lemma and_seven: "x AND 7 = take_bit 3 (x :: u32)" "y AND 7 = take_bit 3 (y :: u16)"
  by (simp_all add: take_bit_eq_mask mask_eq_exp_minus_1)

lemma small_bit: "x \<le> (7 :: u32) \<Longrightarrow> 3 \<le> n \<Longrightarrow> \<not> bit x n"
proof -
  assume x: "x \<le> 7" and n: "3 \<le> n"
  have "unat x < 2 ^ 3" using x by (simp add: word_le_nat_alt)
  also have "\<dots> \<le> 2 ^ n" using n by (rule power_increasing) simp
  finally have "\<not> bit (unat x) n" by (simp add: bit_iff_odd)
  then show "\<not> bit x n" by (simp add: bit_unsigned_iff)
qed

lemma three_classes:
  assumes "x \<le> (7 :: u32)" and "y \<le> 7" and "z \<le> 7"
  shows "drop_bit 6 (push_bit 6 x OR push_bit 3 y OR z) AND 7 = x"
    and "drop_bit 3 (push_bit 6 x OR push_bit 3 y OR z) AND 7 = y"
    and "(push_bit 6 x OR push_bit 3 y OR z) AND 7 = z"
proof -
  note small = small_bit [OF assms(1)] small_bit [OF assms(2)] small_bit [OF assms(3)]
  show "drop_bit 6 (push_bit 6 x OR push_bit 3 y OR z) AND 7 = x"
  proof (rule bit_word_eqI)
    fix n assume "n < LENGTH(32)"
    then show "bit (drop_bit 6 (push_bit 6 x OR push_bit 3 y OR z) AND 7) n = bit x n"
      using small by (cases "n < 3") (simp_all add: and_seven bit_simps)
  qed
  show "drop_bit 3 (push_bit 6 x OR push_bit 3 y OR z) AND 7 = y"
  proof (rule bit_word_eqI)
    fix n assume "n < LENGTH(32)"
    then show "bit (drop_bit 3 (push_bit 6 x OR push_bit 3 y OR z) AND 7) n = bit y n"
      using small by (cases "n < 3") (simp_all add: and_seven bit_simps)
  qed
  show "(push_bit 6 x OR push_bit 3 y OR z) AND 7 = z"
  proof (rule bit_word_eqI)
    fix n assume "n < LENGTH(32)"
    then show "bit ((push_bit 6 x OR push_bit 3 y OR z) AND 7) n = bit z n"
      using small by (cases "n < 3") (simp_all add: and_seven bit_simps)
  qed
qed

lemma permission_le: "list_all entry_ok es \<Longrightarrow> acl_permission es t \<le> 7"
proof -
  have "ucast p \<le> (7 :: u32)" if "p \<le> 7" for p :: u16
    using that by (simp add: word_le_nat_alt unsigned_ucast_eq take_bit_nat_less_eq_self [THEN order_trans])
  then show "list_all entry_ok es \<Longrightarrow> acl_permission es t \<le> 7"
    by (auto simp: acl_permission_def list_all_iff entry_ok_def find_Some_iff split: option.split)
qed

lemma group_mode_zero: "x AND 0x38 = 0 \<longleftrightarrow> drop_bit 3 x AND 7 = (0 :: u32)"
proof -
  have m: "0x38 = (push_bit 3 (mask 3) :: u32)" by (simp add: mask_eq_exp_minus_1 push_bit_eq_mult)
  have *: "x AND 0x38 = push_bit 3 (drop_bit 3 x AND 7)" unfolding m
    by (rule bit_word_eqI) (auto simp: bit_simps and_seven)
  have "drop_bit 3 (push_bit 3 (drop_bit 3 x AND 7)) = drop_bit 3 x AND 7"
    by (rule bit_word_eqI) (auto simp: bit_simps and_seven)
  then show ?thesis unfolding * by (metis drop_bit_0 drop_bit_of_0 push_bit_of_0)
qed

lemma mode_bits_classes:
  assumes "acl_ok es"
  shows "drop_bit 6 (mode_bits es) AND 7 = acl_permission es 1"
    and "drop_bit 3 (mode_bits es) AND 7 = acl_permission es (if list_ex (\<lambda>e. pe_tag e = 16) es then 16 else 4)"
    and "mode_bits es AND 7 = acl_permission es 32"
  using three_classes [OF permission_le permission_le permission_le, of es es es 1 "if list_ex (\<lambda>e. pe_tag e = 16) es then 16 else 4" 32] assms
  by (auto simp: mode_bits_def acl_ok_def Let_def split: if_splits)

section \<open>The access decision\<close>

lemma entry_unique:
  assumes "sorted_wrt entry_less es" and "e \<in> set es" and "e' \<in> set es" and "pe_tag e = pe_tag e'" and "pe_id e = pe_id e'"
  shows "e = e'"
proof (rule ccontr)
  assume "e \<noteq> e'"
  from assms(2,3) obtain i k where "i < length es" "es ! i = e" "k < length es" "es ! k = e'" unfolding in_set_conv_nth by blast
  with assms(1) \<open>e \<noteq> e'\<close> have "entry_less e e' \<or> entry_less e' e" unfolding sorted_wrt_iff_nth_less by (metis nat_neq_iff)
  then show False using assms(4,5) by (simp add: entry_less_def)
qed

lemma acl_entry_ok: "acl_ok es \<Longrightarrow> e \<in> set es \<Longrightarrow> entry_ok e"
  by (simp add: acl_ok_def list_all_iff)

lemma find_singleton:
  assumes "acl_ok es" and "e \<in> set es" and "pe_tag e \<notin> {2, 8}"
  shows "find (\<lambda>x. pe_tag x = pe_tag e) es = Some e"
proof -
  have "find (\<lambda>x. pe_tag x = pe_tag e) es \<noteq> None" unfolding find_None_iff using assms(2) by blast
  then obtain e' where e': "find (\<lambda>x. pe_tag x = pe_tag e) es = Some e'" by blast
  then have m: "e' \<in> set es" "pe_tag e' = pe_tag e" unfolding find_Some_iff by auto
  have "pe_id e' = pe_id e"
    using acl_entry_ok [OF assms(1) m(1)] acl_entry_ok [OF assms(1,2)] m(2) assms(3) unfolding entry_ok_def by metis
  moreover have "sorted_wrt entry_less es" using assms(1) by (simp add: acl_ok_def)
  ultimately show ?thesis using entry_unique [of es e' e] assms(2) m e' by simp
qed

definition group_class :: "u32 \<Rightarrow> u32 list \<Rightarrow> pacl_entry \<Rightarrow> bool" where
  "group_class owning_group groups e \<longleftrightarrow> pe_tag e = 4 \<and> owning_group \<in> set groups \<or> pe_tag e = 8 \<and> pe_id e \<in> set groups"

lemma group_loop_eq:
  "group_loop es og groups m requested matched =
    (if list_ex (\<lambda>e. group_class og groups e \<and> ucast (pe_permissions e) AND m AND requested = requested) es then (Some True, True)
     else (None, matched \<or> list_ex (group_class og groups) es))"
  by (induction es arbitrary: matched) (auto simp: group_class_def)

text \<open>The mask a reader of the mode sees: without a mask entry the only entry of the group class is the owning group's.\<close>

lemma masked_group_class:
  assumes ok: "acl_ok es" and e: "e \<in> set es" "pe_tag e \<in> {2, 4, 8}"
  shows "ucast (pe_permissions e) AND acl_mask es = ucast (pe_permissions e) AND (drop_bit 3 (mode_bits es) AND 7)"
proof (cases "list_ex (\<lambda>e. pe_tag e = 16) es")
  case True
  then obtain m where "m \<in> set es" "pe_tag m = 16" by (auto simp: list_ex_iff)
  then have "find (\<lambda>e. pe_tag e = 16) es = Some m" using find_singleton [OF ok, of m] by simp
  then show ?thesis using mode_bits_classes(2) [OF ok] True by (simp add: acl_mask_def acl_permission_def)
next
  case False
  then have "pe_tag e = 4" "find (\<lambda>e. pe_tag e = 16) es = None" using ok e by (auto simp: acl_ok_def list_ex_iff find_None_iff)
  then have "acl_mask es = 7" "acl_permission es 4 = ucast (pe_permissions e)"
    using find_singleton [OF ok e(1)] by (simp_all add: acl_mask_def acl_permission_def)
  moreover have "ucast (pe_permissions e) AND 7 = (ucast (pe_permissions e) :: u32)"
    using three_classes(3) [of 0 0 "acl_permission es 4"] permission_le [of es 4] ok \<open>acl_permission es 4 = _\<close> by (simp add: acl_ok_def)
  ultimately show ?thesis using mode_bits_classes(2) [OF ok] False by simp
qed

text \<open>
  C19. The access decision: the owner has the owner bits of the mode; without group bits in the mode the owning group has
  nothing and everybody else the other bits; otherwise a named user is judged by that entry alone, members of listed
  groups need one entry that grants the whole request, each cut down to the group bits of the mode, and only a caller
  whom no entry names falls back to the other bits.
\<close>

theorem allows_access_classes:
  assumes "acl_ok es"
  shows "allows_access es owner og uid groups requested \<longleftrightarrow>
    (let grants = (\<lambda>p. p AND requested = requested); grp = drop_bit 3 (mode_bits es) AND 7;
         named = filter (\<lambda>e. pe_tag e = 2 \<and> pe_id e = uid) es; cls = filter (group_class og groups) es
     in if uid = owner then grants (drop_bit 6 (mode_bits es) AND 7)
        else if grp = 0 then grants (if og \<in> set groups then 0 else mode_bits es AND 7)
        else if named \<noteq> [] then list_all (\<lambda>e. grants (ucast (pe_permissions e) AND grp)) named
        else if cls \<noteq> [] then list_ex (\<lambda>e. grants (ucast (pe_permissions e) AND grp)) cls
        else grants (mode_bits es AND 7))"
proof -
  let ?grp = "drop_bit 3 (mode_bits es) AND 7" and ?n = "\<lambda>e. pe_tag e = 2 \<and> pe_id e = uid"
  have z: "mode_bits es AND 0x38 = 0 \<longleftrightarrow> ?grp = 0" by (rule group_mode_zero)
  have m: "ucast (pe_permissions e) AND acl_mask es = ucast (pe_permissions e) AND ?grp" if "e \<in> set es" "pe_tag e \<in> {2, 4, 8}" for e
    by (rule masked_group_class [OF assms that])
  have "group_class og groups e \<and> ucast (pe_permissions e) AND acl_mask es AND requested = requested \<longleftrightarrow>
      group_class og groups e \<and> (ucast (pe_permissions e) AND ?grp) AND requested = requested" if "e \<in> set es" for e
  proof (cases "group_class og groups e")
    case True
    then have "pe_tag e \<in> {2, 4, 8}" by (auto simp: group_class_def)
    then have "ucast (pe_permissions e) AND acl_mask es = ucast (pe_permissions e) AND ?grp" by (rule m [OF that])
    then show ?thesis by (simp only: and.assoc [symmetric])
  qed simp
  then have cls: "list_ex (\<lambda>e. group_class og groups e \<and> ucast (pe_permissions e) AND acl_mask es AND requested = requested) es
      \<longleftrightarrow> list_ex (\<lambda>e. (ucast (pe_permissions e) AND ?grp) AND requested = requested) (filter (group_class og groups) es)"
    by (simp only: list_ex_iff set_filter mem_Collect_eq) blast
  note classes = mode_bits_classes(1,3) [OF assms]
  consider (1) "uid = owner" | (2) "uid \<noteq> owner" "?grp = 0" | (3) "uid \<noteq> owner" "?grp \<noteq> 0" "find ?n es = None"
    | (4) e where "uid \<noteq> owner" "?grp \<noteq> 0" "find ?n es = Some e" by (metis (no_types) not_Some_eq)
  then show ?thesis
  proof cases
    case 1
    then show ?thesis by (simp only: allows_access_def user_access_mode_def Let_def classes if_True option.case simp_thms)
  next
    case 2
    then show ?thesis by (simp only: allows_access_def user_access_mode_def Let_def classes z if_True if_False option.case simp_thms)
  next
    case 3
    then have "filter ?n es = []" by (simp add: find_None_iff filter_empty_conv)
    moreover have "user_access_mode es owner uid = None" using 3 by (simp only: user_access_mode_def z if_False option.map)
    moreover have "group_loop es og groups (acl_mask es) requested False =
        (if list_ex (\<lambda>e. (ucast (pe_permissions e) AND ?grp) AND requested = requested) (filter (group_class og groups) es)
         then (Some True, True) else (None, filter (group_class og groups) es \<noteq> []))"
      unfolding group_loop_eq cls by (auto simp: list_ex_iff filter_empty_conv)
    moreover have "list_ex P (filter C es) \<Longrightarrow> filter C es \<noteq> []" for P C by auto
    ultimately show ?thesis using 3(1,2)
      by (cases "list_ex (\<lambda>e. (ucast (pe_permissions e) AND ?grp) AND requested = requested) (filter (group_class og groups) es)")
        ((simp_all only: allows_access_def Let_def classes z if_False if_True option.case prod.case simp_thms split: if_split), blast)
  next
    case 4
    then have e: "e \<in> set es" "?n e" by (auto simp: find_Some_iff)
    then have "x = e" if "x \<in> set (filter ?n es)" for x using that entry_unique [of es x e] assms by (auto simp: acl_ok_def)
    moreover have "e \<in> set (filter ?n es)" using e by simp
    ultimately have "set (filter ?n es) = {e}" by blast
    then have "list_all P (filter ?n es) \<longleftrightarrow> P e" for P by (simp only: list_all_iff ball_simps simp_thms)
    moreover have "filter ?n es \<noteq> []" using e by (auto simp: filter_empty_conv)
    moreover have "user_access_mode es owner uid = Some (ucast (pe_permissions e) AND ?grp)"
      using 4 m [OF e(1)] e(2) by (simp only: user_access_mode_def z if_False option.map) simp
    ultimately show ?thesis using 4(1,2) by (simp only: allows_access_def Let_def option.case if_False if_True simp_thms)
  qed
qed

definition extended_acl :: posix_acl where
  "extended_acl = [\<lparr>pe_tag = 1, pe_permissions = 6, pe_id = UNDEFINED_ID\<rparr>, \<lparr>pe_tag = 2, pe_permissions = 0, pe_id = 1234\<rparr>,
     \<lparr>pe_tag = 4, pe_permissions = 0, pe_id = UNDEFINED_ID\<rparr>, \<lparr>pe_tag = 8, pe_permissions = 4, pe_id = 3000\<rparr>,
     \<lparr>pe_tag = 8, pe_permissions = 2, pe_id = 4000\<rparr>, \<lparr>pe_tag = 16, pe_permissions = 6, pe_id = UNDEFINED_ID\<rparr>,
     \<lparr>pe_tag = 32, pe_permissions = 7, pe_id = UNDEFINED_ID\<rparr>]"

lemma extended_acl_ok: "acl_ok extended_acl" "mode_bits extended_acl = 439"
  by code_simp+

theorem allows_access_classes_witness:
  "acl_ok extended_acl \<and> \<not> allows_access extended_acl 1000 2000 1234 [3000] 4 \<and> allows_access extended_acl 1000 2000 9000 [3000, 4000] 4
   \<and> \<not> allows_access extended_acl 1000 2000 9000 [3000, 4000] 6 \<and> allows_access extended_acl 1000 2000 9000 [5000] 6"
  by (simp only: extended_acl_ok allows_access_classes [OF extended_acl_ok(1)]) code_simp

section \<open>Chmod and inheritance\<close>

text \<open>Both operations change permission bits of the base entries and the mask only.\<close>

lemma retagged_acl_ok:
  assumes "acl_ok es" and "\<And>e. e \<in> set es \<Longrightarrow> pe_tag (f e) = pe_tag e \<and> pe_id (f e) = pe_id e \<and> pe_permissions (f e) \<le> 7"
  shows "acl_ok (map f es)"
proof -
  have "list_all entry_ok (map f es)" using assms acl_entry_ok [OF assms(1)] by (simp add: list_all_iff entry_ok_def)
  moreover have "sorted_wrt entry_less (map f es)"
    using assms sorted_wrt_mono_rel [of es entry_less "\<lambda>a b. entry_less (f a) (f b)"] by (simp add: sorted_wrt_map acl_ok_def entry_less_def)
  moreover have "pe_tag ` set (map f es) = pe_tag ` set es" using assms(2) by (simp add: image_image)
  ultimately show ?thesis using assms(1) by (simp only: acl_ok_def length_map)
qed

lemma find_map_tag: "(\<And>e. pe_tag (f e) = pe_tag e) \<Longrightarrow> find (\<lambda>e. pe_tag e = t) (map f es) = map_option f (find (\<lambda>e. pe_tag e = t) es)"
  by (induction es) simp_all

lemma join_classes: "push_bit 6 (drop_bit 6 m AND 7) OR push_bit 3 (drop_bit 3 m AND 7) OR (m AND 7) = m AND (0x1FF :: u32)"
proof -
  have nine: "0x1FF = (mask 9 :: u32)" by (simp add: mask_eq_exp_minus_1)
  show ?thesis unfolding nine
  proof (rule bit_word_eqI)
    fix n assume "n < LENGTH(32)"
    then show "bit (push_bit 6 (drop_bit 6 m AND 7) OR push_bit 3 (drop_bit 3 m AND 7) OR (m AND 7)) n = bit (m AND mask 9) n"
      by (cases "n < 3"; cases "n < 6") (auto simp: and_seven bit_simps)
  qed
qed

lemma meet_classes:
  assumes "x \<le> (7 :: u32)" and "y \<le> 7" and "z \<le> 7"
  shows "push_bit 6 (x AND (drop_bit 6 m AND 7)) OR push_bit 3 (y AND (drop_bit 3 m AND 7)) OR z AND (m AND 7) = (push_bit 6 x OR push_bit 3 y OR z) AND m"
proof (rule bit_word_eqI)
  note small = small_bit [OF assms(1)] small_bit [OF assms(2)] small_bit [OF assms(3)]
  fix n assume "n < LENGTH(32)"
  then show "bit (push_bit 6 (x AND (drop_bit 6 m AND 7)) OR push_bit 3 (y AND (drop_bit 3 m AND 7)) OR z AND (m AND 7)) n
      = bit ((push_bit 6 x OR push_bit 3 y OR z) AND m) n"
    using small by (cases "n < 3"; cases "n < 6"; cases "n < 9") (auto simp: and_seven bit_simps)
qed

lemma through_u16: "ucast (ucast (x AND 7 :: u32) :: u16) = x AND (7 :: u32)"
  by (rule bit_word_eqI) (auto simp: and_seven bit_simps)

lemma and_u16: "ucast (p AND ucast (x AND 7 :: u32) :: u16) = ucast p AND (x AND (7 :: u32))"
  by (rule bit_word_eqI) (auto simp: and_seven bit_simps)

lemma and_seven_le: "(x AND 7 :: u16) \<le> 7"
  using take_bit_nat_less_exp [of 3 "unat x"] by (simp add: and_seven word_le_nat_alt unsigned_take_bit_eq)

lemma class_bits_le:
  assumes "class_bits hm t m = Some p"
  shows "(q AND ucast p :: u16) \<le> 7" and "(ucast p :: u16) \<le> 7"
proof -
  have "q AND ucast (x AND 7 :: u32) = (q AND ucast x) AND (7 :: u16)" for q x by (rule bit_word_eqI) (auto simp: and_seven bit_simps)
  then have *: "(q AND ucast (x AND 7 :: u32) :: u16) \<le> 7" for q x by (simp only: and_seven_le)
  then show "(q AND ucast p :: u16) \<le> 7" for q using assms by (auto simp: class_bits_def split: if_splits)
  from this [of "- 1"] show "(ucast p :: u16) \<le> 7" by simp
qed

lemma list_ex_map_tag: "(\<And>e. pe_tag (f e) = pe_tag e) \<Longrightarrow> list_ex (\<lambda>e. pe_tag e = t) (map f es) \<longleftrightarrow> list_ex (\<lambda>e. pe_tag e = t) es"
  by (induction es) auto

text \<open>The classes of a list whose class entries were changed by \<open>g\<close>.\<close>

lemma changed_mode_bits:
  assumes ok: "acl_ok es" and f: "\<And>e. pe_tag (f e) = pe_tag e"
    and g: "\<And>e p. class_bits (list_ex (\<lambda>e. pe_tag e = 16) es) (pe_tag e) mode = Some p \<Longrightarrow> ucast (pe_permissions (f e)) = g (ucast (pe_permissions e) :: u32) p"
  shows "mode_bits (map f es) = push_bit 6 (g (drop_bit 6 (mode_bits es) AND 7) (drop_bit 6 mode AND 7)) OR
    push_bit 3 (g (drop_bit 3 (mode_bits es) AND 7) (drop_bit 3 mode AND 7)) OR g (mode_bits es AND 7) (mode AND 7)"
proof -
  let ?hm = "list_ex (\<lambda>e. pe_tag e = 16) es"
  have perm: "acl_permission (map f es) t = g (acl_permission es t) p" if t: "t \<in> pe_tag ` set es" and p: "class_bits ?hm t mode = Some p" for t p
  proof -
    from t have "find (\<lambda>e. pe_tag e = t) es \<noteq> None" unfolding find_None_iff by blast
    then obtain e where e: "find (\<lambda>e. pe_tag e = t) es = Some e" by blast
    then have "pe_tag e = t" unfolding find_Some_iff by blast
    then show ?thesis using e g [of e p] p by (simp add: acl_permission_def find_map_tag [OF f])
  qed
  have tags: "1 \<in> pe_tag ` set es" "4 \<in> pe_tag ` set es" "32 \<in> pe_tag ` set es" using ok unfolding acl_ok_def by blast+
  have hm: "?hm \<Longrightarrow> 16 \<in> pe_tag ` set es" by (auto simp: list_ex_iff)
  have "acl_permission (map f es) (if ?hm then 16 else 4) = g (acl_permission es (if ?hm then 16 else 4)) (drop_bit 3 mode AND 7)"
    using perm [of 16] perm [of 4] tags(2) hm by (simp add: class_bits_def)
  then show ?thesis
    using perm [OF tags(1)] perm [OF tags(3)] mode_bits_classes [OF ok]
    by (simp add: mode_bits_def [of "map f es"] Let_def list_ex_map_tag [OF f] class_bits_def split: if_splits)
qed

lemma mode_bits_join:
  assumes "acl_ok es"
  shows "mode_bits es = push_bit 6 (drop_bit 6 (mode_bits es) AND 7) OR push_bit 3 (drop_bit 3 (mode_bits es) AND 7) OR (mode_bits es AND 7)"
  unfolding mode_bits_classes [OF assms] by (simp add: mode_bits_def Let_def)

text \<open>
  C34. A chmod and the creation of a child from a default list keep the list well formed and leave the named users and
  groups untouched. After a chmod the nine mode bits are those of the new mode; an inherited list has exactly the mode
  bits that both the parent's default list and the requested mode have.
\<close>

theorem acl_mode_changes:
  assumes "acl_ok es"
  shows "acl_ok (acl_chmod es m) \<and> mode_bits (acl_chmod es m) = m AND 0x1FF
    \<and> acl_ok (inherited_access es m) \<and> mode_bits (inherited_access es m) = mode_bits es AND m
    \<and> filter (\<lambda>e. pe_tag e \<in> {2, 8}) (acl_chmod es m) = filter (\<lambda>e. pe_tag e \<in> {2, 8}) es
    \<and> filter (\<lambda>e. pe_tag e \<in> {2, 8}) (inherited_access es m) = filter (\<lambda>e. pe_tag e \<in> {2, 8}) es"
proof -
  let ?c = "\<lambda>e. class_bits (list_ex (\<lambda>e. pe_tag e = 16) es) (pe_tag e) m"
  let ?f = "\<lambda>e. case ?c e of Some p \<Rightarrow> e\<lparr>pe_permissions := ucast p\<rparr> | None \<Rightarrow> e"
  let ?h = "\<lambda>e. case ?c e of Some p \<Rightarrow> e\<lparr>pe_permissions := pe_permissions e AND ucast p\<rparr> | None \<Rightarrow> e"
  have eq: "acl_chmod es m = map ?f es" "inherited_access es m = map ?h es" by (simp_all add: acl_chmod_def inherited_access_def Let_def)
  have tag: "pe_tag (?f e) = pe_tag e" "pe_tag (?h e) = pe_tag e" for e by (simp_all split: option.split)
  have small: "pe_permissions e \<le> 7" if "e \<in> set es" for e using acl_entry_ok [OF assms that] by (simp add: entry_ok_def)
  have okf: "acl_ok (map ?f es)" by (rule retagged_acl_ok [OF assms]) (simp add: small class_bits_le split: option.split)
  have okh: "acl_ok (map ?h es)" by (rule retagged_acl_ok [OF assms]) (simp add: small class_bits_le split: option.split)
  have p7: "?c e = Some p \<Longrightarrow> \<exists>x. p = x AND 7" for e p by (auto simp: class_bits_def split: if_splits)
  have gf: "ucast (pe_permissions (?f e)) = p" and gh: "ucast (pe_permissions (?h e)) = ucast (pe_permissions e) AND p" if "?c e = Some p" for e p
    using p7 [OF that] that through_u16 and_u16 by auto
  have mf: "mode_bits (map ?f es) = m AND 0x1FF"
    using changed_mode_bits [where f = ?f and g = "\<lambda>_ p. p" and mode = m, OF assms tag(1) gf] join_classes [of m] by simp
  have le: "drop_bit 6 (mode_bits es) AND 7 \<le> 7" "drop_bit 3 (mode_bits es) AND 7 \<le> 7" "mode_bits es AND 7 \<le> 7"
    unfolding mode_bits_classes [OF assms] using permission_le assms by (auto simp: acl_ok_def)
  have mh: "mode_bits (map ?h es) = mode_bits es AND m"
    using changed_mode_bits [where f = ?h and g = "(AND)" and mode = m, OF assms tag(2) gh] meet_classes [OF le, of m] mode_bits_join [OF assms] by simp
  have n: "?c e = None" if "pe_tag e \<in> {2, 8}" for e using that by (auto simp: class_bits_def)
  have "filter (\<lambda>e. pe_tag e \<in> {2, 8}) (map ?f xs) = filter (\<lambda>e. pe_tag e \<in> {2, 8}) xs" for xs by (induction xs) (auto simp: n tag)
  moreover have "filter (\<lambda>e. pe_tag e \<in> {2, 8}) (map ?h xs) = filter (\<lambda>e. pe_tag e \<in> {2, 8}) xs" for xs by (induction xs) (auto simp: n tag)
  ultimately show ?thesis unfolding eq using okf okh mf mh by blast
qed

theorem acl_mode_changes_witness:
  "acl_ok (acl_chmod extended_acl 488) \<and> mode_bits (acl_chmod extended_acl 488) = 488 \<and> mode_bits (inherited_access extended_acl 416) = 416"
  using acl_mode_changes [OF extended_acl_ok(1), of 488] acl_mode_changes [OF extended_acl_ok(1), of 416] by (simp add: extended_acl_ok)

section \<open>The two control decisions\<close>

lemma one_bit: "k < 32 \<Longrightarrow> x AND 2 ^ k = (2 ^ k :: u32) \<longleftrightarrow> bit x k"
proof
  assume k: "k < 32" and "x AND 2 ^ k = 2 ^ k"
  then have "bit (x AND 2 ^ k) k = bit ((2 ^ k :: u32)) k" by simp
  then show "bit x k" using k by (simp add: bit_simps)
next
  assume "bit x k"
  then show "x AND 2 ^ k = (2 ^ k :: u32)" by (intro bit_word_eqI) (auto simp: bit_simps)
qed

lemma masked_bit: "bit (control_masked es m) k \<longleftrightarrow> bit m k \<and> bit (case control_find es ''mask'' None of Some m \<Rightarrow> m | None \<Rightarrow> 7) k"
  by (simp add: control_masked_def bit_simps)

definition group_hit :: "control_acl_entry list \<Rightarrow> (u32 \<Rightarrow> bool) \<Rightarrow> u32 \<Rightarrow> bool" where
  "group_hit es P gid \<longleftrightarrow> (case control_find es ''group'' (Some gid) of Some m \<Rightarrow> P m | None \<Rightarrow> False)"

lemma control_groups_eq:
  "control_groups es gids r matched =
    (if list_ex (group_hit es (\<lambda>m. control_masked es m AND r = r)) gids then (Some True, True) else (None, matched \<or> list_ex (group_hit es (\<lambda>_. True)) gids))"
  by (induction gids arbitrary: matched) (auto simp: group_hit_def split: option.splits)

lemma fold_groups:
  "(case fold (\<lambda>gid matched. case control_find es ''group'' (Some gid) of
        Some mode \<Rightarrow> Some ((case matched of Some m \<Rightarrow> m | None \<Rightarrow> 0) OR mode) | None \<Rightarrow> matched) gids start of
      None \<Rightarrow> start = None \<and> \<not> list_ex (group_hit es (\<lambda>_. True)) gids
    | Some m \<Rightarrow> (start \<noteq> None \<or> list_ex (group_hit es (\<lambda>_. True)) gids)
        \<and> (bit m k \<longleftrightarrow> (case start of Some s \<Rightarrow> bit s k | None \<Rightarrow> False) \<or> list_ex (group_hit es (\<lambda>m. bit m k)) gids))"
proof (induction gids arbitrary: start)
  case Nil
  then show ?case by (auto split: option.split)
next
  case (Cons g gids)
  show ?case
  proof (cases "control_find es ''group'' (Some g)")
    case None
    then show ?thesis using Cons.IH [of start] by (auto simp: group_hit_def split: option.splits)
  next
    case (Some mode)
    then show ?thesis using Cons.IH [of "Some ((case start of Some m \<Rightarrow> m | None \<Rightarrow> 0) OR mode)"]
      by (auto simp: group_hit_def bit_simps split: option.splits)
  qed
qed

lemma control_acl_agree_group:
  assumes "k < 3" and "owner_gid \<notin> set groups \<or> control_find es ''group_obj'' None \<noteq> None"
  shows "control_acl_allows_access es owner_uid owner_gid uid groups (2 ^ k) =
    map_option (\<lambda>m. bit m k) (control_acl_access_mode es owner_uid owner_gid uid groups)"
proof -
  let ?start = "if owner_gid \<in> set groups then control_find es ''group_obj'' None else None"
  let ?mask = "bit (case control_find es ''mask'' None of Some m \<Rightarrow> m | None \<Rightarrow> 7) k"
  have b: "x AND 2 ^ k = (2 ^ k :: u32) \<longleftrightarrow> bit x k" for x using assms(1) by (intro one_bit) simp
  have hits: "list_ex (group_hit es (\<lambda>m. bit m k \<and> ?mask)) groups \<longleftrightarrow> list_ex (group_hit es (\<lambda>m. bit m k)) groups \<and> ?mask"
    by (auto simp: list_ex_iff group_hit_def split: option.splits)
  consider (1) "uid = owner_uid" | (2) m where "uid \<noteq> owner_uid" "control_find es ''user'' (Some uid) = Some m"
    | (3) "uid \<noteq> owner_uid" "control_find es ''user'' (Some uid) = None" by blast
  then show ?thesis
  proof cases
    case 3
    let ?T = "list_ex (group_hit es (\<lambda>_. True)) groups" and ?H = "list_ex (group_hit es (\<lambda>m. bit m k)) groups"
    have TH: "?H \<Longrightarrow> ?T" by (auto simp: list_ex_iff group_hit_def split: option.splits)
    have al: "control_acl_allows_access es owner_uid owner_gid uid groups (2 ^ k) =
        (if owner_gid \<in> set groups \<and> bit (case control_find es ''group_obj'' None of Some m \<Rightarrow> m | None \<Rightarrow> 0) k \<and> ?mask then Some True
         else if ?H \<and> ?mask then Some True else if owner_gid \<in> set groups \<or> ?T then Some False
         else map_option (\<lambda>m. bit m k) (control_find es ''other'' None))"
      unfolding control_acl_allows_access_def control_groups_eq b masked_bit hits using 3 by simp blast
    define M where "M = fold (\<lambda>gid matched. case control_find es ''group'' (Some gid) of
        Some mode \<Rightarrow> Some ((case matched of Some m \<Rightarrow> m | None \<Rightarrow> 0) OR mode) | None \<Rightarrow> matched) groups ?start"
    have ac: "control_acl_access_mode es owner_uid owner_gid uid groups =
        (case M of Some m \<Rightarrow> Some (control_masked es m) | None \<Rightarrow> control_find es ''other'' None)"
      unfolding control_acl_access_mode_def Let_def M_def using 3 by simp
    note M = fold_groups [where es = es and gids = groups and start = ?start and k = k, folded M_def]
    show ?thesis
    proof (cases M)
      case None
      then have "?start = None" "\<not> ?T" using M by simp_all
      then have "owner_gid \<notin> set groups" "\<not> ?H" using assms(2) TH by (auto split: if_splits)
      then show ?thesis unfolding al ac using None \<open>\<not> ?T\<close> by simp
    next
      case (Some m)
      then have "?start \<noteq> None \<or> ?T" "bit m k \<longleftrightarrow> (case ?start of Some s \<Rightarrow> bit s k | None \<Rightarrow> False) \<or> ?H" using M by simp_all
      then show ?thesis unfolding al ac using Some by (auto simp: masked_bit split: option.splits if_splits)
    qed
  qed (simp_all add: control_acl_allows_access_def control_acl_access_mode_def b)
qed

lemma valid_perm_bits: "valid_acl_perm perm \<Longrightarrow> control_acl_perm_bits perm \<noteq> None"
  by (auto simp: valid_acl_perm_def control_acl_perm_bits_def split: list.splits)

lemma validate_each_ok: "validate_each i es = Inr () \<Longrightarrow> e \<in> set es \<Longrightarrow> \<exists>k. validate_acl_entry e k = Inr ()"
  by (induction es arbitrary: i) (auto simp: result_simps)

lemma validated_group_obj:
  assumes "validate_acl_entries es = Inr ()" and "list_ex (\<lambda>e. ca_scope e = ''access'') es"
  shows "control_find es ''group_obj'' None \<noteq> None"
proof -
  have each: "validate_each 0 es = Inr ()" and s: "validate_acl_entry_set es = Inr ()"
    using assms(1) by (auto simp: validate_acl_entries_def result_simps)
  have valid: "valid_acl_perm (ca_perm e) \<and> (ca_tag e = ''group_obj'' \<longrightarrow> ca_id e = None)" if "e \<in> set es" for e
    using validate_each_ok [OF each that] by (auto simp: validate_acl_entry_def Let_def split: if_splits)
  let ?P = "\<lambda>e. ca_scope e = ''access'' \<and> ca_tag e = ''group_obj'' \<and> ca_id e = None"
  from s assms(2) obtain e where "e \<in> set es" "?P e"
    using valid by (auto simp: validate_acl_entry_set_def has_acl_entry_def list_ex_iff split: if_splits)
  then have "find ?P es \<noteq> None" unfolding find_None_iff by blast
  then obtain e' where e': "find ?P es = Some e'" by blast
  then have "e' \<in> set es" unfolding find_Some_iff by auto
  then show ?thesis using e' valid_perm_bits [of "ca_perm e'"] valid [of e'] by (simp add: control_find_def)
qed

lemma no_access_entries: "\<not> list_ex (\<lambda>e. ca_scope e = ''access'') es \<Longrightarrow> control_find es tag i = None"
proof -
  assume "\<not> list_ex (\<lambda>e. ca_scope e = ''access'') es"
  then have "find (\<lambda>e. ca_scope e = ''access'' \<and> ca_tag e = tag \<and> ca_id e = i) es = None" unfolding find_None_iff by (auto simp: list_ex_iff)
  then show ?thesis by (simp add: control_find_def)
qed

text \<open>
  C35. On a validated list with access entries the two evaluators agree on each of read, write and execute: the
  operation test answers what the aggregate mode says. On a validated list without access entries, one that only holds
  default entries, the aggregate mode leaves the decision to the mode bits, but the operation test refuses everything
  to members of the owning group.
\<close>

theorem control_acl_agree:
  assumes "validate_acl_entries es = Inr ()" and "k < 3"
  shows "if list_ex (\<lambda>e. ca_scope e = ''access'') es
    then control_acl_allows_access es owner_uid owner_gid uid groups (2 ^ k) =
      map_option (\<lambda>m. bit m k) (control_acl_access_mode es owner_uid owner_gid uid groups)
    else control_acl_access_mode es owner_uid owner_gid uid groups = None
      \<and> control_acl_allows_access es owner_uid owner_gid uid groups (2 ^ k) = (if uid \<noteq> owner_uid \<and> owner_gid \<in> set groups then Some False else None)"
proof (cases "list_ex (\<lambda>e. ca_scope e = ''access'') es")
  case True
  then show ?thesis using control_acl_agree_group [OF assms(2)] validated_group_obj [OF assms(1)] by simp
next
  case False
  note no = no_access_entries [OF False]
  have "\<not> list_ex (group_hit es P) groups" for P by (auto simp: list_ex_iff group_hit_def no)
  moreover have "fold (\<lambda>gid matched. matched) groups None = (None :: u32 option)" by (induction groups) simp_all
  ultimately show ?thesis using False assms(2)
    by (simp add: control_acl_allows_access_def control_acl_access_mode_def no control_groups_eq control_masked_def)
qed

definition default_only_acl :: "control_acl_entry list" where
  "default_only_acl = [\<lparr>ca_scope = ''default'', ca_tag = ''group_obj'', ca_id = None, ca_perm = ''rwx''\<rparr>]"

theorem control_acl_agree_witness:
  "validate_acl_entries default_only_acl = Inr () \<and> control_acl_access_mode default_only_acl 1000 2000 1234 [2000] = None
   \<and> control_acl_allows_access default_only_acl 1000 2000 1234 [2000] 4 = Some False"
proof -
  have "validate_acl_entries default_only_acl = Inr ()" by code_simp
  moreover have "\<not> list_ex (\<lambda>e. ca_scope e = ''access'') default_only_acl" by (simp add: default_only_acl_def)
  ultimately show ?thesis using control_acl_agree [of default_only_acl 2 1000 2000 1234 "[2000]"] by simp
qed

end
