(* ===== verification/HandleGate.thy ===== *)
theory HandleGate
  imports Prelude
begin

text \<open>
  The reader-writer gate of an open file (\<^verbatim>\<open>vfs/handles.rs\<close>): the state behind the mutex, the operations on it, and
  the interleavings of the tasks that lock, wait, are cancelled and unlock. The wake-up primitive is tokio's
  \<^verbatim>\<open>Notify\<close>, a parameter with its documented contract. Each critical section of the mutex is one step.
\<close>

section \<open>The gate\<close>

definition u32_top :: nat where "u32_top = 2 ^ 32 - 1"

record gate_state =
  gs_readers :: nat
  gs_writers_waiting :: nat
  gs_writing :: bool

definition gate_new :: gate_state where
  "gate_new = \<lparr>gs_readers = 0, gs_writers_waiting = 0, gs_writing = False\<rparr>"

text \<open>The guarded part of one round of \<^verbatim>\<open>read_lock\<close>: \<^const>\<open>None\<close> when the caller has to wait.\<close>

definition read_try :: "gate_state \<Rightarrow> gate_state option" where
  "read_try g = (if \<not> gs_writing g \<and> gs_writers_waiting g = 0 then Some (g\<lparr>gs_readers := min (gs_readers g + 1) u32_top\<rparr>) else None)"

definition write_try :: "gate_state \<Rightarrow> gate_state option" where
  "write_try g = (if gs_readers g = 0 \<and> \<not> gs_writing g
     then Some (g\<lparr>gs_writing := True, gs_writers_waiting := (gs_writers_waiting g + u32_top) mod 2 ^ 32\<rparr>) else None)"

definition waiter_new :: "gate_state \<Rightarrow> gate_state" where
  "waiter_new g = g\<lparr>gs_writers_waiting := min (gs_writers_waiting g + 1) u32_top\<rparr>"

text \<open>The unlocking operations; the flag tells whether the waiters are notified.\<close>

definition read_unlock :: "gate_state \<Rightarrow> gate_state \<times> bool" where
  "read_unlock g = (let g' = g\<lparr>gs_readers := gs_readers g - 1\<rparr> in (g', gs_readers g' = 0))"

definition write_unlock :: "gate_state \<Rightarrow> gate_state \<times> bool" where
  "write_unlock g = (g\<lparr>gs_writing := False\<rparr>, True)"

definition waiting_dec :: "gate_state \<Rightarrow> gate_state \<times> bool" where
  "waiting_dec g = (g\<lparr>gs_writers_waiting := gs_writers_waiting g - 1\<rparr>, True)"

section \<open>Notification\<close>

text \<open>
  \<^verbatim>\<open>tokio::sync::Notify\<close> as the gate uses it, with one future per task: enabling a future, dropping it, polling it and
  waking the waiters. The last field is the bookkeeping its contract speaks of: the futures that are enabled.
\<close>

record 'n notify_ops =
  nf_enable :: "nat \<Rightarrow> 'n \<Rightarrow> 'n"
  nf_drop :: "nat \<Rightarrow> 'n \<Rightarrow> 'n"
  nf_ready :: "nat \<Rightarrow> 'n \<Rightarrow> bool"
  nf_notify_waiters :: "'n \<Rightarrow> 'n"
  nf_enabled :: "nat \<Rightarrow> 'n \<Rightarrow> bool"

text \<open>
  The contract: an enabled future stays enabled until it is dropped, \<^verbatim>\<open>notify_waiters\<close> makes every enabled future
  ready, and a ready future stays ready until it is dropped or enabled anew. Spurious readiness is not excluded.
\<close>

definition notify_contract :: "'n notify_ops \<Rightarrow> bool" where
  "notify_contract nf \<longleftrightarrow>
     (\<forall>t n. nf_enabled nf t (nf_enable nf t n) \<and> (nf_enabled nf t n \<longrightarrow> nf_enabled nf t (nf_notify_waiters nf n) \<and> nf_ready nf t (nf_notify_waiters nf n))
        \<and> (nf_ready nf t n \<longrightarrow> nf_ready nf t (nf_notify_waiters nf n)))
     \<and> (\<forall>t u n. t \<noteq> u \<longrightarrow> (nf_enabled nf t n \<longrightarrow> nf_enabled nf t (nf_enable nf u n) \<and> nf_enabled nf t (nf_drop nf u n))
        \<and> (nf_ready nf t n \<longrightarrow> nf_ready nf t (nf_enable nf u n) \<and> nf_ready nf t (nf_drop nf u n)))"

section \<open>Tasks\<close>

text \<open>
  Where a task is: between calls, at the head of the loop of \<^verbatim>\<open>read_lock\<close>, before the check of a round with its
  future enabled, waiting for the future, holding the guard; and the same for a writer, whose waiter is registered
  before the loop.
\<close>

datatype task = Idle | ReadHead | ReadCheck | ReadWait | Reading | WriteHead | WriteCheck | WriteWait | Writing

record 'n gate_system =
  sy_gate :: gate_state
  sy_notify :: 'n
  sy_tasks :: "task list"

definition set_task :: "nat \<Rightarrow> task \<Rightarrow> 'n gate_system \<Rightarrow> 'n gate_system" where
  "set_task t p s = s\<lparr>sy_tasks := (sy_tasks s)[t := p]\<rparr>"

definition released :: "'n notify_ops \<Rightarrow> gate_state \<times> bool \<Rightarrow> 'n gate_system \<Rightarrow> 'n gate_system" where
  "released nf r s = s\<lparr>sy_gate := fst r, sy_notify := (if snd r then nf_notify_waiters nf (sy_notify s) else sy_notify s)\<rparr>"

text \<open>The labels: a call, a step of a pending call, the end of a guard's life, the cancellation of a waiting call.\<close>

datatype gate_event = CallRead nat | CallWrite nat | Go nat | Unlock nat | Cancel nat

fun gate_do :: "'n notify_ops \<Rightarrow> gate_event \<Rightarrow> 'n gate_system \<Rightarrow> 'n gate_system option" where
  "gate_do nf (CallRead t) s =
     (if t < length (sy_tasks s) \<and> sy_tasks s ! t = Idle then Some (set_task t ReadHead s) else None)"
| "gate_do nf (CallWrite t) s =
     (if t < length (sy_tasks s) \<and> sy_tasks s ! t = Idle then Some (set_task t WriteHead (s\<lparr>sy_gate := waiter_new (sy_gate s)\<rparr>)) else None)"
| "gate_do nf (Go t) s =
     (if t < length (sy_tasks s) then
        case sy_tasks s ! t of
          ReadHead \<Rightarrow> Some (set_task t ReadCheck (s\<lparr>sy_notify := nf_enable nf t (sy_notify s)\<rparr>))
        | ReadCheck \<Rightarrow> (case read_try (sy_gate s) of
              Some g \<Rightarrow> Some (set_task t Reading (s\<lparr>sy_gate := g, sy_notify := nf_drop nf t (sy_notify s)\<rparr>))
            | None \<Rightarrow> Some (set_task t ReadWait s))
        | ReadWait \<Rightarrow> if nf_ready nf t (sy_notify s)
            then Some (set_task t ReadHead (s\<lparr>sy_notify := nf_drop nf t (sy_notify s)\<rparr>)) else None
        | WriteHead \<Rightarrow> Some (set_task t WriteCheck (s\<lparr>sy_notify := nf_enable nf t (sy_notify s)\<rparr>))
        | WriteCheck \<Rightarrow> (case write_try (sy_gate s) of
              Some g \<Rightarrow> Some (set_task t Writing (s\<lparr>sy_gate := g, sy_notify := nf_drop nf t (sy_notify s)\<rparr>))
            | None \<Rightarrow> Some (set_task t WriteWait s))
        | WriteWait \<Rightarrow> if nf_ready nf t (sy_notify s)
            then Some (set_task t WriteHead (s\<lparr>sy_notify := nf_drop nf t (sy_notify s)\<rparr>)) else None
        | _ \<Rightarrow> None
      else None)"
| "gate_do nf (Unlock t) s =
     (if t < length (sy_tasks s) then
        case sy_tasks s ! t of
          Reading \<Rightarrow> Some (set_task t Idle (released nf (read_unlock (sy_gate s)) s))
        | Writing \<Rightarrow> Some (set_task t Idle (released nf (write_unlock (sy_gate s)) s))
        | _ \<Rightarrow> None
      else None)"
| "gate_do nf (Cancel t) s =
     (if t < length (sy_tasks s) then
        case sy_tasks s ! t of
          ReadWait \<Rightarrow> Some (set_task t Idle (s\<lparr>sy_notify := nf_drop nf t (sy_notify s)\<rparr>))
        | WriteWait \<Rightarrow> Some (set_task t Idle (released nf (waiting_dec (sy_gate s)) (s\<lparr>sy_notify := nf_drop nf t (sy_notify s)\<rparr>)))
        | _ \<Rightarrow> None
      else None)"

fun gate_run :: "'n notify_ops \<Rightarrow> gate_event list \<Rightarrow> 'n gate_system \<Rightarrow> 'n gate_system option" where
  "gate_run nf [] s = Some s"
| "gate_run nf (e # es) s = Option.bind (gate_do nf e s) (gate_run nf es)"

definition gate_start :: "nat \<Rightarrow> 'n \<Rightarrow> 'n gate_system" where
  "gate_start n nt = \<lparr>sy_gate = gate_new, sy_notify = nt, sy_tasks = replicate n Idle\<rparr>"

section \<open>Invariant\<close>

definition cnt :: "('a \<Rightarrow> bool) \<Rightarrow> 'a list \<Rightarrow> nat" where
  "cnt P xs = length (filter P xs)"

lemma cnt_update: "i < length xs \<Longrightarrow> cnt P (xs[i := v]) + of_bool (P (xs ! i)) = cnt P xs + of_bool (P v)"
proof (induction xs arbitrary: i)
  case (Cons x xs)
  then show ?case using Cons.IH [of "i - 1"] by (cases i) (simp_all add: cnt_def)
qed simp

lemma cnt_le: "cnt P xs \<le> length xs"
  by (simp add: cnt_def)

lemma cnt_pos: "i < length xs \<Longrightarrow> P (xs ! i) \<Longrightarrow> 0 < cnt P xs"
  by (auto simp: cnt_def filter_empty_conv)

definition pending_writer :: "task \<Rightarrow> bool" where
  "pending_writer p \<longleftrightarrow> p \<in> {WriteHead, WriteCheck, WriteWait}"

text \<open>What keeps a waiting task from sleeping for ever: its future is ready, or the reason to wait still holds.\<close>

definition wait_ok :: "'n notify_ops \<Rightarrow> gate_state \<Rightarrow> 'n \<Rightarrow> nat \<Rightarrow> task \<Rightarrow> bool" where
  "wait_ok nf g n t p \<longleftrightarrow>
     (p \<in> {ReadCheck, ReadWait, WriteCheck, WriteWait} \<longrightarrow> nf_enabled nf t n)
     \<and> (p = ReadWait \<longrightarrow> nf_ready nf t n \<or> gs_writing g \<or> 0 < gs_writers_waiting g)
     \<and> (p = WriteWait \<longrightarrow> nf_ready nf t n \<or> gs_writing g \<or> 0 < gs_readers g)"

definition counters_ok :: "gate_state \<Rightarrow> task list \<Rightarrow> bool" where
  "counters_ok g ts \<longleftrightarrow> gs_readers g = cnt (\<lambda>p. p = Reading) ts \<and> gs_writers_waiting g = cnt pending_writer ts
     \<and> cnt (\<lambda>p. p = Writing) ts = of_bool (gs_writing g) \<and> (gs_writing g \<longrightarrow> gs_readers g = 0)"

definition gate_inv :: "'n notify_ops \<Rightarrow> 'n gate_system \<Rightarrow> bool" where
  "gate_inv nf s \<longleftrightarrow> counters_ok (sy_gate s) (sy_tasks s)
     \<and> (\<forall>t < length (sy_tasks s). wait_ok nf (sy_gate s) (sy_notify s) t (sy_tasks s ! t))"

lemma wait_ok_step:
  assumes "notify_contract nf" and "wait_ok nf g n u p" and "u \<noteq> t"
    and "n' \<in> {n, nf_enable nf t n, nf_drop nf t n}"
    and "gs_writing g \<or> 0 < gs_writers_waiting g \<Longrightarrow> gs_writing g' \<or> 0 < gs_writers_waiting g'"
    and "gs_writing g \<or> 0 < gs_readers g \<Longrightarrow> gs_writing g' \<or> 0 < gs_readers g'"
  shows "wait_ok nf g' n' u p"
proof -
  have "(nf_enabled nf u n \<longrightarrow> nf_enabled nf u n') \<and> (nf_ready nf u n \<longrightarrow> nf_ready nf u n')"
    using assms(1,3,4) by (auto simp: notify_contract_def)
  then show ?thesis using assms(2,5,6) by (auto simp: wait_ok_def)
qed

lemma wait_ok_notified:
  assumes "notify_contract nf" and "wait_ok nf g n u p"
  shows "wait_ok nf g' (nf_notify_waiters nf n) u p"
  using assms by (auto simp: notify_contract_def wait_ok_def)

lemma gate_inv_update:
  assumes "t < length ts" and "counters_ok g' (ts[t := p])" and "wait_ok nf g' n' t p"
    and "\<And>u. u < length ts \<Longrightarrow> u \<noteq> t \<Longrightarrow> wait_ok nf g' n' u (ts ! u)"
  shows "gate_inv nf \<lparr>sy_gate = g', sy_notify = n', sy_tasks = ts[t := p]\<rparr>"
  using assms by (auto simp: gate_inv_def nth_list_update)

lemma counters_update:
  assumes "counters_ok g ts" and "t < length ts" and "length ts \<le> u32_top"
  shows "cnt (\<lambda>p. p = Reading) (ts[t := p]) + of_bool (ts ! t = Reading) = gs_readers g + of_bool (p = Reading)"
    and "cnt pending_writer (ts[t := p]) + of_bool (pending_writer (ts ! t)) = gs_writers_waiting g + of_bool (pending_writer p)"
    and "cnt (\<lambda>p. p = Writing) (ts[t := p]) + of_bool (ts ! t = Writing) = of_bool (gs_writing g) + of_bool (p = Writing)"
    and "cnt (\<lambda>p. p = Reading) (ts[t := p]) \<le> u32_top" and "cnt pending_writer (ts[t := p]) \<le> u32_top"
  using assms cnt_update [of t ts "\<lambda>p. p = Reading" p] cnt_update [of t ts pending_writer p] cnt_update [of t ts "\<lambda>p. p = Writing" p]
    cnt_le [of "\<lambda>p. p = Reading" "ts[t := p]"] cnt_le [of pending_writer "ts[t := p]"]
  by (simp_all add: counters_ok_def)

lemma gate_inv_quiet:
  assumes "notify_contract nf" and "gate_inv nf \<lparr>sy_gate = g, sy_notify = n, sy_tasks = ts\<rparr>" and "t < length ts"
    and "n' \<in> {n, nf_enable nf t n, nf_drop nf t n}" and "counters_ok g' (ts[t := p])" and "wait_ok nf g' n' t p"
    and "gs_writing g \<or> 0 < gs_writers_waiting g \<Longrightarrow> gs_writing g' \<or> 0 < gs_writers_waiting g'"
    and "gs_writing g \<or> 0 < gs_readers g \<Longrightarrow> gs_writing g' \<or> 0 < gs_readers g'"
  shows "gate_inv nf \<lparr>sy_gate = g', sy_notify = n', sy_tasks = ts[t := p]\<rparr>"
proof (rule gate_inv_update [OF assms(3,5,6)])
  fix u assume "u < length ts" "u \<noteq> t"
  then have "wait_ok nf g n u (ts ! u)" using assms(2) by (simp add: gate_inv_def)
  then show "wait_ok nf g' n' u (ts ! u)" using wait_ok_step [OF assms(1) _ \<open>u \<noteq> t\<close> assms(4), of g "ts ! u" g'] assms(7,8) by simp
qed

lemma gate_inv_notified:
  assumes "notify_contract nf" and "gate_inv nf \<lparr>sy_gate = g, sy_notify = n, sy_tasks = ts\<rparr>" and "t < length ts"
    and "n0 \<in> {n, nf_drop nf t n}" and "counters_ok g' (ts[t := Idle])"
  shows "gate_inv nf \<lparr>sy_gate = g', sy_notify = nf_notify_waiters nf n0, sy_tasks = ts[t := Idle]\<rparr>"
proof (rule gate_inv_update [OF assms(3,5)])
  show "wait_ok nf g' (nf_notify_waiters nf n0) t Idle" by (simp add: wait_ok_def)
  fix u assume "u < length ts" "u \<noteq> t"
  then have "wait_ok nf g n u (ts ! u)" using assms(2) by (simp add: gate_inv_def)
  then have "wait_ok nf g n0 u (ts ! u)" using wait_ok_step [OF assms(1) _ \<open>u \<noteq> t\<close>, of g n "ts ! u" n0 g] assms(4) by blast
  then show "wait_ok nf g' (nf_notify_waiters nf n0) u (ts ! u)" by (rule wait_ok_notified [OF assms(1)])
qed

lemma counters_same:
  assumes "counters_ok g ts" and "t < length ts" and "ts ! t = Reading \<longleftrightarrow> p = Reading" and "ts ! t = Writing \<longleftrightarrow> p = Writing"
    and "pending_writer (ts ! t) \<longleftrightarrow> pending_writer p"
  shows "counters_ok g (ts[t := p])"
  using assms cnt_update [of t ts "\<lambda>p. p = Reading" p] cnt_update [of t ts pending_writer p] cnt_update [of t ts "\<lambda>p. p = Writing" p]
  by (auto simp: counters_ok_def)

lemma wrapping_dec: "0 < k \<Longrightarrow> k \<le> u32_top \<Longrightarrow> (k + u32_top) mod 2 ^ 32 = k - 1"
proof -
  assume k: "0 < k" "k \<le> u32_top"
  then have "k + u32_top = (k - 1) + 2 ^ 32" "k - 1 < 2 ^ 32" by (simp_all add: u32_top_def)
  then show ?thesis by (simp only: mod_add_self2 mod_less)
qed

lemma gate_go_inv:
  assumes c: "notify_contract nf" and inv: "gate_inv nf s" and len: "length (sy_tasks s) \<le> u32_top" and d: "gate_do nf (Go t) s = Some s'"
  shows "gate_inv nf s' \<and> length (sy_tasks s') = length (sy_tasks s)"
proof -
  obtain g n ts where s: "s = \<lparr>sy_gate = g, sy_notify = n, sy_tasks = ts\<rparr>" by (cases s)
  have t: "t < length ts" using d s by (simp split: if_splits)
  note q = gate_inv_quiet [OF c inv [unfolded s] t]
  have co: "counters_ok g ts" and wt: "wait_ok nf g n t (ts ! t)" using inv t by (simp_all add: s gate_inv_def)
  have same: "gate_inv nf \<lparr>sy_gate = g, sy_notify = n', sy_tasks = ts[t := p]\<rparr>"
    if "n' \<in> {n, nf_enable nf t n, nf_drop nf t n}" "wait_ok nf g n' t p" "ts ! t = Reading \<longleftrightarrow> p = Reading" "ts ! t = Writing \<longleftrightarrow> p = Writing"
      "pending_writer (ts ! t) \<longleftrightarrow> pending_writer p" for n' p
    using q [OF that(1) counters_same [OF co t that(3-5)] that(2)] by simp
  have en: "nf_enabled nf t (nf_enable nf t n)" using c by (simp add: notify_contract_def)
  note cu = counters_update [OF co t len [unfolded s, simplified]]
  note defs = s set_task_def t wait_ok_def pending_writer_def
  show ?thesis
  proof (cases "ts ! t")
    case ReadHead
    then show ?thesis using d same [of "nf_enable nf t n" ReadCheck] en by (auto simp: defs)
  next
    case ReadCheck
    show ?thesis
    proof (cases "read_try g")
      case None
      then show ?thesis using d same [of n ReadWait] wt ReadCheck by (auto simp: defs read_try_def split: if_splits)
    next
      case (Some g')
      then have "g' = g\<lparr>gs_readers := gs_readers g + 1\<rparr>" "\<not> gs_writing g" "gs_writers_waiting g = 0" "counters_ok g' (ts[t := Reading])"
        using cu [of Reading] co ReadCheck by (auto simp: read_try_def counters_ok_def pending_writer_def split: if_splits)
      then show ?thesis using d q [of "nf_drop nf t n" g' Reading] Some ReadCheck by (auto simp: defs)
    qed
  next
    case WriteCheck
    show ?thesis
    proof (cases "write_try g")
      case None
      then show ?thesis using d same [of n WriteWait] wt WriteCheck by (auto simp: defs write_try_def split: if_splits)
    next
      case (Some g')
      have "0 < gs_writers_waiting g" "gs_writers_waiting g \<le> u32_top"
        using co WriteCheck cnt_pos [OF t, of pending_writer] cnt_le [of pending_writer ts] len by (simp_all add: s counters_ok_def pending_writer_def)
      then have "(gs_writers_waiting g + u32_top) mod 2 ^ 32 = gs_writers_waiting g - 1" by (rule wrapping_dec)
      then have "g' = g\<lparr>gs_writing := True, gs_writers_waiting := gs_writers_waiting g - 1\<rparr>" "counters_ok g' (ts[t := Writing])"
        using Some cu [of Writing] co WriteCheck by (auto simp: write_try_def counters_ok_def pending_writer_def split: if_splits)
      then show ?thesis using d q [of "nf_drop nf t n" g' Writing] Some WriteCheck by (auto simp: defs)
    qed
  next
    case ReadWait
    then show ?thesis using d same [of "nf_drop nf t n" ReadHead] by (auto simp: defs split: if_splits)
  next
    case WriteHead
    then show ?thesis using d same [of "nf_enable nf t n" WriteCheck] en by (auto simp: defs)
  next
    case WriteWait
    then show ?thesis using d same [of "nf_drop nf t n" WriteHead] by (auto simp: defs split: if_splits)
  qed (use d in \<open>simp_all add: s t\<close>)
qed

lemma gate_do_inv:
  assumes c: "notify_contract nf" and inv: "gate_inv nf s" and len: "length (sy_tasks s) \<le> u32_top" and d: "gate_do nf e s = Some s'"
  shows "gate_inv nf s' \<and> length (sy_tasks s') = length (sy_tasks s)"
proof -
  obtain g n ts where s: "s = \<lparr>sy_gate = g, sy_notify = n, sy_tasks = ts\<rparr>" by (cases s)
  have co: "counters_ok g ts" using inv by (simp add: s gate_inv_def)
  note q = gate_inv_quiet [OF c inv [unfolded s]] and nt = gate_inv_notified [OF c inv [unfolded s]]
  note cu = counters_update [OF co _ len [unfolded s, simplified]]
  show ?thesis
  proof (cases e)
    case (CallRead t)
    then show ?thesis using d counters_same [OF co, of t ReadHead] q [of t n g ReadHead]
      by (auto simp: s set_task_def wait_ok_def pending_writer_def split: if_splits)
  next
    case (CallWrite t)
    then have t: "t < length ts" "ts ! t = Idle" using d by (simp_all add: s split: if_splits)
    have "counters_ok (waiter_new g) (ts[t := WriteHead])" using cu [OF t(1), of WriteHead] t co
      by (auto simp: waiter_new_def counters_ok_def pending_writer_def)
    moreover have "0 < gs_writers_waiting (waiter_new g)" by (simp add: waiter_new_def u32_top_def)
    ultimately show ?thesis using d CallWrite t q [of t n "waiter_new g" WriteHead] by (auto simp: s set_task_def wait_ok_def waiter_new_def)
  next
    case (Go t)
    then show ?thesis using gate_go_inv [OF c inv len] d by blast
  next
    case (Unlock t)
    then have t: "t < length ts" "ts ! t = Reading \<or> ts ! t = Writing" using d by (auto simp: s split: if_splits task.splits)
    show ?thesis
    proof (cases "ts ! t = Reading")
      case True
      let ?g = "g\<lparr>gs_readers := gs_readers g - 1\<rparr>"
      have "counters_ok ?g (ts[t := Idle])" using cu [OF t(1), of Idle] True co by (auto simp: counters_ok_def pending_writer_def)
      then show ?thesis using d Unlock t(1) True nt [of t n ?g] q [of t n ?g Idle] co
        by (auto simp: s set_task_def released_def read_unlock_def Let_def wait_ok_def counters_ok_def)
    next
      case False
      let ?g = "g\<lparr>gs_writing := False\<rparr>"
      have "counters_ok ?g (ts[t := Idle])" using cu [OF t(1), of Idle] t False co by (cases "gs_writing g") (auto simp: counters_ok_def pending_writer_def)
      then show ?thesis using d Unlock t False nt [of t n ?g] by (auto simp: s set_task_def released_def write_unlock_def)
    qed
  next
    case (Cancel t)
    then have t: "t < length ts" "ts ! t = ReadWait \<or> ts ! t = WriteWait" using d by (auto simp: s split: if_splits task.splits)
    show ?thesis
    proof (cases "ts ! t = ReadWait")
      case True
      then show ?thesis using d Cancel t(1) counters_same [OF co, of t Idle] q [of t "nf_drop nf t n" g Idle]
        by (auto simp: s set_task_def wait_ok_def pending_writer_def)
    next
      case False
      let ?g = "g\<lparr>gs_writers_waiting := gs_writers_waiting g - 1\<rparr>"
      have "counters_ok ?g (ts[t := Idle])" using cu [OF t(1), of Idle] t False co by (auto simp: counters_ok_def pending_writer_def)
      then show ?thesis using d Cancel t False nt [of t "nf_drop nf t n" ?g] by (auto simp: s set_task_def released_def waiting_dec_def)
    qed
  qed
qed

lemma gate_run_inv:
  "notify_contract nf \<Longrightarrow> gate_inv nf s \<Longrightarrow> length (sy_tasks s) \<le> u32_top \<Longrightarrow> gate_run nf es s = Some s' \<Longrightarrow>
    gate_inv nf s' \<and> length (sy_tasks s') = length (sy_tasks s)"
proof (induction es arbitrary: s)
  case (Cons e es)
  then obtain s1 where s1: "gate_do nf e s = Some s1" "gate_run nf es s1 = Some s'" by (auto simp: bind_eq_Some_conv)
  then show ?case using gate_do_inv [OF Cons.prems(1-3) s1(1)] Cons.IH [OF Cons.prems(1) _ _ s1(2)] Cons.prems(3) by simp
qed simp

lemma gate_start_inv: "gate_inv nf (gate_start n nt)"
  by (simp add: gate_inv_def gate_start_def counters_ok_def gate_new_def cnt_def wait_ok_def pending_writer_def)

text \<open>
  C13. The gate in every interleaving of calls, wake-ups, unlocks and cancellations of fewer than \<open>2 ^ 32\<close> tasks: there
  is at most one writer and none together with a reader, the three fields count exactly the tasks that read, wait to
  write and write, so no counter saturates or wraps, and a read guard is only handed out when no writer holds or awaits
  the gate.
\<close>

theorem gate_exclusion:
  assumes "notify_contract nf" and "n \<le> u32_top" and "gate_run nf es (gate_start n nt) = Some s"
  shows "cnt (\<lambda>p. p = Writing) (sy_tasks s) \<le> 1
    \<and> (cnt (\<lambda>p. p = Writing) (sy_tasks s) = 0 \<or> cnt (\<lambda>p. p = Reading) (sy_tasks s) = 0)
    \<and> gs_readers (sy_gate s) = cnt (\<lambda>p. p = Reading) (sy_tasks s)
    \<and> gs_writers_waiting (sy_gate s) = cnt pending_writer (sy_tasks s)
    \<and> (gs_writing (sy_gate s) \<longleftrightarrow> 0 < cnt (\<lambda>p. p = Writing) (sy_tasks s))
    \<and> (\<forall>t s'. gate_do nf (Go t) s = Some s' \<and> sy_tasks s' ! t = Reading \<longrightarrow>
        cnt (\<lambda>p. p = Writing \<or> pending_writer p) (sy_tasks s) = 0)"
proof -
  have i: "gate_inv nf s" using gate_run_inv [OF assms(1) gate_start_inv _ assms(3)] assms(2) by (simp add: gate_start_def)
  then have c: "counters_ok (sy_gate s) (sy_tasks s)" by (simp add: gate_inv_def)
  have both: "cnt (\<lambda>p. p = Writing \<or> pending_writer p) xs \<le> cnt (\<lambda>p. p = Writing) xs + cnt pending_writer xs" for xs
    by (induction xs) (auto simp: cnt_def)
  have "cnt (\<lambda>p. p = Writing \<or> pending_writer p) (sy_tasks s) = 0" if "gate_do nf (Go t) s = Some s'" "sy_tasks s' ! t = Reading" for t s'
  proof -
    have "read_try (sy_gate s) \<noteq> None" using that by (auto simp: set_task_def split: if_splits task.splits option.splits)
    then have "\<not> gs_writing (sy_gate s)" "gs_writers_waiting (sy_gate s) = 0" by (simp_all add: read_try_def split: if_splits)
    then show ?thesis using c both [of "sy_tasks s"] by (simp add: counters_ok_def)
  qed
  then have "\<forall>t s'. gate_do nf (Go t) s = Some s' \<and> sy_tasks s' ! t = Reading \<longrightarrow> cnt (\<lambda>p. p = Writing \<or> pending_writer p) (sy_tasks s) = 0"
    by blast
  moreover have "cnt (\<lambda>p. p = Writing) (sy_tasks s) \<le> 1" "gs_writing (sy_gate s) \<longleftrightarrow> 0 < cnt (\<lambda>p. p = Writing) (sy_tasks s)"
    "cnt (\<lambda>p. p = Writing) (sy_tasks s) = 0 \<or> cnt (\<lambda>p. p = Reading) (sy_tasks s) = 0"
    using c by (cases "gs_writing (sy_gate s)"; simp add: counters_ok_def)+
  ultimately show ?thesis using c by (simp only: counters_ok_def simp_thms)
qed

text \<open>A notifier that keeps the enabled and the ready futures in two lists.\<close>

definition list_notify :: "(nat list \<times> nat list) notify_ops" where
  "list_notify = \<lparr>nf_enable = (\<lambda>t (e, r). (t # e, removeAll t r)), nf_drop = (\<lambda>t (e, r). (removeAll t e, removeAll t r)),
     nf_ready = (\<lambda>t (e, r). t \<in> set r), nf_notify_waiters = (\<lambda>(e, r). (e, e @ r)), nf_enabled = (\<lambda>t (e, r). t \<in> set e)\<rparr>"

lemma list_notify_contract: "notify_contract list_notify"
  by (auto simp: notify_contract_def list_notify_def)

text \<open>A reader holds the gate, a writer and a second reader wait for it, and the first reader leaves.\<close>

definition gate_demo :: "gate_event list" where
  "gate_demo = [CallRead 0, Go 0, Go 0, CallWrite 1, Go 1, Go 1, CallRead 2, Go 2, Go 2]"

lemma u32_top_eq: "u32_top = 4294967295"
  by (simp add: u32_top_def)

lemma gate_demo_runs:
  "map_option sy_tasks (gate_run list_notify gate_demo (gate_start 3 ([], []))) = Some [Reading, WriteWait, ReadWait]"
  "map_option sy_tasks (gate_run list_notify (gate_demo @ [Unlock 0]) (gate_start 3 ([], []))) = Some [Idle, WriteWait, ReadWait]"
  by (simp_all add: gate_demo_def gate_start_def gate_new_def list_notify_def set_task_def released_def read_try_def write_try_def
    waiter_new_def read_unlock_def u32_top_eq numeral_3_eq_3 numeral_2_eq_2)

theorem gate_exclusion_witness:
  "\<exists>s. gate_run list_notify gate_demo (gate_start 3 ([], [])) = Some s \<and> sy_tasks s = [Reading, WriteWait, ReadWait]
    \<and> gs_readers (sy_gate s) = 1 \<and> gs_writers_waiting (sy_gate s) = 1"
proof -
  from gate_demo_runs(1) obtain s where s: "gate_run list_notify gate_demo (gate_start 3 ([], [])) = Some s" "sy_tasks s = [Reading, WriteWait, ReadWait]"
    by auto
  from gate_exclusion [OF list_notify_contract _ s(1)] s show ?thesis by (auto simp: u32_top_def cnt_def pending_writer_def)
qed

lemma pending_writer_runs:
  assumes "t < length (sy_tasks s)" and "pending_writer (sy_tasks s ! t)" and "gs_readers (sy_gate s) = 0" and "\<not> gs_writing (sy_gate s)"
    and "wait_ok nf (sy_gate s) (sy_notify s) t (sy_tasks s ! t)"
  shows "\<exists>k s'. k \<le> 3 \<and> gate_run nf (replicate k (Go t)) s = Some s' \<and> sy_tasks s' ! t = Writing"
proof -
  consider "sy_tasks s ! t = WriteCheck" | "sy_tasks s ! t = WriteHead" | "sy_tasks s ! t = WriteWait"
    using assms(2) by (auto simp: pending_writer_def)
  then show ?thesis
  proof cases
    case 1
    then show ?thesis using assms by (intro exI [of _ 1]) (simp add: set_task_def write_try_def)
  next
    case 2
    then show ?thesis using assms by (intro exI [of _ 2]) (simp add: set_task_def write_try_def numeral_2_eq_2)
  next
    case 3
    then have "nf_ready nf t (sy_notify s)" using assms by (simp add: wait_ok_def)
    then show ?thesis using 3 assms by (intro exI [of _ 3]) (simp add: set_task_def write_try_def numeral_3_eq_3)
  qed
qed

lemma pending_reader_runs:
  assumes "t < length (sy_tasks s)" and "sy_tasks s ! t \<in> {ReadHead, ReadCheck, ReadWait}" and "gs_writers_waiting (sy_gate s) = 0"
    and "\<not> gs_writing (sy_gate s)" and "wait_ok nf (sy_gate s) (sy_notify s) t (sy_tasks s ! t)"
  shows "\<exists>k s'. k \<le> 3 \<and> gate_run nf (replicate k (Go t)) s = Some s' \<and> sy_tasks s' ! t = Reading"
proof -
  consider "sy_tasks s ! t = ReadCheck" | "sy_tasks s ! t = ReadHead" | "sy_tasks s ! t = ReadWait" using assms(2) by auto
  then show ?thesis
  proof cases
    case 1
    then show ?thesis using assms by (intro exI [of _ 1]) (simp add: set_task_def read_try_def)
  next
    case 2
    then show ?thesis using assms by (intro exI [of _ 2]) (simp add: set_task_def read_try_def numeral_2_eq_2)
  next
    case 3
    then have "nf_ready nf t (sy_notify s)" using assms by (simp add: wait_ok_def)
    then show ?thesis using 3 assms by (intro exI [of _ 3]) (simp add: set_task_def read_try_def numeral_3_eq_3)
  qed
qed

text \<open>
  C9. No wake-up is lost: in every reachable state in which nobody holds the gate, every waiting writer obtains it by at
  most three steps of its own, and if no writer waits so does every waiting reader, whatever unlocks and cancellations
  happened between registering the future and going to sleep.
\<close>

theorem gate_progress:
  assumes "notify_contract nf" and "n \<le> u32_top" and "gate_run nf es (gate_start n nt) = Some s" and "t < n"
    and "cnt (\<lambda>p. p = Writing) (sy_tasks s) = 0" and "cnt (\<lambda>p. p = Reading) (sy_tasks s) = 0"
  shows "(pending_writer (sy_tasks s ! t) \<longrightarrow>
      (\<exists>k s'. k \<le> 3 \<and> gate_run nf (replicate k (Go t)) s = Some s' \<and> sy_tasks s' ! t = Writing))
    \<and> (sy_tasks s ! t \<in> {ReadHead, ReadCheck, ReadWait} \<and> cnt pending_writer (sy_tasks s) = 0 \<longrightarrow>
      (\<exists>k s'. k \<le> 3 \<and> gate_run nf (replicate k (Go t)) s = Some s' \<and> sy_tasks s' ! t = Reading))"
proof -
  have i: "gate_inv nf s" "length (sy_tasks s) = n"
    using gate_run_inv [OF assms(1) gate_start_inv _ assms(3)] assms(2) by (simp_all add: gate_start_def)
  then have g: "gs_readers (sy_gate s) = 0" "\<not> gs_writing (sy_gate s)" "gs_writers_waiting (sy_gate s) = cnt pending_writer (sy_tasks s)"
    and w: "wait_ok nf (sy_gate s) (sy_notify s) t (sy_tasks s ! t)"
    using assms(4-6) by (simp_all add: gate_inv_def counters_ok_def)
  have t: "t < length (sy_tasks s)" using i(2) assms(4) by simp
  have "\<exists>k s'. k \<le> 3 \<and> gate_run nf (replicate k (Go t)) s = Some s' \<and> sy_tasks s' ! t = Writing" if "pending_writer (sy_tasks s ! t)"
    using pending_writer_runs [OF t that g(1,2) w] .
  moreover have "\<exists>k s'. k \<le> 3 \<and> gate_run nf (replicate k (Go t)) s = Some s' \<and> sy_tasks s' ! t = Reading"
    if "sy_tasks s ! t \<in> {ReadHead, ReadCheck, ReadWait}" "cnt pending_writer (sy_tasks s) = 0"
    using pending_reader_runs [OF t that(1) _ g(2) w] that(2) g(3) by simp
  ultimately show ?thesis by blast
qed

theorem gate_progress_witness:
  "\<exists>s k s'. gate_run list_notify (gate_demo @ [Unlock 0]) (gate_start 3 ([], [])) = Some s \<and> sy_tasks s = [Idle, WriteWait, ReadWait]
    \<and> k \<le> 3 \<and> gate_run list_notify (replicate k (Go 1)) s = Some s' \<and> sy_tasks s' ! 1 = Writing"
proof -
  from gate_demo_runs(2) obtain s where
    s: "gate_run list_notify (gate_demo @ [Unlock 0]) (gate_start 3 ([], [])) = Some s" "sy_tasks s = [Idle, WriteWait, ReadWait]" by auto
  have c: "cnt (\<lambda>p. p = Writing) (sy_tasks s) = 0" "cnt (\<lambda>p. p = Reading) (sy_tasks s) = 0" "pending_writer (sy_tasks s ! 1)"
    by (simp_all add: s(2) cnt_def pending_writer_def)
  have "(3 :: nat) \<le> u32_top" "(1 :: nat) < 3" by (simp_all add: u32_top_def)
  from gate_progress [OF list_notify_contract this(1) s(1) this(2) c(1,2)] c(3) show ?thesis using s by blast
qed

end
