(* ===== verification/Spec2Isabelle.thy ===== *)
theory Spec2Isabelle
  imports PlockTable SliceTraces MetaWrite ClientCoherence DataPacks ObjectIndex Bandwidth PosixAcl HandleGate
begin

text \<open>
  A verification development of BrewFS, a distributed file system. Paths below are relative to \<^verbatim>\<open>src/src/\<close>.

  \<^bold>\<open>The program.\<close> File contents are cut into chunks and chunks into blocks of an object store. A write uploads its bytes
  as a new slice and adds a row to the slice table of the metadata store; a read lets the newest slice win at each
  byte. Compaction rewrites the slices of a chunk, garbage collection removes the blocks nobody refers to, both
  concurrently with clients. The metadata store also keeps the directory tree, the attributes, the byte-range locks and
  named locks with a time to live. A client caches inodes, names and resolved paths, gates the calls on an open file and
  limits its transfer rate. The native base is a second storage format: immutable packs of data frames and
  authenticated index trees over them.

  \<^bold>\<open>Conventions\<close> (\<^verbatim>\<open>Prelude\<close>). A \<^verbatim>\<open>u64\<close> or \<^verbatim>\<open>usize\<close> is a natural number with its wrap-around or saturation written out,
  an \<^verbatim>\<open>i64\<close> an integer, code on bits works on words. A \<^verbatim>\<open>Result\<close> is a sum with the error on the left, a panic the value
  None. A database transaction is one state change and a failed one changes nothing. Tables are lists of rows.
  Clocks, SHA-256, CRC32C, zstd, the JSON codecs, the governor crate and tokio's Notify are arguments of the
  definitions, with what the code relies on as hypotheses.

  \<^bold>\<open>Theories and what they show.\<close>

  \<^item> \<^verbatim>\<open>ChunkLayout\<close> (\<^verbatim>\<open>chunk/layout.rs\<close>, \<^verbatim>\<open>span.rs\<close>), \<^verbatim>\<open>Slices\<close> (\<^verbatim>\<open>slice.rs\<close>), \<^verbatim>\<open>Intervals\<close> (\<^verbatim>\<open>utils/intervals.rs\<close>): block arithmetic,
    span splitting, fragmentation, removal of covered slices. Spans tile their range, the removal keeps the slice a
    reader takes each byte from, cutting partitions an interval set.
  \<^item> \<^verbatim>\<open>BlockStore\<close> (\<^verbatim>\<open>chunk/store.rs\<close>): the locale \<^verbatim>\<open>block_store\<close> states what clients rely on, interpreted on the in-memory
    store. \<^verbatim>\<open>ChunkIO\<close> (\<^verbatim>\<open>reader.rs\<close>, \<^verbatim>\<open>writer.rs\<close>): a read returns byte for byte what the newest covering slice stores, and
    an upload reads back.
  \<^item> \<^verbatim>\<open>SliceStore\<close>, \<^verbatim>\<open>MetaTypes\<close> (\<^verbatim>\<open>meta/stores/database/mod.rs\<close>, \<^verbatim>\<open>meta/stores/mod.rs\<close>): the slice, reservation and deletion
    tables; the locale \<^verbatim>\<open>row_rewrite\<close> carries truncation. \<^verbatim>\<open>Coalesce\<close> (\<^verbatim>\<open>chunk/store/coalesce.rs\<close>): shared objects and their
    strict parser. \<^verbatim>\<open>Compaction\<close> (\<^verbatim>\<open>chunk/compact\<close>): light and heavy compaction and one cycle of garbage collection.
  \<^item> \<^verbatim>\<open>SliceEffects\<close>, \<^verbatim>\<open>SliceSystem\<close>, \<^verbatim>\<open>SliceTraces\<close>: the concurrent system of uploads, appends, truncations, compactions and
    collections as a step relation. In every reachable state every chunk can be read, no background step changes what
    a reader sees, and an uploaded and appended payload is what is read. Coalesced writers are not steps of the system.
  \<^item> \<^verbatim>\<open>FileLock\<close> (\<^verbatim>\<open>meta/file_lock.rs\<close>), \<^verbatim>\<open>PlockTable\<close>: the lock of an owner at each byte after an update, and that no two
    owners ever hold conflicting locks.
  \<^item> \<^verbatim>\<open>Permission\<close> (\<^verbatim>\<open>meta/permission.rs\<close>), \<^verbatim>\<open>MetaNamespace\<close> (the namespace calls of the database store), \<^verbatim>\<open>NamespaceInv\<close>,
    \<^verbatim>\<open>NamespaceOps\<close>, \<^verbatim>\<open>NamespaceRename\<close>, \<^verbatim>\<open>NamespaceSteps\<close>, \<^verbatim>\<open>NamespaceResults\<close>, \<^verbatim>\<open>NamespacePaths\<close>: the invariant of the tables, that
    every call keeps it, that the tables refine an abstract directory tree, the outcome of rename, unlink and restore,
    and that the paths of an inode resolve to it.
  \<^item> \<^verbatim>\<open>GlobalLocks\<close>, \<^verbatim>\<open>MetaAttrs\<close>, \<^verbatim>\<open>MetaWrite\<close>: named locks, sizes, truncation, writes, attributes, extended attributes and the
    usage report of the same store. They keep the tree; truncation keeps the bytes below the new size and zeroes the
    rest; a write makes its slice the newest, a coalesced write has its effect once, and a chunk under a compaction
    lease takes no write.
  \<^item> \<^verbatim>\<open>PosixAcl\<close> (\<^verbatim>\<open>meta/posix_acl.rs\<close>, \<^verbatim>\<open>control/protocol.rs\<close>): the codec is a bijection onto the well-formed lists, the
    access decision in terms of the mode bits, chmod and inheritance, and where the two control evaluators differ.
  \<^item> \<^verbatim>\<open>PathCache\<close> (\<^verbatim>\<open>meta/client/path_trie.rs\<close>, \<^verbatim>\<open>client/mod.rs\<close>): the trie refines a map. \<^verbatim>\<open>InodeCache\<close>
    (\<^verbatim>\<open>client/cache.rs\<close>) and \<^verbatim>\<open>ClientNames\<close> (\<^verbatim>\<open>client/mod.rs\<close>): cached nodes, the namespace calls of the client with their cache
    updates and path resolution with symbolic links. \<^verbatim>\<open>ClientCoherence\<close>: through any sequence of calls of one client
    cached lookups and listings agree with the store, and a cached path leads where the store leads, unless it was
    cached through a symbolic link or the reverse table knew a changed directory by other paths only. An example shows
    the latter, and lemmas that lstat after stat answers the target of a link and that a removal during a listing may
    go unnoticed.
  \<^item> \<^verbatim>\<open>HandleGate\<close> (\<^verbatim>\<open>vfs/handles.rs\<close>): the reader-writer gate in all interleavings: exclusion, exact counters, and that no
    wake-up is lost. \<^verbatim>\<open>Bandwidth\<close> (\<^verbatim>\<open>chunk/bandwidth.rs\<close>): every acquisition returns and the bytes stay below rate and burst.
  \<^item> \<^verbatim>\<open>Wire\<close>, \<^verbatim>\<open>Container\<close>, \<^verbatim>\<open>Frame\<close>, \<^verbatim>\<open>DataPacks\<close>, \<^verbatim>\<open>Refs\<close>, \<^verbatim>\<open>IndexPages\<close>, \<^verbatim>\<open>IndexBuild\<close>, \<^verbatim>\<open>IndexTrees\<close> (\<^verbatim>\<open>native_base/wire\<close>),
    \<^verbatim>\<open>OrderedMaps\<close>, \<^verbatim>\<open>ObjectIndex\<close> (\<^verbatim>\<open>native_base/lifecycle/index.rs\<close>): the locale \<^verbatim>\<open>wire_codec\<close> is the contract of every field
    codec. Packs scrub to the frames they were built from and only canonical packs are accepted, pages satisfy their
    invariant, and an inventory opens to the entries it was built from at every height of its tree.

  \<^bold>\<open>Termination and bounds.\<close> Every loop is a total function with its measure, except three that are partial functions
  into options: the token loop of \<^verbatim>\<open>Bandwidth\<close>, the doubling loop of the usage report and the climb to the root; for each
  it is proved that it returns. The upward walks of the namespace carry the set of visited directories as the code does.
  There is no fuel. Limits of the code (page, key, object and name lengths, 32-bit counters) are hypotheses where a
  value may exceed them and are otherwise derived.

  \<^bold>\<open>Not modelled.\<close> The object-backed block store with its cache, compression, prefetch and upload queue, the write-back
  buffers of \<^verbatim>\<open>vfs\<close> and the FUSE, WebDAV, S3, HDFS and SDK front ends: their behaviour is scheduling and input and output
  around the modelled calls. The Redis, etcd and TiKV stores, which run server-side scripts and transactions of services
  outside the repository and promise the same trait. The open-file and slice caches of the client, its watch of other
  clients and concurrent calls of one client: a client call is one step. The workspace overlay with its
  packed snapshots and key-value stores, and the freezing, sealing, ingest, write and runtime parts of the native base, which build on the wire format
  modelled here. Sessions, quotas, observability, configuration, the command line, the console, the operator and the
  deployment tools.
\<close>

end
